(* ===== verification/Prelude.thy ===== *)
theory Prelude
  imports Main "HOL-Library.Word"
begin

text \<open>
  Shared vocabulary of the development: results of fallible code, loops that may throw,
  byte buffers, the little-endian object representation that \<open>memcpy\<close> and
  \<open>reinterpret_cast\<close> read and write, and the generic facts about them that the component
  theories rely on.
\<close>

section \<open>Results of fallible code\<close>

text \<open>
  One constructor per exception class the sources throw, carrying the message, plus
  \<open>BadVariantAccess\<close> for \<open>std::get\<close> on the wrong alternative of a variant and
  \<open>Undefined\<close> for an execution that C++ leaves undefined (an out-of-bounds read, a signed
  overflow). A theorem that an operation returns \<open>Inr\<close> therefore also shows that it
  has no undefined behaviour. \<open>Terminate\<close> is the end of the
  process by \<open>std::terminate\<close>, and \<open>Unmodelled\<close> marks the few defined executions the model stops
  at, each named where it is used.
\<close>

datatype error =
    RuntimeError string
  | LogicError string
  | OutOfRange string
  | InvalidArgument string
  | BadVariantAccess
  | Undefined string
  | Terminate
  | Unmodelled string

type_synonym 'a result = "error + 'a"

definition bindR :: "'a result \<Rightarrow> ('a \<Rightarrow> 'b result) \<Rightarrow> 'b result" where
  "bindR m f = (case m of Inl e \<Rightarrow> Inl e | Inr x \<Rightarrow> f x)"

lemma bindR_simps [simp]:
  "bindR (Inl e) f = Inl e"
  "bindR (Inr x) f = f x"
  by (simp_all add: bindR_def)

lemma bindR_Inr_iff: "bindR m f = Inr y \<longleftrightarrow> (\<exists>x. m = Inr x \<and> f x = Inr y)"
  by (cases m) simp_all

lemma bindR_InrE [elim!]:
  assumes "bindR m f = Inr y"
  obtains x where "m = Inr x" and "f x = Inr y"
  using assms by (auto simp: bindR_Inr_iff)

text \<open>A \<open>for\<close> loop over a sequence whose body may throw, and the loop that collects.\<close>

fun foldR :: "('b \<Rightarrow> 'a \<Rightarrow> 'b result) \<Rightarrow> 'b \<Rightarrow> 'a list \<Rightarrow> 'b result" where
  "foldR f s [] = Inr s"
| "foldR f s (x # xs) = bindR (f s x) (\<lambda>s'. foldR f s' xs)"

fun mapR :: "('a \<Rightarrow> 'b result) \<Rightarrow> 'a list \<Rightarrow> 'b list result" where
  "mapR f [] = Inr []"
| "mapR f (x # xs) = bindR (f x) (\<lambda>y. bindR (mapR f xs) (\<lambda>ys. Inr (y # ys)))"

lemma foldR_append: "foldR f s (xs @ ys) = bindR (foldR f s xs) (\<lambda>s'. foldR f s' ys)"
proof (induction xs arbitrary: s)
  case (Cons x xs)
  then show ?case by (cases "f s x") simp_all
qed simp

lemma mapR_Inr: "(\<And>x. x \<in> set xs \<Longrightarrow> f x = Inr (g x)) \<Longrightarrow> mapR f xs = Inr (map g xs)"
  by (induction xs) simp_all

lemma mapR_length: "mapR f xs = Inr ys \<Longrightarrow> length ys = length xs"
  by (induction xs arbitrary: ys) auto

lemma mapR_nth: "mapR f xs = Inr ys \<Longrightarrow> i < length xs \<Longrightarrow> f (xs ! i) = Inr (ys ! i)"
  by (induction xs arbitrary: ys i) (auto simp: nth_Cons split: nat.splits)

lemma mapR_cong: "(\<And>x. x \<in> set xs \<Longrightarrow> f x = g x) \<Longrightarrow> mapR f xs = mapR g xs"
  by (induction xs) simp_all

lemma mapR_map: "mapR f (map g xs) = mapR (\<lambda>x. f (g x)) xs"
  by (induction xs) simp_all

lemma mapR_upt: "mapR (\<lambda>i. f (xs ! i)) [0..<length xs] = mapR f xs"
proof -
  have "mapR f xs = mapR f (map ((!) xs) [0..<length xs])" by (simp only: map_nth)
  then show ?thesis by (simp add: mapR_map)
qed

lemma mapR_total: "(\<And>x. x \<in> set xs \<Longrightarrow> \<exists>y. f x = Inr y) \<Longrightarrow> \<exists>ys. mapR f xs = Inr ys"
proof (induction xs)
  case (Cons x xs)
  then obtain y ys where "f x = Inr y" "mapR f xs = Inr ys" by (metis list.set_intros)
  then show ?case by simp
qed simp

text \<open>
  The loop rule: an invariant indexed by the number of iterations done, kept by every
  body, gives a total-correctness statement for the whole loop over \<open>[0..<n]\<close>.
\<close>

lemma foldR_upt:
  assumes init: "P 0 s"
    and step: "\<And>i s. i < n \<Longrightarrow> P i s \<Longrightarrow> \<exists>s'. f s i = Inr s' \<and> P (Suc i) s'"
  shows "\<exists>s'. foldR f s [0..<n] = Inr s' \<and> P n s'"
  using step
proof (induction n)
  case 0
  with init show ?case by simp
next
  case (Suc n)
  obtain s' where s': "foldR f s [0..<n] = Inr s'" "P n s'"
    using Suc.IH Suc.prems by (meson less_SucI)
  obtain s'' where "f s' n = Inr s''" "P (Suc n) s''"
    using Suc.prems s'(2) by blast
  with s'(1) show ?case by (simp add: foldR_append)
qed

section \<open>Bytes and little-endian object representation\<close>

type_synonym byte = "8 word"
type_synonym u16 = "16 word"
type_synonym u32 = "32 word"
type_synonym u64 = "64 word"

lemma unat_small: "n < 2 ^ LENGTH('a) \<Longrightarrow> unat (word_of_nat n :: 'a::len word) = n"
  by (simp add: unat_of_nat)

fun le_bytes :: "nat \<Rightarrow> nat \<Rightarrow> byte list" where
  "le_bytes 0 n = []"
| "le_bytes (Suc k) n = word_of_nat (n mod 256) # le_bytes k (n div 256)"

fun le_nat :: "byte list \<Rightarrow> nat" where
  "le_nat [] = 0"
| "le_nat (b # bs) = unat b + 256 * le_nat bs"

lemma length_le_bytes [simp]: "length (le_bytes k n) = k"
  by (induction k arbitrary: n) simp_all

lemma le_nat_le_bytes: "le_nat (le_bytes k n) = n mod 256 ^ k"
proof (induction k arbitrary: n)
  case (Suc k)
  have "unat (word_of_nat (n mod 256) :: byte) = n mod 256"
    by (simp add: unat_of_nat)
  moreover have "n mod (256 * 256 ^ k) = n mod 256 + 256 * (n div 256 mod 256 ^ k)"
    by (simp add: mod_mult2_eq)
  ultimately show ?case by (simp add: Suc.IH)
qed simp

text \<open>
  \<open>PutPod\<close> appends the bytes of a fixed-width integer; \<open>GetPod\<close> reads one from the
  range \<open>[cur, end)\<close>, given as the list of the bytes that are left, and throws with the
  caller's message when fewer than \<open>sizeof(T)\<close> bytes are left. Signed integers and doubles
  are the words that represent them, on a little-endian host.
\<close>

definition sizeof_word :: "'a::len word itself \<Rightarrow> nat" where
  "sizeof_word _ = LENGTH('a) div 8"

definition PutPod :: "'a::len word \<Rightarrow> byte list" where
  "PutPod v = le_bytes (sizeof_word TYPE('a word)) (unat v)"

definition pod_of_bytes :: "byte list \<Rightarrow> 'a::len word" where
  "pod_of_bytes bs = word_of_nat (le_nat bs)"

definition GetPod :: "string \<Rightarrow> byte list \<Rightarrow> ('a::len word \<times> byte list) result" where
  "GetPod msg bs =
     (let n = sizeof_word TYPE('a word) in
      if length bs < n then Inl (RuntimeError msg)
      else Inr (pod_of_bytes (take n bs), drop n bs))"

lemma sizeof_word_simps [simp]:
  "sizeof_word TYPE(8 word) = 1"
  "sizeof_word TYPE(16 word) = 2"
  "sizeof_word TYPE(32 word) = 4"
  "sizeof_word TYPE(64 word) = 8"
  by (simp_all add: sizeof_word_def)

lemma length_PutPod [simp]: "length (PutPod (v :: 'a::len word)) = sizeof_word TYPE('a word)"
  by (simp add: PutPod_def)

lemma pod_of_bytes_PutPod:
  assumes "8 dvd LENGTH('a::len)"
  shows "pod_of_bytes (PutPod (v :: 'a word)) = v"
proof -
  have "8 * (LENGTH('a) div 8) = LENGTH('a)"
    using assms by simp
  then have "(256 :: nat) ^ (LENGTH('a) div 8) = 2 ^ LENGTH('a)"
    using power_mult [of "2 :: nat" 8 "LENGTH('a) div 8"] by simp
  then have "unat v mod 256 ^ (LENGTH('a) div 8) = unat v"
    by simp
  then show ?thesis
    by (simp add: pod_of_bytes_def PutPod_def le_nat_le_bytes sizeof_word_def)
qed

lemma GetPod_PutPod:
  assumes "8 dvd LENGTH('a::len)"
  shows "GetPod msg (PutPod (v :: 'a word) @ rest) = Inr (v, rest)"
  using pod_of_bytes_PutPod [OF assms, of v] by (simp add: GetPod_def Let_def)

subsection \<open>Strings as bytes\<close>

definition bytes_of_string :: "string \<Rightarrow> byte list" where
  "bytes_of_string s = map (\<lambda>c. word_of_nat (of_char c)) s"

definition string_of_bytes :: "byte list \<Rightarrow> string" where
  "string_of_bytes bs = map (\<lambda>b. char_of (unat b)) bs"

lemma length_bytes_of_string [simp]: "length (bytes_of_string s) = length s"
  by (simp add: bytes_of_string_def)

lemma length_string_of_bytes [simp]: "length (string_of_bytes bs) = length bs"
  by (simp add: string_of_bytes_def)

lemma string_of_bytes_of_string [simp]: "string_of_bytes (bytes_of_string s) = s"
proof -
  have "char_of (unat (word_of_nat (of_char c) :: byte)) = c" for c :: char
    using of_char_of [where ?'a = nat] nat_of_char_less_256 [of c]
    by (simp add: unat_of_nat)
  then show ?thesis
    by (simp add: string_of_bytes_def bytes_of_string_def o_def)
qed

section \<open>Codecs\<close>

text \<open>
  The interface between a serialiser and the code that reads its output back: reading
  what was written gives the value and leaves the bytes that follow. Every decoder loop
  \<open>for (i = 0; i < n; ++i) xs.push_back(Get(cur, end))\<close> is \<open>getN\<close>, and its round
  trip is proved once, for any element codec.
\<close>

fun getN :: "(byte list \<Rightarrow> ('a \<times> byte list) result) \<Rightarrow> nat \<Rightarrow> byte list \<Rightarrow> ('a list \<times> byte list) result" where
  "getN get 0 bs = Inr ([], bs)"
| "getN get (Suc n) bs =
     bindR (get bs) (\<lambda>(x, bs1). bindR (getN get n bs1) (\<lambda>(xs, bs2). Inr (x # xs, bs2)))"

locale codec =
  fixes put :: "'a \<Rightarrow> byte list"
    and get :: "byte list \<Rightarrow> ('a \<times> byte list) result"
    and ok :: "'a \<Rightarrow> bool"
  assumes get_put: "ok x \<Longrightarrow> get (put x @ rest) = Inr (x, rest)"
begin

lemma getN_puts:
  "list_all ok xs \<Longrightarrow> getN get (length xs) (concat (map put xs) @ rest) = Inr (xs, rest)"
  by (induction xs) (simp_all add: get_put)

lemma put_inj: "ok x \<Longrightarrow> ok y \<Longrightarrow> put x @ r = put y @ r' \<Longrightarrow> x = y \<and> r = r'"
  by (metis get_put Pair_inject sum.inject(2))

end

interpretation u8: codec PutPod "GetPod msg :: byte list \<Rightarrow> (8 word \<times> byte list) result" "\<lambda>_. True" for msg
  by unfold_locales (rule GetPod_PutPod, simp)

interpretation u16: codec PutPod "GetPod msg :: byte list \<Rightarrow> (16 word \<times> byte list) result" "\<lambda>_. True" for msg
  by unfold_locales (rule GetPod_PutPod, simp)

interpretation u32: codec PutPod "GetPod msg :: byte list \<Rightarrow> (32 word \<times> byte list) result" "\<lambda>_. True" for msg
  by unfold_locales (rule GetPod_PutPod, simp)

interpretation u64: codec PutPod "GetPod msg :: byte list \<Rightarrow> (64 word \<times> byte list) result" "\<lambda>_. True" for msg
  by unfold_locales (rule GetPod_PutPod, simp)

lemmas GetPod_simps [simp] = u8.get_put [OF TrueI] u16.get_put [OF TrueI]
  u32.get_put [OF TrueI] u64.get_put [OF TrueI]

section \<open>Reading and writing ranges of a buffer\<close>

named_theorems buffer_simps \<open>reads of a buffer after writes to it\<close>

definition read_at :: "nat \<Rightarrow> nat \<Rightarrow> 'a list \<Rightarrow> 'a list" where
  "read_at off n xs = take n (drop off xs)"

definition write_at :: "nat \<Rightarrow> 'a list \<Rightarrow> 'a list \<Rightarrow> 'a list" where
  "write_at off src dst = take off dst @ src @ drop (off + length src) dst"

lemma length_write_at [simp]:
  "off + length src \<le> length dst \<Longrightarrow> length (write_at off src dst) = length dst"
  by (simp add: write_at_def)

lemma length_read_at [simp]: "off + n \<le> length xs \<Longrightarrow> length (read_at off n xs) = n"
  by (simp add: read_at_def)

lemma read_write_same [buffer_simps]:
  "off + length src \<le> length dst \<Longrightarrow> n = length src \<Longrightarrow> read_at off n (write_at off src dst) = src"
  by (simp add: read_at_def write_at_def)

lemma read_write_before [buffer_simps]:
  "off + length src \<le> length dst \<Longrightarrow> o' + n \<le> off \<Longrightarrow> read_at o' n (write_at off src dst) = read_at o' n dst"
  by (auto simp: read_at_def write_at_def drop_take)

lemma read_write_after [buffer_simps]:
  "off + length src \<le> length dst \<Longrightarrow> off + length src \<le> o' \<Longrightarrow>
   read_at o' n (write_at off src dst) = read_at o' n dst"
  by (simp add: read_at_def write_at_def)

lemma read_write_append [buffer_simps]:
  "off + k + length src \<le> length dst \<Longrightarrow> n = k + length src \<Longrightarrow>
   read_at off n (write_at (off + k) src dst) = read_at off k dst @ src"
  by (simp add: read_at_def write_at_def drop_take)

lemma read_at_append_left [simp]: "off + n \<le> length xs \<Longrightarrow> read_at off n (xs @ ys) = read_at off n xs"
  by (simp add: read_at_def)

lemma read_at_append_right: "length xs \<le> off \<Longrightarrow> read_at off n (xs @ ys) = read_at (off - length xs) n ys"
  by (simp add: read_at_def)

lemma read_write_inside:
  "off + length src \<le> length dst \<Longrightarrow> off \<le> o' \<Longrightarrow> o' + n \<le> off + length src \<Longrightarrow>
   read_at o' n (write_at off src dst) = read_at (o' - off) n src"
  by (simp add: read_at_def write_at_def)

lemma length_concat_blocks: "(\<And>x. x \<in> set xs \<Longrightarrow> length (f x) = w) \<Longrightarrow> length (concat (map f xs)) = length xs * w"
  by (induction xs) simp_all

text \<open>An array of fixed-width elements, read at an index.\<close>

lemma read_at_blocks:
  assumes "\<And>x. x \<in> set xs \<Longrightarrow> length (f x) = w" and "i < length xs"
  shows "read_at (i * w) w (concat (map f xs) @ rest) = f (xs ! i)"
  using assms
proof (induction xs arbitrary: i)
  case (Cons x xs)
  show ?case
  proof (cases i)
    case 0
    then show ?thesis using Cons.prems by (simp add: read_at_def)
  next
    case (Suc j)
    then show ?thesis using Cons.IH [of j] Cons.prems by (simp add: read_at_def)
  qed
qed simp

end
