(* ===== verification/Double.thy ===== *)
theory Double
  imports Prelude
begin

text \<open>
  The C++ \<open>double\<close>: an IEEE-754 binary64 value, represented by its 64 bits, so that
  \<open>memcpy\<close> to and from an integer is the identity. Comparison follows the standard exactly
  (NaN is unordered, the two zeros are equal), and conversion from an integer rounds to
  nearest, ties to even.
\<close>

section \<open>Comparison\<close>

type_synonym double = "64 word"

definition d_sign :: "double \<Rightarrow> bool" where
  "d_sign d \<longleftrightarrow> 2 ^ 63 \<le> unat d"

definition d_magnitude :: "double \<Rightarrow> nat" where
  "d_magnitude d = unat d mod 2 ^ 63"

text \<open>An all-ones exponent with a non-zero fraction is a magnitude above that of infinity.\<close>

definition is_nan :: "double \<Rightarrow> bool" where
  "is_nan d \<longleftrightarrow> 2047 * 2 ^ 52 < d_magnitude d"

text \<open>Sign-magnitude order: for two values that are not NaN this is the numerical order.\<close>

definition d_key :: "double \<Rightarrow> int" where
  "d_key d = (if d_sign d then - int (d_magnitude d) else int (d_magnitude d))"

definition d_lt :: "double \<Rightarrow> double \<Rightarrow> bool" where
  "d_lt a b \<longleftrightarrow> \<not> is_nan a \<and> \<not> is_nan b \<and> d_key a < d_key b"

definition d_eq :: "double \<Rightarrow> double \<Rightarrow> bool" where
  "d_eq a b \<longleftrightarrow> \<not> is_nan a \<and> \<not> is_nan b \<and> d_key a = d_key b"

lemma d_lt_irrefl: "\<not> d_lt a a"
  by (simp add: d_lt_def)

lemma d_lt_trans: "d_lt a b \<Longrightarrow> d_lt b c \<Longrightarrow> d_lt a c"
  by (simp add: d_lt_def)

lemma d_lt_total: "\<not> is_nan a \<Longrightarrow> \<not> is_nan b \<Longrightarrow> d_lt a b \<or> d_eq a b \<or> d_lt b a"
  by (auto simp: d_lt_def d_eq_def)

section \<open>Conversion from integers\<close>

fun nbits :: "nat \<Rightarrow> nat" where
  "nbits n = (if n = 0 then 0 else Suc (nbits (n div 2)))"

declare nbits.simps [simp del]

lemma nbits_0 [simp]: "nbits 0 = 0"
  by (simp add: nbits.simps)

lemma nbits_upper: "n < 2 ^ nbits n"
proof (induction n rule: nbits.induct)
  case (1 n)
  show ?case
  proof (cases "n = 0")
    case False
    with 1 have "n div 2 < 2 ^ nbits (n div 2)" by blast
    then have "n < 2 * 2 ^ nbits (n div 2)" by simp
    with False show ?thesis by (subst nbits.simps) simp
  qed simp
qed

lemma nbits_lower: "0 < n \<Longrightarrow> 2 ^ nbits n \<le> 2 * n"
proof (induction n rule: nbits.induct)
  case (1 n)
  show ?case
  proof (cases "n div 2 = 0")
    case True
    with 1 show ?thesis by (simp add: nbits.simps [of n])
  next
    case False
    with 1 have "2 ^ nbits (n div 2) \<le> 2 * (n div 2)" by (metis bot_nat_0.not_eq_extremum)
    moreover have "2 * (n div 2) \<le> n" by simp
    ultimately show ?thesis using 1 by (simp add: nbits.simps [of n])
  qed
qed

lemma nbits_le_iff: "nbits n \<le> k \<longleftrightarrow> n < 2 ^ k"
proof
  assume "nbits n \<le> k"
  then have "(2::nat) ^ nbits n \<le> 2 ^ k" by simp
  then show "n < 2 ^ k" using nbits_upper [of n] by linarith
next
  assume *: "n < 2 ^ k"
  show "nbits n \<le> k"
  proof (rule ccontr)
    assume "\<not> nbits n \<le> k"
    then have "(2::nat) ^ Suc k \<le> 2 ^ nbits n" by (intro power_increasing) auto
    moreover have "0 < n" using \<open>\<not> nbits n \<le> k\<close> by (cases n) auto
    ultimately show False using nbits_lower [of n] * by simp
  qed
qed

lemma nbits_mono: "m \<le> n \<Longrightarrow> nbits m \<le> nbits n"
  using nbits_upper [of n] by (simp add: nbits_le_iff)

text \<open>
  \<open>round_shift m s\<close> is \<open>m / 2\<^sup>s\<close> rounded to nearest, ties to even;
  \<open>mag_of_nat\<close> is the magnitude (exponent and fraction fields) of the double nearest to
  \<open>m\<close>. The significand \<open>q\<close> keeps its leading one, so adding it to the field of the
  exponent below carries a rounding overflow into the exponent.
\<close>

definition round_shift :: "nat \<Rightarrow> nat \<Rightarrow> nat" where
  "round_shift m s =
     (let q = m div 2 ^ s; r = m mod 2 ^ s in
      if 2 ^ s < 2 * r \<or> (2 ^ s = 2 * r \<and> odd q) then q + 1 else q)"

definition significand :: "nat \<Rightarrow> nat" where
  "significand m = (let l = nbits m in
     if l \<le> 53 then m * 2 ^ (53 - l) else round_shift m (l - 53))"

definition mag_of_nat :: "nat \<Rightarrow> nat" where
  "mag_of_nat m = (if m = 0 then 0 else (nbits m + 1021) * 2 ^ 52 + significand m)"

definition double_of_int :: "int \<Rightarrow> double" where
  "double_of_int n =
     (if n < 0 then word_of_nat (2 ^ 63 + mag_of_nat (nat (- n))) else word_of_nat (mag_of_nat (nat n)))"

lemma round_shift_mono:
  assumes "m \<le> n"
  shows "round_shift m s \<le> round_shift n s"
proof (cases "m div 2 ^ s = n div 2 ^ s")
  case True
  have "m mod 2 ^ s \<le> n mod 2 ^ s"
    using assms True
    by (metis add_le_cancel_left div_mult_mod_eq)
  with True show ?thesis by (auto simp: round_shift_def Let_def)
next
  case False
  with assms have "m div 2 ^ s < n div 2 ^ s"
    by (simp add: div_le_mono order_neq_le_trans)
  then show ?thesis by (auto simp: round_shift_def Let_def)
qed

lemma significand_bounds:
  assumes "0 < m"
  shows "2 ^ 52 \<le> significand m" and "significand m \<le> 2 ^ 53"
    and "m < 2 ^ 53 \<Longrightarrow> significand m < 2 ^ 53"
proof -
  let ?l = "nbits m"
  have lo: "2 ^ ?l \<le> 2 * m" and hi: "m < 2 ^ ?l"
    using assms nbits_lower nbits_upper by auto
  have small: "2 ^ 52 \<le> significand m \<and> significand m < 2 ^ 53" if "?l \<le> 53"
  proof -
    have eq: "(2::nat) ^ 53 = 2 ^ ?l * 2 ^ (53 - ?l)"
      using that by (simp flip: power_add)
    have "(2::nat) ^ 53 \<le> 2 * (m * 2 ^ (53 - ?l))"
      unfolding eq using mult_right_mono [OF lo, of "2 ^ (53 - ?l)"] by (simp add: mult.assoc)
    moreover have "m * 2 ^ (53 - ?l) < 2 ^ 53"
      unfolding eq using hi by simp
    ultimately show ?thesis using that by (simp add: significand_def Let_def)
  qed
  have big: "2 ^ 52 \<le> significand m \<and> significand m \<le> 2 ^ 53" if "\<not> ?l \<le> 53"
  proof -
    let ?s = "?l - 53"
    have eq: "(2::nat) ^ ?l = 2 ^ 53 * 2 ^ ?s"
      using that power_add [of "2::nat" 53 ?s] by simp
    have "2 ^ 52 * 2 ^ ?s \<le> m" using lo eq by simp
    then have "2 ^ 52 \<le> m div 2 ^ ?s" by (simp add: less_eq_div_iff_mult_less_eq)
    moreover have "m div 2 ^ ?s < 2 ^ 53" using hi eq by (simp add: less_mult_imp_div_less)
    ultimately show ?thesis
      using that by (auto simp: significand_def round_shift_def Let_def)
  qed
  show "2 ^ 52 \<le> significand m" "significand m \<le> 2 ^ 53"
    using small big by (cases "?l \<le> 53"; simp)+
  show "significand m < 2 ^ 53" if "m < 2 ^ 53"
    using small that by (simp add: nbits_le_iff)
qed

lemma significand_mono: "nbits m = nbits n \<Longrightarrow> m \<le> n \<Longrightarrow> significand m \<le> significand n"
  by (simp add: significand_def Let_def round_shift_mono)

lemma mag_of_nat_mono: "m \<le> n \<Longrightarrow> mag_of_nat m \<le> mag_of_nat n"
proof -
  assume mn: "m \<le> n"
  consider "m = 0" | "0 < m" "nbits m = nbits n" | "0 < m" "nbits m < nbits n"
    using nbits_mono [OF mn] by linarith
  then show ?thesis
  proof cases
    case 2
    then show ?thesis using mn significand_mono by (auto simp: mag_of_nat_def)
  next
    case 3
    then have "(nbits m + 1021) * 2 ^ 52 + 2 ^ 53 \<le> (nbits n + 1021) * 2 ^ 52 + (2 ^ 52 :: nat)"
      by simp
    then show ?thesis
      using 3 mn significand_bounds [of m] significand_bounds [of n] by (simp add: mag_of_nat_def)
  qed (simp add: mag_of_nat_def)
qed

lemma mag_of_nat_strict:
  assumes "m < n" and "m < 2 ^ 53"
  shows "mag_of_nat m < mag_of_nat n"
proof -
  consider "m = 0" | "0 < m" "nbits m = nbits n" | "0 < m" "nbits m < nbits n"
    using nbits_mono [of m n] assms by linarith
  then show ?thesis
  proof cases
    case 1
    then show ?thesis using assms by (simp add: mag_of_nat_def)
  next
    case 2
    have "nbits m \<le> 53" using assms by (simp add: nbits_le_iff)
    then have "significand m < significand n"
      using 2 assms by (simp add: significand_def Let_def)
    then show ?thesis using 2 assms by (simp add: mag_of_nat_def)
  next
    case 3
    then have "(nbits m + 1021) * 2 ^ 52 + 2 ^ 53 \<le> (nbits n + 1021) * 2 ^ 52 + (2 ^ 52 :: nat)"
      by simp
    then show ?thesis
      using 3 assms significand_bounds(3) [of m] significand_bounds(1) [of n] by (simp add: mag_of_nat_def)
  qed
qed

lemma mag_of_nat_upper: "m < 2 ^ 65 \<Longrightarrow> mag_of_nat m \<le> 1088 * 2 ^ 52"
  using significand_bounds(2) [of m] nbits_le_iff [of m 65] by (cases "m = 0") (auto simp: mag_of_nat_def)


text \<open>Conversion of any 64-bit integer is never NaN and keeps the order, strictly for a small one.\<close>

lemma d_magnitude_of_nat:
  assumes "n < 2 ^ 63"
  shows "d_magnitude (word_of_nat n) = n" and "d_magnitude (word_of_nat (2 ^ 63 + n)) = n"
    and "\<not> d_sign (word_of_nat n)" and "d_sign (word_of_nat (2 ^ 63 + n))"
  using assms unat_of_nat [of "2 ^ 63 + n", where ?'a = 64]
  by (simp_all add: d_magnitude_def d_sign_def unat_of_nat)

lemma double_of_int_props:
  assumes "\<bar>n\<bar> < 2 ^ 65"
  shows d_key_double_of_int: "d_key (double_of_int n) = sgn n * int (mag_of_nat (nat \<bar>n\<bar>))"
    and not_nan_double_of_int: "\<not> is_nan (double_of_int n)"
proof -
  have "nat \<bar>n\<bar> < 2 ^ 65" using assms by simp
  then have "mag_of_nat (nat \<bar>n\<bar>) \<le> 1088 * 2 ^ 52" by (rule mag_of_nat_upper)
  then have small: "mag_of_nat (nat \<bar>n\<bar>) < 2 ^ 63" "mag_of_nat (nat \<bar>n\<bar>) \<le> 2047 * 2 ^ 52" by simp_all
  have zero: "mag_of_nat 0 = 0" by (simp add: mag_of_nat_def)
  show "d_key (double_of_int n) = sgn n * int (mag_of_nat (nat \<bar>n\<bar>))"
    using d_magnitude_of_nat [OF small(1)] zero
    by (auto simp: d_key_def double_of_int_def sgn_if abs_if)
  show "\<not> is_nan (double_of_int n)"
    using d_magnitude_of_nat [OF small(1)] small(2)
    by (auto simp: is_nan_def double_of_int_def abs_if)
qed

lemma d_lt_double_of_int:
  assumes a: "\<bar>a\<bar> < 2 ^ 53" and b: "\<bar>b\<bar> < 2 ^ 65"
  shows "d_lt (double_of_int a) (double_of_int b) \<longleftrightarrow> a < b"
    and "d_lt (double_of_int b) (double_of_int a) \<longleftrightarrow> b < a"
proof -
  have ka: "d_key (double_of_int a) = sgn a * int (mag_of_nat (nat \<bar>a\<bar>))"
    and kb: "d_key (double_of_int b) = sgn b * int (mag_of_nat (nat \<bar>b\<bar>))"
    and nn: "\<not> is_nan (double_of_int a)" "\<not> is_nan (double_of_int b)"
    using assms double_of_int_props by simp_all
  have pos: "0 < mag_of_nat n" if "0 < n" for n
    using mag_of_nat_strict [of 0 n] that by simp
  have up: "mag_of_nat (nat \<bar>a\<bar>) < mag_of_nat (nat \<bar>b\<bar>)" if "\<bar>a\<bar> < \<bar>b\<bar>"
    using that a by (intro mag_of_nat_strict) simp_all
  have down: "mag_of_nat (nat \<bar>b\<bar>) < mag_of_nat (nat \<bar>a\<bar>)" if "\<bar>b\<bar> < \<bar>a\<bar>"
    using that a by (intro mag_of_nat_strict) simp_all
  show "d_lt (double_of_int a) (double_of_int b) \<longleftrightarrow> a < b"
    using nn up down pos [of "nat \<bar>a\<bar>"] pos [of "nat \<bar>b\<bar>"]
    by (cases a b rule: linorder_cases) (auto simp: d_lt_def ka kb sgn_if abs_if split: if_splits)
  show "d_lt (double_of_int b) (double_of_int a) \<longleftrightarrow> b < a"
    using nn up down pos [of "nat \<bar>a\<bar>"] pos [of "nat \<bar>b\<bar>"]
    by (cases a b rule: linorder_cases) (auto simp: d_lt_def ka kb sgn_if abs_if split: if_splits)
qed

section \<open>Arithmetic\<close>

text \<open>
  The four operations in the default rounding mode: the exact result, rounded to nearest with
  ties to even, with gradual underflow and overflow to infinity. The bits of a NaN result are
  not fixed by the language; the model returns the quiet NaN with an empty payload.
\<close>

definition d_nan :: double where
  "d_nan = 0x7FF8000000000000"

definition with_sign :: "bool \<Rightarrow> nat \<Rightarrow> double" where
  "with_sign s mag = word_of_nat ((if s then 2 ^ 63 else 0) + mag)"

definition d_infinity :: "bool \<Rightarrow> double" where
  "d_infinity s = with_sign s (2047 * 2 ^ 52)"

definition is_inf :: "double \<Rightarrow> bool" where
  "is_inf d \<longleftrightarrow> d_magnitude d = 2047 * 2 ^ 52"

text \<open>A finite double is \<open>d_sig d * 2\<^sup>(d_exp d - 1075)\<close>, up to its sign.\<close>

definition d_sig :: "double \<Rightarrow> nat" where
  "d_sig d = (if d_magnitude d < 2 ^ 52 then d_magnitude d else 2 ^ 52 + d_magnitude d mod 2 ^ 52)"

definition d_exp :: "double \<Rightarrow> nat" where
  "d_exp d = max 1 (d_magnitude d div 2 ^ 52)"

definition round_quot :: "nat \<Rightarrow> nat \<Rightarrow> nat" where
  "round_quot p q =
     (let d = p div q; r = p mod q in
      if q < 2 * r \<or> (q = 2 * r \<and> odd d) then d + 1 else d)"

text \<open>The largest \<open>k\<close> with \<open>2\<^sup>k \<le> p / q\<close>, for positive \<open>p\<close> and \<open>q\<close>.\<close>

definition log_quot :: "nat \<Rightarrow> nat \<Rightarrow> int" where
  "log_quot p q =
     (let k = int (nbits p) - int (nbits q) in
      if q * 2 ^ nat k \<le> p * 2 ^ nat (- k) then k else k - 1)"

definition mag_of_quot :: "nat \<Rightarrow> nat \<Rightarrow> nat" where
  "mag_of_quot p q =
     (if p = 0 then 0
      else let e = max (log_quot p q - 52) (- 1074);
               s = round_quot (p * 2 ^ nat (- e)) (q * 2 ^ nat e) in
        min (nat (e + 1074) * 2 ^ 52 + s) (2047 * 2 ^ 52))"

definition d_mul :: "double \<Rightarrow> double \<Rightarrow> double" where
  "d_mul a b =
     (let s = (d_sign a \<noteq> d_sign b) in
      if is_nan a \<or> is_nan b then d_nan
      else if is_inf a \<or> is_inf b then (if d_magnitude a = 0 \<or> d_magnitude b = 0 then d_nan else d_infinity s)
      else with_sign s (mag_of_quot (d_sig a * d_sig b * 2 ^ (d_exp a + d_exp b)) (2 ^ 2150)))"

definition d_div :: "double \<Rightarrow> double \<Rightarrow> double" where
  "d_div a b =
     (let s = (d_sign a \<noteq> d_sign b) in
      if is_nan a \<or> is_nan b then d_nan
      else if is_inf a then (if is_inf b then d_nan else d_infinity s)
      else if is_inf b then with_sign s 0
      else if d_magnitude b = 0 then (if d_magnitude a = 0 then d_nan else d_infinity s)
      else with_sign s (mag_of_quot (d_sig a * 2 ^ d_exp a) (d_sig b * 2 ^ d_exp b)))"

text \<open>The exact value of a finite double in units of \<open>2\<^sup>- \<^sup>1\<^sup>0\<^sup>7\<^sup>4\<close>.\<close>

definition d_units :: "double \<Rightarrow> int" where
  "d_units d = (if d_sign d then -1 else 1) * int (d_sig d * 2 ^ (d_exp d - 1))"

definition d_add :: "double \<Rightarrow> double \<Rightarrow> double" where
  "d_add a b =
     (if is_nan a \<or> is_nan b then d_nan
      else if is_inf a then (if is_inf b \<and> d_sign a \<noteq> d_sign b then d_nan else a)
      else if is_inf b then b
      else let x = d_units a + d_units b in
        if x = 0 then with_sign (d_sign a \<and> d_sign b) 0
        else with_sign (x < 0) (mag_of_quot (nat \<bar>x\<bar>) (2 ^ 1074)))"

definition d_neg :: "double \<Rightarrow> double" where
  "d_neg d = with_sign (\<not> d_sign d) (d_magnitude d)"

definition d_sub :: "double \<Rightarrow> double \<Rightarrow> double" where
  "d_sub a b = (if is_nan b then d_nan else d_add a (d_neg b))"

end
