(* ===== verification/Values.thy ===== *)
theory Values
  imports Double "HOL-Library.Char_ord" "HOL-Library.List_Lexorder"
begin

text \<open>
  The scalar types and values of \<open>common/value.h\<close> and \<open>common/value.cpp\<close>. A value is the
  variant \<open>Null | int32_t | int64_t | double | std::string\<close>; the integers are words read
  with \<open>sint\<close>, strings are lists of bytes ordered as \<open>std::char_traits<char>\<close> orders them.
\<close>

section \<open>Column types and values\<close>

datatype ColumnType = kInt | kBigInt | kFloat | kVarchar

fun type_code :: "ColumnType \<Rightarrow> byte" where
  "type_code kInt = 1"
| "type_code kBigInt = 2"
| "type_code kFloat = 3"
| "type_code kVarchar = 4"

fun FixedWidth :: "ColumnType \<Rightarrow> nat" where
  "FixedWidth kInt = 4"
| "FixedWidth kBigInt = 8"
| "FixedWidth kFloat = 8"
| "FixedWidth kVarchar = 0"

fun TypeName :: "ColumnType \<Rightarrow> string" where
  "TypeName kInt = ''INT''"
| "TypeName kBigInt = ''BIGINT''"
| "TypeName kFloat = ''FLOAT''"
| "TypeName kVarchar = ''VARCHAR''"

datatype Value =
    Null
  | Int32 "32 word"
  | Int64 "64 word"
  | Dbl double
  | Str string

definition IsNull :: "Value \<Rightarrow> bool" where
  "IsNull v \<longleftrightarrow> v = Null"

lemma IsNull_simps [simp]:
  "IsNull Null" "\<not> IsNull (Int32 i)" "\<not> IsNull (Int64 l)" "\<not> IsNull (Dbl d)" "\<not> IsNull (Str s)"
  by (simp_all add: IsNull_def)

text \<open>A value fits a column when it is NULL or the alternative the column type stores.\<close>

fun value_fits :: "ColumnType \<Rightarrow> Value \<Rightarrow> bool" where
  "value_fits t Null = True"
| "value_fits t (Int32 _) = (t = kInt)"
| "value_fits t (Int64 _) = (t = kBigInt)"
| "value_fits t (Dbl _) = (t = kFloat)"
| "value_fits t (Str _) = (t = kVarchar)"

section \<open>Three-way comparison\<close>

datatype Ordering = kLess | kEqual | kGreater

definition order_int :: "int \<Rightarrow> int \<Rightarrow> Ordering" where
  "order_int a b = (if a < b then kLess else if b < a then kGreater else kEqual)"

definition order_double :: "double \<Rightarrow> double \<Rightarrow> Ordering" where
  "order_double a b = (if d_lt a b then kLess else if d_lt b a then kGreater else kEqual)"

definition order_string :: "string \<Rightarrow> string \<Rightarrow> Ordering" where
  "order_string a b = (if a < b then kLess else if b < a then kGreater else kEqual)"

text \<open>\<open>static_cast<double>\<close> of an arithmetic alternative.\<close>

fun to_double :: "Value \<Rightarrow> double option" where
  "to_double (Int32 i) = Some (double_of_int (sint i))"
| "to_double (Int64 l) = Some (double_of_int (sint l))"
| "to_double (Dbl d) = Some d"
| "to_double _ = None"

text \<open>
  \<open>CompareArith\<close>: operands of the same type compare as that type; operands of different
  arithmetic types (also \<open>int32_t\<close> with \<open>int64_t\<close>) compare as doubles.
\<close>

fun CompareArith :: "Value \<Rightarrow> Value \<Rightarrow> Ordering result" where
  "CompareArith (Int32 a) (Int32 b) = Inr (order_int (sint a) (sint b))"
| "CompareArith (Int64 a) (Int64 b) = Inr (order_int (sint a) (sint b))"
| "CompareArith (Dbl a) (Dbl b) = Inr (order_double a b)"
| "CompareArith a b =
     (case (to_double a, to_double b) of
        (Some da, Some db) \<Rightarrow> Inr (order_double da db)
      | _ \<Rightarrow> Inl (InvalidArgument ''CompareValues: unsupported value kind''))"

fun is_string :: "Value \<Rightarrow> bool" where
  "is_string (Str s) = True"
| "is_string _ = False"

definition CompareValues :: "Value \<Rightarrow> Value \<Rightarrow> Ordering result" where
  "CompareValues a b =
     (if is_string a \<or> is_string b then
        (case (a, b) of
           (Str sa, Str sb) \<Rightarrow> Inr (order_string sa sb)
         | _ \<Rightarrow> Inl (InvalidArgument ''CompareValues: cannot mix VARCHAR with numeric''))
      else CompareArith a b)"

lemma sint_bounds:
  "- (2 ^ 31) \<le> sint (i :: 32 word)" "sint i < 2 ^ 31"
  "- (2 ^ 63) \<le> sint (l :: 64 word)" "sint l < 2 ^ 63"
  using sint_greater_eq [of i] sint_less [of i] sint_greater_eq [of l] sint_less [of l] by simp_all

lemma sint_scast64: "sint (scast (i :: 32 word) :: 64 word) = sint i"
  using sint_bounds(1,2) [of i] by (simp add: signed_scast_eq signed_take_bit_int_eq_self)

lemma order_double_of_int:
  assumes "\<bar>a\<bar> < 2 ^ 53" and "\<bar>b\<bar> < 2 ^ 65"
  shows "order_double (double_of_int a) (double_of_int b) = order_int a b"
    and "order_double (double_of_int b) (double_of_int a) = order_int b a"
  using d_lt_double_of_int [OF assms] by (simp_all add: order_double_def order_int_def)

section \<open>Rendering\<close>

fun digits :: "nat \<Rightarrow> string" where
  "digits n = (if n < 10 then [char_of (48 + n)] else digits (n div 10) @ [char_of (48 + n mod 10)])"

declare digits.simps [simp del]

definition string_of_int :: "int \<Rightarrow> string" where
  "string_of_int n = (if n < 0 then CHR ''-'' # digits (nat (- n)) else digits (nat n))"

text \<open>
  \<open>std::to_string(double)\<close> is \<open>printf\<close>'s \<open>%f\<close>: the exact value \<open>M * 2\<^sup>E\<close> rounded to six
  decimals. \<open>sig\<close> is the significand with its implicit bit, \<open>ex\<close> the exponent field.
\<close>

definition string_of_double :: "double \<Rightarrow> string" where
  "string_of_double d =
     (let sign = (if d_sign d then ''-'' else []);
          ex = d_magnitude d div 2 ^ 52;
          frac = d_magnitude d mod 2 ^ 52;
          sig = (if ex = 0 then frac else 2 ^ 52 + frac);
          ex' = max ex 1;
          micros = (if 1075 \<le> ex' then sig * 10 ^ 6 * 2 ^ (ex' - 1075) else round_shift (sig * 10 ^ 6) (1075 - ex'));
          low = digits (micros mod 10 ^ 6) in
      if is_nan d then sign @ ''nan''
      else if ex = 2047 then sign @ ''inf''
      else sign @ digits (micros div 10 ^ 6) @ ''.'' @ replicate (6 - length low) (CHR ''0'') @ low)"

fun ValueToString :: "Value \<Rightarrow> string" where
  "ValueToString Null = ''NULL''"
| "ValueToString (Str s) = s"
| "ValueToString (Int32 i) = string_of_int (sint i)"
| "ValueToString (Int64 l) = string_of_int (sint l)"
| "ValueToString (Dbl d) = string_of_double d"

section \<open>Integer values\<close>

text \<open>The integer a value denotes, when it is one.\<close>

fun int_of_value :: "Value \<Rightarrow> int option" where
  "int_of_value (Int32 i) = Some (sint i)"
| "int_of_value (Int64 l) = Some (sint l)"
| "int_of_value _ = None"

lemma CompareValues_ints:
  assumes "int_of_value a = Some x" and "int_of_value b = Some y"
  shows "CompareValues a b = Inr (order_int x y)"
proof -
  have 32: "\<bar>sint (i :: 32 word)\<bar> < 2 ^ 53" for i
    using sint_bounds(1,2) [of i] by auto
  have 64: "\<bar>sint (l :: 64 word)\<bar> < 2 ^ 65" for l
    using sint_bounds(3,4) [of l] by auto
  show ?thesis
    using assms order_double_of_int [OF 32 64]
    by (cases a; cases b) (auto simp: CompareValues_def)
qed

text \<open>Comparing two integer values, of the same width or not, is integer comparison.\<close>

theorem CompareValues_int:
  assumes "int_of_value a = Some x" and "int_of_value b = Some y"
  shows "CompareValues a b = Inr (order_int x y)"
  using assms by (rule CompareValues_ints)

theorem CompareValues_int_witness:
  "CompareValues (Int32 5) (Int64 9007199254740993) = Inr kLess"
  using CompareValues_int [of "Int32 5" 5 "Int64 9007199254740993" 9007199254740993]
  by (simp add: order_int_def)

end
