(* ===== verification/Schemas.thy ===== *)
theory Schemas
  imports Values
begin

text \<open>
  Table schemas (\<open>catalog/schema.h\<close>, \<open>catalog/schema.cpp\<close>): the ordered list of a table's
  columns, the checks of its constructor, lookup by name, and the bytes it is stored as.
\<close>

section \<open>Columns and schemas\<close>

definition kMaxColumnNameLen :: nat where
  "kMaxColumnNameLen = 64"

record Schema_Column =
  col_name :: string
  col_type :: ColumnType
  varchar_len :: u16
  column_index :: u16

type_synonym schema = "Schema_Column list"

text \<open>The constructor numbers the columns and rejects a name that is too long.\<close>

definition Schema :: "Schema_Column list \<Rightarrow> schema result" where
  "Schema cols =
     mapR (\<lambda>(i, c). if kMaxColumnNameLen < length (col_name c)
                    then Inl (InvalidArgument ''Schema: column name too long'')
                    else Inr (c\<lparr>column_index := word_of_nat i\<rparr>))
       (enumerate 0 cols)"

definition NumColumns :: "schema \<Rightarrow> nat" where
  "NumColumns s = length s"

definition GetColumn :: "schema \<Rightarrow> nat \<Rightarrow> Schema_Column result" where
  "GetColumn s i = (if i < length s then Inr (s ! i) else Inl (OutOfRange ''vector::at''))"

definition FindColumn :: "schema \<Rightarrow> string \<Rightarrow> nat option" where
  "FindColumn s name = find (\<lambda>i. col_name (s ! i) = name) [0..<length s]"

definition Types :: "schema \<Rightarrow> ColumnType list" where
  "Types s = map col_type s"

definition schema_eq :: "schema \<Rightarrow> schema \<Rightarrow> bool" where
  "schema_eq s o' \<longleftrightarrow> length s = length o' \<and>
     (\<forall>i < length s. col_name (s ! i) = col_name (o' ! i) \<and> col_type (s ! i) = col_type (o' ! i) \<and>
        varchar_len (s ! i) = varchar_len (o' ! i))"

section \<open>The stored form\<close>

definition put_column :: "Schema_Column \<Rightarrow> byte list" where
  "put_column c = PutPod (word_of_nat (length (col_name c)) :: byte) @ bytes_of_string (col_name c) @
     PutPod (type_code (col_type c)) @ PutPod (varchar_len c)"

definition Serialize :: "schema \<Rightarrow> byte list" where
  "Serialize s = PutPod (word_of_nat (length s) :: u16) @ concat (map put_column s)"

text \<open>
  A stored type byte is cast to the enumeration unchecked. The model has the four named types
  only and stops at any other byte.
\<close>

definition type_of_code :: "byte \<Rightarrow> ColumnType result" where
  "type_of_code b =
     (if b = 1 then Inr kInt else if b = 2 then Inr kBigInt else if b = 3 then Inr kFloat
      else if b = 4 then Inr kVarchar else Inl (Unmodelled ''ColumnType without a name''))"

definition get_column :: "u16 \<Rightarrow> byte list \<Rightarrow> (Schema_Column \<times> byte list) result" where
  "get_column i bs =
     bindR (GetPod ''Schema: truncated'' bs) (\<lambda>(len :: byte, bs1).
     if length bs1 < unat len then Inl (RuntimeError ''Schema: truncated name'')
     else let name = string_of_bytes (take (unat len) bs1) in
     bindR (GetPod ''Schema: truncated'' (drop (unat len) bs1)) (\<lambda>(tb :: byte, bs2).
     bindR (type_of_code tb) (\<lambda>t.
     bindR (GetPod ''Schema: truncated'' bs2) (\<lambda>(vlen :: u16, bs3).
     Inr (\<lparr>col_name = name, col_type = t, varchar_len = vlen, column_index = i\<rparr>, bs3)))))"

text \<open>The loop \<open>for (uint16_t i = 0; i < n; ++i)\<close>, with the iterations that are left.\<close>

fun get_columns :: "nat \<Rightarrow> u16 \<Rightarrow> byte list \<Rightarrow> (Schema_Column list \<times> byte list) result" where
  "get_columns 0 i bs = Inr ([], bs)"
| "get_columns (Suc k) i bs =
     bindR (get_column i bs) (\<lambda>(c, bs1). bindR (get_columns k (i + 1) bs1) (\<lambda>(cs, bs2). Inr (c # cs, bs2)))"

text \<open>
  \<open>Deserialize(data, size, consumed)\<close> with \<open>data\<close> given as the bytes of the buffer from there
  on: an end pointer outside the buffer is undefined. The result carries \<open>consumed\<close>.
\<close>

definition Deserialize :: "byte list \<Rightarrow> nat \<Rightarrow> (schema \<times> nat) result" where
  "Deserialize data sz =
     (if length data < sz then Inl (Undefined ''data + sz'')
      else bindR (GetPod ''Schema: truncated'' (take sz data)) (\<lambda>(n :: u16, bs).
        bindR (get_columns (unat n) 0 bs) (\<lambda>(cols, rest).
        bindR (Schema cols) (\<lambda>s. Inr (s, sz - length rest)))))"

section \<open>Well-formed schemas\<close>

text \<open>What the constructor gives, with a column count that the stored form has room for.\<close>

definition schema_ok :: "schema \<Rightarrow> bool" where
  "schema_ok s \<longleftrightarrow> length s < 2 ^ 16 \<and>
     (\<forall>i < length s. length (col_name (s ! i)) \<le> kMaxColumnNameLen \<and> column_index (s ! i) = word_of_nat i)"

lemma Schema_eq: "Schema cols = Inr s \<longleftrightarrow>
  (\<forall>c \<in> set cols. length (col_name c) \<le> kMaxColumnNameLen) \<and> s = map (\<lambda>(i, c). c\<lparr>column_index := word_of_nat i\<rparr>) (enumerate 0 cols)"
proof -
  let ?f = "\<lambda>(i :: nat, c). if kMaxColumnNameLen < length (col_name c)
      then Inl (InvalidArgument ''Schema: column name too long'') else Inr (c\<lparr>column_index := word_of_nat i :: u16\<rparr>)"
  have "mapR ?f (enumerate k cols) = Inr s \<longleftrightarrow>
    (\<forall>c \<in> set cols. length (col_name c) \<le> kMaxColumnNameLen) \<and> s = map (\<lambda>(i, c). c\<lparr>column_index := word_of_nat i\<rparr>) (enumerate k cols)" for k
    by (induction cols arbitrary: k s) (auto simp: bindR_Inr_iff)
  then show ?thesis by (simp add: Schema_def)
qed

lemma Schema_ok: "Schema cols = Inr s \<Longrightarrow> length cols < 2 ^ 16 \<Longrightarrow> schema_ok s"
  by (auto simp: Schema_eq schema_ok_def nth_enumerate_eq)

lemma Schema_id: "schema_ok s \<Longrightarrow> Schema s = Inr s"
  by (auto simp: Schema_eq schema_ok_def in_set_conv_nth intro!: nth_equalityI simp: nth_enumerate_eq)

lemma Types_simps [simp]: "length (Types s) = length s" "i < length s \<Longrightarrow> Types s ! i = col_type (s ! i)"
  by (simp_all add: Types_def)

lemma type_of_code_code [simp]: "type_of_code (type_code t) = Inr t"
  by (cases t) (simp_all add: type_of_code_def)

lemma get_put_column:
  assumes "length (col_name c) < 256"
  shows "get_column i (put_column c @ rest) = Inr (c\<lparr>column_index := i\<rparr>, rest)"
  using assms by (simp add: get_column_def put_column_def Let_def unat_of_nat)

lemma get_put_columns:
  assumes "\<forall>c \<in> set cs. length (col_name c) < 256"
  shows "get_columns (length cs) (word_of_nat k) (concat (map put_column cs) @ rest) =
    Inr (map (\<lambda>(i, c). c\<lparr>column_index := word_of_nat i\<rparr>) (enumerate k cs), rest)"
  using assms
proof (induction cs arbitrary: k)
  case (Cons c cs)
  have "word_of_nat k + 1 = (word_of_nat (Suc k) :: u16)" by simp
  with Cons show ?case by (simp add: get_put_column del: of_nat_Suc)
qed simp

lemma Deserialize_Serialize:
  assumes "schema_ok s"
  shows "Deserialize (Serialize s @ rest) (length (Serialize s)) = Inr (s, length (Serialize s))"
proof -
  have n: "length s < 2 ^ 16" and names: "\<forall>c \<in> set s. length (col_name c) < 256"
    using assms by (force simp: schema_ok_def in_set_conv_nth kMaxColumnNameLen_def)+
  have "map (\<lambda>(i, c). c\<lparr>column_index := word_of_nat i :: u16\<rparr>) (enumerate 0 s) = s"
    using Schema_id [OF assms] by (simp add: Schema_eq)
  then have "get_columns (length s) 0 (concat (map put_column s)) = Inr (s, [])"
    using get_put_columns [OF names, of 0 "[]"] by simp
  then show ?thesis using Schema_id [OF assms] n by (simp add: Deserialize_def Serialize_def unat_of_nat)
qed

lemma length_Serialize: "schema_ok s \<Longrightarrow> length (Serialize s) < 2 ^ 32"
proof -
  assume ok: "schema_ok s"
  have "length (put_column c) \<le> 68" if "c \<in> set s" for c
    using ok that by (auto simp: schema_ok_def in_set_conv_nth put_column_def kMaxColumnNameLen_def)
  then have "length (concat (map put_column s)) \<le> 68 * length s" by (induction s) fastforce+
  then show ?thesis using ok by (simp add: Serialize_def schema_ok_def)
qed

lemma FindColumn_Some:
  "FindColumn s name = Some i \<longleftrightarrow> i < length s \<and> col_name (s ! i) = name \<and> (\<forall>j < i. col_name (s ! j) \<noteq> name)"
  by (auto simp: FindColumn_def find_Some_iff)

lemma FindColumn_None: "FindColumn s name = None \<longleftrightarrow> name \<notin> col_name ` set s"
  by (auto simp: FindColumn_def find_None_iff) (metis in_set_conv_nth)

end
