(* ===== verification/Disk.thy ===== *)
theory Disk
  imports Prelude
begin

text \<open>
  The 4 KiB page (\<open>storage/page.h\<close>) and the file of pages (\<open>storage/disk_manager.cpp\<close>).
  A page is the list of its bytes; header fields are read and written at the offsets of
  \<open>struct PageHeader\<close>. The disk manager owns the file, a list of bytes.
\<close>

section \<open>Pages\<close>

type_synonym PageId = "32 word"
type_synonym page = "byte list"

definition kPageSize :: nat where
  "kPageSize = 4096"

definition kInvalidPageId :: PageId where
  "kInvalidPageId = 0xFFFFFFFF"

text \<open>\<open>sizeof(PageHeader)\<close> and \<open>Page::PayloadCapacity()\<close>.\<close>

definition kHeaderSize :: nat where
  "kHeaderSize = 16"

definition PayloadCapacity :: nat where
  "PayloadCapacity = kPageSize - kHeaderSize"

datatype PageType = kFree | kCatalog | kColumnData

fun page_type_code :: "PageType \<Rightarrow> u16" where
  "page_type_code kFree = 0"
| "page_type_code kCatalog = 1"
| "page_type_code kColumnData = 2"

text \<open>Field layout: page id at 0, type at 4, reserved at 6, payload size at 8, next page at 12.\<close>

definition hdr_page_id :: "page \<Rightarrow> PageId" where
  "hdr_page_id p = pod_of_bytes (read_at 0 4 p)"

definition hdr_page_type :: "page \<Rightarrow> u16" where
  "hdr_page_type p = pod_of_bytes (read_at 4 2 p)"

definition hdr_payload_bytes :: "page \<Rightarrow> u32" where
  "hdr_payload_bytes p = pod_of_bytes (read_at 8 4 p)"

definition hdr_next_page_id :: "page \<Rightarrow> PageId" where
  "hdr_next_page_id p = pod_of_bytes (read_at 12 4 p)"

definition set_page_id :: "PageId \<Rightarrow> page \<Rightarrow> page" where
  "set_page_id v p = write_at 0 (PutPod v) p"

definition set_page_type :: "PageType \<Rightarrow> page \<Rightarrow> page" where
  "set_page_type t p = write_at 4 (PutPod (page_type_code t)) p"

definition set_payload_bytes :: "u32 \<Rightarrow> page \<Rightarrow> page" where
  "set_payload_bytes v p = write_at 8 (PutPod v) p"

definition set_next_page_id :: "PageId \<Rightarrow> page \<Rightarrow> page" where
  "set_next_page_id v p = write_at 12 (PutPod v) p"

text \<open>\<open>memcpy\<close> into and out of \<open>Payload()\<close>.\<close>

definition write_payload :: "nat \<Rightarrow> byte list \<Rightarrow> page \<Rightarrow> page" where
  "write_payload off src p = write_at (kHeaderSize + off) src p"

definition read_payload :: "nat \<Rightarrow> nat \<Rightarrow> page \<Rightarrow> byte list" where
  "read_payload off n p = read_at (kHeaderSize + off) n p"

definition zero_page :: page where
  "zero_page = replicate kPageSize 0"

lemmas header_defs = hdr_page_id_def hdr_page_type_def hdr_payload_bytes_def hdr_next_page_id_def
  set_page_id_def set_page_type_def set_payload_bytes_def set_next_page_id_def
  write_payload_def read_payload_def kHeaderSize_def

lemma pod_PutPod [simp]:
  "pod_of_bytes (PutPod (b :: 8 word)) = b"
  "pod_of_bytes (PutPod (h :: 16 word)) = h"
  "pod_of_bytes (PutPod (w :: 32 word)) = w"
  "pod_of_bytes (PutPod (x :: 64 word)) = x"
  by (rule pod_of_bytes_PutPod, simp)+

named_theorems page_simps \<open>fields of a page after writes to it\<close>

lemma length_set [page_simps]:
  assumes "length p = kPageSize"
  shows "length (set_page_id i p) = kPageSize" "length (set_page_type t p) = kPageSize"
    "length (set_payload_bytes n p) = kPageSize" "length (set_next_page_id i p) = kPageSize"
    "off + length src \<le> PayloadCapacity \<Longrightarrow> length (write_payload off src p) = kPageSize"
    "length zero_page = kPageSize"
  using assms by (simp_all add: header_defs kPageSize_def PayloadCapacity_def zero_page_def)

lemma hdr_set_same [page_simps]:
  assumes "length p = kPageSize"
  shows "hdr_page_id (set_page_id i p) = i"
    "hdr_page_type (set_page_type t p) = page_type_code t"
    "hdr_payload_bytes (set_payload_bytes n p) = n"
    "hdr_next_page_id (set_next_page_id i p) = i"
  using assms by (simp_all add: header_defs kPageSize_def buffer_simps)

lemma hdr_set_other [page_simps]:
  assumes "length p = kPageSize"
  shows "hdr_payload_bytes (set_page_id i p) = hdr_payload_bytes p"
    "hdr_payload_bytes (set_page_type t p) = hdr_payload_bytes p"
    "hdr_payload_bytes (set_next_page_id i p) = hdr_payload_bytes p"
    "hdr_next_page_id (set_page_id i p) = hdr_next_page_id p"
    "hdr_next_page_id (set_page_type t p) = hdr_next_page_id p"
    "hdr_next_page_id (set_payload_bytes n p) = hdr_next_page_id p"
    "hdr_page_type (set_page_id i p) = hdr_page_type p"
    "hdr_page_type (set_payload_bytes n p) = hdr_page_type p"
    "hdr_page_type (set_next_page_id i p) = hdr_page_type p"
  using assms by (simp_all add: header_defs kPageSize_def buffer_simps)

lemma hdr_write_payload [page_simps]:
  assumes "length p = kPageSize" and "off + length src \<le> PayloadCapacity"
  shows "hdr_payload_bytes (write_payload off src p) = hdr_payload_bytes p"
    "hdr_next_page_id (write_payload off src p) = hdr_next_page_id p"
    "hdr_page_type (write_payload off src p) = hdr_page_type p"
  using assms by (simp_all add: header_defs kPageSize_def PayloadCapacity_def buffer_simps)

lemma read_payload_set [page_simps]:
  assumes "length p = kPageSize"
  shows "read_payload off n (set_page_id i p) = read_payload off n p"
    "read_payload off n (set_page_type t p) = read_payload off n p"
    "read_payload off n (set_payload_bytes m p) = read_payload off n p"
    "read_payload off n (set_next_page_id i p) = read_payload off n p"
  using assms by (simp_all add: header_defs kPageSize_def buffer_simps)

lemma read_write_payload [page_simps]:
  assumes "length p = kPageSize" and "off + length src \<le> PayloadCapacity"
  shows "read_payload 0 (off + length src) (write_payload off src p) = read_payload 0 off p @ src"
  using assms by (simp add: header_defs kPageSize_def PayloadCapacity_def buffer_simps)

section \<open>The disk manager\<close>

text \<open>
  \<open>io_ok\<close> is the state of the medium: while it holds, writes and extensions of the file
  succeed; otherwise the stream is left in a failed state and the code throws.
\<close>

record disk =
  fbytes :: "byte list"
  num_pages :: nat
  io_ok :: bool

definition AllocatePage :: "disk \<Rightarrow> (PageId \<times> disk) result" where
  "AllocatePage d =
     (let new_id = word_of_nat (num_pages d) in
      if \<not> io_ok d then Inl (RuntimeError ''DiskManager::AllocatePage: extend failed'')
      else Inr (new_id, d\<lparr>fbytes := fbytes d @ replicate kPageSize 0, num_pages := num_pages d + 1\<rparr>))"

definition DiskManager :: "byte list \<Rightarrow> bool \<Rightarrow> disk result" where
  "DiskManager f ok =
     (let size = length f in
      if size = 0 then bindR (AllocatePage \<lparr>fbytes = f, num_pages = 0, io_ok = ok\<rparr>) (\<lambda>(_, d). Inr d)
      else if size mod kPageSize \<noteq> 0 then
        Inl (RuntimeError ''DiskManager: file size is not a multiple of page size'')
      else Inr \<lparr>fbytes = f, num_pages = size div kPageSize, io_ok = ok\<rparr>)"

definition ReadPage :: "disk \<Rightarrow> PageId \<Rightarrow> page result" where
  "ReadPage d pid =
     (if num_pages d \<le> unat pid then Inl (OutOfRange ''DiskManager::ReadPage: page_id out of range'')
      else let out = read_at (unat pid * kPageSize) kPageSize (fbytes d) in
        if length out \<noteq> kPageSize then Inl (RuntimeError ''DiskManager::ReadPage: short read'')
        else Inr out)"

definition WritePage :: "disk \<Rightarrow> PageId \<Rightarrow> page \<Rightarrow> disk result" where
  "WritePage d pid inp =
     (if num_pages d \<le> unat pid then Inl (OutOfRange ''DiskManager::WritePage: page_id out of range'')
      else if \<not> io_ok d then Inl (RuntimeError ''DiskManager::WritePage: write failed'')
      else Inr (d\<lparr>fbytes := write_at (unat pid * kPageSize) inp (fbytes d)\<rparr>))"

text \<open>The invariant of the file and the page it holds at an id.\<close>

definition disk_inv :: "disk \<Rightarrow> bool" where
  "disk_inv d \<longleftrightarrow> length (fbytes d) = num_pages d * kPageSize"

definition disk_page :: "disk \<Rightarrow> PageId \<Rightarrow> page" where
  "disk_page d pid = read_at (unat pid * kPageSize) kPageSize (fbytes d)"

lemma page_range:
  fixes pid :: PageId
  assumes "disk_inv d" and "unat pid < num_pages d"
  shows "unat pid * kPageSize + kPageSize \<le> length (fbytes d)"
proof -
  have "Suc (unat pid) * kPageSize \<le> num_pages d * kPageSize"
    using assms(2) by (intro mult_right_mono) auto
  then show ?thesis using assms(1) by (simp add: disk_inv_def)
qed

lemma page_ranges_disjoint:
  "i \<noteq> j \<Longrightarrow> Suc i * kPageSize \<le> j * kPageSize \<or> Suc j * kPageSize \<le> i * kPageSize"
  by (metis Suc_leI mult_le_mono1 nat_neq_iff)


section \<open>The interface the layers above rely on\<close>

text \<open>
  A page device: reading returns the page last written at the id, writing and allocating
  change no other page, a fresh page is zero. The lemmas about sequences of writes are
  proved once, from the laws.
\<close>

locale page_device =
  fixes inv :: "'d \<Rightarrow> bool"
    and npages :: "'d \<Rightarrow> nat"
    and working :: "'d \<Rightarrow> bool"
    and pg :: "'d \<Rightarrow> PageId \<Rightarrow> page"
    and rd :: "'d \<Rightarrow> PageId \<Rightarrow> page result"
    and wr :: "'d \<Rightarrow> PageId \<Rightarrow> page \<Rightarrow> 'd result"
    and alloc :: "'d \<Rightarrow> (PageId \<times> 'd) result"
  assumes length_pg: "inv d \<Longrightarrow> unat i < npages d \<Longrightarrow> length (pg d i) = kPageSize"
    and rd_ok: "inv d \<Longrightarrow> unat i < npages d \<Longrightarrow> rd d i = Inr (pg d i)"
    and rd_bad: "npages d \<le> unat i \<Longrightarrow> \<exists>m. rd d i = Inl (OutOfRange m)"
    and wr_ok: "inv d \<Longrightarrow> unat i < npages d \<Longrightarrow> working d \<Longrightarrow> length p = kPageSize \<Longrightarrow>
      \<exists>d'. wr d i p = Inr d'"
    and wr_effect: "inv d \<Longrightarrow> length p = kPageSize \<Longrightarrow> wr d i p = Inr d' \<Longrightarrow>
      inv d' \<and> npages d' = npages d \<and> working d' = working d \<and>
      (\<forall>j. unat j < npages d \<longrightarrow> pg d' j = (if j = i then p else pg d j))"
    and alloc_ok: "working d \<Longrightarrow> \<exists>i d'. alloc d = Inr (i, d')"
    and alloc_effect: "inv d \<Longrightarrow> npages d < 2 ^ 32 \<Longrightarrow> alloc d = Inr (i, d') \<Longrightarrow>
      inv d' \<and> npages d' = Suc (npages d) \<and> working d' = working d \<and> unat i = npages d \<and>
      pg d' i = zero_page \<and> (\<forall>j. unat j < npages d \<longrightarrow> pg d' j = pg d j)"
begin

lemma read_after_write:
  "inv d \<Longrightarrow> unat i < npages d \<Longrightarrow> length p = kPageSize \<Longrightarrow> wr d i p = Inr d' \<Longrightarrow> rd d' i = Inr p"
  using wr_effect [of d p i d'] rd_ok [of d' i] by simp

lemma read_other_after_write:
  "inv d \<Longrightarrow> unat j < npages d \<Longrightarrow> i \<noteq> j \<Longrightarrow> length p = kPageSize \<Longrightarrow> wr d i p = Inr d' \<Longrightarrow>
   rd d' j = rd d j"
  using wr_effect [of d p i d'] rd_ok [of d' j] rd_ok [of d j] by auto

lemma read_after_alloc:
  "inv d \<Longrightarrow> npages d < 2 ^ 32 \<Longrightarrow> alloc d = Inr (i, d') \<Longrightarrow> rd d' i = Inr zero_page"
  using alloc_effect [of d i d'] rd_ok [of d' i] by simp

end

lemma WritePage_effect:
  assumes inv: "disk_inv d" and len: "length p = kPageSize" and w: "WritePage d i p = Inr d'"
  shows "disk_inv d'" "num_pages d' = num_pages d" "io_ok d' = io_ok d"
    "\<forall>j. unat j < num_pages d \<longrightarrow> disk_page d' j = (if j = i then p else disk_page d j)"
proof -
  have i: "unat i < num_pages d" and d': "d' = d\<lparr>fbytes := write_at (unat i * kPageSize) p (fbytes d)\<rparr>"
    using w by (auto simp: WritePage_def split: if_splits)
  note ri = page_range [OF inv i]
  show "disk_inv d'" "num_pages d' = num_pages d" "io_ok d' = io_ok d"
    using inv ri len by (simp_all add: d' disk_inv_def)
  show "\<forall>j. unat j < num_pages d \<longrightarrow> disk_page d' j = (if j = i then p else disk_page d j)"
  proof (intro allI impI)
    fix j :: PageId
    assume j: "unat j < num_pages d"
    show "disk_page d' j = (if j = i then p else disk_page d j)"
    proof (cases "j = i")
      case True
      then show ?thesis using ri len by (simp add: d' disk_page_def buffer_simps)
    next
      case False
      then have "unat j \<noteq> unat i" by (metis word_unat_eq_iff)
      then show ?thesis
        using page_ranges_disjoint [of "unat j" "unat i"] page_range [OF inv j] ri len False
        by (auto simp: d' disk_page_def buffer_simps)
    qed
  qed
qed

lemma AllocatePage_effect:
  assumes inv: "disk_inv d" and n: "num_pages d < 2 ^ 32" and a: "AllocatePage d = Inr (i, d')"
  shows "disk_inv d'" "num_pages d' = Suc (num_pages d)" "io_ok d' = io_ok d" "unat i = num_pages d"
    "disk_page d' i = zero_page" "\<forall>j. unat j < num_pages d \<longrightarrow> disk_page d' j = disk_page d j"
proof -
  have i: "i = word_of_nat (num_pages d)"
    and d': "d' = d\<lparr>fbytes := fbytes d @ replicate kPageSize 0, num_pages := num_pages d + 1\<rparr>"
    using a by (auto simp: AllocatePage_def Let_def split: if_splits)
  show ui: "unat i = num_pages d" using n by (simp add: i unat_of_nat)
  show "disk_inv d'" "num_pages d' = Suc (num_pages d)" "io_ok d' = io_ok d"
    using inv by (simp_all add: d' disk_inv_def)
  show "disk_page d' i = zero_page"
    using inv ui by (simp add: d' disk_page_def disk_inv_def zero_page_def read_at_def)
  show "\<forall>j. unat j < num_pages d \<longrightarrow> disk_page d' j = disk_page d j"
    using page_range [OF inv] by (simp add: d' disk_page_def)
qed

interpretation dm: page_device disk_inv num_pages io_ok disk_page ReadPage WritePage AllocatePage
proof unfold_locales
  fix d and i :: PageId
  assume "disk_inv d" "unat i < num_pages d"
  note r = page_range [OF this]
  show len: "length (disk_page d i) = kPageSize"
    using r by (simp add: disk_page_def)
  show "ReadPage d i = Inr (disk_page d i)"
    using \<open>unat i < num_pages d\<close> r by (simp add: ReadPage_def disk_page_def Let_def)
next
  show "\<exists>m. ReadPage d i = Inl (OutOfRange m)" if "num_pages d \<le> unat i" for d and i :: PageId
    using that by (simp add: ReadPage_def)
  show "\<exists>d'. WritePage d i p = Inr d'" if "unat i < num_pages d" "io_ok d" for d and i :: PageId and p
    using that by (simp add: WritePage_def)
  show "disk_inv d' \<and> num_pages d' = num_pages d \<and> io_ok d' = io_ok d \<and>
      (\<forall>j. unat j < num_pages d \<longrightarrow> disk_page d' j = (if j = i then p else disk_page d j))"
    if "disk_inv d" "length p = kPageSize" "WritePage d i p = Inr d'" for d p i d'
    using WritePage_effect [OF that] by (intro conjI)
  show "\<exists>i d'. AllocatePage d = Inr (i, d')" if "io_ok d" for d
    using that by (simp add: AllocatePage_def Let_def)
  show "disk_inv d' \<and> num_pages d' = Suc (num_pages d) \<and> io_ok d' = io_ok d \<and> unat i = num_pages d \<and>
      disk_page d' i = zero_page \<and> (\<forall>j. unat j < num_pages d \<longrightarrow> disk_page d' j = disk_page d j)"
    if "disk_inv d" "num_pages d < 2 ^ 32" "AllocatePage d = Inr (i, d')" for d i d'
    using AllocatePage_effect [OF that] by (intro conjI)
qed

lemma disk_inv_DiskManager: "DiskManager f ok = Inr d \<Longrightarrow> disk_inv d \<and> 0 < num_pages d"
  by (auto simp: DiskManager_def Let_def disk_inv_def AllocatePage_def kPageSize_def div_greater_zero_iff
      split: if_splits dest: dvd_imp_le)

text \<open>A new database file, for instances.\<close>

definition sample_disk :: disk where
  "sample_disk = \<lparr>fbytes = replicate kPageSize 0, num_pages = 1, io_ok = True\<rparr>"

lemma sample_disk: "DiskManager [] True = Inr sample_disk" "disk_inv sample_disk" "num_pages sample_disk = 1" "io_ok sample_disk"
  by (simp_all add: DiskManager_def AllocatePage_def sample_disk_def Let_def disk_inv_def)

end
