(* ===== verification/Catalogs.thy ===== *)
theory Catalogs
  imports Schemas Disk
begin

text \<open>
  The catalog (\<open>catalog/catalog.h\<close>, \<open>catalog/catalog.cpp\<close>): the ordered map of the tables,
  the operations that change it, and its persistence on a chain of pages that starts at
  page 0. Walking a stored chain is a partial function, since a chain that closes on itself is
  walked forever.
\<close>

section \<open>Tables\<close>

record RowGroup =
  num_rows :: u64
  column_roots :: "PageId list"

record TableMeta =
  tm_name :: string
  tm_schema :: schema
  row_groups :: "RowGroup list"

definition TotalRows :: "TableMeta \<Rightarrow> u64" where
  "TotalRows m = foldl (\<lambda>n rg. n + num_rows rg) 0 (row_groups m)"

section \<open>The ordered map\<close>

text \<open>\<open>std::map\<close>: the entries in the order of their keys. \<open>emplace\<close> keeps an entry that is there.\<close>

fun emplace :: "'k::linorder \<Rightarrow> 'v \<Rightarrow> ('k \<times> 'v) list \<Rightarrow> ('k \<times> 'v) list" where
  "emplace k v [] = [(k, v)]"
| "emplace k v ((k', v') # es) =
     (if k < k' then (k, v) # (k', v') # es
      else if k = k' then (k', v') # es
      else (k', v') # emplace k v es)"

fun update_at :: "'k \<Rightarrow> ('v \<Rightarrow> 'v) \<Rightarrow> ('k \<times> 'v) list \<Rightarrow> ('k \<times> 'v) list" where
  "update_at k f [] = []"
| "update_at k f ((k', v') # es) = (if k = k' then (k', f v') # es else (k', v') # update_at k f es)"

fun erase :: "'k \<Rightarrow> ('k \<times> 'v) list \<Rightarrow> ('k \<times> 'v) list" where
  "erase k [] = []"
| "erase k ((k', v') # es) = (if k = k' then es else (k', v') # erase k es)"

definition map_inv :: "('k::linorder \<times> 'v) list \<Rightarrow> bool" where
  "map_inv es \<longleftrightarrow> sorted_wrt (<) (map fst es)"

text \<open>The laws the catalog needs of the map.\<close>

locale ordered_map =
  fixes inv :: "'m \<Rightarrow> bool"
    and look :: "'m \<Rightarrow> 'k::linorder \<Rightarrow> 'v option"
    and emp :: 'm
    and ins :: "'k \<Rightarrow> 'v \<Rightarrow> 'm \<Rightarrow> 'm"
    and upd :: "'k \<Rightarrow> ('v \<Rightarrow> 'v) \<Rightarrow> 'm \<Rightarrow> 'm"
    and del :: "'k \<Rightarrow> 'm \<Rightarrow> 'm"
    and entries :: "'m \<Rightarrow> ('k \<times> 'v) list"
  assumes look_emp: "look emp = Map.empty" "inv emp"
    and look_ins: "inv m \<Longrightarrow> look (ins k v m) = (if k \<in> dom (look m) then look m else (look m)(k \<mapsto> v))" "inv m \<Longrightarrow> inv (ins k v m)"
    and look_upd: "inv m \<Longrightarrow> look (upd k f m) = (look m)(k := map_option f (look m k))" "inv m \<Longrightarrow> inv (upd k f m)"
    and look_del: "inv m \<Longrightarrow> look (del k m) = (look m)(k := None)" "inv m \<Longrightarrow> inv (del k m)"
    and entries_look: "inv m \<Longrightarrow> map_of (entries m) = look m" "inv m \<Longrightarrow> sorted_wrt (<) (map fst (entries m))"
    and extensional: "inv m \<Longrightarrow> inv m' \<Longrightarrow> look m = look m' \<Longrightarrow> m = m'"
begin

lemma ins_del: "inv m \<Longrightarrow> look m k = None \<Longrightarrow> del k (ins k v m) = m"
  by (rule extensional) (auto simp: look_ins look_del fun_eq_iff)

lemma keys: "inv m \<Longrightarrow> k \<in> set (map fst (entries m)) \<longleftrightarrow> look m k \<noteq> None"
  using entries_look(1) [of m] by (metis (mono_tags) list.set_map map_of_eq_None_iff)

lemma ins_commute: "inv m \<Longrightarrow> j \<noteq> k \<Longrightarrow> ins j v (ins k w m) = ins k w (ins j v m)"
  by (rule extensional) (auto simp: look_ins fun_eq_iff)

end

lemma emplace_keys: "set (map fst (emplace k v es)) = insert k (set (map fst es))"
  by (induction k v es rule: emplace.induct) auto

lemma map_of_sorted_none: "sorted_wrt (<) (k # map fst es) \<Longrightarrow> map_of es (k :: 'k::linorder) = None"
  by (induction es) auto

interpretation om: ordered_map map_inv map_of "[]" emplace update_at erase "\<lambda>es. es"
proof unfold_locales
  show "map_inv (emplace k v m)" if "map_inv m" for k v and m :: "('a \<times> 'b) list"
    using that
  proof (induction k v m rule: emplace.induct)
    case (2 k v k' v' es)
    then show ?case using emplace_keys [of k v es] by (auto simp: map_inv_def dest: order.strict_trans)
  qed (simp add: map_inv_def)
  show "map_of (emplace k v m) = (if k \<in> dom (map_of m) then map_of m else (map_of m)(k \<mapsto> v))"
    if "map_inv m" for k v and m :: "('a \<times> 'b) list"
    using that
  proof (induction k v m rule: emplace.induct)
    case (2 k v k' v' es)
    have "map_of es k = None" if "k < k'"
      using 2(2) that by (intro map_of_sorted_none) (auto simp: map_inv_def dest: order.strict_trans)
    with 2 show ?case by (auto simp: map_inv_def fun_eq_iff)
  qed simp
  show "map_inv (update_at k f m)" if "map_inv m" for k f and m :: "('a \<times> 'b) list"
  proof -
    have "map fst (update_at k f m) = map fst m" by (induction k f m rule: update_at.induct) auto
    with that show ?thesis by (simp add: map_inv_def)
  qed
  show "map_of (update_at k f m) = (map_of m)(k := map_option f (map_of m k))" if "map_inv m" for k f and m :: "('a \<times> 'b) list"
    by (induction k f m rule: update_at.induct) (auto simp: fun_eq_iff)
  have sub: "set (erase k m) \<subseteq> set m" for k and m :: "('a \<times> 'b) list"
    by (induction k m rule: erase.induct) auto
  show "map_inv (erase k m)" if "map_inv m" for k and m :: "('a \<times> 'b) list"
    using that sub by (induction k m rule: erase.induct) (auto simp: map_inv_def)
  show "map_of (erase k m) = (map_of m)(k := None)" if "map_inv m" for k and m :: "('a \<times> 'b) list"
    using that
  proof (induction k m rule: erase.induct)
    case (2 k k' v' es)
    then show ?case using map_of_sorted_none [of k' es] by (auto simp: map_inv_def fun_eq_iff)
  qed auto
  show "m = m'" if "map_inv m" "map_inv m'" "map_of m = map_of m'" for m m' :: "('a \<times> 'b) list"
  proof -
    have sd: "sorted (map fst m)" "distinct (map fst m)" "sorted (map fst m')" "distinct (map fst m')"
      using that by (auto simp: map_inv_def strict_sorted_iff)
    then have "set m = set m'" using that(3) by (simp add: map_of_inject_set)
    moreover from this have "inj_on fst (set m \<union> set m')" using sd(2) by (simp add: distinct_map)
    ultimately show ?thesis using sd by (metis map_sorted_distinct_set_unique)
  qed
qed (auto simp: map_inv_def)

section \<open>Operations\<close>

record Catalog =
  tables :: "(string \<times> TableMeta) list"

definition empty_catalog :: Catalog where
  "empty_catalog = \<lparr>tables = []\<rparr>"

definition GetTable :: "Catalog \<Rightarrow> string \<Rightarrow> TableMeta option" where
  "GetTable c name = map_of (tables c) name"

definition CreateTable :: "Catalog \<Rightarrow> string \<Rightarrow> schema \<Rightarrow> Catalog result" where
  "CreateTable c name schema =
     (if GetTable c name \<noteq> None then Inl (InvalidArgument (''CreateTable: table already exists: '' @ name))
      else Inr (c\<lparr>tables := emplace name \<lparr>tm_name = name, tm_schema = schema, row_groups = []\<rparr> (tables c)\<rparr>))"

definition DropTable :: "Catalog \<Rightarrow> string \<Rightarrow> bool \<times> Catalog" where
  "DropTable c name =
     (case GetTable c name of None \<Rightarrow> (False, c) | Some _ \<Rightarrow> (True, c\<lparr>tables := erase name (tables c)\<rparr>))"

definition AddRowGroup :: "Catalog \<Rightarrow> string \<Rightarrow> RowGroup \<Rightarrow> Catalog result" where
  "AddRowGroup c table rg =
     (case GetTable c table of None \<Rightarrow> Inl (InvalidArgument ''AddRowGroup: no such table'')
      | Some _ \<Rightarrow> Inr (c\<lparr>tables := update_at table (\<lambda>m. m\<lparr>row_groups := row_groups m @ [rg]\<rparr>) (tables c)\<rparr>))"

definition ClearRowGroups :: "Catalog \<Rightarrow> string \<Rightarrow> Catalog result" where
  "ClearRowGroups c table =
     (case GetTable c table of None \<Rightarrow> Inl (InvalidArgument ''ClearRowGroups: no such table'')
      | Some _ \<Rightarrow> Inr (c\<lparr>tables := update_at table (\<lambda>m. m\<lparr>row_groups := []\<rparr>) (tables c)\<rparr>))"

definition ListTables :: "Catalog \<Rightarrow> string list" where
  "ListTables c = map fst (tables c)"

definition NumTables :: "Catalog \<Rightarrow> nat" where
  "NumTables c = length (tables c)"

section \<open>The stored form\<close>

definition put_row_group :: "RowGroup \<Rightarrow> byte list" where
  "put_row_group rg = PutPod (num_rows rg) @ concat (map PutPod (column_roots rg))"

definition put_table :: "TableMeta \<Rightarrow> byte list" where
  "put_table m =
     (let schema_bytes = Serialize (tm_schema m) in
      PutPod (word_of_nat (length (tm_name m)) :: byte) @ bytes_of_string (tm_name m) @
      PutPod (word_of_nat (length schema_bytes) :: u32) @ schema_bytes @
      PutPod (word_of_nat (length (row_groups m)) :: u32) @ concat (map put_row_group (row_groups m)))"

definition catalog_body :: "Catalog \<Rightarrow> byte list" where
  "catalog_body c = PutPod (word_of_nat (length (tables c)) :: u32) @ concat (map (\<lambda>(name, m). put_table m) (tables c))"

definition get_row_group :: "nat \<Rightarrow> byte list \<Rightarrow> (RowGroup \<times> byte list) result" where
  "get_row_group ncols bs =
     bindR (GetPod ''Catalog: truncated'' bs) (\<lambda>(n, bs1).
     bindR (getN (GetPod ''Catalog: truncated'') ncols bs1) (\<lambda>(roots, bs2).
     Inr (\<lparr>num_rows = n, column_roots = roots\<rparr>, bs2)))"

definition get_table :: "byte list \<Rightarrow> (TableMeta \<times> byte list) result" where
  "get_table bs =
     bindR (GetPod ''Catalog: truncated'' bs) (\<lambda>(name_len :: byte, bs1).
     if length bs1 < unat name_len then Inl (RuntimeError ''Catalog: truncated name'')
     else let name = string_of_bytes (take (unat name_len) bs1) in
     bindR (GetPod ''Catalog: truncated'' (drop (unat name_len) bs1)) (\<lambda>(schema_size :: u32, bs2).
     bindR (Deserialize bs2 (unat schema_size)) (\<lambda>(schema, consumed).
     bindR (GetPod ''Catalog: truncated'' (drop (unat schema_size) bs2)) (\<lambda>(num_rg :: u32, bs3).
     bindR (getN (get_row_group (NumColumns schema)) (unat num_rg) bs3) (\<lambda>(rgs, bs4).
     Inr (\<lparr>tm_name = name, tm_schema = schema, row_groups = rgs\<rparr>, bs4))))))"

definition parse_body :: "byte list \<Rightarrow> Catalog result" where
  "parse_body body =
     bindR (GetPod ''Catalog: truncated'' body) (\<lambda>(num_tables :: u32, bs).
     bindR (getN get_table (unat num_tables) bs) (\<lambda>(ms, _).
     Inr \<lparr>tables = foldl (\<lambda>es m. emplace (tm_name m) m es) [] ms\<rparr>))"

section \<open>Loading\<close>

text \<open>
  The walk that reassembles the body. A payload size above the capacity would read past the
  page buffer. The value \<open>None\<close> is a walk that does not end.
\<close>

partial_function (option) load_body :: "disk \<Rightarrow> PageId \<Rightarrow> byte list \<Rightarrow> byte list result option" where
  "load_body d pid body =
     (if pid = kInvalidPageId then Some (Inr body)
      else case ReadPage d pid of
          Inl e \<Rightarrow> Some (Inl e)
        | Inr page \<Rightarrow>
            if PayloadCapacity < unat (hdr_payload_bytes page) then Some (Inl (Undefined ''payload + payload_bytes''))
            else load_body d (hdr_next_page_id page) (body @ read_payload 0 (unat (hdr_payload_bytes page)) page))"

definition Load :: "disk \<Rightarrow> Catalog result option" where
  "Load d =
     (if num_pages d = 0 then Some (Inr empty_catalog)
      else case ReadPage d 0 of
          Inl e \<Rightarrow> Some (Inl e)
        | Inr page \<Rightarrow>
            if hdr_page_type page \<noteq> page_type_code kCatalog then Some (Inr empty_catalog)
            else Option.bind (load_body d 0 []) (\<lambda>r. Some (bindR r parse_body)))"

section \<open>Persisting\<close>

definition pages_needed :: "byte list \<Rightarrow> nat" where
  "pages_needed body = max 1 ((length body + PayloadCapacity - 1) div PayloadCapacity)"

partial_function (option) walk_chain :: "disk \<Rightarrow> PageId \<Rightarrow> PageId list \<Rightarrow> PageId list result option" where
  "walk_chain d next chain =
     (if next = kInvalidPageId then Some (Inr chain)
      else case ReadPage d next of
          Inl e \<Rightarrow> Some (Inl e)
        | Inr probe \<Rightarrow> walk_chain d (hdr_next_page_id probe) (chain @ [next]))"

text \<open>The loop \<open>while (chain.size() < num_pages)\<close>, with the number of pages still missing.\<close>

fun extend_chain :: "nat \<Rightarrow> disk \<Rightarrow> PageId list \<Rightarrow> PageId list result \<times> disk" where
  "extend_chain 0 d chain = (Inr chain, d)"
| "extend_chain (Suc k) d chain =
     (case AllocatePage d of
        Inl e \<Rightarrow> (Inl e, d)
      | Inr (pid, d') \<Rightarrow> extend_chain k d' (chain @ [pid]))"

definition slice :: "byte list \<Rightarrow> nat \<Rightarrow> byte list" where
  "slice body i = read_at (i * PayloadCapacity) (min PayloadCapacity (length body - i * PayloadCapacity)) body"

definition catalog_page :: "byte list \<Rightarrow> PageId list \<Rightarrow> nat \<Rightarrow> nat \<Rightarrow> page" where
  "catalog_page body chain n i =
     write_payload 0 (slice body i)
       (set_payload_bytes (word_of_nat (length (slice body i)))
         (set_next_page_id (if i + 1 < n then chain ! (i + 1) else kInvalidPageId)
           (set_page_type kCatalog (set_page_id (chain ! i) zero_page))))"

fun write_slices :: "byte list \<Rightarrow> PageId list \<Rightarrow> nat \<Rightarrow> nat list \<Rightarrow> disk \<Rightarrow> unit result \<times> disk" where
  "write_slices body chain n [] d = (Inr (), d)"
| "write_slices body chain n (i # is) d =
     (case WritePage d (chain ! i) (catalog_page body chain n i) of
        Inl e \<Rightarrow> (Inl e, d)
      | Inr d' \<Rightarrow> write_slices body chain n is d')"

definition Persist :: "Catalog \<Rightarrow> disk \<Rightarrow> (unit result \<times> disk) option" where
  "Persist c d =
     (let body = catalog_body c; n = pages_needed body in
      case ReadPage d 0 of
        Inl e \<Rightarrow> Some (Inl e, d)
      | Inr probe \<Rightarrow>
          Option.bind
            (walk_chain d (if hdr_page_type probe = page_type_code kCatalog then hdr_next_page_id probe else kInvalidPageId) [0])
            (\<lambda>r. Some (case r of
                Inl e \<Rightarrow> (Inl e, d)
              | Inr chain \<Rightarrow>
                  (case extend_chain (n - length chain) d chain of
                     (Inl e, d1) \<Rightarrow> (Inl e, d1)
                   | (Inr chain1, d1) \<Rightarrow> write_slices body chain1 n [0..<n] d1))))"

section \<open>Round trip of the bytes\<close>

definition table_ok :: "TableMeta \<Rightarrow> bool" where
  "table_ok m \<longleftrightarrow> length (tm_name m) < 256 \<and> schema_ok (tm_schema m) \<and> length (row_groups m) < 2 ^ 32 \<and>
     list_all (\<lambda>rg. length (column_roots rg) = length (tm_schema m)) (row_groups m)"

definition catalog_ok :: "Catalog \<Rightarrow> bool" where
  "catalog_ok c \<longleftrightarrow> map_inv (tables c) \<and> length (tables c) < 2 ^ 32 \<and>
     list_all (\<lambda>(k, m). k = tm_name m \<and> table_ok m) (tables c)"

interpretation rgc: codec put_row_group "get_row_group n" "\<lambda>rg. length (column_roots rg) = n" for n
proof unfold_locales
  show "get_row_group n (put_row_group x @ rest) = Inr (x, rest)" if "length (column_roots x) = n" for x rest
    using that u32.getN_puts [of "column_roots x"] by (auto simp: get_row_group_def put_row_group_def list_all_iff)
qed

interpretation tc: codec put_table get_table table_ok
proof unfold_locales
  show "get_table (put_table m @ rest) = Inr (m, rest)" if "table_ok m" for m rest
  proof -
    have ok: "length (tm_name m) < 256" "schema_ok (tm_schema m)" "length (row_groups m) < 2 ^ 32"
      "list_all (\<lambda>rg. length (column_roots rg) = length (tm_schema m)) (row_groups m)"
      using that by (simp_all add: table_ok_def)
    show ?thesis
      using ok length_Serialize [OF ok(2)] Deserialize_Serialize [OF ok(2)] rgc.getN_puts [OF ok(4)]
      by (simp add: get_table_def put_table_def Let_def unat_of_nat NumColumns_def)
  qed
qed

lemma emplace_last: "sorted_wrt (<) (map fst (es @ [(k, v)])) \<Longrightarrow> emplace k v es = es @ [(k, v)]"
  by (induction es) (auto simp: not_less_iff_gr_or_eq)

lemma emplace_all:
  "map_inv es \<Longrightarrow> list_all (\<lambda>(k, m). k = tm_name m) es \<Longrightarrow> foldl (\<lambda>es m. emplace (tm_name m) m es) [] (map snd es) = es"
proof (induction es rule: rev_induct)
  case (snoc e es)
  then show ?case by (cases e) (auto simp: map_inv_def sorted_wrt_append emplace_last)
qed simp

lemma parse_body_ok: "catalog_ok c \<Longrightarrow> parse_body (catalog_body c) = Inr c"
proof -
  assume ok: "catalog_ok c"
  then have all: "list_all table_ok (map snd (tables c))" "list_all (\<lambda>(k, m). k = tm_name m) (tables c)"
    by (auto simp: catalog_ok_def list_all_iff)
  have body: "concat (map (\<lambda>(name, m). put_table m) (tables c)) = concat (map put_table (map snd (tables c)))"
    by (simp add: case_prod_unfold o_def)
  have "getN get_table (length (tables c)) (concat (map put_table (map snd (tables c)))) = Inr (map snd (tables c), [])"
    using tc.getN_puts [OF all(1), of "[]"] by simp
  then show ?thesis
    using ok emplace_all [OF _ all(2)] unfolding parse_body_def catalog_body_def body
    by (simp add: catalog_ok_def unat_of_nat)
qed

section \<open>The page chain\<close>

text \<open>The pages a walk from \<open>pid\<close> visits before it reaches the invalid id.\<close>

fun chain_from :: "(PageId \<Rightarrow> page) \<Rightarrow> PageId \<Rightarrow> PageId list \<Rightarrow> bool" where
  "chain_from pg pid [] \<longleftrightarrow> pid = kInvalidPageId"
| "chain_from pg pid (x # xs) \<longleftrightarrow> pid = x \<and> x \<noteq> kInvalidPageId \<and> chain_from pg (hdr_next_page_id (pg x)) xs"

definition catalog_chain :: "disk \<Rightarrow> PageId list \<Rightarrow> bool" where
  "catalog_chain d ids \<longleftrightarrow> disk_inv d \<and> distinct ids \<and> (\<forall>i \<in> set ids. unat i < num_pages d) \<and>
     (if hdr_page_type (disk_page d 0) = page_type_code kCatalog then chain_from (disk_page d) 0 ids \<and> ids \<noteq> []
      else ids = [0])"

text \<open>The body a chain holds.\<close>

definition stored_body :: "disk \<Rightarrow> PageId list \<Rightarrow> byte list \<Rightarrow> bool" where
  "stored_body d ids body \<longleftrightarrow> hdr_page_type (disk_page d 0) = page_type_code kCatalog \<and>
     (\<forall>i \<in> set ids. hdr_page_type (disk_page d i) = page_type_code kCatalog \<and> unat (hdr_payload_bytes (disk_page d i)) \<le> PayloadCapacity) \<and>
     body = concat (map (\<lambda>i. read_payload 0 (unat (hdr_payload_bytes (disk_page d i))) (disk_page d i)) ids)"

lemma walk_chain_ok:
  assumes "disk_inv d" and "chain_from (disk_page d) next ids" and "\<forall>i \<in> set ids. unat i < num_pages d"
  shows "walk_chain d next ch = Some (Inr (ch @ ids))"
  using assms(2,3)
proof (induction ids arbitrary: "next" ch)
  case Nil
  then show ?case by (subst walk_chain.simps) simp
next
  case (Cons i ids)
  then show ?case using assms(1) by (subst walk_chain.simps) (simp add: dm.rd_ok)
qed

lemma load_body_ok:
  assumes "disk_inv d" and "chain_from (disk_page d) pid ids" and "\<forall>i \<in> set ids. unat i < num_pages d"
    and "\<forall>i \<in> set ids. unat (hdr_payload_bytes (disk_page d i)) \<le> PayloadCapacity"
  shows "load_body d pid body =
    Some (Inr (body @ concat (map (\<lambda>i. read_payload 0 (unat (hdr_payload_bytes (disk_page d i))) (disk_page d i)) ids)))"
  using assms(2,3,4)
proof (induction ids arbitrary: pid body)
  case Nil
  then show ?case by (subst load_body.simps) simp
next
  case (Cons i ids)
  then show ?case using assms(1) by (subst load_body.simps) (simp add: dm.rd_ok not_less)
qed

lemma Load_ok:
  assumes "catalog_chain d ids" and "stored_body d ids (catalog_body c)" and "catalog_ok c"
  shows "Load d = Some (Inr c)"
proof -
  have ch: "chain_from (disk_page d) 0 ids" "ids \<noteq> []" "disk_inv d" "\<forall>i \<in> set ids. unat i < num_pages d"
    using assms(1,2) by (auto simp: catalog_chain_def stored_body_def split: if_splits)
  then have "hd ids = 0" by (cases ids) auto
  then have n0: "0 < num_pages d" using ch(2,4) by (metis hd_in_set unat_0)
  have "load_body d 0 [] = Some (Inr (catalog_body c))"
    using load_body_ok [OF ch(3,1,4)] assms(2) by (simp add: stored_body_def)
  then show ?thesis
    using assms(2) n0 dm.rd_ok [OF ch(3), of 0] parse_body_ok [OF assms(3)]
    by (simp add: Load_def stored_body_def)
qed

lemma extend_chain_ok:
  assumes "disk_inv d" and "io_ok d" and "num_pages d + k < 2 ^ 32"
    and "distinct ch" and "\<forall>i \<in> set ch. unat i < num_pages d"
  shows "\<exists>fresh d'. extend_chain k d ch = (Inr (ch @ fresh), d') \<and> length fresh = k \<and> disk_inv d' \<and> io_ok d' \<and>
    num_pages d' = num_pages d + k \<and> distinct (ch @ fresh) \<and> (\<forall>i \<in> set (ch @ fresh). unat i < num_pages d') \<and>
    (\<forall>i \<in> set fresh. num_pages d \<le> unat i) \<and>
    (\<forall>j. unat j < num_pages d \<longrightarrow> disk_page d' j = disk_page d j)"
  using assms
proof (induction k arbitrary: d ch)
  case (Suc k)
  obtain i d1 where a: "AllocatePage d = Inr (i, d1)" using dm.alloc_ok Suc.prems(2) by blast
  have e: "disk_inv d1" "num_pages d1 = Suc (num_pages d)" "io_ok d1" "unat i = num_pages d"
    "\<forall>j. unat j < num_pages d \<longrightarrow> disk_page d1 j = disk_page d j"
    using dm.alloc_effect [OF Suc.prems(1) _ a] Suc.prems(2,3) by auto
  have ch: "distinct (ch @ [i])" "\<forall>j \<in> set (ch @ [i]). unat j < num_pages d1"
    using Suc.prems(4,5) e(2,4) by (auto simp: less_Suc_eq)
  obtain fresh d' where r: "extend_chain k d1 (ch @ [i]) = (Inr ((ch @ [i]) @ fresh), d')" "length fresh = k"
    "disk_inv d'" "io_ok d'" "num_pages d' = num_pages d1 + k" "distinct ((ch @ [i]) @ fresh)"
    "\<forall>j \<in> set ((ch @ [i]) @ fresh). unat j < num_pages d'" "\<forall>j \<in> set fresh. num_pages d1 \<le> unat j"
    "\<forall>j. unat j < num_pages d1 \<longrightarrow> disk_page d' j = disk_page d1 j"
    using Suc.IH [OF e(1,3) _ ch] Suc.prems(3) e(2) by auto
  show ?case
    using a r e by (intro exI [of _ "i # fresh"] exI [of _ d']) auto
qed auto

lemma write_slices_ok:
  assumes "disk_inv d" and "io_ok d" and "distinct (map ((!) chain) is)" and "\<forall>i \<in> set is. unat (chain ! i) < num_pages d"
    and "\<And>i. i \<in> set is \<Longrightarrow> length (catalog_page body chain n i) = kPageSize"
  shows "\<exists>d'. write_slices body chain n is d = (Inr (), d') \<and> disk_inv d' \<and> io_ok d' \<and> num_pages d' = num_pages d \<and>
    (\<forall>i \<in> set is. disk_page d' (chain ! i) = catalog_page body chain n i) \<and>
    (\<forall>j. unat j < num_pages d \<longrightarrow> j \<notin> (!) chain ` set is \<longrightarrow> disk_page d' j = disk_page d j)"
  using assms
proof (induction "is" arbitrary: d)
  case (Cons i "is")
  let ?p = "catalog_page body chain n i"
  have r: "unat (chain ! i) < num_pages d" "length ?p = kPageSize" using Cons.prems(4,5) by auto
  obtain d1 where w: "WritePage d (chain ! i) ?p = Inr d1" using dm.wr_ok [OF Cons.prems(1) r(1) Cons.prems(2) r(2)] by blast
  have e: "disk_inv d1" "num_pages d1 = num_pages d" "io_ok d1"
    "\<forall>j. unat j < num_pages d \<longrightarrow> disk_page d1 j = (if j = chain ! i then ?p else disk_page d j)"
    using dm.wr_effect [OF Cons.prems(1) r(2) w] Cons.prems(2) by auto
  obtain d' where d': "write_slices body chain n is d1 = (Inr (), d')" "disk_inv d'" "io_ok d'" "num_pages d' = num_pages d1"
    "\<forall>i \<in> set is. disk_page d' (chain ! i) = catalog_page body chain n i"
    "\<forall>j. unat j < num_pages d1 \<longrightarrow> j \<notin> (!) chain ` set is \<longrightarrow> disk_page d' j = disk_page d1 j"
    using Cons.IH [OF e(1,3)] Cons.prems(3,4,5) e(2) by auto
  have "disk_page d' (chain ! i) = ?p"
    using d'(6) e(2,4) r(1) Cons.prems(3) by auto
  then show ?case using d' w e by auto
qed simp

section \<open>The catalog's pages\<close>

lemma length_slice: "length (slice body i) \<le> PayloadCapacity"
  by (simp add: slice_def read_at_def)

lemma concat_slices: "length body \<le> n * PayloadCapacity \<Longrightarrow> concat (map (slice body) [0..<n]) = body"
proof -
  have "concat (map (slice body) [0..<n]) = take (n * PayloadCapacity) body" for n
  proof (induction n)
    case (Suc n)
    have "slice body n = take PayloadCapacity (drop (n * PayloadCapacity) body)"
      by (simp add: slice_def read_at_def min_def)
    then show ?case using Suc by (simp add: take_add [symmetric] add.commute)
  qed simp
  then show "length body \<le> n * PayloadCapacity \<Longrightarrow> ?thesis" by simp
qed

lemma pages_needed_enough: "length body \<le> pages_needed body * PayloadCapacity" "0 < pages_needed body"
proof -
  have c: "PayloadCapacity = 4080" by (simp add: PayloadCapacity_def kPageSize_def kHeaderSize_def)
  show "0 < pages_needed body" by (simp add: pages_needed_def)
  have "length body \<le> (length body + 4080 - 1) div 4080 * 4080"
    using div_mult_mod_eq [of "length body + 4079" 4080] mod_less_divisor [of 4080 "length body + 4079"] by simp
  also have "\<dots> \<le> pages_needed body * 4080" by (intro mult_right_mono) (auto simp: pages_needed_def c)
  finally show "length body \<le> pages_needed body * PayloadCapacity" by (simp add: c)
qed

lemma catalog_page_fields:
  "length (catalog_page body ch n i) = kPageSize"
  "hdr_page_type (catalog_page body ch n i) = page_type_code kCatalog"
  "hdr_next_page_id (catalog_page body ch n i) = (if i + 1 < n then ch ! (i + 1) else kInvalidPageId)"
  "unat (hdr_payload_bytes (catalog_page body ch n i)) = length (slice body i)"
  "read_payload 0 (length (slice body i)) (catalog_page body ch n i) = slice body i"
proof -
  have l: "length (slice body i) \<le> PayloadCapacity" by (rule length_slice)
  then have s: "length (slice body i) < 2 ^ 32" by (simp add: PayloadCapacity_def kPageSize_def)
  have z: "length zero_page = kPageSize" by (simp add: zero_page_def)
  let ?q = "set_payload_bytes (word_of_nat (length (slice body i)))
         (set_next_page_id (if i + 1 < n then ch ! (i + 1) else kInvalidPageId)
           (set_page_type kCatalog (set_page_id (ch ! i) zero_page)))"
  have q: "length ?q = kPageSize" "hdr_page_type ?q = page_type_code kCatalog"
    "hdr_next_page_id ?q = (if i + 1 < n then ch ! (i + 1) else kInvalidPageId)"
    "hdr_payload_bytes ?q = word_of_nat (length (slice body i))"
    using z by (simp_all add: page_simps)
  have p: "catalog_page body ch n i = write_payload 0 (slice body i) ?q" by (simp add: catalog_page_def)
  show "length (catalog_page body ch n i) = kPageSize" "hdr_page_type (catalog_page body ch n i) = page_type_code kCatalog"
    "hdr_next_page_id (catalog_page body ch n i) = (if i + 1 < n then ch ! (i + 1) else kInvalidPageId)"
    "unat (hdr_payload_bytes (catalog_page body ch n i)) = length (slice body i)"
    unfolding p using q l s by (simp_all add: page_simps unat_of_nat)
  show "read_payload 0 (length (slice body i)) (catalog_page body ch n i) = slice body i"
    unfolding p using read_write_payload [OF q(1), of 0 "slice body i"] l by (simp add: read_payload_def read_at_def)
qed

text \<open>
  One \<open>Persist\<close>: the body is on a chain of exactly the pages it needs, which reuses the pages
  of the old chain before it allocates; no other page changes.
\<close>

lemma slices_stored:
  assumes d: "disk_inv d" "distinct all" "\<forall>i \<in> set all. unat i < num_pages d" "num_pages d < 2 ^ 32"
    and all: "n \<le> length all" "all ! 0 = 0" "0 < n" "length body \<le> n * PayloadCapacity"
    and pg: "\<forall>i \<in> set [0..<n]. disk_page d (all ! i) = catalog_page body all n i"
  shows "catalog_chain d (take n all)" and "stored_body d (take n all) body"
proof -
  define ch where "ch = take n all"
  have ch: "length ch = n" "ch ! 0 = 0" "0 < n" "length body \<le> n * PayloadCapacity"
    "distinct ch" "\<forall>i \<in> set ch. unat i < num_pages d" "\<forall>i < n. ch ! i = all ! i"
    using d(2,3) all set_take_subset [of n all] by (auto simp: ch_def distinct_take)
  have inv: "i \<noteq> kInvalidPageId" if "i \<in> set ch" for i
    using ch(6) d(4) that by (auto simp: kInvalidPageId_def)
  have "chain_from (disk_page d) (if k < n then ch ! k else kInvalidPageId) (drop k ch)" if "k \<le> n" for k
    using that
  proof (induction k rule: inc_induct)
    case base
    then show ?case using ch by simp
  next
    case (step k)
    then have "drop k ch = ch ! k # drop (Suc k) ch" "ch ! k \<noteq> kInvalidPageId"
      using ch(1) inv by (auto simp: Cons_nth_drop_Suc)
    with step show ?case using pg ch(7) by (auto simp: catalog_page_fields split: if_splits)
  qed
  from this [of 0] have c: "chain_from (disk_page d) 0 ch" using ch by simp
  have t: "hdr_page_type (disk_page d 0) = page_type_code kCatalog"
    using pg all(2,3) by (metis atLeastLessThan_iff atLeastLessThan_upt catalog_page_fields(2) le0)
  show "catalog_chain d (take n all)" using c d t ch unfolding ch_def [symmetric] by (auto simp: catalog_chain_def)
  have p: "read_payload 0 (unat (hdr_payload_bytes (disk_page d (ch ! i)))) (disk_page d (ch ! i)) = slice body i"
    "unat (hdr_payload_bytes (disk_page d (ch ! i))) \<le> PayloadCapacity" "hdr_page_type (disk_page d (ch ! i)) = page_type_code kCatalog" if "i < n" for i
    using pg that ch(7) by (simp_all add: catalog_page_fields length_slice)
  have "map (\<lambda>i. read_payload 0 (unat (hdr_payload_bytes (disk_page d i))) (disk_page d i)) ch = map (slice body) [0..<n]"
    by (rule nth_equalityI) (use p ch in simp_all)
  then show "stored_body d (take n all) body"
    using t p ch(1) concat_slices [OF ch(4)] unfolding ch_def [symmetric] by (auto simp: stored_body_def in_set_conv_nth)
qed

lemma write_prefix_ok:
  assumes "disk_inv d" "io_ok d" "distinct all" "\<forall>i \<in> set all. unat i < num_pages d" "n \<le> length all"
  shows "\<exists>d'. write_slices body all n [0..<n] d = (Inr (), d') \<and> disk_inv d' \<and> io_ok d' \<and> num_pages d' = num_pages d \<and>
    (\<forall>i \<in> set [0..<n]. disk_page d' (all ! i) = catalog_page body all n i) \<and>
    (\<forall>j. unat j < num_pages d \<longrightarrow> j \<notin> set (take n all) \<longrightarrow> disk_page d' j = disk_page d j)"
proof -
  have nth: "map ((!) all) [0..<n] = take n all" by (rule nth_equalityI) (use assms(5) in simp_all)
  then have img: "(!) all ` set [0..<n] = set (take n all)" by (metis list.set_map)
  have "distinct (map ((!) all) [0..<n])" using assms(3) by (simp add: nth distinct_take)
  moreover have "\<forall>i \<in> set [0..<n]. unat (all ! i) < num_pages d" using assms(4,5) by auto
  ultimately show ?thesis
    using write_slices_ok [OF assms(1,2), of all "[0..<n]" body n] catalog_page_fields(1) unfolding img by blast
qed

lemma Persist_ok:
  assumes old: "catalog_chain d ids" and io: "io_ok d" and room: "num_pages d + pages_needed (catalog_body c) < 2 ^ 32"
  obtains ch d' where "Persist c d = Some (Inr (), d')" "catalog_chain d' ch" "stored_body d' ch (catalog_body c)"
    "io_ok d'" "length ch = pages_needed (catalog_body c)" "take (length ids) ch = take (length ch) ids"
    "num_pages d' = num_pages d + (length ch - length ids)"
    "\<forall>j. unat j < num_pages d \<longrightarrow> j \<notin> set ids \<longrightarrow> disk_page d' j = disk_page d j"
    "\<forall>i \<in> set ch. i \<in> set ids \<or> num_pages d \<le> unat i"
proof -
  let ?body = "catalog_body c" and ?n = "pages_needed (catalog_body c)"
  have d: "disk_inv d" "distinct ids" "\<forall>i \<in> set ids. unat i < num_pages d" using old by (auto simp: catalog_chain_def)
  have hd: "ids \<noteq> []" "ids ! 0 = 0" using old by (cases ids; auto simp: catalog_chain_def split: if_splits)+
  then have n0: "unat (0 :: PageId) < num_pages d" using d(3) by (metis length_greater_0_conv nth_mem)
  let ?next = "if hdr_page_type (disk_page d 0) = page_type_code kCatalog then hdr_next_page_id (disk_page d 0) else kInvalidPageId"
  have "chain_from (disk_page d) ?next (drop 1 ids)" using old hd by (cases ids) (auto simp: catalog_chain_def split: if_splits)
  then have walk: "walk_chain d ?next [0] = Some (Inr ids)"
    using walk_chain_ok [OF d(1), of ?next "drop 1 ids" "[0]"] d(3) hd by (cases ids) auto
  have room': "num_pages d + (?n - length ids) < 2 ^ 32" using room by linarith
  obtain fresh d1 where x: "extend_chain (?n - length ids) d ids = (Inr (ids @ fresh), d1)" "length fresh = ?n - length ids"
    "disk_inv d1" "io_ok d1" "num_pages d1 = num_pages d + (?n - length ids)" "distinct (ids @ fresh)"
    "\<forall>i \<in> set (ids @ fresh). unat i < num_pages d1" "\<forall>i \<in> set fresh. num_pages d \<le> unat i"
    "\<forall>j. unat j < num_pages d \<longrightarrow> disk_page d1 j = disk_page d j"
    using extend_chain_ok [OF d(1) io room' d(2,3)] by blast
  let ?all = "ids @ fresh" and ?ch = "take ?n (ids @ fresh)"
  have len: "?n \<le> length ?all" "length ?ch = ?n" using x(2) by simp_all
  have all0: "?all ! 0 = 0" using hd by (simp add: nth_append)
  obtain d' where w: "write_slices ?body ?all ?n [0..<?n] d1 = (Inr (), d')" "disk_inv d'" "io_ok d'" "num_pages d' = num_pages d1"
    "\<forall>i \<in> set [0..<?n]. disk_page d' (?all ! i) = catalog_page ?body ?all ?n i"
    "\<forall>j. unat j < num_pages d1 \<longrightarrow> j \<notin> set ?ch \<longrightarrow> disk_page d' j = disk_page d1 j"
    using write_prefix_ok [OF x(3,4,6,7) len(1)] by blast
  have same: "\<forall>j. unat j < num_pages d \<longrightarrow> j \<notin> set ids \<longrightarrow> disk_page d' j = disk_page d j"
  proof (intro allI impI)
    fix j :: PageId
    assume j: "unat j < num_pages d" "j \<notin> set ids"
    then have "j \<notin> set ?all" using x(8) by auto
    then have "j \<notin> set ?ch" by (meson in_set_takeD)
    then show "disk_page d' j = disk_page d j" using w(6) x(5,9) j(1) by simp
  qed
  have run: "Persist c d = Some (Inr (), d')"
    using walk x(1) w(1) dm.rd_ok [OF d(1) n0] by (simp add: Persist_def Let_def)
  have stored: "catalog_chain d' ?ch" "stored_body d' ?ch ?body"
    using slices_stored [of d' ?all ?n ?body] w(2,4,5) x(5,6,7) len(1) all0 room' pages_needed_enough [of ?body]
    by simp_all
  have fresh: "\<forall>i \<in> set ?ch. i \<in> set ids \<or> num_pages d \<le> unat i" using x(8) by (auto dest: in_set_takeD)
  show thesis
    by (rule that [OF run stored w(3) len(2) _ _ _ fresh]) (use x w len same in \<open>auto simp: min_def take_all\<close>)
qed

section \<open>The catalog as a map\<close>

text \<open>
  The abstract specification: a finite map from names to a schema and the row groups, changed
  by one operation at a time. An operation that the specification refuses throws
  \<open>std::invalid_argument\<close>, except that dropping an absent table returns \<open>false\<close>.
\<close>

datatype catalog_op =
    OpCreate string schema
  | OpDrop string
  | OpAdd string RowGroup
  | OpClear string

fun apply_op :: "Catalog \<Rightarrow> catalog_op \<Rightarrow> Catalog result" where
  "apply_op c (OpCreate n s) = CreateTable c n s"
| "apply_op c (OpDrop n) = Inr (snd (DropTable c n))"
| "apply_op c (OpAdd n rg) = AddRowGroup c n rg"
| "apply_op c (OpClear n) = ClearRowGroups c n"

type_synonym catalog_spec = "string \<rightharpoonup> schema \<times> RowGroup list"

fun spec_op :: "catalog_op \<Rightarrow> catalog_spec \<Rightarrow> catalog_spec option" where
  "spec_op (OpCreate n s) a = (if n \<in> dom a then None else Some (a(n \<mapsto> (s, []))))"
| "spec_op (OpDrop n) a = Some (a(n := None))"
| "spec_op (OpAdd n rg) a = (case a n of None \<Rightarrow> None | Some (s, rgs) \<Rightarrow> Some (a(n \<mapsto> (s, rgs @ [rg]))))"
| "spec_op (OpClear n) a = (case a n of None \<Rightarrow> None | Some (s, rgs) \<Rightarrow> Some (a(n \<mapsto> (s, []))))"

fun spec_run :: "catalog_op list \<Rightarrow> catalog_spec \<Rightarrow> catalog_spec option" where
  "spec_run [] a = Some a"
| "spec_run (p # ps) a = Option.bind (spec_op p a) (spec_run ps)"

definition catalog_abs :: "Catalog \<Rightarrow> catalog_spec" where
  "catalog_abs c n = map_option (\<lambda>m. (tm_schema m, row_groups m)) (GetTable c n)"

lemma om_table_facts:
  fixes es :: "(string \<times> TableMeta) list"
  assumes "map_inv es"
  shows "map_inv (emplace k v es)" "map_inv (update_at k f es)" "map_inv (erase k es)"
    "map_of (emplace k v es) = (if k \<in> dom (map_of es) then map_of es else (map_of es)(k \<mapsto> v))"
    "map_of (update_at k f es) = (map_of es)(k := map_option f (map_of es k))"
    "map_of (erase k es) = (map_of es)(k := None)"
  using om.look_ins [OF assms] om.look_upd [OF assms] om.look_del [OF assms] by blast+

lemma apply_op_refines:
  assumes "map_inv (tables c)"
  shows "case apply_op c p of
      Inr c' \<Rightarrow> spec_op p (catalog_abs c) = Some (catalog_abs c') \<and> map_inv (tables c')
    | Inl e \<Rightarrow> spec_op p (catalog_abs c) = None \<and> (\<exists>msg. e = InvalidArgument msg)"
  using om_table_facts [OF assms] assms
  by (cases p) (auto simp: CreateTable_def DropTable_def AddRowGroup_def ClearRowGroups_def GetTable_def catalog_abs_def
      fun_eq_iff dom_def split: option.splits)

lemma run_refines:
  assumes "map_inv (tables c)"
  shows "case foldR apply_op c ps of
      Inr c' \<Rightarrow> spec_run ps (catalog_abs c) = Some (catalog_abs c') \<and> map_inv (tables c')
    | Inl e \<Rightarrow> spec_run ps (catalog_abs c) = None \<and> (\<exists>msg. e = InvalidArgument msg)"
  using assms
proof (induction ps arbitrary: c)
  case (Cons p ps)
  show ?case
  proof (cases "apply_op c p")
    case (Inl e)
    then show ?thesis using apply_op_refines [OF Cons.prems, of p] by auto
  next
    case (Inr c1)
    then show ?thesis using apply_op_refines [OF Cons.prems, of p] Cons.IH [of c1] by (auto split: sum.splits)
  qed
qed simp

text \<open>C18. Any sequence of catalog operations on a new catalog does to it what it does to an
  abstract map from table names to schema and row groups: it succeeds exactly when the map
  operations are all defined, throwing \<open>invalid_argument\<close> otherwise, the lookups agree, and
  \<open>ListTables\<close> lists the names of the map in increasing order, each once.\<close>

theorem catalog_refines:
  "case foldR apply_op empty_catalog ps of
     Inr c \<Rightarrow> spec_run ps Map.empty = Some (catalog_abs c) \<and>
       sorted_wrt (<) (ListTables c) \<and> set (ListTables c) = dom (catalog_abs c)
   | Inl e \<Rightarrow> spec_run ps Map.empty = None \<and> (\<exists>msg. e = InvalidArgument msg)"
proof -
  have e: "map_inv (tables empty_catalog)" "catalog_abs empty_catalog = Map.empty"
    by (simp_all add: empty_catalog_def map_inv_def catalog_abs_def GetTable_def fun_eq_iff)
  have "sorted_wrt (<) (ListTables c) \<and> set (ListTables c) = dom (catalog_abs c)" if "map_inv (tables c)" for c
    using om.entries_look(2) [OF that] dom_map_of_conv_image_fst [of "tables c"]
    by (auto simp: ListTables_def catalog_abs_def GetTable_def dom_def)
  then show ?thesis using run_refines [OF e(1), of ps] unfolding e(2) by (simp split: sum.splits)
qed

section \<open>Persistence\<close>

text \<open>C11. Persisting a catalog always ends and succeeds on a working device, over a new file or over
  an earlier catalog, and loading then gives exactly that catalog. It takes the pages of the
  earlier chain before it allocates, and changes no page outside that chain.\<close>

theorem catalog_round_trip:
  assumes "catalog_chain d ids" and "io_ok d" and "num_pages d + pages_needed (catalog_body c) < 2 ^ 32" and "catalog_ok c"
  shows "\<exists>d' ch. Persist c d = Some (Inr (), d') \<and> Load d' = Some (Inr c) \<and> catalog_chain d' ch \<and> io_ok d' \<and>
    length ch = pages_needed (catalog_body c) \<and> num_pages d' = num_pages d + (length ch - length ids) \<and>
    (\<forall>j. unat j < num_pages d \<longrightarrow> j \<notin> set ids \<longrightarrow> disk_page d' j = disk_page d j)"
proof (rule Persist_ok [OF assms(1-3)])
  fix ch d'
  assume p: "Persist c d = Some (Inr (), d')" "catalog_chain d' ch" "stored_body d' ch (catalog_body c)" "io_ok d'"
    "length ch = pages_needed (catalog_body c)" "num_pages d' = num_pages d + (length ch - length ids)"
    "\<forall>j. unat j < num_pages d \<longrightarrow> j \<notin> set ids \<longrightarrow> disk_page d' j = disk_page d j"
    "\<forall>i \<in> set ch. i \<in> set ids \<or> num_pages d \<le> unat i"
  show ?thesis using p Load_ok [OF p(2,3) assms(4)] by blast
qed

text \<open>The catalog of a database with one table of two columns and one row group, and a new file.\<close>

definition sample_catalog :: Catalog where
  "sample_catalog = \<lparr>tables = [(''t'', \<lparr>tm_name = ''t'',
     tm_schema = [\<lparr>col_name = ''id'', col_type = kInt, varchar_len = 0, column_index = 0\<rparr>,
                  \<lparr>col_name = ''name'', col_type = kVarchar, varchar_len = 16, column_index = 1\<rparr>],
     row_groups = [\<lparr>num_rows = 3, column_roots = [1, 2]\<rparr>]\<rparr>)]\<rparr>"

lemma sample_catalog: "catalog_ok sample_catalog" "pages_needed (catalog_body sample_catalog) = 1"
proof -
  show "catalog_ok sample_catalog"
    by (auto simp: catalog_ok_def sample_catalog_def map_inv_def table_ok_def schema_ok_def kMaxColumnNameLen_def less_Suc_eq)
  have "length (catalog_body sample_catalog) \<le> 4080"
    by (simp add: catalog_body_def sample_catalog_def put_table_def put_row_group_def Serialize_def put_column_def Let_def)
  then show "pages_needed (catalog_body sample_catalog) = 1"
    by (auto simp: pages_needed_def PayloadCapacity_def kPageSize_def kHeaderSize_def max_def)
qed

lemma sample_chain: "catalog_chain sample_disk [0]"
proof -
  have "disk_page sample_disk 0 = zero_page" by (simp add: disk_page_def sample_disk_def read_at_def zero_page_def)
  then have "hdr_page_type (disk_page sample_disk 0) = 0"
    by (simp add: hdr_page_type_def zero_page_def kPageSize_def read_at_def pod_of_bytes_def numeral_2_eq_2)
  then show ?thesis using sample_disk by (simp add: catalog_chain_def)
qed

theorem catalog_round_trip_witness:
  "\<exists>d' ch. Persist sample_catalog sample_disk = Some (Inr (), d') \<and> Load d' = Some (Inr sample_catalog) \<and> catalog_chain d' ch \<and> io_ok d' \<and>
    length ch = pages_needed (catalog_body sample_catalog) \<and> num_pages d' = num_pages sample_disk + (length ch - length [0 :: PageId]) \<and>
    (\<forall>j. unat j < num_pages sample_disk \<longrightarrow> j \<notin> set [0] \<longrightarrow> disk_page d' j = disk_page sample_disk j)"
  by (rule catalog_round_trip [OF sample_chain]) (simp_all add: sample_catalog sample_disk)

text \<open>The name a stored table gets has a length of one byte.\<close>

lemma getN_all: "getN get n bs = Inr (xs, rest) \<Longrightarrow> (\<And>bs x r. get bs = Inr (x, r) \<Longrightarrow> P x) \<Longrightarrow> \<forall>x \<in> set xs. P x"
proof (induction n arbitrary: bs xs rest)
  case (Suc n)
  then show ?case by (fastforce simp: bindR_Inr_iff split: prod.splits)
qed simp

lemma get_table_name: "get_table bs = Inr (m, rest) \<Longrightarrow> length (tm_name m) < 256"
  by (auto simp: get_table_def bindR_Inr_iff Let_def split: if_splits)
    (use unsigned_less [where ?'a = nat and ?'b = 8] in fastforce)

lemma foldl_emplace_keys: "set (map fst (foldl (\<lambda>es m. emplace (tm_name m) m es) es ms)) = set (map fst es) \<union> tm_name ` set ms"
  by (induction ms arbitrary: es) (simp_all add: emplace_keys [simplified])

lemma Load_names: "Load d = Some (Inr c) \<Longrightarrow> name \<in> set (ListTables c) \<Longrightarrow> length name < 256"
proof -
  assume l: "Load d = Some (Inr c)" and n: "name \<in> set (ListTables c)"
  have "c = empty_catalog \<or> (\<exists>body. parse_body body = Inr c)"
    using l by (auto simp: Load_def bind_eq_Some_conv bindR_Inr_iff split: if_splits sum.splits)
  with n obtain body where "parse_body body = Inr c" by (auto simp: empty_catalog_def ListTables_def)
  then obtain k bs ms r where g: "getN get_table k bs = Inr (ms, r)"
    and c: "c = \<lparr>tables = foldl (\<lambda>es m. emplace (tm_name m) m es) [] ms\<rparr>"
    by (auto simp: parse_body_def bindR_Inr_iff)
  have "name \<in> tm_name ` set ms" using n foldl_emplace_keys [of "[]" ms] by (simp add: c ListTables_def)
  then show "length name < 256" using getN_all [where P = "\<lambda>m. length (tm_name m) < 256", OF g] get_table_name by blast
qed

text \<open>C35. \<open>CreateTable\<close> accepts a table name of any length and \<open>Persist\<close> stores it without an error, but
  the stored length is one byte: with a name of 256 characters or more, whatever \<open>Load\<close> then
  gives, it is never the catalog that was persisted.\<close>

theorem catalog_long_name_lost:
  assumes "CreateTable c name s = Inr c'" and "256 \<le> length name" and "map_inv (tables c)"
    and "catalog_chain d ids" and "io_ok d" and "num_pages d + pages_needed (catalog_body c') < 2 ^ 32"
  shows "\<exists>d'. Persist c' d = Some (Inr (), d') \<and> Load d' \<noteq> Some (Inr c')"
proof -
  have "name \<in> set (ListTables c')"
    using assms(1) emplace_keys [of name _ "tables c"] by (auto simp: CreateTable_def ListTables_def split: if_splits)
  then have "Load d' \<noteq> Some (Inr c')" for d' using Load_names assms(2) by (meson not_less)
  then show ?thesis using Persist_ok [OF assms(4-6)] by metis
qed

theorem catalog_long_name_lost_witness:
  "\<exists>c' d'. CreateTable empty_catalog (replicate 300 CHR ''t'') [] = Inr c' \<and> Persist c' sample_disk = Some (Inr (), d') \<and>
    Load d' \<noteq> Some (Inr c')"
proof -
  let ?n = "replicate 300 CHR ''t''"
  let ?c = "\<lparr>tables = [(?n, \<lparr>tm_name = ?n, tm_schema = [], row_groups = []\<rparr>)]\<rparr>"
  have c: "CreateTable empty_catalog ?n [] = Inr ?c" by (simp add: CreateTable_def GetTable_def empty_catalog_def)
  have "length (catalog_body ?c) \<le> 4080"
    by (simp add: catalog_body_def put_table_def Serialize_def Let_def)
  then have "pages_needed (catalog_body ?c) = 1"
    by (auto simp: pages_needed_def PayloadCapacity_def kPageSize_def kHeaderSize_def max_def)
  then have "\<exists>d'. Persist ?c sample_disk = Some (Inr (), d') \<and> Load d' \<noteq> Some (Inr ?c)"
    using catalog_long_name_lost [OF c _ _ sample_chain] sample_disk by (simp add: empty_catalog_def map_inv_def)
  with c show ?thesis by blast
qed

end
