(* ===== verification/Vector.thy ===== *)
theory Vector
  imports Values
begin

text \<open>
  Typed column batches (\<open>vector/vector.cpp\<close>) and rows of them (\<open>vector/data_chunk.cpp\<close>):
  the packed layout, the appends that build it, and the abstraction of a vector to the list
  of values it holds. An index outside the arrays is undefined behaviour in C++ and the
  error \<open>Undefined\<close> here.
\<close>

section \<open>The layout and its operations\<close>

record vec =
  vtype :: ColumnType
  vsize :: nat
  vdata :: "byte list"
  vvalidity :: "byte list"
  voffsets :: "u32 list"
  vstrbytes :: "byte list"

definition kVectorSize :: nat where
  "kVectorSize = 2048"

definition Vector :: "ColumnType \<Rightarrow> vec" where
  "Vector t = \<lparr>vtype = t, vsize = 0, vdata = [], vvalidity = [], voffsets = (if t = kVarchar then [0] else []), vstrbytes = []\<rparr>"

definition Clear :: "vec \<Rightarrow> vec" where
  "Clear v = v\<lparr>vsize := 0, vdata := [], vvalidity := [], vstrbytes := [],
     voffsets := (if vtype v = kVarchar then [0] else [])\<rparr>"

definition append_pod :: "vec \<Rightarrow> byte list \<Rightarrow> vec" where
  "append_pod v bs = v\<lparr>vdata := vdata v @ bs, vvalidity := vvalidity v @ [1], vsize := vsize v + 1\<rparr>"

definition AppendInt32 :: "vec \<Rightarrow> 32 word \<Rightarrow> vec" where
  "AppendInt32 v x = append_pod v (PutPod x)"

definition AppendInt64 :: "vec \<Rightarrow> 64 word \<Rightarrow> vec" where
  "AppendInt64 v x = append_pod v (PutPod x)"

definition AppendDouble :: "vec \<Rightarrow> double \<Rightarrow> vec" where
  "AppendDouble v x = append_pod v (PutPod x)"

definition AppendString :: "vec \<Rightarrow> string \<Rightarrow> vec" where
  "AppendString v s =
     (let sb = vstrbytes v @ bytes_of_string s in
      v\<lparr>vstrbytes := sb, voffsets := voffsets v @ [word_of_nat (length sb)],
        vvalidity := vvalidity v @ [1], vsize := vsize v + 1\<rparr>)"

definition AppendNull :: "vec \<Rightarrow> vec" where
  "AppendNull v =
     (let v1 = (case vtype v of
          kInt \<Rightarrow> v\<lparr>vdata := vdata v @ replicate 4 0\<rparr>
        | kBigInt \<Rightarrow> v\<lparr>vdata := vdata v @ replicate 8 0\<rparr>
        | kFloat \<Rightarrow> v\<lparr>vdata := vdata v @ replicate 8 0\<rparr>
        | kVarchar \<Rightarrow> v\<lparr>voffsets := voffsets v @ [word_of_nat (length (vstrbytes v))]\<rparr>)
      in v1\<lparr>vvalidity := vvalidity v1 @ [0], vsize := vsize v1 + 1\<rparr>)"

text \<open>\<open>std::get\<close>, throwing \<open>bad_variant_access\<close> on another alternative.\<close>

fun get_int32 :: "Value \<Rightarrow> 32 word result" where
  "get_int32 (Int32 x) = Inr x" | "get_int32 _ = Inl BadVariantAccess"

fun get_int64 :: "Value \<Rightarrow> 64 word result" where
  "get_int64 (Int64 x) = Inr x" | "get_int64 _ = Inl BadVariantAccess"

fun get_double :: "Value \<Rightarrow> double result" where
  "get_double (Dbl x) = Inr x" | "get_double _ = Inl BadVariantAccess"

fun get_string :: "Value \<Rightarrow> string result" where
  "get_string (Str x) = Inr x" | "get_string _ = Inl BadVariantAccess"

definition AppendValue :: "vec \<Rightarrow> Value \<Rightarrow> vec result" where
  "AppendValue v x =
     (if IsNull x then Inr (AppendNull v)
      else case vtype v of
          kInt \<Rightarrow> bindR (get_int32 x) (\<lambda>i. Inr (AppendInt32 v i))
        | kBigInt \<Rightarrow> bindR (get_int64 x) (\<lambda>i. Inr (AppendInt64 v i))
        | kFloat \<Rightarrow> bindR (get_double x) (\<lambda>d. Inr (AppendDouble v d))
        | kVarchar \<Rightarrow> bindR (get_string x) (\<lambda>s. Inr (AppendString v s)))"

definition IsValid :: "vec \<Rightarrow> nat \<Rightarrow> bool result" where
  "IsValid v i = (if i < length (vvalidity v) then Inr (vvalidity v ! i \<noteq> 0) else Inl (Undefined ''validity_[i]''))"

definition SetValidity :: "vec \<Rightarrow> nat \<Rightarrow> bool \<Rightarrow> vec result" where
  "SetValidity v i b =
     (if i < length (vvalidity v) then Inr (v\<lparr>vvalidity := (vvalidity v)[i := (if b then 1 else 0)]\<rparr>)
      else Inl (Undefined ''validity_[i]''))"

text \<open>\<open>GetData<T>()[i]\<close>, reading \<open>sizeof(T)\<close> bytes of the packed buffer.\<close>

definition GetData :: "vec \<Rightarrow> nat \<Rightarrow> 'a::len word result" where
  "GetData v i =
     (let w = sizeof_word TYPE('a word) in
      if i * w + w \<le> length (vdata v) then Inr (pod_of_bytes (read_at (i * w) w (vdata v)))
      else Inl (Undefined ''data_[i]''))"

definition GetStringView :: "vec \<Rightarrow> nat \<Rightarrow> string result" where
  "GetStringView v i =
     (if i + 1 < length (voffsets v) then
        (let b = voffsets v ! i; e = voffsets v ! (i + 1) in
         if unat b + unat (e - b) \<le> length (vstrbytes v)
         then Inr (string_of_bytes (read_at (unat b) (unat (e - b)) (vstrbytes v)))
         else Inl (Undefined ''strbytes_''))
      else Inl (Undefined ''offsets_[i]''))"

definition GetValue :: "vec \<Rightarrow> nat \<Rightarrow> Value result" where
  "GetValue v i =
     bindR (IsValid v i) (\<lambda>ok. if \<not> ok then Inr Null
       else case vtype v of
           kInt \<Rightarrow> bindR (GetData v i) (\<lambda>x. Inr (Int32 x))
         | kBigInt \<Rightarrow> bindR (GetData v i) (\<lambda>x. Inr (Int64 x))
         | kFloat \<Rightarrow> bindR (GetData v i) (\<lambda>x. Inr (Dbl x))
         | kVarchar \<Rightarrow> bindR (GetStringView v i) (\<lambda>s. Inr (Str s)))"

definition AppendFrom :: "vec \<Rightarrow> vec \<Rightarrow> nat \<Rightarrow> vec result" where
  "AppendFrom v src i =
     bindR (IsValid src i) (\<lambda>ok. if \<not> ok then Inr (AppendNull v)
       else case vtype v of
           kInt \<Rightarrow> bindR (GetData src i) (\<lambda>x. Inr (AppendInt32 v x))
         | kBigInt \<Rightarrow> bindR (GetData src i) (\<lambda>x. Inr (AppendInt64 v x))
         | kFloat \<Rightarrow> bindR (GetData src i) (\<lambda>x. Inr (AppendDouble v x))
         | kVarchar \<Rightarrow> bindR (GetStringView src i) (\<lambda>s. Inr (AppendString v s)))"

definition ResizeFixed :: "vec \<Rightarrow> nat \<Rightarrow> vec result" where
  "ResizeFixed v n =
     (if vtype v = kVarchar then Inl (LogicError ''Vector::ResizeFixed on VARCHAR'')
      else Inr (v\<lparr>vdata := replicate (n * FixedWidth (vtype v)) 0, vvalidity := replicate n 1, vsize := n\<rparr>))"

section \<open>Data chunks\<close>

record chunk =
  chunk_types :: "ColumnType list"
  columns :: "vec list"
  cardinality :: nat

definition Initialize :: "ColumnType list \<Rightarrow> chunk" where
  "Initialize ts = \<lparr>chunk_types = ts, columns = map Vector ts, cardinality = 0\<rparr>"

definition Reset :: "chunk \<Rightarrow> chunk" where
  "Reset c = c\<lparr>columns := map Clear (columns c), cardinality := 0\<rparr>"

definition GetVector :: "chunk \<Rightarrow> nat \<Rightarrow> vec result" where
  "GetVector c i = (if i < length (columns c) then Inr (columns c ! i) else Inl (Undefined ''columns_[i]''))"

section \<open>The values of a vector\<close>

text \<open>
  The representation: what each array holds for a list of values. \<open>vec_rep v vs\<close> says that
  \<open>v\<close> is the vector of \<open>vs\<close>; a vector of strings keeps its offsets in 32 bits, hence the
  bound on their total length.
\<close>

fun slot_bytes :: "ColumnType \<Rightarrow> Value \<Rightarrow> byte list" where
  "slot_bytes t (Int32 x) = PutPod x"
| "slot_bytes t (Int64 x) = PutPod x"
| "slot_bytes t (Dbl x) = PutPod x"
| "slot_bytes t (Str s) = []"
| "slot_bytes t Null = replicate (FixedWidth t) 0"

fun str_bytes :: "Value \<Rightarrow> byte list" where
  "str_bytes (Str s) = bytes_of_string s"
| "str_bytes _ = []"

definition strs :: "Value list \<Rightarrow> byte list" where
  "strs vs = concat (map str_bytes vs)"

definition vec_of :: "ColumnType \<Rightarrow> Value list \<Rightarrow> vec" where
  "vec_of t vs = \<lparr>vtype = t, vsize = length vs,
     vdata = concat (map (slot_bytes t) vs), vvalidity = map (\<lambda>v. if IsNull v then 0 else 1) vs,
     voffsets = (if t = kVarchar then map (\<lambda>i. word_of_nat (length (strs (take i vs)))) [0..<length vs + 1] else []),
     vstrbytes = strs vs\<rparr>"

definition vec_rep :: "vec \<Rightarrow> Value list \<Rightarrow> bool" where
  "vec_rep v vs \<longleftrightarrow> v = vec_of (vtype v) vs \<and> list_all (value_fits (vtype v)) vs \<and> length (strs vs) < 2 ^ 32"

lemma vec_of_simps [simp]:
  "vtype (vec_of t vs) = t" "vsize (vec_of t vs) = length vs" "vstrbytes (vec_of t vs) = strs vs"
  "vvalidity (vec_of t vs) = map (\<lambda>v. if IsNull v then 0 else 1) vs"
  by (simp_all add: vec_of_def)

lemma strs_simps [simp]: "strs [] = []" "strs (vs @ ws) = strs vs @ strs ws" "strs (v # vs) = str_bytes v @ strs vs"
  by (simp_all add: strs_def)

lemma strs_not_varchar: "t \<noteq> kVarchar \<Longrightarrow> list_all (value_fits t) vs \<Longrightarrow> strs vs = []"
proof (induction vs)
  case (Cons v vs)
  then show ?case by (cases v) auto
qed simp

lemma length_slot_bytes: "value_fits t v \<Longrightarrow> length (slot_bytes t v) = FixedWidth t"
  by (cases v) auto

lemma Vector_of: "Vector t = vec_of t []"
  by (simp add: Vector_def vec_of_def)

lemma vec_rep_of: "vec_rep (vec_of t vs) ws \<longleftrightarrow> vec_of t vs = vec_of t ws \<and> list_all (value_fits t) ws \<and> length (strs ws) < 2 ^ 32"
  by (simp add: vec_rep_def)

lemma vec_rep_Vector: "vec_rep (Vector t) []"
  by (simp add: vec_rep_def Vector_of)

lemma vec_rep_Clear: "vec_rep (Clear v) []"
  by (simp add: vec_rep_def vec_of_def Clear_def)

lemma append_of:
  "AppendNull (vec_of t vs) = vec_of t (vs @ [Null])"
  "AppendInt32 (vec_of kInt vs) i = vec_of kInt (vs @ [Int32 i])"
  "AppendInt64 (vec_of kBigInt vs) l = vec_of kBigInt (vs @ [Int64 l])"
  "AppendDouble (vec_of kFloat vs) d = vec_of kFloat (vs @ [Dbl d])"
  "AppendString (vec_of kVarchar vs) s = vec_of kVarchar (vs @ [Str s])"
  by (cases t; simp add: vec_of_def AppendNull_def AppendInt32_def AppendInt64_def AppendDouble_def AppendString_def
      append_pod_def Let_def)+

lemma AppendValue_of: "value_fits t x \<Longrightarrow> AppendValue (vec_of t vs) x = Inr (vec_of t (vs @ [x]))"
  by (cases x) (simp_all add: AppendValue_def append_of)

lemma vec_rep_append:
  assumes "vec_rep v vs" and "value_fits (vtype v) x" and "length (strs (vs @ [x])) < 2 ^ 32"
  shows "AppendValue v x = Inr (vec_of (vtype v) (vs @ [x]))" "vec_rep (vec_of (vtype v) (vs @ [x])) (vs @ [x])"
proof -
  have "v = vec_of (vtype v) vs" using assms(1) by (simp add: vec_rep_def)
  then show "AppendValue v x = Inr (vec_of (vtype v) (vs @ [x]))"
    using AppendValue_of [OF assms(2), of vs] by simp
  show "vec_rep (vec_of (vtype v) (vs @ [x])) (vs @ [x])" using assms by (simp add: vec_rep_def)
qed

text \<open>Reading a row back.\<close>

lemma GetData_of:
  assumes "list_all (value_fits t) vs" and "i < length vs" and "slot_bytes t (vs ! i) = PutPod (x :: 'a::len word)"
    and "8 dvd LENGTH('a)" "sizeof_word TYPE('a word) = FixedWidth t"
  shows "GetData (vec_of t vs) i = Inr x"
proof -
  have w: "length (slot_bytes t y) = FixedWidth t" if "y \<in> set vs" for y
    using that assms(1) length_slot_bytes by (auto simp: list_all_iff)
  then have "length (concat (map (slot_bytes t) vs)) = length vs * FixedWidth t"
    by (rule length_concat_blocks)
  moreover have "i * FixedWidth t + FixedWidth t \<le> length vs * FixedWidth t"
    using mult_le_mono1 [of "Suc i" "length vs" "FixedWidth t"] assms(2) by simp
  moreover have "read_at (i * FixedWidth t) (FixedWidth t) (concat (map (slot_bytes t) vs)) = PutPod x"
    using read_at_blocks [where rest = "[]", OF w assms(2)] assms(3) by simp
  ultimately show ?thesis
    using assms(4,5) pod_of_bytes_PutPod [of x] by (simp add: GetData_def Let_def vec_of_def)
qed

lemma GetData_typed:
  assumes "list_all (value_fits t) vs" and "i < length vs"
  shows "vs ! i = Int32 x \<Longrightarrow> GetData (vec_of t vs) i = Inr x"
    "vs ! i = Int64 y \<Longrightarrow> GetData (vec_of t vs) i = Inr y"
    "vs ! i = Dbl z \<Longrightarrow> GetData (vec_of t vs) i = Inr z"
proof -
  have "value_fits t (vs ! i)" using assms by (simp add: list_all_length)
  then show "vs ! i = Int32 x \<Longrightarrow> GetData (vec_of t vs) i = Inr x"
    "vs ! i = Int64 y \<Longrightarrow> GetData (vec_of t vs) i = Inr y"
    "vs ! i = Dbl z \<Longrightarrow> GetData (vec_of t vs) i = Inr z"
    using GetData_of [OF assms, of x] GetData_of [OF assms, of y] GetData_of [OF assms, of z] by auto
qed

lemma GetStringView_of:
  assumes "length (strs vs) < 2 ^ 32" and "i < length vs" and "vs ! i = Str s"
  shows "GetStringView (vec_of kVarchar vs) i = Inr s"
proof -
  let ?b = "strs (take i vs)"
  have sp: "strs vs = ?b @ bytes_of_string s @ strs (drop (Suc i) vs)"
    using id_take_nth_drop [OF assms(2)] assms(3) by (metis strs_simps(2,3) str_bytes.simps(1))
  have st: "strs (take (Suc i) vs) = ?b @ bytes_of_string s"
    using assms(2,3) by (simp add: take_Suc_conv_app_nth)
  have lt: "length ?b + length s < 2 ^ 32" using assms(1) sp by simp
  then have b: "unat (word_of_nat (length ?b) :: u32) = length ?b" by (simp add: unat_of_nat)
  have e: "unat (word_of_nat (length ?b + length s) - word_of_nat (length ?b) :: u32) = length s"
    using lt by (simp add: unat_of_nat)
  have off: "voffsets (vec_of kVarchar vs) ! i = word_of_nat (length ?b)"
    "voffsets (vec_of kVarchar vs) ! Suc i = word_of_nat (length ?b + length s)"
    "length (voffsets (vec_of kVarchar vs)) = length vs + 1"
    using assms(2) st by (simp_all add: vec_of_def del: upt_Suc)
  have rd: "read_at (length ?b) (length s) (strs vs) = bytes_of_string s" by (simp add: sp read_at_def)
  show ?thesis using assms(2) off b e rd sp by (simp add: GetStringView_def Let_def)
qed

lemma GetValue_rep:
  assumes "vec_rep v vs" and "i < length vs"
  shows "GetValue v i = Inr (vs ! i)"
proof -
  define t where "t = vtype v"
  have v: "v = vec_of t vs" and f: "list_all (value_fits t) vs" and n: "length (strs vs) < 2 ^ 32"
    using assms(1) by (simp_all add: vec_rep_def t_def)
  have fi: "value_fits t (vs ! i)" using f assms(2) by (simp add: list_all_length)
  show ?thesis
    using fi GetData_typed [OF f assms(2)] GetStringView_of [OF n assms(2)] assms(2) unfolding v
    by (cases "vs ! i") (simp_all add: GetValue_def IsValid_def)
qed

lemma vec_rep_unique: "vec_rep v vs \<Longrightarrow> vec_rep v ws \<Longrightarrow> vs = ws"
proof (rule nth_equalityI)
  assume r: "vec_rep v vs" "vec_rep v ws"
  then show l: "length vs = length ws" by (metis vec_rep_def vec_of_simps(2))
  show "vs ! i = ws ! i" if "i < length vs" for i
    using GetValue_rep [OF r(1), of i] GetValue_rep [OF r(2), of i] that l by simp
qed

text \<open>Gathering a row of a vector of the same type is appending its value.\<close>

lemma AppendFrom_rep:
  assumes "vec_rep src ws" and "i < length ws" and "vtype v = vtype src"
  shows "AppendFrom v src i = AppendValue v (ws ! i)"
proof -
  define t where "t = vtype src"
  have v: "src = vec_of t ws" and f: "list_all (value_fits t) ws" and n: "length (strs ws) < 2 ^ 32"
    using assms(1) by (simp_all add: vec_rep_def t_def)
  have fi: "value_fits t (ws ! i)" using f assms(2) by (simp add: list_all_length)
  show ?thesis
    using fi GetData_typed [OF f assms(2)] GetStringView_of [OF n assms(2)] assms(2,3) unfolding v
    by (cases "ws ! i") (simp_all add: AppendFrom_def AppendValue_def IsValid_def)
qed

section \<open>Vectors as sequences of values\<close>

text \<open>
  The interface the decoders and operators program against: a sequence of values of one
  type that grows at its end, within a bound on the size of its strings, and is read by index.
\<close>

locale value_sequence =
  fixes rep :: "'v \<Rightarrow> Value list \<Rightarrow> bool"
    and ty :: "'v \<Rightarrow> ColumnType"
    and app :: "'v \<Rightarrow> Value \<Rightarrow> 'v result"
    and get :: "'v \<Rightarrow> nat \<Rightarrow> Value result"
  assumes app_law: "rep v vs \<Longrightarrow> value_fits (ty v) x \<Longrightarrow> length (strs (vs @ [x])) < 2 ^ 32 \<Longrightarrow>
      \<exists>v'. app v x = Inr v' \<and> ty v' = ty v \<and> rep v' (vs @ [x])"
    and get_law: "rep v vs \<Longrightarrow> i < length vs \<Longrightarrow> get v i = Inr (vs ! i)"
begin

lemma app_all:
  assumes "rep v vs" and "list_all (value_fits (ty v)) xs" and "length (strs (vs @ xs)) < 2 ^ 32"
  shows "\<exists>v'. foldR app v xs = Inr v' \<and> ty v' = ty v \<and> rep v' (vs @ xs)"
  using assms
proof (induction xs arbitrary: v vs)
  case (Cons x xs)
  have x: "value_fits (ty v) x" "length (strs (vs @ [x])) < 2 ^ 32" using Cons.prems(2,3) by simp_all
  from app_law [OF Cons.prems(1) x] obtain v' where v': "app v x = Inr v'" "ty v' = ty v" "rep v' (vs @ [x])" by blast
  then show ?case using Cons.IH [of v' "vs @ [x]"] Cons.prems(2,3) by simp
qed simp

lemma get_all:
  assumes "rep v vs" and "n \<le> length vs"
  shows "mapR (get v) [0..<n] = Inr (take n vs)"
proof -
  have "mapR (get v) [0..<n] = Inr (map (\<lambda>i. vs ! i) [0..<n])"
    using get_law [OF assms(1)] assms(2) by (intro mapR_Inr) simp
  moreover have "map (\<lambda>i. vs ! i) [0..<n] = take n vs" using assms(2) by (simp add: list_eq_iff_nth_eq)
  ultimately show ?thesis by simp
qed

end

interpretation vs: value_sequence vec_rep vtype AppendValue GetValue
proof unfold_locales
  fix v vs x
  assume "vec_rep v vs" "value_fits (vtype v) x" "length (strs (vs @ [x])) < 2 ^ 32"
  from vec_rep_append [OF this]
  show "\<exists>v'. AppendValue v x = Inr v' \<and> vtype v' = vtype v \<and> vec_rep v' (vs @ [x])" by simp
qed (rule GetValue_rep)

lemma PutPod_0: "PutPod (0 :: 'a::len word) = replicate (sizeof_word TYPE('a word)) 0"
proof -
  have "le_bytes k 0 = replicate k 0" for k by (induction k) simp_all
  then show ?thesis by (simp add: PutPod_def)
qed

lemma ResizeFixed_rep:
  assumes "vec_rep v vs" and "vtype v \<noteq> kVarchar"
  obtains z v' where "ResizeFixed v n = Inr v'" "vec_rep v' (replicate n z)" "z \<noteq> Null"
proof -
  obtain z where z: "z \<noteq> Null" "value_fits (vtype v) z" "slot_bytes (vtype v) z = replicate (FixedWidth (vtype v)) 0"
    "str_bytes z = []"
  proof (cases "vtype v")
    case kInt
    then show ?thesis using that [of "Int32 0"] by (simp add: PutPod_0)
  next
    case kBigInt
    then show ?thesis using that [of "Int64 0"] by (simp add: PutPod_0)
  next
    case kFloat
    then show ?thesis using that [of "Dbl 0"] by (simp add: PutPod_0)
  qed (use assms(2) in simp)
  have s: "strs (replicate n z) = []" using z(4) by (induction n) simp_all
  have d: "concat (map (slot_bytes (vtype v)) (replicate n z)) = replicate (n * FixedWidth (vtype v)) 0"
    using z(3) by (induction n) (simp_all add: replicate_add)
  have v: "v = vec_of (vtype v) vs" "strs vs = []" using assms strs_not_varchar by (auto simp: vec_rep_def)
  let ?v' = "v\<lparr>vdata := replicate (n * FixedWidth (vtype v)) 0, vvalidity := replicate n 1, vsize := n\<rparr>"
  have "voffsets (vec_of (vtype v) vs) = []" "vstrbytes (vec_of (vtype v) vs) = []"
    using assms(2) v(2) by (simp_all add: vec_of_def)
  then have "voffsets v = []" "vstrbytes v = []" by (subst v(1), simp)+
  then have "?v' = vec_of (vtype v) (replicate n z)"
    using assms(2) z(1) s d by (simp add: vec_of_def IsNull_def)
  then have "vec_rep ?v' (replicate n z)" using z(2) s by (simp add: vec_rep_def list_all_iff)
  then show ?thesis using that [OF _ _ z(1)] assms(2) by (simp add: ResizeFixed_def)
qed

section \<open>Properties\<close>

text \<open>C31. A vector built by appending any values of its type (NULLs included) holds exactly
  those values, read back row by row, and gathering all its rows into a fresh vector
  gives an identical vector; the only precondition is the 4 GiB that its string offsets
  can address.\<close>

theorem vector_round_trip:
  assumes "list_all (value_fits t) xs" and "length (strs xs) < 2 ^ 32"
  shows "\<exists>v. foldR AppendValue (Vector t) xs = Inr v \<and> vsize v = length xs \<and>
    mapR (GetValue v) [0..<length xs] = Inr xs \<and> foldR (\<lambda>w i. AppendFrom w v i) (Vector t) [0..<length xs] = Inr v"
proof -
  obtain v where v: "foldR AppendValue (Vector t) xs = Inr v" "vtype v = t" "vec_rep v xs"
    using vs.app_all [OF vec_rep_Vector, of t xs] assms by (auto simp: Vector_of)
  have "\<exists>w. foldR (\<lambda>w i. AppendFrom w v i) (Vector t) [0..<length xs] = Inr w \<and> w = vec_of t (take (length xs) xs)"
  proof (rule foldR_upt)
    show "Vector t = vec_of t (take 0 xs)" by (simp add: Vector_of)
    fix i w
    assume i: "i < length xs" and w: "w = vec_of t (take i xs)"
    have "AppendFrom w v i = AppendValue w (xs ! i)" by (rule AppendFrom_rep [OF v(3) i]) (simp add: w v(2))
    also have "\<dots> = Inr (vec_of t (take i xs @ [xs ! i]))"
      unfolding w by (rule AppendValue_of) (use assms(1) i in \<open>simp add: list_all_length\<close>)
    finally show "\<exists>w'. AppendFrom w v i = Inr w' \<and> w' = vec_of t (take (Suc i) xs)"
      using i by (simp add: take_Suc_conv_app_nth)
  qed
  moreover have "v = vec_of t xs" using v(2,3) by (simp add: vec_rep_def)
  ultimately show ?thesis using v vs.get_all [OF v(3), of "length xs"] by simp
qed

theorem vector_round_trip_witness:
  "\<exists>v. foldR AppendValue (Vector kVarchar) [Str ''ab'', Null, Str ''c''] = Inr v \<and> vsize v = length [Str ''ab'', Null, Str ''c''] \<and>
    mapR (GetValue v) [0..<length [Str ''ab'', Null, Str ''c'']] = Inr [Str ''ab'', Null, Str ''c''] \<and>
    foldR (\<lambda>w i. AppendFrom w v i) (Vector kVarchar) [0..<length [Str ''ab'', Null, Str ''c'']] = Inr v"
  by (rule vector_round_trip) simp_all

text \<open>Appending a value throws exactly when it is not of the column's type.\<close>

theorem vector_type_check:
  "AppendValue v x = Inl BadVariantAccess \<longleftrightarrow> \<not> value_fits (vtype v) x"
  by (cases x; cases "vtype v") (simp_all add: AppendValue_def)

end
