(* ===== verification/Expressions.thy ===== *)
theory Expressions
  imports Vector
begin

text \<open>
  Bound expressions and predicates (\<open>execution/expression.cpp\<close>): evaluation of one row, the
  selection mask of a batch with its typed fast path, and the type an expression is inferred
  to have (\<open>InferBoundType\<close> of \<open>planner/planner.cpp\<close>).
\<close>

section \<open>Expressions\<close>

datatype BoundOp = kColumn | kLiteral | kEq | kNe | kLt | kLe | kGt | kGe | kAnd | kOr | kNot | kAdd | kSub | kMul | kDiv

text \<open>
  The nodes the four factory functions build. A node has every field of the structure; the
  ones its factory does not set keep their default, which the selectors below return.
\<close>

datatype BoundExpr =
    ColumnE nat ColumnType
  | LiteralE Value
  | BinaryE BoundOp BoundExpr BoundExpr
  | NotE BoundExpr

fun op :: "BoundExpr \<Rightarrow> BoundOp" where
  "op (ColumnE i t) = kColumn"
| "op (LiteralE v) = kLiteral"
| "op (BinaryE p l r) = p"
| "op (NotE c) = kNot"

fun col_index :: "BoundExpr \<Rightarrow> nat" where
  "col_index (ColumnE i t) = i"
| "col_index _ = 0"

fun bound_col_type :: "BoundExpr \<Rightarrow> ColumnType" where
  "bound_col_type (ColumnE i t) = t"
| "bound_col_type _ = kInt"

fun literal :: "BoundExpr \<Rightarrow> Value" where
  "literal (LiteralE v) = v"
| "literal _ = Null"

fun left :: "BoundExpr \<Rightarrow> BoundExpr option" where
  "left (BinaryE p l r) = Some l"
| "left _ = None"

fun right :: "BoundExpr \<Rightarrow> BoundExpr option" where
  "right (BinaryE p l r) = Some r"
| "right (NotE c) = Some c"
| "right _ = None"

section \<open>Evaluation of a row\<close>

fun ValueTruthy :: "Value \<Rightarrow> bool" where
  "ValueTruthy Null = False"
| "ValueTruthy (Int32 i) = (i \<noteq> 0)"
| "ValueTruthy (Int64 l) = (l \<noteq> 0)"
| "ValueTruthy (Dbl d) = (\<not> d_eq d 0)"
| "ValueTruthy (Str s) = (s \<noteq> [])"

fun IsFloat :: "Value \<Rightarrow> bool" where
  "IsFloat (Dbl d) = True"
| "IsFloat _ = False"

fun AsDouble :: "Value \<Rightarrow> double result" where
  "AsDouble (Dbl d) = Inr d"
| "AsDouble (Int64 l) = Inr (double_of_int (sint l))"
| "AsDouble v = bindR (get_int32 v) (\<lambda>i. Inr (double_of_int (sint i)))"

fun AsI64 :: "Value \<Rightarrow> 64 word result" where
  "AsI64 (Int64 l) = Inr l"
| "AsI64 v = bindR (get_int32 v) (\<lambda>i. Inr (scast i))"

text \<open>A result outside \<open>int64_t\<close> is undefined behaviour; division truncates toward zero.\<close>

definition i64_result :: "int \<Rightarrow> 64 word result" where
  "i64_result x = (if - (2 ^ 63) \<le> x \<and> x < 2 ^ 63 then Inr (word_of_int x) else Inl (Undefined ''signed overflow''))"

definition trunc_div :: "int \<Rightarrow> int \<Rightarrow> int" where
  "trunc_div a b = sgn a * sgn b * (\<bar>a\<bar> div \<bar>b\<bar>)"

definition ArithResult :: "BoundOp \<Rightarrow> Value \<Rightarrow> Value \<Rightarrow> Value result" where
  "ArithResult p l r =
     (if IsNull l \<or> IsNull r then Inr Null
      else if IsFloat l \<or> IsFloat r then
        bindR (AsDouble l) (\<lambda>a. bindR (AsDouble r) (\<lambda>b.
          case p of
            kAdd \<Rightarrow> Inr (Dbl (d_add a b))
          | kSub \<Rightarrow> Inr (Dbl (d_sub a b))
          | kMul \<Rightarrow> Inr (Dbl (d_mul a b))
          | kDiv \<Rightarrow> Inr (if d_eq b 0 then Null else Dbl (d_div a b))
          | _ \<Rightarrow> Inl (LogicError ''ArithResult: not arithmetic'')))
      else
        bindR (AsI64 l) (\<lambda>a. bindR (AsI64 r) (\<lambda>b.
          case p of
            kAdd \<Rightarrow> bindR (i64_result (sint a + sint b)) (\<lambda>x. Inr (Int64 x))
          | kSub \<Rightarrow> bindR (i64_result (sint a - sint b)) (\<lambda>x. Inr (Int64 x))
          | kMul \<Rightarrow> bindR (i64_result (sint a * sint b)) (\<lambda>x. Inr (Int64 x))
          | kDiv \<Rightarrow> if b = 0 then Inr Null else bindR (i64_result (trunc_div (sint a) (sint b))) (\<lambda>x. Inr (Int64 x))
          | _ \<Rightarrow> Inl (LogicError ''ArithResult: not arithmetic''))))"

text \<open>The outcome of a comparison operator on an ordering; \<open>None\<close> for another operator.\<close>

fun compare_ok :: "BoundOp \<Rightarrow> Ordering \<Rightarrow> bool option" where
  "compare_ok kEq c = Some (c = kEqual)"
| "compare_ok kNe c = Some (c \<noteq> kEqual)"
| "compare_ok kLt c = Some (c = kLess)"
| "compare_ok kLe c = Some (c \<noteq> kGreater)"
| "compare_ok kGt c = Some (c = kGreater)"
| "compare_ok kGe c = Some (c \<noteq> kLess)"
| "compare_ok _ c = None"

definition truth :: "bool \<Rightarrow> Value" where
  "truth b = Int32 (if b then 1 else 0)"

definition CompareResult :: "BoundOp \<Rightarrow> Value \<Rightarrow> Value \<Rightarrow> Value result" where
  "CompareResult p l r =
     (if IsNull l \<or> IsNull r then Inr (truth False)
      else bindR (CompareValues l r) (\<lambda>c.
        case compare_ok p c of
          Some ok \<Rightarrow> Inr (truth ok)
        | None \<Rightarrow> Inl (LogicError ''CompareResult: not a comparison'')))"

definition is_arith :: "BoundOp \<Rightarrow> bool" where
  "is_arith p \<longleftrightarrow> p \<in> {kAdd, kSub, kMul, kDiv}"

text \<open>
  The evaluator over any source of column values, and the code's evaluator, which reads them
  from the batch. The operands are pure, so only the choice between two exceptions depends on
  the order in which they are evaluated, which C++ leaves open; the model takes the left one.
\<close>

fun eval_with :: "(nat \<Rightarrow> Value result) \<Rightarrow> BoundExpr \<Rightarrow> Value result" where
  "eval_with col (ColumnE i t) = col i"
| "eval_with col (LiteralE v) = Inr v"
| "eval_with col (NotE c) = bindR (eval_with col c) (\<lambda>v. Inr (truth (\<not> ValueTruthy v)))"
| "eval_with col (BinaryE p l r) =
     (if p = kColumn then col 0
      else if p = kLiteral then Inr Null
      else if p = kNot then bindR (eval_with col r) (\<lambda>v. Inr (truth (\<not> ValueTruthy v)))
      else if p = kAnd then
        bindR (eval_with col l) (\<lambda>v. if \<not> ValueTruthy v then Inr (truth False)
          else bindR (eval_with col r) (\<lambda>w. Inr (truth (ValueTruthy w))))
      else if p = kOr then
        bindR (eval_with col l) (\<lambda>v. if ValueTruthy v then Inr (truth True)
          else bindR (eval_with col r) (\<lambda>w. Inr (truth (ValueTruthy w))))
      else if is_arith p then bindR (eval_with col l) (\<lambda>v. bindR (eval_with col r) (\<lambda>w. ArithResult p v w))
      else bindR (eval_with col l) (\<lambda>v. bindR (eval_with col r) (\<lambda>w. CompareResult p v w)))"

definition EvalExprRow :: "BoundExpr \<Rightarrow> chunk \<Rightarrow> nat \<Rightarrow> Value result" where
  "EvalExprRow e ch row = eval_with (\<lambda>i. bindR (GetVector ch i) (\<lambda>v. GetValue v row)) e"

section \<open>Selection masks\<close>

definition is_compare :: "BoundOp \<Rightarrow> bool" where
  "is_compare p \<longleftrightarrow> p \<in> {kEq, kNe, kLt, kLe, kGt, kGe}"

definition IsSimpleNumericCompare :: "BoundExpr \<Rightarrow> bool" where
  "IsSimpleNumericCompare e \<longleftrightarrow> is_compare (op e) \<and>
     (case (left e, right e) of
        (Some l, Some r) \<Rightarrow> op l = kColumn \<and> op r = kLiteral \<and> bound_col_type l \<noteq> kVarchar
      | _ \<Rightarrow> False)"

text \<open>The typed comparison, from equality and order of the element type.\<close>

fun fast_ok :: "('a \<Rightarrow> 'a \<Rightarrow> bool) \<Rightarrow> ('a \<Rightarrow> 'a \<Rightarrow> bool) \<Rightarrow> BoundOp \<Rightarrow> 'a \<Rightarrow> 'a \<Rightarrow> bool" where
  "fast_ok eq lt kEq v l = eq v l"
| "fast_ok eq lt kNe v l = (\<not> eq v l)"
| "fast_ok eq lt kLt v l = lt v l"
| "fast_ok eq lt kLe v l = (lt v l \<or> eq v l)"
| "fast_ok eq lt kGt v l = lt l v"
| "fast_ok eq lt kGe v l = (lt l v \<or> eq l v)"
| "fast_ok eq lt _ v l = False"

definition FastCompare :: "('a::len word \<Rightarrow> 'a word \<Rightarrow> bool) \<Rightarrow> ('a word \<Rightarrow> 'a word \<Rightarrow> bool) \<Rightarrow> BoundOp \<Rightarrow> vec \<Rightarrow> 'a word \<Rightarrow> nat \<Rightarrow> byte list result" where
  "FastCompare eq lt p col lit n =
     mapR (\<lambda>i. bindR (IsValid col i) (\<lambda>ok. if \<not> ok then Inr 0
        else bindR (GetData col i) (\<lambda>v. Inr (if fast_ok eq lt p v lit then 1 else 0)))) [0..<n]"

definition generic_mask :: "BoundExpr \<Rightarrow> chunk \<Rightarrow> byte list result" where
  "generic_mask e ch = mapR (\<lambda>i. bindR (EvalExprRow e ch i) (\<lambda>v. Inr (if ValueTruthy v then 1 else 0))) [0..<cardinality ch]"

definition fast_mask :: "BoundOp \<Rightarrow> vec \<Rightarrow> Value \<Rightarrow> nat \<Rightarrow> byte list result option" where
  "fast_mask p col lit n =
     (case vtype col of
        kInt \<Rightarrow> Some (bindR (get_int32 lit) (\<lambda>l. FastCompare (=) (\<lambda>a b. sint a < sint b) p col l n))
      | kBigInt \<Rightarrow> Some (bindR (AsI64 lit) (\<lambda>l. FastCompare (=) (\<lambda>a b. sint a < sint b) p col l n))
      | kFloat \<Rightarrow> Some (bindR (AsDouble lit) (\<lambda>l. FastCompare d_eq d_lt p col l n))
      | kVarchar \<Rightarrow> None)"

definition EvalPredicate :: "BoundExpr \<Rightarrow> chunk \<Rightarrow> byte list result" where
  "EvalPredicate e ch =
     (case (left e, right e) of
        (Some l, Some r) \<Rightarrow>
          if IsSimpleNumericCompare e then
            bindR (GetVector ch (col_index l)) (\<lambda>col.
              case fast_mask (op e) col (literal r) (cardinality ch) of
                Some m \<Rightarrow> m
              | None \<Rightarrow> generic_mask e ch)
          else generic_mask e ch
      | _ \<Rightarrow> generic_mask e ch)"

section \<open>Inferred types\<close>

fun InferBoundType :: "BoundExpr \<Rightarrow> ColumnType" where
  "InferBoundType (ColumnE i t) = t"
| "InferBoundType (LiteralE v) = (case v of Dbl _ \<Rightarrow> kFloat | Int64 _ \<Rightarrow> kBigInt | Str _ \<Rightarrow> kVarchar | _ \<Rightarrow> kInt)"
| "InferBoundType (BinaryE p l r) =
     (if is_arith p then
        (if InferBoundType l = kFloat \<or> InferBoundType r = kFloat then kFloat else kBigInt)
      else kInt)"
| "InferBoundType (NotE c) = kInt"

section \<open>Batches as lists of rows\<close>

text \<open>
  A batch represents the rows \<open>rows\<close> of column types \<open>ts\<close>: column \<open>c\<close> is the vector of the
  \<open>c\<close>-th values. \<open>eval_row\<close> is the evaluation of an expression on a row.
\<close>

definition cols_rep :: "vec list \<Rightarrow> ColumnType list \<Rightarrow> Value list list \<Rightarrow> bool" where
  "cols_rep vs ts rows \<longleftrightarrow> map vtype vs = ts \<and> (\<forall>r \<in> set rows. length r = length ts) \<and>
     (\<forall>c < length ts. vec_rep (vs ! c) (map (\<lambda>r. r ! c) rows))"

definition chunk_rep :: "chunk \<Rightarrow> ColumnType list \<Rightarrow> Value list list \<Rightarrow> bool" where
  "chunk_rep ch ts rows \<longleftrightarrow> cols_rep (columns ch) ts rows \<and> cardinality ch = length rows"

definition eval_row :: "BoundExpr \<Rightarrow> Value list \<Rightarrow> Value result" where
  "eval_row e r = eval_with (\<lambda>i. if i < length r then Inr (r ! i) else Inl (Undefined ''columns_[i]'')) e"

definition row_mask :: "BoundExpr \<Rightarrow> Value list list \<Rightarrow> byte list result" where
  "row_mask e rows = mapR (\<lambda>r. bindR (eval_row e r) (\<lambda>v. Inr (if ValueTruthy v then 1 else 0))) rows"

lemma cols_rep_types: "cols_rep vs ts rows \<Longrightarrow> length vs = length ts" "cols_rep vs ts rows \<Longrightarrow> c < length ts \<Longrightarrow> vtype (vs ! c) = ts ! c"
  by (auto simp: cols_rep_def)

lemma chunk_rep_row: "chunk_rep ch ts rows \<Longrightarrow> i < length rows \<Longrightarrow> length (rows ! i) = length ts"
  by (simp add: chunk_rep_def cols_rep_def)

lemma chunk_rep_value:
  assumes "chunk_rep ch ts rows" and "i < length rows"
  shows "bindR (GetVector ch c) (\<lambda>v. GetValue v i) =
    (if c < length (rows ! i) then Inr (rows ! i ! c) else Inl (Undefined ''columns_[i]''))"
proof (cases "c < length ts")
  case True
  then have "vec_rep (columns ch ! c) (map (\<lambda>r. r ! c) rows)" using assms(1) by (simp add: chunk_rep_def cols_rep_def)
  then have "GetValue (columns ch ! c) i = Inr (rows ! i ! c)" using GetValue_rep [of _ _ i] assms(2) by fastforce
  then show ?thesis
    using assms True chunk_rep_row [OF assms] cols_rep_types(1) [of "columns ch" ts rows] by (simp add: GetVector_def chunk_rep_def)
next
  case False
  then show ?thesis
    using assms chunk_rep_row [OF assms] cols_rep_types(1) [of "columns ch" ts rows] by (simp add: GetVector_def chunk_rep_def)
qed

lemma EvalExprRow_rep: "chunk_rep ch ts rows \<Longrightarrow> i < length rows \<Longrightarrow> EvalExprRow e ch i = eval_row e (rows ! i)"
  by (simp add: EvalExprRow_def eval_row_def chunk_rep_value)

lemma generic_mask_rep:
  assumes "chunk_rep ch ts rows"
  shows "generic_mask e ch = row_mask e rows"
proof -
  have n: "cardinality ch = length rows" using assms by (simp add: chunk_rep_def)
  let ?f = "\<lambda>r. bindR (eval_row e r) (\<lambda>v. Inr (if ValueTruthy v then 1 else 0))"
  have "generic_mask e ch = mapR (\<lambda>i. ?f (rows ! i)) [0..<length rows]"
    unfolding generic_mask_def n by (rule mapR_cong) (simp add: EvalExprRow_rep [OF assms])
  then show ?thesis using mapR_upt [of ?f rows] by (simp add: row_mask_def)
qed

section \<open>The fast path\<close>

text \<open>
  What the fast path expects of the literal: the column's own type, or an integer for a column
  that it is widened to. A NaN compares with \<open>CompareValues\<close> as equal to everything.
\<close>

fun fast_literal :: "ColumnType \<Rightarrow> Value \<Rightarrow> bool" where
  "fast_literal kInt v = (case v of Int32 _ \<Rightarrow> True | _ \<Rightarrow> False)"
| "fast_literal kBigInt v = (case v of Int32 _ \<Rightarrow> True | Int64 _ \<Rightarrow> True | _ \<Rightarrow> False)"
| "fast_literal kFloat v = (case v of Int32 _ \<Rightarrow> True | Int64 _ \<Rightarrow> True | Dbl d \<Rightarrow> \<not> is_nan d | _ \<Rightarrow> False)"
| "fast_literal kVarchar v = True"

fun is_nan_value :: "Value \<Rightarrow> bool" where
  "is_nan_value (Dbl d) = is_nan d"
| "is_nan_value _ = False"

fun fast_safe :: "BoundExpr \<Rightarrow> ColumnType list \<Rightarrow> Value list list \<Rightarrow> bool" where
  "fast_safe (BinaryE p (ColumnE i t) (LiteralE v)) ts rows \<longleftrightarrow>
     i < length ts \<and> (is_compare p \<longrightarrow> fast_literal (ts ! i) v \<and> (\<forall>r \<in> set rows. \<not> is_nan_value (r ! i)))"
| "fast_safe (BinaryE p (BinaryE p' l r) e) ts rows \<longleftrightarrow> p' \<noteq> kColumn"
| "fast_safe (BinaryE p e (BinaryE p' l r)) ts rows \<longleftrightarrow> p' \<noteq> kLiteral"
| "fast_safe e ts rows \<longleftrightarrow> True"

lemma fast_ok_order:
  assumes "is_compare p" and "c = (if lt v l then kLess else if lt l v then kGreater else kEqual)"
    and "\<And>a b. eq a b \<Longrightarrow> eq b a" "eq v l \<longleftrightarrow> \<not> lt v l \<and> \<not> lt l v" "\<not> (lt v l \<and> lt l v)"
  shows "compare_ok p c = Some (fast_ok eq lt p v l)"
proof -
  have "eq l v = eq v l" using assms(3) by blast
  then show ?thesis using assms(1,2,4,5) by (auto simp: is_compare_def)
qed

lemma IsValid_rep: "vec_rep v vs \<Longrightarrow> i < length vs \<Longrightarrow> IsValid v i = Inr (vs ! i \<noteq> Null)"
proof -
  assume "vec_rep v vs" and i: "i < length vs"
  then have "v = vec_of (vtype v) vs" by (simp add: vec_rep_def)
  then have "vvalidity v = map (\<lambda>v. if IsNull v then 0 else 1) vs" by (metis vec_of_simps(4))
  then show ?thesis using i by (simp add: IsValid_def IsNull_def)
qed

lemma GetData_rep:
  assumes "vec_rep v vs" and "i < length vs"
  shows "vs ! i = Int32 a \<Longrightarrow> GetData v i = Inr a" "vs ! i = Int64 b \<Longrightarrow> GetData v i = Inr b" "vs ! i = Dbl d \<Longrightarrow> GetData v i = Inr d"
  using GetData_typed [OF _ assms(2), of "vtype v"] assms(1) by (metis vec_rep_def)+

lemma sint_eq_iff: "a = b \<longleftrightarrow> \<not> sint (a :: 'a::len word) < sint b \<and> \<not> sint b < sint a"
  by (metis linorder_neqE signed_word_eqI less_irrefl)

lemma compare_fast:
  assumes "is_compare p"
  shows "CompareResult p (Int32 a) (Int32 l) = Inr (truth (fast_ok (=) (\<lambda>x y. sint x < sint y) p a l))"
    "CompareResult p (Int64 b) (Int64 m) = Inr (truth (fast_ok (=) (\<lambda>x y. sint x < sint y) p b m))"
    "CompareResult p (Int64 b) (Int32 l) = Inr (truth (fast_ok (=) (\<lambda>x y. sint x < sint y) p b (scast l)))"
    "\<not> is_nan d \<Longrightarrow> AsDouble v = Inr x \<Longrightarrow> \<not> is_nan x \<Longrightarrow>
      CompareResult p (Dbl d) v = Inr (truth (fast_ok d_eq d_lt p d x))"
proof -
  have ord: "compare_ok p (order_int (sint a) (sint l)) = Some (fast_ok (=) (\<lambda>x y. sint x < sint y) p a l)"
    for a l :: "'a::len word"
    by (rule fast_ok_order [OF assms]) (auto simp: order_int_def sint_eq_iff)
  show "CompareResult p (Int32 a) (Int32 l) = Inr (truth (fast_ok (=) (\<lambda>x y. sint x < sint y) p a l))"
    "CompareResult p (Int64 b) (Int64 m) = Inr (truth (fast_ok (=) (\<lambda>x y. sint x < sint y) p b m))"
    by (simp_all add: CompareResult_def CompareValues_def ord)
  have "CompareValues (Int64 b) (Int32 l) = Inr (order_int (sint b) (sint l))"
    using CompareValues_ints [of "Int64 b" _ "Int32 l"] by simp
  moreover have "sint (scast l :: 64 word) = sint l"
    using sint_bounds(1,2) [of l] by (simp add: signed_scast_eq signed_take_bit_int_eq_self)
  ultimately show "CompareResult p (Int64 b) (Int32 l) = Inr (truth (fast_ok (=) (\<lambda>x y. sint x < sint y) p b (scast l)))"
    using ord [of b "scast l"] by (simp add: CompareResult_def)
  show "CompareResult p (Dbl d) v = Inr (truth (fast_ok d_eq d_lt p d x))"
    if "\<not> is_nan d" "AsDouble v = Inr x" "\<not> is_nan x"
  proof -
    have "compare_ok p (order_double d x) = Some (fast_ok d_eq d_lt p d x)"
      by (rule fast_ok_order [OF assms]) (use that in \<open>auto simp: order_double_def d_eq_def d_lt_def\<close>)
    then show ?thesis using that(2)
      by (cases v) (auto simp: CompareResult_def CompareValues_def)
  qed
qed

lemma FastCompare_rep:
  fixes col :: vec
  assumes "vec_rep col vs" and "n = length vs" and "lit \<noteq> Null"
    and "\<And>i. i < n \<Longrightarrow> vs ! i \<noteq> Null \<Longrightarrow> \<exists>x. GetData col i = Inr x \<and>
       CompareResult p (vs ! i) lit = Inr (truth (fast_ok eq lt p x l))"
  shows "FastCompare eq lt p col (l :: 'a::len word) n =
    mapR (\<lambda>v. bindR (CompareResult p v lit) (\<lambda>w. Inr (if ValueTruthy w then 1 else 0))) vs"
proof -
  have step: "bindR (IsValid col i) (\<lambda>ok. if \<not> ok then Inr 0
        else bindR (GetData col i) (\<lambda>v. Inr (if fast_ok eq lt p v l then 1 else 0))) =
    bindR (CompareResult p (vs ! i) lit) (\<lambda>w. Inr (if ValueTruthy w then 1 else 0))" if i: "i < n" for i
  proof -
    have "IsValid col i = Inr (vs ! i \<noteq> Null)" using IsValid_rep [OF assms(1)] assms(2) i by simp
    then show ?thesis using assms(4) [OF i] assms(3)
      by (cases "vs ! i = Null") (auto simp: truth_def CompareResult_def)
  qed
  have "FastCompare eq lt p col l n =
    mapR (\<lambda>i. bindR (CompareResult p (vs ! i) lit) (\<lambda>w. Inr (if ValueTruthy w then 1 else 0))) [0..<length vs]"
    unfolding FastCompare_def assms(2) by (rule mapR_cong) (use step assms(2) in simp)
  then show ?thesis
    using mapR_upt [of "\<lambda>v. bindR (CompareResult p v lit) (\<lambda>w. Inr (if ValueTruthy w then 1 else 0))" vs] by simp
qed

text \<open>The three typed loops, on a column that holds \<open>vs\<close>.\<close>

lemma fast_mask_rep:
  assumes rep: "vec_rep col vs" and p: "is_compare p" and lit: "fast_literal (vtype col) lit" and nn: "\<forall>v \<in> set vs. \<not> is_nan_value v"
    and m: "fast_mask p col lit (length vs) = Some m"
  shows "m = mapR (\<lambda>v. bindR (CompareResult p v lit) (\<lambda>w. Inr (if ValueTruthy w then 1 else 0))) vs"
proof -
  have fits: "value_fits (vtype col) (vs ! i)" if "i < length vs" for i using rep that by (simp add: vec_rep_def list_all_length)
  have nnan: "\<not> is_nan_value (vs ! i)" if "i < length vs" for i using nn that by simp
  have nan_int: "\<not> is_nan (double_of_int (sint i))" "\<not> is_nan (double_of_int (sint j))" for i :: "32 word" and j :: "64 word"
    using sint_bounds(1,2) [of i] sint_bounds(3,4) [of j] by (auto intro!: not_nan_double_of_int)
  show ?thesis
  proof (cases "vtype col")
    case kInt
    then obtain l where l: "lit = Int32 l" using lit by (auto split: Value.splits)
    have "m = FastCompare (=) (\<lambda>a b. sint a < sint b) p col l (length vs)" using m kInt l by (simp add: fast_mask_def)
    also have "\<dots> = mapR (\<lambda>v. bindR (CompareResult p v lit) (\<lambda>w. Inr (if ValueTruthy w then 1 else 0))) vs"
    proof (rule FastCompare_rep [OF rep refl])
      show "\<exists>x. GetData col i = Inr x \<and> CompareResult p (vs ! i) lit = Inr (truth (fast_ok (=) (\<lambda>a b. sint a < sint b) p x l))"
        if "i < length vs" "vs ! i \<noteq> Null" for i
        using fits [OF that(1)] that GetData_rep(1) [OF rep that(1)] compare_fast(1) [OF p] kInt by (cases "vs ! i") (auto simp: l)
    qed (simp add: l)
    finally show ?thesis .
  next
    case kBigInt
    then obtain l where l: "AsI64 lit = Inr l" "lit \<noteq> Null" using lit by (auto split: Value.splits)
    have "m = FastCompare (=) (\<lambda>a b. sint a < sint b) p col l (length vs)" using m kBigInt l by (simp add: fast_mask_def)
    also have "\<dots> = mapR (\<lambda>v. bindR (CompareResult p v lit) (\<lambda>w. Inr (if ValueTruthy w then 1 else 0))) vs"
    proof (rule FastCompare_rep [OF rep refl])
      show "\<exists>x. GetData col i = Inr x \<and> CompareResult p (vs ! i) lit = Inr (truth (fast_ok (=) (\<lambda>a b. sint a < sint b) p x l))"
        if "i < length vs" "vs ! i \<noteq> Null" for i
        using fits [OF that(1)] that GetData_rep(2) [OF rep that(1)] compare_fast(2,3) [OF p] kBigInt l(1)
        by (cases "vs ! i"; cases lit) auto
    qed (rule l)
    finally show ?thesis .
  next
    case kFloat
    then obtain l where l: "AsDouble lit = Inr l" "lit \<noteq> Null" "\<not> is_nan l" using lit nan_int by (auto split: Value.splits)
    have "m = FastCompare d_eq d_lt p col l (length vs)" using m kFloat l by (simp add: fast_mask_def)
    also have "\<dots> = mapR (\<lambda>v. bindR (CompareResult p v lit) (\<lambda>w. Inr (if ValueTruthy w then 1 else 0))) vs"
    proof (rule FastCompare_rep [OF rep refl])
      show "\<exists>x. GetData col i = Inr x \<and> CompareResult p (vs ! i) lit = Inr (truth (fast_ok d_eq d_lt p x l))"
        if "i < length vs" "vs ! i \<noteq> Null" for i
        using fits [OF that(1)] that GetData_rep(3) [OF rep that(1)] compare_fast(4) [OF p _ l(1,3)] kFloat nnan [OF that(1)]
        by (cases "vs ! i") auto
    qed (rule l)
    finally show ?thesis .
  qed (use m in \<open>simp add: fast_mask_def\<close>)
qed

lemma row_mask_compare:
  assumes "is_compare p" and "\<forall>r \<in> set rows. i < length r"
  shows "row_mask (BinaryE p (ColumnE i t) (LiteralE v)) rows =
    mapR (\<lambda>x. bindR (CompareResult p x v) (\<lambda>w. Inr (if ValueTruthy w then 1 else 0))) (map (\<lambda>r. r ! i) rows)"
  unfolding row_mask_def mapR_map
  by (rule mapR_cong) (use assms in \<open>auto simp: eval_row_def is_compare_def is_arith_def\<close>)

lemma EvalPredicate_rep:
  assumes rep: "chunk_rep ch ts rows" and safe: "fast_safe e ts rows"
  shows "EvalPredicate e ch = row_mask e rows"
proof (cases "IsSimpleNumericCompare e")
  case False
  then show ?thesis
    using generic_mask_rep [OF rep] by (simp add: EvalPredicate_def split: option.splits)
next
  case True
  then obtain p i t v where e: "e = BinaryE p (ColumnE i t) (LiteralE v)" and p: "is_compare p"
    using safe by (cases "(e, ts, rows)" rule: fast_safe.cases) (auto simp: IsSimpleNumericCompare_def is_compare_def)
  have s: "i < length ts" "fast_literal (ts ! i) v" "\<forall>r \<in> set rows. \<not> is_nan_value (r ! i)" using safe p by (auto simp: e)
  have c: "vec_rep (columns ch ! i) (map (\<lambda>r. r ! i) rows)" "i < length (columns ch)" "vtype (columns ch ! i) = ts ! i"
    "cardinality ch = length rows" "\<forall>r \<in> set rows. i < length r"
    using rep s(1) cols_rep_types [of "columns ch" ts rows] by (auto simp: chunk_rep_def cols_rep_def)
  show ?thesis
  proof (cases "fast_mask p (columns ch ! i) v (length rows)")
    case None
    then show ?thesis using True c generic_mask_rep [OF rep] by (simp add: EvalPredicate_def e GetVector_def)
  next
    case (Some m)
    then have "m = row_mask e rows"
      using fast_mask_rep [OF c(1) p, of v m] s(2,3) c(3) row_mask_compare [OF p c(5)] by (simp add: e)
    then show ?thesis using True c Some by (simp add: EvalPredicate_def e GetVector_def)
  qed
qed


definition sample_chunk :: chunk where
  "sample_chunk = \<lparr>chunk_types = [kInt, kBigInt], columns = [vec_of kInt [Int32 3, Null], vec_of kBigInt [Int64 7, Int64 (-1)]], cardinality = 2\<rparr>"

lemma sample_chunk: "chunk_rep sample_chunk [kInt, kBigInt] [[Int32 3, Int64 7], [Null, Int64 (-1)]]"
  by (auto simp: chunk_rep_def cols_rep_def sample_chunk_def vec_rep_def less_Suc_eq)


text \<open>C34. A comparison of an \<open>INT\<close> column with a literal that is not a 32-bit integer (a larger integer, a
  decimal number, or \<open>NULL\<close>) throws \<open>bad_variant_access\<close> in the fast path, whatever the rows,
  although evaluating the same expression row by row would give a result.\<close>

theorem EvalPredicate_literal_rejected:
  assumes "chunk_rep ch ts rows" and "i < length ts" and "ts ! i = kInt" and "t \<noteq> kVarchar" and "is_compare p"
    and "\<not> fast_literal kInt v" and "\<not> is_string v"
  shows "EvalPredicate (BinaryE p (ColumnE i t) (LiteralE v)) ch = Inl BadVariantAccess \<and>
    (\<exists>m. row_mask (BinaryE p (ColumnE i t) (LiteralE v)) rows = Inr m)"
proof
  have c: "i < length (columns ch)" "vtype (columns ch ! i) = kInt" "\<forall>r \<in> set rows. i < length r"
    using assms(1-3) cols_rep_types [of "columns ch" ts rows] by (auto simp: chunk_rep_def cols_rep_def)
  have "get_int32 v = Inl BadVariantAccess" using assms(6) by (cases v) auto
  then show "EvalPredicate (BinaryE p (ColumnE i t) (LiteralE v)) ch = Inl BadVariantAccess"
    using c assms(4,5) by (simp add: EvalPredicate_def IsSimpleNumericCompare_def GetVector_def fast_mask_def)
  have "\<exists>w. CompareResult p x v = Inr w" if x: "x \<in> set (map (\<lambda>r. r ! i) rows)" for x
  proof -
    have "vec_rep (columns ch ! i) (map (\<lambda>r. r ! i) rows)" using assms(1,2) by (simp add: chunk_rep_def cols_rep_def)
    then have "value_fits kInt x" using x c(2) by (auto simp: vec_rep_def list_all_iff)
    then have "CompareResult p x v = Inr (truth False) \<or> (\<exists>o'. CompareValues x v = Inr o' \<and> x \<noteq> Null \<and> v \<noteq> Null)"
      using assms(6,7) by (cases x; cases v) (auto simp: CompareResult_def CompareValues_def)
    moreover have "\<exists>b. compare_ok p o' = Some b" for o' using assms(5) by (auto simp: is_compare_def)
    ultimately show ?thesis by (auto simp: CompareResult_def IsNull_def) (metis option.simps(5))
  qed
  then have "\<exists>m. mapR (\<lambda>x. bindR (CompareResult p x v) (\<lambda>w. Inr (if ValueTruthy w then 1 else 0))) (map (\<lambda>r. r ! i) rows) = Inr m"
    by (intro mapR_total) (metis bindR_simps(2))
  then show "\<exists>m. row_mask (BinaryE p (ColumnE i t) (LiteralE v)) rows = Inr m"
    by (simp add: row_mask_compare [OF assms(5) c(3)])
qed

theorem EvalPredicate_literal_rejected_witness:
  "EvalPredicate (BinaryE kGt (ColumnE 0 kInt) (LiteralE (Int64 3000000000))) sample_chunk = Inl BadVariantAccess \<and>
   (\<exists>m. row_mask (BinaryE kGt (ColumnE 0 kInt) (LiteralE (Int64 3000000000))) [[Int32 3, Int64 7], [Null, Int64 (-1)]] = Inr m)"
  using EvalPredicate_literal_rejected [OF sample_chunk, of 0 kInt kGt "Int64 3000000000"] by (simp add: is_compare_def)

section \<open>Types\<close>

text \<open>Every column reference is in range and carries the type of its column.\<close>

fun cols_typed :: "ColumnType list \<Rightarrow> BoundExpr \<Rightarrow> bool" where
  "cols_typed ts (ColumnE i t) \<longleftrightarrow> i < length ts \<and> ts ! i = t"
| "cols_typed ts (LiteralE v) \<longleftrightarrow> True"
| "cols_typed ts (NotE c) \<longleftrightarrow> cols_typed ts c"
| "cols_typed ts (BinaryE p l r) \<longleftrightarrow> p \<noteq> kColumn \<and> cols_typed ts l \<and> cols_typed ts r"

lemma truth_fits: "value_fits kInt (truth b)"
  by (simp add: truth_def)

lemma ArithResult_fits:
  assumes "value_fits lt v" and "value_fits rt w" and "ArithResult p v w = Inr x"
  shows "value_fits (if lt = kFloat \<or> rt = kFloat then kFloat else kBigInt) x"
  using assms
  by (cases v; cases w; cases p) (auto simp: ArithResult_def bindR_Inr_iff split: if_splits)



end
