(* ===== verification/Operators.thy ===== *)
theory Operators
  imports Expressions "HOL-Library.Multiset"
begin

text \<open>
  The pull-based operators of \<open>execution/\<close> that work batch by batch: filter, projection, limit,
  and sorting. An operator is a record of its virtual methods over its own state; a method of a
  child is called through that record. \<open>Next\<close> may not return (a value \<open>None\<close>), and an exception
  ends the query, so the state after it is dropped.
\<close>

section \<open>The operator interface\<close>

type_synonym 's next_fun = "'s \<Rightarrow> chunk \<Rightarrow> (chunk \<times> 's) result option"

record 's Operator =
  output_names :: "string list"
  output_types :: "ColumnType list"
  Open :: "'s \<Rightarrow> 's result option"
  Next :: "'s next_fun"
  Close :: "'s \<Rightarrow> 's result"

definition bindO :: "'a result option \<Rightarrow> ('a \<Rightarrow> 'b result option) \<Rightarrow> 'b result option" where
  "bindO m f = Option.bind m (\<lambda>r. case r of Inl e \<Rightarrow> Some (Inl e) | Inr x \<Rightarrow> f x)"

lemma bindO_simps [simp]: "bindO (Some (Inr x)) f = f x" "bindO (Some (Inl e)) f = Some (Inl e)" "bindO None f = None"
  by (simp_all add: bindO_def)

lemma bindO_mono [partial_function_mono]:
  assumes "monotone option.le_fun option_ord f" and "\<And>y. monotone option.le_fun option_ord (\<lambda>x. g x y)"
  shows "monotone option.le_fun option_ord (\<lambda>x. bindO (f x) (g x))"
proof -
  have "monotone option.le_fun option_ord (\<lambda>x. case r of Inl e \<Rightarrow> Some (Inl e) | Inr y \<Rightarrow> g x y)" for r
    using assms(2) option.const_mono by (cases r) simp_all
  then show ?thesis unfolding bindO_def by (intro bind_mono assms(1))
qed

definition set_cardinality :: "chunk \<Rightarrow> nat \<Rightarrow> chunk" where
  "set_cardinality ch n = ch\<lparr>cardinality := n\<rparr>"

section \<open>Loops over the columns of a batch\<close>

definition upd_vec :: "(vec \<Rightarrow> vec result) \<Rightarrow> nat \<Rightarrow> chunk \<Rightarrow> chunk result" where
  "upd_vec f c ch = bindR (GetVector ch c) (\<lambda>v. bindR (f v) (\<lambda>v'. Inr (ch\<lparr>columns := (columns ch)[c := v']\<rparr>)))"

text \<open>\<open>for c: out.GetVector(c).AppendFrom(src.GetVector(c), i)\<close>, over \<open>n\<close> columns.\<close>

definition append_from_row :: "nat \<Rightarrow> chunk \<Rightarrow> nat \<Rightarrow> chunk \<Rightarrow> chunk result" where
  "append_from_row n src i out =
     foldR (\<lambda>out c. upd_vec (\<lambda>v. bindR (GetVector src c) (\<lambda>w. AppendFrom v w i)) c out) out [0..<n]"

text \<open>\<open>for c: out.GetVector(off + c).AppendValue(row[c])\<close>, over \<open>n\<close> columns.\<close>

definition append_values :: "nat \<Rightarrow> nat \<Rightarrow> Value list \<Rightarrow> chunk \<Rightarrow> chunk result" where
  "append_values off n row out =
     foldR (\<lambda>out c. upd_vec (\<lambda>v. if c < length row then AppendValue v (row ! c) else Inl (Undefined ''row[c]'')) (off + c) out)
       out [0..<n]"

text \<open>All rows of a batch as values.\<close>

definition chunk_rows :: "chunk \<Rightarrow> Value list list result" where
  "chunk_rows ch =
     mapR (\<lambda>i. mapR (\<lambda>c. bindR (GetVector ch c) (\<lambda>v. GetValue v i)) [0..<length (columns ch)]) [0..<cardinality ch]"

text \<open>The loop that pulls a child until it is exhausted and collects its rows.\<close>

partial_function (option) drain :: "'s next_fun \<Rightarrow> 's \<Rightarrow> chunk \<Rightarrow> Value list list \<Rightarrow> (Value list list \<times> 's) result option" where
  "drain nxt s ch rows =
     bindO (nxt s ch) (\<lambda>(ch', s').
       if cardinality ch' = 0 then Some (Inr (rows, s'))
       else bindO (Some (chunk_rows ch')) (\<lambda>rs. drain nxt s' ch' (rows @ rs)))"

section \<open>Filter\<close>

definition filter_batch :: "BoundExpr \<Rightarrow> chunk \<Rightarrow> chunk \<Rightarrow> (nat \<times> chunk) result" where
  "filter_batch predicate input out =
     bindR (EvalPredicate predicate input) (\<lambda>mask.
       foldR (\<lambda>(kept, out) i.
           if mask ! i = 0 then Inr (kept, out)
           else bindR (append_from_row (length (columns out)) input i out) (\<lambda>out'. Inr (kept + 1, out')))
         (0, out) [0..<cardinality input])"

partial_function (option) filter_next :: "'s next_fun \<Rightarrow> BoundExpr \<Rightarrow> 's \<Rightarrow> chunk \<Rightarrow> chunk \<Rightarrow> (chunk \<times> 's \<times> chunk) result option" where
  "filter_next nxt predicate s input out =
     bindO (nxt s input) (\<lambda>(input', s').
       if cardinality input' = 0 then Some (Inr (set_cardinality out 0, s', input'))
       else bindO (Some (filter_batch predicate input' out)) (\<lambda>(kept, out').
         if 0 < kept then Some (Inr (set_cardinality out' kept, s', input'))
         else filter_next nxt predicate s' input' out'))"

definition Filter :: "'s Operator \<Rightarrow> BoundExpr \<Rightarrow> ('s \<times> chunk) Operator" where
  "Filter child predicate = \<lparr>
     output_names = output_names child,
     output_types = output_types child,
     Open = (\<lambda>(s, input). bindO (Open child s) (\<lambda>s'. Some (Inr (s', Initialize (output_types child))))),
     Next = (\<lambda>(s, input) out. filter_next (Next child) predicate s input (Reset out)),
     Close = (\<lambda>(s, input). bindR (Close child s) (\<lambda>s'. Inr (s', input)))\<rparr>"

section \<open>Projection\<close>

definition fill_column :: "nat \<Rightarrow> vec \<Rightarrow> vec \<Rightarrow> vec result" where
  "fill_column n src dst = foldR (\<lambda>dst i. AppendFrom dst src i) dst [0..<n]"

definition projection_next :: "'s next_fun \<Rightarrow> nat list \<Rightarrow> 's \<Rightarrow> chunk \<Rightarrow> chunk \<Rightarrow> (chunk \<times> 's \<times> chunk) result option" where
  "projection_next nxt sources s input out =
     bindO (nxt s input) (\<lambda>(input', s').
       let n = cardinality input' in
       if n = 0 then Some (Inr (set_cardinality out 0, s', input'))
       else bindO (Some (foldR (\<lambda>out c. bindR (GetVector input' (sources ! c)) (\<lambda>src. upd_vec (fill_column n src) c out))
           out [0..<length sources]))
         (\<lambda>out'. Some (Inr (set_cardinality out' n, s', input'))))"

definition Projection :: "'s Operator \<Rightarrow> nat list \<Rightarrow> string list \<Rightarrow> ('s \<times> chunk) Operator result" where
  "Projection child sources names =
     (if \<forall>s \<in> set sources. s < length (output_types child) then
        Inr \<lparr>
          output_names = names,
          output_types = map (\<lambda>s. output_types child ! s) sources,
          Open = (\<lambda>(s, input). bindO (Open child s) (\<lambda>s'. Some (Inr (s', Initialize (output_types child))))),
          Next = (\<lambda>(s, input) out. projection_next (Next child) sources s input (Reset out)),
          Close = (\<lambda>(s, input). bindR (Close child s) (\<lambda>s'. Inr (s', input)))\<rparr>
      else Inl (Undefined ''output_types()[s]''))"

section \<open>Limit\<close>

definition limit_next :: "'s next_fun \<Rightarrow> 's \<Rightarrow> chunk \<Rightarrow> nat \<Rightarrow> chunk \<Rightarrow> (chunk \<times> 's \<times> chunk \<times> nat) result option" where
  "limit_next nxt s input remaining out =
     (if remaining = 0 then Some (Inr (set_cardinality out 0, s, input, remaining))
      else bindO (nxt s input) (\<lambda>(input', s').
        let n = cardinality input' in
        if n = 0 then Some (Inr (set_cardinality out 0, s', input', remaining))
        else let k = min n remaining in
          bindO (Some (foldR (\<lambda>out c. upd_vec (\<lambda>v. bindR (GetVector input' c) (\<lambda>src. fill_column k src v)) c out)
              out [0..<length (columns out)]))
            (\<lambda>out'. Some (Inr (set_cardinality out' k, s', input', remaining - k)))))"

definition Limit :: "'s Operator \<Rightarrow> ('s \<times> chunk \<times> nat) Operator" where
  "Limit child = \<lparr>
     output_names = output_names child,
     output_types = output_types child,
     Open = (\<lambda>(s, input, n). bindO (Open child s) (\<lambda>s'. Some (Inr (s', Initialize (output_types child), n)))),
     Next = (\<lambda>(s, input, n) out. limit_next (Next child) s input n (Reset out)),
     Close = (\<lambda>(s, input, n). bindR (Close child s) (\<lambda>s'. Inr (s', input, n)))\<rparr>"

section \<open>Sorting\<close>

text \<open>
  The comparison that \<open>std::stable_sort\<close> is given. The library requires a strict weak order
  and leaves anything else undefined; for such an order the result is the unique stable
  sorted permutation, which insertion from the right computes.
\<close>

definition row_less :: "nat \<Rightarrow> bool \<Rightarrow> Value list \<Rightarrow> Value list \<Rightarrow> bool result" where
  "row_less key desc a b =
     (if key < length a \<and> key < length b then
        let va = a ! key; vb = b ! key in
        if IsNull va \<or> IsNull vb then
          Inr (if IsNull va \<and> IsNull vb then False else if desc then IsNull vb else IsNull va)
        else bindR (CompareValues va vb) (\<lambda>o'.
          if o' = kEqual then Inr False
          else Inr (if desc then \<not> (o' = kLess) else (o' = kLess)))
      else Inl (Undefined ''a[key]''))"

fun insort_by :: "('a \<Rightarrow> 'a \<Rightarrow> bool) \<Rightarrow> 'a \<Rightarrow> 'a list \<Rightarrow> 'a list" where
  "insort_by lt x [] = [x]"
| "insort_by lt x (y # ys) = (if lt y x then y # insort_by lt x ys else x # y # ys)"

fun sort_by :: "('a \<Rightarrow> 'a \<Rightarrow> bool) \<Rightarrow> 'a list \<Rightarrow> 'a list" where
  "sort_by lt [] = []"
| "sort_by lt (x # xs) = insort_by lt x (sort_by lt xs)"

definition strict_weak :: "('a \<Rightarrow> 'a \<Rightarrow> bool) \<Rightarrow> 'a list \<Rightarrow> bool" where
  "strict_weak lt xs \<longleftrightarrow> (\<forall>x \<in> set xs. \<not> lt x x) \<and>
     (\<forall>x \<in> set xs. \<forall>y \<in> set xs. \<forall>z \<in> set xs. (lt x y \<longrightarrow> lt y z \<longrightarrow> lt x z) \<and> (lt x z \<longrightarrow> lt x y \<or> lt y z))"

definition stable_sort :: "('a \<Rightarrow> 'a \<Rightarrow> bool result) \<Rightarrow> 'a list \<Rightarrow> 'a list result" where
  "stable_sort cmp xs =
     bindR (mapR (\<lambda>x. mapR (cmp x) xs) xs) (\<lambda>_.
       let lt = (\<lambda>x y. cmp x y = Inr True) in
       if strict_weak lt xs then Inr (sort_by lt xs)
       else Inl (Undefined ''stable_sort: not a strict weak order''))"

text \<open>
  The rows that \<open>Next\<close> emits from a materialised list, at most a vector's size at a time;
  \<open>width\<close> is the number of columns it appends for a row.
\<close>

definition emit_rows :: "(chunk \<Rightarrow> Value list \<Rightarrow> nat) \<Rightarrow> Value list list \<Rightarrow> nat \<Rightarrow> chunk \<Rightarrow> (chunk \<times> nat) result" where
  "emit_rows width rows cursor out =
     (if length rows \<le> cursor then Inr (set_cardinality out 0, cursor)
      else let k = min kVectorSize (length rows - cursor) in
        bindR (foldR (\<lambda>out r. append_values 0 (width out (rows ! (cursor + r))) (rows ! (cursor + r)) out) out [0..<k])
          (\<lambda>out'. Inr (set_cardinality out' k, cursor + k)))"

definition OrderBy :: "'s Operator \<Rightarrow> nat \<Rightarrow> bool \<Rightarrow> ('s \<times> Value list list \<times> nat) Operator" where
  "OrderBy child key desc = \<lparr>
     output_names = output_names child,
     output_types = output_types child,
     Open = (\<lambda>(s, rows, cursor).
       bindO (Open child s) (\<lambda>s1.
       bindO (drain (Next child) s1 (Initialize (output_types child)) rows) (\<lambda>(rows1, s2).
       bindO (Some (stable_sort (row_less key desc) rows1)) (\<lambda>rows2. Some (Inr (s2, rows2, 0)))))),
     Next = (\<lambda>(s, rows, cursor) out.
       bindO (Some (emit_rows (\<lambda>out row. length (columns out)) rows cursor (Reset out)))
         (\<lambda>(out', cursor'). Some (Inr (out', s, rows, cursor')))),
     Close = (\<lambda>(s, rows, cursor). bindR (Close child s) (\<lambda>s'. Inr (s', [], cursor)))\<rparr>"

section \<open>The contract of an operator\<close>

text \<open>
  Pulling from state \<open>s\<close>, with any output batch of the operator's types, gives batches whose
  rows concatenate to \<open>rows\<close> and then, after finitely many calls, the empty batch that ends the
  stream. No call fails and every call returns; no batch is larger than a vector.
\<close>

definition typed_out :: "ColumnType list \<Rightarrow> chunk \<Rightarrow> bool" where
  "typed_out ts out \<longleftrightarrow> map vtype (columns out) = ts"

inductive yields :: "'s next_fun \<Rightarrow> ColumnType list \<Rightarrow> 's \<Rightarrow> Value list list \<Rightarrow> bool"
  for nxt :: "'s next_fun" and ts :: "ColumnType list" where
  stop: "(\<And>out. typed_out ts out \<Longrightarrow> \<exists>out' s'. nxt s out = Some (Inr (out', s')) \<and> typed_out ts out' \<and> cardinality out' = 0) \<Longrightarrow>
    yields nxt ts s []"
| more: "rows \<noteq> [] \<Longrightarrow> length rows \<le> kVectorSize \<Longrightarrow>
    (\<And>out. typed_out ts out \<Longrightarrow> \<exists>out'. nxt s out = Some (Inr (out', s')) \<and> chunk_rep out' ts rows) \<Longrightarrow>
    yields nxt ts s' rest \<Longrightarrow> yields nxt ts s (rows @ rest)"

definition produces :: "'s Operator \<Rightarrow> 's \<Rightarrow> Value list list \<Rightarrow> bool" where
  "produces p s rows \<longleftrightarrow> (\<exists>s'. Open p s = Some (Inr s') \<and> yields (Next p) (output_types p) s' rows)"

lemma typed_simps [simp]: "typed_out ts (Initialize ts)" "typed_out ts (Reset out) = typed_out ts out"
  "typed_out ts (set_cardinality out n) = typed_out ts out" "chunk_rep ch ts rows \<Longrightarrow> typed_out ts ch"
  by (auto simp: typed_out_def Initialize_def Reset_def set_cardinality_def chunk_rep_def cols_rep_def Vector_def Clear_def o_def)

lemma Reset_rep: "typed_out ts out \<Longrightarrow> cols_rep (columns (Reset out)) ts []"
proof -
  assume "typed_out ts out"
  then have "ts = map vtype (columns out)" by (simp add: typed_out_def)
  then show ?thesis by (auto simp: cols_rep_def Reset_def Clear_def o_def vec_rep_Clear [unfolded Clear_def])
qed

lemma yields_rows: "yields nxt ts s rows \<Longrightarrow> \<forall>r \<in> set rows. list_all2 value_fits ts r"
proof (induction rule: yields.induct)
  case (more rows s s' rest)
  obtain out' where "chunk_rep out' ts rows" using more(3) typed_simps(1) by blast
  then have c: "\<forall>c < length ts. vec_rep (columns out' ! c) (map (\<lambda>r. r ! c) rows) \<and> vtype (columns out' ! c) = ts ! c"
    "\<forall>r \<in> set rows. length r = length ts"
    using cols_rep_types(2) [of "columns out'" ts rows] by (auto simp: chunk_rep_def cols_rep_def)
  have "list_all2 value_fits ts r" if "r \<in> set rows" for r
    using c that by (auto simp: list_all2_conv_all_nth vec_rep_def list_all_iff)
  with more(5) show ?case by auto
qed simp

section \<open>Collecting rows\<close>

lemma chunk_rows_rep: "chunk_rep ch ts rows \<Longrightarrow> chunk_rows ch = Inr rows"
proof -
  assume rep: "chunk_rep ch ts rows"
  have n: "length (columns ch) = length ts" "cardinality ch = length rows"
    using rep cols_rep_types(1) [of "columns ch" ts rows] by (auto simp: chunk_rep_def)
  have "mapR (\<lambda>c. bindR (GetVector ch c) (\<lambda>v. GetValue v i)) [0..<length ts] = Inr (rows ! i)" if i: "i < length rows" for i
  proof -
    have l: "length (rows ! i) = length ts" using chunk_rep_row [OF rep i] .
    have "mapR (\<lambda>c. bindR (GetVector ch c) (\<lambda>v. GetValue v i)) [0..<length ts] = Inr (map (\<lambda>c. rows ! i ! c) [0..<length ts])"
      by (rule mapR_Inr) (use l in \<open>simp add: chunk_rep_value [OF rep i]\<close>)
    then show ?thesis using map_nth [of "rows ! i"] l by simp
  qed
  then have "mapR (\<lambda>i. mapR (\<lambda>c. bindR (GetVector ch c) (\<lambda>v. GetValue v i)) [0..<length ts]) [0..<length rows] =
    Inr (map ((!) rows) [0..<length rows])" by (intro mapR_Inr) simp
  then show ?thesis by (simp add: chunk_rows_def n map_nth)
qed

lemma drain_ok:
  assumes "yields nxt ts s rows" and "typed_out ts ch"
  shows "\<exists>s'. drain nxt s ch acc = Some (Inr (acc @ rows, s'))"
  using assms
proof (induction arbitrary: ch acc rule: yields.induct)
  case (stop s)
  then obtain out' s' where "nxt s ch = Some (Inr (out', s'))" "cardinality out' = 0" by blast
  then show ?case by (subst drain.simps) simp
next
  case (more rows s s' rest)
  obtain out' where o: "nxt s ch = Some (Inr (out', s'))" "chunk_rep out' ts rows" using more(3) [OF more.prems] by blast
  then have "cardinality out' \<noteq> 0" using more(1) by (simp add: chunk_rep_def)
  then show ?case using o more(5) [of out' "acc @ rows"] chunk_rows_rep [OF o(2)] by (subst drain.simps) simp
qed

section \<open>Appending rows\<close>

lemma upd_all:
  assumes "\<And>c. c < n \<Longrightarrow> off + c < length (columns ch) \<and> f c (columns ch ! (off + c)) = Inr (g c)"
  shows "foldR (\<lambda>ch c. upd_vec (f c) (off + c) ch) ch [0..<n] =
    Inr (ch\<lparr>columns := map (\<lambda>k. if off \<le> k \<and> k < off + n then g (k - off) else columns ch ! k) [0..<length (columns ch)]\<rparr>)"
  using assms
proof (induction n)
  case 0
  have "map (\<lambda>k. if off \<le> k \<and> k < off then g (k - off) else columns ch ! k) [0..<length (columns ch)] = columns ch"
    by (rule nth_equalityI) auto
  then show ?case by simp
next
  case (Suc n)
  let ?cols = "\<lambda>n. map (\<lambda>k. if off \<le> k \<and> k < off + n then g (k - off) else columns ch ! k) [0..<length (columns ch)]"
  have "(?cols n)[off + n := g n] = ?cols (Suc n)"
    by (rule nth_equalityI) (use Suc.prems [of n] in \<open>auto simp: nth_list_update\<close>)
  then show ?case using Suc.IH Suc.prems [of n] Suc.prems by (simp add: foldR_append upd_vec_def GetVector_def)
qed

lemma append_row_rep:
  assumes rep: "cols_rep (columns out) ts rows" and r: "list_all2 value_fits ts r"
    and sz: "\<forall>c < length ts. length (strs (map (\<lambda>r. r ! c) (rows @ [r]))) < 2 ^ 32"
    and f: "\<And>c. c < length ts \<Longrightarrow> f c (columns out ! c) = AppendValue (columns out ! c) (r ! c)"
  shows "\<exists>out'. foldR (\<lambda>ch c. upd_vec (f c) c ch) out [0..<length ts] = Inr out' \<and> cols_rep (columns out') ts (rows @ [r])"
proof -
  let ?g = "\<lambda>c. vec_of (ts ! c) (map (\<lambda>r. r ! c) (rows @ [r]))"
  have v: "vec_rep (columns out ! c) (map (\<lambda>r. r ! c) rows)" "vtype (columns out ! c) = ts ! c" "value_fits (ts ! c) (r ! c)"
    if "c < length ts" for c
    using rep r that cols_rep_types(2) [OF rep] by (auto simp: cols_rep_def list_all2_conv_all_nth)
  have a: "AppendValue (columns out ! c) (r ! c) = Inr (?g c)" "vec_rep (?g c) (map (\<lambda>r. r ! c) (rows @ [r]))" if "c < length ts" for c
    using vec_rep_append [OF v(1) [OF that], of "r ! c"] v [OF that] sz that by simp_all
  have len: "length (columns out) = length ts" using cols_rep_types(1) [OF rep] .
  have "foldR (\<lambda>ch c. upd_vec (f c) c ch) out [0..<length ts] = Inr (out\<lparr>columns := map ?g [0..<length ts]\<rparr>)"
    using upd_all [of "length ts" 0 out f ?g] f a(1) len by (simp cong: map_cong)
  moreover have "cols_rep (map ?g [0..<length ts]) ts (rows @ [r])"
  proof -
    have "map vtype (map ?g [0..<length ts]) = ts" by (rule nth_equalityI) simp_all
    then show ?thesis using rep r a(2) by (auto simp: cols_rep_def list_all2_lengthD)
  qed
  ultimately show ?thesis by simp
qed

lemma append_from_row_rep:
  assumes rep: "cols_rep (columns out) ts rows" and src: "chunk_rep src ts srows" and i: "i < length srows"
    and sz: "\<forall>c < length ts. length (strs (map (\<lambda>r. r ! c) (rows @ [srows ! i]))) < 2 ^ 32"
  shows "\<exists>out'. append_from_row (length (columns out)) src i out = Inr out' \<and> cols_rep (columns out') ts (rows @ [srows ! i])"
proof -
  have s: "vec_rep (columns src ! c) (map (\<lambda>r. r ! c) srows)" "vtype (columns src ! c) = ts ! c" "c < length (columns src)"
    "vtype (columns out ! c) = ts ! c" if "c < length ts" for c
    using src rep that cols_rep_types [of "columns src" ts srows] cols_rep_types(2) [OF rep] by (auto simp: chunk_rep_def cols_rep_def)
  have "value_fits (ts ! c) (srows ! i ! c)" if "c < length ts" for c
    using s(1,2) [OF that] i by (auto simp: vec_rep_def list_all_length)
  then have r: "list_all2 value_fits ts (srows ! i)" using chunk_rep_row [OF src i] by (simp add: list_all2_conv_all_nth)
  have "bindR (GetVector src c) (\<lambda>w. AppendFrom (columns out ! c) w i) = AppendValue (columns out ! c) (srows ! i ! c)"
    if "c < length ts" for c
    using AppendFrom_rep [OF s(1) [OF that], of i "columns out ! c"] s [OF that] i by (simp add: GetVector_def)
  then show ?thesis
    using append_row_rep [OF rep r sz, of "\<lambda>c v. bindR (GetVector src c) (\<lambda>w. AppendFrom v w i)"] cols_rep_types(1) [OF rep]
    by (simp add: append_from_row_def)
qed

lemma append_values_rep:
  assumes rep: "cols_rep (columns out) ts rows" and r: "list_all2 value_fits ts r"
    and sz: "\<forall>c < length ts. length (strs (map (\<lambda>r. r ! c) (rows @ [r]))) < 2 ^ 32"
  shows "\<exists>out'. append_values 0 (length (columns out)) r out = Inr out' \<and> cols_rep (columns out') ts (rows @ [r])"
proof -
  have "(if c < length r then AppendValue (columns out ! c) (r ! c) else Inl (Undefined ''row[c]'')) = AppendValue (columns out ! c) (r ! c)"
    if "c < length ts" for c using r that by (simp add: list_all2_lengthD)
  then show ?thesis
    using append_row_rep [OF rep r sz, of "\<lambda>c v. if c < length r then AppendValue v (r ! c) else Inl (Undefined ''row[c]'')"]
      cols_rep_types(1) [OF rep]
    by (simp add: append_values_def)
qed

text \<open>A selection or a reordering of rows needs no more room for strings.\<close>

lemma strs_mono: "mset xs \<subseteq># mset ys \<Longrightarrow> length (strs (map f xs)) \<le> length (strs (map f ys))"
proof -
  have len: "length (strs (map f zs)) = (\<Sum>z \<in># mset zs. length (str_bytes (f z)))" for zs
    by (induction zs) simp_all
  assume "mset xs \<subseteq># mset ys"
  then obtain M where "mset ys = mset xs + M" by (auto simp: mset_subset_eq_exists_conv)
  then show ?thesis by (simp add: len)
qed

lemma strs_take: "length (strs (take k vs)) \<le> length (strs vs)"
  by (metis append_take_drop_id le_add1 length_append strs_simps(2))

lemma yields_cong:
  assumes "yields nxt ts s2 rows" and "\<And>out. typed_out ts out \<Longrightarrow> nxt s out = nxt s2 out"
  shows "yields nxt ts s rows"
  using assms(1)
proof cases
  case stop
  then show ?thesis using assms(2) by (auto intro: yields.stop)
next
  case (more rows s' rest)
  have "\<exists>out'. nxt s out = Some (Inr (out', s')) \<and> chunk_rep out' ts rows" if "typed_out ts out" for out
    using more(4) assms(2) that by simp
  then show ?thesis unfolding more(1) by (rule yields.more [OF more(2,3) _ more(5)])
qed

section \<open>Filter\<close>

definition keep :: "BoundExpr \<Rightarrow> Value list \<Rightarrow> bool" where
  "keep e r = (case eval_row e r of Inr v \<Rightarrow> ValueTruthy v | Inl _ \<Rightarrow> False)"

lemma row_mask_keep:
  "\<forall>r \<in> set rows. \<exists>v. eval_row e r = Inr v \<Longrightarrow> row_mask e rows = Inr (map (\<lambda>r. if keep e r then 1 else 0) rows)"
  unfolding row_mask_def by (rule mapR_Inr) (auto simp: keep_def)

lemma fast_safe_append: "fast_safe e ts (xs @ ys) \<longleftrightarrow> fast_safe e ts xs \<and> fast_safe e ts ys"
  by (cases "(e, ts, xs)" rule: fast_safe.cases) auto

lemma filter_batch_rep:
  assumes inp: "chunk_rep input ts rows" and out: "cols_rep (columns out) ts []" and safe: "fast_safe e ts rows"
    and total: "\<forall>r \<in> set rows. \<exists>v. eval_row e r = Inr v"
  shows "\<exists>out'. filter_batch e input out = Inr (length (filter (keep e) rows), out') \<and>
    cols_rep (columns out') ts (filter (keep e) rows) \<and> (filter (keep e) rows = [] \<longrightarrow> out' = out)"
proof -
  let ?mask = "map (\<lambda>r. if keep e r then 1 else 0 :: byte) rows" and ?sel = "\<lambda>k. filter (keep e) (take k rows)"
  have n: "cardinality input = length rows" using inp by (simp add: chunk_rep_def)
  have m: "EvalPredicate e input = Inr ?mask" using EvalPredicate_rep [OF inp safe] row_mask_keep [OF total] by simp
  let ?P = "\<lambda>k (kept, o'). kept = length (?sel k) \<and> cols_rep (columns o') ts (?sel k) \<and> (?sel k = [] \<longrightarrow> o' = out)"
  let ?f = "\<lambda>(kept, o') i. if ?mask ! i = 0 then Inr (kept, o')
      else bindR (append_from_row (length (columns o')) input i o') (\<lambda>out'. Inr (kept + 1, out'))"
  have "\<exists>s'. foldR ?f (0, out) [0..<length rows] = Inr s' \<and> ?P (length rows) s'"
  proof (rule foldR_upt)
    show "?P 0 (0, out)" using out by simp
  next
    fix i s
    assume i: "i < length rows" and P: "?P i s"
    obtain kept o' where s: "s = (kept, o')" by (cases s)
    have sel: "?sel (Suc i) = (if keep e (rows ! i) then ?sel i @ [rows ! i] else ?sel i)"
      using i by (simp add: take_Suc_conv_app_nth)
    show "\<exists>s'. ?f s i = Inr s' \<and> ?P (Suc i) s'"
    proof (cases "keep e (rows ! i)")
      case True
      have "length (strs (map (\<lambda>r. r ! c) (?sel i @ [rows ! i]))) < 2 ^ 32" if "c < length ts" for c
      proof -
        have "mset (?sel (Suc i)) \<subseteq># mset (take (Suc i) rows)" by (simp add: multiset_filter_subset)
        also have "\<dots> \<subseteq># mset rows" by (metis append_take_drop_id mset_append mset_subset_eq_add_left)
        finally have "length (strs (map (\<lambda>r. r ! c) (?sel (Suc i)))) \<le> length (strs (map (\<lambda>r. r ! c) rows))" by (rule strs_mono)
        moreover have "length (strs (map (\<lambda>r. r ! c) rows)) < 2 ^ 32"
          using inp that by (simp add: chunk_rep_def cols_rep_def vec_rep_def)
        ultimately show ?thesis using sel True by simp
      qed
      then have "\<exists>o''. append_from_row (length (columns o')) input i o' = Inr o'' \<and> cols_rep (columns o'') ts (?sel i @ [rows ! i])"
        using P append_from_row_rep [OF _ inp i, of o' "?sel i"] by (simp add: s)
      then show ?thesis using True P sel i by (auto simp: s)
    next
      case False
      then show ?thesis using P sel i by (simp add: s)
    qed
  qed
  then show ?thesis using m by (auto simp: filter_batch_def n)
qed

lemma filter_yields:
  assumes "yields nxt ts s rows" and "fast_safe e ts rows" and "\<forall>r \<in> set rows. \<exists>v. eval_row e r = Inr v" and "typed_out ts input"
  shows "yields (\<lambda>(s, input) out. filter_next nxt e s input (Reset out)) ts (s, input) (filter (keep e) rows)"
  using assms
proof (induction arbitrary: input rule: yields.induct)
  case (stop s)
  obtain input' s' where o: "nxt s input = Some (Inr (input', s'))" "cardinality input' = 0" using stop by blast
  show ?case by (simp, rule yields.stop) (subst filter_next.simps, simp add: o set_cardinality_def typed_out_def Reset_def o_def Clear_def)
next
  case (more rows s s' rest)
  let ?F = "\<lambda>(s, input) out. filter_next nxt e s input (Reset out)"
  obtain input' where o: "nxt s input = Some (Inr (input', s'))" "chunk_rep input' ts rows" using more(3) [OF more.prems(3)] by blast
  have c: "cardinality input' \<noteq> 0" using o(2) more(1) by (simp add: chunk_rep_def)
  have safe: "fast_safe e ts rows" "fast_safe e ts rest" using more.prems(1) by (simp_all add: fast_safe_append)
  have ih: "yields ?F ts (s', input') (filter (keep e) rest)"
    using more(5) [OF safe(2)] more.prems(2) typed_simps(4) [OF o(2)] by simp
  have b: "\<exists>out'. filter_batch e input' (Reset out) = Inr (length (filter (keep e) rows), out') \<and>
      cols_rep (columns out') ts (filter (keep e) rows) \<and> (filter (keep e) rows = [] \<longrightarrow> out' = Reset out)" if "typed_out ts out" for out
    using filter_batch_rep [OF o(2) Reset_rep [OF that] safe(1)] more.prems(2) by simp
  show ?case
  proof (cases "filter (keep e) rows = []")
    case True
    have "?F (s, input) out = ?F (s', input') out" if "typed_out ts out" for out
      using b [OF that] True o c by (simp, subst filter_next.simps) auto
    then show ?thesis using yields_cong [OF ih] True by simp
  next
    case False
    have "\<exists>out'. ?F (s, input) out = Some (Inr (out', (s', input'))) \<and> chunk_rep out' ts (filter (keep e) rows)" if "typed_out ts out" for out
      using b [OF that] False o c by (simp, subst filter_next.simps) (auto simp: chunk_rep_def set_cardinality_def)
    moreover have "length (filter (keep e) rows) \<le> kVectorSize" using more(2) by (meson le_trans length_filter_le)
    ultimately show ?thesis using yields.more [OF False _ _ ih] by simp
  qed
qed

section \<open>Limit and projection\<close>

lemma set_cardinality_simps [simp]: "cardinality (set_cardinality ch n) = n" "columns (set_cardinality ch n) = columns ch"
  by (simp_all add: set_cardinality_def)

lemma foldR_cong: "(\<And>s x. x \<in> set xs \<Longrightarrow> f s x = g s x) \<Longrightarrow> foldR f s xs = foldR g s xs"
proof (induction xs arbitrary: s)
  case (Cons x xs)
  have "(\<lambda>s'. foldR f s' xs) = (\<lambda>s'. foldR g s' xs)" by (rule ext, rule Cons.IH) (simp add: Cons.prems)
  then show ?case by (simp add: Cons.prems)
qed simp

lemma fill_column_rep:
  assumes src: "vec_rep src ws" and v: "vec_rep v []" "vtype v = vtype src" and k: "k \<le> length ws"
  shows "fill_column k src v = Inr (vec_of (vtype src) (take k ws))" and "vec_rep (vec_of (vtype src) (take k ws)) (take k ws)"
proof -
  define t where "t = vtype src"
  have f: "list_all (value_fits t) ws" "length (strs ws) < 2 ^ 32" using src by (simp_all add: vec_rep_def t_def)
  have rep: "vec_rep (vec_of t (take j ws)) (take j ws)" for j
    using f strs_take [of j ws] by (auto simp: vec_rep_def list_all_iff dest: in_set_takeD)
  show "vec_rep (vec_of (vtype src) (take k ws)) (take k ws)" using rep by (simp add: t_def)
  have "\<exists>s'. foldR (\<lambda>dst i. AppendFrom dst src i) v [0..<k] = Inr s' \<and> s' = vec_of t (take k ws)"
  proof (rule foldR_upt [where P = "\<lambda>j v. v = vec_of t (take j ws)"])
    show "v = vec_of t (take 0 ws)" using v by (simp add: vec_rep_def t_def)
  next
    fix i d
    assume i: "i < k" and d: "d = vec_of t (take i ws)"
    have "value_fits t (ws ! i)" using f(1) i k by (simp add: list_all_length)
    then have "AppendFrom d src i = Inr (vec_of t (take (Suc i) ws))"
      using AppendFrom_rep [OF src, of i d] i k by (simp add: d t_def AppendValue_of take_Suc_conv_app_nth)
    then show "\<exists>s'. AppendFrom d src i = Inr s' \<and> s' = vec_of t (take (Suc i) ws)" by simp
  qed
  then show "fill_column k src v = Inr (vec_of (vtype src) (take k ws))" by (simp add: fill_column_def t_def)
qed

text \<open>Filling the columns of a cleared batch from columns of another one.\<close>

lemma fill_columns_rep:
  assumes inp: "chunk_rep inp ts rows" and out: "cols_rep (columns out) (map ((!) ts) sources) []"
    and src: "\<forall>c \<in> set sources. c < length ts" and k: "k \<le> length rows"
  shows "\<exists>out'. foldR (\<lambda>out c. upd_vec (\<lambda>v. bindR (GetVector inp (sources ! c)) (\<lambda>src. fill_column k src v)) c out)
      out [0..<length sources] = Inr out' \<and> cols_rep (columns out') (map ((!) ts) sources) (map (\<lambda>r. map ((!) r) sources) (take k rows))"
proof -
  let ?g = "\<lambda>c. vec_of (ts ! (sources ! c)) (take k (map (\<lambda>r. r ! (sources ! c)) rows))"
  have s: "vec_rep (columns inp ! (sources ! c)) (map (\<lambda>r. r ! (sources ! c)) rows)" "vtype (columns inp ! (sources ! c)) = ts ! (sources ! c)"
    "sources ! c < length (columns inp)" "vec_rep (columns out ! c) []" "vtype (columns out ! c) = ts ! (sources ! c)" "c < length (columns out)"
    if "c < length sources" for c
    using inp out src that cols_rep_types [of "columns inp" ts rows] cols_rep_types [OF out]
    by (auto simp: chunk_rep_def cols_rep_def)
  have g: "bindR (GetVector inp (sources ! c)) (\<lambda>src. fill_column k src (columns out ! c)) = Inr (?g c)"
    "vec_rep (?g c) (take k (map (\<lambda>r. r ! (sources ! c)) rows))" if "c < length sources" for c
    using fill_column_rep [OF s(1) [OF that] s(4) [OF that], of k] s [OF that] k by (simp_all add: GetVector_def)
  have len: "length (columns out) = length sources" using cols_rep_types(1) [OF out] by simp
  have "foldR (\<lambda>out c. upd_vec (\<lambda>v. bindR (GetVector inp (sources ! c)) (\<lambda>src. fill_column k src v)) c out) out [0..<length sources] =
    Inr (out\<lparr>columns := map ?g [0..<length sources]\<rparr>)"
    using upd_all [of "length sources" 0 out "\<lambda>c v. bindR (GetVector inp (sources ! c)) (\<lambda>src. fill_column k src v)" ?g] g(1) len
    by (simp cong: map_cong)
  moreover have "cols_rep (map ?g [0..<length sources]) (map ((!) ts) sources) (map (\<lambda>r. map ((!) r) sources) (take k rows))"
  proof -
    have "map vtype (map ?g [0..<length sources]) = map ((!) ts) sources" by (rule nth_equalityI) simp_all
    then show ?thesis using g(2) by (auto simp: cols_rep_def take_map o_def)
  qed
  ultimately show ?thesis by simp
qed

lemma limit_yields:
  assumes "yields nxt ts s rows" and "typed_out ts input"
  shows "yields (\<lambda>(s, input, n) out. limit_next nxt s input n (Reset out)) ts (s, input, n) (take n rows)"
  using assms
proof (induction arbitrary: input n rule: yields.induct)
  case (stop s)
  then obtain input' s' where "nxt s input = Some (Inr (input', s'))" "cardinality input' = 0" by blast
  then show ?case by (auto intro!: yields.stop simp: limit_next_def)
next
  case (more rows s s' rest)
  let ?L = "\<lambda>(s, input, n) out. limit_next nxt s input n (Reset out)"
  show ?case
  proof (cases "n = 0")
    case True
    then show ?thesis by (auto intro!: yields.stop simp: limit_next_def)
  next
    case False
    obtain input' where o: "nxt s input = Some (Inr (input', s'))" "chunk_rep input' ts rows" using more(3) [OF more.prems] by blast
    let ?k = "min (length rows) n"
    have c: "cardinality input' = length rows" "rows \<noteq> []" using o(2) more(1) by (simp_all add: chunk_rep_def)
    have "\<exists>out'. ?L (s, input, n) out = Some (Inr (out', (s', input', n - ?k))) \<and> chunk_rep out' ts (take ?k rows)" if t: "typed_out ts out" for out
    proof -
      have r: "cols_rep (columns (Reset out)) ts []" using Reset_rep [OF t] .
      have id: "map ((!) r) [0..<length ts] = r" if "r \<in> set (take ?k rows)" for r
        using o(2) that map_nth [of r] by (auto simp: chunk_rep_def cols_rep_def dest!: in_set_takeD)
      let ?body = "\<lambda>out c. upd_vec (\<lambda>v. bindR (GetVector input' c) (\<lambda>src. fill_column ?k src v)) c out"
      have "foldR (\<lambda>out c. upd_vec (\<lambda>v. bindR (GetVector input' ([0..<length ts] ! c)) (\<lambda>src. fill_column ?k src v)) c out)
          (Reset out) [0..<length ts] = foldR ?body (Reset out) [0..<length ts]"
        by (rule foldR_cong) simp
      moreover have "map (\<lambda>r. map ((!) r) [0..<length ts]) (take ?k rows) = take ?k rows" using id by (simp add: map_idI)
      ultimately obtain out' where "foldR ?body (Reset out) [0..<length (columns (Reset out))] = Inr out'" "cols_rep (columns out') ts (take ?k rows)"
        using fill_columns_rep [OF o(2), of "Reset out" "[0..<length ts]" ?k] r cols_rep_types(1) [OF r] by (auto simp: map_nth)
      then show ?thesis using False o(1) c by (auto simp: limit_next_def Let_def chunk_rep_def)
    qed
    moreover have "take ?k rows \<noteq> []" "length (take ?k rows) \<le> kVectorSize" using False c(2) more(2) by auto
    moreover have "yields ?L ts (s', input', n - ?k) (take (n - ?k) rest)" by (rule more(5)) (rule typed_simps(4) [OF o(2)])
    ultimately have "yields ?L ts (s, input, n) (take ?k rows @ take (n - ?k) rest)" by (intro yields.more)
    moreover have "take ?k rows @ take (n - ?k) rest = take n (rows @ rest)" by (cases "length rows \<le> n") simp_all
    ultimately show ?thesis by simp
  qed
qed

lemma projection_yields:
  assumes "yields nxt ts s rows" and "\<forall>c \<in> set sources. c < length ts" and "typed_out ts input"
  shows "yields (\<lambda>(s, input) out. projection_next nxt sources s input (Reset out)) (map ((!) ts) sources) (s, input)
    (map (\<lambda>r. map ((!) r) sources) rows)"
  using assms
proof (induction arbitrary: input rule: yields.induct)
  case (stop s)
  then obtain input' s' where "nxt s input = Some (Inr (input', s'))" "cardinality input' = 0" by blast
  then show ?case by (auto intro!: yields.stop simp: projection_next_def)
next
  case (more rows s s' rest)
  let ?P = "\<lambda>(s, input) out. projection_next nxt sources s input (Reset out)"
  obtain input' where o: "nxt s input = Some (Inr (input', s'))" "chunk_rep input' ts rows" using more(3) [OF more.prems(2)] by blast
  have c: "cardinality input' = length rows" "rows \<noteq> []" using o(2) more(1) by (simp_all add: chunk_rep_def)
  have len: "length (columns input') = length ts" using o(2) cols_rep_types(1) by (auto simp: chunk_rep_def)
  have "\<exists>out'. ?P (s, input) out = Some (Inr (out', (s', input'))) \<and> chunk_rep out' (map ((!) ts) sources) (map (\<lambda>r. map ((!) r) sources) rows)"
    if t: "typed_out (map ((!) ts) sources) out" for out
  proof -
    obtain out' where f: "foldR (\<lambda>out c. upd_vec (\<lambda>v. bindR (GetVector input' (sources ! c)) (\<lambda>src. fill_column (length rows) src v)) c out)
          (Reset out) [0..<length sources] = Inr out'"
      "cols_rep (columns out') (map ((!) ts) sources) (map (\<lambda>r. map ((!) r) sources) (take (length rows) rows))"
      using fill_columns_rep [OF o(2) Reset_rep [OF t] more.prems(1)] by blast
    have "foldR (\<lambda>out c. bindR (GetVector input' (sources ! c)) (\<lambda>src. upd_vec (fill_column (length rows) src) c out)) (Reset out) [0..<length sources] =
      foldR (\<lambda>out c. upd_vec (\<lambda>v. bindR (GetVector input' (sources ! c)) (\<lambda>src. fill_column (length rows) src v)) c out) (Reset out) [0..<length sources]"
      using more.prems(1) len by (intro foldR_cong) (simp add: GetVector_def)
    then show ?thesis using f o(1) c
      by (auto simp: projection_next_def Let_def chunk_rep_def)
  qed
  moreover have "yields ?P (map ((!) ts) sources) (s', input') (map (\<lambda>r. map ((!) r) sources) rest)"
    by (rule more(5) [OF more.prems(1) typed_simps(4) [OF o(2)]])
  ultimately have "yields ?P (map ((!) ts) sources) (s, input) (map (\<lambda>r. map ((!) r) sources) rows @ map (\<lambda>r. map ((!) r) sources) rest)"
    using more(1,2) by (intro yields.more) auto
  then show ?case by simp
qed

section \<open>Stable sorting\<close>

lemma mset_insort_by [simp]: "mset (insort_by lt x ys) = add_mset x (mset ys)"
  by (induction ys) simp_all

lemma mset_sort_by [simp]: "mset (sort_by lt xs) = mset xs"
  by (induction xs) simp_all

lemma set_sort_by [simp]: "set (insort_by lt x ys) = insert x (set ys)" "set (sort_by lt xs) = set xs"
  by (metis mset_insort_by set_mset_add_mset_insert set_mset_mset) (metis mset_sort_by set_mset_mset)

lemma strict_weakD:
  assumes "strict_weak lt xs" and "x \<in> set xs" "y \<in> set xs" "z \<in> set xs"
  shows "\<not> lt x x" "lt x y \<Longrightarrow> \<not> lt y x" "lt x y \<Longrightarrow> lt y z \<Longrightarrow> lt x z" "lt x z \<Longrightarrow> lt x y \<or> lt y z"
  using assms unfolding strict_weak_def by blast+

lemma strict_weak_subset: "strict_weak lt xs \<Longrightarrow> set ys \<subseteq> set xs \<Longrightarrow> strict_weak lt ys"
  unfolding strict_weak_def by blast

lemma insort_by_sorted:
  assumes "strict_weak lt (x # ys)" and "sorted_wrt (\<lambda>a b. \<not> lt b a) ys"
  shows "sorted_wrt (\<lambda>a b. \<not> lt b a) (insort_by lt x ys)"
  using assms
proof (induction ys)
  case (Cons y ys)
  have sw: "strict_weak lt (x # ys)" by (rule strict_weak_subset [OF Cons.prems(1)]) auto
  show ?case
  proof (cases "lt y x")
    case True
    then show ?thesis using Cons.IH [OF sw] Cons.prems strict_weakD(2) [OF Cons.prems(1), of y x y] by auto
  next
    case False
    have "\<not> lt z x" if "z \<in> set ys" for z
      using strict_weakD(4) [OF Cons.prems(1), of z y x] Cons.prems(2) False that by auto
    then show ?thesis using False Cons.prems(2) by simp
  qed
qed simp

lemma sort_by_sorted: "strict_weak lt xs \<Longrightarrow> sorted_wrt (\<lambda>a b. \<not> lt b a) (sort_by lt xs)"
proof (induction xs)
  case (Cons x xs)
  have "strict_weak lt xs" "strict_weak lt (x # sort_by lt xs)" by (rule strict_weak_subset [OF Cons.prems], auto)+
  then show ?case using Cons.IH insort_by_sorted by auto
qed simp

definition tie :: "('a \<Rightarrow> 'a \<Rightarrow> bool) \<Rightarrow> 'a \<Rightarrow> 'a \<Rightarrow> bool" where
  "tie lt x y \<longleftrightarrow> \<not> lt x y \<and> \<not> lt y x"

lemma insort_by_stable:
  assumes "strict_weak lt (w # x # ys)"
  shows "filter (tie lt w) (insort_by lt x ys) = (if tie lt w x then [x] else []) @ filter (tie lt w) ys"
  using assms
proof (induction ys)
  case (Cons y ys)
  have sw: "strict_weak lt (w # x # ys)" by (rule strict_weak_subset [OF Cons.prems], auto)
  show ?case
  proof (cases "lt y x \<and> tie lt w x")
    case True
    then have "\<not> tie lt w y" using strict_weakD(4) [OF Cons.prems, of y w x] by (auto simp: tie_def)
    with True show ?thesis using Cons.IH [OF sw] by simp
  next
    case False
    then show ?thesis using Cons.IH [OF sw] by auto
  qed
qed simp

lemma sort_by_stable:
  assumes "strict_weak lt (w # xs)"
  shows "filter (tie lt w) (sort_by lt xs) = filter (tie lt w) xs"
  using assms
proof (induction xs)
  case (Cons x xs)
  have "strict_weak lt (w # xs)" "strict_weak lt (w # x # sort_by lt xs)" by (rule strict_weak_subset [OF Cons.prems], auto)+
  then show ?case using Cons.IH insort_by_stable [of lt w x "sort_by lt xs"] by simp
qed simp

section \<open>Sorting rows by a key\<close>

definition cmp_less :: "Value \<Rightarrow> Value \<Rightarrow> bool" where
  "cmp_less x y \<longleftrightarrow> CompareValues x y = Inr kLess"

text \<open>On the values of one column type, other than NULL and NaN, the comparison is a strict weak order.\<close>

lemma value_fits_nonnull:
  assumes "value_fits t x" "x \<noteq> Null"
  shows "t = kInt \<Longrightarrow> \<exists>i. x = Int32 i" "t = kBigInt \<Longrightarrow> \<exists>l. x = Int64 l" "t = kFloat \<Longrightarrow> \<exists>d. x = Dbl d" "t = kVarchar \<Longrightarrow> \<exists>s. x = Str s"
  using assms by (cases x; simp)+

lemma cmp_less_simps [simp]:
  "cmp_less (Int32 i) (Int32 j) \<longleftrightarrow> sint i < sint j" "cmp_less (Int64 l) (Int64 m) \<longleftrightarrow> sint l < sint m"
  "cmp_less (Dbl d) (Dbl e) \<longleftrightarrow> d_lt d e" "cmp_less (Str s) (Str u) \<longleftrightarrow> s < u"
  by (auto simp: CompareValues_def cmp_less_def order_int_def order_double_def order_string_def)

lemma CompareValues_typed:
  assumes "value_fits t x" "value_fits t y" "x \<noteq> Null" "y \<noteq> Null"
  shows "CompareValues x y = Inr (if cmp_less x y then kLess else if cmp_less y x then kGreater else kEqual)"
  using value_fits_nonnull [OF assms(1,3)] value_fits_nonnull [OF assms(2,4)]
  by (cases t) (auto simp: CompareValues_def order_int_def order_double_def order_string_def)

lemma cmp_less_order:
  assumes "value_fits t x" "value_fits t y" "value_fits t z" "x \<noteq> Null" "y \<noteq> Null" "z \<noteq> Null"
    "\<not> is_nan_value x" "\<not> is_nan_value y" "\<not> is_nan_value z"
  shows "\<not> cmp_less x x" "cmp_less x y \<Longrightarrow> cmp_less y z \<Longrightarrow> cmp_less x z" "cmp_less x z \<Longrightarrow> cmp_less x y \<or> cmp_less y z"
  using value_fits_nonnull [OF assms(1,4)] value_fits_nonnull [OF assms(2,5)] value_fits_nonnull [OF assms(3,6)] assms(7-9)
  by (cases t; auto simp: d_lt_def)+

definition key_less :: "bool \<Rightarrow> Value \<Rightarrow> Value \<Rightarrow> bool" where
  "key_less desc x y \<longleftrightarrow>
     (if x = Null \<or> y = Null then \<not> (x = Null \<and> y = Null) \<and> (if desc then y = Null else x = Null)
      else if desc then cmp_less y x else cmp_less x y)"

lemma row_less_key:
  assumes "key < length a" "key < length b" "value_fits t (a ! key)" "value_fits t (b ! key)"
    "\<not> is_nan_value (a ! key)" "\<not> is_nan_value (b ! key)"
  shows "row_less key desc a b = Inr (key_less desc (a ! key) (b ! key))"
proof (cases "a ! key = Null \<or> b ! key = Null")
  case True
  then show ?thesis using assms(1,2) by (auto simp: row_less_def key_less_def Let_def IsNull_def)
next
  case False
  have "CompareValues (a ! key) (b ! key) =
    Inr (if cmp_less (a ! key) (b ! key) then kLess else if cmp_less (b ! key) (a ! key) then kGreater else kEqual)"
    using CompareValues_typed [OF assms(3,4)] False by simp
  moreover have "\<not> (cmp_less (a ! key) (b ! key) \<and> cmp_less (b ! key) (a ! key))"
    using cmp_less_order(1,2) [OF assms(3,4,3) _ _ _ assms(5,6,5)] False by blast
  ultimately show ?thesis using assms(1,2) False
    by (cases "cmp_less (a ! key) (b ! key)"; cases "cmp_less (b ! key) (a ! key)") (simp_all add: row_less_def key_less_def IsNull_def)
qed

definition key_ok :: "ColumnType \<Rightarrow> nat \<Rightarrow> Value list list \<Rightarrow> bool" where
  "key_ok t key rows \<longleftrightarrow> (\<forall>r \<in> set rows. key < length r \<and> value_fits t (r ! key) \<and> \<not> is_nan_value (r ! key))"

lemma key_less_order:
  assumes "value_fits t x" "value_fits t y" "value_fits t z" "\<not> is_nan_value x" "\<not> is_nan_value y" "\<not> is_nan_value z"
  shows "\<not> key_less desc x x" "key_less desc x y \<Longrightarrow> key_less desc y z \<Longrightarrow> key_less desc x z"
    "key_less desc x z \<Longrightarrow> key_less desc x y \<or> key_less desc y z"
proof -
  note o = cmp_less_order [OF assms(1-3) _ _ _ assms(4-6)]
  note o' = cmp_less_order [OF assms(3,2,1) _ _ _ assms(6,5,4)]
  show "\<not> key_less desc x x" using cmp_less_order(1) [OF assms(1,1,1) _ _ _ assms(4,4,4)] by (auto simp: key_less_def)
  show "key_less desc x y \<Longrightarrow> key_less desc y z \<Longrightarrow> key_less desc x z"
    by (cases "x = Null"; cases "y = Null"; cases "z = Null"; cases desc) (use o(2) o'(2) in \<open>auto simp: key_less_def\<close>)
  show "key_less desc x z \<Longrightarrow> key_less desc x y \<or> key_less desc y z"
    by (cases "x = Null"; cases "y = Null"; cases "z = Null"; cases desc) (use o(3) o'(3) in \<open>auto simp: key_less_def\<close>)
qed

lemma stable_sort_rows:
  fixes desc :: bool
  assumes ok: "key_ok t key rows"
  defines "lt \<equiv> \<lambda>a b. row_less key desc a b = Inr True"
  shows "stable_sort (row_less key desc) rows = Inr (sort_by lt rows)" and "strict_weak lt rows"
proof -
  have r: "row_less key desc a b = Inr (key_less desc (a ! key) (b ! key))" if "a \<in> set rows" "b \<in> set rows" for a b
    using ok that row_less_key [of key a b t] by (auto simp: key_ok_def)
  have lt: "lt a b = key_less desc (a ! key) (b ! key)" if "a \<in> set rows" "b \<in> set rows" for a b
    using r [OF that] by (simp add: lt_def)
  show sw: "strict_weak lt rows"
    unfolding strict_weak_def
  proof (intro conjI ballI)
    fix x y z
    assume m: "x \<in> set rows" "y \<in> set rows" "z \<in> set rows"
    note o = key_less_order [of t "x ! key" "y ! key" "z ! key" desc]
    show "lt x y \<longrightarrow> lt y z \<longrightarrow> lt x z" "lt x z \<longrightarrow> lt x y \<or> lt y z"
      using o m ok by (auto simp: lt key_ok_def)
  qed (use key_less_order(1) ok in \<open>auto simp: lt key_ok_def\<close>)
  have "\<exists>ys. mapR (\<lambda>x. mapR (row_less key desc x) rows) rows = Inr ys"
    by (intro mapR_total) (auto simp: r)
  then show "stable_sort (row_less key desc) rows = Inr (sort_by lt rows)"
    using sw by (auto simp: stable_sort_def Let_def lt_def)
qed

section \<open>Emitting materialised rows\<close>

text \<open>Rows of the column types, whose strings fit the 32-bit offsets of one vector per column.\<close>

definition rows_fit :: "ColumnType list \<Rightarrow> Value list list \<Rightarrow> bool" where
  "rows_fit ts rows \<longleftrightarrow> (\<forall>r \<in> set rows. list_all2 value_fits ts r) \<and>
     (\<forall>c < length ts. length (strs (map (\<lambda>r. r ! c) rows)) < 2 ^ 32)"

lemma rows_fit_subset: "rows_fit ts rows \<Longrightarrow> mset rows' \<subseteq># mset rows \<Longrightarrow> rows_fit ts rows'"
proof -
  assume f: "rows_fit ts rows" and s: "mset rows' \<subseteq># mset rows"
  have "set rows' \<subseteq> set rows" using set_mset_mono [OF s] by simp
  moreover have "length (strs (map (\<lambda>r. r ! c) rows')) < 2 ^ 32" if "c < length ts" for c
    using f that strs_mono [OF s, of "\<lambda>r. r ! c"] by (auto simp: rows_fit_def dest: order.strict_trans1)
  ultimately show ?thesis using f by (auto simp: rows_fit_def)
qed

definition full_width :: "ColumnType list \<Rightarrow> (chunk \<Rightarrow> Value list \<Rightarrow> nat) \<Rightarrow> bool" where
  "full_width ts width \<longleftrightarrow> (\<forall>out row. length (columns out) = length ts \<longrightarrow> length row = length ts \<longrightarrow> width out row = length ts)"

lemma full_width_simps [simp]: "full_width ts (\<lambda>out row. length (columns out))" "full_width ts (\<lambda>out row. length row)"
  by (simp_all add: full_width_def)

lemma emit_rows_rep:
  assumes width: "full_width ts width" and fit: "rows_fit ts rows" and out: "cols_rep (columns out) ts []" and cur: "cursor < length rows"
  shows "\<exists>out'. emit_rows width rows cursor out = Inr (out', cursor + min kVectorSize (length rows - cursor)) \<and>
    chunk_rep out' ts (take (min kVectorSize (length rows - cursor)) (drop cursor rows))"
proof -
  let ?k = "min kVectorSize (length rows - cursor)" and ?rs = "drop cursor rows"
  have sub: "rows_fit ts (take j ?rs)" for j
  proof (rule rows_fit_subset [OF fit])
    have "mset (take j ?rs) \<subseteq># mset ?rs" by (metis append_take_drop_id mset_append mset_subset_eq_add_left)
    also have "\<dots> \<subseteq># mset rows" by (metis append_take_drop_id mset_append mset_subset_eq_add_right)
    finally show "mset (take j ?rs) \<subseteq># mset rows" .
  qed
  have "\<exists>s'. foldR (\<lambda>out r. append_values 0 (width out (rows ! (cursor + r))) (rows ! (cursor + r)) out) out [0..<?k] = Inr s' \<and>
      cols_rep (columns s') ts (take ?k ?rs)"
  proof (rule foldR_upt [where P = "\<lambda>j o'. cols_rep (columns o') ts (take j ?rs)"])
    show "cols_rep (columns out) ts (take 0 ?rs)" using out by simp
  next
    fix j and o' :: chunk
    assume j: "j < ?k" and P: "cols_rep (columns o') ts (take j ?rs)"
    have t: "take (Suc j) ?rs = take j ?rs @ [rows ! (cursor + j)]" using j cur by (simp add: take_Suc_conv_app_nth)
    have f: "rows_fit ts (take j ?rs @ [rows ! (cursor + j)])" using sub [of "Suc j"] t by simp
    have l: "length (columns o') = length ts" "length (rows ! (cursor + j)) = length ts"
      using cols_rep_types(1) [OF P] f by (auto simp: rows_fit_def dest: list_all2_lengthD)
    then have w: "width o' (rows ! (cursor + j)) = length (columns o')" using width by (simp add: full_width_def)
    show "\<exists>s'. append_values 0 (width o' (rows ! (cursor + j))) (rows ! (cursor + j)) o' = Inr s' \<and> cols_rep (columns s') ts (take (Suc j) ?rs)"
      using append_values_rep [OF P, of "rows ! (cursor + j)"] f unfolding t w by (simp add: rows_fit_def)
  qed
  then show ?thesis using cur by (auto simp: emit_rows_def Let_def chunk_rep_def)
qed

lemma emit_yields:
  assumes "full_width ts width" and "rows_fit ts rows"
  shows "yields (\<lambda>(s, rows, cursor) out. bindO (Some (emit_rows width rows cursor (Reset out))) (\<lambda>(out', cursor'). Some (Inr (out', s, rows, cursor')))) ts
    (s, rows, cursor) (drop cursor rows)"
proof (induction "length rows - cursor" arbitrary: cursor rule: less_induct)
  case less
  let ?N = "\<lambda>(s, rows, cursor) out. bindO (Some (emit_rows width rows cursor (Reset out))) (\<lambda>(out', cursor'). Some (Inr (out', s, rows, cursor')))"
  show ?case
  proof (cases "cursor < length rows")
    case False
    then show ?thesis by (auto intro!: yields.stop simp: emit_rows_def)
  next
    case True
    let ?k = "min kVectorSize (length rows - cursor)"
    have k: "0 < ?k" using True by (simp add: kVectorSize_def)
    have "yields ?N ts (s, rows, cursor + ?k) (drop (cursor + ?k) rows)" using True k by (intro less) simp
    moreover have "\<exists>out'. ?N (s, rows, cursor) out = Some (Inr (out', (s, rows, cursor + ?k))) \<and> chunk_rep out' ts (take ?k (drop cursor rows))"
      if "typed_out ts out" for out
      using emit_rows_rep [OF assms Reset_rep [OF that] True] by auto
    moreover have "take ?k (drop cursor rows) \<noteq> []" "length (take ?k (drop cursor rows)) \<le> kVectorSize" using True k by auto
    ultimately have "yields ?N ts (s, rows, cursor) (take ?k (drop cursor rows) @ drop (cursor + ?k) rows)" by (intro yields.more)
    moreover have "take ?k (drop cursor rows) @ drop (cursor + ?k) rows = drop cursor rows"
      by (metis append_take_drop_id drop_drop add.commute)
    ultimately show ?thesis by simp
  qed
qed

section \<open>What the operators produce\<close>

lemma Filter_rows:
  assumes "produces child s rows" and "fast_safe e (output_types child) rows" and "\<forall>r \<in> set rows. \<exists>v. eval_row e r = Inr v"
  shows "produces (Filter child e) (s, input) (filter (keep e) rows)"
proof -
  obtain s' where s': "Open child s = Some (Inr s')" "yields (Next child) (output_types child) s' rows"
    using assms(1) by (auto simp: produces_def)
  have "yields (Next (Filter child e)) (output_types child) (s', Initialize (output_types child)) (filter (keep e) rows)"
    using filter_yields [OF s'(2) assms(2,3)] by (simp add: Filter_def)
  then show ?thesis using s'(1) by (auto simp: produces_def Filter_def)
qed


text \<open>A scan over batches that are already decoded, as the child of the instances.\<close>

definition list_source :: "ColumnType list \<Rightarrow> Value list list Operator" where
  "list_source ts = \<lparr>output_names = [], output_types = ts, Open = (\<lambda>rows. Some (Inr rows)),
     Next = (\<lambda>rows out. bindO (Some (emit_rows (\<lambda>out row. length (columns out)) rows 0 (Reset out))) (\<lambda>(out', n). Some (Inr (out', drop n rows)))), Close = Inr\<rparr>"

lemma list_source_produces:
  assumes "rows_fit ts rows"
  shows "produces (list_source ts) rows rows"
proof -
  let ?N = "\<lambda>rows out. bindO (Some (emit_rows (\<lambda>out row. length (columns out)) rows 0 (Reset out))) (\<lambda>(out', n). Some (Inr (out', drop n rows)))"
  have "yields ?N ts rows rows" if "rows_fit ts rows" for rows
    using that
  proof (induction "length rows" arbitrary: rows rule: less_induct)
    case less
    show ?case
    proof (cases "rows = []")
      case True
      then show ?thesis by (auto intro!: yields.stop simp: emit_rows_def)
    next
      case False
      let ?k = "min kVectorSize (length rows)"
      have k: "0 < ?k" using False by (simp add: kVectorSize_def)
      have "mset (drop ?k rows) \<subseteq># mset rows" by (metis append_take_drop_id mset_append mset_subset_eq_add_right)
      then have "rows_fit ts (drop ?k rows)" using rows_fit_subset [OF less.prems] by blast
      then have "yields ?N ts (drop ?k rows) (drop ?k rows)" using k False by (intro less) auto
      moreover have "\<exists>out'. ?N rows out = Some (Inr (out', drop ?k rows)) \<and> chunk_rep out' ts (take ?k rows)" if "typed_out ts out" for out
        using emit_rows_rep [OF full_width_simps(1) less.prems Reset_rep [OF that], of 0] False by auto
      moreover have "take ?k rows \<noteq> []" "length (take ?k rows) \<le> kVectorSize" using k False by auto
      ultimately have "yields ?N ts rows (take ?k rows @ drop ?k rows)" by (intro yields.more)
      then show ?thesis by simp
    qed
  qed
  then show ?thesis using assms by (simp add: produces_def list_source_def)
qed


lemma Limit_rows:
  assumes "produces child s rows"
  shows "produces (Limit child) (s, input, n) (take n rows)"
proof -
  obtain s' where s': "Open child s = Some (Inr s')" "yields (Next child) (output_types child) s' rows"
    using assms by (auto simp: produces_def)
  have "yields (Next (Limit child)) (output_types child) (s', Initialize (output_types child), n) (take n rows)"
    using limit_yields [OF s'(2), of "Initialize (output_types child)" n] by (simp add: Limit_def)
  then show ?thesis using s'(1) by (auto simp: produces_def Limit_def)
qed

text \<open>\<open>LIMIT n\<close> passes on exactly the first \<open>n\<close> rows of its child, for every \<open>n\<close>, also when the limit
  falls inside a batch.\<close>

theorem Limit_produces:
  assumes "produces child s rows"
  shows "produces (Limit child) (s, input, n) (take n rows)"
  using assms by (rule Limit_rows)

theorem Limit_produces_witness:
  "produces (Limit (list_source [kInt])) ([[Int32 3], [Int32 8], [Null]], Initialize [], 2) [[Int32 3], [Int32 8]]"
  using Limit_produces [OF list_source_produces, of "[kInt]" "[[Int32 3], [Int32 8], [Null]]" "Initialize []" 2]
  by (simp add: rows_fit_def)

lemma Projection_produces:
  assumes "produces child s rows" and "Projection child sources names = Inr p"
  shows "produces p (s, input) (map (\<lambda>r. map ((!) r) sources) rows)"
proof -
  have src: "\<forall>c \<in> set sources. c < length (output_types child)" using assms(2) by (auto simp: Projection_def split: if_splits)
  obtain s' where s': "Open child s = Some (Inr s')" "yields (Next child) (output_types child) s' rows"
    using assms(1) by (auto simp: produces_def)
  have "yields (Next p) (output_types p) (s', Initialize (output_types child)) (map (\<lambda>r. map ((!) r) sources) rows)"
    using projection_yields [OF s'(2) src, of "Initialize (output_types child)"] assms(2) src by (auto simp: Projection_def)
  then show ?thesis using s'(1) assms(2) src by (auto simp: produces_def Projection_def)
qed

lemma OrderBy_sorts:
  assumes "produces child s rows" and "rows_fit (output_types child) rows" and "key < length (output_types child)"
    and "\<forall>r \<in> set rows. \<not> is_nan_value (r ! key)"
  shows "produces (OrderBy child key desc) (s, [], c) (sort_by (\<lambda>a b. row_less key desc a b = Inr True) rows)"
proof -
  let ?ts = "output_types child" and ?sorted = "sort_by (\<lambda>a b. row_less key desc a b = Inr True) rows"
  have ok: "key_ok (?ts ! key) key rows"
    using assms(2-4) by (auto simp: key_ok_def rows_fit_def list_all2_conv_all_nth)
  note srt = stable_sort_rows [OF ok, of desc]
  obtain s1 where s1: "Open child s = Some (Inr s1)" "yields (Next child) ?ts s1 rows" using assms(1) by (auto simp: produces_def)
  obtain s2 where "drain (Next child) s1 (Initialize ?ts) [] = Some (Inr (rows, s2))"
    using drain_ok [OF s1(2) typed_simps(1), of "[]"] by auto
  then have op: "Open (OrderBy child key desc) (s, [], c) = Some (Inr (s2, ?sorted, 0))" using s1(1) srt(1) by (simp add: OrderBy_def)
  have "rows_fit ?ts ?sorted" by (rule rows_fit_subset [OF assms(2)]) simp
  from emit_yields [OF full_width_simps(1) this, of s2 0] have "yields (Next (OrderBy child key desc)) ?ts (s2, ?sorted, 0) ?sorted"
    by (simp add: OrderBy_def)
  then show ?thesis using op by (auto simp: produces_def OrderBy_def)
qed

lemma OrderBy_rows:
  assumes "produces child s rows" and "rows_fit (output_types child) rows" and "key < length (output_types child)"
    and "\<forall>r \<in> set rows. \<not> is_nan_value (r ! key)"
  shows "\<exists>sorted. produces (OrderBy child key desc) (s, [], c) sorted \<and> mset sorted = mset rows \<and>
    sorted_wrt (\<lambda>a b. \<not> key_less desc (b ! key) (a ! key)) sorted \<and>
    (\<forall>r \<in> set rows. let same = (\<lambda>q. \<not> key_less desc (q ! key) (r ! key) \<and> \<not> key_less desc (r ! key) (q ! key)) in
       filter same sorted = filter same rows)"
proof -
  let ?ts = "output_types child" and ?lt = "\<lambda>a b. row_less key desc a b = Inr True"
  let ?sorted = "sort_by ?lt rows"
  have ok: "key_ok (?ts ! key) key rows"
    using assms(2-4) by (auto simp: key_ok_def rows_fit_def list_all2_conv_all_nth)
  note srt = stable_sort_rows [OF ok, of desc]
  have lt: "?lt a b = key_less desc (a ! key) (b ! key)" if "a \<in> set rows" "b \<in> set rows" for a b
    using ok that row_less_key [of key a b "?ts ! key" desc] by (auto simp: key_ok_def)
  have "produces (OrderBy child key desc) (s, [], c) ?sorted" by (rule OrderBy_sorts [OF assms])
  moreover have "sorted_wrt (\<lambda>a b. \<not> key_less desc (b ! key) (a ! key)) ?sorted"
    using sort_by_sorted [OF srt(2)] by (rule sorted_wrt_mono_rel [rotated]) (simp add: lt)
  moreover have "let same = (\<lambda>q. \<not> key_less desc (q ! key) (r ! key) \<and> \<not> key_less desc (r ! key) (q ! key)) in
       filter same ?sorted = filter same rows" if r: "r \<in> set rows" for r
  proof -
    have "strict_weak ?lt (r # rows)" by (rule strict_weak_subset [OF srt(2)]) (use r in auto)
    from sort_by_stable [OF this] have st: "filter (tie ?lt r) ?sorted = filter (tie ?lt r) rows" .
    let ?same = "\<lambda>q. \<not> key_less desc (q ! key) (r ! key) \<and> \<not> key_less desc (r ! key) (q ! key)"
    have "filter (tie ?lt r) xs = filter ?same xs" if "set xs = set rows" for xs
      by (rule filter_cong) (use that r in \<open>auto simp: tie_def lt\<close>)
    from this [of ?sorted] this [of rows] st show ?thesis by simp
  qed
  ultimately show ?thesis by (intro exI [of _ ?sorted]) simp
qed

text \<open>C21. \<open>ORDER BY\<close> on a key column without NaN produces a permutation of its child's rows, ordered by the key
  in the requested direction (NULL first when ascending, last when descending), in which rows
  with equal keys keep their relative order; the comparison it sorts with is a strict weak
  order, as the library requires.\<close>

theorem OrderBy_produces:
  assumes "produces child s rows" and "rows_fit (output_types child) rows" and "key < length (output_types child)"
    and "\<forall>r \<in> set rows. \<not> is_nan_value (r ! key)"
  shows "\<exists>sorted. produces (OrderBy child key desc) (s, [], c) sorted \<and> mset sorted = mset rows \<and>
    sorted_wrt (\<lambda>a b. \<not> key_less desc (b ! key) (a ! key)) sorted \<and>
    (\<forall>r \<in> set rows. let same = (\<lambda>q. \<not> key_less desc (q ! key) (r ! key) \<and> \<not> key_less desc (r ! key) (q ! key)) in
       filter same sorted = filter same rows)"
  using assms by (rule OrderBy_rows)

theorem OrderBy_produces_witness:
  "\<exists>sorted. produces (OrderBy (list_source [kInt, kBigInt]) 0 True) ([[Int32 3, Int64 1], [Null, Int64 2], [Int32 8, Int64 3]], [], 0) sorted \<and>
    sorted_wrt (\<lambda>a b. \<not> key_less True (b ! 0) (a ! 0)) sorted"
proof -
  let ?rows = "[[Int32 3, Int64 1], [Null, Int64 2], [Int32 8, Int64 3]]"
  have fit: "rows_fit [kInt, kBigInt] ?rows" by (simp add: rows_fit_def less_Suc_eq)
  show ?thesis
    using OrderBy_produces [OF list_source_produces [OF fit], of 0 True 0] fit by (auto simp: list_source_def)
qed

end
