(* ===== verification/Bit_Packing.thy ===== *)
theory Bit_Packing
  imports Vector
begin

unbundle bit_operations_syntax

text \<open>
  The low-level half of \<open>compression/encoding.cpp\<close>: the validity bitmap and the bit-granular
  writer and reader that dictionary indices and frame-of-reference deltas go through. Both are
  related to one specification, the list of the bits of the values in LSB-first order.
\<close>

section \<open>The validity bitmap\<close>

definition ValidityBytes :: "nat \<Rightarrow> nat" where
  "ValidityBytes n = (n + 7) div 8"

definition WriteValidity :: "byte list \<Rightarrow> Value list \<Rightarrow> byte list" where
  "WriteValidity out values =
     (let vb = ValidityBytes (length values); start = length out in
      foldl (\<lambda>o' i. if \<not> IsNull (values ! i)
                    then o'[start + i div 8 := o' ! (start + i div 8) OR push_bit (i mod 8) 1] else o')
        (out @ replicate vb 0) [0..<length values])"

definition TestValidity :: "byte list \<Rightarrow> nat \<Rightarrow> bool result" where
  "TestValidity bitmap i =
     (if i div 8 < length bitmap then Inr (bitmap ! (i div 8) AND push_bit (i mod 8) 1 \<noteq> 0)
      else Inl (Undefined ''bitmap[i / 8]''))"

section \<open>Packing and unpacking\<close>

function BitsLoop :: "u64 \<Rightarrow> nat \<Rightarrow> nat" where
  "BitsLoop max_val b = (if max_val > 0 then BitsLoop (drop_bit 1 max_val) (b + 1) else b)"
  by pat_completeness auto
termination
proof (relation "measure (\<lambda>(m, b). unat m)", goal_cases)
  case (2 m b)
  then have "0 < unat m" by (simp add: unat_gt_0)
  then show ?case by (simp add: drop_bit_eq_div unat_div)
qed simp

declare BitsLoop.simps [simp del]

definition BitsRequired :: "u64 \<Rightarrow> nat" where
  "BitsRequired max_val = (let b = BitsLoop max_val 0 in if b = 0 then 1 else b)"

text \<open>
  The inner loop of \<open>PackBits\<close> for one value. \<open>cur_bits\<close> is below 8 at its head, which
  \<open>PackValue_bits\<close> shows: a full byte is written out at once.
\<close>

function PackValue :: "u64 \<Rightarrow> nat \<Rightarrow> byte \<Rightarrow> nat \<Rightarrow> byte list \<Rightarrow> byte \<times> nat \<times> byte list" where
  "PackValue v remaining cur cur_bits out =
     (if remaining = 0 \<or> 8 \<le> cur_bits then (cur, cur_bits, out)
      else let n = min (8 - cur_bits) remaining;
               bits = (ucast (v AND mask n) :: byte);
               cur' = cur OR push_bit cur_bits bits;
               cur_bits' = cur_bits + n in
        if cur_bits' = 8 then PackValue (drop_bit n v) (remaining - n) 0 0 (out @ [cur'])
        else PackValue (drop_bit n v) (remaining - n) cur' cur_bits' out)"
  by pat_completeness auto
termination by (relation "measure (\<lambda>(v, remaining, cur, cur_bits, out). remaining)") auto

declare PackValue.simps [simp del]

definition PackBits :: "u64 list \<Rightarrow> nat \<Rightarrow> byte list \<Rightarrow> byte list" where
  "PackBits vals bit_width out =
     (if bit_width = 0 then out
      else case foldl (\<lambda>(cur, cur_bits, out) v. PackValue v bit_width cur cur_bits out) (0, 0, out) vals of
          (cur, cur_bits, out') \<Rightarrow> if 0 < cur_bits then out' @ [cur] else out')"

text \<open>
  The reader's state is the input that is left, the current byte and how many of its bits
  are left. Running out of input reads past the buffer, and a shift by 64 or more (from a
  corrupt bit width) is undefined too.
\<close>

fun NextByte :: "byte list \<Rightarrow> byte \<Rightarrow> nat \<Rightarrow> (byte list \<times> byte \<times> nat) option" where
  "NextByte inp cur (Suc n) = Some (inp, cur, Suc n)"
| "NextByte [] cur 0 = None"
| "NextByte (b # inp) cur 0 = Some (inp, b, 8)"

lemma NextByte_pos: "NextByte inp cur n = Some (inp', cur', n') \<Longrightarrow> 0 < n'"
  by (cases "(inp, cur, n)" rule: NextByte.cases) auto

function UnpackValue :: "nat \<Rightarrow> nat \<Rightarrow> u64 \<Rightarrow> byte list \<Rightarrow> byte \<Rightarrow> nat \<Rightarrow> (u64 \<times> byte list \<times> byte \<times> nat) result" where
  "UnpackValue bit_width got val inp cur cur_bits =
     (if bit_width \<le> got then Inr (val, inp, cur, cur_bits)
      else case NextByte inp cur cur_bits of
          None \<Rightarrow> Inl (Undefined ''in[byte_idx]'')
        | Some (inp1, cur1, cur_bits1) \<Rightarrow>
            if 64 \<le> got then Inl (Undefined ''shift by 64 or more'')
            else let n = min cur_bits1 (bit_width - got);
                     bits = (ucast (cur1 AND mask n) :: u64) in
              UnpackValue bit_width (got + n) (val OR push_bit got bits) inp1 (drop_bit n cur1) (cur_bits1 - n))"
  by pat_completeness auto
termination
  by (relation "measure (\<lambda>(bw, got, val, inp, cur, cb). bw - got)") (auto dest: NextByte_pos)

declare UnpackValue.simps [simp del]

fun UnpackLoop :: "nat \<Rightarrow> nat \<Rightarrow> byte list \<Rightarrow> byte \<Rightarrow> nat \<Rightarrow> u64 list result" where
  "UnpackLoop 0 bit_width inp cur cur_bits = Inr []"
| "UnpackLoop (Suc n) bit_width inp cur cur_bits =
     bindR (UnpackValue bit_width 0 0 inp cur cur_bits) (\<lambda>(val, inp1, cur1, cur_bits1).
       bindR (UnpackLoop n bit_width inp1 cur1 cur_bits1) (\<lambda>vals. Inr (val # vals)))"

definition UnpackBits :: "byte list \<Rightarrow> nat \<Rightarrow> nat \<Rightarrow> u64 list result" where
  "UnpackBits inp n bit_width =
     (if bit_width = 0 then Inr (replicate n 0) else UnpackLoop n bit_width inp 0 0)"

section \<open>Bits in order\<close>

definition bits_of :: "nat \<Rightarrow> 'a::len word \<Rightarrow> bool list" where
  "bits_of n x = map (bit x) [0..<n]"

definition byte_bits :: "byte list \<Rightarrow> bool list" where
  "byte_bits bs = concat (map (bits_of 8) bs)"

lemma length_bits [simp]: "length (bits_of n x) = n"
  by (simp add: bits_of_def)

lemma nth_bits [simp]: "i < n \<Longrightarrow> bits_of n x ! i = bit x i"
  by (simp add: bits_of_def)

lemma bits_0 [simp]: "bits_of 0 x = []"
  by (simp add: bits_of_def)

lemma byte_bits_simps [simp]:
  "byte_bits [] = []" "byte_bits (b # bs) = bits_of 8 b @ byte_bits bs" "byte_bits (bs @ cs) = byte_bits bs @ byte_bits cs"
  by (simp_all add: byte_bits_def)

lemma length_byte_bits [simp]: "length (byte_bits bs) = 8 * length bs"
  by (induction bs) simp_all

lemma bits_split: "n \<le> m \<Longrightarrow> bits_of m x = bits_of n x @ bits_of (m - n) (drop_bit n x)"
  by (rule nth_equalityI) (auto simp: nth_append bit_drop_bit_eq)

lemma bits_join:
  assumes "c + n \<le> 8" and "\<And>i. c \<le> i \<Longrightarrow> \<not> bit (cur :: byte) i"
  shows "bits_of (c + n) (cur OR push_bit c (ucast ((v :: u64) AND mask n))) = bits_of c cur @ bits_of n v"
    and "\<And>i. c + n \<le> i \<Longrightarrow> \<not> bit (cur OR push_bit c (ucast (v AND mask n))) i"
proof -
  have "bits_of (c + n) (cur OR push_bit c (ucast (v AND mask n))) ! i = (bits_of c cur @ bits_of n v) ! i" if "i < c + n" for i
    using that assms by (auto simp: nth_append bit_simps)
  then show "bits_of (c + n) (cur OR push_bit c (ucast (v AND mask n))) = bits_of c cur @ bits_of n v"
    by (intro nth_equalityI) simp_all
  show "\<And>i. c + n \<le> i \<Longrightarrow> \<not> bit (cur OR push_bit c (ucast (v AND mask n))) i"
    using assms(2) by (auto simp: bit_simps)
qed

text \<open>The writer appends the bits of the value to the bits it has.\<close>

lemma PackValue_bits:
  assumes "PackValue v remaining cur cur_bits out = (cur', cur_bits', out')"
    and "cur_bits < 8" and "\<And>i. cur_bits \<le> i \<Longrightarrow> \<not> bit cur i"
  shows "byte_bits out' @ bits_of cur_bits' cur' = byte_bits out @ bits_of cur_bits cur @ bits_of remaining v \<and>
    cur_bits' < 8 \<and> (\<forall>i\<ge>cur_bits'. \<not> bit cur' i) \<and> take (length out) out' = out"
  using assms
proof (induction v remaining cur cur_bits out rule: PackValue.induct)
  case (1 v remaining cur cur_bits out)
  show ?case
  proof (cases "remaining = 0")
    case True
    then show ?thesis using "1.prems" by (auto simp: PackValue.simps [of v 0])
  next
    case False
    let ?n = "min (8 - cur_bits) remaining"
    let ?cur = "cur OR push_bit cur_bits (ucast (v AND mask ?n))"
    have g: "\<not> (remaining = 0 \<or> 8 \<le> cur_bits)" using False "1.prems"(2) by simp
    have le: "cur_bits + ?n \<le> 8" using "1.prems"(2) by simp
    note j = bits_join [OF le "1.prems"(3)]
    have sp: "bits_of remaining v = bits_of ?n v @ bits_of (remaining - ?n) (drop_bit ?n v)" by (rule bits_split) simp
    show ?thesis
    proof (cases "cur_bits + ?n = 8")
      case True
      then have "PackValue (drop_bit ?n v) (remaining - ?n) 0 0 (out @ [?cur]) = (cur', cur_bits', out')"
        using "1.prems"(1) g by (simp add: PackValue.simps [of v remaining] Let_def)
      from "1.IH"(1) [OF g refl refl refl refl True this] j(1) True sp show ?thesis
        by (auto simp: take_append dest: arg_cong [of _ _ "take (length out)"])
    next
      case ne: False
      then have "PackValue (drop_bit ?n v) (remaining - ?n) ?cur (cur_bits + ?n) out = (cur', cur_bits', out')"
        using "1.prems"(1) g by (simp add: PackValue.simps [of v remaining] Let_def)
      from "1.IH"(2) [OF g refl refl refl refl ne this] j le ne sp show ?thesis by simp
    qed
  qed
qed

lemma PackFold_bits:
  assumes "foldl (\<lambda>(cur, cur_bits, out) v. PackValue v w cur cur_bits out) (cur, cur_bits, out) vals = (cur', cur_bits', out')"
    and "cur_bits < 8" and "\<And>i. cur_bits \<le> i \<Longrightarrow> \<not> bit cur i"
  shows "byte_bits out' @ bits_of cur_bits' cur' = byte_bits out @ bits_of cur_bits cur @ concat (map (bits_of w) vals) \<and>
    cur_bits' < 8 \<and> (\<forall>i\<ge>cur_bits'. \<not> bit cur' i) \<and> (\<exists>new. out' = out @ new)"
  using assms
proof (induction vals arbitrary: cur cur_bits out)
  case (Cons v vals)
  obtain c1 n1 o1 where p: "PackValue v w cur cur_bits out = (c1, n1, o1)" by (metis prod_cases3)
  have s: "byte_bits o1 @ bits_of n1 c1 = byte_bits out @ bits_of cur_bits cur @ bits_of w v" "n1 < 8" "\<And>i. n1 \<le> i \<Longrightarrow> \<not> bit c1 i"
    "take (length out) o1 = out" using PackValue_bits [OF p Cons.prems(2,3)] by auto
  have f: "foldl (\<lambda>(cur, cur_bits, out) v. PackValue v w cur cur_bits out) (c1, n1, o1) vals = (cur', cur_bits', out')"
    using Cons.prems(1) p by simp
  have "\<exists>n. o1 = out @ n" using s(4) by (metis append_take_drop_id)
  then show ?case using Cons.IH [OF f s(2,3)] s(1) by (metis append.assoc concat.simps(2) list.map(2))
qed auto

lemma bits_pad:
  assumes "n \<le> m" and "\<forall>i\<ge>n. \<not> bit x i"
  shows "bits_of m x = bits_of n x @ replicate (m - n) False"
  using assms by (intro nth_equalityI) (auto simp: nth_append)

lemma PackBits_bits:
  obtains new k where "PackBits vals w out = out @ new" "k < 8"
    "byte_bits new = concat (map (bits_of w) vals) @ replicate k False"
proof (cases "w = 0")
  case True
  then have "PackBits vals w out = out @ []" by (simp add: PackBits_def)
  then show ?thesis using True that [of "[]" 0] by simp
next
  case False
  obtain cur n o' where f: "foldl (\<lambda>(cur, cur_bits, out) v. PackValue v w cur cur_bits out) (0, 0, out) vals = (cur, n, o')"
    by (metis prod_cases3)
  obtain new where o': "o' = out @ new" and nb: "byte_bits new @ bits_of n cur = concat (map (bits_of w) vals)"
    and n: "n < 8" "\<forall>i\<ge>n. \<not> bit cur i"
    using PackFold_bits [OF f] by auto
  show ?thesis
  proof (cases "0 < n")
    case True
    have "byte_bits (new @ [cur]) = concat (map (bits_of w) vals) @ replicate (8 - n) False"
      using bits_pad [OF less_imp_le [OF n(1)] n(2)] nb by simp
    then show ?thesis using that [of "new @ [cur]" "8 - n"] False True f o' n by (simp add: PackBits_def)
  next
    case no: False
    then show ?thesis using that [of new 0] False f o' nb by (simp add: PackBits_def)
  qed
qed

lemma PackBits_append: "PackBits vals w out = out @ PackBits vals w []"
proof -
  have "PackBits vals w (out @ out2) = out @ PackBits vals w out2" for out2
  proof -
    have pv: "PackValue v r c n (out @ o') = (case PackValue v r c n o' of (c, n, o'') \<Rightarrow> (c, n, out @ o''))" for v r c n o'
      by (induction v r c n o' rule: PackValue.induct) (simp add: PackValue.simps [of _ _ _ _ "out @ _"] PackValue.simps Let_def)
    have "foldl (\<lambda>(cur, cur_bits, out) v. PackValue v w cur cur_bits out) (c, n, out @ o') vals =
      (case foldl (\<lambda>(cur, cur_bits, out) v. PackValue v w cur cur_bits out) (c, n, o') vals of (c, n, o'') \<Rightarrow> (c, n, out @ o''))" for c n o'
      by (induction vals arbitrary: c n o') (auto simp: pv split: prod.splits)
    then show ?thesis by (auto simp: PackBits_def split: prod.splits)
  qed
  from this [of "[]"] show ?thesis by simp
qed

lemma length_PackBits: "length (PackBits vals w []) = (length vals * w + 7) div 8"
proof -
  obtain new k where p: "PackBits vals w [] = new" "k < 8" "byte_bits new = concat (map (bits_of w) vals) @ replicate k False"
    by (rule PackBits_bits [of vals w "[]"]) simp
  have "8 * length new = length vals * w + k"
    using arg_cong [OF p(3), of length] length_concat_blocks [of vals "bits_of w" w] by simp
  then show ?thesis using p(1,2) by simp
qed

text \<open>The reader takes the next bits off the front of what is left.\<close>

lemma NextByte_bits:
  assumes "0 < n + length inp" and "n \<le> 8"
  obtains inp' cur' n' where "NextByte inp cur n = Some (inp', cur', n')" "n' \<le> 8" "0 < n'"
    "bits_of n' cur' @ byte_bits inp' = bits_of n cur @ byte_bits inp"
proof (cases n)
  case 0
  then show ?thesis using assms that by (cases inp) auto
next
  case (Suc m)
  then show ?thesis using assms that by auto
qed

lemma bits_gather:
  assumes "got + k \<le> 64" and "k \<le> 8" and "\<And>i. got \<le> i \<Longrightarrow> \<not> bit (val :: u64) i"
  shows "bits_of (got + k) (val OR push_bit got (ucast ((c :: byte) AND mask k))) = bits_of got val @ bits_of k c"
  using assms by (intro nth_equalityI) (auto simp: nth_append bit_simps)

lemma UnpackValue_bits:
  assumes "w \<le> 64" "got \<le> w" "n \<le> 8" "w - got \<le> n + 8 * length inp" "\<And>i. got \<le> i \<Longrightarrow> \<not> bit val i"
  shows "\<exists>val' inp' cur' n'. UnpackValue w got val inp cur n = Inr (val', inp', cur', n') \<and> n' \<le> 8 \<and>
    bits_of n' cur' @ byte_bits inp' = drop (w - got) (bits_of n cur @ byte_bits inp) \<and>
    bits_of w val' = bits_of got val @ take (w - got) (bits_of n cur @ byte_bits inp) \<and> (\<forall>i\<ge>w. \<not> bit val' i)"
  using assms
proof (induction w got val inp cur n rule: UnpackValue.induct)
  case (1 w got val inp cur n)
  show ?case
  proof (cases "w \<le> got")
    case True
    then show ?thesis using "1.prems" by (auto simp: UnpackValue.simps [of got got])
  next
    case False
    have "0 < n + length inp" using "1.prems"(4) False by (cases inp) auto
    from NextByte_bits [OF this "1.prems"(3)] obtain inp1 cur1 n1 where
      nb: "NextByte inp cur n = Some (inp1, cur1, n1)" "n1 \<le> 8" "0 < n1"
        "bits_of n1 cur1 @ byte_bits inp1 = bits_of n cur @ byte_bits inp" by blast
    let ?k = "min n1 (w - got)"
    let ?val = "val OR push_bit got (ucast (cur1 AND mask ?k))"
    have len: "n1 + 8 * length inp1 = n + 8 * length inp" using arg_cong [OF nb(4), of length] by simp
    have k: "0 < ?k" "got + ?k \<le> w" "?k \<le> n1" using nb(3) False by auto
    have sp: "bits_of n1 cur1 = bits_of ?k cur1 @ bits_of (n1 - ?k) (drop_bit ?k cur1)" by (rule bits_split) simp
    have vb: "bits_of (got + ?k) ?val = bits_of got val @ bits_of ?k cur1"
      by (rule bits_gather) (use "1.prems"(1,5) k nb(2) in auto)
    have hi: "\<not> bit ?val i" if "got + ?k \<le> i" for i using that "1.prems"(5) [of i] by (auto simp: bit_simps)
    have g: "\<not> 64 \<le> got" using False "1.prems"(1) by simp
    have dr: "bits_of (n1 - ?k) (drop_bit ?k cur1) @ byte_bits inp1 = drop ?k (bits_of n cur @ byte_bits inp)"
      and tk: "bits_of ?k cur1 = take ?k (bits_of n cur @ byte_bits inp)"
      unfolding nb(4) [symmetric] sp by simp_all
    have "n1 - ?k \<le> 8" "w - (got + ?k) \<le> n1 - ?k + 8 * length inp1" using nb(2) len "1.prems"(4) k by auto
    from "1.IH" [OF False nb(1) refl refl g refl refl "1.prems"(1) k(2) this hi]
    obtain val' inp' cur' n' where
      r: "UnpackValue w (got + ?k) ?val inp1 (drop_bit ?k cur1) (n1 - ?k) = Inr (val', inp', cur', n')" "n' \<le> 8"
        "bits_of n' cur' @ byte_bits inp' = drop (w - (got + ?k)) (drop ?k (bits_of n cur @ byte_bits inp))"
        "bits_of w val' = bits_of (got + ?k) ?val @ take (w - (got + ?k)) (drop ?k (bits_of n cur @ byte_bits inp))"
        "\<forall>i\<ge>w. \<not> bit val' i"
      unfolding dr by blast
    have t: "take (w - got) S = take ?k S @ take (w - (got + ?k)) (drop ?k S)" for S :: "bool list"
      using k by (metis diff_diff_left le_add_diff_inverse min.cobounded2 take_add)
    have d: "drop (w - (got + ?k)) (drop ?k S) = drop (w - got) S" for S :: "bool list" using k by (simp add: add.commute)
    have "bits_of w val' = bits_of got val @ take (w - got) (bits_of n cur @ byte_bits inp)"
      unfolding r(4) vb tk t [of "bits_of n cur @ byte_bits inp"] by (simp only: append.assoc)
    moreover have "bits_of n' cur' @ byte_bits inp' = drop (w - got) (bits_of n cur @ byte_bits inp)"
      unfolding r(3) d ..
    ultimately show ?thesis using r(1,2,5) False nb(1) g by (auto simp: UnpackValue.simps [of w got] Let_def)
  qed
qed

lemma UnpackLoop_bits:
  assumes "w \<le> 64" "n \<le> 8" "bits_of n cur @ byte_bits inp = concat (map (bits_of w) vals) @ rest"
  shows "UnpackLoop (length vals) w inp cur n = Inr (map (take_bit w) vals)"
  using assms
proof (induction vals arbitrary: inp cur n)
  case (Cons v vals)
  let ?S = "bits_of n cur @ byte_bits inp"
  have S: "?S = bits_of w v @ concat (map (bits_of w) vals) @ rest" using Cons.prems(3) by simp
  have len: "w - 0 \<le> n + 8 * length inp" using arg_cong [OF S, of length] by simp
  obtain val inp1 cur1 n1 where u: "UnpackValue w 0 0 inp cur n = Inr (val, inp1, cur1, n1)" "n1 \<le> 8"
    "bits_of n1 cur1 @ byte_bits inp1 = drop w ?S" "bits_of w val = take w ?S" "\<forall>i\<ge>w. \<not> bit val i"
    using UnpackValue_bits [OF Cons.prems(1) le0 Cons.prems(2) len, of 0 cur] by auto
  have bv: "bits_of w val = bits_of w v" using u(4) S by simp
  have "val = take_bit w v"
  proof (rule bit_eqI)
    fix i
    show "bit val i = bit (take_bit w v) i"
      using u(5) nth_bits [of i w val] nth_bits [of i w v] bv by (cases "i < w") (auto simp: bit_take_bit_iff)
  qed
  moreover have "bits_of n1 cur1 @ byte_bits inp1 = concat (map (bits_of w) vals) @ rest" using u(3) S by simp
  ultimately show ?case using Cons.IH [OF Cons.prems(1) u(2)] u(1) by simp
qed simp

lemma UnpackBits_PackBits:
  assumes "w \<le> 64"
  shows "UnpackBits (PackBits vals w [] @ rest) (length vals) w = Inr (map (take_bit w) vals)"
proof (cases "w = 0")
  case True
  then show ?thesis by (simp add: UnpackBits_def map_replicate_const [symmetric])
next
  case False
  obtain k where p: "byte_bits (PackBits vals w []) = concat (map (bits_of w) vals) @ replicate k False"
    by (rule PackBits_bits [of vals w "[]"]) auto
  have "bits_of 0 (0 :: byte) @ byte_bits (PackBits vals w [] @ rest) =
      concat (map (bits_of w) vals) @ (replicate k False @ byte_bits rest)" by (simp add: p)
  from UnpackLoop_bits [OF assms _ this] show ?thesis using False by (simp add: UnpackBits_def)
qed

lemma BitsLoop_bound:
  "\<exists>k. BitsLoop m b = b + k \<and> unat m < 2 ^ k \<and> (0 < k \<longrightarrow> 2 ^ (k - 1) \<le> unat m)"
proof (induction m b rule: BitsLoop.induct)
  case (1 m b)
  show ?case
  proof (cases "0 < m")
    case True
    from "1.IH" [OF True] obtain k where k: "BitsLoop (drop_bit 1 m) (b + 1) = b + 1 + k" "unat m div 2 < 2 ^ k"
      "0 < k \<longrightarrow> 2 ^ (k - 1) \<le> unat m div 2" by (auto simp: drop_bit_eq_div unat_div)
    have "0 < unat m" using True by (simp add: unat_gt_0)
    then have "2 ^ k \<le> unat m" using k(3) by (cases k) auto
    moreover have "unat m < 2 ^ (k + 1)" using k(2) by simp
    ultimately show ?thesis using k(1) True by (intro exI [of _ "k + 1"]) (simp add: BitsLoop.simps [of m])
  next
    case False
    then show ?thesis by (simp add: BitsLoop.simps [of 0] word_gt_0)
  qed
qed

lemma BitsRequired_bounds:
  "unat m < 2 ^ BitsRequired m" "1 \<le> BitsRequired m" "BitsRequired m \<le> 64"
  "1 < BitsRequired m \<Longrightarrow> 2 ^ (BitsRequired m - 1) \<le> unat m"
proof -
  obtain k where k: "BitsLoop m 0 = k" "unat m < 2 ^ k" "0 < k \<longrightarrow> 2 ^ (k - 1) \<le> unat m"
    using BitsLoop_bound [of m 0] by auto
  show b: "unat m < 2 ^ BitsRequired m" "1 \<le> BitsRequired m" "1 < BitsRequired m \<Longrightarrow> 2 ^ (BitsRequired m - 1) \<le> unat m"
    using k by (auto simp: BitsRequired_def Let_def)
  have "k \<le> 64"
  proof (rule ccontr)
    assume "\<not> k \<le> 64"
    then have "(2 :: nat) ^ 64 \<le> 2 ^ (k - 1)" by (intro power_increasing) simp_all
    also have "\<dots> \<le> unat m" using k(3) \<open>\<not> k \<le> 64\<close> by simp
    finally show False using unsigned_less [of m, where ?'a = nat] by simp
  qed
  then show "BitsRequired m \<le> 64" using k(1) by (simp add: BitsRequired_def Let_def)
qed

lemma take_bit_small: "unat (v :: u64) < 2 ^ w \<Longrightarrow> take_bit w v = v"
  by (simp add: word_unat_eq_iff unsigned_take_bit_eq take_bit_nat_eq_self)

section \<open>The packer as an interface\<close>

text \<open>What the dictionary and the frame-of-reference encodings rely on.\<close>

locale bit_packer =
  fixes pack :: "u64 list \<Rightarrow> nat \<Rightarrow> byte list"
    and unpack :: "byte list \<Rightarrow> nat \<Rightarrow> nat \<Rightarrow> u64 list result"
    and width :: "u64 \<Rightarrow> nat"
  assumes unpack_pack: "w \<le> 64 \<Longrightarrow> unpack (pack vs w @ rest) (length vs) w = Inr (map (take_bit w) vs)"
    and width_le: "width m \<le> 64"
    and width_fits: "v \<le> m \<Longrightarrow> take_bit (width m) v = v"
begin

lemma bounded:
  assumes "\<And>v. v \<in> set vs \<Longrightarrow> v \<le> m"
  shows "unpack (pack vs (width m) @ rest) (length vs) (width m) = Inr vs"
  using unpack_pack [OF width_le, of vs m rest] assms width_fits by (simp add: map_idI)

lemma zeros: "unpack (pack (replicate n 0) 0 @ rest) n 0 = Inr (replicate n 0)"
  using unpack_pack [of 0 "replicate n 0" rest] by simp

end

interpretation bp: bit_packer "\<lambda>vs w. PackBits vs w []" UnpackBits BitsRequired
proof unfold_locales
  fix v m :: u64
  assume "v \<le> m"
  then have "unat v < 2 ^ BitsRequired m" using BitsRequired_bounds(1) [of m] by (simp add: word_le_nat_alt)
  then show "take_bit (BitsRequired m) v = v" by (rule take_bit_small)
qed (use UnpackBits_PackBits BitsRequired_bounds(3) in auto)

section \<open>The bitmap\<close>

lemma WriteValidity_bits:
  "\<exists>bm. WriteValidity out values = out @ bm \<and> length bm = ValidityBytes (length values) \<and>
    (\<forall>j<length values. bit (bm ! (j div 8)) (j mod 8) = (\<not> IsNull (values ! j)))"
proof -
  let ?n = "length values" and ?vb = "ValidityBytes (length values)"
  let ?f = "\<lambda>o' i. if \<not> IsNull (values ! i)
      then o'[length out + i div 8 := o' ! (length out + i div 8) OR push_bit (i mod 8) (1 :: byte)] else o'"
  have "\<exists>bm. foldl ?f (out @ replicate ?vb 0) [0..<k] = out @ bm \<and> length bm = ?vb \<and>
      (\<forall>j<?n. bit (bm ! (j div 8)) (j mod 8) = (j < k \<and> \<not> IsNull (values ! j)))" if "k \<le> ?n" for k
    using that
  proof (induction k)
    case 0
    have "j div 8 < ?vb" if "j < ?n" for j using that by (simp add: ValidityBytes_def)
    then show ?case by (intro exI [of _ "replicate ?vb 0"]) auto
  next
    case (Suc k)
    then obtain bm where bm: "foldl ?f (out @ replicate ?vb 0) [0..<k] = out @ bm" "length bm = ?vb"
      "\<And>j. j < ?n \<Longrightarrow> bit (bm ! (j div 8)) (j mod 8) = (j < k \<and> \<not> IsNull (values ! j))" by auto
    have kv: "k div 8 < ?vb" using Suc.prems by (simp add: ValidityBytes_def)
    show ?case
    proof (cases "IsNull (values ! k)")
      case True
      then show ?thesis using bm by (intro exI [of _ bm]) (auto simp: less_Suc_eq)
    next
      case False
      let ?bm = "bm[k div 8 := bm ! (k div 8) OR push_bit (k mod 8) 1]"
      have "bit (?bm ! (j div 8)) (j mod 8) = (j < Suc k \<and> \<not> IsNull (values ! j))" if "j < ?n" for j
      proof (cases "j div 8 = k div 8")
        case True
        have "j mod 8 = k mod 8 \<longleftrightarrow> j = k" using True by (metis div_mult_mod_eq)
        moreover have "bit (push_bit (k mod 8) (1 :: byte)) (j mod 8) = (j mod 8 = k mod 8)"
          by (auto simp: bit_simps)
        ultimately show ?thesis using bm(3) [OF that] bm(2) kv True False by (auto simp: bit_or_iff less_Suc_eq)
      next
        case ne: False
        then show ?thesis using bm(3) [OF that] by (auto simp: less_Suc_eq)
      qed
      moreover have "foldl ?f (out @ replicate ?vb 0) [0..<Suc k] = out @ ?bm"
        using bm(1) False by (simp add: list_update_append nth_append)
      ultimately show ?thesis using bm(2) by (intro exI [of _ ?bm]) auto
    qed
  qed
  from this [of ?n] show ?thesis by (auto simp: WriteValidity_def Let_def)
qed

lemma WriteValidity_append: "WriteValidity out values = out @ WriteValidity [] values"
proof -
  have "foldl (\<lambda>o' i. if \<not> IsNull (values ! i)
      then o'[length out + i div 8 := o' ! (length out + i div 8) OR push_bit (i mod 8) (1 :: byte)] else o') (out @ bm) js =
    out @ foldl (\<lambda>o' i. if \<not> IsNull (values ! i)
      then o'[0 + i div 8 := o' ! (0 + i div 8) OR push_bit (i mod 8) (1 :: byte)] else o') bm js" for bm js
    by (induction js arbitrary: bm) (simp_all add: list_update_append nth_append)
  then show ?thesis by (simp add: WriteValidity_def Let_def)
qed

lemma length_WriteValidity [simp]: "length (WriteValidity [] values) = ValidityBytes (length values)"
  using WriteValidity_bits [of "[]" "values"] by auto

lemma TestValidity_Write:
  assumes "i < length values"
  shows "TestValidity (WriteValidity [] values @ rest) i = Inr (\<not> IsNull (values ! i))"
proof -
  obtain bm where bm: "WriteValidity [] values = bm" "length bm = ValidityBytes (length values)"
    "bit (bm ! (i div 8)) (i mod 8) = (\<not> IsNull (values ! i))"
    using WriteValidity_bits [of "[]" "values"] assms by auto
  have "i div 8 < length bm" using assms bm(2) by (simp add: ValidityBytes_def)
  then show ?thesis using bm by (simp add: TestValidity_def nth_append bit_iff_and_push_bit_not_eq_0)
qed

section \<open>Properties\<close>

text \<open>C29. Packing values into \<open>w\<close> bits each and unpacking them gives them back, for every
  width up to 64 and whatever follows in the buffer; the packed form has
  \<open>\<lceil>n * w / 8\<rceil>\<close> bytes and what was in the output before is kept.\<close>

theorem pack_round_trip:
  assumes "w \<le> 64" and "\<And>v. v \<in> set vals \<Longrightarrow> unat v < 2 ^ w"
  shows "\<exists>packed. PackBits vals w out = out @ packed \<and> length packed = (length vals * w + 7) div 8 \<and>
    UnpackBits (packed @ rest) (length vals) w = Inr vals"
  using UnpackBits_PackBits [OF assms(1), of vals rest] assms(2) PackBits_append [of vals w out] length_PackBits [of vals w]
  by (simp add: take_bit_small map_idI)

theorem pack_round_trip_witness:
  "\<exists>packed. PackBits [5, 0, 7, 2 :: u64] 3 [9] = [9] @ packed \<and> length packed = (length [5, 0, 7, 2 :: u64] * 3 + 7) div 8 \<and>
    UnpackBits (packed @ [1]) (length [5, 0, 7, 2 :: u64]) 3 = Inr [5, 0, 7, 2]"
  by (rule pack_round_trip) auto

text \<open>\<open>BitsRequired\<close> is the smallest width, and at least one bit, that holds every value
  up to the given one.\<close>

theorem BitsRequired_least:
  "BitsRequired m = (LEAST w. 1 \<le> w \<and> (\<forall>v\<le>m. unat v < 2 ^ w))"
proof (rule Least_equality [symmetric])
  show "1 \<le> BitsRequired m \<and> (\<forall>v\<le>m. unat v < 2 ^ BitsRequired m)"
    using BitsRequired_bounds(1,2) [of m] by (auto simp: word_le_nat_alt)
next
  fix w
  assume w: "1 \<le> w \<and> (\<forall>v\<le>m. unat v < 2 ^ w)"
  show "BitsRequired m \<le> w"
  proof (rule ccontr)
    assume n: "\<not> BitsRequired m \<le> w"
    then have "(2 :: nat) ^ w \<le> 2 ^ (BitsRequired m - 1)" by (intro power_increasing) simp_all
    also have "\<dots> \<le> unat m" using BitsRequired_bounds(4) [of m] n w by simp
    finally show False using w by auto
  qed
qed

theorem BitsRequired_least_witness: "BitsRequired 5 = (LEAST w. 1 \<le> w \<and> (\<forall>v\<le>5. unat (v :: u64) < 2 ^ w))"
  by (rule BitsRequired_least)

text \<open>The validity bitmap has one bit per row, rounded up to bytes, and testing a row's bit
  tells whether the row is not NULL, whatever follows the bitmap.\<close>

theorem validity_round_trip:
  "\<exists>bitmap. WriteValidity out vals = out @ bitmap \<and> length bitmap = (length vals + 7) div 8 \<and>
    (\<forall>i<length vals. TestValidity (bitmap @ rest) i = Inr (vals ! i \<noteq> Null))"
  using WriteValidity_append [of out vals] TestValidity_Write [of _ vals rest] length_WriteValidity [of vals]
  by (auto simp: ValidityBytes_def IsNull_def)

theorem validity_round_trip_witness:
  "\<exists>bitmap. WriteValidity [3] [Null, Int32 0, Str []] = [3] @ bitmap \<and> length bitmap = (length [Null, Int32 0, Str []] + 7) div 8 \<and>
    (\<forall>i<length [Null, Int32 0, Str []]. TestValidity (bitmap @ [7]) i = Inr ([Null, Int32 0, Str []] ! i \<noteq> Null))"
  by (rule validity_round_trip)

end
