(* ===== verification/Encoding.thy ===== *)
theory Encoding
  imports Bit_Packing
begin

text \<open>
  Column compression (\<open>compression/encoding.cpp\<close>): the four encodings, the choice of the
  smallest one with the zone map, and decoding. Payloads are byte lists; a decoder's pointer
  \<open>p\<close> is the whole payload and its cursor is the rest of it.
\<close>

section \<open>Chunks\<close>

text \<open>An \<open>enum class\<close> over \<open>uint8_t\<close> can also hold a byte that names no encoding.\<close>

datatype Encoding = kPlain | kRle | kDictionary | kBitpack | kUnnamed byte

fun encoding_byte :: "Encoding \<Rightarrow> byte" where
  "encoding_byte kPlain = 0"
| "encoding_byte kRle = 1"
| "encoding_byte kDictionary = 2"
| "encoding_byte kBitpack = 3"
| "encoding_byte (kUnnamed b) = b"

definition encoding_of_byte :: "byte \<Rightarrow> Encoding" where
  "encoding_of_byte b = (if b = 0 then kPlain else if b = 1 then kRle else if b = 2 then kDictionary
     else if b = 3 then kBitpack else kUnnamed b)"

fun EncodingName :: "Encoding \<Rightarrow> string" where
  "EncodingName kPlain = ''plain''"
| "EncodingName kRle = ''rle''"
| "EncodingName kDictionary = ''dictionary''"
| "EncodingName kBitpack = ''bitpack''"
| "EncodingName (kUnnamed b) = ''?''"

record EncodedChunk =
  encoding :: Encoding
  num_rows :: u32
  null_count :: u32
  has_zone_map :: bool
  min_value :: "64 word"
  max_value :: "64 word"
  payload :: "byte list"

definition new_chunk :: "Encoding \<Rightarrow> byte list \<Rightarrow> EncodedChunk" where
  "new_chunk e p = \<lparr>encoding = e, num_rows = 0, null_count = 0, has_zone_map = False, min_value = 0, max_value = 0, payload = p\<rparr>"

abbreviation Get :: "byte list \<Rightarrow> ('a::len word \<times> byte list) result" where
  "Get \<equiv> GetPod ''encoding: truncated payload''"

fun AsI64 :: "Value \<Rightarrow> 64 word result" where
  "AsI64 (Int32 x) = Inr (scast x)"
| "AsI64 (Int64 x) = Inr x"
| "AsI64 _ = Inl (RuntimeError ''encoding: expected integer value'')"

definition AsDouble :: "Value \<Rightarrow> double result" where
  "AsDouble v = get_double v"

section \<open>Plain\<close>

definition PlainString :: "u32 list \<times> byte list \<times> u32 \<Rightarrow> Value \<Rightarrow> (u32 list \<times> byte list \<times> u32) result" where
  "PlainString st v = (case st of (offsets, bytes, cur) \<Rightarrow>
     if IsNull v then Inr (offsets @ [cur], bytes, cur)
     else bindR (get_string v) (\<lambda>s. let cur' = cur + word_of_nat (length s) in
       Inr (offsets @ [cur'], bytes @ bytes_of_string s, cur')))"

definition PlainSlot :: "ColumnType \<Rightarrow> byte list \<Rightarrow> Value \<Rightarrow> byte list result" where
  "PlainSlot t p v =
     (if IsNull v then Inr (p @ replicate (FixedWidth t) 0)
      else if t = kFloat then bindR (AsDouble v) (\<lambda>d. Inr (p @ PutPod d))
      else if t = kInt then bindR (AsI64 v) (\<lambda>x. Inr (p @ PutPod (ucast x :: 32 word)))
      else bindR (AsI64 v) (\<lambda>x. Inr (p @ PutPod x)))"

definition EncodePlain :: "ColumnType \<Rightarrow> Value list \<Rightarrow> EncodedChunk result" where
  "EncodePlain t values =
     (let validity = WriteValidity [] values in
      if t = kVarchar then
        bindR (foldR PlainString ([0], [], 0) values) (\<lambda>(offsets, bytes, cur).
          Inr (new_chunk kPlain (validity @ concat (map PutPod offsets) @ bytes)))
      else bindR (foldR (PlainSlot t) validity values) (\<lambda>p. Inr (new_chunk kPlain p)))"

text \<open>\<open>memcpy\<close> of an integer out of the payload.\<close>

definition PeekPod :: "byte list \<Rightarrow> nat \<Rightarrow> 'a::len word result" where
  "PeekPod p off =
     (let w = sizeof_word TYPE('a word) in
      if off + w \<le> length p then Inr (pod_of_bytes (read_at off w p)) else Inl (Undefined ''read past the payload''))"

definition PlainStringAt :: "byte list \<Rightarrow> nat \<Rightarrow> nat \<Rightarrow> vec \<Rightarrow> nat \<Rightarrow> vec result" where
  "PlainStringAt p offbase strbase out i =
     bindR (TestValidity p i) (\<lambda>valid. if \<not> valid then Inr (AppendNull out)
       else bindR (PeekPod p (offbase + i * 4) :: u32 result) (\<lambda>b.
            bindR (PeekPod p (offbase + (i + 1) * 4) :: u32 result) (\<lambda>e.
            let n = unat (e - b) in
            if strbase + unat b + n \<le> length p
            then Inr (AppendString out (string_of_bytes (read_at (strbase + unat b) n p)))
            else Inl (Undefined ''string past the payload''))))"

definition PlainSlotAt :: "ColumnType \<Rightarrow> byte list \<Rightarrow> nat \<Rightarrow> vec \<Rightarrow> nat \<Rightarrow> vec result" where
  "PlainSlotAt t p cur out i =
     (let w = FixedWidth t; slot = cur + i * w in
      if length p < slot + w then Inl (RuntimeError ''encoding: plain underflow'')
      else bindR (TestValidity p i) (\<lambda>valid. if \<not> valid then Inr (AppendNull out)
        else if t = kInt then bindR (PeekPod p slot) (\<lambda>v. Inr (AppendInt32 out v))
        else if t = kBigInt then bindR (PeekPod p slot) (\<lambda>v. Inr (AppendInt64 out v))
        else bindR (PeekPod p slot) (\<lambda>v. Inr (AppendDouble out v))))"

definition DecodePlain :: "ColumnType \<Rightarrow> u32 \<Rightarrow> byte list \<Rightarrow> vec \<Rightarrow> vec result" where
  "DecodePlain t n p out =
     (let cur = ValidityBytes (unat n) in
      if t = kVarchar then foldR (PlainStringAt p cur (cur + unat (n + 1) * 4)) out [0..<unat n]
      else foldR (PlainSlotAt t p cur) out [0..<unat n])"

section \<open>Run-length\<close>

definition slot_bits :: "ColumnType \<Rightarrow> Value \<Rightarrow> u64 result" where
  "slot_bits t v = (if IsNull v then Inr 0 else if t = kFloat then AsDouble v else AsI64 v)"

function Runs :: "u64 list \<Rightarrow> (u64 \<times> nat) list" where
  "Runs [] = []"
| "Runs (v # xs) = (let len = length (takeWhile (\<lambda>x. x = v) xs) in (v, Suc len) # Runs (drop len xs))"
  by pat_completeness auto
termination by (relation "measure length") auto

text \<open>
  The run length is counted in a \<open>uint32_t\<close>: a run of \<open>2 ^ 32\<close> rows wraps the counter to 0
  and the loop never ends, which is undefined as well.
\<close>

definition EncodeRle :: "ColumnType \<Rightarrow> Value list \<Rightarrow> EncodedChunk result" where
  "EncodeRle t values =
     bindR (mapR (slot_bits t) values) (\<lambda>slots.
       let runs = Runs slots in
       if (\<exists>r\<in>set runs. 2 ^ 32 \<le> snd r) then Inl (Undefined ''endless run'')
       else Inr (new_chunk kRle
         (WriteValidity [] values @ PutPod (word_of_nat (length runs) :: u32) @
          concat (map (\<lambda>(val, len). (if FixedWidth t = 4 then PutPod (ucast val :: 32 word) else PutPod val) @
                                    PutPod (word_of_nat len :: u32)) runs))))"

definition RleRow :: "ColumnType \<Rightarrow> byte list \<Rightarrow> u64 \<Rightarrow> u32 \<Rightarrow> vec \<Rightarrow> vec result" where
  "RleRow t p bits row out =
     bindR (TestValidity p (unat row)) (\<lambda>valid. Inr (
       if \<not> valid then AppendNull out
       else if t = kInt then AppendInt32 out (ucast bits)
       else if t = kBigInt then AppendInt64 out bits
       else AppendDouble out bits))"

fun RleRun :: "ColumnType \<Rightarrow> byte list \<Rightarrow> u64 \<Rightarrow> nat \<Rightarrow> u32 \<Rightarrow> vec \<Rightarrow> (u32 \<times> vec) result" where
  "RleRun t p bits 0 row out = Inr (row, out)"
| "RleRun t p bits (Suc k) row out = bindR (RleRow t p bits row out) (\<lambda>out'. RleRun t p bits k (row + 1) out')"

fun RleRuns :: "ColumnType \<Rightarrow> byte list \<Rightarrow> nat \<Rightarrow> byte list \<Rightarrow> u32 \<Rightarrow> vec \<Rightarrow> vec result" where
  "RleRuns t p 0 cur row out = Inr out"
| "RleRuns t p (Suc r) cur row out =
     bindR (if FixedWidth t = 4 then bindR (Get cur) (\<lambda>(x :: 32 word, c). Inr (scast x, c)) else Get cur) (\<lambda>(bits, cur1).
       bindR (Get cur1) (\<lambda>(run_len :: u32, cur2).
         bindR (RleRun t p bits (unat run_len) row out) (\<lambda>(row', out'). RleRuns t p r cur2 row' out')))"

definition DecodeRle :: "ColumnType \<Rightarrow> u32 \<Rightarrow> byte list \<Rightarrow> vec \<Rightarrow> vec result" where
  "DecodeRle t n p out =
     bindR (Get (drop (ValidityBytes (unat n)) p)) (\<lambda>(num_runs :: u32, cur). RleRuns t p (unat num_runs) cur 0 out)"

section \<open>Dictionary\<close>

definition DictStep :: "(Value \<Rightarrow> 'k result) \<Rightarrow> ('k \<Rightarrow> u32 option) \<times> Value list \<times> u64 list \<Rightarrow> Value \<Rightarrow>
    (('k \<Rightarrow> u32 option) \<times> Value list \<times> u64 list) result" where
  "DictStep key st v = (case st of (lookup, dict, indices) \<Rightarrow>
     if IsNull v then Inr (lookup, dict, indices @ [0])
     else bindR (key v) (\<lambda>k. Inr (case lookup k of
         None \<Rightarrow> (let d = word_of_nat (length dict) in (lookup(k \<mapsto> d), dict @ [v], indices @ [ucast d]))
       | Some d \<Rightarrow> (lookup, dict, indices @ [ucast d]))))"

definition fixed_key :: "ColumnType \<Rightarrow> Value \<Rightarrow> 64 word result" where
  "fixed_key t v = (if t = kFloat then AsDouble v else AsI64 v)"

definition BuildDict :: "ColumnType \<Rightarrow> Value list \<Rightarrow> (Value list \<times> u64 list) result" where
  "BuildDict t values =
     (if t = kVarchar then bindR (foldR (DictStep get_string) (Map.empty, [], []) values) (\<lambda>(_, d, i). Inr (d, i))
      else bindR (foldR (DictStep (fixed_key t)) (Map.empty, [], []) values) (\<lambda>(_, d, i). Inr (d, i)))"

definition PutDictEntry :: "ColumnType \<Rightarrow> Value \<Rightarrow> byte list result" where
  "PutDictEntry t v =
     (if t = kVarchar then bindR (get_string v) (\<lambda>s. Inr (PutPod (word_of_nat (length s) :: u32) @ bytes_of_string s))
      else if t = kFloat then bindR (AsDouble v) (\<lambda>d. Inr (PutPod d))
      else if FixedWidth t = 4 then bindR (AsI64 v) (\<lambda>x. Inr (PutPod (ucast x :: 32 word)))
      else bindR (AsI64 v) (\<lambda>x. Inr (PutPod x)))"

definition EncodeDictionary :: "ColumnType \<Rightarrow> Value list \<Rightarrow> EncodedChunk result" where
  "EncodeDictionary t values =
     bindR (BuildDict t values) (\<lambda>(dict, indices).
       bindR (mapR (PutDictEntry t) dict) (\<lambda>entries.
         let bw = (if dict = [] then 0 else BitsRequired (word_of_nat (length dict - 1))) in
         Inr (new_chunk kDictionary
           (PackBits indices bw (WriteValidity [] values @ PutPod (word_of_nat (length dict) :: u32) @ concat entries @
              PutPod (word_of_nat bw :: byte))))))"

definition GetDictEntry :: "ColumnType \<Rightarrow> byte list \<Rightarrow> (Value \<times> byte list) result" where
  "GetDictEntry t cur =
     (if t = kVarchar then
        bindR (Get cur) (\<lambda>(slen :: u32, cur1).
          if length cur1 < unat slen then Inl (RuntimeError ''encoding: dict str underflow'')
          else Inr (Str (string_of_bytes (take (unat slen) cur1)), drop (unat slen) cur1))
      else if t = kFloat then bindR (Get cur) (\<lambda>(d, cur1). Inr (Dbl d, cur1))
      else if t = kInt then bindR (Get cur) (\<lambda>(x, cur1). Inr (Int32 x, cur1))
      else bindR (Get cur) (\<lambda>(x, cur1). Inr (Int64 x, cur1)))"

definition DictRow :: "byte list \<Rightarrow> Value list \<Rightarrow> u64 list \<Rightarrow> vec \<Rightarrow> nat \<Rightarrow> vec result" where
  "DictRow p dict indices out i =
     bindR (TestValidity p i) (\<lambda>valid. if \<not> valid then Inr (AppendNull out)
       else let k = unat (indices ! i) in
         if k < length dict then AppendValue out (dict ! k) else Inl (Undefined ''dict[indices[i]]''))"

definition DecodeDictionary :: "ColumnType \<Rightarrow> u32 \<Rightarrow> byte list \<Rightarrow> vec \<Rightarrow> vec result" where
  "DecodeDictionary t n p out =
     bindR (Get (drop (ValidityBytes (unat n)) p)) (\<lambda>(dict_count :: u32, cur).
       bindR (getN (GetDictEntry t) (unat dict_count) cur) (\<lambda>(dict, cur1).
         bindR (Get cur1) (\<lambda>(bw :: byte, cur2).
           bindR (UnpackBits cur2 (unat n) (unat bw)) (\<lambda>indices.
             foldR (DictRow p dict indices) out [0..<unat n]))))"

section \<open>Frame of reference\<close>

definition Delta :: "64 word \<Rightarrow> Value \<Rightarrow> u64 result" where
  "Delta min_v v = (if IsNull v then Inr 0 else bindR (AsI64 v) (\<lambda>x. Inr (x - min_v)))"

definition EncodeBitpack :: "Value list \<Rightarrow> 64 word \<Rightarrow> 64 word \<Rightarrow> EncodedChunk result" where
  "EncodeBitpack values min_v max_v =
     (let range = max_v - min_v;
          bw = (if max_v = min_v then 0 else BitsRequired range) in
      bindR (mapR (Delta min_v) values) (\<lambda>deltas.
        Inr (new_chunk kBitpack
          (PackBits deltas bw (WriteValidity [] values @ PutPod min_v @ PutPod (word_of_nat bw :: byte))))))"

text \<open>\<open>frame_min + static_cast<int64_t>(delta)\<close> is a signed addition.\<close>

definition add_i64 :: "64 word \<Rightarrow> 64 word \<Rightarrow> 64 word result" where
  "add_i64 a b =
     (if - (2 ^ 63) \<le> sint a + sint b \<and> sint a + sint b < 2 ^ 63 then Inr (a + b) else Inl (Undefined ''signed overflow''))"

definition BitpackRow :: "ColumnType \<Rightarrow> byte list \<Rightarrow> 64 word \<Rightarrow> u64 list \<Rightarrow> vec \<Rightarrow> nat \<Rightarrow> vec result" where
  "BitpackRow t p frame_min deltas out i =
     bindR (TestValidity p i) (\<lambda>valid. if \<not> valid then Inr (AppendNull out)
       else bindR (add_i64 frame_min (deltas ! i)) (\<lambda>v.
         Inr (if t = kInt then AppendInt32 out (ucast v) else AppendInt64 out v)))"

definition DecodeBitpack :: "ColumnType \<Rightarrow> u32 \<Rightarrow> byte list \<Rightarrow> vec \<Rightarrow> vec result" where
  "DecodeBitpack t n p out =
     bindR (Get (drop (ValidityBytes (unat n)) p)) (\<lambda>(frame_min, cur).
       bindR (Get cur) (\<lambda>(bw :: byte, cur1).
         bindR (UnpackBits cur1 (unat n) (unat bw)) (\<lambda>deltas.
           foldR (BitpackRow t p frame_min deltas) out [0..<unat n])))"

section \<open>Choosing and dispatching\<close>

definition int64_max :: "64 word" where
  "int64_max = word_of_int (2 ^ 63 - 1)"

definition int64_min :: "64 word" where
  "int64_min = word_of_int (- (2 ^ 63))"

definition MinMaxStep :: "bool \<times> 64 word \<times> 64 word \<Rightarrow> Value \<Rightarrow> (bool \<times> 64 word \<times> 64 word) result" where
  "MinMaxStep st v = (case st of (any, mn, mx) \<Rightarrow>
     if IsNull v then Inr st
     else bindR (AsI64 v) (\<lambda>x. Inr (True, if sint x < sint mn then x else mn, if sint mx < sint x then x else mx)))"

definition EncodeChunkWith :: "ColumnType \<Rightarrow> Value list \<Rightarrow> Encoding \<Rightarrow> EncodedChunk result" where
  "EncodeChunkWith t values enc =
     (case enc of
        kPlain \<Rightarrow> EncodePlain t values
      | kRle \<Rightarrow> EncodeRle t values
      | kDictionary \<Rightarrow> EncodeDictionary t values
      | kBitpack \<Rightarrow>
          bindR (foldR MinMaxStep (False, int64_max, int64_min) values) (\<lambda>(any, mn, mx).
            if \<not> any then EncodeBitpack values 0 0 else EncodeBitpack values mn mx)
      | kUnnamed _ \<Rightarrow> Inl (RuntimeError ''EncodeChunkWith: unknown encoding''))"

definition is_int :: "ColumnType \<Rightarrow> bool" where
  "is_int t \<longleftrightarrow> t = kInt \<or> t = kBigInt"

definition ScanStep :: "ColumnType \<Rightarrow> u32 \<times> bool \<times> 64 word \<times> 64 word \<Rightarrow> Value \<Rightarrow> (u32 \<times> bool \<times> 64 word \<times> 64 word) result" where
  "ScanStep t st v = (case st of (nulls, mm) \<Rightarrow>
     if IsNull v then Inr (nulls + 1, mm)
     else if is_int t then bindR (MinMaxStep mm v) (\<lambda>mm'. Inr (nulls, mm'))
     else Inr st)"

fun candidates :: "ColumnType \<Rightarrow> Encoding list" where
  "candidates kInt = [kPlain, kRle, kDictionary, kBitpack]"
| "candidates kBigInt = [kPlain, kRle, kDictionary, kBitpack]"
| "candidates kFloat = [kPlain, kRle, kDictionary]"
| "candidates kVarchar = [kPlain, kDictionary]"

definition TryEncoding :: "ColumnType \<Rightarrow> Value list \<Rightarrow> EncodedChunk option \<Rightarrow> Encoding \<Rightarrow> EncodedChunk option result" where
  "TryEncoding t values best e =
     bindR (EncodeChunkWith t values e) (\<lambda>c. Inr (case best of
         None \<Rightarrow> Some c
       | Some b \<Rightarrow> if length (payload c) < length (payload b) then Some c else Some b))"

definition EncodeChunk :: "ColumnType \<Rightarrow> Value list \<Rightarrow> EncodedChunk result" where
  "EncodeChunk t values =
     bindR (foldR (ScanStep t) (0, False, int64_max, int64_min) values) (\<lambda>(nulls, any_int, mn, mx).
       bindR (foldR (TryEncoding t values) None (candidates t)) (\<lambda>best.
         let b = (case best of None \<Rightarrow> new_chunk kPlain [] | Some c \<Rightarrow> c);
             zone = is_int t \<and> any_int in
         Inr (b\<lparr>num_rows := word_of_nat (length values), null_count := nulls, has_zone_map := zone,
                min_value := (if zone then mn else 0), max_value := (if zone then mx else 0)\<rparr>)))"

definition DecodeChunk :: "ColumnType \<Rightarrow> Encoding \<Rightarrow> u32 \<Rightarrow> byte list \<Rightarrow> vec \<Rightarrow> vec result" where
  "DecodeChunk t enc n p out =
     (case enc of
        kPlain \<Rightarrow> DecodePlain t n p out
      | kRle \<Rightarrow> DecodeRle t n p out
      | kDictionary \<Rightarrow> DecodeDictionary t n p out
      | kBitpack \<Rightarrow> DecodeBitpack t n p out
      | kUnnamed _ \<Rightarrow> Inl (RuntimeError ''DecodeChunk: unknown encoding''))"

section \<open>Rows\<close>

text \<open>
  The 64-bit slot a value of a fixed-width column stands for, and the loop rule the row
  loops of all four decoders share.
\<close>

fun raw64 :: "Value \<Rightarrow> u64" where
  "raw64 (Int32 x) = scast x"
| "raw64 (Int64 x) = x"
| "raw64 (Dbl d) = d"
| "raw64 _ = 0"

lemma ucast_scast_32 [simp]: "ucast (scast (x :: 32 word) :: 64 word) = x"
  by (rule bit_word_eqI) (simp add: bit_simps)

lemma as_fits [simp]:
  "value_fits t v \<Longrightarrow> is_int t \<Longrightarrow> \<not> IsNull v \<Longrightarrow> AsI64 v = Inr (raw64 v)"
  "value_fits kFloat v \<Longrightarrow> \<not> IsNull v \<Longrightarrow> AsDouble v = Inr (raw64 v)"
  by (cases v; auto simp: is_int_def AsDouble_def)+

lemma is_int_cases: "t \<noteq> kVarchar \<Longrightarrow> t \<noteq> kFloat \<Longrightarrow> is_int t"
  by (cases t) (simp_all add: is_int_def)

lemma slot_bits_fits: "t \<noteq> kVarchar \<Longrightarrow> value_fits t v \<Longrightarrow> slot_bits t v = Inr (raw64 v)"
  by (cases v) (auto simp: slot_bits_def AsDouble_def)

lemma append_raw:
  assumes "value_fits t v" and "v \<noteq> Null" and "t \<noteq> kVarchar"
  shows "(if t = kInt then AppendInt32 (vec_of t vs) (ucast (raw64 v))
      else if t = kBigInt then AppendInt64 (vec_of t vs) (raw64 v) else AppendDouble (vec_of t vs) (raw64 v)) = vec_of t (vs @ [v])"
  using assms by (cases v) (auto simp: append_of)

lemma rows_loop:
  assumes "\<And>i. i < length xs \<Longrightarrow> f (vec_of t (vs @ take i xs)) i = Inr (vec_of t (vs @ take i xs @ [xs ! i]))"
  shows "foldR f (vec_of t vs) [0..<length xs] = Inr (vec_of t (vs @ xs))"
proof -
  have "\<exists>v. foldR f (vec_of t vs) [0..<length xs] = Inr v \<and> v = vec_of t (vs @ take (length xs) xs)"
    by (rule foldR_upt) (auto simp: assms take_Suc_conv_app_nth)
  then show ?thesis by simp
qed

abbreviation rows :: "Value list \<Rightarrow> u32" where
  "rows xs \<equiv> word_of_nat (length xs)"

lemma unat_rows [simp]: "length xs < 2 ^ 32 \<Longrightarrow> unat (word_of_nat (length xs) :: u32) = length xs"
  by (simp add: unat_of_nat)

lemma valid_row:
  "i < length xs \<Longrightarrow> TestValidity (WriteValidity [] xs @ rest) i = Inr (xs ! i \<noteq> Null)"
  by (simp add: TestValidity_Write IsNull_def)

section \<open>Plain round trip\<close>

lemma PlainSlot_fold:
  assumes "t \<noteq> kVarchar" and "list_all (value_fits t) xs"
  shows "foldR (PlainSlot t) p xs = Inr (p @ concat (map (slot_bytes t) xs))"
  using assms
proof (induction xs arbitrary: p)
  case (Cons x xs)
  have "PlainSlot t p x = Inr (p @ slot_bytes t x)"
    using Cons.prems by (cases x) (auto simp: PlainSlot_def AsDouble_def)
  then show ?case using Cons by simp
qed simp

lemma EncodePlain_fixed:
  assumes "t \<noteq> kVarchar" and "list_all (value_fits t) xs"
  shows "EncodePlain t xs = Inr (new_chunk kPlain (WriteValidity [] xs @ concat (map (slot_bytes t) xs)))"
  using PlainSlot_fold [OF assms] assms(1) by (simp add: EncodePlain_def Let_def)

lemma DecodePlain_fixed:
  assumes t: "t \<noteq> kVarchar" and f: "list_all (value_fits t) xs" and n: "length xs < 2 ^ 32"
  shows "DecodePlain t (rows xs) (WriteValidity [] xs @ concat (map (slot_bytes t) xs)) (vec_of t vs) = Inr (vec_of t (vs @ xs))"
proof -
  let ?vb = "ValidityBytes (length xs)" and ?d = "concat (map (slot_bytes t) xs)" and ?w = "FixedWidth t"
  let ?p = "WriteValidity [] xs @ ?d"
  have w: "length (slot_bytes t x) = ?w" if "x \<in> set xs" for x using that f length_slot_bytes by (auto simp: list_all_iff)
  have len: "length ?p = ?vb + length xs * ?w" using length_concat_blocks [of xs "slot_bytes t", OF w] by simp
  have "PlainSlotAt t ?p ?vb (vec_of t us) i = Inr (vec_of t (us @ [xs ! i]))" if i: "i < length xs" for us i
  proof -
    have "i * ?w + ?w \<le> length xs * ?w" using mult_le_mono1 [of "Suc i" "length xs" ?w] i by simp
    then have fit: "?vb + i * ?w + ?w \<le> length ?p" using len by simp
    have rd: "read_at (?vb + i * ?w) ?w ?p = slot_bytes t (xs ! i)"
      using read_at_blocks [where rest = "[]", OF w i] by (simp add: read_at_append_right)
    have "value_fits t (xs ! i)" using f i by (simp add: list_all_length)
    then show ?thesis using fit rd valid_row [OF i] t
      by (cases "xs ! i") (auto simp: PlainSlotAt_def Let_def PeekPod_def append_of pod_of_bytes_PutPod)
  qed
  then show ?thesis using t n rows_loop [of xs "PlainSlotAt t ?p ?vb" t vs] by (simp add: DecodePlain_def Let_def)
qed

definition str_offsets :: "Value list \<Rightarrow> u32 list" where
  "str_offsets xs = map (\<lambda>i. word_of_nat (length (strs (take i xs)))) [0..<length xs + 1]"

lemma str_offsets_snoc: "str_offsets (xs @ [x]) = str_offsets xs @ [word_of_nat (length (strs (xs @ [x])))]"
  by (simp add: str_offsets_def)

lemma PlainString_fold:
  assumes "list_all (value_fits kVarchar) xs"
  shows "foldR PlainString ([0], [], 0) xs = Inr (str_offsets xs, strs xs, word_of_nat (length (strs xs)))"
  using assms
proof (induction xs rule: rev_induct)
  case (snoc x xs)
  then have "PlainString (str_offsets xs, strs xs, word_of_nat (length (strs xs))) x =
      Inr (str_offsets (xs @ [x]), strs (xs @ [x]), word_of_nat (length (strs (xs @ [x]))))"
    by (cases x) (auto simp: PlainString_def str_offsets_snoc Let_def)
  then show ?case using snoc by (simp add: foldR_append)
qed (simp add: str_offsets_def)

lemma EncodePlain_varchar:
  assumes "list_all (value_fits kVarchar) xs"
  shows "EncodePlain kVarchar xs = Inr (new_chunk kPlain (WriteValidity [] xs @ concat (map PutPod (str_offsets xs)) @ strs xs))"
  using PlainString_fold [OF assms] by (simp add: EncodePlain_def Let_def)

lemma length_str_offsets [simp]: "length (str_offsets xs) = length xs + 1"
  by (simp add: str_offsets_def)

lemma str_offsets_nth: "i \<le> length xs \<Longrightarrow> str_offsets xs ! i = word_of_nat (length (strs (take i xs)))"
  unfolding str_offsets_def by (simp del: upt_Suc)

lemma strs_split: "i < length xs \<Longrightarrow> strs xs = strs (take i xs) @ str_bytes (xs ! i) @ strs (drop (Suc i) xs)"
  using id_take_nth_drop [of i xs] by (metis strs_simps(2,3))

lemma DecodePlain_varchar:
  assumes f: "list_all (value_fits kVarchar) xs" and n: "length xs + 1 < 2 ^ 32" and s: "length (strs xs) < 2 ^ 32"
  shows "DecodePlain kVarchar (rows xs) (WriteValidity [] xs @ concat (map PutPod (str_offsets xs)) @ strs xs) (vec_of kVarchar vs) =
    Inr (vec_of kVarchar (vs @ xs))"
proof -
  let ?vb = "ValidityBytes (length xs)" and ?o = "concat (map PutPod (str_offsets xs))"
  let ?sb = "?vb + (length xs + 1) * 4"
  let ?p = "WriteValidity [] xs @ ?o @ strs xs"
  have lo: "length ?o = (length xs + 1) * 4" using length_concat_blocks [of "str_offsets xs" PutPod 4] by simp
  have off: "PeekPod ?p (?vb + i * 4) = Inr (word_of_nat (length (strs (take i xs))) :: u32)" if "i \<le> length xs" for i
  proof -
    have "read_at (i * 4) 4 (?o @ strs xs) = PutPod (str_offsets xs ! i)"
      by (rule read_at_blocks) (use that in simp_all)
    moreover have "i * 4 + 4 \<le> length ?o" using that lo by simp
    ultimately show ?thesis
      using that by (simp add: PeekPod_def Let_def read_at_append_right pod_of_bytes_PutPod str_offsets_nth)
  qed
  have "PlainStringAt ?p ?vb ?sb (vec_of kVarchar us) i = Inr (vec_of kVarchar (us @ [xs ! i]))" if i: "i < length xs" for us i
  proof (cases "xs ! i")
    case (Str str)
    let ?b = "length (strs (take i xs))"
    have sp: "strs xs = strs (take i xs) @ bytes_of_string str @ strs (drop (Suc i) xs)" using strs_split [OF i] Str by simp
    have nx: "length (strs (take (Suc i) xs)) = ?b + length str" using i Str by (simp add: take_Suc_conv_app_nth)
    have lt: "?b + length str < 2 ^ 32" using s sp by simp
    have b: "unat (word_of_nat ?b :: u32) = ?b" using lt by (simp add: unat_of_nat)
    have e: "unat (word_of_nat (?b + length str) - word_of_nat ?b :: u32) = length str" using lt by (simp add: unat_of_nat)
    have pre: "read_at (?sb + ?b) (length str) ?p = read_at ?b (length str) (strs xs)"
      using lo by (simp add: read_at_append_right)
    also have "\<dots> = bytes_of_string str" unfolding sp by (simp add: read_at_def)
    finally have rd: "read_at (?sb + ?b) (length str) ?p = bytes_of_string str" .
    have fit: "?sb + ?b + length str \<le> length ?p" using lo sp by simp
    note o = off [of i] off [of "Suc i"]
    show ?thesis using valid_row [OF i] Str i o nx b e rd fit
      by (simp add: PlainStringAt_def Let_def append_of)
  next
    case Null
    then show ?thesis using valid_row [OF i] by (simp add: PlainStringAt_def append_of)
  qed (use f i in \<open>auto simp: list_all_length\<close>)
  moreover have "unat (rows xs + 1) = length xs + 1" using n by (simp add: unat_of_nat unat_word_ariths)
  ultimately show ?thesis
    using n rows_loop [of xs "PlainStringAt ?p ?vb ?sb" kVarchar vs] by (simp add: DecodePlain_def Let_def)
qed

section \<open>Run-length round trip\<close>

lemma Runs_expand: "concat (map (\<lambda>(v, n). replicate n v) (Runs xs)) = xs"
proof (induction xs rule: Runs.induct)
  case (2 v xs)
  have t: "takeWhile (\<lambda>x. x = v) xs = replicate (length (takeWhile (\<lambda>x. x = v) xs)) v"
    by (metis (mono_tags, lifting) replicate_eqI set_takeWhileD)
  have "replicate (length (takeWhile (\<lambda>x. x = v) xs)) v @ drop (length (takeWhile (\<lambda>x. x = v) xs)) xs = xs"
    by (metis t takeWhile_dropWhile_id dropWhile_eq_drop)
  then show ?case using 2 by (simp add: Let_def)
qed simp

lemma Runs_maximal:
  "successively (\<lambda>a b. fst a \<noteq> fst b) (Runs xs) \<and> (\<forall>r\<in>set (Runs xs). 0 < snd r)"
proof (induction xs rule: Runs.induct)
  case (2 v xs)
  let ?l = "length (takeWhile (\<lambda>x. x = v) xs)"
  have "drop ?l xs = dropWhile (\<lambda>x. x = v) xs" by (metis dropWhile_eq_drop)
  then have "v \<noteq> fst (hd (Runs (drop ?l xs)))" if "Runs (drop ?l xs) \<noteq> []"
    using that hd_dropWhile [of "\<lambda>x. x = v" xs] by (cases "dropWhile (\<lambda>x. x = v) xs") (auto simp: Let_def)
  then show ?case using 2 by (auto simp: Let_def successively_Cons)
qed simp

lemma sum_replicates: "length (concat (map (\<lambda>(v, n). replicate n v) rs)) = sum_list (map snd rs)"
  by (induction rs) auto

lemma Runs_len: "sum_list (map snd (Runs xs)) = length xs"
  using sum_replicates [of "Runs xs"] by (simp add: Runs_expand)

abbreviation put_run :: "ColumnType \<Rightarrow> u64 \<times> nat \<Rightarrow> byte list" where
  "put_run t \<equiv> \<lambda>(val, len). (if FixedWidth t = 4 then PutPod (ucast val :: 32 word) else PutPod val) @ PutPod (word_of_nat len :: u32)"

lemma EncodeRle_fixed:
  assumes "t \<noteq> kVarchar" and "list_all (value_fits t) xs" and "length xs < 2 ^ 32"
  shows "EncodeRle t xs = Inr (new_chunk kRle (WriteValidity [] xs @
    PutPod (word_of_nat (length (Runs (map raw64 xs))) :: u32) @ concat (map (put_run t) (Runs (map raw64 xs)))))"
proof -
  have "mapR (slot_bits t) xs = Inr (map raw64 xs)"
    by (rule mapR_Inr) (use assms(1,2) in \<open>auto simp: slot_bits_fits list_all_iff\<close>)
  moreover have "snd r < 2 ^ 32" if "r \<in> set (Runs (map raw64 xs))" for r
    using member_le_sum_list [of "snd r" "map snd (Runs (map raw64 xs))"] that Runs_len [of "map raw64 xs"] assms(3) by simp
  ultimately show ?thesis by (force simp: EncodeRle_def Let_def)
qed

lemma RleRun_rows:
  assumes "t \<noteq> kVarchar" and "list_all (value_fits t) xs" and "length xs < 2 ^ 32"
    and "r + k \<le> length xs" and "\<And>j. j < k \<Longrightarrow> raw64 (xs ! (r + j)) = b"
  shows "RleRun t (WriteValidity [] xs @ rest) b k (word_of_nat r) (vec_of t (vs @ take r xs)) =
    Inr (word_of_nat (r + k), vec_of t (vs @ take (r + k) xs))"
  using assms(4,5)
proof (induction k arbitrary: r)
  case (Suc k)
  have r: "r < length xs" and rn: "unat (word_of_nat r :: u32) = r" using Suc.prems(1) assms(3) by (simp_all add: unat_of_nat)
  have "value_fits t (xs ! r)" using assms(2) r by (simp add: list_all_length)
  then have "RleRow t (WriteValidity [] xs @ rest) b (word_of_nat r) (vec_of t (vs @ take r xs)) = Inr (vec_of t (vs @ take (Suc r) xs))"
    using valid_row [OF r, of rest] rn append_raw [of t "xs ! r" "vs @ take r xs"] assms(1) Suc.prems(2) [of 0] r
    by (auto simp: RleRow_def take_Suc_conv_app_nth append_of)
  then show ?case using Suc.IH [of "Suc r"] Suc.prems(1) Suc.prems(2) [of "Suc _"] by (simp add: add.commute)
qed simp

lemma RleRuns_rows:
  assumes t: "t \<noteq> kVarchar" and f: "list_all (value_fits t) xs" and n: "length xs < 2 ^ 32"
    and "map raw64 (drop r xs) = concat (map (\<lambda>(v, n). replicate n v) rs)" and "r \<le> length xs"
  shows "RleRuns t (WriteValidity [] xs @ rest) (length rs) (concat (map (put_run t) rs) @ after) (word_of_nat r) (vec_of t (vs @ take r xs)) =
    Inr (vec_of t (vs @ xs))"
  using assms(4,5)
proof (induction rs arbitrary: r)
  case (Cons run rs)
  obtain v k where run: "run = (v, k)" by fastforce
  have eq: "map raw64 (drop r xs) = replicate k v @ concat (map (\<lambda>(v, n). replicate n v) rs)" using Cons.prems(1) run by simp
  have rk: "r + k \<le> length xs" using arg_cong [OF eq, of length] Cons.prems(2) by simp
  have vj: "raw64 (xs ! (r + j)) = v" if "j < k" for j
    using arg_cong [OF eq, of "\<lambda>l. l ! j"] that rk by (simp add: nth_append)
  have dr: "map raw64 (drop (r + k) xs) = concat (map (\<lambda>(v, n). replicate n v) rs)"
    using arg_cong [OF eq, of "drop k"] by (simp add: drop_map add.commute)
  have kn: "unat (word_of_nat k :: u32) = k" using rk n by (simp add: unat_of_nat)
  have sv: "scast (ucast v :: 32 word) = v" if "t = kInt" "0 < k"
  proof -
    have "value_fits t (xs ! r)" "raw64 (xs ! r) = v" using f rk that vj [of 0] by (simp_all add: list_all_length)
    then show ?thesis using that(1) by (cases "xs ! r") auto
  qed
  have r0: "RleRun t (WriteValidity [] xs @ rest) v k (word_of_nat r) (vec_of t (vs @ take r xs)) =
      Inr (word_of_nat (r + k), vec_of t (vs @ take (r + k) xs))" by (rule RleRun_rows [OF t f n rk vj])
  have r1: "RleRun kInt (WriteValidity [] xs @ rest) (scast (ucast v :: 32 word)) k (word_of_nat r) (vec_of kInt (vs @ take r xs)) =
      Inr (word_of_nat (r + k), vec_of kInt (vs @ take (r + k) xs))" if "t = kInt"
    using r0 sv [OF that] that by (cases k) auto
  show ?case using Cons.IH [OF dr rk] run kn r0 r1 t by (cases t) simp_all
qed simp

lemma DecodeRle_fixed:
  assumes "t \<noteq> kVarchar" and "list_all (value_fits t) xs" and "length xs < 2 ^ 32"
  shows "DecodeRle t (rows xs) (WriteValidity [] xs @ PutPod (word_of_nat (length (Runs (map raw64 xs))) :: u32) @
    concat (map (put_run t) (Runs (map raw64 xs)))) (vec_of t vs) = Inr (vec_of t (vs @ xs))"
proof -
  let ?rs = "Runs (map raw64 xs)"
  have "length ?rs \<le> sum_list (map snd ?rs)"
    using sum_list_mono [of ?rs "\<lambda>_. 1" snd] Runs_maximal [of "map raw64 xs"] by (simp add: sum_list_triv Suc_leI)
  then have "length ?rs < 2 ^ 32" using Runs_len [of "map raw64 xs"] assms(3) by simp
  then have l: "unat (word_of_nat (length ?rs) :: u32) = length ?rs" by (simp add: unat_of_nat)
  show ?thesis
    using RleRuns_rows [OF assms, of 0 ?rs _ "[]" vs] l assms(3) by (simp add: DecodeRle_def Runs_expand)
qed

section \<open>Dictionary round trip\<close>

text \<open>
  The two loops that build a dictionary differ only in the key they look values up by. What
  they need of it: the values of the column have a key, and equal keys mean equal values.
\<close>

definition dict_inv :: "(Value \<Rightarrow> 'k result) \<Rightarrow> Value list \<Rightarrow> ('k \<Rightarrow> u32 option) \<times> Value list \<times> u64 list \<Rightarrow> bool" where
  "dict_inv key done st = (case st of (lookup, dict, indices) \<Rightarrow>
     length indices = length done \<and> length dict \<le> length done \<and> distinct dict \<and> set dict = set done - {Null} \<and>
     (\<forall>k d. lookup k = Some d \<longrightarrow> unat d < length dict \<and> key (dict ! unat d) = Inr k) \<and>
     (\<forall>j<length dict. \<exists>k. key (dict ! j) = Inr k \<and> lookup k = Some (word_of_nat j)) \<and>
     (\<forall>i<length done. if done ! i = Null then indices ! i = 0
        else unat (indices ! i) < length dict \<and> dict ! unat (indices ! i) = done ! i))"

lemma unat_ucast_32_64: "unat (ucast (d :: 32 word) :: 64 word) = unat d"
proof -
  have "unat d < 2 ^ 64" using unsigned_less [of d, where ?'a = nat] by simp
  then show ?thesis by (simp add: unsigned_ucast_eq take_bit_nat_eq_self)
qed

locale dict_key =
  fixes key :: "Value \<Rightarrow> 'k result" and ok :: "Value \<Rightarrow> bool"
  assumes key_total: "ok v \<Longrightarrow> \<exists>k. key v = Inr k"
    and key_inj: "ok v \<Longrightarrow> ok w \<Longrightarrow> key v = Inr k \<Longrightarrow> key w = Inr k \<Longrightarrow> v = w"
begin

lemma DictStep_inv:
  assumes inv: "dict_inv key xs st" and okx: "\<And>v. v \<in> set (xs @ [x]) \<Longrightarrow> v = Null \<or> ok v" and n: "length xs < 2 ^ 32"
  shows "\<exists>st'. DictStep key st x = Inr st' \<and> dict_inv key (xs @ [x]) st'"
proof -
  obtain lookup dict indices where st: "st = (lookup, dict, indices)" by (cases st)
  note I = inv [unfolded dict_inv_def st, simplified]
  have ix: "\<forall>i<length xs. if xs ! i = Null then indices ! i = 0 else unat (indices ! i) < length dict \<and> dict ! unat (indices ! i) = xs ! i"
    using I by simp
  show ?thesis
  proof (cases "x = Null")
    case True
    then show ?thesis using I by (auto simp: st DictStep_def dict_inv_def nth_append less_Suc_eq)
  next
    case False
    then have okv: "ok x" using okx by auto
    then obtain k where k: "key x = Inr k" using key_total by blast
    show ?thesis
    proof (cases "lookup k")
      case None
      let ?d = "word_of_nat (length dict) :: u32"
      have d: "unat ?d = length dict" and d': "unat (ucast ?d :: u64) = length dict" using I n by (simp_all add: unat_of_nat unat_ucast_32_64)
      have "x \<notin> set dict"
      proof
        assume "x \<in> set dict"
        then obtain j where "j < length dict" "dict ! j = x" by (metis in_set_conv_nth)
        then show False using I None k by fastforce
      qed
      have bk: "\<forall>j<length (dict @ [x]). \<exists>k'. key ((dict @ [x]) ! j) = Inr k' \<and> (lookup(k \<mapsto> ?d)) k' = Some (word_of_nat j)"
      proof (intro allI impI)
        fix j
        assume "j < length (dict @ [x])"
        then consider "j = length dict" | "j < length dict" by fastforce
        then show "\<exists>k'. key ((dict @ [x]) ! j) = Inr k' \<and> (lookup(k \<mapsto> ?d)) k' = Some (word_of_nat j)"
        proof cases
          case 2
          then obtain k' where "key (dict ! j) = Inr k'" "lookup k' = Some (word_of_nat j)" using I by blast
          then show ?thesis using None 2 by (intro exI [of _ k']) (auto simp: nth_append)
        qed (use k in auto)
      qed
      have "dict_inv key (xs @ [x]) (lookup(k \<mapsto> ?d), dict @ [x], indices @ [ucast ?d])"
        unfolding dict_inv_def prod.case
      proof (intro conjI bk)
        have "unat e < length (dict @ [x]) \<and> key ((dict @ [x]) ! unat e) = Inr k'"
          if e: "(lookup(k \<mapsto> ?d)) k' = Some e" for k' e
        proof (cases "k' = k")
          case False
          then have "unat e < length dict \<and> key (dict ! unat e) = Inr k'" using e I by simp
          then show ?thesis by (simp add: nth_append)
        qed (use e d k in auto)
        then show "\<forall>k' d. (lookup(k \<mapsto> ?d)) k' = Some d \<longrightarrow> unat d < length (dict @ [x]) \<and> key ((dict @ [x]) ! unat d) = Inr k'"
          by blast
      qed (use I ix d d' False \<open>x \<notin> set dict\<close> in \<open>auto simp: nth_append less_Suc_eq\<close>)
      then show ?thesis using None k False by (simp add: st DictStep_def IsNull_def Let_def)
    next
      case (Some d)
      then have d: "unat d < length dict" "key (dict ! unat d) = Inr k" using I by auto
      then have "ok (dict ! unat d)" using I okx by (metis Diff_iff insertI1 nth_mem UnCI set_append)
      then have dx: "dict ! unat d = x" using key_inj d(2) k okv by blast
      have d': "unat (ucast d :: u64) = unat d" by (rule unat_ucast_32_64)
      have "x \<in> set dict" using dx d(1) nth_mem by force
      then have "dict_inv key (xs @ [x]) (lookup, dict, indices @ [ucast d])"
        using I ix dx d(1) d' False by (auto simp: dict_inv_def nth_append less_Suc_eq)
      then show ?thesis using Some k False by (simp add: st DictStep_def IsNull_def)
    qed
  qed
qed

lemma DictFold_inv:
  assumes "\<And>v. v \<in> set xs \<Longrightarrow> v = Null \<or> ok v" and "length xs < 2 ^ 32"
  shows "\<exists>st. foldR (DictStep key) (Map.empty, [], []) xs = Inr st \<and> dict_inv key xs st"
  using assms
proof (induction xs rule: rev_induct)
  case Nil
  then show ?case by (simp add: dict_inv_def)
next
  case (snoc x xs)
  then obtain st where "foldR (DictStep key) (Map.empty, [], []) xs = Inr st" "dict_inv key xs st" by auto
  then show ?case using DictStep_inv [of xs st x] snoc.prems by (auto simp: foldR_append)
qed

end

interpretation string_key: dict_key get_string "\<lambda>v. value_fits kVarchar v \<and> v \<noteq> Null"
proof unfold_locales
  show "\<exists>k. get_string v = Inr k" if "value_fits kVarchar v \<and> v \<noteq> Null" for v using that by (cases v) auto
  show "v = w" if "value_fits kVarchar v \<and> v \<noteq> Null" "value_fits kVarchar w \<and> w \<noteq> Null"
    "get_string v = Inr k" "get_string w = Inr k" for v w k using that by (cases v; cases w) auto
qed

lemma scast_32_64_inj: "(scast (x :: 32 word) :: 64 word) = scast y \<Longrightarrow> x = y"
  by (metis ucast_scast_32)

interpretation fixed_keys: dict_key "fixed_key t" "\<lambda>v. t \<noteq> kVarchar \<and> value_fits t v \<and> v \<noteq> Null" for t
proof unfold_locales
  show "\<exists>k. fixed_key t v = Inr k" if "t \<noteq> kVarchar \<and> value_fits t v \<and> v \<noteq> Null" for v
    using that by (cases v) (auto simp: fixed_key_def AsDouble_def)
  show "v = w" if "t \<noteq> kVarchar \<and> value_fits t v \<and> v \<noteq> Null" "t \<noteq> kVarchar \<and> value_fits t w \<and> w \<noteq> Null"
    "fixed_key t v = Inr k" "fixed_key t w = Inr k" for v w k
    using that by (cases v; cases w) (auto simp: fixed_key_def AsDouble_def dest: scast_32_64_inj)
qed

text \<open>What the dictionary and the indices are, for every type of column.\<close>

definition dict_of :: "Value list \<Rightarrow> Value list \<Rightarrow> u64 list \<Rightarrow> bool" where
  "dict_of xs dict indices \<longleftrightarrow> length indices = length xs \<and> length dict \<le> length xs \<and> distinct dict \<and> set dict = set xs - {Null} \<and>
     (\<forall>i<length xs. if xs ! i = Null then indices ! i = 0
        else unat (indices ! i) < length dict \<and> dict ! unat (indices ! i) = xs ! i)"

lemma BuildDict_ok:
  assumes "list_all (value_fits t) xs" and "length xs < 2 ^ 32"
  obtains dict indices where "BuildDict t xs = Inr (dict, indices)" "dict_of xs dict indices"
proof (cases "t = kVarchar")
  case True
  obtain st where "foldR (DictStep get_string) (Map.empty, [], []) xs = Inr st" "dict_inv get_string xs st"
    using string_key.DictFold_inv [of xs] assms True by (auto simp: list_all_iff)
  then show ?thesis using that True by (cases st) (auto simp: BuildDict_def dict_inv_def dict_of_def)
next
  case False
  obtain st where "foldR (DictStep (fixed_key t)) (Map.empty, [], []) xs = Inr st" "dict_inv (fixed_key t) xs st"
    using fixed_keys.DictFold_inv [of xs t] assms False by (auto simp: list_all_iff)
  then show ?thesis using that False by (cases st) (auto simp: BuildDict_def dict_inv_def dict_of_def)
qed

text \<open>Dictionary entries are a codec.\<close>

fun entry_bytes :: "Value \<Rightarrow> byte list" where
  "entry_bytes (Int32 x) = PutPod x"
| "entry_bytes (Int64 x) = PutPod x"
| "entry_bytes (Dbl d) = PutPod d"
| "entry_bytes (Str s) = PutPod (word_of_nat (length s) :: u32) @ bytes_of_string s"
| "entry_bytes Null = []"

interpretation dict_entry: codec entry_bytes "GetDictEntry t"
  "\<lambda>v. value_fits t v \<and> v \<noteq> Null \<and> length (str_bytes v) < 2 ^ 32" for t
proof unfold_locales
  fix v rest
  assume "value_fits t v \<and> v \<noteq> Null \<and> length (str_bytes v) < 2 ^ 32"
  then show "GetDictEntry t (entry_bytes v @ rest) = Inr (v, rest)"
    by (cases v) (auto simp: GetDictEntry_def unat_of_nat)
qed

lemma PutDictEntry_fits: "value_fits t v \<Longrightarrow> v \<noteq> Null \<Longrightarrow> PutDictEntry t v = Inr (entry_bytes v)"
  by (cases v) (auto simp: PutDictEntry_def AsDouble_def)

definition dict_bw :: "Value list \<Rightarrow> nat" where
  "dict_bw dict = (if dict = [] then 0 else BitsRequired (word_of_nat (length dict - 1)))"

lemma unat_bw [simp]: "unat (word_of_nat (dict_bw dict) :: byte) = dict_bw dict" "unat (word_of_nat (BitsRequired m) :: byte) = BitsRequired m"
  using BitsRequired_bounds(3) [of m] BitsRequired_bounds(3) [of "word_of_nat (length dict - 1)"]
  by (auto simp: dict_bw_def unat_of_nat)

definition dict_payload :: "Value list \<Rightarrow> Value list \<Rightarrow> u64 list \<Rightarrow> byte list" where
  "dict_payload xs dict indices = WriteValidity [] xs @ PutPod (rows dict) @ concat (map entry_bytes dict) @
     PutPod (word_of_nat (dict_bw dict) :: byte) @ PackBits indices (dict_bw dict) []"

lemma EncodeDictionary_ok:
  assumes "list_all (value_fits t) xs" and "length xs < 2 ^ 32"
  obtains dict indices where "dict_of xs dict indices"
    "EncodeDictionary t xs = Inr (new_chunk kDictionary (dict_payload xs dict indices))"
proof (rule BuildDict_ok [OF assms])
  fix dict indices
  assume d: "BuildDict t xs = Inr (dict, indices)" "dict_of xs dict indices"
  have "mapR (PutDictEntry t) dict = Inr (map entry_bytes dict)"
    by (rule mapR_Inr, rule PutDictEntry_fits) (use d(2) assms(1) in \<open>auto simp: dict_of_def list_all_iff\<close>)
  then have "EncodeDictionary t xs = Inr (new_chunk kDictionary (dict_payload xs dict indices))"
    using d(1) by (simp add: EncodeDictionary_def Let_def dict_payload_def dict_bw_def
        PackBits_append [of indices _ "WriteValidity [] xs @ _"])
  then show thesis using that d(2) by blast
qed

lemma dict_indices:
  assumes d: "dict_of xs dict indices" and n: "length xs < 2 ^ 32"
  shows "UnpackBits (PackBits indices (dict_bw dict) [] @ rest) (length xs) (dict_bw dict) = Inr indices"
proof -
  have len: "length indices = length xs" "length dict \<le> length xs" using d by (simp_all add: dict_of_def)
  show ?thesis
  proof (cases "dict = []")
    case True
    then have "xs ! i = Null" if "i < length xs" for i using d that by (auto simp: dict_of_def split: if_splits)
    then have "indices = replicate (length xs) 0"
      using d len by (intro nth_equalityI) (auto simp: dict_of_def)
    then show ?thesis using True bp.zeros [of "length xs" rest] by (simp add: dict_bw_def)
  next
    case False
    have "v \<le> word_of_nat (length dict - 1)" if v: "v \<in> set indices" for v
    proof -
      obtain i where i: "i < length xs" "v = indices ! i" using v len by (metis in_set_conv_nth)
      then have "unat v < length dict" using d False by (cases "xs ! i = Null") (auto simp: dict_of_def)
      moreover have "unat (word_of_nat (length dict - 1) :: u64) = length dict - 1" by (rule unat_small) (use len n in simp)
      ultimately show ?thesis unfolding word_le_nat_alt by linarith
    qed
    then show ?thesis using bp.bounded [of indices "word_of_nat (length dict - 1)" rest] len False by (simp add: dict_bw_def)
  qed
qed

lemma strs_member: "v \<in> set xs \<Longrightarrow> length (str_bytes v) \<le> length (strs xs)"
  by (induction xs) auto

lemma DecodeDictionary_ok:
  assumes f: "list_all (value_fits t) xs" and n: "length xs < 2 ^ 32" and s: "length (strs xs) < 2 ^ 32" and d: "dict_of xs dict indices"
  shows "DecodeDictionary t (rows xs) (dict_payload xs dict indices) (vec_of t vs) = Inr (vec_of t (vs @ xs))"
proof -
  let ?p = "dict_payload xs dict indices"
  have sd: "set dict = set xs - {Null}" and ld: "length dict < 2 ^ 32" using d n by (auto simp: dict_of_def)
  have "list_all (\<lambda>v. value_fits t v \<and> v \<noteq> Null \<and> length (str_bytes v) < 2 ^ 32) dict"
    using sd f strs_member [of _ xs] s by (fastforce simp: list_all_iff)
  note entries = dict_entry.getN_puts [OF this]
  have row: "DictRow ?p dict indices (vec_of t us) i = Inr (vec_of t (us @ [xs ! i]))" if i: "i < length xs" for us i
  proof -
    have "TestValidity ?p i = Inr (xs ! i \<noteq> Null)" using valid_row [OF i] by (simp add: dict_payload_def)
    moreover have "value_fits t (xs ! i)" using f i by (simp add: list_all_length)
    moreover have "xs ! i \<noteq> Null \<Longrightarrow> unat (indices ! i) < length dict \<and> dict ! unat (indices ! i) = xs ! i"
      using d i by (simp add: dict_of_def)
    ultimately show ?thesis by (auto simp: DictRow_def append_of AppendValue_of Let_def)
  qed
  have "Get (drop (ValidityBytes (length xs)) ?p) = Inr (rows dict, concat (map entry_bytes dict) @
      PutPod (word_of_nat (dict_bw dict) :: byte) @ PackBits indices (dict_bw dict) [])"
    by (simp add: dict_payload_def)
  then show ?thesis
    using rows_loop [of xs "DictRow ?p dict indices" t vs] row entries dict_indices [OF d n, of "[]"] ld n
    by (simp add: DecodeDictionary_def)
qed

section \<open>Frame-of-reference round trip\<close>

text \<open>The loop computing the range of the integers of a chunk.\<close>

definition range_of :: "Value list \<Rightarrow> bool \<times> 64 word \<times> 64 word \<Rightarrow> bool" where
  "range_of xs st = (case st of (any, mn, mx) \<Rightarrow> (any \<longleftrightarrow> (\<exists>v\<in>set xs. v \<noteq> Null)) \<and>
     (if any then mn \<in> raw64 ` (set xs - {Null}) \<and> mx \<in> raw64 ` (set xs - {Null}) \<and>
        (\<forall>v\<in>set xs. v \<noteq> Null \<longrightarrow> sint mn \<le> sint (raw64 v) \<and> sint (raw64 v) \<le> sint mx)
      else mn = int64_max \<and> mx = int64_min))"

lemma sint_64_range: "- (2 ^ 63) \<le> sint (x :: 64 word)" "sint (x :: 64 word) \<le> 2 ^ 63 - 1"
  using sint_greater_eq [of x] sint_less [of x] by simp_all

lemma sint_limits [simp]: "sint int64_max = 2 ^ 63 - 1" "sint int64_min = - (2 ^ 63)"
  by (simp_all add: int64_max_def int64_min_def signed_take_bit_int_eq_self sint_sbintrunc)

lemma MinMaxStep_range:
  assumes "range_of xs st" and "is_int t" and "value_fits t x"
  shows "\<exists>st'. MinMaxStep st x = Inr st' \<and> range_of (xs @ [x]) st'"
proof (cases "x = Null")
  case True
  then show ?thesis using assms(1) by (auto simp: MinMaxStep_def range_of_def split: prod.splits)
next
  case False
  obtain any mn mx where st: "st = (any, mn, mx)" by (cases st)
  have x: "AsI64 x = Inr (raw64 x)" using assms(2,3) False by (simp add: IsNull_def)
  show ?thesis
  proof (cases any)
    case True
    then show ?thesis using assms(1) False x st by (auto simp: MinMaxStep_def range_of_def IsNull_def intro: order_trans)
  next
    case no: False
    have "sint (raw64 x) < sint mn \<or> sint (raw64 x) = sint mn" "sint mx < sint (raw64 x) \<or> sint (raw64 x) = sint mx"
      using no assms(1) st sint_64_range [of "raw64 x"] by (auto simp: range_of_def)
    then have "MinMaxStep st x = Inr (True, raw64 x, raw64 x)"
      using x False st by (auto simp: MinMaxStep_def IsNull_def sint_sbintrunc dest: word_eq_iff_signed [THEN iffD2])
    moreover have "\<forall>v\<in>set xs. v = Null" using assms(1) no st by (auto simp: range_of_def)
    ultimately show ?thesis using False by (auto simp: range_of_def)
  qed
qed

lemma MinMax_fold:
  assumes "is_int t" and "list_all (value_fits t) xs"
  shows "\<exists>st. foldR MinMaxStep (False, int64_max, int64_min) xs = Inr st \<and> range_of xs st"
  using assms(2)
proof (induction xs rule: rev_induct)
  case (snoc x xs)
  then obtain st where "foldR MinMaxStep (False, int64_max, int64_min) xs = Inr st" "range_of xs st" by auto
  then show ?case using MinMaxStep_range [of xs st t x] assms(1) snoc.prems by (auto simp: foldR_append)
qed (simp add: range_of_def)

text \<open>A frame that all the integers of the chunk lie in.\<close>

definition in_frame :: "Value list \<Rightarrow> 64 word \<Rightarrow> 64 word \<Rightarrow> bool" where
  "in_frame xs mn mx \<longleftrightarrow> sint mn \<le> sint mx \<and>
     (\<forall>v\<in>set xs. v \<noteq> Null \<longrightarrow> sint mn \<le> sint (raw64 v) \<and> sint (raw64 v) \<le> sint mx)"

lemma range_in_frame:
  assumes "range_of xs (any, mn, mx)"
  shows "any \<Longrightarrow> in_frame xs mn mx" "\<not> any \<Longrightarrow> in_frame xs 0 0"
  using assms by (force simp: range_of_def in_frame_def)+

lemma unat_delta:
  assumes "sint (a :: 64 word) \<le> sint b"
  shows "unat (b - a) = nat (sint b - sint a)"
proof -
  have "b - a = word_of_int (sint b - sint a)" by simp
  then have "uint (b - a) = (sint b - sint a) mod 2 ^ 64" by (simp add: uint_word_of_int del: of_int_diff of_int_sint)
  also have "\<dots> = sint b - sint a" using assms sint_64_range [of a] sint_64_range [of b] by simp
  finally show ?thesis by (simp add: unat_eq_nat_uint)
qed

definition frame_bw :: "64 word \<Rightarrow> 64 word \<Rightarrow> nat" where
  "frame_bw mn mx = (if mx = mn then 0 else BitsRequired (mx - mn))"

definition deltas_of :: "64 word \<Rightarrow> Value list \<Rightarrow> u64 list" where
  "deltas_of mn xs = map (\<lambda>v. if v = Null then 0 else raw64 v - mn) xs"

definition frame_payload :: "Value list \<Rightarrow> 64 word \<Rightarrow> 64 word \<Rightarrow> byte list" where
  "frame_payload xs mn mx = WriteValidity [] xs @ PutPod mn @ PutPod (word_of_nat (frame_bw mn mx) :: byte) @
     PackBits (deltas_of mn xs) (frame_bw mn mx) []"

lemma EncodeBitpack_ok:
  assumes "is_int t" and "list_all (value_fits t) xs"
  shows "EncodeBitpack xs mn mx = Inr (new_chunk kBitpack (frame_payload xs mn mx))"
proof -
  have "mapR (Delta mn) xs = Inr (deltas_of mn xs)"
    unfolding deltas_of_def by (rule mapR_Inr) (use assms in \<open>auto simp: Delta_def IsNull_def list_all_iff\<close>)
  then show ?thesis
    by (simp add: EncodeBitpack_def Let_def frame_payload_def frame_bw_def PackBits_append [of _ _ "WriteValidity [] xs @ _"])
qed

lemma EncodeChunkWith_bitpack:
  assumes "is_int t" and "list_all (value_fits t) xs"
  obtains mn mx where "in_frame xs mn mx" "mn = mx \<or> mn \<in> raw64 ` (set xs - {Null}) \<and> mx \<in> raw64 ` (set xs - {Null})"
    "EncodeChunkWith t xs kBitpack = Inr (new_chunk kBitpack (frame_payload xs mn mx))"
proof -
  obtain any mn mx where st: "foldR MinMaxStep (False, int64_max, int64_min) xs = Inr (any, mn, mx)" "range_of xs (any, mn, mx)"
    using MinMax_fold [OF assms] by auto
  have "any \<Longrightarrow> mn \<in> raw64 ` (set xs - {Null}) \<and> mx \<in> raw64 ` (set xs - {Null})" using st(2) by (simp add: range_of_def)
  then show thesis
    using that [of mn mx] that [of 0 0] st(1) range_in_frame [OF st(2)] EncodeBitpack_ok [OF assms]
    by (cases any) (simp_all add: EncodeChunkWith_def)
qed

lemma unat_frame_bw [simp]: "unat (word_of_nat (frame_bw mn mx) :: byte) = frame_bw mn mx"
  by (simp add: frame_bw_def)

lemma frame_deltas:
  assumes fr: "in_frame xs mn mx"
  shows "UnpackBits (PackBits (deltas_of mn xs) (frame_bw mn mx) [] @ rest) (length xs) (frame_bw mn mx) = Inr (deltas_of mn xs)"
proof (cases "mx = mn")
  case True
  have "raw64 v = mn" if "v \<in> set xs" "v \<noteq> Null" for v
  proof -
    have "sint (raw64 v) = sint mn" using fr that True by (force simp: in_frame_def)
    then show ?thesis by (rule signed_word_eqI)
  qed
  then have "deltas_of mn xs = replicate (length xs) 0"
    by (auto simp: deltas_of_def map_replicate_const [symmetric])
  then show ?thesis using True bp.zeros [of "length xs" rest] by (simp add: frame_bw_def)
next
  case False
  have "unat v \<le> unat (mx - mn)" if v: "v \<in> set (deltas_of mn xs)" for v
  proof -
    obtain x where x: "x \<in> set xs" "v = (if x = Null then 0 else raw64 x - mn)" using v by (auto simp: deltas_of_def)
    then show ?thesis using fr unat_delta [of mn "raw64 x"] unat_delta [of mn mx] by (auto simp: in_frame_def)
  qed
  then show ?thesis
    using bp.bounded [of "deltas_of mn xs" "mx - mn" rest] False by (simp add: frame_bw_def word_le_nat_alt deltas_of_def)
qed

lemma add_delta:
  assumes "sint a \<le> sint b"
  shows "add_i64 a (b - a) = (if sint b - sint a < 2 ^ 63 then Inr b else Inl (Undefined ''signed overflow''))"
proof (cases "sint b - sint a < 2 ^ 63")
  case True
  have "b - a = word_of_int (sint b - sint a)" by simp
  then have "sint (b - a) = signed_take_bit 63 (sint b - sint a)" by (simp add: signed_of_int del: of_int_diff of_int_sint)
  also have "\<dots> = sint b - sint a" using True assms by (intro signed_take_bit_int_eq_self) auto
  finally show ?thesis using True sint_64_range [of b] by (simp add: add_i64_def)
next
  case False
  have "b - a = word_of_int (sint b - sint a - 2 ^ 64)" by simp
  then have "sint (b - a) = signed_take_bit 63 (sint b - sint a - 2 ^ 64)"
    by (simp add: signed_of_int del: of_int_diff of_int_sint)
  also have "\<dots> = sint b - sint a - 2 ^ 64"
    using False sint_64_range [of a] sint_64_range [of b] by (intro signed_take_bit_int_eq_self) auto
  finally show ?thesis using False sint_64_range [of b] by (simp add: add_i64_def)
qed

definition narrow :: "Value list \<Rightarrow> bool" where
  "narrow xs \<longleftrightarrow> (\<forall>v\<in>set xs. \<forall>w\<in>set xs. v \<noteq> Null \<longrightarrow> w \<noteq> Null \<longrightarrow> sint (raw64 w) - sint (raw64 v) < 2 ^ 63)"

lemma BitpackRow_row:
  assumes t: "is_int t" and f: "list_all (value_fits t) xs" and fr: "in_frame xs mn mx" and i: "i < length xs"
  shows "BitpackRow t (frame_payload xs mn mx) mn (deltas_of mn xs) (vec_of t us) i =
    (if xs ! i \<noteq> Null \<and> 2 ^ 63 \<le> sint (raw64 (xs ! i)) - sint mn then Inl (Undefined ''signed overflow'')
     else Inr (vec_of t (us @ [xs ! i])))"
proof -
  have v: "TestValidity (frame_payload xs mn mx) i = Inr (xs ! i \<noteq> Null)"
    using valid_row [OF i] by (simp add: frame_payload_def)
  have fi: "value_fits t (xs ! i)" using f i by (simp add: list_all_length)
  show ?thesis
  proof (cases "xs ! i = Null")
    case True
    then show ?thesis using v by (simp add: BitpackRow_def append_of)
  next
    case False
    have "sint mn \<le> sint (raw64 (xs ! i))" using fr False i by (simp add: in_frame_def)
    then have "add_i64 mn (deltas_of mn xs ! i) =
        (if sint (raw64 (xs ! i)) - sint mn < 2 ^ 63 then Inr (raw64 (xs ! i)) else Inl (Undefined ''signed overflow''))"
      using add_delta False i by (simp add: deltas_of_def)
    then show ?thesis using v False append_raw [OF fi False, of us] t by (auto simp: BitpackRow_def is_int_def)
  qed
qed

lemma DecodeBitpack_rows:
  assumes "in_frame xs mn mx" and "length xs < 2 ^ 32"
  shows "DecodeBitpack t (rows xs) (frame_payload xs mn mx) out =
    foldR (BitpackRow t (frame_payload xs mn mx) mn (deltas_of mn xs)) out [0..<length xs]"
proof -
  have "Get (drop (ValidityBytes (length xs)) (frame_payload xs mn mx)) =
      Inr (mn, PutPod (word_of_nat (frame_bw mn mx) :: byte) @ PackBits (deltas_of mn xs) (frame_bw mn mx) [])"
    by (simp add: frame_payload_def)
  then show ?thesis using frame_deltas [OF assms(1), of "[]"] assms(2) by (simp add: DecodeBitpack_def)
qed

lemma DecodeBitpack_ok:
  assumes "is_int t" "list_all (value_fits t) xs" "in_frame xs mn mx" "length xs < 2 ^ 32" "sint mx - sint mn < 2 ^ 63"
  shows "DecodeBitpack t (rows xs) (frame_payload xs mn mx) (vec_of t vs) = Inr (vec_of t (vs @ xs))"
proof -
  have "BitpackRow t (frame_payload xs mn mx) mn (deltas_of mn xs) (vec_of t us) i = Inr (vec_of t (us @ [xs ! i]))"
    if i: "i < length xs" for us i
  proof -
    have "xs ! i \<noteq> Null \<Longrightarrow> sint (raw64 (xs ! i)) \<le> sint mx" using assms(3) i by (simp add: in_frame_def)
    then show ?thesis using BitpackRow_row [OF assms(1-3) i, of us] assms(5) by auto
  qed
  then show ?thesis
    using DecodeBitpack_rows [OF assms(3,4)] rows_loop [of xs "BitpackRow t (frame_payload xs mn mx) mn (deltas_of mn xs)" t vs] by simp
qed

section \<open>Encodings as an interface\<close>

text \<open>
  What a column needs of an encoding: the chunks it applies to encode without error, to a
  payload that decodes onto the end of any vector of the same type. All four encodings
  provide it; frame-of-reference only for chunks whose range fits 63 bits.
\<close>

definition chunk_ok :: "ColumnType \<Rightarrow> Value list \<Rightarrow> bool" where
  "chunk_ok t xs \<longleftrightarrow> list_all (value_fits t) xs \<and> length xs + 1 < 2 ^ 32 \<and> length (strs xs) < 2 ^ 32"

locale chunk_codec =
  fixes enc :: "ColumnType \<Rightarrow> Value list \<Rightarrow> EncodedChunk result"
    and dec :: "ColumnType \<Rightarrow> u32 \<Rightarrow> byte list \<Rightarrow> vec \<Rightarrow> vec result"
    and applies :: "ColumnType \<Rightarrow> Value list \<Rightarrow> bool"
  assumes trip: "chunk_ok t xs \<Longrightarrow> applies t xs \<Longrightarrow>
    \<exists>c. enc t xs = Inr c \<and> (\<forall>vs. dec t (rows xs) (payload c) (vec_of t vs) = Inr (vec_of t (vs @ xs)))"
begin

lemma decodes_onto:
  assumes "chunk_ok t xs" "applies t xs" "enc t xs = Inr c" "vec_rep out ys" "vtype out = t" "length (strs (ys @ xs)) < 2 ^ 32"
  shows "\<exists>out'. dec t (rows xs) (payload c) out = Inr out' \<and> vec_rep out' (ys @ xs) \<and> vtype out' = t"
proof -
  have "out = vec_of t ys" "list_all (value_fits t) ys" using assms(4,5) by (auto simp: vec_rep_def)
  then show ?thesis using trip [OF assms(1,2)] assms(1,3,6) by (auto simp: vec_rep_def chunk_ok_def)
qed

end

interpretation plain: chunk_codec EncodePlain DecodePlain "\<lambda>_ _. True"
proof unfold_locales
  fix t xs
  assume c: "chunk_ok t xs"
  show "\<exists>c. EncodePlain t xs = Inr c \<and> (\<forall>vs. DecodePlain t (rows xs) (payload c) (vec_of t vs) = Inr (vec_of t (vs @ xs)))"
    using c EncodePlain_fixed [of t xs] DecodePlain_fixed [of t xs] EncodePlain_varchar [of xs] DecodePlain_varchar [of xs]
    by (cases "t = kVarchar") (simp_all add: chunk_ok_def new_chunk_def)
qed

interpretation rle: chunk_codec EncodeRle DecodeRle "\<lambda>t _. t \<noteq> kVarchar"
proof unfold_locales
  fix t xs
  assume "chunk_ok t xs" "t \<noteq> kVarchar"
  then show "\<exists>c. EncodeRle t xs = Inr c \<and> (\<forall>vs. DecodeRle t (rows xs) (payload c) (vec_of t vs) = Inr (vec_of t (vs @ xs)))"
    using EncodeRle_fixed [of t xs] DecodeRle_fixed [of t xs] by (simp add: chunk_ok_def new_chunk_def)
qed

interpretation dictionary: chunk_codec EncodeDictionary DecodeDictionary "\<lambda>_ _. True"
proof unfold_locales
  fix t xs
  assume c: "chunk_ok t xs"
  then obtain dict indices where d: "dict_of xs dict indices"
    "EncodeDictionary t xs = Inr (new_chunk kDictionary (dict_payload xs dict indices))"
    using EncodeDictionary_ok [of t xs] by (auto simp: chunk_ok_def)
  show "\<exists>c. EncodeDictionary t xs = Inr c \<and>
      (\<forall>vs. DecodeDictionary t (rows xs) (payload c) (vec_of t vs) = Inr (vec_of t (vs @ xs)))"
    using c d(2) DecodeDictionary_ok [OF _ _ _ d(1), of t] by (simp add: chunk_ok_def new_chunk_def)
qed

interpretation bitpack: chunk_codec "\<lambda>t xs. EncodeChunkWith t xs kBitpack" DecodeBitpack "\<lambda>t xs. is_int t \<and> narrow xs"
proof unfold_locales
  fix t xs
  assume c: "chunk_ok t xs" and a: "is_int t \<and> narrow xs"
  then have i: "is_int t" "list_all (value_fits t) xs" "length xs < 2 ^ 32" by (simp_all add: chunk_ok_def)
  show "\<exists>c. EncodeChunkWith t xs kBitpack = Inr c \<and>
      (\<forall>vs. DecodeBitpack t (rows xs) (payload c) (vec_of t vs) = Inr (vec_of t (vs @ xs)))"
  proof (rule EncodeChunkWith_bitpack [OF i(1,2)])
    fix mn mx
    assume m: "in_frame xs mn mx" "mn = mx \<or> mn \<in> raw64 ` (set xs - {Null}) \<and> mx \<in> raw64 ` (set xs - {Null})"
      "EncodeChunkWith t xs kBitpack = Inr (new_chunk kBitpack (frame_payload xs mn mx))"
    have "sint mx - sint mn < 2 ^ 63" using m(2) a by (auto simp: narrow_def)
    then show ?thesis using DecodeBitpack_ok [OF i(1,2) m(1) i(3)] m(3) by (simp add: new_chunk_def)
  qed
qed

section \<open>Choosing the smallest encoding\<close>

lemma EncodeChunkWith_total:
  assumes "chunk_ok t xs" and "e \<in> set (candidates t)"
  shows "\<exists>p. EncodeChunkWith t xs e = Inr (new_chunk e p)"
proof -
  have f: "list_all (value_fits t) xs" "length xs < 2 ^ 32" using assms(1) by (simp_all add: chunk_ok_def)
  have p: "\<exists>p. EncodePlain t xs = Inr (new_chunk kPlain p)"
    using f EncodePlain_fixed [of t xs] EncodePlain_varchar [of xs] by (cases "t = kVarchar") auto
  have d: "\<exists>p. EncodeDictionary t xs = Inr (new_chunk kDictionary p)" using EncodeDictionary_ok [OF f] by metis
  have r: "\<exists>p. EncodeRle t xs = Inr (new_chunk kRle p)" if "t \<noteq> kVarchar" using EncodeRle_fixed [OF that f] by blast
  have b: "\<exists>p. EncodeChunkWith t xs kBitpack = Inr (new_chunk kBitpack p)" if "is_int t"
    using EncodeChunkWith_bitpack [OF that f(1)] by metis
  have c: "e = kPlain \<or> e = kDictionary \<or> (e = kRle \<and> t \<noteq> kVarchar) \<or> (e = kBitpack \<and> is_int t)"
    using assms(2) by (cases t) (auto simp: is_int_def)
  then show ?thesis using p d r b by (auto simp: EncodeChunkWith_def)
qed

lemma TryEncoding_fold:
  assumes "\<And>e. e \<in> set es \<Longrightarrow> EncodeChunkWith t xs e = Inr (ch e)" and "es \<noteq> []"
  shows "\<exists>e\<in>set es. foldR (TryEncoding t xs) None es = Inr (Some (ch e)) \<and>
    (\<forall>e'\<in>set es. length (payload (ch e)) \<le> length (payload (ch e')))"
  using assms
proof (induction es rule: rev_induct)
  case (snoc x es)
  show ?case
  proof (cases "es = []")
    case True
    then show ?thesis using snoc.prems by (simp add: TryEncoding_def)
  next
    case False
    then obtain e where e: "e \<in> set es" "foldR (TryEncoding t xs) None es = Inr (Some (ch e))"
      "\<forall>e'\<in>set es. length (payload (ch e)) \<le> length (payload (ch e'))" using snoc by auto
    let ?b = "if length (payload (ch x)) < length (payload (ch e)) then x else e"
    have "foldR (TryEncoding t xs) None (es @ [x]) = Inr (Some (ch ?b))"
      using e(2) snoc.prems by (simp add: foldR_append TryEncoding_def)
    moreover have "\<forall>e'\<in>set (es @ [x]). length (payload (ch ?b)) \<le> length (payload (ch e'))" using e(3) by fastforce
    ultimately show ?thesis using e(1) by (intro bexI [of _ ?b]) auto
  qed
qed simp

lemma ScanStep_fold:
  assumes "list_all (value_fits t) xs"
  shows "\<exists>mm. foldR (ScanStep t) (0, False, int64_max, int64_min) xs = Inr (word_of_nat (count_list xs Null), mm) \<and>
    (is_int t \<longrightarrow> range_of xs mm)"
  using assms
proof (induction xs rule: rev_induct)
  case Nil
  then show ?case by (simp add: range_of_def)
next
  case (snoc x xs)
  then obtain mm where mm: "foldR (ScanStep t) (0, False, int64_max, int64_min) xs = Inr (word_of_nat (count_list xs Null), mm)"
    "is_int t \<longrightarrow> range_of xs mm" by auto
  have "\<exists>mm'. ScanStep t (word_of_nat (count_list xs Null), mm) x = Inr (word_of_nat (count_list (xs @ [x]) Null), mm') \<and>
      (is_int t \<longrightarrow> range_of (xs @ [x]) mm')"
  proof (cases "x = Null")
    case True
    then show ?thesis using mm(2) by (auto simp: ScanStep_def count_list_append range_of_def add.commute split: prod.splits)
  next
    case False
    then show ?thesis using MinMaxStep_range [of xs mm t x] mm(2) snoc.prems
      by (cases mm) (auto simp: ScanStep_def IsNull_def count_list_append)
  qed
  then show ?case using mm(1) by (auto simp: foldR_append)
qed

text \<open>The header and payload of the chosen chunk.\<close>

lemma EncodeChunk_ok:
  assumes "chunk_ok t xs"
  obtains c ch where "EncodeChunk t xs = Inr c" "encoding c \<in> set (candidates t)"
    "EncodeChunkWith t xs (encoding c) = Inr ch" "payload c = payload ch" "num_rows c = rows xs"
    "null_count c = word_of_nat (count_list xs Null)" "has_zone_map c \<longleftrightarrow> is_int t \<and> (\<exists>v\<in>set xs. v \<noteq> Null)"
    "has_zone_map c \<Longrightarrow> range_of xs (True, min_value c, max_value c)"
    "\<And>e d. e \<in> set (candidates t) \<Longrightarrow> EncodeChunkWith t xs e = Inr d \<Longrightarrow> length (payload c) \<le> length (payload d)"
proof -
  have f: "list_all (value_fits t) xs" using assms by (simp add: chunk_ok_def)
  obtain any mn mx where mm: "foldR (ScanStep t) (0, False, int64_max, int64_min) xs = Inr (word_of_nat (count_list xs Null), any, mn, mx)"
    "is_int t \<longrightarrow> range_of xs (any, mn, mx)" using ScanStep_fold [OF f] by auto
  obtain p where p: "\<And>e. e \<in> set (candidates t) \<Longrightarrow> EncodeChunkWith t xs e = Inr (new_chunk e (p e))"
    using EncodeChunkWith_total [OF assms] by metis
  have "candidates t \<noteq> []" by (cases t) simp_all
  from TryEncoding_fold [of "candidates t" t xs "\<lambda>e. new_chunk e (p e)", OF p this]
  obtain e where e: "e \<in> set (candidates t)" "foldR (TryEncoding t xs) None (candidates t) = Inr (Some (new_chunk e (p e)))"
    "\<forall>e'\<in>set (candidates t). length (p e) \<le> length (p e')" by (auto simp: new_chunk_def)
  let ?z = "is_int t \<and> any"
  let ?c = "(new_chunk e (p e))\<lparr>num_rows := rows xs, null_count := word_of_nat (count_list xs Null), has_zone_map := ?z,
      min_value := (if ?z then mn else 0), max_value := (if ?z then mx else 0)\<rparr>"
  show thesis
  proof (rule that [of ?c "new_chunk e (p e)"])
    show "EncodeChunk t xs = Inr ?c" using mm(1) e(2) by (simp add: EncodeChunk_def Let_def)
    show "has_zone_map ?c \<longleftrightarrow> is_int t \<and> (\<exists>v\<in>set xs. v \<noteq> Null)" using mm(2) by (auto simp: range_of_def)
    show "has_zone_map ?c \<Longrightarrow> range_of xs (True, min_value ?c, max_value ?c)" using mm(2) by auto
    show "length (payload ?c) \<le> length (payload d)" if "e' \<in> set (candidates t)" "EncodeChunkWith t xs e' = Inr d" for e' d
      using p [OF that(1)] that e(3) by (auto simp: new_chunk_def)
  qed (use p [OF e(1)] e(1) in \<open>simp_all add: new_chunk_def\<close>)
qed

text \<open>A frame of 64 bits is larger than the plain encoding, so it is never chosen.\<close>

lemma chosen_frame_narrow:
  assumes ok: "chunk_ok t xs" and t: "is_int t" and m: "in_frame xs mn mx"
    and le: "\<And>d. EncodeChunkWith t xs kPlain = Inr d \<Longrightarrow> length (frame_payload xs mn mx) \<le> length (payload d)"
  shows "narrow xs"
proof -
  have f: "list_all (value_fits t) xs" and tv: "t \<noteq> kVarchar" "FixedWidth t \<le> 8"
    using ok t by (auto simp: chunk_ok_def is_int_def)
  have w: "length (slot_bytes t x) = FixedWidth t" if "x \<in> set xs" for x
    using that f length_slot_bytes by (auto simp: list_all_iff)
  have "length (frame_payload xs mn mx) \<le> ValidityBytes (length xs) + length xs * FixedWidth t"
    using le EncodePlain_fixed [OF tv(1) f] length_concat_blocks [of xs "slot_bytes t", OF w]
    by (simp add: EncodeChunkWith_def new_chunk_def)
  then have "8 + 1 + (length xs * frame_bw mn mx + 7) div 8 \<le> length xs * FixedWidth t"
    by (simp add: frame_payload_def length_PackBits deltas_of_def)
  also have "\<dots> \<le> length xs * 8" using tv(2) by simp
  finally have small: "8 + 1 + (length xs * frame_bw mn mx + 7) div 8 \<le> length xs * 8" .
  have "frame_bw mn mx < 64"
  proof (rule ccontr)
    assume "\<not> frame_bw mn mx < 64"
    then have "length xs * 64 + 7 \<le> length xs * frame_bw mn mx + 7" by simp
    from div_le_mono [OF this, of 8] show False using small by simp
  qed
  moreover have "unat (mx - mn) < 2 ^ frame_bw mn mx" using BitsRequired_bounds(1) [of "mx - mn"] by (simp add: frame_bw_def)
  ultimately have "unat (mx - mn) < 2 ^ 63"
    using power_increasing [of "frame_bw mn mx" 63 "2 :: nat"] by linarith
  then have "sint mx - sint mn < 2 ^ 63" using unat_delta [of mn mx] m by (simp add: in_frame_def)
  then have "sint (raw64 w) - sint (raw64 v) < 2 ^ 63" if "v \<in> set xs" "w \<in> set xs" "v \<noteq> Null" "w \<noteq> Null" for v w
    using m that by (smt (verit) in_frame_def)
  then show ?thesis by (simp add: narrow_def)
qed

lemma chosen_trip:
  assumes ok: "chunk_ok t xs" and c: "EncodeChunk t xs = Inr c"
  shows "DecodeChunk t (encoding c) (num_rows c) (payload c) (vec_of t vs) = Inr (vec_of t (vs @ xs))"
proof (rule EncodeChunk_ok [OF ok])
  fix c' ch
  assume "EncodeChunk t xs = Inr c'" and e: "encoding c' \<in> set (candidates t)" "EncodeChunkWith t xs (encoding c') = Inr ch"
    "payload c' = payload ch" "num_rows c' = rows xs"
    and min: "\<And>e d. e \<in> set (candidates t) \<Longrightarrow> EncodeChunkWith t xs e = Inr d \<Longrightarrow> length (payload c') \<le> length (payload d)"
  then have c': "c' = c" using c by simp
  have "kPlain \<in> set (candidates t)" by (cases t) simp_all
  note minp = min [OF this]
  have rle: "encoding c = kRle \<Longrightarrow> t \<noteq> kVarchar" and bit: "encoding c = kBitpack \<Longrightarrow> is_int t"
    and named: "encoding c \<noteq> kUnnamed b" for b
    using e(1) c' by (cases t; auto simp: is_int_def)+
  have narrow: "narrow xs" if b: "encoding c = kBitpack"
  proof (rule EncodeChunkWith_bitpack [OF bit [OF b]])
    show "list_all (value_fits t) xs" using ok by (simp add: chunk_ok_def)
    fix mn mx
    assume m: "in_frame xs mn mx" "EncodeChunkWith t xs kBitpack = Inr (new_chunk kBitpack (frame_payload xs mn mx))"
    then have "payload c = frame_payload xs mn mx" using e(2,3) b c' by (auto simp: new_chunk_def)
    then show ?thesis using chosen_frame_narrow [OF ok bit [OF b] m(1)] minp c' by simp
  qed
  show ?thesis
  proof (cases "encoding c")
    case kPlain
    then show ?thesis using plain.trip [OF ok TrueI] e c' by (auto simp: EncodeChunkWith_def DecodeChunk_def)
  next
    case kRle
    then show ?thesis using rle.trip [OF ok rle] e c' by (auto simp: EncodeChunkWith_def DecodeChunk_def)
  next
    case kDictionary
    then show ?thesis using dictionary.trip [OF ok TrueI] e c' by (auto simp: EncodeChunkWith_def DecodeChunk_def)
  next
    case kBitpack
    then show ?thesis using bitpack.trip [OF ok conjI [OF bit narrow]] e c' by (auto simp: DecodeChunk_def)
  qed (use named in blast)
qed

section \<open>Properties\<close>

text \<open>C26. Whatever encoding is chosen for a chunk, encoding never throws on values of the
  column's type and decoding the payload appends exactly those values (NULLs, NaN bits and
  extreme integers included) to the target vector, with no undefined behaviour.\<close>

theorem chunk_round_trip:
  assumes "list_all (value_fits t) xs" and "length xs + 1 < 2 ^ 32" and "vec_rep out ys" and "vtype out = t"
    and "length (strs (ys @ xs)) < 2 ^ 32"
  shows "\<exists>c out'. EncodeChunk t xs = Inr c \<and> DecodeChunk t (encoding c) (num_rows c) (payload c) out = Inr out' \<and>
    vec_rep out' (ys @ xs)"
proof -
  have ok: "chunk_ok t xs" using assms by (simp add: chunk_ok_def)
  obtain c where c: "EncodeChunk t xs = Inr c" "num_rows c = rows xs" using EncodeChunk_ok [OF ok] by metis
  have "out = vec_of t ys" "list_all (value_fits t) ys" using assms(3,4) by (auto simp: vec_rep_def)
  then show ?thesis using chosen_trip [OF ok c(1), of ys] c assms(1,5) by (auto simp: vec_rep_def)
qed

theorem chunk_round_trip_witness:
  "\<exists>c out'. EncodeChunk kBigInt [Int64 (- 1), Null, Int64 7] = Inr c \<and>
    DecodeChunk kBigInt (encoding c) (num_rows c) (payload c) (Vector kBigInt) = Inr out' \<and>
    vec_rep out' ([] @ [Int64 (- 1), Null, Int64 7])"
  by (rule chunk_round_trip [OF _ _ vec_rep_Vector]) (simp_all add: Vector_of)

text \<open>The chosen encoding is one of the candidates for the column's type and no candidate
  has a smaller payload.\<close>

theorem chunk_smallest:
  assumes "chunk_ok t xs" and "EncodeChunk t xs = Inr c"
  shows "encoding c \<in> set (candidates t) \<and> (\<exists>d. EncodeChunkWith t xs (encoding c) = Inr d \<and> payload d = payload c) \<and>
    (\<forall>e\<in>set (candidates t). \<exists>d. EncodeChunkWith t xs e = Inr d \<and> length (payload c) \<le> length (payload d))"
proof (rule EncodeChunk_ok [OF assms(1)])
  fix c' ch
  assume "EncodeChunk t xs = Inr c'" and e: "encoding c' \<in> set (candidates t)" "EncodeChunkWith t xs (encoding c') = Inr ch"
    "payload c' = payload ch"
    and min: "\<And>e d. e \<in> set (candidates t) \<Longrightarrow> EncodeChunkWith t xs e = Inr d \<Longrightarrow> length (payload c') \<le> length (payload d)"
  then have "c' = c" using assms(2) by simp
  then show ?thesis using e min EncodeChunkWith_total [OF assms(1)] by metis
qed

theorem chunk_smallest_witness:
  "\<exists>c. EncodeChunk kVarchar [Str ''a''] = Inr c \<and> encoding c \<in> set (candidates kVarchar) \<and>
    (\<exists>d. EncodeChunkWith kVarchar [Str ''a''] (encoding c) = Inr d \<and> payload d = payload c) \<and>
    (\<forall>e\<in>set (candidates kVarchar). \<exists>d. EncodeChunkWith kVarchar [Str ''a''] e = Inr d \<and> length (payload c) \<le> length (payload d))"
proof -
  have ok: "chunk_ok kVarchar [Str ''a'']" by (simp add: chunk_ok_def)
  then obtain c where "EncodeChunk kVarchar [Str ''a''] = Inr c" using EncodeChunk_ok by metis
  from chunk_smallest [OF ok this] this show ?thesis by blast
qed

lemma sint_raw64: "int_of_value v = Some x \<Longrightarrow> sint (raw64 v) = x"
proof (cases v)
  case (Int32 i)
  have "signed_take_bit 63 (sint i) = sint i"
    using sint_greater_eq [of i] sint_less [of i] by (intro signed_take_bit_int_eq_self) auto
  moreover assume "int_of_value v = Some x"
  ultimately show ?thesis using Int32 by (simp add: signed_scast_eq)
qed simp_all

lemma int_of_value_fits: "is_int t \<Longrightarrow> value_fits t v \<Longrightarrow> v \<noteq> Null \<Longrightarrow> int_of_value v = Some (sint (raw64 v))"
  using sint_raw64 [of v] by (cases v) (auto simp: is_int_def)

text \<open>C27. The header of a chunk is exact: it counts the NULLs, has a zone map exactly when an
  integer column has a value in the chunk, and then its bounds are the smallest and the
  largest of the values, so that pruning by them never loses a row.\<close>

theorem zone_map_exact:
  assumes ok: "chunk_ok t xs" and c: "EncodeChunk t xs = Inr c"
  shows "unat (null_count c) = count_list xs Null \<and> unat (num_rows c) = length xs \<and>
    (has_zone_map c \<longleftrightarrow> is_int t \<and> (\<exists>v\<in>set xs. v \<noteq> Null)) \<and>
    (has_zone_map c \<longrightarrow> (\<exists>v\<in>set xs. int_of_value v = Some (sint (min_value c))) \<and> (\<exists>v\<in>set xs. int_of_value v = Some (sint (max_value c))) \<and>
      (\<forall>v\<in>set xs. \<forall>x. int_of_value v = Some x \<longrightarrow> sint (min_value c) \<le> x \<and> x \<le> sint (max_value c)))"
proof (rule EncodeChunk_ok [OF ok])
  fix c' ch
  assume "EncodeChunk t xs = Inr c'" and n: "num_rows c' = rows xs" "null_count c' = word_of_nat (count_list xs Null)"
    and z: "has_zone_map c' \<longleftrightarrow> is_int t \<and> (\<exists>v\<in>set xs. v \<noteq> Null)" "has_zone_map c' \<Longrightarrow> range_of xs (True, min_value c', max_value c')"
  then have c': "c' = c" using c by simp
  have len: "length xs < 2 ^ 32" and f: "\<And>v. v \<in> set xs \<Longrightarrow> value_fits t v" using ok by (auto simp: chunk_ok_def list_all_iff)
  have "count_list xs Null < 2 ^ 32" using count_le_length [of xs Null] len by linarith
  then have "unat (null_count c) = count_list xs Null \<and> unat (num_rows c) = length xs" using n len c' by (simp add: unat_of_nat)
  moreover have "(\<exists>v\<in>set xs. int_of_value v = Some (sint (min_value c))) \<and> (\<exists>v\<in>set xs. int_of_value v = Some (sint (max_value c))) \<and>
      (\<forall>v\<in>set xs. \<forall>x. int_of_value v = Some x \<longrightarrow> sint (min_value c) \<le> x \<and> x \<le> sint (max_value c))" if h: "has_zone_map c"
  proof -
    have r: "range_of xs (True, min_value c, max_value c)" and t: "is_int t" using z c' h by auto
    have "\<exists>v\<in>set xs. v \<noteq> Null \<and> raw64 v = min_value c" "\<exists>v\<in>set xs. v \<noteq> Null \<and> raw64 v = max_value c"
      using r by (auto simp: range_of_def)
    moreover have "sint (min_value c) \<le> x \<and> x \<le> sint (max_value c)" if v: "v \<in> set xs" "int_of_value v = Some x" for v x
    proof -
      have "v \<noteq> Null" using v(2) by auto
      then show ?thesis using r v sint_raw64 [OF v(2)] by (auto simp: range_of_def)
    qed
    ultimately show ?thesis using int_of_value_fits [OF t] f by metis
  qed
  ultimately show ?thesis using z(1) c' by blast
qed

theorem zone_map_exact_witness:
  "\<exists>c. EncodeChunk kInt [Int32 4, Null, Int32 (- 2)] = Inr c \<and> unat (null_count c) = 1 \<and> has_zone_map c \<and>
    sint (min_value c) = - 2 \<and> sint (max_value c) = 4"
proof -
  let ?xs = "[Int32 4, Null, Int32 (- 2)]"
  have ok: "chunk_ok kInt ?xs" by (simp add: chunk_ok_def)
  then obtain c where c: "EncodeChunk kInt ?xs = Inr c" using EncodeChunk_ok by metis
  note z = zone_map_exact [OF ok c]
  have h: "has_zone_map c" "unat (null_count c) = 1" using z by (simp_all add: is_int_def)
  have "sint (min_value c) = 4 \<or> sint (min_value c) = - 2" "sint (min_value c) \<le> - 2"
    "sint (max_value c) = 4 \<or> sint (max_value c) = - 2" "4 \<le> sint (max_value c)" using z h(1) by auto
  then have "sint (min_value c) = - 2" "sint (max_value c) = 4" by linarith+
  then show ?thesis using c h by blast
qed

text \<open>Forced to a particular encoding that applies to the type, a chunk still makes the
  round trip; only frame of reference needs that no two of its integers are \<open>2 ^ 63\<close> or
  more apart.\<close>

theorem forced_round_trip:
  assumes "chunk_ok t xs" and "e \<in> set (candidates t)" and "e = kBitpack \<Longrightarrow> narrow xs"
  shows "\<exists>c. EncodeChunkWith t xs e = Inr c \<and> DecodeChunk t e (rows xs) (payload c) (vec_of t vs) = Inr (vec_of t (vs @ xs))"
proof -
  have a: "e = kRle \<Longrightarrow> t \<noteq> kVarchar" "e = kBitpack \<Longrightarrow> is_int t" "e \<noteq> kUnnamed b" for b
    using assms(2) by (cases t; auto simp: is_int_def)+
  show ?thesis
    using plain.trip [OF assms(1)] rle.trip [OF assms(1) a(1)] dictionary.trip [OF assms(1)]
      bitpack.trip [OF assms(1)] a assms(3)
    by (cases e) (auto simp: EncodeChunkWith_def DecodeChunk_def)
qed

theorem forced_round_trip_witness:
  "\<exists>c. EncodeChunkWith kFloat [Dbl 5, Dbl 5, Null] kRle = Inr c \<and>
    DecodeChunk kFloat kRle (rows [Dbl 5, Dbl 5, Null]) (payload c) (vec_of kFloat []) = Inr (vec_of kFloat ([] @ [Dbl 5, Dbl 5, Null]))"
  by (rule forced_round_trip) (simp_all add: chunk_ok_def)

text \<open>C28. Forced to frame of reference, a BIGINT chunk with two integers \<open>2 ^ 63\<close> or more apart
  encodes, but decoding it overflows a signed addition: \<open>frame_min + delta\<close> is computed on
  \<open>int64_t\<close> although the delta needs 64 unsigned bits.\<close>

theorem bitpack_wide_overflow:
  assumes ok: "chunk_ok kBigInt xs" and wide: "\<not> narrow xs" and c: "EncodeChunkWith kBigInt xs kBitpack = Inr c"
  shows "DecodeChunk kBigInt kBitpack (rows xs) (payload c) (vec_of kBigInt vs) = Inl (Undefined ''signed overflow'')"
proof -
  have t: "is_int kBigInt" and f: "list_all (value_fits kBigInt) xs" and n: "length xs < 2 ^ 32"
    using ok by (simp_all add: chunk_ok_def is_int_def)
  obtain mn mx where m: "in_frame xs mn mx" and p: "payload c = frame_payload xs mn mx"
    using EncodeChunkWith_bitpack [OF t f] c by (metis EncodedChunk.select_convs(7) new_chunk_def sum.inject(2))
  let ?bad = "\<lambda>i. i < length xs \<and> xs ! i \<noteq> Null \<and> 2 ^ 63 \<le> sint (raw64 (xs ! i)) - sint mn"
  obtain v w where vw: "v \<in> set xs" "w \<in> set xs" "v \<noteq> Null" "w \<noteq> Null" "2 ^ 63 \<le> sint (raw64 w) - sint (raw64 v)"
    using wide by (auto simp: narrow_def not_less)
  have "sint mn \<le> sint (raw64 v)" using m vw(1,3) by (simp add: in_frame_def)
  moreover obtain k where "k < length xs" "xs ! k = w" using vw(2) by (metis in_set_conv_nth)
  ultimately have "?bad k" using vw by simp
  then have i0: "?bad (LEAST i. ?bad i)" by (rule LeastI)
  define i where "i = (LEAST i. ?bad i)"
  have i: "?bad i" unfolding i_def by (rule i0)
  have least: "\<not> ?bad j" if "j < i" for j using that unfolding i_def by (rule not_less_Least)
  let ?f = "BitpackRow kBigInt (frame_payload xs mn mx) mn (deltas_of mn xs)"
  note row = BitpackRow_row [OF t f m]
  have pre: "foldR ?f (vec_of kBigInt vs) [0..<length (take i xs)] = Inr (vec_of kBigInt (vs @ take i xs))"
  proof (rule rows_loop)
    fix j
    assume "j < length (take i xs)"
    then show "?f (vec_of kBigInt (vs @ take j (take i xs))) j = Inr (vec_of kBigInt (vs @ take j (take i xs) @ [take i xs ! j]))"
      using row [of j "vs @ take j xs"] least [of j] by auto
  qed
  have "[0..<length xs] = [0..<i] @ i # [Suc i..<length xs]"
    using i upt_add_eq_append [of 0 i "length xs - i"] by (simp add: upt_conv_Cons)
  then have "foldR ?f (vec_of kBigInt vs) [0..<length xs] = Inl (Undefined ''signed overflow'')"
    using pre row [of i "vs @ take i xs"] i by (simp add: foldR_append)
  then show ?thesis using DecodeBitpack_rows [OF m n] p by (simp add: DecodeChunk_def)
qed

theorem bitpack_wide_overflow_witness:
  "\<exists>c. EncodeChunkWith kBigInt [Int64 int64_min, Int64 int64_max] kBitpack = Inr c \<and>
    DecodeChunk kBigInt kBitpack (rows [Int64 int64_min, Int64 int64_max]) (payload c) (vec_of kBigInt []) = Inl (Undefined ''signed overflow'')"
proof -
  have ok: "chunk_ok kBigInt [Int64 int64_min, Int64 int64_max]" by (simp add: chunk_ok_def)
  have "\<not> narrow [Int64 int64_min, Int64 int64_max]" by (simp add: narrow_def)
  moreover obtain c where "EncodeChunkWith kBigInt [Int64 int64_min, Int64 int64_max] kBitpack = Inr c"
    using EncodeChunkWith_total [OF ok, of kBitpack] by auto
  ultimately show ?thesis using bitpack_wide_overflow [OF ok] by blast
qed

text \<open>Forcing an encoding that does not apply to the type (run-length on strings, frame of
  reference on strings or floats) throws as soon as the chunk has a value that is not NULL.\<close>

theorem encoding_not_applicable:
  assumes "list_all (value_fits t) xs" and "\<exists>v\<in>set xs. v \<noteq> Null"
    and "t = kVarchar \<and> e = kRle \<or> t = kVarchar \<and> e = kBitpack \<or> t = kFloat \<and> e = kBitpack"
  shows "EncodeChunkWith t xs e = Inl (RuntimeError ''encoding: expected integer value'')"
proof -
  have bad: "AsI64 v = Inl (RuntimeError ''encoding: expected integer value'')"
    if "v \<in> set xs" for v
  proof -
    have "value_fits t v" using that assms(1) by (simp add: list_all_iff)
    then show ?thesis using assms(3) by (cases v) auto
  qed
  have m: "foldR MinMaxStep st ys = Inl (RuntimeError ''encoding: expected integer value'')"
    if "\<exists>v\<in>set ys. v \<noteq> Null" "set ys \<subseteq> set xs" for ys st
    using that bad by (induction ys) (auto simp: MinMaxStep_def IsNull_def split: prod.splits)
  have r: "mapR (slot_bits t) ys = Inl (RuntimeError ''encoding: expected integer value'')"
    if "\<exists>v\<in>set ys. v \<noteq> Null" "set ys \<subseteq> set xs" "t = kVarchar" for ys
    using that bad by (induction ys) (auto simp: slot_bits_def IsNull_def)
  show ?thesis using assms(2,3) m [of xs] r [of xs] by (auto simp: EncodeChunkWith_def EncodeRle_def)
qed

theorem encoding_not_applicable_witness:
  "EncodeChunkWith kVarchar [Null, Str ''x''] kRle = Inl (RuntimeError ''encoding: expected integer value'')"
  by (rule encoding_not_applicable) simp_all

end
