(* ===== verification/Buffer_Pool.thy ===== *)
theory Buffer_Pool
  imports Disk
begin

text \<open>
  The buffer pool (\<open>storage/buffer_pool.cpp\<close>): a fixed set of frames, a page table, the
  eviction list and the free list. A \<open>Page*\<close> handed to a client is the index of the frame
  it points into; a client writes through it with \<open>poke\<close>. An operation returns its result
  together with the state it leaves, also when it throws.
\<close>

section \<open>State and operations\<close>

record frame =
  fpage :: page
  fpage_id :: PageId
  pin_count :: int
  dirty :: bool
  valid :: bool

text \<open>
  \<open>lru_pos\<close> is the key set of \<open>lru_pos_\<close>; the iterator it stores for a frame points at the
  node of \<open>lru_\<close> that holds that frame, so erasing it removes the frame from the list.
\<close>

record pool =
  disk_manager :: disk
  num_frames :: nat
  frames :: "frame list"
  page_table :: "PageId \<rightharpoonup> nat"
  lru :: "nat list"
  lru_pos :: "nat set"
  free_list :: "nat list"

type_synonym 'a pool_result = "'a result \<times> pool"

definition empty_frame :: frame where
  "empty_frame = \<lparr>fpage = zero_page, fpage_id = kInvalidPageId, pin_count = 0, dirty = False, valid = False\<rparr>"

definition BufferPool :: "disk \<Rightarrow> nat \<Rightarrow> pool result" where
  "BufferPool d n =
     (if n = 0 then Inl (InvalidArgument ''BufferPool: num_frames must be > 0'')
      else Inr \<lparr>disk_manager = d, num_frames = n, frames = replicate n empty_frame,
        page_table = Map.empty, lru = [], lru_pos = {}, free_list = [0..<n]\<rparr>)"

definition Touch :: "pool \<Rightarrow> nat \<Rightarrow> pool" where
  "Touch bp f =
     (let l = (if f \<in> lru_pos bp then remove1 f (lru bp) else lru bp) in
      bp\<lparr>lru := f # l, lru_pos := insert f (lru_pos bp)\<rparr>)"

definition PickVictim :: "pool \<Rightarrow> nat result" where
  "PickVictim bp =
     (case find (\<lambda>f. pin_count (frames bp ! f) = 0) (rev (lru bp)) of
        Some f \<Rightarrow> Inr f
      | None \<Rightarrow> Inl (RuntimeError ''BufferPool: all frames pinned, cannot evict''))"

text \<open>The second half of \<open>LoadIntoFrame\<close>'s choice of a frame: write back and unmap the victim.\<close>

definition EvictVictim :: "pool \<Rightarrow> nat pool_result" where
  "EvictVictim bp =
     (case PickVictim bp of
        Inl e \<Rightarrow> (Inl e, bp)
      | Inr f \<Rightarrow>
          (let victim = frames bp ! f in
           case (if dirty victim then WritePage (disk_manager bp) (fpage_id victim) (fpage victim)
                 else Inr (disk_manager bp)) of
             Inl e \<Rightarrow> (Inl e, bp)
           | Inr d \<Rightarrow>
               (Inr f, bp\<lparr>disk_manager := d,
                  page_table := (page_table bp)(fpage_id victim := None),
                  lru := (if f \<in> lru_pos bp then remove1 f (lru bp) else lru bp),
                  lru_pos := lru_pos bp - {f},
                  frames := (frames bp)[f := victim\<lparr>valid := False\<rparr>]\<rparr>)))"

definition TakeFrame :: "pool \<Rightarrow> nat pool_result" where
  "TakeFrame bp =
     (if free_list bp \<noteq> [] then (Inr (last (free_list bp)), bp\<lparr>free_list := butlast (free_list bp)\<rparr>)
      else EvictVictim bp)"

definition LoadIntoFrame :: "pool \<Rightarrow> PageId \<Rightarrow> nat pool_result" where
  "LoadIntoFrame bp pid =
     (case page_table bp pid of
        Some f \<Rightarrow> (Inr f, bp)
      | None \<Rightarrow>
          (case TakeFrame bp of
             (Inl e, bp1) \<Rightarrow> (Inl e, bp1)
           | (Inr f, bp1) \<Rightarrow>
               (case ReadPage (disk_manager bp1) pid of
                  Inl e \<Rightarrow> (Inl e, bp1)
                | Inr bytes \<Rightarrow>
                    (Inr f, bp1\<lparr>frames := (frames bp1)[f := \<lparr>fpage = bytes, fpage_id = pid,
                               pin_count = 0, dirty = False, valid = True\<rparr>],
                       page_table := (page_table bp1)(pid \<mapsto> f)\<rparr>))))"

definition pin :: "pool \<Rightarrow> nat \<Rightarrow> pool" where
  "pin bp f = bp\<lparr>frames := (frames bp)[f := (frames bp ! f)\<lparr>pin_count := pin_count (frames bp ! f) + 1\<rparr>]\<rparr>"

text \<open>
  \<open>FetchPage\<close> has two critical sections: the lookup under the shared lock, which pins a
  cached page and returns, and the load under the exclusive lock.
\<close>

definition FetchPage_fast :: "pool \<Rightarrow> PageId \<Rightarrow> (nat \<times> pool) option" where
  "FetchPage_fast bp pid =
     (case page_table bp pid of Some f \<Rightarrow> Some (f, pin bp f) | None \<Rightarrow> None)"

definition FetchPage_slow :: "pool \<Rightarrow> PageId \<Rightarrow> nat pool_result" where
  "FetchPage_slow bp pid =
     (case LoadIntoFrame bp pid of
        (Inl e, bp1) \<Rightarrow> (Inl e, bp1)
      | (Inr f, bp1) \<Rightarrow> (Inr f, Touch (pin bp1 f) f))"

definition FetchPage :: "pool \<Rightarrow> PageId \<Rightarrow> nat pool_result" where
  "FetchPage bp pid =
     (case FetchPage_fast bp pid of
        Some (f, bp1) \<Rightarrow> (Inr f, bp1)
      | None \<Rightarrow> FetchPage_slow bp pid)"

definition UnpinPage :: "pool \<Rightarrow> PageId \<Rightarrow> bool \<Rightarrow> bool \<times> pool" where
  "UnpinPage bp pid is_dirty =
     (case page_table bp pid of
        None \<Rightarrow> (False, bp)
      | Some i \<Rightarrow>
          (let f = frames bp ! i in
           if pin_count f \<le> 0 then (False, bp)
           else (True, bp\<lparr>frames := (frames bp)[i :=
                   f\<lparr>pin_count := pin_count f - 1, dirty := (if is_dirty then True else dirty f)\<rparr>]\<rparr>)))"

definition FlushPage :: "pool \<Rightarrow> PageId \<Rightarrow> bool pool_result" where
  "FlushPage bp pid =
     (case page_table bp pid of
        None \<Rightarrow> (Inr False, bp)
      | Some i \<Rightarrow>
          (let f = frames bp ! i in
           if \<not> valid f then (Inr False, bp)
           else case WritePage (disk_manager bp) (fpage_id f) (fpage f) of
               Inl e \<Rightarrow> (Inl e, bp)
             | Inr d \<Rightarrow> (Inr True, bp\<lparr>disk_manager := d, frames := (frames bp)[i := f\<lparr>dirty := False\<rparr>]\<rparr>)))"

text \<open>A client's write through a \<open>Page*\<close>.\<close>

definition poke :: "pool \<Rightarrow> nat \<Rightarrow> (page \<Rightarrow> page) \<Rightarrow> pool" where
  "poke bp f g = bp\<lparr>frames := (frames bp)[f := (frames bp ! f)\<lparr>fpage := g (fpage (frames bp ! f))\<rparr>]\<rparr>"

definition new_page_image :: "PageId \<Rightarrow> page" where
  "new_page_image pid =
     set_payload_bytes 0 (set_next_page_id kInvalidPageId (set_page_type kFree (set_page_id pid zero_page)))"

definition NewPage :: "pool \<Rightarrow> (nat \<times> PageId) pool_result" where
  "NewPage bp =
     (case AllocatePage (disk_manager bp) of
        Inl e \<Rightarrow> (Inl e, bp)
      | Inr (pid, d) \<Rightarrow>
          (case FetchPage (bp\<lparr>disk_manager := d\<rparr>) pid of
             (Inl e, bp1) \<Rightarrow> (Inl e, bp1)
           | (Inr f, bp1) \<Rightarrow> (Inr (f, pid), poke bp1 f (\<lambda>_. new_page_image pid))))"

fun FlushFrames :: "pool \<Rightarrow> nat list \<Rightarrow> unit pool_result" where
  "FlushFrames bp [] = (Inr (), bp)"
| "FlushFrames bp (i # is) =
     (let f = frames bp ! i in
      if valid f \<and> dirty f then
        (case WritePage (disk_manager bp) (fpage_id f) (fpage f) of
           Inl e \<Rightarrow> (Inl e, bp)
         | Inr d \<Rightarrow> FlushFrames (bp\<lparr>disk_manager := d, frames := (frames bp)[i := f\<lparr>dirty := False\<rparr>]\<rparr>) is)
      else FlushFrames bp is)"

definition FlushAll :: "pool \<Rightarrow> unit pool_result" where
  "FlushAll bp = FlushFrames bp [0..<length (frames bp)]"

section \<open>Invariant\<close>

text \<open>
  \<open>L\<close> is the set of frames in no list (empty between operations that succeed): every
  other frame is either free or mapped. A mapped frame that is clean and unpinned holds
  what the disk holds.
\<close>

definition frame_ok :: "pool \<Rightarrow> nat \<Rightarrow> bool" where
  "frame_ok bp i \<longleftrightarrow>
     (let f = frames bp ! i in
      length (fpage f) = kPageSize \<and> 0 \<le> pin_count f \<and>
      (\<not> valid f \<longrightarrow> pin_count f = 0) \<and>
      (valid f \<longrightarrow> page_table bp (fpage_id f) = Some i \<and> unat (fpage_id f) < num_pages (disk_manager bp)) \<and>
      (valid f \<and> \<not> dirty f \<and> pin_count f = 0 \<longrightarrow> fpage f = disk_page (disk_manager bp) (fpage_id f)))"

definition table_ok :: "pool \<Rightarrow> bool" where
  "table_ok bp \<longleftrightarrow> (\<forall>pid i. page_table bp pid = Some i \<longrightarrow>
     i < num_frames bp \<and> valid (frames bp ! i) \<and> fpage_id (frames bp ! i) = pid)"

definition lru_ok :: "pool \<Rightarrow> bool" where
  "lru_ok bp \<longleftrightarrow> distinct (lru bp) \<and> lru_pos bp = set (lru bp) \<and>
     set (lru bp) = {i. i < num_frames bp \<and> valid (frames bp ! i)}"

definition free_ok :: "nat set \<Rightarrow> pool \<Rightarrow> bool" where
  "free_ok L bp \<longleftrightarrow> distinct (free_list bp) \<and>
     set (free_list bp) = {i. i < num_frames bp \<and> \<not> valid (frames bp ! i)} - L \<and>
     (\<forall>i\<in>L. i < num_frames bp \<and> \<not> valid (frames bp ! i))"

definition pool_ok :: "nat set \<Rightarrow> pool \<Rightarrow> bool" where
  "pool_ok L bp \<longleftrightarrow> disk_inv (disk_manager bp) \<and> length (frames bp) = num_frames bp \<and>
     table_ok bp \<and> lru_ok bp \<and> free_ok L bp \<and> (\<forall>i < num_frames bp. frame_ok bp i)"

abbreviation pool_inv :: "pool \<Rightarrow> bool" where
  "pool_inv \<equiv> pool_ok {}"

text \<open>The logical contents of a page: its frame when it is cached, the disk otherwise.\<close>

definition view :: "pool \<Rightarrow> PageId \<Rightarrow> page" where
  "view bp pid = (case page_table bp pid of Some i \<Rightarrow> fpage (frames bp ! i) | None \<Rightarrow> disk_page (disk_manager bp) pid)"

abbreviation pages :: "pool \<Rightarrow> nat" where
  "pages bp \<equiv> num_pages (disk_manager bp)"

text \<open>The number of pins a page has, and whether some frame can be taken.\<close>

definition pins :: "pool \<Rightarrow> PageId \<Rightarrow> int" where
  "pins bp pid = (case page_table bp pid of Some i \<Rightarrow> pin_count (frames bp ! i) | None \<Rightarrow> 0)"

definition has_room :: "pool \<Rightarrow> bool" where
  "has_room bp \<longleftrightarrow> free_list bp \<noteq> [] \<or> (\<exists>f\<in>set (lru bp). pin_count (frames bp ! f) = 0)"

lemmas pool_ok_defs = pool_ok_def table_ok_def lru_ok_def free_ok_def frame_ok_def Let_def

lemma pool_okD:
  assumes "pool_ok L bp"
  shows "disk_inv (disk_manager bp)" "length (frames bp) = num_frames bp" "table_ok bp" "lru_ok bp"
    "free_ok L bp" "i < num_frames bp \<Longrightarrow> frame_ok bp i"
  using assms by (simp_all add: pool_ok_def)

lemma mapped_frame:
  assumes "pool_ok L bp" and "page_table bp pid = Some i"
  shows "i < num_frames bp" "i < length (frames bp)" "valid (frames bp ! i)" "fpage_id (frames bp ! i) = pid"
    "length (fpage (frames bp ! i)) = kPageSize" "0 \<le> pin_count (frames bp ! i)"
    "unat pid < pages bp" "i \<in> set (lru bp)" "i \<in> lru_pos bp" "i \<notin> L"
proof -
  show i: "i < num_frames bp" "valid (frames bp ! i)" "fpage_id (frames bp ! i) = pid"
    using assms pool_okD(3) by (auto simp: table_ok_def)
  then show "i < length (frames bp)" "i \<in> set (lru bp)" "i \<in> lru_pos bp" "i \<notin> L"
    using pool_okD(2,4,5) [OF assms(1)] by (auto simp: lru_ok_def free_ok_def)
  have "frame_ok bp i" using pool_okD(6) [OF assms(1)] i by simp
  then show "length (fpage (frames bp ! i)) = kPageSize" "0 \<le> pin_count (frames bp ! i)" "unat pid < pages bp"
    using i by (simp_all add: frame_ok_def Let_def)
qed

lemma valid_frame:
  assumes "pool_ok L bp" and "i < num_frames bp" and "valid (frames bp ! i)"
  shows "page_table bp (fpage_id (frames bp ! i)) = Some i"
  using assms by (auto simp: pool_ok_defs)

lemma table_inj:
  assumes "pool_ok L bp" and "page_table bp p = Some i" and "page_table bp q = Some i"
  shows "p = q"
  using mapped_frame(4) [OF assms(1,2)] mapped_frame(4) [OF assms(1,3)] by simp

lemma pool_inv_BufferPool:
  "disk_inv d \<Longrightarrow> BufferPool d n = Inr bp \<Longrightarrow> pool_inv bp \<and> has_room bp"
  by (auto simp: BufferPool_def pool_ok_defs has_room_def empty_frame_def zero_page_def split: if_splits)


section \<open>Operations that change one frame\<close>

lemma pool_ok_update_frame:
  assumes ok: "pool_ok L bp" and i: "i < num_frames bp"
    and f: "valid f' = valid (frames bp ! i)" "fpage_id f' = fpage_id (frames bp ! i)"
      "length (fpage f') = kPageSize" "0 \<le> pin_count f'" "\<not> valid f' \<Longrightarrow> pin_count f' = 0"
      "valid f' \<Longrightarrow> \<not> dirty f' \<Longrightarrow> pin_count f' = 0 \<Longrightarrow> fpage f' = disk_page d' (fpage_id f')"
    and d: "disk_inv d'" "pages bp \<le> num_pages d'"
      "\<And>q. unat q < pages bp \<Longrightarrow> q \<noteq> fpage_id f' \<or> \<not> valid f' \<Longrightarrow> disk_page d' q = disk_page (disk_manager bp) q"
  shows "pool_ok L (bp\<lparr>disk_manager := d', frames := (frames bp)[i := f']\<rparr>)"
proof -
  let ?bp = "bp\<lparr>disk_manager := d', frames := (frames bp)[i := f']\<rparr>"
  have len: "length (frames bp) = num_frames bp" using pool_okD(2) [OF ok] .
  have same: "valid (frames ?bp ! j) = valid (frames bp ! j)" "fpage_id (frames ?bp ! j) = fpage_id (frames bp ! j)" for j
    using f(1,2) i len by (cases "j = i"; simp)+
  have "frame_ok ?bp j" if j: "j < num_frames ?bp" for j
  proof (cases "j = i")
    case True
    have "frame_ok bp i" using pool_okD(6) [OF ok i] .
    then show ?thesis using True f i d len by (auto simp: frame_ok_def Let_def)
  next
    case False
    have fj: "frame_ok bp j" using pool_okD(6) [OF ok] j by simp
    have "fpage_id (frames bp ! j) \<noteq> fpage_id f' \<or> \<not> valid f'" if "valid (frames bp ! j)"
      using that False valid_frame [OF ok, of j] valid_frame [OF ok i] f(1,2) j by auto
    then show ?thesis
      using fj False d by (auto simp: frame_ok_def Let_def)
  qed
  moreover have "table_ok ?bp" "lru_ok ?bp" "free_ok L ?bp"
    using pool_okD(3-5) [OF ok] same by (simp_all add: table_ok_def lru_ok_def free_ok_def)
  ultimately show ?thesis using d(1) len by (simp add: pool_ok_def)
qed

lemma pool_ok_set_frame:
  assumes ok: "pool_ok L bp" and i: "i < num_frames bp"
    and f: "valid f' = valid (frames bp ! i)" "fpage_id f' = fpage_id (frames bp ! i)"
      "length (fpage f') = kPageSize" "0 \<le> pin_count f'" "\<not> valid f' \<Longrightarrow> pin_count f' = 0"
      "valid f' \<Longrightarrow> \<not> dirty f' \<Longrightarrow> pin_count f' = 0 \<Longrightarrow>
       fpage f' = disk_page (disk_manager bp) (fpage_id f')"
  shows "pool_ok L (bp\<lparr>frames := (frames bp)[i := f']\<rparr>)"
proof -
  have "bp\<lparr>disk_manager := disk_manager bp, frames := (frames bp)[i := f']\<rparr> = bp\<lparr>frames := (frames bp)[i := f']\<rparr>"
    by (cases bp) simp
  moreover have "pool_ok L (bp\<lparr>disk_manager := disk_manager bp, frames := (frames bp)[i := f']\<rparr>)"
    using assms pool_okD(1) [OF ok] by (intro pool_ok_update_frame) auto
  ultimately show ?thesis by simp
qed

lemma frame_facts:
  assumes "pool_ok L bp" and "i < num_frames bp"
  shows "length (fpage (frames bp ! i)) = kPageSize" "0 \<le> pin_count (frames bp ! i)"
    "\<not> valid (frames bp ! i) \<Longrightarrow> pin_count (frames bp ! i) = 0"
    "valid (frames bp ! i) \<Longrightarrow> \<not> dirty (frames bp ! i) \<Longrightarrow> pin_count (frames bp ! i) = 0 \<Longrightarrow>
     fpage (frames bp ! i) = disk_page (disk_manager bp) (fpage_id (frames bp ! i))"
  using pool_okD(6) [OF assms] by (simp_all add: frame_ok_def Let_def)

lemma pool_ok_pin:
  assumes "pool_ok L bp" and "i < num_frames bp" and "valid (frames bp ! i)"
  shows "pool_ok L (pin bp i)"
  unfolding pin_def using assms frame_facts [OF assms(1,2)] pool_okD(1) [OF assms(1)]
  by (intro pool_ok_set_frame) auto

lemma pool_ok_poke:
  assumes "pool_ok L bp" and "page_table bp pid = Some i" and "0 < pin_count (frames bp ! i)"
    and "length (g (fpage (frames bp ! i))) = kPageSize"
  shows "pool_ok L (poke bp i g)"
  unfolding poke_def using assms mapped_frame [OF assms(1,2)] pool_okD(1) [OF assms(1)]
  by (intro pool_ok_set_frame) auto


text \<open>Unpinning keeps the invariant when the page is marked dirty, is unmodified, or stays pinned.\<close>

definition unmodified :: "pool \<Rightarrow> PageId \<Rightarrow> bool" where
  "unmodified bp pid \<longleftrightarrow>
     (case page_table bp pid of None \<Rightarrow> True
      | Some i \<Rightarrow> dirty (frames bp ! i) \<or> fpage (frames bp ! i) = disk_page (disk_manager bp) pid)"

lemma UnpinPage_ok:
  assumes ok: "pool_ok L bp" and pinned: "0 < pins bp pid"
    and clean: "is_dirty \<or> unmodified bp pid \<or> 1 < pins bp pid"
  obtains bp' where "UnpinPage bp pid is_dirty = (True, bp')" "pool_ok L bp'" "view bp' = view bp"
    "pins bp' = (pins bp)(pid := pins bp pid - 1)" "page_table bp' = page_table bp"
    "disk_manager bp' = disk_manager bp" "num_frames bp' = num_frames bp"
    "\<And>q. q \<noteq> pid \<Longrightarrow> unmodified bp' q = unmodified bp q"
proof -
  obtain i where i: "page_table bp pid = Some i" "0 < pin_count (frames bp ! i)"
    using pinned by (auto simp: pins_def split: option.splits)
  note m = mapped_frame [OF ok i(1)]
  let ?f = "(frames bp ! i)\<lparr>pin_count := pin_count (frames bp ! i) - 1,
              dirty := (if is_dirty then True else dirty (frames bp ! i))\<rparr>"
  let ?bp = "bp\<lparr>frames := (frames bp)[i := ?f]\<rparr>"
  have other: "j \<noteq> i" if "page_table bp q = Some j" "q \<noteq> pid" for q j
    using that i(1) table_inj [OF ok] by blast
  show ?thesis
  proof
    show "UnpinPage bp pid is_dirty = (True, ?bp)" using i by (simp add: UnpinPage_def Let_def)
    show "pool_ok L ?bp"
      using clean i m frame_facts [OF ok m(1)]
      by (intro pool_ok_set_frame [OF ok m(1)]) (auto simp: unmodified_def pins_def split: if_splits)
    show "view ?bp = view bp"
      using m by (auto simp: view_def fun_eq_iff nth_list_update split: option.splits)
    show "pins ?bp = (pins bp)(pid := pins bp pid - 1)"
      using m i other by (auto simp: pins_def fun_eq_iff nth_list_update split: option.splits)
    show "unmodified ?bp q = unmodified bp q" if "q \<noteq> pid" for q
      using other [OF _ that] by (cases "page_table bp q") (simp_all add: unmodified_def)
  qed simp_all
qed

section \<open>Taking a frame\<close>

lemma PickVictim_ok:
  assumes "pool_ok L bp" and "PickVictim bp = Inr f"
  shows "f \<in> set (lru bp)" "f < num_frames bp" "valid (frames bp ! f)" "pin_count (frames bp ! f) = 0"
proof -
  have "find (\<lambda>f. pin_count (frames bp ! f) = 0) (rev (lru bp)) = Some f"
    using assms(2) by (auto simp: PickVictim_def split: option.splits)
  then show "pin_count (frames bp ! f) = 0" "f \<in> set (lru bp)"
    by (auto simp: find_Some_iff in_set_conv_nth rev_nth)
       (metis diff_less length_rev less_nat_zero_code nth_mem set_rev zero_less_Suc length_greater_0_conv
        list.size(3) rev_nth)
  then show "f < num_frames bp" "valid (frames bp ! f)"
    using pool_okD(4) [OF assms(1)] by (auto simp: lru_ok_def)
qed


lemma PickVictim_room:
  assumes "f \<in> set (lru bp)" and "pin_count (frames bp ! f) = 0"
  shows "\<exists>g. PickVictim bp = Inr g"
  using assms find_None_iff [of "\<lambda>f. pin_count (frames bp ! f) = 0" "rev (lru bp)"]
  by (auto simp: PickVictim_def split: option.splits)

text \<open>
  What taking a frame guarantees: the frame is out of every list, no page changes its
  contents, no pinned frame is touched, and no page becomes cached.
\<close>

definition keeps_pages :: "pool \<Rightarrow> pool \<Rightarrow> bool" where
  "keeps_pages bp bp' \<longleftrightarrow> pages bp' = pages bp \<and> io_ok (disk_manager bp') = io_ok (disk_manager bp) \<and>
     num_frames bp' = num_frames bp \<and> (\<forall>q. unat q < pages bp \<longrightarrow> view bp' q = view bp q)"

definition takes_frame :: "pool \<Rightarrow> nat \<Rightarrow> pool \<Rightarrow> bool" where
  "takes_frame bp f bp' \<longleftrightarrow> keeps_pages bp bp' \<and> f < num_frames bp \<and>
     (\<forall>q g. page_table bp' q = Some g \<longleftrightarrow> page_table bp q = Some g \<and> g \<noteq> f) \<and>
     (\<forall>g. g \<noteq> f \<longrightarrow> frames bp' ! g = frames bp ! g) \<and> pin_count (frames bp ! f) = 0 \<and>
     (\<forall>q. page_table bp q \<noteq> Some f \<longrightarrow> unat q < pages bp \<longrightarrow> disk_page (disk_manager bp') q = disk_page (disk_manager bp) q)"

lemma pool_ok_evict:
  assumes ok: "pool_ok L bp" and f: "f < num_frames bp" "valid (frames bp ! f)" "pin_count (frames bp ! f) = 0"
    and d: "disk_inv d'" "num_pages d' = pages bp" "io_ok d' = io_ok (disk_manager bp)"
      "\<And>q. unat q < pages bp \<Longrightarrow> disk_page d' q =
         (if q = fpage_id (frames bp ! f) then fpage (frames bp ! f) else disk_page (disk_manager bp) q)"
    and bp': "bp' = bp\<lparr>disk_manager := d', page_table := (page_table bp)(fpage_id (frames bp ! f) := None),
        lru := remove1 f (lru bp), lru_pos := lru_pos bp - {f},
        frames := (frames bp)[f := (frames bp ! f)\<lparr>valid := False\<rparr>]\<rparr>"
  shows "pool_ok (insert f L) bp'" "takes_frame bp f bp'"
proof -
  let ?v = "fpage_id (frames bp ! f)"
  have len: "length (frames bp) = num_frames bp" using pool_okD(2) [OF ok] .
  have tv: "page_table bp ?v = Some f" using valid_frame [OF ok f(1,2)] .
  have tab: "page_table bp' q = Some g \<longleftrightarrow> page_table bp q = Some g \<and> g \<noteq> f" for q g
  proof (cases "q = ?v")
    case True
    then show ?thesis using tv by (simp add: bp')
  next
    case False
    then have "page_table bp q \<noteq> Some f" using table_inj [OF ok _ tv] by blast
    then show ?thesis using False by (auto simp: bp')
  qed
  have fr: "frames bp' ! g = (if g = f then (frames bp ! f)\<lparr>valid := False\<rparr> else frames bp ! g)" for g
    using f(1) len by (simp add: bp' nth_list_update)
  have "frame_ok bp' j" if j: "j < num_frames bp'" for j
  proof (cases "j = f")
    case True
    then show ?thesis using frame_facts [OF ok f(1)] f by (simp add: frame_ok_def Let_def fr)
  next
    case False
    have "frame_ok bp j" using pool_okD(6) [OF ok] j by (simp add: bp')
    moreover have "fpage_id (frames bp ! j) \<noteq> ?v" if "valid (frames bp ! j)"
      using that False valid_frame [OF ok, of j] tv j by (auto simp: bp')
    ultimately show ?thesis using False d tab by (auto simp: frame_ok_def Let_def fr bp')
  qed
  moreover have "table_ok bp'"
    using pool_okD(3) [OF ok] tab fr by (auto simp: table_ok_def bp' simp del: fun_upd_apply)
  moreover have "lru_ok bp'" "free_ok (insert f L) bp'"
    using pool_okD(4,5) [OF ok] f fr by (auto simp: lru_ok_def free_ok_def bp')
  ultimately show "pool_ok (insert f L) bp'" using d(1) len by (simp add: pool_ok_def bp')
  have "view bp' q = view bp q" if "unat q < pages bp" for q
  proof (cases "q = ?v")
    case True
    then have "page_table bp' q = None" by (simp add: bp')
    then show ?thesis using True tv d(4) [OF that] by (simp add: view_def bp')
  next
    case False
    have g: "page_table bp' q = page_table bp q" using False by (simp add: bp')
    have "page_table bp q \<noteq> Some f" using False table_inj [OF ok _ tv] by blast
    then show ?thesis using g fr False d(4) [OF that]
      by (cases "page_table bp q") (auto simp: view_def bp')
  qed
  then show "takes_frame bp f bp'"
    using tab fr f d tv by (auto simp: takes_frame_def keeps_pages_def bp' simp del: fun_upd_apply)
qed


lemma TakeFrame_free:
  assumes ok: "pool_ok L bp" and ne: "free_list bp \<noteq> []"
  shows "\<exists>f bp'. TakeFrame bp = (Inr f, bp') \<and> pool_ok (insert f L) bp' \<and> takes_frame bp f bp' \<and> f \<notin> L"
proof -
  let ?f = "last (free_list bp)" and ?bp = "bp\<lparr>free_list := butlast (free_list bp)\<rparr>"
  have mem: "?f \<in> set (free_list bp)" using ne by simp
  then have f: "?f < num_frames bp" "\<not> valid (frames bp ! ?f)"
    using pool_okD(5) [OF ok] by (auto simp: free_ok_def)
  obtain ys where "free_list bp = ys @ [?f]" using append_butlast_last_id [OF ne] by metis
  moreover have "distinct (free_list bp)" using pool_okD(5) [OF ok] by (simp add: free_ok_def)
  ultimately have bl: "set (butlast (free_list bp)) = set (free_list bp) - {?f}" "distinct (butlast (free_list bp))"
    by (metis Diff_insert_absorb Un_insert_right butlast_snoc distinct.simps(2) distinct1_rotate list.set(2)
        rotate1.simps(2) set_rotate1, simp add: distinct_butlast)
  have "pool_ok (insert ?f L) ?bp"
    using ok f bl by (auto simp: pool_ok_defs)
  moreover have "takes_frame bp ?f ?bp"
    using f frame_facts [OF ok f(1)] mapped_frame(3) [OF ok]
    by (auto simp: takes_frame_def keeps_pages_def view_def split: option.splits)
  moreover have "?f \<notin> L" using mem pool_okD(5) [OF ok] by (auto simp: free_ok_def)
  moreover have "TakeFrame bp = (Inr ?f, ?bp)" using ne by (simp add: TakeFrame_def)
  ultimately show ?thesis by blast
qed

lemma TakeFrame_cases:
  assumes ok: "pool_ok L bp" and t: "TakeFrame bp = (r, bp1)"
  shows "(\<exists>f. r = Inr f \<and> pool_ok (insert f L) bp1 \<and> takes_frame bp f bp1 \<and> f \<notin> L) \<or> (\<exists>e. r = Inl e) \<and> bp1 = bp"
proof (cases "free_list bp = []")
  case False
  then show ?thesis using TakeFrame_free [OF ok False] t by auto
next
  case True
  show ?thesis
  proof (cases "\<exists>e. r = Inl e")
    case True
    then show ?thesis using t \<open>free_list bp = []\<close>
      by (auto simp: TakeFrame_def EvictVictim_def Let_def split: sum.splits if_splits)
  next
    case False
    then obtain f where r: "r = Inr f" by (cases r) auto
    have e: "EvictVictim bp = (Inr f, bp1)" using t r True by (simp add: TakeFrame_def)
    then have pv: "PickVictim bp = Inr f"
      by (auto simp: EvictVictim_def Let_def split: sum.splits)
    note v = PickVictim_ok [OF ok pv]
    have tf: "page_table bp (fpage_id (frames bp ! f)) = Some f" using valid_frame [OF ok v(2,3)] .
    note m = mapped_frame [OF ok tf]
    obtain d' where d': "(if dirty (frames bp ! f) then WritePage (disk_manager bp) (fpage_id (frames bp ! f)) (fpage (frames bp ! f))
          else Inr (disk_manager bp)) = Inr d'"
      and b1: "bp1 = bp\<lparr>disk_manager := d', page_table := (page_table bp)(fpage_id (frames bp ! f) := None),
        lru := remove1 f (lru bp), lru_pos := lru_pos bp - {f},
        frames := (frames bp)[f := (frames bp ! f)\<lparr>valid := False\<rparr>]\<rparr>"
      using e pv m(9) by (auto simp: EvictVictim_def Let_def split: sum.splits)
    have "disk_inv d'" "num_pages d' = pages bp" "io_ok d' = io_ok (disk_manager bp)"
      "\<And>q. unat q < pages bp \<Longrightarrow> disk_page d' q =
         (if q = fpage_id (frames bp ! f) then fpage (frames bp ! f) else disk_page (disk_manager bp) q)"
      using d' dm.wr_effect [OF pool_okD(1) [OF ok] m(5)] frame_facts(4) [OF ok v(2,3) _ v(4)] pool_okD(1) [OF ok]
      by (auto split: if_splits)
    from pool_ok_evict [OF ok v(2-4) this b1] show ?thesis using r m(10) by blast
  qed
qed

lemma TakeFrame_ok:
  assumes ok: "pool_ok L bp" and io: "io_ok (disk_manager bp)" and room: "has_room bp"
  shows "\<exists>f bp'. TakeFrame bp = (Inr f, bp') \<and> pool_ok (insert f L) bp' \<and> takes_frame bp f bp' \<and> f \<notin> L"
proof (cases "free_list bp = []")
  case False
  then show ?thesis using TakeFrame_free [OF ok] by blast
next
  case True
  then obtain g where pv: "PickVictim bp = Inr g" using room PickVictim_room by (auto simp: has_room_def)
  have "page_table bp (fpage_id (frames bp ! g)) = Some g" using valid_frame [OF ok PickVictim_ok(2,3) [OF ok pv]] .
  note m = mapped_frame [OF ok this]
  have "\<exists>f bp'. TakeFrame bp = (Inr f, bp')"
    using True pv dm.wr_ok [OF pool_okD(1) [OF ok] m(7) io m(5)]
    by (auto simp: TakeFrame_def EvictVictim_def Let_def)
  then show ?thesis using TakeFrame_cases [OF ok] by fastforce
qed

section \<open>Fetching a page\<close>

text \<open>
  What fetching page \<open>pid\<close> into frame \<open>f\<close> guarantees: every page keeps its contents, the
  page gains one pin and no other page gains or loses any, and every pinned page stays in
  the frame it is in.
\<close>

definition fetched :: "pool \<Rightarrow> PageId \<Rightarrow> nat \<Rightarrow> pool \<Rightarrow> bool" where
  "fetched bp pid f bp' \<longleftrightarrow> keeps_pages bp bp' \<and> page_table bp' pid = Some f \<and>
     pins bp' = (pins bp)(pid := pins bp pid + 1) \<and>
     (\<forall>q. 0 < pins bp q \<longrightarrow> page_table bp' q = page_table bp q) \<and>
     (pins bp pid = 0 \<longrightarrow> unmodified bp' pid) \<and>
     (\<forall>q. q \<noteq> pid \<longrightarrow> 0 < pins bp q \<longrightarrow> unmodified bp' q = unmodified bp q)"

lemma fetched_hit:
  assumes ok: "pool_ok L bp" and t: "page_table bp pid = Some f"
  shows "pool_ok L (pin bp f)" "fetched bp pid f (pin bp f)"
proof -
  note m = mapped_frame [OF ok t]
  show "pool_ok L (pin bp f)" using pool_ok_pin [OF ok m(1,3)] .
  have other: "g \<noteq> f" if "page_table bp q = Some g" "q \<noteq> pid" for q g
    using that t table_inj [OF ok] by blast
  have "pins (pin bp f) = (pins bp)(pid := pins bp pid + 1)"
    using m t other by (auto simp: pins_def pin_def fun_eq_iff nth_list_update split: option.splits)
  moreover have "view (pin bp f) q = view bp q" for q
    using m by (auto simp: view_def pin_def nth_list_update split: option.splits)
  moreover have "unmodified (pin bp f) q = unmodified bp q" for q
    using m other by (cases "page_table bp q") (auto simp: unmodified_def pin_def nth_list_update)
  moreover have "unmodified bp pid" if "pins bp pid = 0"
    using that t m(3,4) frame_facts(4) [OF ok m(1)] by (auto simp: unmodified_def pins_def)
  ultimately show "fetched bp pid f (pin bp f)"
    using t by (auto simp: fetched_def keeps_pages_def pin_def)
qed


lemma pool_ok_install:
  assumes ok: "pool_ok (insert f L) bp" and f: "f \<notin> L" and p: "unat pid < pages bp" "page_table bp pid = None"
    and bp': "bp' = Touch (pin (bp\<lparr>frames := (frames bp)[f := \<lparr>fpage = disk_page (disk_manager bp) pid, fpage_id = pid,
          pin_count = 0, dirty = False, valid = True\<rparr>], page_table := (page_table bp)(pid \<mapsto> f)\<rparr>) f) f"
  shows "pool_ok L bp'"
proof -
  have fl: "f < num_frames bp" "\<not> valid (frames bp ! f)" using pool_okD(5) [OF ok] by (auto simp: free_ok_def)
  have len: "length (frames bp) = num_frames bp" using pool_okD(2) [OF ok] .
  have nl: "f \<notin> lru_pos bp" using pool_okD(4) [OF ok] fl by (auto simp: lru_ok_def)
  let ?fr = "\<lparr>fpage = disk_page (disk_manager bp) pid, fpage_id = pid, pin_count = 1, dirty = False, valid = True\<rparr>"
  have fr: "frames bp' = (frames bp)[f := ?fr]" using fl len by (simp add: bp' pin_def Touch_def Let_def)
  have rest: "disk_manager bp' = disk_manager bp" "num_frames bp' = num_frames bp"
    "page_table bp' = (page_table bp)(pid \<mapsto> f)" "lru bp' = f # lru bp" "lru_pos bp' = insert f (lru_pos bp)"
    "free_list bp' = free_list bp"
    using nl by (simp_all add: bp' pin_def Touch_def Let_def)
  have lp: "length (disk_page (disk_manager bp) pid) = kPageSize"
    using dm.length_pg [OF pool_okD(1) [OF ok] p(1)] .
  have "frame_ok bp' j" if j: "j < num_frames bp'" for j
  proof (cases "j = f")
    case True
    then show ?thesis using lp fl len p by (simp add: frame_ok_def Let_def fr rest)
  next
    case False
    have "frame_ok bp j" using pool_okD(6) [OF ok] j by (simp add: rest)
    then show ?thesis using False p(2) by (auto simp: frame_ok_def Let_def fr rest)
  qed
  moreover have "table_ok bp'" using pool_okD(3) [OF ok] fl len by (auto simp: table_ok_def fr rest nth_list_update)
  moreover have "lru_ok bp'" using pool_okD(4) [OF ok] fl nl len by (auto simp: lru_ok_def fr rest nth_list_update)
  moreover have "free_ok L bp'" using pool_okD(5) [OF ok] fl f len by (auto simp: free_ok_def fr rest nth_list_update)
  ultimately show ?thesis using pool_okD(1) [OF ok] len by (simp add: pool_ok_def fr rest)
qed

lemma FetchPage_slow_miss:
  assumes ok: "pool_ok L bp" and p: "unat pid < pages bp" "page_table bp pid = None"
    and t: "TakeFrame bp = (Inr f, bp1)" and ok1: "pool_ok (insert f L) bp1"
    and tk: "takes_frame bp f bp1" and fL: "f \<notin> L"
  shows "\<exists>bp'. FetchPage_slow bp pid = (Inr f, bp') \<and> pool_ok L bp' \<and> fetched bp pid f bp'"
proof -
  have tab: "page_table bp1 q = Some g \<longleftrightarrow> page_table bp q = Some g \<and> g \<noteq> f" for q g
    using tk by (simp add: takes_frame_def)
  have frs: "g \<noteq> f \<Longrightarrow> frames bp1 ! g = frames bp ! g" for g
    using tk by (simp add: takes_frame_def)
  have pf: "pin_count (frames bp ! f) = 0" and k1: "keeps_pages bp bp1"
    using tk by (simp_all add: takes_frame_def)
  have dpq: "disk_page (disk_manager bp1) q = disk_page (disk_manager bp) q"
    if "page_table bp q \<noteq> Some f" "unat q < pages bp" for q
    using tk that by (simp add: takes_frame_def)
  have p1: "unat pid < pages bp1" using p k1 by (simp add: keeps_pages_def)
  have n1: "page_table bp1 pid = None" using p(2) tab [of pid] by (cases "page_table bp1 pid") auto
  let ?fr = "\<lparr>fpage = disk_page (disk_manager bp1) pid, fpage_id = pid, pin_count = 0, dirty = False, valid = True\<rparr>"
  define bp' where bp': "bp' = Touch (pin (bp1\<lparr>frames := (frames bp1)[f := ?fr],
      page_table := (page_table bp1)(pid \<mapsto> f)\<rparr>) f) f"
  have eq: "FetchPage_slow bp pid = (Inr f, bp')"
    using p(2) t dm.rd_ok [OF pool_okD(1) [OF ok1] p1]
    by (simp add: FetchPage_slow_def LoadIntoFrame_def bp')
  have fl: "f < length (frames bp1)" using pool_okD(2,5) [OF ok1] by (auto simp: free_ok_def)
  have r: "page_table bp' = (page_table bp1)(pid \<mapsto> f)" "disk_manager bp' = disk_manager bp1"
    "num_frames bp' = num_frames bp1" "frames bp' ! g = (if g = f then ?fr\<lparr>pin_count := 1\<rparr> else frames bp1 ! g)" for g
    using fl by (simp_all add: bp' pin_def Touch_def Let_def nth_list_update)
  have pinned: "\<exists>g. page_table bp q = Some g \<and> g \<noteq> f \<and> q \<noteq> pid \<and> page_table bp1 q = Some g" if pq: "0 < pins bp q" for q
  proof -
    obtain g where g: "page_table bp q = Some g" "0 < pin_count (frames bp ! g)"
      using pq by (auto simp: pins_def split: option.splits)
    then have "g \<noteq> f" "q \<noteq> pid" using pf p(2) by auto
    then show ?thesis using g(1) tab by blast
  qed
  have "pins bp' q = ((pins bp)(pid := pins bp pid + 1)) q" for q
  proof (cases "page_table bp1 q")
    case None
    then have "page_table bp q = None \<or> page_table bp q = Some f" using tab [of q] by (cases "page_table bp q") auto
    then show ?thesis using None pf p(2) by (auto simp: pins_def r)
  next
    case (Some g)
    then show ?thesis using tab [of q g] frs [of g] p(2) by (auto simp: pins_def r)
  qed
  moreover have "view bp' q = view bp q" if "unat q < pages bp" for q
  proof -
    have "view bp1 q = view bp q" using k1 that by (simp add: keeps_pages_def)
    moreover have "page_table bp1 q \<noteq> Some f" using tab by blast
    ultimately show ?thesis using n1 by (cases "page_table bp1 q") (auto simp: view_def r)
  qed
  moreover have "unmodified bp' q = unmodified bp q" if q: "0 < pins bp q" for q
  proof -
    obtain g where g: "page_table bp q = Some g" "g \<noteq> f" "q \<noteq> pid" "page_table bp1 q = Some g"
      using pinned [OF q] by blast
    then show ?thesis using frs [of g] dpq [of q] mapped_frame(7) [OF ok g(1)] by (simp add: unmodified_def r)
  qed
  moreover have "unmodified bp' pid" by (simp add: unmodified_def r)
  moreover have "page_table bp' q = page_table bp q" if "0 < pins bp q" for q
    using pinned [OF that] by (auto simp: r)
  ultimately have "fetched bp pid f bp'"
    using k1 by (auto simp: fetched_def keeps_pages_def r fun_eq_iff)
  then show ?thesis using eq pool_ok_install [OF ok1 fL p1 n1 bp'] by blast
qed

lemma FetchPage_slow_ok:
  assumes "pool_ok L bp" and "unat pid < pages bp" "page_table bp pid = None"
    and "io_ok (disk_manager bp)" and "has_room bp"
  shows "\<exists>f bp'. FetchPage_slow bp pid = (Inr f, bp') \<and> pool_ok L bp' \<and> fetched bp pid f bp'"
  using TakeFrame_ok [OF assms(1,4,5)] FetchPage_slow_miss [OF assms(1-3)] by blast

lemma FetchPage_ok:
  assumes ok: "pool_ok L bp" and p: "unat pid < pages bp" and io: "io_ok (disk_manager bp)"
    and room: "has_room bp \<or> 0 < pins bp pid"
  shows "\<exists>f bp'. FetchPage bp pid = (Inr f, bp') \<and> pool_ok L bp' \<and> fetched bp pid f bp'"
proof (cases "page_table bp pid")
  case None
  then have "has_room bp" using room by (simp add: pins_def)
  then show ?thesis using FetchPage_slow_ok [OF ok p None io] None by (simp add: FetchPage_def FetchPage_fast_def)
next
  case (Some f)
  then show ?thesis using fetched_hit [OF ok Some] by (simp add: FetchPage_def FetchPage_fast_def)
qed


section \<open>New pages\<close>

lemma pool_ok_grow:
  assumes ok: "pool_ok L bp" and d: "disk_inv d'" "pages bp \<le> num_pages d'"
    "\<And>q. unat q < pages bp \<Longrightarrow> disk_page d' q = disk_page (disk_manager bp) q"
  shows "pool_ok L (bp\<lparr>disk_manager := d'\<rparr>)"
proof -
  have "frame_ok (bp\<lparr>disk_manager := d'\<rparr>) i" if "i < num_frames bp" for i
    using pool_okD(6) [OF ok that] d by (auto simp: frame_ok_def Let_def)
  then show ?thesis using ok d(1) by (simp add: pool_ok_def table_ok_def lru_ok_def free_ok_def)
qed

definition created :: "pool \<Rightarrow> PageId \<Rightarrow> nat \<Rightarrow> page \<Rightarrow> pool \<Rightarrow> bool" where
  "created bp pid f p bp' \<longleftrightarrow> unat pid = pages bp \<and> pages bp' = Suc (pages bp) \<and>
     io_ok (disk_manager bp') = io_ok (disk_manager bp) \<and> num_frames bp' = num_frames bp \<and>
     page_table bp' pid = Some f \<and> view bp' pid = p \<and>
     (\<forall>q. unat q < pages bp \<longrightarrow> view bp' q = view bp q) \<and>
     pins bp pid = 0 \<and> pins bp' = (pins bp)(pid := 1) \<and>
     (\<forall>q. 0 < pins bp q \<longrightarrow> page_table bp' q = page_table bp q)"

lemma poke_effect:
  assumes ok: "pool_ok L bp" and t: "page_table bp pid = Some f" and pinned: "0 < pins bp pid"
    and g: "length (g (view bp pid)) = kPageSize"
  shows "pool_ok L (poke bp f g)" "view (poke bp f g) = (view bp)(pid := g (view bp pid))"
    "pins (poke bp f g) = pins bp" "page_table (poke bp f g) = page_table bp"
    "disk_manager (poke bp f g) = disk_manager bp" "num_frames (poke bp f g) = num_frames bp"
proof -
  note m = mapped_frame [OF ok t]
  have other: "h \<noteq> f" if "page_table bp q = Some h" "q \<noteq> pid" for q h
    using that t table_inj [OF ok] by blast
  show "pool_ok L (poke bp f g)"
    using pool_ok_poke [OF ok t] pinned g t by (simp add: pins_def view_def)
  show "view (poke bp f g) = (view bp)(pid := g (view bp pid))"
    using m t other by (auto simp: view_def poke_def fun_eq_iff nth_list_update split: option.splits)
  show "pins (poke bp f g) = pins bp"
    using m by (auto simp: pins_def poke_def fun_eq_iff nth_list_update split: option.splits)
qed (simp_all add: poke_def)

lemma NewPage_ok:
  assumes ok: "pool_ok L bp" and n: "pages bp < 2 ^ 32" and io: "io_ok (disk_manager bp)" and room: "has_room bp"
  shows "\<exists>f pid bp'. NewPage bp = (Inr (f, pid), bp') \<and> pool_ok L bp' \<and> created bp pid f (new_page_image pid) bp'"
proof -
  obtain pid d where a: "AllocatePage (disk_manager bp) = Inr (pid, d)"
    using dm.alloc_ok [OF io] by blast
  have al: "disk_inv d" "num_pages d = Suc (pages bp)" "io_ok d = io_ok (disk_manager bp)" "unat pid = pages bp"
    "\<And>q. unat q < pages bp \<Longrightarrow> disk_page d q = disk_page (disk_manager bp) q"
    using dm.alloc_effect [OF pool_okD(1) [OF ok] n a] by simp_all
  let ?bp = "bp\<lparr>disk_manager := d\<rparr>"
  have ok': "pool_ok L ?bp" using pool_ok_grow [OF ok al(1)] al by simp
  have none: "page_table bp pid = None"
    using mapped_frame(7) [OF ok, of pid] al(4) by (cases "page_table bp pid") auto
  have vw: "view ?bp q = view bp q" if "unat q < pages bp" for q
    using al(5) [OF that] by (simp add: view_def split: option.splits)
  have pp: "pins ?bp = pins bp" by (simp add: pins_def fun_eq_iff split: option.splits)
  obtain f bp1 where f: "FetchPage ?bp pid = (Inr f, bp1)" and ok1: "pool_ok L bp1" and fe: "fetched ?bp pid f bp1"
    using FetchPage_ok [OF ok', of pid] io room al by (auto simp: has_room_def)
  have e: "page_table bp1 pid = Some f" "pins bp1 = (pins bp)(pid := pins bp pid + 1)" "pins bp pid = 0"
    "pages bp1 = Suc (pages bp)" "io_ok (disk_manager bp1) = io_ok (disk_manager bp)" "num_frames bp1 = num_frames bp"
    using fe al none pp by (simp_all add: fetched_def keeps_pages_def pins_def)
  have e2: "view bp1 q = view bp q" if "unat q < pages bp" for q
    using fe vw [OF that] al that by (simp add: fetched_def keeps_pages_def)
  have e3: "page_table bp1 q = page_table bp q" if "0 < pins bp q" for q
    using fe that pp by (simp add: fetched_def)
  have len: "length (new_page_image pid) = kPageSize"
    by (simp add: new_page_image_def page_simps zero_page_def)
  note pk = poke_effect [OF ok1 e(1), of "\<lambda>_. new_page_image pid"]
  have "NewPage bp = (Inr (f, pid), poke bp1 f (\<lambda>_. new_page_image pid))"
    using a f by (simp add: NewPage_def)
  moreover have "pool_ok L (poke bp1 f (\<lambda>_. new_page_image pid))" using pk(1) len e by simp
  moreover have "created bp pid f (new_page_image pid) (poke bp1 f (\<lambda>_. new_page_image pid))"
    using pk(2-6) len e e2 e3 al(4) by (auto simp: created_def)
  ultimately show ?thesis by blast
qed


section \<open>Flushing\<close>

text \<open>One frame written back: no page changes, and the frame is clean.\<close>

definition flushed :: "pool \<Rightarrow> pool \<Rightarrow> bool" where
  "flushed bp bp' \<longleftrightarrow> keeps_pages bp bp' \<and> page_table bp' = page_table bp \<and> pins bp' = pins bp \<and>
     view bp' = view bp \<and> lru bp' = lru bp \<and> free_list bp' = free_list bp"

lemma flushed_refl: "flushed bp bp"
  by (simp add: flushed_def keeps_pages_def)

lemma flushed_trans: "flushed a b \<Longrightarrow> flushed b c \<Longrightarrow> flushed a c"
  by (simp add: flushed_def keeps_pages_def)

lemma write_back_ok:
  assumes ok: "pool_ok L bp" and i: "i < num_frames bp" "valid (frames bp ! i)"
    and w: "WritePage (disk_manager bp) (fpage_id (frames bp ! i)) (fpage (frames bp ! i)) = Inr d"
    and bp': "bp' = bp\<lparr>disk_manager := d, frames := (frames bp)[i := (frames bp ! i)\<lparr>dirty := False\<rparr>]\<rparr>"
  shows "pool_ok L bp'" "flushed bp bp'"
proof -
  let ?f = "frames bp ! i"
  have t: "page_table bp (fpage_id ?f) = Some i" using valid_frame [OF ok i] .
  note m = mapped_frame [OF ok t]
  have e: "disk_inv d" "num_pages d = pages bp" "io_ok d = io_ok (disk_manager bp)"
    "\<And>q. unat q < pages bp \<Longrightarrow> disk_page d q = (if q = fpage_id ?f then fpage ?f else disk_page (disk_manager bp) q)"
    using dm.wr_effect [OF pool_okD(1) [OF ok] m(5) w] by auto
  show "pool_ok L bp'" unfolding bp'
    using i m e by (intro pool_ok_update_frame [OF ok i(1)]) auto
  have "disk_page d q = disk_page (disk_manager bp) q" if "page_table bp q = None" for q
  proof (cases "unat q < pages bp")
    case True
    then show ?thesis using e(4) [OF True] t that by auto
  next
    case False
    then show ?thesis using w m(7) page_range [OF pool_okD(1) [OF ok] m(7)] m(5)
        page_ranges_disjoint [of "unat q" "unat (fpage_id ?f)"]
      by (auto simp: WritePage_def disk_page_def buffer_simps split: if_splits)
  qed
  then have "view bp' = view bp"
    using m by (auto simp: view_def bp' fun_eq_iff nth_list_update split: option.splits)
  moreover have "pins bp' = pins bp"
    using m by (auto simp: pins_def bp' fun_eq_iff nth_list_update split: option.splits)
  ultimately show "flushed bp bp'" using e by (simp add: flushed_def keeps_pages_def bp')
qed

lemma FlushFrames_ok:
  assumes "pool_ok L bp" and "set is \<subseteq> {..<num_frames bp}" and "FlushFrames bp is = (r, bp')"
  shows "pool_ok L bp'" "flushed bp bp'"
    "r = Inr () \<Longrightarrow> i \<in> set is \<or> \<not> dirty (frames bp ! i) \<Longrightarrow> i < num_frames bp \<Longrightarrow> valid (frames bp ! i) \<Longrightarrow> \<not> dirty (frames bp' ! i)"
    "io_ok (disk_manager bp) \<Longrightarrow> r = Inr ()"
proof -
  have "pool_ok L bp' \<and> flushed bp bp' \<and> (io_ok (disk_manager bp) \<longrightarrow> r = Inr ()) \<and>
    (r = Inr () \<longrightarrow> (\<forall>i. (i \<in> set is \<or> \<not> dirty (frames bp ! i)) \<longrightarrow> i < num_frames bp \<longrightarrow> valid (frames bp ! i) \<longrightarrow>
       \<not> dirty (frames bp' ! i)))"
    using assms
  proof (induction bp "is" rule: FlushFrames.induct)
    case (1 bp)
    then show ?case by (auto simp: flushed_refl)
  next
    case (2 bp i "is")
    let ?f = "frames bp ! i"
    have i: "i < num_frames bp" using "2.prems"(2) by simp
    show ?case
    proof (cases "valid ?f \<and> dirty ?f")
      case False
      then have "FlushFrames bp is = (r, bp')" using "2.prems"(3) by (auto simp: Let_def)
      then have IH: "pool_ok L bp' \<and> flushed bp bp' \<and> (io_ok (disk_manager bp) \<longrightarrow> r = Inr ()) \<and>
        (r = Inr () \<longrightarrow> (\<forall>i. (i \<in> set is \<or> \<not> dirty (frames bp ! i)) \<longrightarrow> i < num_frames bp \<longrightarrow> valid (frames bp ! i) \<longrightarrow>
           \<not> dirty (frames bp' ! i)))"
        using "2.IH"(2) [OF refl False "2.prems"(1)] "2.prems"(2) by simp
      then show ?thesis using False by auto
    next
      case True
      show ?thesis
      proof (cases "WritePage (disk_manager bp) (fpage_id ?f) (fpage ?f)")
        case (Inl e)
        have "page_table bp (fpage_id ?f) = Some i" using valid_frame [OF "2.prems"(1) i] True by simp
        note m = mapped_frame [OF "2.prems"(1) this]
        have "\<not> io_ok (disk_manager bp)"
          using Inl dm.wr_ok [OF pool_okD(1) [OF "2.prems"(1)] m(7) _ m(5)] by auto
        then show ?thesis using Inl True "2.prems" by (auto simp: flushed_refl Let_def)
      next
        case (Inr d)
        let ?bp = "bp\<lparr>disk_manager := d, frames := (frames bp)[i := ?f\<lparr>dirty := False\<rparr>]\<rparr>"
        have w: "pool_ok L ?bp" "flushed bp ?bp"
          using write_back_ok [OF "2.prems"(1) i _ Inr refl] True by auto
        have "FlushFrames ?bp is = (r, bp')" using "2.prems"(3) Inr True by (simp add: Let_def)
        then have IH: "pool_ok L bp' \<and> flushed ?bp bp' \<and> (io_ok (disk_manager ?bp) \<longrightarrow> r = Inr ()) \<and>
          (r = Inr () \<longrightarrow> (\<forall>j. (j \<in> set is \<or> \<not> dirty (frames ?bp ! j)) \<longrightarrow> j < num_frames ?bp \<longrightarrow> valid (frames ?bp ! j) \<longrightarrow>
             \<not> dirty (frames bp' ! j)))"
          using "2.IH"(1) [OF refl True Inr w(1)] "2.prems"(2) by simp
        have io: "io_ok (disk_manager ?bp) = io_ok (disk_manager bp)"
          using w(2) by (simp add: flushed_def keeps_pages_def)
        have len: "i < length (frames bp)" using i pool_okD(2) [OF "2.prems"(1)] by simp
        have "\<not> dirty (frames bp' ! j)"
          if "r = Inr ()" "j \<in> set (i # is) \<or> \<not> dirty (frames bp ! j)" "j < num_frames bp" "valid (frames bp ! j)" for j
          using IH that len by (cases "j = i") auto
        then show ?thesis using IH io flushed_trans [OF w(2)] by auto
      qed
    qed
  qed
  then show "pool_ok L bp'" "flushed bp bp'"
    "r = Inr () \<Longrightarrow> i \<in> set is \<or> \<not> dirty (frames bp ! i) \<Longrightarrow> i < num_frames bp \<Longrightarrow> valid (frames bp ! i) \<Longrightarrow> \<not> dirty (frames bp' ! i)"
    "io_ok (disk_manager bp) \<Longrightarrow> r = Inr ()" by blast+
qed


section \<open>Room\<close>

text \<open>With no frame lost, a frame can be taken whenever fewer pages are pinned than there are frames.\<close>

lemma has_room_if_unpinned:
  assumes ok: "pool_inv bp" and c: "card {q. 0 < pins bp q} < num_frames bp"
  shows "has_room bp"
proof (rule ccontr)
  assume no: "\<not> has_room bp"
  then have v: "valid (frames bp ! i)" if "i < num_frames bp" for i
    using pool_okD(5) [OF ok] that by (auto simp: has_room_def free_ok_def)
  have p: "0 < pins bp (fpage_id (frames bp ! i))" if i: "i < num_frames bp" for i
  proof -
    have "i \<in> set (lru bp)" using pool_okD(4) [OF ok] v i by (simp add: lru_ok_def)
    then have "pin_count (frames bp ! i) \<noteq> 0" using no by (auto simp: has_room_def)
    then show ?thesis using valid_frame [OF ok i v [OF i]] frame_facts(2) [OF ok i] by (simp add: pins_def)
  qed
  have "inj_on (\<lambda>i. fpage_id (frames bp ! i)) {..<num_frames bp}"
    using valid_frame [OF ok] v by (intro inj_onI) (metis lessThan_iff option.inject)
  then have "num_frames bp \<le> card {q. 0 < pins bp q}"
    using p card_inj_on_le [of "\<lambda>i. fpage_id (frames bp ! i)" "{..<num_frames bp}" "{q. 0 < pins bp q}"] by auto
  with c show False by simp
qed

section \<open>The interface of a page store\<close>

text \<open>
  What the paged streams rely on. \<open>at s q\<close> is the pointer through which page \<open>q\<close> can be
  reached, \<open>deref s f\<close> what a pointer shows, \<open>vw s q\<close> the contents of page \<open>q\<close>,
  \<open>pn s q\<close> its pins; \<open>fresh s q\<close> says that dropping the page loses nothing.
\<close>

locale page_store =
  fixes inv :: "'s \<Rightarrow> bool"
    and npages :: "'s \<Rightarrow> nat"
    and capacity :: "'s \<Rightarrow> nat"
    and vw :: "'s \<Rightarrow> PageId \<Rightarrow> page"
    and pn :: "'s \<Rightarrow> PageId \<Rightarrow> int"
    and at :: "'s \<Rightarrow> PageId \<Rightarrow> nat option"
    and deref :: "'s \<Rightarrow> nat \<Rightarrow> page"
    and fresh :: "'s \<Rightarrow> PageId \<Rightarrow> bool"
    and fetch :: "'s \<Rightarrow> PageId \<Rightarrow> nat result \<times> 's"
    and unpin :: "'s \<Rightarrow> PageId \<Rightarrow> bool \<Rightarrow> bool \<times> 's"
    and newp :: "'s \<Rightarrow> (nat \<times> PageId) result \<times> 's"
    and wr :: "'s \<Rightarrow> nat \<Rightarrow> (page \<Rightarrow> page) \<Rightarrow> 's"
  assumes pn_nonneg: "inv s \<Longrightarrow> 0 \<le> pn s q"
    and length_vw: "inv s \<Longrightarrow> unat q < npages s \<Longrightarrow> length (vw s q) = kPageSize"
    and deref_at: "inv s \<Longrightarrow> at s q = Some f \<Longrightarrow> deref s f = vw s q"
    and at_page: "inv s \<Longrightarrow> 0 < pn s q \<Longrightarrow> unat q < npages s"
    and fetch_law: "inv s \<Longrightarrow> unat q < npages s \<Longrightarrow> card {p. 0 < pn s p} < capacity s \<Longrightarrow>
      \<exists>f s'. fetch s q = (Inr f, s') \<and> inv s' \<and> npages s' = npages s \<and> capacity s' = capacity s \<and>
        at s' q = Some f \<and> pn s' = (pn s)(q := pn s q + 1) \<and> (\<forall>p. unat p < npages s \<longrightarrow> vw s' p = vw s p) \<and>
        (\<forall>p. 0 < pn s p \<longrightarrow> at s' p = at s p) \<and> (pn s q = 0 \<longrightarrow> fresh s' q)"
    and unpin_law: "inv s \<Longrightarrow> 0 < pn s q \<Longrightarrow> b \<or> fresh s q \<or> 1 < pn s q \<Longrightarrow>
      \<exists>s'. unpin s q b = (True, s') \<and> inv s' \<and> npages s' = npages s \<and> capacity s' = capacity s \<and>
        vw s' = vw s \<and> pn s' = (pn s)(q := pn s q - 1) \<and> at s' = at s"
    and new_law: "inv s \<Longrightarrow> npages s < 2 ^ 32 \<Longrightarrow> card {p. 0 < pn s p} < capacity s \<Longrightarrow>
      \<exists>f q s'. newp s = (Inr (f, q), s') \<and> inv s' \<and> unat q = npages s \<and> npages s' = Suc (npages s) \<and>
        capacity s' = capacity s \<and> at s' q = Some f \<and> vw s' q = new_page_image q \<and> pn s q = 0 \<and>
        pn s' = (pn s)(q := 1) \<and> (\<forall>p. unat p < npages s \<longrightarrow> vw s' p = vw s p) \<and>
        (\<forall>p. 0 < pn s p \<longrightarrow> at s' p = at s p)"
    and wr_law: "inv s \<Longrightarrow> at s q = Some f \<Longrightarrow> 0 < pn s q \<Longrightarrow> length (g (vw s q)) = kPageSize \<Longrightarrow>
      inv (wr s f g) \<and> npages (wr s f g) = npages s \<and> capacity (wr s f g) = capacity s \<and>
      vw (wr s f g) = (vw s)(q := g (vw s q)) \<and> pn (wr s f g) = pn s \<and> at (wr s f g) = at s"
begin

text \<open>Reading a page: pin, look, unpin. Nothing but the cache changes.\<close>

lemma fetch_read_unpin:
  assumes s: "inv s" and q: "unat q < npages s" and room: "card {p. 0 < pn s p} < capacity s"
  shows "\<exists>f s1 s'. fetch s q = (Inr f, s1) \<and> deref s1 f = vw s q \<and> unpin s1 q False = (True, s') \<and>
    inv s' \<and> npages s' = npages s \<and> capacity s' = capacity s \<and> pn s' = pn s \<and>
    (\<forall>p. unat p < npages s \<longrightarrow> vw s' p = vw s p) \<and> (\<forall>p. 0 < pn s p \<longrightarrow> at s' p = at s p)"
proof -
  obtain f s1 where f: "fetch s q = (Inr f, s1)" "inv s1" "npages s1 = npages s" "capacity s1 = capacity s"
    "at s1 q = Some f" "pn s1 = (pn s)(q := pn s q + 1)" "\<And>p. unat p < npages s \<Longrightarrow> vw s1 p = vw s p"
    "\<And>p. 0 < pn s p \<Longrightarrow> at s1 p = at s p" "pn s q = 0 \<longrightarrow> fresh s1 q"
    using fetch_law [OF s q room] by blast
  have n: "0 \<le> pn s q" using pn_nonneg [OF s] .
  then have "0 < pn s1 q" "False \<or> fresh s1 q \<or> 1 < pn s1 q" using f by auto
  from unpin_law [OF f(2) this] obtain s' where u: "unpin s1 q False = (True, s')" "inv s'" "npages s' = npages s1"
    "capacity s' = capacity s1" "vw s' = vw s1" "pn s' = (pn s1)(q := pn s1 q - 1)" "at s' = at s1"
    by blast
  have "deref s1 f = vw s q" using deref_at [OF f(2,5)] f(7) q by simp
  moreover have "pn s' = pn s" using u(6) f(6) by (simp add: fun_eq_iff)
  ultimately show ?thesis using f(1,3,4,7,8) u by auto
qed

end

lemma view_length:
  assumes ok: "pool_ok L bp" and q: "unat q < pages bp"
  shows "length (view bp q) = kPageSize"
  using mapped_frame(5) [OF ok, of q] dm.length_pg [OF pool_okD(1) [OF ok] q]
  by (cases "page_table bp q") (simp_all add: view_def)

definition store_inv :: "pool \<Rightarrow> bool" where
  "store_inv bp \<longleftrightarrow> pool_inv bp \<and> io_ok (disk_manager bp)"

interpretation ps: page_store store_inv pages num_frames view pins page_table "\<lambda>bp f. fpage (frames bp ! f)"
  unmodified FetchPage UnpinPage NewPage poke
proof unfold_locales
  fix s q
  assume "store_inv s"
  then have ok: "pool_inv s" and io: "io_ok (disk_manager s)" by (simp_all add: store_inv_def)
  show "0 \<le> pins s q" using mapped_frame(6) [OF ok] by (auto simp: pins_def split: option.splits)
  show "length (view s q) = kPageSize" if "unat q < pages s" using view_length [OF ok that] .
  show "fpage (frames s ! f) = view s q" if "page_table s q = Some f" for f using that by (simp add: view_def)
  show "unat q < pages s" if "0 < pins s q"
    using that mapped_frame(7) [OF ok, of q] by (auto simp: pins_def split: option.splits)
  show "\<exists>f s'. FetchPage s q = (Inr f, s') \<and> store_inv s' \<and> pages s' = pages s \<and> num_frames s' = num_frames s \<and>
      page_table s' q = Some f \<and> pins s' = (pins s)(q := pins s q + 1) \<and>
      (\<forall>p. unat p < pages s \<longrightarrow> view s' p = view s p) \<and> (\<forall>p. 0 < pins s p \<longrightarrow> page_table s' p = page_table s p) \<and>
      (pins s q = 0 \<longrightarrow> unmodified s' q)"
    if "unat q < pages s" "card {p. 0 < pins s p} < num_frames s"
    using FetchPage_ok [OF ok that(1) io] has_room_if_unpinned [OF ok that(2)] io
    by (auto simp: fetched_def keeps_pages_def store_inv_def)
  show "\<exists>s'. UnpinPage s q b = (True, s') \<and> store_inv s' \<and> pages s' = pages s \<and> num_frames s' = num_frames s \<and>
      view s' = view s \<and> pins s' = (pins s)(q := pins s q - 1) \<and> page_table s' = page_table s"
    if pq: "0 < pins s q" "b \<or> unmodified s q \<or> 1 < pins s q" for b
  proof -
    obtain s' where "UnpinPage s q b = (True, s')" "pool_inv s'" "view s' = view s"
      "pins s' = (pins s)(q := pins s q - 1)" "page_table s' = page_table s"
      "disk_manager s' = disk_manager s" "num_frames s' = num_frames s"
      using UnpinPage_ok [OF ok pq] by metis
    then show ?thesis using io by (simp add: store_inv_def)
  qed
  show "\<exists>f q s'. NewPage s = (Inr (f, q), s') \<and> store_inv s' \<and> unat q = pages s \<and> pages s' = Suc (pages s) \<and>
      num_frames s' = num_frames s \<and> page_table s' q = Some f \<and> view s' q = new_page_image q \<and> pins s q = 0 \<and>
      pins s' = (pins s)(q := 1) \<and> (\<forall>p. unat p < pages s \<longrightarrow> view s' p = view s p) \<and>
      (\<forall>p. 0 < pins s p \<longrightarrow> page_table s' p = page_table s p)"
    if "pages s < 2 ^ 32" "card {p. 0 < pins s p} < num_frames s"
    using NewPage_ok [OF ok that(1) io] has_room_if_unpinned [OF ok that(2)] io
    by (auto simp: created_def store_inv_def)
  show "store_inv (poke s f g) \<and> pages (poke s f g) = pages s \<and> num_frames (poke s f g) = num_frames s \<and>
      view (poke s f g) = (view s)(q := g (view s q)) \<and> pins (poke s f g) = pins s \<and>
      page_table (poke s f g) = page_table s"
    if "page_table s q = Some f" "0 < pins s q" "length (g (view s q)) = kPageSize" for f g
    using poke_effect [OF ok that(1,2), of g] that(3) io by (simp add: store_inv_def)
qed


section \<open>Critical sections of concurrent threads\<close>

text \<open>
  Every operation is a critical section of \<open>mutex_\<close> (or, for \<open>AllocatePage\<close> inside
  \<open>NewPage\<close>, of the disk manager's mutex), or a write through the pointer of a page the
  thread holds pinned. A run of any number of threads is a sequence of these steps, in any
  order, whether they succeed or throw. \<open>Unpin\<close> carries the discipline its callers
  follow: a page that was modified is unpinned as dirty.
\<close>

datatype pool_op = FetchFast PageId | FetchSlow PageId | Unpin PageId bool | Flush PageId | FlushDirty | Extend | Store PageId

inductive pool_step :: "pool \<Rightarrow> pool_op \<Rightarrow> pool \<Rightarrow> bool" where
  fast: "FetchPage_fast bp pid = Some (f, bp') \<Longrightarrow> pool_step bp (FetchFast pid) bp'"
| slow: "FetchPage_slow bp pid = (r, bp') \<Longrightarrow> pool_step bp (FetchSlow pid) bp'"
| unpin: "UnpinPage bp pid b = (r, bp') \<Longrightarrow> b \<or> unmodified bp pid \<or> 1 < pins bp pid \<Longrightarrow>
    pool_step bp (Unpin pid b) bp'"
| flush: "FlushPage bp pid = (r, bp') \<Longrightarrow> pool_step bp (Flush pid) bp'"
| flush_all: "FlushAll bp = (r, bp') \<Longrightarrow> pool_step bp FlushDirty bp'"
| extend: "AllocatePage (disk_manager bp) = Inr (pid, d) \<Longrightarrow> pages bp < 2 ^ 32 \<Longrightarrow>
    pool_step bp Extend (bp\<lparr>disk_manager := d\<rparr>)"
| store: "page_table bp pid = Some f \<Longrightarrow> 0 < pins bp pid \<Longrightarrow> length (g (view bp pid)) = kPageSize \<Longrightarrow>
    pool_step bp (Store pid) (poke bp f g)"

inductive pool_run :: "pool \<Rightarrow> pool \<Rightarrow> bool" where
  start: "pool_run bp bp"
| step: "pool_run bp bp1 \<Longrightarrow> pool_step bp1 a bp2 \<Longrightarrow> pool_run bp bp2"

text \<open>The part of the invariant a step of some thread guarantees to the others.\<close>

definition others_keep :: "PageId set \<Rightarrow> pool \<Rightarrow> pool \<Rightarrow> bool" where
  "others_keep W bp bp' \<longleftrightarrow> (\<forall>q. 0 < pins bp q \<longrightarrow> page_table bp' q = page_table bp q \<and>
     (q \<notin> W \<longrightarrow> view bp' q = view bp q))"

fun stores_to :: "pool_op \<Rightarrow> PageId set" where
  "stores_to (Store pid) = {pid}"
| "stores_to _ = {}"

lemma pinned_page: "pool_ok L bp \<Longrightarrow> 0 < pins bp q \<Longrightarrow> unat q < pages bp"
  using mapped_frame(7) [of L bp q] by (auto simp: pins_def split: option.splits)

lemma keeps_others:
  assumes "pool_ok L bp" and "keeps_pages bp bp'" and "\<And>q. 0 < pins bp q \<Longrightarrow> page_table bp' q = page_table bp q"
  shows "others_keep {} bp bp'"
  using assms pinned_page [OF assms(1)] by (simp add: others_keep_def keeps_pages_def)


lemma pool_ok_Touch:
  assumes ok: "pool_ok L bp" and f: "f \<in> set (lru bp)"
  shows "pool_ok L (Touch bp f)"
proof -
  have "lru_ok (Touch bp f)"
    using pool_okD(4) [OF ok] f by (auto simp: lru_ok_def Touch_def Let_def)
  moreover have "frame_ok (Touch bp f) i" if "i < num_frames bp" for i
    using pool_okD(6) [OF ok that] by (simp add: frame_ok_def Touch_def Let_def)
  ultimately show ?thesis
    using pool_okD(1-3,5) [OF ok] by (auto simp: pool_ok_def table_ok_def free_ok_def Touch_def Let_def)
qed

lemma FetchPage_slow_step:
  assumes ok: "pool_ok L bp" and s: "FetchPage_slow bp pid = (r, bp')"
  shows "\<exists>L'. pool_ok L' bp' \<and> others_keep {} bp bp'"
proof (cases "page_table bp pid")
  case (Some f)
  note h = fetched_hit [OF ok Some] and m = mapped_frame [OF ok Some]
  have b: "bp' = Touch (pin bp f) f" using s Some by (simp add: FetchPage_slow_def LoadIntoFrame_def)
  have "pool_ok L bp'" unfolding b using h(1) m(8) by (intro pool_ok_Touch) (simp_all add: pin_def)
  moreover have "others_keep {} bp bp'"
    using m by (auto simp: others_keep_def b pin_def Touch_def Let_def view_def nth_list_update split: option.splits)
  ultimately show ?thesis by blast
next
  case None
  obtain r1 bp1 where t: "TakeFrame bp = (r1, bp1)" by fastforce
  from TakeFrame_cases [OF ok t] consider (taken) f where "r1 = Inr f" "pool_ok (insert f L) bp1" "takes_frame bp f bp1" "f \<notin> L"
    | (failed) e where "r1 = Inl e" "bp1 = bp" by blast
  then show ?thesis
  proof cases
    case failed
    then have "bp' = bp" using s None t by (simp add: FetchPage_slow_def LoadIntoFrame_def)
    then show ?thesis using ok by (auto simp: others_keep_def)
  next
    case taken
    show ?thesis
    proof (cases "unat pid < pages bp")
      case True
      then obtain bp2 where "FetchPage_slow bp pid = (Inr f, bp2)" "pool_ok L bp2" "fetched bp pid f bp2"
        using FetchPage_slow_miss [OF ok True None] t taken by blast
      then show ?thesis using s keeps_others [OF ok] by (auto simp: fetched_def)
    next
      case False
      have k: "keeps_pages bp bp1" using taken(3) by (simp add: takes_frame_def)
      then have "\<exists>m. ReadPage (disk_manager bp1) pid = Inl (OutOfRange m)"
        using False by (intro dm.rd_bad) (simp add: keeps_pages_def)
      then have b: "bp' = bp1" using s None t taken(1) by (auto simp: FetchPage_slow_def LoadIntoFrame_def)
      have "page_table bp1 q = page_table bp q" if "0 < pins bp q" for q
        using that taken(3) by (auto simp: pins_def takes_frame_def split: option.splits)
      then show ?thesis using taken(2) b keeps_others [OF ok k] by blast
    qed
  qed
qed

lemma pool_step_ok:
  assumes "pool_step bp a bp'" and ok: "pool_ok L bp"
  shows "\<exists>L'. pool_ok L' bp' \<and> others_keep (stores_to a) bp bp'"
  using assms(1)
proof cases
  case (fast pid f)
  then have t: "page_table bp pid = Some f" "bp' = pin bp f" by (auto simp: FetchPage_fast_def split: option.splits)
  then show ?thesis using fetched_hit [OF ok t(1)] keeps_others [OF ok, of bp'] fast(1)
    by (auto simp: fetched_def)
next
  case (slow pid r)
  then show ?thesis using FetchPage_slow_step [OF ok] by simp
next
  case (unpin pid b r)
  show ?thesis
  proof (cases "0 < pins bp pid")
    case True
    then show ?thesis using UnpinPage_ok [OF ok True unpin(3)] unpin ok by (metis others_keep_def prod.inject)
  next
    case False
    then have "bp' = bp" using unpin(2) by (auto simp: UnpinPage_def pins_def Let_def split: option.splits if_splits)
    then show ?thesis using ok unpin(1) by (auto simp: others_keep_def)
  qed
next
  case (flush pid r)
  have "bp' = bp \<or> (\<exists>L'. pool_ok L' bp' \<and> flushed bp bp')"
  proof (cases "page_table bp pid")
    case None
    then show ?thesis using flush(2) by (simp add: FlushPage_def)
  next
    case (Some i)
    note m = mapped_frame [OF ok Some]
    show ?thesis
      using flush(2) Some m write_back_ok [OF ok m(1,3) _ refl] by (auto simp: FlushPage_def Let_def split: sum.splits)
  qed
  then show ?thesis using ok flush(1) by (auto simp: flushed_def others_keep_def)
next
  case (flush_all r)
  then show ?thesis using FlushFrames_ok(1,2) [OF ok _ flush_all(2) [unfolded FlushAll_def]] pool_okD(2) [OF ok]
    by (auto simp: flushed_def others_keep_def lessThan_atLeast0)
next
  case (extend pid d)
  have "disk_inv d" "num_pages d = Suc (pages bp)" "\<And>q. unat q < pages bp \<Longrightarrow> disk_page d q = disk_page (disk_manager bp) q"
    using dm.alloc_effect [OF pool_okD(1) [OF ok] extend(4,3)] by auto
  moreover from this have "view bp' q = view bp q" if "0 < pins bp q" for q
    using pinned_page [OF ok that] that by (auto simp: extend view_def pins_def split: option.splits)
  ultimately show ?thesis using pool_ok_grow [OF ok] extend by (fastforce simp: others_keep_def)
next
  case (store pid f g)
  then show ?thesis using poke_effect [OF ok store(3,4), of g] by (auto simp: others_keep_def)
qed


section \<open>Properties\<close>

text \<open>A pool over a new database file, for the instances below.\<close>

definition sample_pool :: pool where
  "sample_pool = \<lparr>disk_manager = sample_disk, num_frames = 3, frames = replicate 3 empty_frame,
     page_table = Map.empty, lru = [], lru_pos = {}, free_list = [0..<3]\<rparr>"

lemma sample_pool:
  "BufferPool sample_disk 3 = Inr sample_pool" "pool_inv sample_pool" "store_inv sample_pool" "num_frames sample_pool = 3"
  "disk_manager sample_pool = sample_disk" "pages sample_pool = 1" "pins sample_pool q = 0"
proof -
  show b: "BufferPool sample_disk 3 = Inr sample_pool" by (simp add: BufferPool_def sample_pool_def)
  show "pool_inv sample_pool" using pool_inv_BufferPool [OF sample_disk(2) b] by simp
  then show "store_inv sample_pool" by (simp add: store_inv_def sample_pool_def sample_disk)
qed (simp_all add: sample_pool_def sample_disk pins_def)

text \<open>C16. Fetching a page never fails while a frame is unpinned, gives a pointer to the page's
  current contents with one pin more, changes the contents of no page (whatever is evicted
  is written back if it was modified), and moves no pinned page.\<close>

theorem FetchPage_refines:
  assumes "pool_inv bp" and "io_ok (disk_manager bp)" and "unat pid < pages bp"
    and "card {q. 0 < pins bp q} < num_frames bp"
  shows "\<exists>f bp'. FetchPage bp pid = (Inr f, bp') \<and> pool_inv bp' \<and> fpage (frames bp' ! f) = view bp pid \<and>
    pins bp' = (pins bp)(pid := pins bp pid + 1) \<and> (\<forall>q. unat q < pages bp \<longrightarrow> view bp' q = view bp q) \<and>
    (\<forall>q. 0 < pins bp q \<longrightarrow> page_table bp' q = page_table bp q)"
proof -
  obtain f bp' where f: "FetchPage bp pid = (Inr f, bp')" "pool_inv bp'" "fetched bp pid f bp'"
    using FetchPage_ok [OF assms(1,3,2)] has_room_if_unpinned [OF assms(1,4)] by blast
  have "view bp' pid = fpage (frames bp' ! f)" using f(3) by (simp add: view_def fetched_def)
  then show ?thesis using f assms(3) by (auto simp: fetched_def keeps_pages_def)
qed

theorem FetchPage_refines_witness:
  "\<exists>f bp'. FetchPage sample_pool 0 = (Inr f, bp') \<and> pool_inv bp' \<and> fpage (frames bp' ! f) = view sample_pool 0 \<and>
    pins bp' = (pins sample_pool)(0 := pins sample_pool 0 + 1) \<and>
    (\<forall>q. unat q < pages sample_pool \<longrightarrow> view bp' q = view sample_pool q) \<and>
    (\<forall>q. 0 < pins sample_pool q \<longrightarrow> page_table bp' q = page_table sample_pool q)"
  by (rule FetchPage_refines) (simp_all add: sample_pool sample_disk)

lemma FlushAll_effect:
  assumes "pool_inv bp" and "io_ok (disk_manager bp)"
  shows "\<exists>bp'. FlushAll bp = (Inr (), bp') \<and> pool_inv bp' \<and> keeps_pages bp bp' \<and> view bp' = view bp \<and> pins bp' = pins bp \<and>
    (\<forall>q. unat q < pages bp \<longrightarrow> pins bp q = 0 \<longrightarrow> disk_page (disk_manager bp') q = view bp q)"
proof -
  obtain r bp' where f: "FlushAll bp = (r, bp')" by fastforce
  then have ff: "FlushFrames bp [0..<num_frames bp] = (r, bp')" using pool_okD(2) [OF assms(1)] by (simp add: FlushAll_def)
  note F = FlushFrames_ok [OF assms(1) _ ff]
  have sub: "set [0..<num_frames bp] \<subseteq> {..<num_frames bp}" by auto
  have r: "r = Inr ()" and ok: "pool_inv bp'" and fl: "flushed bp bp'" using F(4) [OF sub assms(2)] F(1,2) [OF sub] by auto
  have "disk_page (disk_manager bp') q = view bp q" if "pins bp q = 0" for q
  proof (cases "page_table bp q")
    case None
    then have "page_table bp' q = None" using fl by (simp add: flushed_def)
    then have "view bp' q = disk_page (disk_manager bp') q" by (simp add: view_def)
    then show ?thesis using fl by (simp add: flushed_def)
  next
    case (Some i)
    note m = mapped_frame [OF assms(1) Some]
    have t: "page_table bp' q = Some i" and p: "pins bp' q = 0" and v: "view bp' q = view bp q"
      using Some fl that by (simp_all add: flushed_def)
    note m' = mapped_frame [OF ok t]
    have "\<not> dirty (frames bp' ! i)" using F(3) [OF sub r _ m(1,3)] m(1) by auto
    then show ?thesis using frame_facts(4) [OF ok m'(1,3)] p t m'(4) v by (simp add: pins_def view_def)
  qed
  then show ?thesis using f r ok fl by (simp add: flushed_def)
qed

text \<open>C24. Flushing everything succeeds on a working disk, changes the contents of no page, and
  leaves on the disk the current contents of every page that is not pinned.\<close>

theorem FlushAll_durable:
  assumes "pool_inv bp" and "io_ok (disk_manager bp)"
  shows "\<exists>bp'. FlushAll bp = (Inr (), bp') \<and> pool_inv bp' \<and> view bp' = view bp \<and> pins bp' = pins bp \<and>
    (\<forall>q. unat q < pages bp \<longrightarrow> pins bp q = 0 \<longrightarrow> disk_page (disk_manager bp') q = view bp q)"
  using FlushAll_effect [OF assms] by blast

theorem FlushAll_durable_witness:
  "\<exists>bp'. FlushAll sample_pool = (Inr (), bp') \<and> pool_inv bp' \<and> view bp' = view sample_pool \<and> pins bp' = pins sample_pool \<and>
    (\<forall>q. unat q < pages sample_pool \<longrightarrow> pins sample_pool q = 0 \<longrightarrow> disk_page (disk_manager bp') q = view sample_pool q)"
  by (rule FlushAll_durable) (simp_all add: sample_pool sample_disk)

text \<open>C17. In every run of any threads from a consistent pool, in any interleaving of their
  critical sections and with any of them failing, the pool stays consistent, and a next
  step of any thread neither moves a pinned page nor changes it, unless it is a store to
  that page.\<close>

theorem pool_run_safe:
  assumes "pool_run bp0 bp" and "pool_inv bp0"
  shows "(\<exists>L. pool_ok L bp) \<and> (\<forall>a bp'. pool_step bp a bp' \<longrightarrow> others_keep (stores_to a) bp bp')"
proof -
  have "\<exists>L. pool_ok L bp" using assms
  proof (induction rule: pool_run.induct)
    case (start bp)
    then show ?case by blast
  next
    case (step bp bp1 a bp2)
    then show ?case using pool_step_ok by blast
  qed
  then show ?thesis using pool_step_ok by blast
qed

theorem pool_run_safe_witness:
  "(\<exists>L. pool_ok L (snd (FetchPage_slow sample_pool 7))) \<and>
   others_keep {} (snd (FetchPage_slow sample_pool 7)) (snd (FetchPage_slow (snd (FetchPage_slow sample_pool 7)) 0))"
proof -
  have "pool_run sample_pool (snd (FetchPage_slow sample_pool 7))"
    using pool_run.step [OF pool_run.start pool_step.slow [OF prod.collapse [symmetric]]] .
  from pool_run_safe [OF this sample_pool(2)] show ?thesis
    using pool_step.slow [OF prod.collapse [symmetric]] by fastforce
qed

text \<open>C25. If writing back the victim fails, the fetch throws and leaves the pool as it was: no
  modified page is lost.\<close>

theorem FetchPage_failed_write_back:
  assumes "page_table bp pid = None" and "free_list bp = []" and "PickVictim bp = Inr f" and "dirty (frames bp ! f)"
    and "WritePage (disk_manager bp) (fpage_id (frames bp ! f)) (fpage (frames bp ! f)) = Inl e"
  shows "FetchPage bp pid = (Inl e, bp)"
  using assms by (simp add: FetchPage_def FetchPage_fast_def FetchPage_slow_def LoadIntoFrame_def TakeFrame_def
      EvictVictim_def Let_def)

theorem FetchPage_failed_write_back_witness:
  "let f = empty_frame\<lparr>fpage_id := 0, dirty := True, valid := True\<rparr>;
       bp = \<lparr>disk_manager = sample_disk\<lparr>io_ok := False\<rparr>, num_frames = 1, frames = [f], page_table = [0 \<mapsto> 0],
             lru = [0], lru_pos = {0}, free_list = []\<rparr>
   in FetchPage bp 1 = (Inl (RuntimeError ''DiskManager::WritePage: write failed''), bp)"
  unfolding Let_def
  by (rule FetchPage_failed_write_back [where f = 0])
     (simp_all add: PickVictim_def empty_frame_def WritePage_def sample_disk_def)

text \<open>A fetch that hits the cache leaves the eviction list as it is: the order in which
  pages are evicted is the order in which they were loaded, not the order of their last use.\<close>

theorem FetchPage_hit_keeps_order:
  assumes "page_table bp pid = Some f" and "f < length (frames bp)"
  shows "\<exists>bp'. FetchPage bp pid = (Inr f, bp') \<and> lru bp' = lru bp \<and>
    pin_count (frames bp' ! f) = pin_count (frames bp ! f) + 1"
  using assms by (simp add: FetchPage_def FetchPage_fast_def pin_def)

theorem FetchPage_hit_keeps_order_witness:
  "let bp = sample_pool\<lparr>page_table := [0 \<mapsto> 1], lru := [2, 1]\<rparr> in
   \<exists>bp'. FetchPage bp 0 = (Inr 1, bp') \<and> lru bp' = [2, 1] \<and> pin_count (frames bp' ! 1) = 1"
  using FetchPage_hit_keeps_order [of "sample_pool\<lparr>page_table := [0 \<mapsto> 1], lru := [2, 1]\<rparr>" 0 1]
  by (simp add: sample_pool_def empty_frame_def numeral_3_eq_3)

text \<open>
  A fetch of an id outside the file throws after a frame has been taken, and the frame is
  not given back.
\<close>

fun fetch_again :: "nat \<Rightarrow> pool \<Rightarrow> PageId \<Rightarrow> pool" where
  "fetch_again 0 bp pid = bp"
| "fetch_again (Suc k) bp pid = fetch_again k (snd (FetchPage bp pid)) pid"

lemma FetchPage_bad_id:
  assumes "page_table bp = Map.empty" and "free_list bp \<noteq> []" and "pages bp \<le> unat bad"
  shows "FetchPage bp bad = (Inl (OutOfRange ''DiskManager::ReadPage: page_id out of range''),
    bp\<lparr>free_list := butlast (free_list bp)\<rparr>)"
  using assms by (simp add: FetchPage_def FetchPage_fast_def FetchPage_slow_def LoadIntoFrame_def TakeFrame_def ReadPage_def)

lemma fetch_again_bad_id:
  assumes "page_table bp = Map.empty" and "k \<le> length (free_list bp)" and "pages bp \<le> unat bad"
  shows "fetch_again k bp bad = bp\<lparr>free_list := take (length (free_list bp) - k) (free_list bp)\<rparr>"
  using assms
proof (induction k arbitrary: bp)
  case (Suc k)
  then have "free_list bp \<noteq> []" by auto
  note f = FetchPage_bad_id [OF Suc.prems(1) this Suc.prems(3)]
  have "take (length (butlast (free_list bp)) - k) (butlast (free_list bp)) =
      take (length (free_list bp) - Suc k) (free_list bp)"
    using \<open>free_list bp \<noteq> []\<close> by (simp add: take_butlast)
  then show ?case
    using f Suc.IH [of "bp\<lparr>free_list := butlast (free_list bp)\<rparr>"] Suc.prems by simp
qed simp

text \<open>C32. In a new pool, as many fetches of a page outside the file as there are frames leave a
  pool in which no page is pinned and yet every fetch fails with "all frames pinned".\<close>

theorem FetchPage_bad_id_leaks_frames:
  assumes "BufferPool d n = Inr bp" and "num_pages d \<le> unat bad"
  shows "pins (fetch_again n bp bad) q = 0 \<and> FetchPage (fetch_again n bp bad) pid =
    (Inl (RuntimeError ''BufferPool: all frames pinned, cannot evict''), fetch_again n bp bad)"
proof -
  have b: "page_table bp = Map.empty" "free_list bp = [0..<n]" "lru bp = []" "disk_manager bp = d"
    using assms(1) by (auto simp: BufferPool_def split: if_splits)
  then have "fetch_again n bp bad = bp\<lparr>free_list := []\<rparr>" using fetch_again_bad_id [of bp n bad] assms(2) by simp
  then show ?thesis using b
    by (simp add: pins_def FetchPage_def FetchPage_fast_def FetchPage_slow_def LoadIntoFrame_def TakeFrame_def
        EvictVictim_def PickVictim_def)
qed

theorem FetchPage_bad_id_leaks_frames_witness:
  "pins (fetch_again 3 sample_pool 9) 0 = 0 \<and> FetchPage (fetch_again 3 sample_pool 9) 0 =
    (Inl (RuntimeError ''BufferPool: all frames pinned, cannot evict''), fetch_again 3 sample_pool 9)"
  by (rule FetchPage_bad_id_leaks_frames [OF sample_pool(1)]) (simp add: sample_disk)

end
