(* ===== verification/Paged_Stream.thy ===== *)
theory Paged_Stream
  imports Buffer_Pool
begin

text \<open>
  Byte streams over chains of pages (\<open>storage/paged_stream.cpp\<close>): the append-only writer,
  the sequential reader, and the round trip between them through the buffer pool.
\<close>

section \<open>Writing\<close>

record out_stream =
  first_page_id :: PageId
  current_page_id :: PageId
  current_page :: "nat option"
  offset :: nat
  bytes_written :: u64
  finished :: bool

type_synonym 'a out_result = "'a result \<times> pool \<times> out_stream"

definition StartNewPage :: "pool \<Rightarrow> out_stream \<Rightarrow> unit out_result" where
  "StartNewPage bp s =
     (case NewPage bp of
        (Inl e, bp1) \<Rightarrow> (Inl e, bp1, s)
      | (Inr (p, new_id), bp1) \<Rightarrow>
          (let bp2 = poke bp1 p (\<lambda>pg. set_payload_bytes 0 (set_next_page_id kInvalidPageId (set_page_type kColumnData pg)));
               (bp4, s4) =
                 (case current_page s of
                    Some cp \<Rightarrow>
                      (let bp3 = poke bp2 cp (\<lambda>pg. set_payload_bytes (word_of_nat (offset s)) (set_next_page_id new_id pg))
                       in (snd (UnpinPage bp3 (current_page_id s) True), s))
                  | None \<Rightarrow> (bp2, s\<lparr>first_page_id := new_id\<rparr>))
           in (Inr (), bp4, s4\<lparr>current_page := Some p, current_page_id := new_id, offset := 0\<rparr>)))"

definition PagedOutputStream :: "pool \<Rightarrow> unit out_result" where
  "PagedOutputStream bp =
     StartNewPage bp \<lparr>first_page_id = kInvalidPageId, current_page_id = kInvalidPageId, current_page = None,
       offset = 0, bytes_written = 0, finished = False\<rparr>"

lemma StartNewPage_offset: "StartNewPage bp s = (Inr x, bp', s') \<Longrightarrow> offset s' = 0"
  by (auto simp: StartNewPage_def Let_def split: prod.splits sum.splits option.splits)

text \<open>
  The loop of \<open>Write\<close> over the bytes still to write. Writing through a null page or past
  the end of one (which the invariant below excludes) is undefined.
\<close>

function WriteLoop :: "pool \<Rightarrow> out_stream \<Rightarrow> byte list \<Rightarrow> unit out_result" where
  "WriteLoop bp s data =
     (if data = [] then (Inr (), bp, s)
      else case (if offset s = PayloadCapacity then StartNewPage bp s else (Inr (), bp, s)) of
          (Inl e, bp1, s1) \<Rightarrow> (Inl e, bp1, s1)
        | (Inr _, bp1, s1) \<Rightarrow>
            (case current_page s1 of
               None \<Rightarrow> (Inl (Undefined ''null page''), bp1, s1)
             | Some cp \<Rightarrow>
                 if PayloadCapacity < offset s1 then (Inl (Undefined ''write past the page''), bp1, s1)
                 else let room = PayloadCapacity - offset s1; n = min room (length data) in
                   WriteLoop (poke bp1 cp (write_payload (offset s1) (take n data)))
                     (s1\<lparr>offset := offset s1 + n\<rparr>) (drop n data)))"
  by pat_completeness auto
termination
proof (relation "measure (\<lambda>(bp, s, data). length data)", goal_cases)
  case (2 bp s data r st u bp1 s1 cp room n)
  have "(if offset s = PayloadCapacity then StartNewPage bp s else (Inr (), bp, s)) = (Inr u, bp1, s1)"
    using 2 by simp
  then have "offset s1 \<noteq> PayloadCapacity"
    using StartNewPage_offset [of bp s u bp1 s1]
    by (auto simp: PayloadCapacity_def kPageSize_def kHeaderSize_def split: if_splits)
  then show ?case using 2 by auto
qed simp

declare WriteLoop.simps [simp del]

definition Write :: "pool \<Rightarrow> out_stream \<Rightarrow> byte list \<Rightarrow> unit out_result" where
  "Write bp s data =
     (if finished s then (Inl (LogicError ''PagedOutputStream::Write after Finish''), bp, s)
      else case WriteLoop bp s data of
          (Inl e, bp1, s1) \<Rightarrow> (Inl e, bp1, s1)
        | (Inr _, bp1, s1) \<Rightarrow> (Inr (), bp1, s1\<lparr>bytes_written := bytes_written s1 + word_of_nat (length data)\<rparr>))"

definition Finish :: "pool \<Rightarrow> out_stream \<Rightarrow> PageId out_result" where
  "Finish bp s =
     (if finished s then (Inl (LogicError ''PagedOutputStream::Finish called twice''), bp, s)
      else case current_page s of
          None \<Rightarrow> (Inl (Undefined ''null page''), bp, s)
        | Some cp \<Rightarrow>
            (let bp1 = poke bp cp (\<lambda>pg. set_next_page_id kInvalidPageId (set_payload_bytes (word_of_nat (offset s)) pg));
                 bp2 = snd (UnpinPage bp1 (current_page_id s) True)
             in (Inr (first_page_id s), bp2, s\<lparr>finished := True, current_page := None\<rparr>)))"

section \<open>Reading\<close>

record in_stream =
  in_page_id :: PageId
  in_offset :: nat
  page_payload :: nat
  next_page_id :: PageId
  at_end :: bool
  page_buf :: "byte list"

type_synonym 'a in_result = "'a result \<times> pool \<times> in_stream"

text \<open>Copying more payload than a page has, from a corrupt header, reads past the page.\<close>

definition LoadPage :: "pool \<Rightarrow> in_stream \<Rightarrow> PageId \<Rightarrow> unit in_result" where
  "LoadPage bp s pid =
     (case FetchPage bp pid of
        (Inl e, bp1) \<Rightarrow> (Inl e, bp1, s)
      | (Inr f, bp1) \<Rightarrow>
          (let p = fpage (frames bp1 ! f); n = unat (hdr_payload_bytes p) in
           if PayloadCapacity < n then (Inl (Undefined ''read past the page''), bp1, s)
           else (Inr (), snd (UnpinPage bp1 pid False),
                 s\<lparr>page_payload := n, next_page_id := hdr_next_page_id p, page_buf := read_payload 0 n p,
                   in_page_id := pid, in_offset := 0, at_end := (if n = 0 then True else at_end s)\<rparr>)))"

definition in_stream_init :: in_stream where
  "in_stream_init = \<lparr>in_page_id = kInvalidPageId, in_offset = 0, page_payload = 0, next_page_id = kInvalidPageId,
     at_end = False, page_buf = []\<rparr>"

definition PagedInputStream :: "pool \<Rightarrow> PageId \<Rightarrow> unit in_result" where
  "PagedInputStream bp pid =
     (if pid = kInvalidPageId then (Inr (), bp, in_stream_init\<lparr>at_end := True\<rparr>)
      else LoadPage bp in_stream_init pid)"

lemma LoadPage_progress:
  "LoadPage bp s pid = (Inr x, bp', s') \<Longrightarrow> at_end s' \<or> (in_offset s' = 0 \<and> page_payload s' \<noteq> 0)"
  by (auto simp: LoadPage_def Let_def split: prod.splits sum.splits if_splits)

text \<open>
  The loop of \<open>Advance\<close>: \<open>n\<close> bytes still to consume, \<open>acc\<close> what has been copied to
  \<open>out\<close>. A page is loaded at most once between two bytes consumed, since loading an empty
  page ends the stream.
\<close>

function AdvanceLoop :: "pool \<Rightarrow> in_stream \<Rightarrow> nat \<Rightarrow> bool \<Rightarrow> byte list \<Rightarrow> byte list in_result" where
  "AdvanceLoop bp s n copy acc =
     (if n = 0 then (Inr acc, bp, s)
      else if at_end s then (Inl (RuntimeError ''PagedInputStream: read past end of stream''), bp, s)
      else if in_offset s = page_payload s then
        (if next_page_id s = kInvalidPageId then
           (Inl (RuntimeError ''PagedInputStream: read past end of stream''), bp, s\<lparr>at_end := True\<rparr>)
         else case LoadPage bp s (next_page_id s) of
             (Inl e, bp1, s1) \<Rightarrow> (Inl e, bp1, s1)
           | (Inr _, bp1, s1) \<Rightarrow> AdvanceLoop bp1 s1 n copy acc)
      else if page_payload s < in_offset s then (Inl (Undefined ''offset past the page''), bp, s)
      else let avail = page_payload s - in_offset s; k = min avail n in
        AdvanceLoop bp (s\<lparr>in_offset := in_offset s + k\<rparr>) (n - k) copy
          (if copy then acc @ read_at (in_offset s) k (page_buf s) else acc))"
  by pat_completeness auto
termination
proof (relation "measures [\<lambda>(bp, s, n, copy, acc). n,
    \<lambda>(bp, s, n, copy, acc). if \<not> at_end s \<and> in_offset s = page_payload s then 1 else 0]", goal_cases)
  case (2 bp s n copy acc r st u bp1 s1)
  then have "LoadPage bp s (next_page_id s) = (Inr u, bp1, s1)" by simp
  then show ?case using LoadPage_progress [of bp s "next_page_id s" u bp1 s1] 2 by auto
qed auto

declare AdvanceLoop.simps [simp del]

lemma AdvanceLoop_0 [simp]: "AdvanceLoop bp s 0 copy acc = (Inr acc, bp, s)"
  by (simp add: AdvanceLoop.simps)

definition Advance :: "pool \<Rightarrow> in_stream \<Rightarrow> nat \<Rightarrow> bool \<Rightarrow> byte list in_result" where
  "Advance bp s n copy =
     (case AdvanceLoop bp s n copy [] of
        (Inl e, bp1, s1) \<Rightarrow> (Inl e, bp1, s1)
      | (Inr bs, bp1, s1) \<Rightarrow>
          (Inr bs, bp1, if in_offset s1 = page_payload s1 \<and> next_page_id s1 = kInvalidPageId
                        then s1\<lparr>at_end := True\<rparr> else s1))"

definition Read :: "pool \<Rightarrow> in_stream \<Rightarrow> nat \<Rightarrow> byte list in_result" where
  "Read bp s n = Advance bp s n True"

definition Skip :: "pool \<Rightarrow> in_stream \<Rightarrow> nat \<Rightarrow> byte list in_result" where
  "Skip bp s n = Advance bp s n False"


section \<open>What the pool caches\<close>

lemma WritePage_pages: "WritePage d i p = Inr d' \<Longrightarrow> num_pages d' = num_pages d"
  by (auto simp: WritePage_def split: if_splits)

lemma TakeFrame_pages: "TakeFrame bp = (r, bp') \<Longrightarrow> pages bp' = pages bp \<and> dom (page_table bp') \<subseteq> dom (page_table bp)"
  by (auto simp: TakeFrame_def EvictVictim_def Let_def dest: WritePage_pages split: if_splits sum.splits)

lemma LoadIntoFrame_pages: "LoadIntoFrame bp pid = (r, bp') \<Longrightarrow> pages bp' = pages bp \<and> dom (page_table bp') \<subseteq> insert pid (dom (page_table bp))"
proof -
  assume l: "LoadIntoFrame bp pid = (r, bp')"
  obtain t bp1 where t: "TakeFrame bp = (t, bp1)" by fastforce
  note tk = TakeFrame_pages [OF t]
  have "bp' = bp \<or> pages bp' = pages bp1 \<and> (page_table bp' = page_table bp1 \<or> (\<exists>f. page_table bp' = (page_table bp1)(pid \<mapsto> f)))"
    using l t by (auto simp: LoadIntoFrame_def split: option.splits sum.splits)
  then show ?thesis using tk by (elim disjE conjE exE) auto
qed

lemma FetchPage_pages: "FetchPage bp pid = (r, bp') \<Longrightarrow> pages bp' = pages bp \<and> dom (page_table bp') \<subseteq> insert pid (dom (page_table bp))"
proof -
  assume f: "FetchPage bp pid = (r, bp')"
  obtain l bp1 where l: "LoadIntoFrame bp pid = (l, bp1)" by fastforce
  have "bp' = bp1 \<or> (\<exists>f. bp' = Touch (pin bp1 f) f) \<or> (\<exists>f. bp' = pin bp f)"
    using f l by (auto simp: FetchPage_def FetchPage_fast_def FetchPage_slow_def split: option.splits sum.splits)
  then have "pages bp' = pages bp1 \<and> page_table bp' = page_table bp1 \<or> pages bp' = pages bp \<and> page_table bp' = page_table bp"
    by (auto simp: Touch_def pin_def Let_def)
  then show ?thesis using LoadIntoFrame_pages [OF l] by (elim disjE conjE) (simp, simp add: subset_insertI)
qed

lemma UnpinPage_pages [simp]: "pages (snd (UnpinPage bp pid d)) = pages bp" "page_table (snd (UnpinPage bp pid d)) = page_table bp"
  by (auto simp: UnpinPage_def Let_def split: option.splits)

lemma poke_pages [simp]: "pages (poke bp f g) = pages bp" "page_table (poke bp f g) = page_table bp"
  by (simp_all add: poke_def)

section \<open>Streams in the page store\<close>

text \<open>
  \<open>chain vw np pid qs\<close>: starting at \<open>pid\<close>, the next-page links run through the pages
  \<open>qs\<close> and end; each of them is an allocated page of column data and holds at least one byte.
  \<open>stream_at vw np pid bs\<close>: the stream with handle \<open>pid\<close> holds the bytes \<open>bs\<close>; only
  its first page may be empty, and only when it is the whole stream.
\<close>

definition payload_of :: "page \<Rightarrow> nat" where
  "payload_of p = unat (hdr_payload_bytes p)"

definition page_data :: "page \<Rightarrow> byte list" where
  "page_data p = read_payload 0 (payload_of p) p"

definition is_data :: "page \<Rightarrow> bool" where
  "is_data p \<longleftrightarrow> hdr_page_type p = page_type_code kColumnData"

fun chain :: "(PageId \<Rightarrow> page) \<Rightarrow> nat \<Rightarrow> PageId \<Rightarrow> PageId list \<Rightarrow> bool" where
  "chain vw np pid [] \<longleftrightarrow> pid = kInvalidPageId"
| "chain vw np pid (q # qs) \<longleftrightarrow> pid = q \<and> q \<noteq> kInvalidPageId \<and> unat q < np \<and>
     is_data (vw q) \<and> 0 < payload_of (vw q) \<and> payload_of (vw q) \<le> PayloadCapacity \<and> chain vw np (hdr_next_page_id (vw q)) qs"

definition chain_data :: "(PageId \<Rightarrow> page) \<Rightarrow> PageId list \<Rightarrow> byte list" where
  "chain_data vw qs = concat (map (\<lambda>q. page_data (vw q)) qs)"

definition stream_at :: "(PageId \<Rightarrow> page) \<Rightarrow> nat \<Rightarrow> PageId \<Rightarrow> byte list \<Rightarrow> bool" where
  "stream_at vw np pid bs \<longleftrightarrow> pid \<noteq> kInvalidPageId \<and> unat pid < np \<and> is_data (vw pid) \<and> payload_of (vw pid) \<le> PayloadCapacity \<and>
     (\<exists>qs. chain vw np (hdr_next_page_id (vw pid)) qs \<and> (payload_of (vw pid) = 0 \<longrightarrow> qs = []) \<and>
        bs = page_data (vw pid) @ chain_data vw qs)"

text \<open>A stream depends only on the contents of the pages it occupies.\<close>

lemma chain_cong:
  assumes "\<And>p. unat p < np \<Longrightarrow> vw' p = vw p" and "np \<le> np'"
  shows "chain vw np pid qs \<Longrightarrow> chain vw' np' pid qs \<and> chain_data vw' qs = chain_data vw qs"
  using assms by (induction qs arbitrary: pid) (auto simp: chain_data_def)

lemma stream_at_cong:
  assumes "stream_at vw np pid bs" and "\<And>p. unat p < np \<Longrightarrow> vw' p = vw p" and "np \<le> np'"
  shows "stream_at vw' np' pid bs"
  using assms chain_cong [of np vw' vw np', OF assms(2,3)] unfolding stream_at_def by force

text \<open>A stream whose pages are all among the pages \<open>S\<close>: it is there in any view that agrees on them.\<close>

definition stream_in :: "PageId set \<Rightarrow> (PageId \<Rightarrow> page) \<Rightarrow> nat \<Rightarrow> PageId \<Rightarrow> byte list \<Rightarrow> bool" where
  "stream_in S vw np pid bs \<longleftrightarrow> (\<forall>vw'. (\<forall>p \<in> S. vw' p = vw p) \<longrightarrow> stream_at vw' np pid bs)"

lemma stream_in_at: "stream_in S vw np pid bs \<Longrightarrow> stream_at vw np pid bs"
  by (simp add: stream_in_def)

lemma stream_in_cong:
  assumes "stream_in S vw np pid bs" and "S \<subseteq> T" and "\<And>p. p \<in> S \<Longrightarrow> vw' p = vw p" and "np \<le> np'"
  shows "stream_in T vw' np' pid bs"
  unfolding stream_in_def
proof (intro allI impI)
  fix v
  assume "\<forall>p \<in> T. v p = vw' p"
  then have "\<forall>p \<in> S. v p = vw p" using assms(2,3) by (metis subsetD)
  then have "stream_at v np pid bs" using assms(1) by (simp add: stream_in_def)
  then show "stream_at v np' pid bs" by (rule stream_at_cong) (use assms(4) in simp_all)
qed

lemma length_page_data:
  assumes "length p = kPageSize" and "payload_of p \<le> PayloadCapacity"
  shows "length (page_data p) = payload_of p"
  using assms by (simp add: page_data_def read_payload_def PayloadCapacity_def kHeaderSize_def kPageSize_def)

text \<open>
  What a reader may rely on while others use the pool: only the cache has changed, and pages
  that came into it are pages of column data.
\<close>

definition same_pages :: "pool \<Rightarrow> pool \<Rightarrow> bool" where
  "same_pages bp bp' \<longleftrightarrow> store_inv bp' \<and> pages bp' = pages bp \<and> num_frames bp' = num_frames bp \<and> pins bp' = pins bp \<and>
     (\<forall>p. unat p < pages bp \<longrightarrow> view bp' p = view bp p) \<and> (\<forall>p. 0 < pins bp p \<longrightarrow> page_table bp' p = page_table bp p) \<and>
     (\<forall>p. page_table bp' p \<noteq> None \<longrightarrow> page_table bp p \<noteq> None \<or> (unat p < pages bp \<and> is_data (view bp p)))"

lemma same_pages_refl: "store_inv bp \<Longrightarrow> same_pages bp bp"
  by (simp add: same_pages_def)

lemma same_pages_trans: "same_pages a b \<Longrightarrow> same_pages b c \<Longrightarrow> same_pages a c"
  unfolding same_pages_def by (intro conjI) (metis | simp)+

abbreviation room_for :: "nat \<Rightarrow> pool \<Rightarrow> bool" where
  "room_for k bp \<equiv> card {q. 0 < pins bp q} + k \<le> num_frames bp"

section \<open>The reader\<close>

text \<open>\<open>in_ok bp s bs\<close>: the reader is well-formed and \<open>bs\<close> are the bytes it has not consumed.\<close>

definition in_ok :: "pool \<Rightarrow> in_stream \<Rightarrow> byte list \<Rightarrow> bool" where
  "in_ok bp s bs \<longleftrightarrow> in_offset s \<le> page_payload s \<and> length (page_buf s) = page_payload s \<and> (at_end s \<longrightarrow> bs = []) \<and>
     (\<exists>qs. chain (view bp) (pages bp) (next_page_id s) qs \<and> bs = drop (in_offset s) (page_buf s) @ chain_data (view bp) qs)"

lemma in_ok_cong:
  assumes "in_ok bp s bs" and "same_pages bp bp'"
  shows "in_ok bp' s bs"
  using assms chain_cong [of "pages bp" "view bp'" "view bp" "pages bp'"] by (force simp: in_ok_def same_pages_def)

lemma LoadPage_ok:
  assumes s: "store_inv bp" and room: "room_for 1 bp"
    and p: "unat pid < pages bp" "payload_of (view bp pid) \<le> PayloadCapacity" "is_data (view bp pid)"
  shows "\<exists>bp' s'. LoadPage bp s pid = (Inr (), bp', s') \<and> same_pages bp bp' \<and> in_offset s' = 0 \<and>
    page_payload s' = payload_of (view bp pid) \<and> page_buf s' = page_data (view bp pid) \<and>
    next_page_id s' = hdr_next_page_id (view bp pid) \<and> at_end s' = (payload_of (view bp pid) = 0 \<or> at_end s)"
proof -
  have "card {q. 0 < pins bp q} < num_frames bp" using room by simp
  from ps.fetch_read_unpin [OF s p(1) this] obtain f bp1 bp' where
    f: "FetchPage bp pid = (Inr f, bp1)" "fpage (frames bp1 ! f) = view bp pid" "UnpinPage bp1 pid False = (True, bp')"
      "store_inv bp'" "pages bp' = pages bp" "num_frames bp' = num_frames bp" "pins bp' = pins bp"
      "\<forall>q. unat q < pages bp \<longrightarrow> view bp' q = view bp q" "\<forall>q. 0 < pins bp q \<longrightarrow> page_table bp' q = page_table bp q"
    by blast
  have "page_table bp' = page_table bp1" using f(3) UnpinPage_pages(2) [of bp1 pid False] by simp
  then have "page_table bp' q \<noteq> None \<Longrightarrow> page_table bp q \<noteq> None \<or> (unat q < pages bp \<and> is_data (view bp q))" for q
    using FetchPage_pages [OF f(1)] p(1,3) by (auto simp: dom_def)
  then show ?thesis using f p(2) by (auto simp: LoadPage_def Let_def payload_of_def page_data_def same_pages_def)
qed

lemma LoadPage_chain:
  assumes s: "store_inv bp" and room: "room_for 1 bp" and c: "chain (view bp) (pages bp) pid (q # qs)" and e: "\<not> at_end s"
  shows "\<exists>bp' s'. LoadPage bp s pid = (Inr (), bp', s') \<and> same_pages bp bp' \<and>
    in_ok bp' s' (chain_data (view bp) (q # qs)) \<and> in_offset s' < page_payload s'"
proof -
  have q: "pid = q" "unat q < pages bp" "0 < payload_of (view bp q)" "payload_of (view bp q) \<le> PayloadCapacity"
    "chain (view bp) (pages bp) (hdr_next_page_id (view bp q)) qs" "is_data (view bp q)" using c by auto
  obtain bp' s' where L: "LoadPage bp s q = (Inr (), bp', s')" "same_pages bp bp'" "in_offset s' = 0"
    "page_payload s' = payload_of (view bp q)" "page_buf s' = page_data (view bp q)"
    "next_page_id s' = hdr_next_page_id (view bp q)" "at_end s' = (payload_of (view bp q) = 0 \<or> at_end s)"
    using LoadPage_ok [OF s room q(2,4,6)] by blast
  have "length (view bp q) = kPageSize" using ps.length_vw [OF s q(2)] .
  then have "in_ok bp s' (chain_data (view bp) (q # qs))"
    using L q e length_page_data [of "view bp q"] by (auto simp: in_ok_def chain_data_def)
  then have "in_ok bp' s' (chain_data (view bp) (q # qs))" using in_ok_cong L(2) by blast
  then show ?thesis using L q by auto
qed

lemma in_ok_consume:
  assumes "in_ok bp s bs" and "\<not> at_end s" and "k \<le> page_payload s - in_offset s"
  shows "in_ok bp (s\<lparr>in_offset := in_offset s + k\<rparr>) (drop k bs)"
proof -
  obtain qs where "chain (view bp) (pages bp) (next_page_id s) qs"
    "bs = drop (in_offset s) (page_buf s) @ chain_data (view bp) qs"
    "in_offset s \<le> page_payload s" "length (page_buf s) = page_payload s"
    using assms(1) by (auto simp: in_ok_def)
  then show ?thesis using assms(2,3) by (auto simp: in_ok_def add.commute intro!: exI [of _ qs])
qed

lemma AdvanceLoop_ok:
  assumes "store_inv bp" "room_for 1 bp" "in_ok bp s bs" "n \<le> length bs"
  shows "\<exists>bp' s'. AdvanceLoop bp s n copy acc = (Inr (if copy then acc @ take n bs else acc), bp', s') \<and>
    same_pages bp bp' \<and> in_ok bp' s' (drop n bs)"
  using assms
proof (induction bp s n copy acc arbitrary: bs rule: AdvanceLoop.induct)
  case (1 bp s n copy acc)
  note st = "1.prems"(1) and room = "1.prems"(2) and io = "1.prems"(3) and n = "1.prems"(4)
  obtain qs where qs: "chain (view bp) (pages bp) (next_page_id s) qs"
    "bs = drop (in_offset s) (page_buf s) @ chain_data (view bp) qs"
    and ofs: "in_offset s \<le> page_payload s" "length (page_buf s) = page_payload s" and ae: "at_end s \<longrightarrow> bs = []"
    using io by (auto simp: in_ok_def)
  show ?case
  proof (cases "n = 0")
    case True
    then show ?thesis using st io same_pages_refl by auto
  next
    case False
    then have nae: "\<not> at_end s" using ae n by auto
    show ?thesis
    proof (cases "in_offset s = page_payload s")
      case True
      then have bs: "bs = chain_data (view bp) qs" using qs ofs by simp
      then obtain q qs' where q: "qs = q # qs'" using False n by (cases qs) (auto simp: chain_data_def)
      have ni: "next_page_id s \<noteq> kInvalidPageId" using qs(1) q by auto
      obtain bp1 s1 where L: "LoadPage bp s (next_page_id s) = (Inr (), bp1, s1)" "same_pages bp bp1" "in_ok bp1 s1 bs"
        using LoadPage_chain [OF st room _ nae, of "next_page_id s" q qs'] qs(1) q bs by auto
      have "store_inv bp1" "room_for 1 bp1" using L(2) room by (simp_all add: same_pages_def)
      from "1.IH"(1) [OF False nae True ni L(1) [symmetric] refl refl this L(3) n]
      show ?thesis using L False nae True ni same_pages_trans [OF L(2)]
        by (auto simp: AdvanceLoop.simps [of bp s n])
    next
      case ne: False
      let ?k = "min (page_payload s - in_offset s) n"
      have io': "in_ok bp (s\<lparr>in_offset := in_offset s + ?k\<rparr>) (drop ?k bs)"
        using in_ok_consume [OF io nae] by simp
      have tk: "read_at (in_offset s) ?k (page_buf s) = take ?k bs" using qs(2) ofs by (auto simp: read_at_def)
      have n': "n - ?k \<le> length (drop ?k bs)" using n by simp
      have lt: "\<not> page_payload s < in_offset s" using ofs by simp
      have "take ?k bs @ take (n - ?k) (drop ?k bs) = take n bs"
        by (metis le_add_diff_inverse min.cobounded2 take_add)
      moreover have "drop (n - ?k) (drop ?k bs) = drop n bs" by simp
      ultimately show ?thesis
        using "1.IH"(2) [OF False nae ne lt refl refl st room io' n'] tk False nae ne lt
        by (auto simp: AdvanceLoop.simps [of bp s n] Let_def)
    qed
  qed
qed


lemma AdvanceLoop_underflow:
  assumes "store_inv bp" "room_for 1 bp" "in_ok bp s bs" "length bs < n"
  shows "\<exists>bp' s'. AdvanceLoop bp s n copy acc = (Inl (RuntimeError ''PagedInputStream: read past end of stream''), bp', s')"
  using assms
proof (induction bp s n copy acc arbitrary: bs rule: AdvanceLoop.induct)
  case (1 bp s n copy acc)
  note st = "1.prems"(1) and room = "1.prems"(2) and io = "1.prems"(3) and n = "1.prems"(4)
  obtain qs where qs: "chain (view bp) (pages bp) (next_page_id s) qs"
    "bs = drop (in_offset s) (page_buf s) @ chain_data (view bp) qs"
    and ofs: "in_offset s \<le> page_payload s" "length (page_buf s) = page_payload s"
    using io by (auto simp: in_ok_def)
  have n0: "n \<noteq> 0" using n by simp
  consider (e) "at_end s" | (l) "\<not> at_end s" "in_offset s = page_payload s" "qs = []"
    | (c) q qs' where "\<not> at_end s" "in_offset s = page_payload s" "qs = q # qs'"
    | (t) "\<not> at_end s" "in_offset s \<noteq> page_payload s" by (cases qs) auto
  then show ?case
  proof cases
    case e
    then show ?thesis using n0 by (simp add: AdvanceLoop.simps [of bp s n])
  next
    case l
    then show ?thesis using n0 qs(1) by (simp add: AdvanceLoop.simps [of bp s n])
  next
    case c
    have ni: "next_page_id s \<noteq> kInvalidPageId" and bs: "bs = chain_data (view bp) qs" using qs ofs c by auto
    obtain bp1 s1 where L: "LoadPage bp s (next_page_id s) = (Inr (), bp1, s1)" "same_pages bp bp1" "in_ok bp1 s1 bs"
      using LoadPage_chain [OF st room _ c(1), of "next_page_id s" q qs'] qs(1) c bs by auto
    have "store_inv bp1" "room_for 1 bp1" using L(2) room by (simp_all add: same_pages_def)
    from "1.IH"(1) [OF n0 c(1,2) ni L(1) [symmetric] refl refl this L(3) n]
    show ?thesis using L n0 c ni by (auto simp: AdvanceLoop.simps [of bp s n])
  next
    case t
    let ?k = "min (page_payload s - in_offset s) n"
    have io': "in_ok bp (s\<lparr>in_offset := in_offset s + ?k\<rparr>) (drop ?k bs)"
      using in_ok_consume [OF io t(1)] by simp
    have n': "length (drop ?k bs) < n - ?k" using n qs(2) ofs t by (auto simp: min_def)
    have lt: "\<not> page_payload s < in_offset s" using ofs by simp
    show ?thesis using "1.IH"(2) [OF n0 t lt refl refl st room io' n'] n0 t lt
      by (auto simp: AdvanceLoop.simps [of bp s n] Let_def)
  qed
qed

text \<open>After an operation of the reader the end flag is exact.\<close>

definition reader_at :: "pool \<Rightarrow> in_stream \<Rightarrow> byte list \<Rightarrow> bool" where
  "reader_at bp s bs \<longleftrightarrow> store_inv bp \<and> room_for 1 bp \<and> in_ok bp s bs \<and> (at_end s \<longleftrightarrow> bs = [])"

lemma chain_data_Nil:
  assumes "store_inv bp" and "chain (view bp) (pages bp) pid qs" and "chain_data (view bp) qs = []"
  shows "qs = []"
proof (cases qs)
  case (Cons q qs')
  then have q: "unat q < pages bp" "0 < payload_of (view bp q)" "payload_of (view bp q) \<le> PayloadCapacity"
    using assms(2) by auto
  then have "length (page_data (view bp q)) = payload_of (view bp q)"
    using length_page_data ps.length_vw [OF assms(1)] by blast
  then show ?thesis using assms(3) Cons q(2) by (auto simp: chain_data_def)
qed simp

lemma Advance_ok:
  assumes r: "reader_at bp s bs" and n: "n \<le> length bs"
  shows "\<exists>bp' s'. Advance bp s n copy = (Inr (if copy then take n bs else []), bp', s') \<and>
    same_pages bp bp' \<and> reader_at bp' s' (drop n bs)"
proof -
  have st: "store_inv bp" and room: "room_for 1 bp" and io: "in_ok bp s bs" using r by (simp_all add: reader_at_def)
  obtain bp' s' where A: "AdvanceLoop bp s n copy [] = (Inr (if copy then take n bs else []), bp', s')"
    "same_pages bp bp'" "in_ok bp' s' (drop n bs)"
    using AdvanceLoop_ok [OF st room io n, of copy "[]"] by auto
  have st': "store_inv bp'" and room': "room_for 1 bp'" using A(2) room by (simp_all add: same_pages_def)
  obtain qs where qs: "chain (view bp') (pages bp') (next_page_id s') qs"
    "drop n bs = drop (in_offset s') (page_buf s') @ chain_data (view bp') qs"
    and ofs: "in_offset s' \<le> page_payload s'" "length (page_buf s') = page_payload s'" and ae: "at_end s' \<longrightarrow> drop n bs = []"
    using A(3) by (auto simp: in_ok_def)
  have "drop n bs = [] \<longleftrightarrow> in_offset s' = page_payload s' \<and> qs = []"
    using qs ofs chain_data_Nil [OF st' qs(1)] by (auto simp: chain_data_def)
  moreover have "qs = [] \<longleftrightarrow> next_page_id s' = kInvalidPageId" using qs(1) by (cases qs) auto
  ultimately have e: "drop n bs = [] \<longleftrightarrow> in_offset s' = page_payload s' \<and> next_page_id s' = kInvalidPageId" by simp
  let ?s = "if in_offset s' = page_payload s' \<and> next_page_id s' = kInvalidPageId then s'\<lparr>at_end := True\<rparr> else s'"
  have "in_ok bp' ?s (drop n bs)" using A(3) e by (auto simp: in_ok_def)
  moreover have "at_end ?s \<longleftrightarrow> drop n bs = []" using e ae by auto
  ultimately have "reader_at bp' ?s (drop n bs)" using st' room' by (simp add: reader_at_def)
  then show ?thesis using A by (simp add: Advance_def)
qed

lemma PagedInputStream_ok:
  assumes s: "store_inv bp" and room: "room_for 1 bp" and a: "stream_at (view bp) (pages bp) pid bs"
  shows "\<exists>bp' s'. PagedInputStream bp pid = (Inr (), bp', s') \<and> same_pages bp bp' \<and> reader_at bp' s' bs"
proof -
  obtain qs where q: "pid \<noteq> kInvalidPageId" "unat pid < pages bp" "payload_of (view bp pid) \<le> PayloadCapacity"
    "chain (view bp) (pages bp) (hdr_next_page_id (view bp pid)) qs" "payload_of (view bp pid) = 0 \<longrightarrow> qs = []"
    "bs = page_data (view bp pid) @ chain_data (view bp) qs" "is_data (view bp pid)"
    using a by (auto simp: stream_at_def)
  obtain bp' s' where L: "LoadPage bp in_stream_init pid = (Inr (), bp', s')" "same_pages bp bp'" "in_offset s' = 0"
    "page_payload s' = payload_of (view bp pid)" "page_buf s' = page_data (view bp pid)"
    "next_page_id s' = hdr_next_page_id (view bp pid)" "at_end s' = (payload_of (view bp pid) = 0 \<or> at_end in_stream_init)"
    using LoadPage_ok [OF s room q(2,3,7)] by blast
  have len: "length (page_data (view bp pid)) = payload_of (view bp pid)"
    using length_page_data ps.length_vw [OF s q(2)] q(3) by blast
  have ae: "at_end s' \<longleftrightarrow> bs = []" using L(7) q(5,6) len by (auto simp: in_stream_init_def chain_data_def)
  have "in_ok bp s' bs" using L q len ae by (auto simp: in_ok_def)
  then have "in_ok bp' s' bs" using in_ok_cong L(2) by blast
  moreover have "store_inv bp'" "room_for 1 bp'" using L(2) room by (simp_all add: same_pages_def)
  ultimately have "reader_at bp' s' bs" using ae by (simp add: reader_at_def)
  then show ?thesis using L q(1) by (simp add: PagedInputStream_def)
qed


section \<open>The writer\<close>

text \<open>Every page but the last is full and linked to the next one.\<close>

fun links :: "(PageId \<Rightarrow> page) \<Rightarrow> PageId list \<Rightarrow> PageId \<Rightarrow> bool" where
  "links vw [] c \<longleftrightarrow> True"
| "links vw (p # ps) c \<longleftrightarrow> payload_of (vw p) = PayloadCapacity \<and> hdr_next_page_id (vw p) = hd (ps @ [c]) \<and> links vw ps c"

lemma links_cong: "(\<And>p. p \<in> set ps \<Longrightarrow> vw' p = vw p) \<Longrightarrow> links vw' ps c = links vw ps c"
  by (induction ps) auto

lemma links_snoc:
  "links vw (ps @ [p]) c \<longleftrightarrow> links vw ps p \<and> payload_of (vw p) = PayloadCapacity \<and> hdr_next_page_id (vw p) = c"
  by (induction ps) (auto simp: hd_append)

lemma capacity_pos: "0 < PayloadCapacity" "PayloadCapacity < 2 ^ 32"
  by (simp_all add: PayloadCapacity_def kPageSize_def kHeaderSize_def)

lemma links_chain:
  assumes "links vw ps c" and "\<And>p. p \<in> set (ps @ [c]) \<Longrightarrow> unat p < np \<and> p \<noteq> kInvalidPageId \<and> is_data (vw p)"
    and "0 < payload_of (vw c)" "payload_of (vw c) \<le> PayloadCapacity" "hdr_next_page_id (vw c) = kInvalidPageId"
  shows "chain vw np (hd (ps @ [c])) (ps @ [c])"
  using assms capacity_pos by (induction ps) auto

text \<open>
  \<open>out_ok bp0 bp s ps data\<close>: the writer \<open>s\<close>, created in pool \<open>bp0\<close>, has filled the pages
  \<open>ps\<close> and is writing to its current page, which it holds pinned; \<open>data\<close> is what was
  written. Pages that existed before, and pins of others, are as in \<open>bp0\<close>.
\<close>

definition untouched :: "pool \<Rightarrow> pool \<Rightarrow> bool" where
  "untouched bp0 bp \<longleftrightarrow> pages bp0 \<le> pages bp \<and> num_frames bp = num_frames bp0 \<and>
     (\<forall>q. unat q < pages bp0 \<longrightarrow> view bp q = view bp0 q) \<and> (\<forall>q. 0 < pins bp0 q \<longrightarrow> page_table bp q = page_table bp0 q)"

definition out_ok :: "pool \<Rightarrow> pool \<Rightarrow> out_stream \<Rightarrow> PageId list \<Rightarrow> byte list \<Rightarrow> bool" where
  "out_ok bp0 bp s ps data \<longleftrightarrow>
     (let c = current_page_id s in
      store_inv bp \<and> untouched bp0 bp \<and> \<not> finished s \<and> offset s \<le> PayloadCapacity \<and>
      current_page s \<noteq> None \<and> page_table bp c = current_page s \<and> first_page_id s = hd (ps @ [c]) \<and>
      pins bp0 c = 0 \<and> pins bp = (pins bp0)(c := 1) \<and> distinct (ps @ [c]) \<and>
      (\<forall>p\<in>set (ps @ [c]). pages bp0 \<le> unat p \<and> unat p < pages bp \<and> p \<noteq> kInvalidPageId \<and> is_data (view bp p)) \<and>
      pages bp = pages bp0 + length ps + 1 \<and> links (view bp) ps c \<and>
      data = concat (map (\<lambda>p. read_payload 0 PayloadCapacity (view bp p)) ps) @ read_payload 0 (offset s) (view bp c))"

definition column_page :: "PageId \<Rightarrow> page" where
  "column_page q = set_payload_bytes 0 (set_next_page_id kInvalidPageId (set_page_type kColumnData (new_page_image q)))"

lemma length_column_page: "length (new_page_image q) = kPageSize" "length (column_page q) = kPageSize"
  by (simp_all add: column_page_def new_page_image_def page_simps zero_page_def)

lemma is_data_simps:
  assumes "length pg = kPageSize"
  shows "is_data (set_payload_bytes n pg) = is_data pg" "is_data (set_next_page_id i pg) = is_data pg" "is_data (set_page_type t pg) = (t = kColumnData)"
    "off + length xs \<le> PayloadCapacity \<Longrightarrow> is_data (write_payload off xs pg) = is_data pg"
  using assms by (cases t; simp add: is_data_def page_simps)+

lemma column_page_data: "is_data (column_page q)"
  by (simp add: column_page_def is_data_simps page_simps length_column_page(1))

lemma invalid_id: "unat q < 2 ^ 32 - 1 \<Longrightarrow> q \<noteq> kInvalidPageId"
  by (auto simp: kInvalidPageId_def)

lemma read_payload_0 [simp]: "read_payload off 0 p = []"
  by (simp add: read_payload_def read_at_def)

text \<open>A new page with its header set, seen from a pool with room for it.\<close>

lemma NewPage_column:
  assumes st: "store_inv bp" and n: "pages bp < 2 ^ 32 - 1" and room: "room_for 1 bp"
  obtains f q bp1 bp2 where "NewPage bp = (Inr (f, q), bp1)"
    "bp2 = poke bp1 f (\<lambda>pg. set_payload_bytes 0 (set_next_page_id kInvalidPageId (set_page_type kColumnData pg)))"
    "store_inv bp2" "unat q = pages bp" "q \<noteq> kInvalidPageId" "pages bp2 = Suc (pages bp)" "num_frames bp2 = num_frames bp"
    "page_table bp2 q = Some f" "view bp2 q = column_page q" "pins bp q = 0" "pins bp2 = (pins bp)(q := 1)"
    "\<forall>p. unat p < pages bp \<longrightarrow> view bp2 p = view bp p" "\<forall>p. 0 < pins bp p \<longrightarrow> page_table bp2 p = page_table bp p"
proof -
  have "pages bp < 2 ^ 32" "card {p. 0 < pins bp p} < num_frames bp" using n room by simp_all
  from ps.new_law [OF st this] obtain f q bp1 where N: "NewPage bp = (Inr (f, q), bp1)" "store_inv bp1" "unat q = pages bp"
    "pages bp1 = Suc (pages bp)" "num_frames bp1 = num_frames bp" "page_table bp1 q = Some f" "view bp1 q = new_page_image q"
    "pins bp q = 0" "pins bp1 = (pins bp)(q := 1)" "\<forall>p. unat p < pages bp \<longrightarrow> view bp1 p = view bp p"
    "\<forall>p. 0 < pins bp p \<longrightarrow> page_table bp1 p = page_table bp p" by blast
  let ?g = "\<lambda>pg. set_payload_bytes 0 (set_next_page_id kInvalidPageId (set_page_type kColumnData pg))"
  have g: "?g (view bp1 q) = column_page q" by (simp add: N(7) column_page_def)
  have "0 < pins bp1 q" "length (?g (view bp1 q)) = kPageSize" using N(9) length_column_page by (simp_all add: g)
  note W = ps.wr_law [OF N(2,6), of ?g, OF this]
  have "q \<noteq> kInvalidPageId" using invalid_id [of q] n N(3) by simp
  then show ?thesis using that [OF N(1) refl] W N g by (auto simp: g)
qed

lemma PagedOutputStream_ok:
  assumes st: "store_inv bp" and n: "pages bp < 2 ^ 32 - 1" and room: "room_for 1 bp"
  shows "\<exists>bp' s. PagedOutputStream bp = (Inr (), bp', s) \<and> out_ok bp bp' s [] [] \<and> offset s = 0 \<and> bytes_written s = 0"
proof (rule NewPage_column [OF st n room])
  fix f q bp1 bp2
  assume *: "NewPage bp = (Inr (f, q), bp1)"
    "bp2 = poke bp1 f (\<lambda>pg. set_payload_bytes 0 (set_next_page_id kInvalidPageId (set_page_type kColumnData pg)))"
    "store_inv bp2" "unat q = pages bp" "q \<noteq> kInvalidPageId" "pages bp2 = Suc (pages bp)" "num_frames bp2 = num_frames bp"
    "page_table bp2 q = Some f" "view bp2 q = column_page q" "pins bp q = 0" "pins bp2 = (pins bp)(q := 1)"
    "\<forall>p. unat p < pages bp \<longrightarrow> view bp2 p = view bp p" "\<forall>p. 0 < pins bp p \<longrightarrow> page_table bp2 p = page_table bp p"
  show ?thesis
    using * by (simp add: column_page_data PagedOutputStream_def StartNewPage_def Let_def out_ok_def untouched_def)
qed


lemma card_insert_pin: "card {q. 0 < ((f :: PageId \<Rightarrow> int)(c := 1)) q} \<le> Suc (card {q. 0 < f q})"
proof -
  have "{q. 0 < (f(c := 1)) q} = insert c {q. 0 < f q}" by auto
  then show ?thesis using card_insert_if [of "{q. 0 < f q}" c] by simp
qed

abbreviation seal :: "nat \<Rightarrow> PageId \<Rightarrow> page \<Rightarrow> page" where
  "seal n nxt pg \<equiv> set_payload_bytes (word_of_nat n) (set_next_page_id nxt pg)"

abbreviation seal_last :: "nat \<Rightarrow> page \<Rightarrow> page" where
  "seal_last n pg \<equiv> set_next_page_id kInvalidPageId (set_payload_bytes (word_of_nat n) pg)"

lemma seal_simps:
  assumes "length pg = kPageSize" and "n \<le> PayloadCapacity"
  shows "length (seal n nxt pg) = kPageSize" "payload_of (seal n nxt pg) = n" "hdr_next_page_id (seal n nxt pg) = nxt"
    "read_payload off k (seal n nxt pg) = read_payload off k pg"
    "length (seal_last n pg) = kPageSize" "payload_of (seal_last n pg) = n"
    "hdr_next_page_id (seal_last n pg) = kInvalidPageId" "read_payload off k (seal_last n pg) = read_payload off k pg"
    "is_data (seal n nxt pg) = is_data pg" "is_data (seal_last n pg) = is_data pg"
  using assms capacity_pos by (simp_all add: payload_of_def page_simps is_data_simps unat_of_nat)

lemma out_okD:
  assumes "out_ok bp0 bp s ps data"
  obtains cp where "current_page s = Some cp" "page_table bp (current_page_id s) = Some cp" "store_inv bp"
    "untouched bp0 bp" "offset s \<le> PayloadCapacity" "pins bp0 (current_page_id s) = 0"
    "pins bp = (pins bp0)(current_page_id s := 1)" "0 < pins bp (current_page_id s)" "\<not> finished s"
    "pages bp = pages bp0 + length ps + 1" "unat (current_page_id s) < pages bp" "length (view bp (current_page_id s)) = kPageSize"
    "pages bp0 \<le> unat (current_page_id s)"
  using assms ps.length_vw [of bp "current_page_id s"] by (auto simp: out_ok_def Let_def)

lemma StartNewPage_next:
  assumes o: "out_ok bp0 bp s ps data" and full: "offset s = PayloadCapacity"
    and room: "room_for 2 bp0" and n: "pages bp < 2 ^ 32 - 1"
  shows "\<exists>bp' s'. StartNewPage bp s = (Inr (), bp', s') \<and> out_ok bp0 bp' s' (ps @ [current_page_id s]) data \<and>
    offset s' = 0 \<and> bytes_written s' = bytes_written s"
proof (rule out_okD [OF o])
  let ?c = "current_page_id s"
  fix cp
  assume c: "current_page s = Some cp" "page_table bp ?c = Some cp" "store_inv bp" "untouched bp0 bp"
    "pins bp0 ?c = 0" "pins bp = (pins bp0)(?c := 1)" "0 < pins bp ?c" "pages bp = pages bp0 + length ps + 1"
    "unat ?c < pages bp" "length (view bp ?c) = kPageSize" "pages bp0 \<le> unat ?c"
  have "room_for 1 bp"
    using card_insert_pin [of "pins bp0" ?c] room c(4,6) by (simp add: untouched_def)
  then show ?thesis
  proof (rule NewPage_column [OF c(3) n])
    fix f q bp1 bp2
    let ?g = "seal (offset s) q"
    assume a: "NewPage bp = (Inr (f, q), bp1)"
      "bp2 = poke bp1 f (\<lambda>pg. set_payload_bytes 0 (set_next_page_id kInvalidPageId (set_page_type kColumnData pg)))"
      "store_inv bp2" "unat q = pages bp" "q \<noteq> kInvalidPageId" "pages bp2 = Suc (pages bp)" "num_frames bp2 = num_frames bp"
      "page_table bp2 q = Some f" "view bp2 q = column_page q" "pins bp q = 0" "pins bp2 = (pins bp)(q := 1)"
      "\<forall>p. unat p < pages bp \<longrightarrow> view bp2 p = view bp p" "\<forall>p. 0 < pins bp p \<longrightarrow> page_table bp2 p = page_table bp p"
    have qc: "q \<noteq> ?c" using a(4) c(9) by auto
    have vc: "view bp2 ?c = view bp ?c" and tc: "page_table bp2 ?c = Some cp" using a(12,13) c by auto
    have g: "length (?g (view bp2 ?c)) = kPageSize" using vc c(10) full seal_simps(1) by simp
    define bp3 where "bp3 = poke bp2 cp ?g"
    have b3: "store_inv bp3" "pages bp3 = pages bp2" "num_frames bp3 = num_frames bp2" "pins bp3 = pins bp2"
      "view bp3 = (view bp2)(?c := ?g (view bp ?c))" "page_table bp3 = page_table bp2"
      using ps.wr_law [OF a(3) tc, of ?g] g a(11) qc c(7) vc by (auto simp: bp3_def)
    have "0 < pins bp3 ?c" using b3(4) a(11) qc c(7) by simp
    from ps.unpin_law [OF b3(1) this, of True] obtain bp4 where b4: "UnpinPage bp3 ?c True = (True, bp4)" "store_inv bp4"
      "pages bp4 = pages bp3" "num_frames bp4 = num_frames bp3" "view bp4 = view bp3"
      "pins bp4 = (pins bp3)(?c := pins bp3 ?c - 1)" "page_table bp4 = page_table bp3" by auto
    let ?s = "s\<lparr>current_page := Some f, current_page_id := q, offset := 0\<rparr>"
    have run: "StartNewPage bp s = (Inr (), bp4, ?s)"
      using a(1) c(1) b4(1) by (simp add: StartNewPage_def Let_def bp3_def a(2))
    have same: "view bp4 p = view bp p" if "unat p < pages bp" "p \<noteq> ?c" for p using that a(12) b3(5) b4(5) by simp
    have vwc: "view bp4 ?c = ?g (view bp ?c)" by (simp add: b3(5) b4(5))
    note sl = seal_simps(2-4,9) [where nxt = q, OF c(10) order_refl]
    have o': "?c \<notin> set ps" "\<forall>p\<in>set ps. unat p < pages bp" "links (view bp) ps ?c" "\<forall>p\<in>set (ps @ [?c]). is_data (view bp p)" "q \<notin> set ps"
      using o a(4) by (auto simp: out_ok_def Let_def)
    have pin: "pins bp4 = (pins bp0)(q := 1)" using b4(6) b3(4) a(11) c(5,6) qc by (simp add: fun_eq_iff)
    have pq: "pins bp0 q = 0" using a(10) c(6) qc by simp
    have unt: "untouched bp0 bp4" using c(4,11,6) a(6,7,11,13) same b3 b4 unfolding untouched_def by fastforce
    have sp: "view bp4 p = view bp p" if "p \<in> set ps" for p using same o' that by auto
    then have "links (view bp4) ps ?c" using o'(3) links_cong [of ps "view bp4" "view bp" ?c] by simp
    then have lk: "links (view bp4) (ps @ [?c]) q" unfolding links_snoc using sl vwc full by simp
    have dat: "concat (map (\<lambda>p. read_payload 0 PayloadCapacity (view bp4 p)) ps) =
        concat (map (\<lambda>p. read_payload 0 PayloadCapacity (view bp p)) ps)"
      using sp by (simp cong: map_cong)
    have dt: "\<forall>p\<in>set (ps @ [?c] @ [q]). is_data (view bp4 p)"
      using o'(1,4) sp vwc sl(4) full a(9) qc column_page_data by (auto simp: b3(5) b4(5))
    have b: "store_inv bp4" "pages bp4 = Suc (pages bp)" "page_table bp4 q = Some f" using a(6,8) b3 b4 by simp_all
    have d: "data = concat (map (\<lambda>p. read_payload 0 PayloadCapacity (view bp4 p)) (ps @ [?c]))"
      using o sl vwc full dat by (simp add: out_ok_def Let_def)
    have "out_ok bp0 bp4 ?s (ps @ [?c]) data"
      using o unt pin pq lk a(4,5) b d qc dt by (auto simp: out_ok_def Let_def hd_append)
    then show ?thesis using run by simp
  qed
qed


text \<open>
  The pages a writer needs: it takes a new one only when the current one is full, so
  \<open>n\<close> bytes in all need at most \<open>n div PayloadCapacity\<close> pages beside the first.
\<close>

lemma length_read_payload:
  "length p = kPageSize \<Longrightarrow> off + n \<le> PayloadCapacity \<Longrightarrow> length (read_payload off n p) = n"
  by (simp add: read_payload_def PayloadCapacity_def kHeaderSize_def kPageSize_def)

lemma out_ok_length:
  assumes "out_ok bp0 bp s ps data"
  shows "length data = length ps * PayloadCapacity + offset s"
proof -
  have v: "length (view bp p) = kPageSize" if "p \<in> set (ps @ [current_page_id s])" for p
    using assms that ps.length_vw [of bp p] by (auto simp: out_ok_def Let_def)
  then have "map (\<lambda>p. length (read_payload 0 PayloadCapacity (view bp p))) ps = map (\<lambda>p. PayloadCapacity) ps"
    by (simp add: length_read_payload)
  then show ?thesis
    using assms v by (simp add: out_ok_def Let_def length_concat o_def length_read_payload map_replicate_const sum_list_replicate)
qed

lemma out_ok_write:
  assumes o: "out_ok bp0 bp s ps data" and cp: "current_page s = Some cp" and n: "offset s + length xs \<le> PayloadCapacity"
  shows "out_ok bp0 (poke bp cp (write_payload (offset s) xs)) (s\<lparr>offset := offset s + length xs\<rparr>) ps (data @ xs)"
proof (rule out_okD [OF o])
  fix cp'
  let ?c = "current_page_id s" and ?g = "write_payload (offset s) xs"
  assume c: "current_page s = Some cp'" "page_table bp ?c = Some cp'" "store_inv bp" "0 < pins bp ?c"
    "length (view bp ?c) = kPageSize" "pages bp0 \<le> unat ?c"
  have g: "length (?g (view bp ?c)) = kPageSize" using c(5) n by (simp add: page_simps)
  have r: "read_payload 0 (offset s + length xs) (?g (view bp ?c)) = read_payload 0 (offset s) (view bp ?c) @ xs"
    using c(5) n by (simp add: page_simps)
  let ?b = "poke bp cp ?g"
  have b: "store_inv ?b" "pages ?b = pages bp" "num_frames ?b = num_frames bp" "pins ?b = pins bp"
    "view ?b = (view bp)(?c := ?g (view bp ?c))" "page_table ?b = page_table bp"
    using ps.wr_law [OF c(3,2,4), of ?g] g cp c(1) by auto
  have notin: "?c \<notin> set ps" using o by (simp add: out_ok_def Let_def)
  then have vp: "view ?b p = view bp p" if "p \<in> set ps" for p using that by (auto simp: b(5))
  have l: "links (view ?b) ps ?c = links (view bp) ps ?c" using vp links_cong by blast
  have d: "concat (map (\<lambda>p. read_payload 0 PayloadCapacity (view ?b p)) ps) =
      concat (map (\<lambda>p. read_payload 0 PayloadCapacity (view bp p)) ps)"
    using vp by (simp cong: map_cong)
  have u: "untouched bp0 ?b" using o c(6) b by (auto simp: out_ok_def Let_def untouched_def)
  have vc: "view ?b ?c = ?g (view bp ?c)" by (simp add: b(5))
  have "\<forall>p\<in>set ps. unat p < pages ?b" using o b(2) by (auto simp: out_ok_def Let_def)
  moreover have "is_data (?g (view bp ?c))" using is_data_simps(4) [OF c(5) n] o by (simp add: out_ok_def Let_def)
  ultimately show ?thesis using o u l d r n vc b(1,2,4,6) vp by (simp add: out_ok_def Let_def)
qed


text \<open>
  What the writer has put in its current page: nothing only when nothing was written at all,
  so that no page but the first can be empty.
\<close>

definition compact :: "out_stream \<Rightarrow> PageId list \<Rightarrow> bool" where
  "compact s ps \<longleftrightarrow> (offset s = 0 \<longrightarrow> ps = [])"

lemma WriteLoop_ok:
  assumes "out_ok bp0 bp s ps data" "compact s ps" "room_for 2 bp0"
    "pages bp0 + (length data + length xs) div PayloadCapacity < 2 ^ 32 - 1"
  shows "\<exists>bp' s' ps'. WriteLoop bp s xs = (Inr (), bp', s') \<and> out_ok bp0 bp' s' ps' (data @ xs) \<and> compact s' ps' \<and>
    bytes_written s' = bytes_written s"
  using assms
proof (induction bp s xs arbitrary: ps data rule: WriteLoop.induct)
  case (1 bp s xs)
  note o = "1.prems"(1) and room = "1.prems"(3) and n = "1.prems"(4)
  show ?case
  proof (cases "xs = []")
    case True
    then show ?thesis using "1.prems" by (auto simp: WriteLoop.simps [of bp s "[]"])
  next
    case ne: False
    have "\<exists>bp1 s1 ps1. (if offset s = PayloadCapacity then StartNewPage bp s else (Inr (), bp, s)) = (Inr (), bp1, s1) \<and>
      out_ok bp0 bp1 s1 ps1 data \<and> offset s1 < PayloadCapacity \<and> bytes_written s1 = bytes_written s"
    proof (cases "offset s = PayloadCapacity")
      case True
      have "length data div PayloadCapacity = length ps + 1"
        using out_ok_length [OF o] True capacity_pos by simp
      moreover have "length data div PayloadCapacity \<le> (length data + length xs) div PayloadCapacity" by (rule div_le_mono) simp
      moreover have "pages bp = pages bp0 + length ps + 1" using o by (simp add: out_ok_def Let_def)
      ultimately have "pages bp < 2 ^ 32 - 1" using n by linarith
      from StartNewPage_next [OF o True room this] show ?thesis using True capacity_pos by auto
    next
      case False
      then show ?thesis using o by (auto simp: out_ok_def Let_def)
    qed
    then obtain bp1 s1 ps1 where
      st: "(if offset s = PayloadCapacity then StartNewPage bp s else (Inr (), bp, s)) = (Inr (), bp1, s1)"
      and o1: "out_ok bp0 bp1 s1 ps1 data" and lt: "offset s1 < PayloadCapacity" and bw: "bytes_written s1 = bytes_written s"
      by blast
    obtain cp where cp: "current_page s1 = Some cp" using out_okD [OF o1] by metis
    let ?n = "min (PayloadCapacity - offset s1) (length xs)"
    have o2: "out_ok bp0 (poke bp1 cp (write_payload (offset s1) (take ?n xs))) (s1\<lparr>offset := offset s1 + ?n\<rparr>) ps1 (data @ take ?n xs)"
      using out_ok_write [OF o1 cp, of "take ?n xs"] lt by simp
    have c2: "compact (s1\<lparr>offset := offset s1 + ?n\<rparr>) ps1" using ne lt by (auto simp: compact_def min_def)
    have n2: "pages bp0 + (length (data @ take ?n xs) + length (drop ?n xs)) div PayloadCapacity < 2 ^ 32 - 1"
      using n by simp
    have "\<not> PayloadCapacity < offset s1" using lt by simp
    from "1.IH" [OF ne st [symmetric] refl refl cp this refl refl o2 c2 room n2]
    show ?thesis using ne st cp lt bw by (auto simp: WriteLoop.simps [of bp s xs] Let_def)
  qed
qed

lemma Write_ok:
  assumes "out_ok bp0 bp s ps data" "compact s ps" "room_for 2 bp0"
    "pages bp0 + (length data + length xs) div PayloadCapacity < 2 ^ 32 - 1"
  shows "\<exists>bp' s' ps'. Write bp s xs = (Inr (), bp', s') \<and> out_ok bp0 bp' s' ps' (data @ xs) \<and> compact s' ps' \<and>
    bytes_written s' = bytes_written s + word_of_nat (length xs)"
proof -
  obtain bp' s' ps' where w: "WriteLoop bp s xs = (Inr (), bp', s')" "out_ok bp0 bp' s' ps' (data @ xs)" "compact s' ps'"
    "bytes_written s' = bytes_written s" using WriteLoop_ok [OF assms] by blast
  have "\<not> finished s" using assms(1) by (simp add: out_ok_def Let_def)
  then have "Write bp s xs = (Inr (), bp', s'\<lparr>bytes_written := bytes_written s + word_of_nat (length xs)\<rparr>)"
    using w by (simp add: Write_def)
  moreover have "out_ok bp0 bp' (s'\<lparr>bytes_written := b\<rparr>) ps' (data @ xs)" for b using w(2) by (simp add: out_ok_def)
  moreover have "compact (s'\<lparr>bytes_written := b\<rparr>) ps'" for b using w(3) by (simp add: compact_def)
  ultimately show ?thesis by fastforce
qed

text \<open>Finishing a stream leaves it in the store, with nothing pinned and nothing else changed.\<close>

definition stream_added :: "pool \<Rightarrow> pool \<Rightarrow> PageId \<Rightarrow> byte list \<Rightarrow> bool" where
  "stream_added bp0 bp pid bs \<longleftrightarrow> store_inv bp \<and> untouched bp0 bp \<and> pins bp = pins bp0 \<and> pages bp0 \<le> unat pid \<and>
     pages bp \<le> pages bp0 + length bs div PayloadCapacity + 1 \<and>
     stream_in {p. pages bp0 \<le> unat p \<and> unat p < pages bp} (view bp) (pages bp) pid bs"

lemma stream_added_at: "stream_added bp0 bp pid bs \<Longrightarrow> stream_at (view bp) (pages bp) pid bs"
  by (auto simp: stream_added_def intro: stream_in_at)

lemma finished_stream_at:
  assumes lk: "links vw ps c" and ids: "\<And>p. p \<in> set (ps @ [c]) \<Longrightarrow> unat p < np \<and> p \<noteq> kInvalidPageId \<and> is_data (vw p)"
    and c: "payload_of (vw c) \<le> PayloadCapacity" "hdr_next_page_id (vw c) = kInvalidPageId" "payload_of (vw c) = 0 \<longrightarrow> ps = []"
  shows "stream_at vw np (hd (ps @ [c])) (chain_data vw (ps @ [c]))"
proof (cases ps)
  case Nil
  then show ?thesis using ids [of c] c by (auto simp: stream_at_def chain_data_def intro!: exI [of _ "[]"])
next
  case (Cons p ps')
  have "chain vw np p (p # ps' @ [c])" using links_chain [OF lk ids] c Cons by simp
  then show ?thesis using Cons by (auto simp: stream_at_def chain_data_def)
qed

lemma finished_stream:
  assumes lk: "links vw ps c" and ids: "\<And>p. p \<in> set (ps @ [c]) \<Longrightarrow> unat p < np \<and> p \<noteq> kInvalidPageId \<and> is_data (vw p)"
    and c: "payload_of (vw c) \<le> PayloadCapacity" "hdr_next_page_id (vw c) = kInvalidPageId" "payload_of (vw c) = 0 \<longrightarrow> ps = []"
  shows "stream_in (set (ps @ [c])) vw np (hd (ps @ [c])) (chain_data vw (ps @ [c]))"
  unfolding stream_in_def
proof (intro allI impI)
  fix v
  assume v: "\<forall>p \<in> set (ps @ [c]). v p = vw p"
  have "links v ps c" using lk v links_cong [of ps v vw c] by simp
  moreover have "chain_data v (ps @ [c]) = chain_data vw (ps @ [c])" using v by (simp add: chain_data_def cong: map_cong)
  ultimately show "stream_at v np (hd (ps @ [c])) (chain_data vw (ps @ [c]))"
    using finished_stream_at [of v ps c np] ids c v by auto
qed

lemma Finish_ok:
  assumes o: "out_ok bp0 bp s ps data" and cmp: "compact s ps"
  shows "\<exists>bp' s' pid. Finish bp s = (Inr pid, bp', s') \<and> stream_added bp0 bp' pid data"
proof (rule out_okD [OF o])
  fix cp
  let ?c = "current_page_id s" and ?g = "seal_last (offset s)"
  assume c: "current_page s = Some cp" "page_table bp ?c = Some cp" "store_inv bp" "offset s \<le> PayloadCapacity"
    "pins bp0 ?c = 0" "pins bp = (pins bp0)(?c := 1)" "0 < pins bp ?c" "\<not> finished s" "pages bp = pages bp0 + length ps + 1"
    "length (view bp ?c) = kPageSize" "pages bp0 \<le> unat ?c"
  note sl = seal_simps(5-8,10) [OF c(10,4)]
  let ?b = "poke bp cp ?g"
  have b: "store_inv ?b" "pages ?b = pages bp" "num_frames ?b = num_frames bp" "pins ?b = pins bp"
    "view ?b = (view bp)(?c := ?g (view bp ?c))" "page_table ?b = page_table bp"
    using ps.wr_law [OF c(3,2,7), of ?g] sl(1) by auto
  have "0 < pins ?b ?c" using b(4) c(7) by simp
  from ps.unpin_law [OF b(1) this, of True] obtain bp' where b': "UnpinPage ?b ?c True = (True, bp')" "store_inv bp'"
    "pages bp' = pages ?b" "num_frames bp' = num_frames ?b" "view bp' = view ?b"
    "pins bp' = (pins ?b)(?c := pins ?b ?c - 1)" "page_table bp' = page_table ?b" by auto
  have notin: "?c \<notin> set ps" using o by (simp add: out_ok_def Let_def)
  then have vp: "view bp' p = view bp p" if "p \<in> set ps" for p using that by (auto simp: b(5) b'(5))
  have vc: "view bp' ?c = ?g (view bp ?c)" by (simp add: b(5) b'(5))
  have lk: "links (view bp') ps ?c" using o vp links_cong [of ps "view bp'" "view bp" ?c] by (auto simp: out_ok_def Let_def)
  have ids: "unat p < pages bp' \<and> p \<noteq> kInvalidPageId \<and> is_data (view bp' p)" if "p \<in> set (ps @ [?c])" for p
    using o that b(2) b'(3) vp vc sl(5) by (auto simp: out_ok_def Let_def)
  have pd: "page_data (view bp' p) = read_payload 0 PayloadCapacity (view bp p)" if "p \<in> set ps" for p
    using that lk vp by (induction ps) (auto simp: page_data_def)
  have data: "data = chain_data (view bp') (ps @ [?c])"
    using o pd vc sl by (simp add: chain_data_def page_data_def out_ok_def Let_def cong: map_cong)
  have st: "stream_in (set (ps @ [?c])) (view bp') (pages bp') (hd (ps @ [?c])) data"
    using finished_stream [OF lk ids] sl vc c(4) data cmp by (simp add: compact_def)
  have "set (ps @ [?c]) \<subseteq> {p. pages bp0 \<le> unat p \<and> unat p < pages bp'}" using o b(2) b'(3) by (auto simp: out_ok_def Let_def)
  from stream_in_cong [OF st this]
  have "stream_in {p. pages bp0 \<le> unat p \<and> unat p < pages bp'} (view bp') (pages bp') (hd (ps @ [?c])) data" by simp
  moreover have "untouched bp0 bp'" using o c(11) b b' by (auto simp: out_ok_def Let_def untouched_def)
  moreover have "pins bp' = pins bp0" using b'(6) b(4) c(5,6) by (simp add: fun_eq_iff)
  moreover have "pages bp' \<le> pages bp0 + length data div PayloadCapacity + 1"
    using out_ok_length [OF o] capacity_pos b(2) b'(3) c(9) by simp
  moreover have "Finish bp s = (Inr (hd (ps @ [?c])), bp', s\<lparr>finished := True, current_page := None\<rparr>)"
    using o c(1,8) b'(1) by (simp add: Finish_def Let_def out_ok_def)
  moreover have "pages bp0 \<le> unat (hd (ps @ [?c]))" using o by (auto simp: out_ok_def Let_def hd_append)
  ultimately show ?thesis using b'(2) by (auto simp: stream_added_def)
qed


section \<open>The stream interface\<close>

text \<open>
  What the clients of the streams (columns, catalog) rely on. \<open>stored st pid d\<close>: the handle
  \<open>pid\<close> names a finished stream with contents \<open>d\<close>; \<open>added st0 st pid d\<close>: between \<open>st0\<close>
  and \<open>st\<close> exactly that stream was added; \<open>keeps st st'\<close>: nothing but the cache has
  changed; \<open>budget st n\<close>: the file has page ids left for a stream of \<open>n\<close> bytes.
\<close>

locale byte_stream =
  fixes ready :: "'s \<Rightarrow> bool"
    and budget :: "'s \<Rightarrow> nat \<Rightarrow> bool"
    and writing :: "'s \<Rightarrow> 's \<Rightarrow> 'w \<Rightarrow> byte list \<Rightarrow> bool"
    and added :: "'s \<Rightarrow> 's \<Rightarrow> PageId \<Rightarrow> byte list \<Rightarrow> bool"
    and stored :: "'s \<Rightarrow> PageId \<Rightarrow> byte list \<Rightarrow> bool"
    and keeps :: "'s \<Rightarrow> 's \<Rightarrow> bool"
    and reading :: "'s \<Rightarrow> 'r \<Rightarrow> byte list \<Rightarrow> bool"
    and open_out :: "'s \<Rightarrow> unit result \<times> 's \<times> 'w"
    and wrt :: "'s \<Rightarrow> 'w \<Rightarrow> byte list \<Rightarrow> unit result \<times> 's \<times> 'w"
    and fin :: "'s \<Rightarrow> 'w \<Rightarrow> PageId result \<times> 's \<times> 'w"
    and open_in :: "'s \<Rightarrow> PageId \<Rightarrow> unit result \<times> 's \<times> 'r"
    and rd :: "'s \<Rightarrow> 'r \<Rightarrow> nat \<Rightarrow> byte list result \<times> 's \<times> 'r"
    and skp :: "'s \<Rightarrow> 'r \<Rightarrow> nat \<Rightarrow> byte list result \<times> 's \<times> 'r"
    and ended :: "'r \<Rightarrow> bool"
  assumes open_out_law: "ready st \<Longrightarrow> budget st n \<Longrightarrow> \<exists>st' w. open_out st = (Inr (), st', w) \<and> writing st st' w []"
    and budget_mono: "budget st n \<Longrightarrow> m \<le> n \<Longrightarrow> budget st m"
    and wrt_law: "writing st0 st w d \<Longrightarrow> budget st0 (length d + length xs) \<Longrightarrow>
      \<exists>st' w'. wrt st w xs = (Inr (), st', w') \<and> writing st0 st' w' (d @ xs)"
    and fin_law: "writing st0 st w d \<Longrightarrow> \<exists>st' w' pid. fin st w = (Inr pid, st', w') \<and> added st0 st' pid d"
    and added_ready: "added st0 st pid d \<Longrightarrow> ready st0 \<Longrightarrow> ready st"
    and added_stored: "added st0 st pid d \<Longrightarrow> stored st pid d"
    and added_others: "added st0 st pid d \<Longrightarrow> stored st0 q e \<Longrightarrow> stored st q e"
    and keeps_ready: "keeps st st' \<Longrightarrow> ready st \<Longrightarrow> ready st'"
    and keeps_stored: "keeps st st' \<Longrightarrow> stored st pid d \<Longrightarrow> stored st' pid d"
    and keeps_trans: "keeps st st' \<Longrightarrow> keeps st' st'' \<Longrightarrow> keeps st st''"
    and keeps_refl: "ready st \<Longrightarrow> keeps st st"
    and keeps_reading: "keeps st st' \<Longrightarrow> reading st r d \<Longrightarrow> reading st' r d"
    and open_in_law: "ready st \<Longrightarrow> stored st pid d \<Longrightarrow>
      \<exists>st' r. open_in st pid = (Inr (), st', r) \<and> keeps st st' \<and> reading st' r d"
    and rd_law: "reading st r d \<Longrightarrow> n \<le> length d \<Longrightarrow>
      \<exists>st' r'. rd st r n = (Inr (take n d), st', r') \<and> keeps st st' \<and> reading st' r' (drop n d)"
    and skp_law: "reading st r d \<Longrightarrow> n \<le> length d \<Longrightarrow>
      \<exists>st' r'. skp st r n = (Inr [], st', r') \<and> keeps st st' \<and> reading st' r' (drop n d)"
    and ended_law: "reading st r d \<Longrightarrow> ended r \<longleftrightarrow> d = []"
    and reading_ready: "reading st r d \<Longrightarrow> keeps st st"
begin

text \<open>Reading a prefix that is known to be there, the form in which decoders use it.\<close>

lemma rd_append:
  assumes "reading st r (xs @ d)" and "n = length xs"
  shows "\<exists>st' r'. rd st r n = (Inr xs, st', r') \<and> keeps st st' \<and> reading st' r' d"
  using rd_law [OF assms(1), of n] assms(2) by simp

lemma skp_append:
  assumes "reading st r (xs @ d)" and "n = length xs"
  shows "\<exists>st' r'. skp st r n = (Inr [], st', r') \<and> keeps st st' \<and> reading st' r' d"
  using skp_law [OF assms(1), of n] assms(2) by simp

lemma added_opens:
  assumes "added st0 st pid d" and "ready st0"
  shows "\<exists>st' r. open_in st pid = (Inr (), st', r) \<and> keeps st st' \<and> reading st' r d"
  using open_in_law [OF added_ready [OF assms] added_stored [OF assms(1)]] .

end

abbreviation stream_ready :: "pool \<Rightarrow> bool" where
  "stream_ready bp \<equiv> store_inv bp \<and> room_for 2 bp"

abbreviation page_budget :: "pool \<Rightarrow> nat \<Rightarrow> bool" where
  "page_budget bp n \<equiv> pages bp + n div PayloadCapacity < 2 ^ 32 - 1"

definition writer_at :: "pool \<Rightarrow> pool \<Rightarrow> out_stream \<Rightarrow> byte list \<Rightarrow> bool" where
  "writer_at bp0 bp s data \<longleftrightarrow> room_for 2 bp0 \<and> (\<exists>ps. out_ok bp0 bp s ps data \<and> compact s ps)"

lemma reader_at_same: "same_pages bp bp' \<Longrightarrow> reader_at bp s bs \<Longrightarrow> reader_at bp' s bs"
  using in_ok_cong [of bp s bs bp'] by (simp add: reader_at_def same_pages_def)

interpretation bs: byte_stream stream_ready page_budget writer_at stream_added
  "\<lambda>bp. stream_at (view bp) (pages bp)" same_pages reader_at
  PagedOutputStream Write Finish PagedInputStream Read Skip at_end
proof unfold_locales
  fix bp n
  assume "stream_ready bp" "page_budget bp n"
  then show "\<exists>bp' s. PagedOutputStream bp = (Inr (), bp', s) \<and> writer_at bp bp' s []"
    using PagedOutputStream_ok [of bp] by (fastforce simp: writer_at_def compact_def)
next
  fix bp m n
  assume "page_budget bp n" "m \<le> (n :: nat)"
  then show "page_budget bp m" using div_le_mono [of m n PayloadCapacity] by linarith
next
  fix bp0 bp s and d xs :: "byte list"
  assume "writer_at bp0 bp s d" "page_budget bp0 (length d + length xs)"
  then show "\<exists>bp' s'. Write bp s xs = (Inr (), bp', s') \<and> writer_at bp0 bp' s' (d @ xs)"
    unfolding writer_at_def using Write_ok by blast
next
  fix bp0 bp s d
  assume "writer_at bp0 bp s d"
  then show "\<exists>bp' s' pid. Finish bp s = (Inr pid, bp', s') \<and> stream_added bp0 bp' pid d"
    unfolding writer_at_def using Finish_ok by blast
next
  fix bp0 bp pid d q e
  assume a: "stream_added bp0 bp pid d"
  show "stream_ready bp0 \<Longrightarrow> stream_ready bp" using a by (simp add: stream_added_def untouched_def)
  show "stream_at (view bp) (pages bp) pid d" using a by (rule stream_added_at)
  show "stream_at (view bp0) (pages bp0) q e \<Longrightarrow> stream_at (view bp) (pages bp) q e"
    using a stream_at_cong [of "view bp0" "pages bp0" q e "view bp" "pages bp"] by (simp add: stream_added_def untouched_def)
next
  fix bp bp' pid d
  assume a: "same_pages bp bp'"
  show "stream_ready bp \<Longrightarrow> stream_ready bp'" using a by (simp add: same_pages_def)
  show "stream_at (view bp) (pages bp) pid d \<Longrightarrow> stream_at (view bp') (pages bp') pid d"
    using a stream_at_cong [of "view bp" "pages bp" pid d "view bp'" "pages bp'"] by (simp add: same_pages_def)
next
  fix bp bp' s d
  show "same_pages bp bp' \<Longrightarrow> reader_at bp s d \<Longrightarrow> reader_at bp' s d" by (rule reader_at_same)
next
  fix bp pid d
  assume "stream_ready bp" "stream_at (view bp) (pages bp) pid d"
  then show "\<exists>bp' s. PagedInputStream bp pid = (Inr (), bp', s) \<and> same_pages bp bp' \<and> reader_at bp' s d"
    using PagedInputStream_ok [of bp pid d] by simp
next
  fix bp s and d :: "byte list" and n
  assume a: "reader_at bp s d" "n \<le> length d"
  show "\<exists>bp' s'. Read bp s n = (Inr (take n d), bp', s') \<and> same_pages bp bp' \<and> reader_at bp' s' (drop n d)"
    using Advance_ok [OF a, of True] by (simp add: Read_def)
  show "\<exists>bp' s'. Skip bp s n = (Inr [], bp', s') \<and> same_pages bp bp' \<and> reader_at bp' s' (drop n d)"
    using Advance_ok [OF a, of False] by (simp add: Skip_def)
qed (auto simp: same_pages_refl reader_at_def dest: same_pages_trans)

section \<open>Properties of the streams\<close>

text \<open>A client that writes a sequence of blocks, and one that reads a sequence of sizes.\<close>

fun write_blocks :: "pool \<Rightarrow> out_stream \<Rightarrow> byte list list \<Rightarrow> unit out_result" where
  "write_blocks bp s [] = (Inr (), bp, s)"
| "write_blocks bp s (b # bs) =
     (case Write bp s b of (Inl e, bp1, s1) \<Rightarrow> (Inl e, bp1, s1) | (Inr _, bp1, s1) \<Rightarrow> write_blocks bp1 s1 bs)"

definition write_stream :: "pool \<Rightarrow> byte list list \<Rightarrow> PageId out_result" where
  "write_stream bp bs =
     (case PagedOutputStream bp of
        (Inl e, bp1, s1) \<Rightarrow> (Inl e, bp1, s1)
      | (Inr _, bp1, s1) \<Rightarrow>
          (case write_blocks bp1 s1 bs of
             (Inl e, bp2, s2) \<Rightarrow> (Inl e, bp2, s2)
           | (Inr _, bp2, s2) \<Rightarrow> Finish bp2 s2))"

fun read_sizes :: "pool \<Rightarrow> in_stream \<Rightarrow> nat list \<Rightarrow> byte list list in_result" where
  "read_sizes bp s [] = (Inr [], bp, s)"
| "read_sizes bp s (n # ns) =
     (case Read bp s n of
        (Inl e, bp1, s1) \<Rightarrow> (Inl e, bp1, s1)
      | (Inr b, bp1, s1) \<Rightarrow>
          (case read_sizes bp1 s1 ns of
             (Inl e, bp2, s2) \<Rightarrow> (Inl e, bp2, s2)
           | (Inr bs, bp2, s2) \<Rightarrow> (Inr (b # bs), bp2, s2)))"

lemma write_blocks_ok:
  assumes "writer_at bp0 bp s d" and "page_budget bp0 (length d + length (concat bs))"
  shows "\<exists>bp' s'. write_blocks bp s bs = (Inr (), bp', s') \<and> writer_at bp0 bp' s' (d @ concat bs)"
  using assms
proof (induction bs arbitrary: bp s d)
  case (Cons b bs)
  have "page_budget bp0 (length d + length b)" using bs.budget_mono [OF Cons.prems(2)] by simp
  from bs.wrt_law [OF Cons.prems(1) this] obtain bp1 s1 where
    w: "Write bp s b = (Inr (), bp1, s1)" "writer_at bp0 bp1 s1 (d @ b)" by blast
  have "page_budget bp0 (length (d @ b) + length (concat bs))" using Cons.prems(2) by (simp add: add.assoc)
  from Cons.IH [OF w(2) this] show ?case using w(1) by simp
qed auto

lemma read_sizes_ok:
  assumes "reader_at bp s d" and "sum_list ns \<le> length d"
  shows "\<exists>bs bp' s'. read_sizes bp s ns = (Inr bs, bp', s') \<and> map length bs = ns \<and> concat bs = take (sum_list ns) d \<and>
    same_pages bp bp' \<and> reader_at bp' s' (drop (sum_list ns) d)"
  using assms
proof (induction ns arbitrary: bp s d)
  case Nil
  then show ?case using bs.reading_ready by fastforce
next
  case (Cons n ns)
  have "n \<le> length d" using Cons.prems(2) by simp
  from bs.rd_law [OF Cons.prems(1) this] obtain bp1 s1 where
    r: "Read bp s n = (Inr (take n d), bp1, s1)" "same_pages bp bp1" "reader_at bp1 s1 (drop n d)" by blast
  have "sum_list ns \<le> length (drop n d)" using Cons.prems(2) by simp
  from Cons.IH [OF r(3) this] r(1,2) Cons.prems(2) show ?case
    by (fastforce simp: take_add add.commute dest: same_pages_trans)
qed

lemma write_stream_ok:
  assumes "stream_ready bp" and "page_budget bp (length (concat bs))"
  shows "\<exists>pid bp' s'. write_stream bp bs = (Inr pid, bp', s') \<and> stream_added bp bp' pid (concat bs)"
proof -
  obtain bp1 s1 where o: "PagedOutputStream bp = (Inr (), bp1, s1)" "writer_at bp bp1 s1 []"
    using bs.open_out_law [OF assms] by blast
  obtain bp2 s2 where w: "write_blocks bp1 s1 bs = (Inr (), bp2, s2)" "writer_at bp bp2 s2 (concat bs)"
    using write_blocks_ok [OF o(2), of bs] assms(2) by auto
  show ?thesis using bs.fin_law [OF w(2)] o(1) w(1) by (auto simp: write_stream_def)
qed


lemma sample_ready: "stream_ready sample_pool" "n < 4000 \<Longrightarrow> page_budget sample_pool n"
  using sample_pool(6) by (simp_all add: sample_pool PayloadCapacity_def kPageSize_def kHeaderSize_def sample_disk)

text \<open>C30. Bytes written in blocks of any sizes, over as many pages as they need, are read back
  in pieces of any other sizes: writing never fails while two frames and enough page ids
  are left, the reader sees exactly the bytes in order and then its end, no pin is left,
  and every page that existed before is unchanged.\<close>

theorem stream_round_trip:
  assumes "stream_ready bp" and "page_budget bp (length (concat bs))" and "sum_list ns = length (concat bs)"
  shows "\<exists>pid bp1 w bp2 r cs bp3 r'. write_stream bp bs = (Inr pid, bp1, w) \<and> PagedInputStream bp1 pid = (Inr (), bp2, r) \<and>
    read_sizes bp2 r ns = (Inr cs, bp3, r') \<and> map length cs = ns \<and> concat cs = concat bs \<and> at_end r' \<and>
    pins bp3 = pins bp \<and> (\<forall>q. unat q < pages bp \<longrightarrow> view bp3 q = view bp q)"
proof -
  obtain pid bp1 w where w: "write_stream bp bs = (Inr pid, bp1, w)" "stream_added bp bp1 pid (concat bs)"
    using write_stream_ok [OF assms(1,2)] by blast
  obtain bp2 r where o: "PagedInputStream bp1 pid = (Inr (), bp2, r)" "same_pages bp1 bp2" "reader_at bp2 r (concat bs)"
    using bs.added_opens [OF w(2) assms(1)] by blast
  obtain cs bp3 r' where r: "read_sizes bp2 r ns = (Inr cs, bp3, r')" "map length cs = ns" "concat cs = concat bs"
    "same_pages bp2 bp3" "reader_at bp3 r' []"
    using read_sizes_ok [OF o(3), of ns] assms(3) by auto
  have "at_end r'" using bs.ended_law [OF r(5)] by simp
  moreover have "pins bp3 = pins bp \<and> (\<forall>q. unat q < pages bp \<longrightarrow> view bp3 q = view bp q)"
    using w(2) o(2) r(4) by (auto simp: same_pages_def stream_added_def untouched_def)
  ultimately show ?thesis using w(1) o(1) r(1,2,3) by blast
qed

theorem stream_round_trip_witness:
  "\<exists>pid bp1 w bp2 r cs bp3 r'. write_stream sample_pool [[1, 2], [], [3, 4, 5]] = (Inr pid, bp1, w) \<and>
    PagedInputStream bp1 pid = (Inr (), bp2, r) \<and> read_sizes bp2 r [4, 1] = (Inr cs, bp3, r') \<and> map length cs = [4, 1] \<and>
    concat cs = concat [[1, 2], [], [3, 4, 5]] \<and> at_end r' \<and> pins bp3 = pins sample_pool \<and>
    (\<forall>q. unat q < pages sample_pool \<longrightarrow> view bp3 q = view sample_pool q)"
  by (rule stream_round_trip [OF sample_ready(1) sample_ready(2)]) simp_all

text \<open>Reading past what a stream holds throws, however the stream is spread over pages and
  however much of it was consumed before; skipping moves the position as reading does.\<close>

theorem stream_underflow:
  assumes "stream_ready bp" and "stream_at (view bp) (pages bp) pid d" and "k \<le> length d" and "length d - k < n"
  shows "\<exists>bp1 r bp2 r2 bp3 r3. PagedInputStream bp pid = (Inr (), bp1, r) \<and> Skip bp1 r k = (Inr [], bp2, r2) \<and>
    (\<forall>m\<le>length d - k. \<exists>x. Read bp2 r2 m = (Inr (take m (drop k d)), x)) \<and>
    Read bp2 r2 n = (Inl (RuntimeError ''PagedInputStream: read past end of stream''), bp3, r3)"
proof -
  obtain bp1 r where o: "PagedInputStream bp pid = (Inr (), bp1, r)" "reader_at bp1 r d"
    using bs.open_in_law [OF assms(1,2)] by blast
  obtain bp2 r2 where s: "Skip bp1 r k = (Inr [], bp2, r2)" "reader_at bp2 r2 (drop k d)"
    using bs.skp_law [OF o(2) assms(3)] by blast
  obtain bp3 r3 where u: "AdvanceLoop bp2 r2 n True [] = (Inl (RuntimeError ''PagedInputStream: read past end of stream''), bp3, r3)"
    using AdvanceLoop_underflow [of bp2 r2 "drop k d" n True "[]"] s(2) assms(4) by (auto simp: reader_at_def)
  have "\<exists>x. Read bp2 r2 m = (Inr (take m (drop k d)), x)" if "m \<le> length d - k" for m
    using bs.rd_law [OF s(2), of m] that by auto
  then show ?thesis using o s u by (auto simp: Read_def Advance_def)
qed

theorem stream_underflow_witness:
  "\<exists>pid bp bp1 r bp2 r2 bp3 r3. PagedInputStream bp pid = (Inr (), bp1, r) \<and> Skip bp1 r 1 = (Inr [], bp2, r2) \<and>
    (\<forall>m\<le>2. \<exists>x. Read bp2 r2 m = (Inr (take m [8, 9]), x)) \<and>
    Read bp2 r2 3 = (Inl (RuntimeError ''PagedInputStream: read past end of stream''), bp3, r3)"
proof -
  have "page_budget sample_pool (length (concat [[7 :: byte, 8, 9]]))" by (rule sample_ready(2)) simp
  from write_stream_ok [OF sample_ready(1) this] obtain pid bp where "stream_added sample_pool bp pid [7, 8, 9]" by auto
  then have "stream_ready bp" "stream_at (view bp) (pages bp) pid [7, 8, 9]"
    using bs.added_ready sample_ready(1) bs.added_stored by blast+
  from stream_underflow [OF this, of 1 3] show ?thesis
    by (simp add: numeral_2_eq_2) (rule exI [of _ pid], rule exI [of _ bp], assumption)
qed

text \<open>A stream is written at most once: after \<open>Finish\<close> both operations of the writer throw
  and change nothing.\<close>

theorem stream_finish_once:
  assumes "Finish bp s = (Inr pid, bp', s')"
  shows "Write bp' s' data = (Inl (LogicError ''PagedOutputStream::Write after Finish''), bp', s') \<and>
    Finish bp' s' = (Inl (LogicError ''PagedOutputStream::Finish called twice''), bp', s')"
  using assms by (auto simp: Finish_def Write_def Let_def split: if_splits option.splits)

theorem stream_finish_once_witness:
  "\<exists>bp' s'. Write bp' s' [1] = (Inl (LogicError ''PagedOutputStream::Write after Finish''), bp', s') \<and>
    Finish bp' s' = (Inl (LogicError ''PagedOutputStream::Finish called twice''), bp', s')"
proof -
  obtain bp1 s1 where "PagedOutputStream sample_pool = (Inr (), bp1, s1)" "writer_at sample_pool bp1 s1 []"
    using bs.open_out_law [OF sample_ready(1) sample_ready(2) [of 0]] by auto
  then obtain bp2 s2 pid where "Finish bp1 s1 = (Inr pid, bp2, s2)" using bs.fin_law by blast
  from stream_finish_once [OF this] show ?thesis by blast
qed

end
