(* ===== verification/Column.thy ===== *)
theory Column
  imports Encoding Paged_Stream
begin

text \<open>
  Columns (\<open>column/column_writer.cpp\<close>, \<open>column/column_reader.cpp\<close>): a sequence of values
  stored as a paged stream of self-describing chunks of 2048 rows, and the reader that visits
  them one by one and decodes or skips each. The theorems go through every layer below:
  chunk encoding, paged stream, buffer pool and disk.
\<close>

section \<open>The writer\<close>

definition kChunkRows :: nat where
  "kChunkRows = 2048"

record ChunkMeta =
  cm_num_rows :: u32
  cm_encoding :: Encoding
  cm_has_zone_map :: byte
  cm_reserved :: u16
  cm_null_count :: u32
  cm_byte_length :: u32
  cm_min_value :: "64 word"
  cm_max_value :: "64 word"

definition new_meta :: ChunkMeta where
  "new_meta = \<lparr>cm_num_rows = 0, cm_encoding = kPlain, cm_has_zone_map = 0, cm_reserved = 0, cm_null_count = 0,
     cm_byte_length = 0, cm_min_value = 0, cm_max_value = 0\<rparr>"

record column_writer =
  cw_type :: ColumnType
  cw_out :: out_stream
  cw_buffer :: "Value list"
  cw_finished :: bool

type_synonym 'a writer_result = "'a result \<times> pool \<times> column_writer"

definition ColumnWriter :: "pool \<Rightarrow> ColumnType \<Rightarrow> unit writer_result" where
  "ColumnWriter bp t =
     (case PagedOutputStream bp of (r, bp1, s) \<Rightarrow> (r, bp1, \<lparr>cw_type = t, cw_out = s, cw_buffer = [], cw_finished = False\<rparr>))"

text \<open>The header a chunk is written with, and its fields in the order they are written.\<close>

definition meta_of :: "EncodedChunk \<Rightarrow> ChunkMeta" where
  "meta_of c = new_meta\<lparr>cm_num_rows := num_rows c, cm_encoding := encoding c, cm_has_zone_map := (if has_zone_map c then 1 else 0),
     cm_null_count := null_count c, cm_byte_length := word_of_nat (length (payload c)),
     cm_min_value := min_value c, cm_max_value := max_value c\<rparr>"

definition meta_fields :: "ChunkMeta \<Rightarrow> byte list list" where
  "meta_fields m = [PutPod (cm_num_rows m), PutPod (encoding_byte (cm_encoding m)), PutPod (cm_has_zone_map m),
     PutPod (cm_reserved m), PutPod (cm_null_count m), PutPod (cm_byte_length m), PutPod (cm_min_value m), PutPod (cm_max_value m)]"

definition FlushChunk :: "pool \<Rightarrow> column_writer \<Rightarrow> unit writer_result" where
  "FlushChunk bp w =
     (if cw_buffer w = [] then (Inr (), bp, w)
      else case EncodeChunk (cw_type w) (cw_buffer w) of
          Inl e \<Rightarrow> (Inl e, bp, w)
        | Inr c \<Rightarrow>
            (case write_blocks bp (cw_out w) (meta_fields (meta_of c) @ [payload c]) of
               (Inl e, bp1, s) \<Rightarrow> (Inl e, bp1, w\<lparr>cw_out := s\<rparr>)
             | (Inr _, bp1, s) \<Rightarrow> (Inr (), bp1, w\<lparr>cw_out := s, cw_buffer := []\<rparr>)))"

definition Append :: "pool \<Rightarrow> column_writer \<Rightarrow> Value \<Rightarrow> unit writer_result" where
  "Append bp w v =
     (if cw_finished w then (Inl (LogicError ''ColumnWriter::Append after Finish''), bp, w)
      else let w1 = w\<lparr>cw_buffer := cw_buffer w @ [v]\<rparr> in
        if kChunkRows \<le> length (cw_buffer w1) then FlushChunk bp w1 else (Inr (), bp, w1))"

definition FinishColumn :: "pool \<Rightarrow> column_writer \<Rightarrow> PageId writer_result" where
  "FinishColumn bp w =
     (if cw_finished w then (Inl (LogicError ''ColumnWriter::Finish called twice''), bp, w)
      else case FlushChunk bp w of
          (Inl e, bp1, w1) \<Rightarrow> (Inl e, bp1, w1)
        | (Inr _, bp1, w1) \<Rightarrow>
            (case Finish bp1 (cw_out w1) of (r, bp2, s) \<Rightarrow> (r, bp2, w1\<lparr>cw_finished := True, cw_out := s\<rparr>)))"

section \<open>The reader\<close>

record column_reader =
  cr_in :: in_stream
  cr_type :: ColumnType
  cr_meta :: ChunkMeta
  payload_consumed :: bool

type_synonym 'a reader_result = "'a result \<times> pool \<times> column_reader"

definition ColumnReader :: "pool \<Rightarrow> PageId \<Rightarrow> ColumnType \<Rightarrow> unit reader_result" where
  "ColumnReader bp first_page t =
     (case PagedInputStream bp first_page of
        (r, bp1, s) \<Rightarrow> (r, bp1, \<lparr>cr_in = s, cr_type = t, cr_meta = new_meta, payload_consumed = True\<rparr>))"

definition SkipPayload :: "pool \<Rightarrow> column_reader \<Rightarrow> unit reader_result" where
  "SkipPayload bp r =
     (if payload_consumed r then (Inr (), bp, r)
      else case Skip bp (cr_in r) (unat (cm_byte_length (cr_meta r))) of
          (Inl e, bp1, s) \<Rightarrow> (Inl e, bp1, r\<lparr>cr_in := s\<rparr>)
        | (Inr _, bp1, s) \<Rightarrow> (Inr (), bp1, r\<lparr>cr_in := s, payload_consumed := True\<rparr>))"

text \<open>\<open>in_.ReadPod<T>()\<close>, stored in a field of the header.\<close>

definition ReadField :: "('a::len word \<Rightarrow> ChunkMeta \<Rightarrow> ChunkMeta) \<Rightarrow> pool \<Rightarrow> column_reader \<Rightarrow> unit reader_result" where
  "ReadField upd bp r =
     (case Read bp (cr_in r) (sizeof_word TYPE('a word)) of
        (Inl e, bp1, s) \<Rightarrow> (Inl e, bp1, r\<lparr>cr_in := s\<rparr>)
      | (Inr bs, bp1, s) \<Rightarrow> (Inr (), bp1, r\<lparr>cr_in := s, cr_meta := upd (pod_of_bytes bs) (cr_meta r)\<rparr>))"

definition and_then :: "unit reader_result \<Rightarrow> (pool \<Rightarrow> column_reader \<Rightarrow> 'a reader_result) \<Rightarrow> 'a reader_result" where
  "and_then x f = (case x of (Inl e, bp, r) \<Rightarrow> (Inl e, bp, r) | (Inr _, bp, r) \<Rightarrow> f bp r)"

definition ReadMeta :: "pool \<Rightarrow> column_reader \<Rightarrow> unit reader_result" where
  "ReadMeta bp0 r0 =
     and_then (ReadField (\<lambda>x m. m\<lparr>cm_num_rows := x\<rparr>) bp0 r0) (\<lambda>bp1 r1.
     and_then (ReadField (\<lambda>x m. m\<lparr>cm_encoding := encoding_of_byte x\<rparr>) bp1 r1) (\<lambda>bp2 r2.
     and_then (ReadField (\<lambda>x m. m\<lparr>cm_has_zone_map := x\<rparr>) bp2 r2) (\<lambda>bp3 r3.
     and_then (ReadField (\<lambda>x m. m\<lparr>cm_reserved := x\<rparr>) bp3 r3) (\<lambda>bp4 r4.
     and_then (ReadField (\<lambda>x m. m\<lparr>cm_null_count := x\<rparr>) bp4 r4) (\<lambda>bp5 r5.
     and_then (ReadField (\<lambda>x m. m\<lparr>cm_byte_length := x\<rparr>) bp5 r5) (\<lambda>bp6 r6.
     and_then (ReadField (\<lambda>x m. m\<lparr>cm_min_value := x\<rparr>) bp6 r6) (\<lambda>bp7 r7.
     ReadField (\<lambda>x m. m\<lparr>cm_max_value := x\<rparr>) bp7 r7)))))))"

definition NextChunk :: "pool \<Rightarrow> column_reader \<Rightarrow> bool reader_result" where
  "NextChunk bp r =
     and_then (if \<not> payload_consumed r then SkipPayload bp r else (Inr (), bp, r)) (\<lambda>bp1 r1.
       if at_end (cr_in r1) then (Inr False, bp1, r1)
       else and_then (ReadMeta bp1 r1) (\<lambda>bp2 r2. (Inr True, bp2, r2\<lparr>payload_consumed := False\<rparr>)))"

definition Decode :: "pool \<Rightarrow> column_reader \<Rightarrow> vec \<Rightarrow> vec reader_result" where
  "Decode bp r out =
     (case Read bp (cr_in r) (unat (cm_byte_length (cr_meta r))) of
        (Inl e, bp1, s) \<Rightarrow> (Inl e, bp1, r\<lparr>cr_in := s\<rparr>)
      | (Inr scratch, bp1, s) \<Rightarrow>
          (case DecodeChunk (cr_type r) (cm_encoding (cr_meta r)) (cm_num_rows (cr_meta r)) scratch out of
             Inl e \<Rightarrow> (Inl e, bp1, r\<lparr>cr_in := s\<rparr>)
           | Inr out' \<Rightarrow> (Inr out', bp1, r\<lparr>cr_in := s, payload_consumed := True\<rparr>)))"

section \<open>The bytes of a column\<close>

text \<open>Rows are cut into chunks of \<open>kChunkRows\<close>, the last one possibly shorter.\<close>

function split_chunks :: "'a list \<Rightarrow> 'a list list" where
  "split_chunks xs = (if xs = [] then [] else take kChunkRows xs # split_chunks (drop kChunkRows xs))"
  by pat_completeness auto
termination by (relation "measure length") (auto simp: kChunkRows_def)

declare split_chunks.simps [simp del]

lemma split_chunks_simps:
  "split_chunks [] = []"
  "xs \<noteq> [] \<Longrightarrow> split_chunks xs = take kChunkRows xs # split_chunks (drop kChunkRows xs)"
  by (simp_all add: split_chunks.simps [of xs] split_chunks.simps [of "[]"])

lemma concat_split_chunks: "concat (split_chunks xs) = xs"
  by (induction xs rule: split_chunks.induct) (simp add: split_chunks.simps)

lemma split_chunks_append:
  assumes "length xs mod kChunkRows = 0" and "ys \<noteq> []" and "length ys \<le> kChunkRows"
  shows "split_chunks (xs @ ys) = split_chunks xs @ [ys]"
  using assms
proof (induction xs rule: split_chunks.induct)
  case (1 xs)
  show ?case
  proof (cases "xs = []")
    case True
    then show ?thesis using "1.prems" by (simp add: split_chunks_simps)
  next
    case False
    have le: "kChunkRows \<le> length xs" using "1.prems"(1) False by (meson dvd_imp_le length_greater_0_conv mod_eq_0_iff_dvd)
    have "length (drop kChunkRows xs) mod kChunkRows = 0" using "1.prems"(1) le by (simp add: le_mod_geq)
    from "1.IH" [OF False this "1.prems"(2,3)] show ?thesis
      using False le by (simp add: split_chunks_simps(2) [of xs] split_chunks_simps(2) [of "xs @ ys"])
  qed
qed

lemma split_chunks_members: "c \<in> set (split_chunks xs) \<Longrightarrow> c \<noteq> [] \<and> length c \<le> kChunkRows \<and> set c \<subseteq> set xs"
proof (induction xs rule: split_chunks.induct)
  case (1 xs)
  then show ?case
    by (cases "xs = []") (auto simp: split_chunks_simps kChunkRows_def dest: in_set_takeD in_set_dropD)
qed

lemma strs_concat_member: "c \<in> set cs \<Longrightarrow> length (strs c) \<le> length (strs (concat cs))"
  by (induction cs) auto

definition chunk_bytes :: "ColumnType \<Rightarrow> Value list \<Rightarrow> byte list" where
  "chunk_bytes t xs = (case EncodeChunk t xs of Inl e \<Rightarrow> [] | Inr c \<Rightarrow> concat (meta_fields (meta_of c)) @ payload c)"

definition column_bytes :: "ColumnType \<Rightarrow> Value list \<Rightarrow> byte list" where
  "column_bytes t vs = concat (map (chunk_bytes t) (split_chunks vs))"

text \<open>What a column may hold: values of its type, and strings that 32-bit lengths can describe.\<close>

definition column_ok :: "ColumnType \<Rightarrow> Value list \<Rightarrow> bool" where
  "column_ok t vs \<longleftrightarrow> list_all (value_fits t) vs \<and> length (strs vs) + 2 ^ 14 \<le> 2 ^ 32"

lemma column_chunk_ok:
  assumes "column_ok t vs" and "set xs \<subseteq> set vs" and "length (strs xs) \<le> length (strs vs)" and "length xs \<le> kChunkRows"
  shows "chunk_ok t xs" "column_ok t xs"
  using assms by (auto simp: column_ok_def chunk_ok_def kChunkRows_def list_all_iff)

lemma plain_size:
  assumes "column_ok t xs" and "length xs \<le> kChunkRows" and "EncodePlain t xs = Inr c"
  shows "length (payload c) < 2 ^ 32"
proof (cases "t = kVarchar")
  case True
  have "length (concat (map PutPod (str_offsets xs))) = (length xs + 1) * 4"
    using length_concat_blocks [of "str_offsets xs" PutPod 4] by simp
  then show ?thesis
    using True EncodePlain_varchar [of xs] assms by (auto simp: column_ok_def kChunkRows_def ValidityBytes_def new_chunk_def)
next
  case False
  have f: "list_all (value_fits t) xs" using assms(1) by (simp add: column_ok_def)
  have "length (slot_bytes t x) = FixedWidth t" if "x \<in> set xs" for x using that f length_slot_bytes by (auto simp: list_all_iff)
  then have "length (concat (map (slot_bytes t) xs)) = length xs * FixedWidth t" by (rule length_concat_blocks)
  moreover have "FixedWidth t \<le> 8" by (cases t) simp_all
  then have "length xs * FixedWidth t \<le> 2048 * 8" using assms(2) by (intro mult_le_mono) (simp_all add: kChunkRows_def)
  ultimately show ?thesis
    using EncodePlain_fixed [OF False f] assms by (auto simp: kChunkRows_def ValidityBytes_def new_chunk_def)
qed

lemma chosen_le_plain:
  assumes "chunk_ok t xs" and "EncodeChunk t xs = Inr c" and "EncodePlain t xs = Inr d"
  shows "length (payload c) \<le> length (payload d)"
proof -
  have "kPlain \<in> set (candidates t)" "EncodeChunkWith t xs kPlain = Inr d" using assms(3) by (cases t; simp add: EncodeChunkWith_def)+
  then show ?thesis using EncodeChunk_ok [OF assms(1)] assms(2) by (metis sum.inject(2))
qed

lemma chosen_size:
  assumes "column_ok t xs" and "length xs \<le> kChunkRows" and "EncodeChunk t xs = Inr c"
  shows "unat (cm_byte_length (meta_of c)) = length (payload c)"
proof -
  have ok: "chunk_ok t xs" using column_chunk_ok(1) [OF assms(1) _ _ assms(2)] by simp
  obtain d where d: "EncodePlain t xs = Inr d" using plain.trip [OF ok] by blast
  have "length (payload c) < 2 ^ 32" using chosen_le_plain [OF ok assms(3) d] plain_size [OF assms(1,2) d] by simp
  then show ?thesis by (simp add: meta_of_def new_meta_def unat_of_nat)
qed

section \<open>Writing a column\<close>

text \<open>
  \<open>column_at bp0 bp w vs\<close>: the writer has accepted the values \<open>vs\<close>; all full chunks of them
  are in the stream and the rest is buffered.
\<close>

definition column_at :: "pool \<Rightarrow> pool \<Rightarrow> column_writer \<Rightarrow> Value list \<Rightarrow> bool" where
  "column_at bp0 bp w vs \<longleftrightarrow> \<not> cw_finished w \<and> length (cw_buffer w) < kChunkRows \<and>
     (\<exists>written. vs = written @ cw_buffer w \<and> length written mod kChunkRows = 0 \<and>
        writer_at bp0 bp (cw_out w) (column_bytes (cw_type w) written))"

lemma column_bytes_append:
  assumes "length xs mod kChunkRows = 0" and "ys \<noteq> []" and "length ys \<le> kChunkRows"
  shows "column_bytes t (xs @ ys) = column_bytes t xs @ chunk_bytes t ys"
  using split_chunks_append [OF assms] by (simp add: column_bytes_def)

lemma ColumnWriter_ok:
  assumes "stream_ready bp" and "page_budget bp n"
  shows "\<exists>bp' w. ColumnWriter bp t = (Inr (), bp', w) \<and> cw_type w = t \<and> column_at bp bp' w []"
  using bs.open_out_law [OF assms]
  by (auto simp: ColumnWriter_def column_at_def column_bytes_def split_chunks_simps kChunkRows_def)

lemma FlushChunk_ok:
  assumes w: "writer_at bp0 bp (cw_out w) (column_bytes (cw_type w) written)" "length written mod kChunkRows = 0"
    and b: "length (cw_buffer w) \<le> kChunkRows" and ok: "chunk_ok (cw_type w) (cw_buffer w)"
    and n: "page_budget bp0 (length (column_bytes (cw_type w) (written @ cw_buffer w)))"
  shows "\<exists>bp' w'. FlushChunk bp w = (Inr (), bp', w') \<and> cw_type w' = cw_type w \<and> cw_finished w' = cw_finished w \<and> cw_buffer w' = [] \<and>
    writer_at bp0 bp' (cw_out w') (column_bytes (cw_type w) (written @ cw_buffer w))"
proof (cases "cw_buffer w = []")
  case True
  then show ?thesis using w(1) by (simp add: FlushChunk_def)
next
  case False
  obtain c where c: "EncodeChunk (cw_type w) (cw_buffer w) = Inr c" using EncodeChunk_ok [OF ok] by metis
  have bytes: "column_bytes (cw_type w) (written @ cw_buffer w) =
      column_bytes (cw_type w) written @ concat (meta_fields (meta_of c) @ [payload c])"
    using column_bytes_append [OF w(2) False b] c by (simp add: chunk_bytes_def)
  obtain bp' s where s: "write_blocks bp (cw_out w) (meta_fields (meta_of c) @ [payload c]) = (Inr (), bp', s)"
    "writer_at bp0 bp' s (column_bytes (cw_type w) (written @ cw_buffer w))"
    using write_blocks_ok [OF w(1), of "meta_fields (meta_of c) @ [payload c]"] n bytes by auto
  then show ?thesis using False c by (simp add: FlushChunk_def)
qed

lemma column_bytes_mono: "length (column_bytes t written) \<le> length (column_bytes t (written @ xs))"
  if "length written mod kChunkRows = 0"
proof -
  have "split_chunks (written @ xs) = split_chunks written @ split_chunks xs" using that
  proof (induction written rule: split_chunks.induct)
    case (1 ys)
    show ?case
    proof (cases "ys = []")
      case False
      have le: "kChunkRows \<le> length ys" using "1.prems" False by (meson dvd_imp_le length_greater_0_conv mod_eq_0_iff_dvd)
      have "length (drop kChunkRows ys) mod kChunkRows = 0" using "1.prems" le by (simp add: le_mod_geq)
      from "1.IH" [OF False this] show ?thesis
        using False le by (simp add: split_chunks_simps(2) [of ys] split_chunks_simps(2) [of "ys @ xs"])
    qed (simp add: split_chunks_simps)
  qed
  then show ?thesis by (simp add: column_bytes_def)
qed

lemma Append_ok:
  assumes a: "column_at bp0 bp w vs" and ok: "column_ok (cw_type w) (vs @ v # rest)"
    and n: "page_budget bp0 (length (column_bytes (cw_type w) (vs @ v # rest)))"
  shows "\<exists>bp' w'. Append bp w v = (Inr (), bp', w') \<and> cw_type w' = cw_type w \<and> column_at bp0 bp' w' (vs @ [v])"
proof -
  obtain fl where fl: "vs = fl @ cw_buffer w" "length fl mod kChunkRows = 0"
    "writer_at bp0 bp (cw_out w) (column_bytes (cw_type w) fl)" and nf: "\<not> cw_finished w" and lt: "length (cw_buffer w) < kChunkRows"
    using a by (auto simp: column_at_def)
  let ?w = "w\<lparr>cw_buffer := cw_buffer w @ [v]\<rparr>"
  show ?thesis
  proof (cases "kChunkRows \<le> length (cw_buffer ?w)")
    case False
    have "column_at bp0 bp ?w (vs @ [v])" unfolding column_at_def
      by (intro conjI exI [of _ fl]) (use fl nf False in simp_all)
    then show ?thesis using nf False by (simp add: Append_def)
  next
    case True
    have full: "length (cw_buffer ?w) = kChunkRows" using True lt by simp
    have cok: "chunk_ok (cw_type ?w) (cw_buffer ?w)"
      using column_chunk_ok(1) [of "cw_type w" "vs @ v # rest" "cw_buffer ?w"] ok fl(1) full by auto
    have m: "length (fl @ cw_buffer ?w) mod kChunkRows = 0" using fl(2) full by simp
    have "vs @ v # rest = (fl @ cw_buffer ?w) @ rest" using fl(1) by simp
    then have "page_budget bp0 (length (column_bytes (cw_type ?w) (fl @ cw_buffer ?w)))"
      using bs.budget_mono [OF n] column_bytes_mono [OF m, of "cw_type w" rest] by simp
    with FlushChunk_ok [of bp0 bp ?w fl] fl(2,3) full cok obtain bp' w' where
      f: "FlushChunk bp ?w = (Inr (), bp', w')" "cw_type w' = cw_type w" "cw_finished w' = cw_finished w" "cw_buffer w' = []"
        "writer_at bp0 bp' (cw_out w') (column_bytes (cw_type w) (fl @ cw_buffer ?w))" by auto
    have "column_at bp0 bp' w' (vs @ [v])" unfolding column_at_def
      by (intro conjI exI [of _ "fl @ cw_buffer ?w"]) (use fl(1) m f nf in \<open>simp_all add: kChunkRows_def\<close>)
    then show ?thesis using f nf True by (simp add: Append_def)
  qed
qed

lemma FinishColumn_ok:
  assumes a: "column_at bp0 bp w vs" and ok: "column_ok (cw_type w) vs"
    and n: "page_budget bp0 (length (column_bytes (cw_type w) vs))"
  shows "\<exists>pid bp' w'. FinishColumn bp w = (Inr pid, bp', w') \<and> stream_added bp0 bp' pid (column_bytes (cw_type w) vs)"
proof -
  obtain fl where fl: "vs = fl @ cw_buffer w" "length fl mod kChunkRows = 0"
    "writer_at bp0 bp (cw_out w) (column_bytes (cw_type w) fl)" and nf: "\<not> cw_finished w" and lt: "length (cw_buffer w) < kChunkRows"
    using a by (auto simp: column_at_def)
  have "chunk_ok (cw_type w) (cw_buffer w)" using column_chunk_ok(1) [OF ok, of "cw_buffer w"] fl(1) lt by auto
  from FlushChunk_ok [OF fl(3,2) _ this] n fl(1) lt obtain bp1 w1 where
    f: "FlushChunk bp w = (Inr (), bp1, w1)" "writer_at bp0 bp1 (cw_out w1) (column_bytes (cw_type w) vs)" by auto
  show ?thesis using bs.fin_law [OF f(2)] f(1) nf by (auto simp: FinishColumn_def)
qed

section \<open>Reading a column\<close>

lemma encoding_byte_inverse: "e \<in> set (candidates t) \<Longrightarrow> encoding_of_byte (encoding_byte e) = e"
  by (cases t; cases e) (auto simp: encoding_of_byte_def)

text \<open>\<open>reads_to x bp t m d\<close>: the step \<open>x\<close> of a reader succeeds, with header \<open>m\<close> and \<open>d\<close> left to read.\<close>

definition reads_to :: "'a reader_result \<Rightarrow> pool \<Rightarrow> ColumnType \<Rightarrow> ChunkMeta \<Rightarrow> byte list \<Rightarrow> bool" where
  "reads_to x bp t m d \<longleftrightarrow> (\<exists>a bp' r'. x = (Inr a, bp', r') \<and> same_pages bp bp' \<and> reader_at bp' (cr_in r') d \<and> cr_meta r' = m \<and> cr_type r' = t)"

lemma reads_field:
  assumes "reader_at bp (cr_in r) (PutPod (x :: 'a::len word) @ d)" and "8 dvd LENGTH('a)"
  shows "reads_to (ReadField upd bp r) bp (cr_type r) (upd x (cr_meta r)) d"
  using bs.rd_append [OF assms(1), of "sizeof_word TYPE('a word)"] pod_of_bytes_PutPod [OF assms(2), of x]
  by (auto simp: ReadField_def reads_to_def)

lemma reads_then:
  assumes "reads_to x bp t m d"
    and "\<And>bp' r'. reader_at bp' (cr_in r') d \<Longrightarrow> cr_meta r' = m \<Longrightarrow> cr_type r' = t \<Longrightarrow> reads_to (f bp' r') bp' t m' d'"
  shows "reads_to (and_then x f) bp t m' d'"
proof -
  obtain bp1 r1 where x: "x = (Inr (), bp1, r1)" "same_pages bp bp1" "reader_at bp1 (cr_in r1) d" "cr_meta r1 = m" "cr_type r1 = t"
    using assms(1) by (auto simp: reads_to_def)
  from assms(2) [OF x(3-5)] show ?thesis using x(1,2) by (auto simp: reads_to_def and_then_def dest: same_pages_trans)
qed

lemma reads_field_then:
  assumes "reader_at bp (cr_in r) (PutPod (x :: 'a::len word) @ d)" and "8 dvd LENGTH('a)"
    and "\<And>bp' r'. reader_at bp' (cr_in r') d \<Longrightarrow> cr_meta r' = upd x (cr_meta r) \<Longrightarrow> cr_type r' = cr_type r \<Longrightarrow>
      reads_to (f bp' r') bp' (cr_type r') m' d'"
  shows "reads_to (and_then (ReadField upd bp r) f) bp (cr_type r) m' d'"
  by (rule reads_then [OF reads_field [OF assms(1,2)]]) (use assms(3) in auto)

lemma meta_rebuilt:
  "m0\<lparr>cm_num_rows := cm_num_rows m, cm_encoding := cm_encoding m, cm_has_zone_map := cm_has_zone_map m,
     cm_reserved := cm_reserved m, cm_null_count := cm_null_count m, cm_byte_length := cm_byte_length m,
     cm_min_value := cm_min_value m, cm_max_value := cm_max_value m\<rparr> = (m :: ChunkMeta)"
  by simp

lemma ReadMeta_ok:
  assumes "reader_at bp (cr_in r) (concat (meta_fields m) @ d)" and "encoding_of_byte (encoding_byte (cm_encoding m)) = cm_encoding m"
  shows "reads_to (ReadMeta bp r) bp (cr_type r) m d"
proof -
  have "reader_at bp (cr_in r) (PutPod (cm_num_rows m) @ PutPod (encoding_byte (cm_encoding m)) @ PutPod (cm_has_zone_map m) @
      PutPod (cm_reserved m) @ PutPod (cm_null_count m) @ PutPod (cm_byte_length m) @ PutPod (cm_min_value m) @ PutPod (cm_max_value m) @ d)"
    using assms(1) by (simp add: meta_fields_def)
  then show ?thesis
    unfolding ReadMeta_def
    apply (rule reads_field_then, simp)
    apply (erule reads_field_then, simp)
    apply (erule reads_field_then, simp)
    apply (erule reads_field_then, simp)
    apply (erule reads_field_then, simp)
    apply (erule reads_field_then, simp)
    apply (erule reads_field_then, simp)
    subgoal for bp1 r1 bp2 r2 bp3 r3 bp4 r4 bp5 r5 bp6 r6 bp7 r7
      using reads_field [of bp7 r7 "cm_max_value m" d "\<lambda>x m. m\<lparr>cm_max_value := x\<rparr>"] assms(2) by (simp add: meta_rebuilt)
    done
qed

text \<open>
  \<open>chunks_at bp r cs\<close>: the reader stands before the chunks \<open>cs\<close>;
  \<open>inside bp r xs cs\<close>: it has read the header of chunk \<open>xs\<close> and \<open>cs\<close> follow.
\<close>

definition chunks_at :: "pool \<Rightarrow> column_reader \<Rightarrow> Value list list \<Rightarrow> bool" where
  "chunks_at bp r cs \<longleftrightarrow> payload_consumed r \<and> reader_at bp (cr_in r) (concat (map (chunk_bytes (cr_type r)) cs)) \<and>
     (\<forall>c\<in>set cs. column_ok (cr_type r) c \<and> c \<noteq> [] \<and> length c \<le> kChunkRows)"

definition inside :: "pool \<Rightarrow> column_reader \<Rightarrow> EncodedChunk \<Rightarrow> Value list \<Rightarrow> Value list list \<Rightarrow> bool" where
  "inside bp r c xs cs \<longleftrightarrow> EncodeChunk (cr_type r) xs = Inr c \<and> column_ok (cr_type r) xs \<and> length xs \<le> kChunkRows \<and>
     cr_meta r = meta_of c \<and> \<not> payload_consumed r \<and>
     reader_at bp (cr_in r) (payload c @ concat (map (chunk_bytes (cr_type r)) cs)) \<and>
     (\<forall>c\<in>set cs. column_ok (cr_type r) c \<and> c \<noteq> [] \<and> length c \<le> kChunkRows)"

lemma ColumnReader_ok:
  assumes "stream_ready bp" and "column_ok t vs" and "stream_at (view bp) (pages bp) pid (column_bytes t vs)"
  shows "\<exists>bp' r. ColumnReader bp pid t = (Inr (), bp', r) \<and> cr_type r = t \<and> same_pages bp bp' \<and> chunks_at bp' r (split_chunks vs)"
proof -
  obtain bp' s where o: "PagedInputStream bp pid = (Inr (), bp', s)" "same_pages bp bp'" "reader_at bp' s (column_bytes t vs)"
    using bs.open_in_law [OF assms(1,3)] by blast
  have "column_ok t c \<and> c \<noteq> [] \<and> length c \<le> kChunkRows" if "c \<in> set (split_chunks vs)" for c
    using split_chunks_members [OF that] strs_concat_member [OF that] column_chunk_ok(2) [OF assms(2), of c]
    by (simp add: concat_split_chunks)
  then show ?thesis using o by (simp add: ColumnReader_def chunks_at_def column_bytes_def)
qed

lemma NextChunk_end: "chunks_at bp r [] \<Longrightarrow> NextChunk bp r = (Inr False, bp, r)"
  using bs.ended_law [of bp "cr_in r" "[]"] by (simp add: chunks_at_def NextChunk_def and_then_def)

lemma NextChunk_ok:
  assumes a: "chunks_at bp r (xs # cs)"
  shows "\<exists>c bp' r'. NextChunk bp r = (Inr True, bp', r') \<and> cr_type r' = cr_type r \<and> same_pages bp bp' \<and> inside bp' r' c xs cs"
proof -
  let ?t = "cr_type r"
  have pc: "payload_consumed r" and xs: "column_ok ?t xs" "length xs \<le> kChunkRows" using a by (simp_all add: chunks_at_def)
  have ok: "chunk_ok ?t xs" using column_chunk_ok(1) [OF xs(1) _ _ xs(2)] by simp
  obtain c where c: "EncodeChunk ?t xs = Inr c" "encoding c \<in> set (candidates ?t)" using EncodeChunk_ok [OF ok] by metis
  let ?rest = "payload c @ concat (map (chunk_bytes ?t) cs)"
  have rd: "reader_at bp (cr_in r) (concat (meta_fields (meta_of c)) @ ?rest)"
    using a c(1) by (simp add: chunks_at_def chunk_bytes_def)
  have "length (concat (meta_fields (meta_of c)) @ ?rest) \<noteq> 0" by (simp add: meta_fields_def)
  then have ne: "\<not> at_end (cr_in r)" using bs.ended_law [OF rd] by auto
  have "encoding_of_byte (encoding_byte (cm_encoding (meta_of c))) = cm_encoding (meta_of c)"
    using encoding_byte_inverse [OF c(2)] by (simp add: meta_of_def new_meta_def)
  from ReadMeta_ok [OF rd this] obtain bp' r' where
    m: "ReadMeta bp r = (Inr (), bp', r')" "same_pages bp bp'" "reader_at bp' (cr_in r') ?rest" "cr_meta r' = meta_of c" "cr_type r' = ?t"
    by (auto simp: reads_to_def)
  have "inside bp' (r'\<lparr>payload_consumed := False\<rparr>) c xs cs"
    using m c(1) xs a by (simp add: inside_def chunks_at_def)
  then show ?thesis using m pc ne by (auto simp: NextChunk_def and_then_def)
qed

lemma SkipPayload_ok:
  assumes a: "inside bp r c xs cs"
  shows "\<exists>bp' r'. SkipPayload bp r = (Inr (), bp', r') \<and> cr_type r' = cr_type r \<and> same_pages bp bp' \<and> chunks_at bp' r' cs"
proof -
  have len: "unat (cm_byte_length (cr_meta r)) = length (payload c)" using a chosen_size [of "cr_type r" xs c] by (simp add: inside_def)
  have "reader_at bp (cr_in r) (payload c @ concat (map (chunk_bytes (cr_type r)) cs))" using a by (simp add: inside_def)
  from bs.skp_append [OF this len] obtain bp' s where "Skip bp (cr_in r) (unat (cm_byte_length (cr_meta r))) = (Inr [], bp', s)"
    "same_pages bp bp'" "reader_at bp' s (concat (map (chunk_bytes (cr_type r)) cs))" by blast
  then show ?thesis using a by (simp add: SkipPayload_def inside_def chunks_at_def)
qed

text \<open>A chunk that is neither decoded nor skipped is skipped by the next \<open>NextChunk\<close>.\<close>

lemma NextChunk_skips:
  assumes "inside bp r c xs cs"
  shows "\<exists>bp1 r1. SkipPayload bp r = (Inr (), bp1, r1) \<and> chunks_at bp1 r1 cs \<and> NextChunk bp r = NextChunk bp1 r1"
proof -
  obtain bp1 r1 where s: "SkipPayload bp r = (Inr (), bp1, r1)" "chunks_at bp1 r1 cs" using SkipPayload_ok [OF assms] by blast
  moreover have "\<not> payload_consumed r" "payload_consumed r1" using assms s(2) by (simp_all add: inside_def chunks_at_def)
  ultimately show ?thesis by (simp add: NextChunk_def and_then_def)
qed

lemma Decode_ok:
  assumes a: "inside bp r c xs cs" and out: "vec_rep out ys" "vtype out = cr_type r" "length (strs (ys @ xs)) < 2 ^ 32"
  shows "\<exists>out' bp' r'. Decode bp r out = (Inr out', bp', r') \<and> vec_rep out' (ys @ xs) \<and> vtype out' = vtype out \<and> cr_type r' = cr_type r \<and>
    same_pages bp bp' \<and> chunks_at bp' r' cs"
proof -
  let ?t = "cr_type r"
  have c: "EncodeChunk ?t xs = Inr c" "column_ok ?t xs" "length xs \<le> kChunkRows" and m: "cr_meta r = meta_of c" using a by (simp_all add: inside_def)
  have len: "unat (cm_byte_length (cr_meta r)) = length (payload c)" using chosen_size [OF c(2,3,1)] m by simp
  have "reader_at bp (cr_in r) (payload c @ concat (map (chunk_bytes ?t) cs))" using a by (simp add: inside_def)
  from bs.rd_append [OF this len] obtain bp' s where s: "Read bp (cr_in r) (unat (cm_byte_length (cr_meta r))) = (Inr (payload c), bp', s)"
    "same_pages bp bp'" "reader_at bp' s (concat (map (chunk_bytes ?t) cs))" by blast
  have ok: "chunk_ok ?t xs" using column_chunk_ok(1) [OF c(2) _ _ c(3)] by simp
  have o: "out = vec_of ?t ys" using out(1,2) by (simp add: vec_rep_def)
  have "DecodeChunk ?t (cm_encoding (cr_meta r)) (cm_num_rows (cr_meta r)) (payload c) out = Inr (vec_of ?t (ys @ xs))"
    using chosen_trip [OF ok c(1), of ys] o m by (simp add: meta_of_def new_meta_def)
  then have "Decode bp r out = (Inr (vec_of ?t (ys @ xs)), bp', r\<lparr>cr_in := s, payload_consumed := True\<rparr>)"
    using s(1) by (simp add: Decode_def)
  moreover have "vec_rep (vec_of ?t (ys @ xs)) (ys @ xs)" using out ok by (auto simp: vec_rep_def chunk_ok_def)
  moreover have "chunks_at bp' (r\<lparr>cr_in := s, payload_consumed := True\<rparr>) cs" using a s(3) by (simp add: inside_def chunks_at_def)
  ultimately show ?thesis using s(2) out(2) by auto
qed

section \<open>Properties\<close>

text \<open>
  The two clients: writing all values of a column, and the loop of \<open>column_reader.h\<close>, which
  decodes the chunks that \<open>keep\<close> accepts by their header and skips the others.
\<close>

fun append_values :: "pool \<Rightarrow> column_writer \<Rightarrow> Value list \<Rightarrow> unit writer_result" where
  "append_values bp w [] = (Inr (), bp, w)"
| "append_values bp w (v # vs) =
     (case Append bp w v of (Inl e, bp1, w1) \<Rightarrow> (Inl e, bp1, w1) | (Inr _, bp1, w1) \<Rightarrow> append_values bp1 w1 vs)"

definition write_column :: "pool \<Rightarrow> ColumnType \<Rightarrow> Value list \<Rightarrow> PageId writer_result" where
  "write_column bp t vs =
     (case ColumnWriter bp t of
        (Inl e, bp1, w1) \<Rightarrow> (Inl e, bp1, w1)
      | (Inr _, bp1, w1) \<Rightarrow>
          (case append_values bp1 w1 vs of
             (Inl e, bp2, w2) \<Rightarrow> (Inl e, bp2, w2)
           | (Inr _, bp2, w2) \<Rightarrow> FinishColumn bp2 w2))"

fun read_chunks :: "nat \<Rightarrow> (ChunkMeta \<Rightarrow> bool) \<Rightarrow> pool \<Rightarrow> column_reader \<Rightarrow> vec \<Rightarrow> vec reader_result" where
  "read_chunks 0 keep bp r out = (Inl (Undefined ''out of fuel''), bp, r)"
| "read_chunks (Suc n) keep bp r out =
     (case NextChunk bp r of
        (Inl e, bp1, r1) \<Rightarrow> (Inl e, bp1, r1)
      | (Inr False, bp1, r1) \<Rightarrow> (Inr out, bp1, r1)
      | (Inr True, bp1, r1) \<Rightarrow>
          if keep (cr_meta r1) then
            (case Decode bp1 r1 out of
               (Inl e, bp2, r2) \<Rightarrow> (Inl e, bp2, r2)
             | (Inr out', bp2, r2) \<Rightarrow> read_chunks n keep bp2 r2 out')
          else
            (case SkipPayload bp1 r1 of
               (Inl e, bp2, r2) \<Rightarrow> (Inl e, bp2, r2)
             | (Inr _, bp2, r2) \<Rightarrow> read_chunks n keep bp2 r2 out))"

lemma append_values_ok:
  assumes "column_at bp0 bp w us" and "column_ok (cw_type w) (us @ vs)"
    and "page_budget bp0 (length (column_bytes (cw_type w) (us @ vs)))"
  shows "\<exists>bp' w'. append_values bp w vs = (Inr (), bp', w') \<and> cw_type w' = cw_type w \<and> column_at bp0 bp' w' (us @ vs)"
  using assms
proof (induction vs arbitrary: bp w us)
  case (Cons v vs)
  from Append_ok [OF Cons.prems] obtain bp1 w1 where
    a: "Append bp w v = (Inr (), bp1, w1)" "cw_type w1 = cw_type w" "column_at bp0 bp1 w1 (us @ [v])" by blast
  then show ?case using Cons.IH [OF a(3)] Cons.prems(2,3) by simp
qed auto

lemma write_column_ok:
  assumes "stream_ready bp" and "column_ok t vs" and "page_budget bp (length (column_bytes t vs))"
  shows "\<exists>pid bp' w. write_column bp t vs = (Inr pid, bp', w) \<and> stream_added bp bp' pid (column_bytes t vs)"
proof -
  obtain bp1 w1 where o: "ColumnWriter bp t = (Inr (), bp1, w1)" "cw_type w1 = t" "column_at bp bp1 w1 []"
    using ColumnWriter_ok [OF assms(1,3)] by blast
  obtain bp2 w2 where a: "append_values bp1 w1 vs = (Inr (), bp2, w2)" "cw_type w2 = t" "column_at bp bp2 w2 vs"
    using append_values_ok [OF o(3), of vs] o(2) assms(2,3) by auto
  show ?thesis using FinishColumn_ok [OF a(3)] a o(1) assms(2,3) by (auto simp: write_column_def)
qed

definition chunk_meta :: "ColumnType \<Rightarrow> Value list \<Rightarrow> ChunkMeta" where
  "chunk_meta t xs = (case EncodeChunk t xs of Inl e \<Rightarrow> new_meta | Inr c \<Rightarrow> meta_of c)"

lemma strs_filter_concat: "length (strs (concat (filter P cs))) \<le> length (strs (concat cs))"
  by (induction cs) auto

lemma read_chunks_ok:
  assumes "chunks_at bp r cs" and "length cs < n" and "vec_rep out ys" and "vtype out = cr_type r"
    and "length (strs (ys @ concat cs)) < 2 ^ 32"
  shows "\<exists>out' bp' r'. read_chunks n keep bp r out = (Inr out', bp', r') \<and> same_pages bp bp' \<and>
    vec_rep out' (ys @ concat (filter (\<lambda>c. keep (chunk_meta (cr_type r) c)) cs))"
  using assms
proof (induction cs arbitrary: bp r n out ys)
  case Nil
  then obtain m where "n = Suc m" by (cases n) auto
  then show ?case using NextChunk_end [OF Nil.prems(1)] Nil.prems(1,3) bs.reading_ready by (auto simp: chunks_at_def)
next
  case (Cons xs cs)
  then obtain m where m: "n = Suc m" "length cs < m" by (cases n) auto
  let ?t = "cr_type r"
  from NextChunk_ok [OF Cons.prems(1)] obtain c bp1 r1 where
    n: "NextChunk bp r = (Inr True, bp1, r1)" "cr_type r1 = ?t" "same_pages bp bp1" "inside bp1 r1 c xs cs" by blast
  have meta: "cr_meta r1 = chunk_meta ?t xs" using n(2,4) by (simp add: inside_def chunk_meta_def)
  show ?case
  proof (cases "keep (chunk_meta ?t xs)")
    case True
    have "length (strs (ys @ xs)) < 2 ^ 32" "vtype out = cr_type r1" using Cons.prems(4,5) n(2) by simp_all
    from Decode_ok [OF n(4) Cons.prems(3) this(2,1)] obtain out1 bp2 r2 where
      d: "Decode bp1 r1 out = (Inr out1, bp2, r2)" "vec_rep out1 (ys @ xs)" "vtype out1 = vtype out" "cr_type r2 = cr_type r1"
        "same_pages bp1 bp2" "chunks_at bp2 r2 cs" by blast
    have "vtype out1 = cr_type r2" "length (strs ((ys @ xs) @ concat cs)) < 2 ^ 32" using d(3,4) n(2) Cons.prems(4,5) by simp_all
    from Cons.IH [OF d(6) m(2) d(2) this] obtain out' bp' r' where
      "read_chunks m keep bp2 r2 out1 = (Inr out', bp', r')" "same_pages bp2 bp'"
      "vec_rep out' ((ys @ xs) @ concat (filter (\<lambda>c. keep (chunk_meta (cr_type r2) c)) cs))" by blast
    then show ?thesis using m(1) n(1,2,3) d(1,4,5) True meta by (auto dest: same_pages_trans)
  next
    case False
    from SkipPayload_ok [OF n(4)] obtain bp2 r2 where
      s: "SkipPayload bp1 r1 = (Inr (), bp2, r2)" "cr_type r2 = cr_type r1" "same_pages bp1 bp2" "chunks_at bp2 r2 cs" by blast
    have "vtype out = cr_type r2" "length (strs (ys @ concat cs)) < 2 ^ 32" using s(2) n(2) Cons.prems(4,5) by simp_all
    from Cons.IH [OF s(4) m(2) Cons.prems(3) this] obtain out' bp' r' where
      "read_chunks m keep bp2 r2 out = (Inr out', bp', r')" "same_pages bp2 bp'"
      "vec_rep out' (ys @ concat (filter (\<lambda>c. keep (chunk_meta (cr_type r2) c)) cs))" by blast
    then show ?thesis using m(1) n(1,2,3) s(1,2,3) False meta by (auto dest: same_pages_trans)
  qed
qed

lemma read_column_ok:
  assumes "stream_ready bp" and "column_ok t vs" and "stream_at (view bp) (pages bp) pid (column_bytes t vs)"
  shows "\<exists>bp1 r out bp2 r2. ColumnReader bp pid t = (Inr (), bp1, r) \<and>
    read_chunks (Suc (length (split_chunks vs))) keep bp1 r (Vector t) = (Inr out, bp2, r2) \<and> same_pages bp bp2 \<and>
    vec_rep out (concat (filter (\<lambda>c. keep (chunk_meta t c)) (split_chunks vs)))"
proof -
  obtain bp1 r where o: "ColumnReader bp pid t = (Inr (), bp1, r)" "cr_type r = t" "same_pages bp bp1" "chunks_at bp1 r (split_chunks vs)"
    using ColumnReader_ok [OF assms] by blast
  have "length (strs ([] @ concat (split_chunks vs))) < 2 ^ 32" "vtype (Vector t) = cr_type r"
    using assms(2) o(2) by (simp_all add: concat_split_chunks column_ok_def Vector_of)
  from read_chunks_ok [OF o(4) lessI vec_rep_Vector this(2,1), of keep] o show ?thesis by (auto dest: same_pages_trans)
qed

text \<open>C10. A column of any length and type is written and read back through the buffer pool: the
  writer never fails while two frames and enough page ids are left, the reader returns
  exactly the values in order and then stops, and every page and pin that existed before
  is as it was.\<close>

theorem column_round_trip:
  assumes "stream_ready bp" and "column_ok t vs" and "page_budget bp (length (column_bytes t vs))"
  shows "\<exists>pid bp1 w bp2 r out bp3 r3. write_column bp t vs = (Inr pid, bp1, w) \<and> ColumnReader bp1 pid t = (Inr (), bp2, r) \<and>
    read_chunks (Suc (length (split_chunks vs))) (\<lambda>_. True) bp2 r (Vector t) = (Inr out, bp3, r3) \<and> vec_rep out vs \<and>
    pins bp3 = pins bp \<and> (\<forall>q. unat q < pages bp \<longrightarrow> view bp3 q = view bp q)"
proof -
  obtain pid bp1 w where w: "write_column bp t vs = (Inr pid, bp1, w)" "stream_added bp bp1 pid (column_bytes t vs)"
    using write_column_ok [OF assms] by blast
  from read_column_ok [OF bs.added_ready [OF w(2) assms(1)] assms(2) bs.added_stored [OF w(2)], of "\<lambda>_. True"]
  obtain bp2 r out bp3 r3 where r: "ColumnReader bp1 pid t = (Inr (), bp2, r)"
    "read_chunks (Suc (length (split_chunks vs))) (\<lambda>_. True) bp2 r (Vector t) = (Inr out, bp3, r3)" "same_pages bp1 bp3" "vec_rep out vs"
    by (auto simp: concat_split_chunks)
  have "pins bp3 = pins bp \<and> (\<forall>q. unat q < pages bp \<longrightarrow> view bp3 q = view bp q)"
    using w(2) r(3) by (auto simp: same_pages_def stream_added_def untouched_def)
  then show ?thesis using w(1) r(1,2,4) by blast
qed

text \<open>A chunk of one small integer column, for the witnesses.\<close>

lemma sample_column_length: "length (column_bytes kInt [Int32 4, Null, Int32 9]) < 4000"
proof -
  let ?vs = "[Int32 4, Null, Int32 9]"
  have ck: "chunk_ok kInt ?vs" by (simp add: chunk_ok_def)
  then obtain c where c: "EncodeChunk kInt ?vs = Inr c" using EncodeChunk_ok by metis
  have s: "split_chunks ?vs = [?vs]" by (simp add: split_chunks_simps kChunkRows_def)
  obtain d where d: "EncodePlain kInt ?vs = Inr d" "length (payload d) = 13"
    using EncodePlain_fixed [of kInt ?vs] by (simp add: new_chunk_def ValidityBytes_def)
  have "length (payload c) \<le> length (payload d)" by (rule chosen_le_plain [OF ck c d(1)])
  then show ?thesis using c s d(2) by (simp add: column_bytes_def chunk_bytes_def meta_fields_def)
qed

lemma sample_column:
  "column_ok kInt [Int32 4, Null, Int32 9]" "page_budget sample_pool (length (column_bytes kInt [Int32 4, Null, Int32 9]))"
  using sample_ready(2) [OF sample_column_length] by (simp_all add: column_ok_def)

theorem column_round_trip_witness:
  "\<exists>pid bp1 w bp2 r out bp3 r3. write_column sample_pool kInt [Int32 4, Null, Int32 9] = (Inr pid, bp1, w) \<and>
    ColumnReader bp1 pid kInt = (Inr (), bp2, r) \<and>
    read_chunks (Suc (length (split_chunks [Int32 4, Null, Int32 9]))) (\<lambda>_. True) bp2 r (Vector kInt) = (Inr out, bp3, r3) \<and>
    vec_rep out [Int32 4, Null, Int32 9] \<and> pins bp3 = pins sample_pool \<and>
    (\<forall>q. unat q < pages sample_pool \<longrightarrow> view bp3 q = view sample_pool q)"
  by (rule column_round_trip [OF sample_ready(1) sample_column])

text \<open>The test by which a scan with a pushed-down range skips a chunk (\<open>execution/column_scan.cpp\<close>).\<close>

definition zone_skip :: "64 word \<Rightarrow> 64 word \<Rightarrow> ChunkMeta \<Rightarrow> bool" where
  "zone_skip lo hi m \<longleftrightarrow> cm_has_zone_map m \<noteq> 0 \<and> (sint (cm_max_value m) < sint lo \<or> sint hi < sint (cm_min_value m))"

definition in_range :: "64 word \<Rightarrow> 64 word \<Rightarrow> Value \<Rightarrow> bool" where
  "in_range lo hi v = (case int_of_value v of None \<Rightarrow> False | Some x \<Rightarrow> sint lo \<le> x \<and> x \<le> sint hi)"

lemma skipped_chunk:
  assumes ok: "chunk_ok t xs" and skip: "zone_skip lo hi (chunk_meta t xs)"
  shows "filter (in_range lo hi) xs = []"
proof (rule EncodeChunk_ok [OF ok])
  fix c ch
  assume c: "EncodeChunk t xs = Inr c" and z: "has_zone_map c \<longleftrightarrow> is_int t \<and> (\<exists>v\<in>set xs. v \<noteq> Null)"
    and r: "has_zone_map c \<Longrightarrow> range_of xs (True, min_value c, max_value c)"
  have h: "has_zone_map c" "sint (max_value c) < sint lo \<or> sint hi < sint (min_value c)"
    using skip c by (auto simp: zone_skip_def chunk_meta_def meta_of_def new_meta_def split: if_splits)
  have "\<not> in_range lo hi v" if v: "v \<in> set xs" for v
  proof (cases "int_of_value v")
    case (Some x)
    then have "v \<noteq> Null" "sint (raw64 v) = x" using sint_raw64 by auto
    then have "sint (min_value c) \<le> x \<and> x \<le> sint (max_value c)" using r [OF h(1)] v by (auto simp: range_of_def)
    then show ?thesis using Some h(2) by (auto simp: in_range_def)
  qed (simp add: in_range_def)
  then show ?thesis by (simp add: filter_empty_conv)
qed

text \<open>C12. Skipping chunks by their zone maps loses nothing: of the rows whose integer lies in the
  pushed-down range, the scan that skips returns the same, in the same order, as the one
  that decodes every chunk.\<close>

theorem column_pruning:
  assumes "stream_ready bp" and "column_ok t vs" and "stream_at (view bp) (pages bp) pid (column_bytes t vs)"
  shows "\<exists>bp1 r out bp2 r2 us. ColumnReader bp pid t = (Inr (), bp1, r) \<and>
    read_chunks (Suc (length (split_chunks vs))) (\<lambda>m. \<not> zone_skip lo hi m) bp1 r (Vector t) = (Inr out, bp2, r2) \<and>
    vec_rep out us \<and> filter (in_range lo hi) us = filter (in_range lo hi) vs"
proof -
  let ?us = "\<lambda>cs. concat (filter (\<lambda>c. \<not> zone_skip lo hi (chunk_meta t c)) cs)"
  have ok: "chunk_ok t c" if "c \<in> set (split_chunks vs)" for c
    using split_chunks_members [OF that] strs_concat_member [OF that] column_chunk_ok(1) [OF assms(2), of c]
    by (simp add: concat_split_chunks)
  have "filter (in_range lo hi) (?us cs) = filter (in_range lo hi) (concat cs)" if "\<And>c. c \<in> set cs \<Longrightarrow> chunk_ok t c" for cs
    using that by (induction cs) (auto simp: skipped_chunk [of t])
  from this [OF ok] have "filter (in_range lo hi) (?us (split_chunks vs)) = filter (in_range lo hi) vs"
    by (simp add: concat_split_chunks)
  then show ?thesis using read_column_ok [OF assms, of "\<lambda>m. \<not> zone_skip lo hi m"] by blast
qed

theorem column_pruning_witness:
  "\<exists>pid bp bp1 r out bp2 r2 us. ColumnReader bp pid kInt = (Inr (), bp1, r) \<and>
    read_chunks (Suc (length (split_chunks [Int32 4, Null, Int32 9]))) (\<lambda>m. \<not> zone_skip 5 20 m) bp1 r (Vector kInt) = (Inr out, bp2, r2) \<and>
    vec_rep out us \<and> filter (in_range 5 20) us = filter (in_range 5 20) [Int32 4, Null, Int32 9]"
proof -
  obtain pid bp where a: "stream_added sample_pool bp pid (column_bytes kInt [Int32 4, Null, Int32 9])"
    using write_column_ok [OF sample_ready(1) sample_column] by blast
  from column_pruning [OF bs.added_ready [OF a sample_ready(1)] sample_column(1) bs.added_stored [OF a], of 5 20]
  show ?thesis by blast
qed

fun headers :: "nat \<Rightarrow> pool \<Rightarrow> column_reader \<Rightarrow> ChunkMeta list reader_result" where
  "headers 0 bp r = (Inl (Undefined ''out of fuel''), bp, r)"
| "headers (Suc n) bp r =
     (case NextChunk bp r of
        (Inl e, bp1, r1) \<Rightarrow> (Inl e, bp1, r1)
      | (Inr False, bp1, r1) \<Rightarrow> (Inr [], bp1, r1)
      | (Inr True, bp1, r1) \<Rightarrow>
          (case headers n bp1 r1 of (Inl e, x) \<Rightarrow> (Inl e, x) | (Inr ms, x) \<Rightarrow> (Inr (cr_meta r1 # ms), x)))"

lemma headers_ok:
  "chunks_at bp r cs \<Longrightarrow> length cs < n \<Longrightarrow> \<exists>x. headers n bp r = (Inr (map (chunk_meta (cr_type r)) cs), x)"
proof (induction cs arbitrary: bp r n)
  case Nil
  then obtain m where "n = Suc m" by (cases n) auto
  then show ?case using NextChunk_end [OF Nil.prems(1)] by simp
next
  case (Cons xs cs)
  then obtain m where m: "n = Suc m" "length cs < m" by (cases n) auto
  obtain c bp1 r1 where n: "NextChunk bp r = (Inr True, bp1, r1)" "cr_type r1 = cr_type r" "inside bp1 r1 c xs cs"
    using NextChunk_ok [OF Cons.prems(1)] by blast
  obtain k where k: "m = Suc k" using m(2) by (cases m) auto
  obtain bp2 r2 where s: "SkipPayload bp1 r1 = (Inr (), bp2, r2)" "chunks_at bp2 r2 cs" "NextChunk bp1 r1 = NextChunk bp2 r2"
    using NextChunk_skips [OF n(3)] by blast
  have "cr_type r2 = cr_type r" using SkipPayload_ok [OF n(3)] s(1) n(2) by auto
  moreover have "headers m bp1 r1 = headers m bp2 r2" using k s(3) by simp
  ultimately obtain x where "headers m bp1 r1 = (Inr (map (chunk_meta (cr_type r)) cs), x)" using Cons.IH [OF s(2) m(2)] by auto
  moreover have "cr_meta r1 = chunk_meta (cr_type r) xs" using n by (simp add: inside_def chunk_meta_def)
  ultimately show ?case using n(1) m(1) by (cases x) simp
qed

text \<open>A chunk that is neither decoded nor skipped is skipped on the way to the next one, so a
  reader that only looks at headers sees all of them, in order and exact.\<close>

theorem column_headers:
  assumes "stream_ready bp" and "column_ok t vs" and "stream_at (view bp) (pages bp) pid (column_bytes t vs)"
  shows "\<exists>bp1 r x. ColumnReader bp pid t = (Inr (), bp1, r) \<and>
    headers (Suc (length (split_chunks vs))) bp1 r = (Inr (map (chunk_meta t) (split_chunks vs)), x)"
  using ColumnReader_ok [OF assms] headers_ok [OF _ lessI] by blast

theorem column_headers_witness:
  "\<exists>pid bp bp1 r x. ColumnReader bp pid kInt = (Inr (), bp1, r) \<and>
    headers (Suc (length (split_chunks [Int32 4, Null, Int32 9]))) bp1 r =
      (Inr (map (chunk_meta kInt) (split_chunks [Int32 4, Null, Int32 9])), x)"
proof -
  obtain pid bp where a: "stream_added sample_pool bp pid (column_bytes kInt [Int32 4, Null, Int32 9])"
    using write_column_ok [OF sample_ready(1) sample_column] by blast
  from column_headers [OF bs.added_ready [OF a sample_ready(1)] sample_column(1) bs.added_stored [OF a]]
  show ?thesis by blast
qed

end
