(* ===== verification/Column_Scan.thy ===== *)
theory Column_Scan
  imports Catalogs Operators Column
begin

text \<open>
  The table scan (\<open>execution/column_scan.cpp\<close>): one reader per requested column, all advanced
  chunk by chunk, whole chunks skipped by the zone map of one column, and the row groups of the
  table decoded by worker threads that share the buffer pool. The order in which the workers
  make progress is an argument of the model.
\<close>

section \<open>The plan node\<close>

record column_scan =
  scan_table :: TableMeta
  col_idx :: "nat list"
  scan_names :: "string list"
  scan_types :: "ColumnType list"
  zone_filter :: "(nat \<times> 64 word \<times> 64 word) option"

definition ColumnScan :: "TableMeta \<Rightarrow> string \<Rightarrow> nat list \<Rightarrow> column_scan result" where
  "ColumnScan tbl alias cols =
     bindR (mapR (GetColumn (tm_schema tbl)) cols) (\<lambda>cs.
       Inr \<lparr>scan_table = tbl, col_idx = cols,
         scan_names = map (\<lambda>c. if alias = [] then col_name c else alias @ ''.'' @ col_name c) cs,
         scan_types = map col_type cs, zone_filter = None\<rparr>)"

definition SetZoneFilter :: "nat \<Rightarrow> 64 word \<Rightarrow> 64 word \<Rightarrow> column_scan \<Rightarrow> column_scan" where
  "SetZoneFilter pos lo hi c = c\<lparr>zone_filter := Some (pos, lo, hi)\<rparr>"

section \<open>Decoding a row group\<close>

type_synonym 'a scan_result = "'a result \<times> pool"

definition then_scan :: "'a scan_result \<Rightarrow> (pool \<Rightarrow> 'a \<Rightarrow> 'b scan_result) \<Rightarrow> 'b scan_result" where
  "then_scan x f = (case x of (Inl e, bp) \<Rightarrow> (Inl e, bp) | (Inr a, bp) \<Rightarrow> f bp a)"

lemma then_scan_simps [simp]: "then_scan (Inr a, bp) f = f bp a" "then_scan (Inl e, bp) f = (Inl e, bp)"
  by (simp_all add: then_scan_def)

fun open_readers :: "pool \<Rightarrow> schema \<Rightarrow> RowGroup \<Rightarrow> nat list \<Rightarrow> column_reader list scan_result" where
  "open_readers bp sch g [] = (Inr [], bp)"
| "open_readers bp sch g (table_col # rest) =
     (if table_col < length (column_roots g) then
        case GetColumn sch table_col of
          Inl e \<Rightarrow> (Inl e, bp)
        | Inr c \<Rightarrow>
            (case ColumnReader bp (column_roots g ! table_col) (col_type c) of
               (Inl e, bp1, r) \<Rightarrow> (Inl e, bp1)
             | (Inr _, bp1, r) \<Rightarrow> then_scan (open_readers bp1 sch g rest) (\<lambda>bp2 rs. (Inr (r # rs), bp2)))
      else (Inl (Undefined ''g.column_roots[table_col]''), bp))"

text \<open>The same call on every reader, from position \<open>k\<close> on.\<close>

fun each_reader :: "(nat \<Rightarrow> pool \<Rightarrow> column_reader \<Rightarrow> 'a reader_result) \<Rightarrow> nat \<Rightarrow> pool \<Rightarrow> column_reader list \<Rightarrow>
    ('a list \<times> column_reader list) scan_result" where
  "each_reader f k bp [] = (Inr ([], []), bp)"
| "each_reader f k bp (r # rs) =
     (case f k bp r of
        (Inl e, bp1, r1) \<Rightarrow> (Inl e, bp1)
      | (Inr a, bp1, r1) \<Rightarrow> then_scan (each_reader f (Suc k) bp1 rs) (\<lambda>bp2 (as, rs1). (Inr (a # as, r1 # rs1), bp2)))"

definition zone_hit :: "column_scan \<Rightarrow> column_reader list \<Rightarrow> bool result" where
  "zone_hit c readers =
     (case zone_filter c of
        None \<Rightarrow> Inr False
      | Some (zone_pos, lo, hi) \<Rightarrow>
          if zone_pos < length readers then Inr (zone_skip lo hi (cr_meta (readers ! zone_pos)))
          else Inl (Undefined ''readers[zone_pos_]''))"

text \<open>One round of the loop of \<open>decode_rg\<close>: whether it goes on, the readers, and the chunks it appends.\<close>

definition scan_step :: "column_scan \<Rightarrow> pool \<Rightarrow> column_reader list \<Rightarrow> (bool \<times> column_reader list \<times> chunk list) scan_result" where
  "scan_step c bp readers =
     (case readers of
        [] \<Rightarrow> (Inl (Undefined ''readers[0]''), bp)
      | r # rest \<Rightarrow>
          (case NextChunk bp r of
             (Inl e, bp1, _) \<Rightarrow> (Inl e, bp1)
           | (Inr False, bp1, r1) \<Rightarrow> (Inr (False, r1 # rest, []), bp1)
           | (Inr True, bp1, r1) \<Rightarrow>
               then_scan (each_reader (\<lambda>_. NextChunk) 1 bp1 rest) (\<lambda>bp2 (_, rest1).
                 let rs = r1 # rest1; rows = unat (cm_num_rows (cr_meta r1)) in
                 case zone_hit c rs of
                   Inl e \<Rightarrow> (Inl e, bp2)
                 | Inr True \<Rightarrow> then_scan (each_reader (\<lambda>_. SkipPayload) 0 bp2 rs) (\<lambda>bp3 (_, rs1). (Inr (True, rs1, []), bp3))
                 | Inr False \<Rightarrow>
                     then_scan (each_reader (\<lambda>k bp r. Decode bp r (columns (Initialize (scan_types c)) ! k)) 0 bp2 rs) (\<lambda>bp3 (vs, rs1).
                       (Inr (True, rs1, [(Initialize (scan_types c))\<lparr>columns := vs, cardinality := rows\<rparr>]), bp3)))))"

section \<open>The workers\<close>

text \<open>
  A row group is waiting for a worker, being decoded, or done. A schedule lists the row groups
  in the order in which the worker that has them makes its next round; workers on different row
  groups interleave in any way. An exception in a worker ends the process.
\<close>

datatype rg_state = Waiting | Decoding "column_reader list" "chunk list" | Decoded "chunk list"

definition scan_turn :: "column_scan \<Rightarrow> pool \<times> rg_state list \<Rightarrow> nat \<Rightarrow> (pool \<times> rg_state list) result" where
  "scan_turn c = (\<lambda>(bp, slots) rg.
     if rg < length slots then
       case slots ! rg of
         Waiting \<Rightarrow>
           (case open_readers bp (tm_schema (scan_table c)) (row_groups (scan_table c) ! rg) (col_idx c) of
              (Inl e, bp1) \<Rightarrow> Inl Terminate
            | (Inr readers, bp1) \<Rightarrow> Inr (bp1, slots[rg := Decoding readers []]))
       | Decoding readers out \<Rightarrow>
           (case scan_step c bp readers of
              (Inl e, bp1) \<Rightarrow> Inl Terminate
            | (Inr (goes_on, readers1, new), bp1) \<Rightarrow>
                Inr (bp1, slots[rg := (if goes_on then Decoding readers1 (out @ new) else Decoded out)]))
       | Decoded out \<Rightarrow> Inr (bp, slots)
     else Inr (bp, slots))"

fun decoded :: "rg_state list \<Rightarrow> chunk list option" where
  "decoded [] = Some []"
| "decoded (Decoded out # slots) = (case decoded slots of None \<Rightarrow> None | Some cs \<Rightarrow> Some (out @ cs))"
| "decoded (_ # slots) = None"

record scan_state =
  scan_pool :: pool
  scan_chunks :: "chunk list"
  chunk_cursor :: nat

text \<open>\<open>Open\<close> returns once every worker has finished; a schedule that ends before gives \<open>None\<close>.\<close>

definition scan_open :: "column_scan \<Rightarrow> nat list \<Rightarrow> scan_state \<Rightarrow> scan_state result option" where
  "scan_open c sched st =
     (let num_rg = length (row_groups (scan_table c)); st1 = st\<lparr>scan_chunks := [], chunk_cursor := 0\<rparr> in
      if num_rg = 0 then Some (Inr st1)
      else bindO (Some (foldR (scan_turn c) (scan_pool st, replicate num_rg Waiting) sched)) (\<lambda>(bp, slots).
        case decoded slots of
          None \<Rightarrow> None
        | Some cs \<Rightarrow> Some (Inr (st1\<lparr>scan_pool := bp, scan_chunks := cs\<rparr>))))"

definition scan_next :: "scan_state next_fun" where
  "scan_next st out =
     (if length (scan_chunks st) \<le> chunk_cursor st then Some (Inr (set_cardinality out 0, st))
      else Some (Inr (scan_chunks st ! chunk_cursor st, st\<lparr>chunk_cursor := chunk_cursor st + 1\<rparr>)))"

definition ScanOperator :: "column_scan \<Rightarrow> nat list \<Rightarrow> scan_state Operator" where
  "ScanOperator c sched = \<lparr>
     output_names = scan_names c,
     output_types = scan_types c,
     Open = scan_open c sched,
     Next = scan_next,
     Close = (\<lambda>st. Inr (st\<lparr>scan_chunks := []\<rparr>))\<rparr>"

section \<open>Readers in step\<close>

lemma chunks_at_keeps: "chunks_at bp r cs \<Longrightarrow> same_pages bp bp' \<Longrightarrow> chunks_at bp' r cs"
  using bs.keeps_reading [of bp bp'] by (auto simp: chunks_at_def)

lemma inside_keeps: "inside bp r c xs cs \<Longrightarrow> same_pages bp bp' \<Longrightarrow> inside bp' r c xs cs"
  using bs.keeps_reading [of bp bp'] by (auto simp: inside_def)

lemma each_reader_ok:
  assumes "\<And>i bp'. i < length rs \<Longrightarrow> same_pages bp bp' \<Longrightarrow>
      \<exists>a bp2 r2. f (k + i) bp' (rs ! i) = (Inr a, bp2, r2) \<and> same_pages bp' bp2 \<and> Q i bp2 a r2"
    and keeps: "\<And>i bp1 bp2 a r. Q i bp1 a r \<Longrightarrow> same_pages bp1 bp2 \<Longrightarrow> Q i bp2 a r" and "store_inv bp"
  shows "\<exists>as rs' bp'. each_reader f k bp rs = (Inr (as, rs'), bp') \<and> same_pages bp bp' \<and> length as = length rs \<and> length rs' = length rs \<and>
    (\<forall>i < length rs. Q i bp' (as ! i) (rs' ! i))"
  using assms
proof (induction rs arbitrary: k bp Q)
  case (Cons r rs)
  from Cons.prems(1) [of 0 bp] Cons.prems(3) obtain a bp1 r1 where
    f: "f k bp r = (Inr a, bp1, r1)" "same_pages bp bp1" "Q 0 bp1 a r1" by (auto simp: same_pages_refl)
  have "\<exists>as rs' bp'. each_reader f (Suc k) bp1 rs = (Inr (as, rs'), bp') \<and> same_pages bp1 bp' \<and> length as = length rs \<and> length rs' = length rs \<and>
    (\<forall>i < length rs. Q (Suc i) bp' (as ! i) (rs' ! i))"
  proof (rule Cons.IH)
    show "\<exists>a bp2 r2. f (Suc k + i) bp' (rs ! i) = (Inr a, bp2, r2) \<and> same_pages bp' bp2 \<and> Q (Suc i) bp2 a r2"
      if "i < length rs" "same_pages bp1 bp'" for i bp'
      using Cons.prems(1) [of "Suc i" bp'] that same_pages_trans [OF f(2)] by simp
    show "store_inv bp1" using f(2) by (simp add: same_pages_def)
  qed (use Cons.prems(2) in blast)
  then obtain as rs' bp' where e: "each_reader f (Suc k) bp1 rs = (Inr (as, rs'), bp')" "same_pages bp1 bp'" "length as = length rs"
    "length rs' = length rs" "\<forall>i < length rs. Q (Suc i) bp' (as ! i) (rs' ! i)" by blast
  have "\<forall>i < length (r # rs). Q i bp' ((a # as) ! i) ((r1 # rs') ! i)"
    using e(5) Cons.prems(2) [OF f(3) e(2)] by (auto simp: nth_Cons split: nat.splits)
  then show ?case using f(1) e same_pages_trans [OF f(2) e(2)] by simp
qed (simp add: same_pages_refl)

text \<open>Column \<open>k\<close> of a list of rows; all readers stand before the chunks of their column of \<open>tab\<close>.\<close>

definition col :: "nat \<Rightarrow> Value list list \<Rightarrow> Value list" where
  "col k tab = map (\<lambda>r. r ! k) tab"

definition readers_at :: "ColumnType list \<Rightarrow> pool \<Rightarrow> Value list list \<Rightarrow> column_reader list \<Rightarrow> bool" where
  "readers_at ts bp tab rs \<longleftrightarrow> store_inv bp \<and> length rs = length ts \<and>
     (\<forall>k < length ts. cr_type (rs ! k) = ts ! k \<and> chunks_at bp (rs ! k) (split_chunks (col k tab)))"

definition readers_inside :: "ColumnType list \<Rightarrow> pool \<Rightarrow> Value list list \<Rightarrow> column_reader list \<Rightarrow> bool" where
  "readers_inside ts bp tab rs \<longleftrightarrow> store_inv bp \<and> length rs = length ts \<and>
     (\<forall>k < length ts. cr_type (rs ! k) = ts ! k \<and>
        (\<exists>c. inside bp (rs ! k) c (take kChunkRows (col k tab)) (split_chunks (drop kChunkRows (col k tab)))))"

lemma readers_keeps:
  assumes "same_pages bp bp'"
  shows "readers_at ts bp tab rs \<Longrightarrow> readers_at ts bp' tab rs" "readers_inside ts bp tab rs \<Longrightarrow> readers_inside ts bp' tab rs"
  using assms chunks_at_keeps inside_keeps unfolding readers_at_def readers_inside_def same_pages_def by blast+

lemma col_simps [simp]: "length (col k tab) = length tab" "col k [] = []" "take n (col k tab) = col k (take n tab)"
  "drop n (col k tab) = col k (drop n tab)" "col k tab = [] \<longleftrightarrow> tab = []"
  by (simp_all add: col_def take_map drop_map)

lemma NextChunk_readers:
  assumes "readers_at ts bp tab (r # rest)" and "tab \<noteq> []"
  shows "\<exists>bp1 r1 as rest1 bp2. NextChunk bp r = (Inr True, bp1, r1) \<and> each_reader (\<lambda>_. NextChunk) 1 bp1 rest = (Inr (as, rest1), bp2) \<and>
    same_pages bp bp2 \<and> readers_inside ts bp2 tab (r1 # rest1)"
proof -
  have at: "cr_type ((r # rest) ! k) = ts ! k" "chunks_at bp ((r # rest) ! k) (split_chunks (col k tab))" if "k < length ts" for k
    using assms(1) that by (simp_all add: readers_at_def)
  have len: "length (r # rest) = length ts" using assms(1) by (simp add: readers_at_def)
  let ?in = "\<lambda>k bp r. cr_type r = ts ! k \<and> (\<exists>c. inside bp r c (take kChunkRows (col k tab)) (split_chunks (drop kChunkRows (col k tab))))"
  have split: "split_chunks (col k tab) = take kChunkRows (col k tab) # split_chunks (drop kChunkRows (col k tab))" for k
    by (rule split_chunks_simps(2)) (use assms(2) in simp)
  have step: "\<exists>bp2 r2. NextChunk bp' ((r # rest) ! k) = (Inr True, bp2, r2) \<and> same_pages bp' bp2 \<and> ?in k bp2 r2"
    if "k < length ts" "same_pages bp bp'" for k bp'
    using NextChunk_ok [OF chunks_at_keeps [OF at(2) [OF that(1), unfolded split] that(2)]] at(1) [OF that(1)] by metis
  have st: "store_inv bp" using assms(1) by (simp add: readers_at_def)
  obtain bp1 r1 where n0: "NextChunk bp r = (Inr True, bp1, r1)" "same_pages bp bp1" "?in 0 bp1 r1"
    using step [of 0 bp] len same_pages_refl [OF st] by (cases ts) auto
  have "\<exists>as rs' bp'. each_reader (\<lambda>_. NextChunk) 1 bp1 rest = (Inr (as, rs'), bp') \<and> same_pages bp1 bp' \<and> length as = length rest \<and>
    length rs' = length rest \<and> (\<forall>i < length rest. ?in (Suc i) bp' (rs' ! i))"
  proof (rule each_reader_ok)
    show "\<exists>a bp2 r2. NextChunk bp' (rest ! i) = (Inr a, bp2, r2) \<and> same_pages bp' bp2 \<and> ?in (Suc i) bp2 r2"
      if "i < length rest" "same_pages bp1 bp'" for i bp'
      using step [of "Suc i" bp'] that len same_pages_trans [OF n0(2)] by auto
    show "?in (Suc i) bp2 r" if "?in (Suc i) bp1 r" "same_pages bp1 bp2" for i bp1 bp2 r
      using that inside_keeps by blast
    show "store_inv bp1" using n0(2) by (simp add: same_pages_def)
  qed
  then obtain as rest1 bp2 where e: "each_reader (\<lambda>_. NextChunk) 1 bp1 rest = (Inr (as, rest1), bp2)" "same_pages bp1 bp2"
    "length rest1 = length rest" "\<forall>i < length rest. ?in (Suc i) bp2 (rest1 ! i)" by blast
  have "?in k bp2 ((r1 # rest1) ! k)" if "k < length ts" for k
  proof (cases k)
    case 0
    then show ?thesis using n0(3) inside_keeps [OF _ e(2)] by (simp only: nth_Cons_0) blast
  next
    case (Suc i)
    then show ?thesis using that e(4) len by simp
  qed
  moreover have "store_inv bp2" using e(2) by (simp add: same_pages_def)
  ultimately have "readers_inside ts bp2 tab (r1 # rest1)" using len e(3) by (simp add: readers_inside_def)
  then show ?thesis using n0(1) e(1) same_pages_trans [OF n0(2) e(2)] by blast
qed

lemma SkipPayload_readers:
  assumes "readers_inside ts bp tab rs"
  shows "\<exists>as rs' bp'. each_reader (\<lambda>_. SkipPayload) 0 bp rs = (Inr (as, rs'), bp') \<and> same_pages bp bp' \<and>
    readers_at ts bp' (drop kChunkRows tab) rs'"
proof -
  let ?Q = "\<lambda>k bp (a :: unit) r. cr_type r = ts ! k \<and> chunks_at bp r (split_chunks (col k (drop kChunkRows tab)))"
  have "\<exists>as rs' bp'. each_reader (\<lambda>_. SkipPayload) 0 bp rs = (Inr (as, rs'), bp') \<and> same_pages bp bp' \<and> length as = length rs \<and> length rs' = length rs \<and>
    (\<forall>i < length rs. ?Q i bp' (as ! i) (rs' ! i))"
  proof (rule each_reader_ok)
    show "\<exists>a bp2 r2. SkipPayload bp' (rs ! i) = (Inr a, bp2, r2) \<and> same_pages bp' bp2 \<and> ?Q i bp2 a r2"
      if i: "i < length rs" and sp: "same_pages bp bp'" for i bp'
    proof -
      obtain c where "cr_type (rs ! i) = ts ! i" "inside bp (rs ! i) c (take kChunkRows (col i tab)) (split_chunks (drop kChunkRows (col i tab)))"
        using assms i by (auto simp: readers_inside_def)
      then show ?thesis using SkipPayload_ok [OF inside_keeps [OF _ sp]] by (metis col_simps(4))
    qed
    show "?Q i bp2 a r" if "?Q i bp1 a r" "same_pages bp1 bp2" for i bp1 bp2 a r using that chunks_at_keeps by blast
    show "store_inv bp" using assms by (simp add: readers_inside_def)
  qed
  then show ?thesis using assms unfolding readers_at_def readers_inside_def same_pages_def by metis
qed

lemma Decode_readers:
  assumes "readers_inside ts bp tab rs"
  shows "\<exists>vs rs' bp'. each_reader (\<lambda>k bp r. Decode bp r (columns (Initialize ts) ! k)) 0 bp rs = (Inr (vs, rs'), bp') \<and> same_pages bp bp' \<and>
    readers_at ts bp' (drop kChunkRows tab) rs' \<and> length vs = length ts \<and>
    (\<forall>k < length ts. vtype (vs ! k) = ts ! k \<and> vec_rep (vs ! k) (col k (take kChunkRows tab)))"
proof -
  let ?Q = "\<lambda>k bp v r. cr_type r = ts ! k \<and> chunks_at bp r (split_chunks (col k (drop kChunkRows tab))) \<and>
    vtype v = ts ! k \<and> vec_rep v (col k (take kChunkRows tab))"
  have len: "length rs = length ts" using assms by (simp add: readers_inside_def)
  have "\<exists>as rs' bp'. each_reader (\<lambda>k bp r. Decode bp r (columns (Initialize ts) ! k)) 0 bp rs = (Inr (as, rs'), bp') \<and> same_pages bp bp' \<and>
    length as = length rs \<and> length rs' = length rs \<and> (\<forall>i < length rs. ?Q i bp' (as ! i) (rs' ! i))"
  proof (rule each_reader_ok)
    show "\<exists>a bp2 r2. Decode bp' (rs ! i) (columns (Initialize ts) ! (0 + i)) = (Inr a, bp2, r2) \<and> same_pages bp' bp2 \<and> ?Q i bp2 a r2"
      if i: "i < length rs" and sp: "same_pages bp bp'" for i bp'
    proof -
      obtain c where c: "cr_type (rs ! i) = ts ! i" "inside bp (rs ! i) c (take kChunkRows (col i tab)) (split_chunks (drop kChunkRows (col i tab)))"
        using assms i by (auto simp: readers_inside_def)
      have "length (strs ([] @ take kChunkRows (col i tab))) < 2 ^ 32" using c(2) by (simp add: inside_def column_ok_def)
      from Decode_ok [OF inside_keeps [OF c(2) sp] vec_rep_Vector _ this] obtain out' bp2 r2 where
        "Decode bp' (rs ! i) (Vector (ts ! i)) = (Inr out', bp2, r2)" "vec_rep out' ([] @ take kChunkRows (col i tab))"
        "vtype out' = vtype (Vector (ts ! i))" "cr_type r2 = cr_type (rs ! i)" "same_pages bp' bp2"
        "chunks_at bp2 r2 (split_chunks (drop kChunkRows (col i tab)))" using c(1) by (auto simp: Vector_of)
      then show ?thesis using c(1) i len by (auto simp: Initialize_def Vector_of)
    qed
    show "?Q i bp2 a r" if "?Q i bp1 a r" "same_pages bp1 bp2" for i bp1 bp2 a r using that chunks_at_keeps by blast
    show "store_inv bp" using assms by (simp add: readers_inside_def)
  qed
  then obtain vs rs' bp' where e: "each_reader (\<lambda>k bp r. Decode bp r (columns (Initialize ts) ! k)) 0 bp rs = (Inr (vs, rs'), bp')"
    "same_pages bp bp'" "length vs = length rs" "length rs' = length rs" "\<forall>i < length rs. ?Q i bp' (vs ! i) (rs' ! i)" by blast
  then have "readers_at ts bp' (drop kChunkRows tab) rs'" using len by (simp add: readers_at_def same_pages_def)
  then show ?thesis using e len by auto
qed

section \<open>One round, one turn, one schedule\<close>

text \<open>Whether the scan skips a block of rows, by the zone map of the filtered column.\<close>

definition skips :: "column_scan \<Rightarrow> Value list list \<Rightarrow> bool" where
  "skips c block =
     (case zone_filter c of None \<Rightarrow> False | Some (p, lo, hi) \<Rightarrow> zone_skip lo hi (chunk_meta (scan_types c ! p) (col p block)))"

definition zone_ok :: "column_scan \<Rightarrow> bool" where
  "zone_ok c = (case zone_filter c of None \<Rightarrow> True | Some (p, lo, hi) \<Rightarrow> p < length (scan_types c))"

definition chunks_rep :: "column_scan \<Rightarrow> chunk list \<Rightarrow> Value list list list \<Rightarrow> bool" where
  "chunks_rep c out blocks \<longleftrightarrow> list_all2 (\<lambda>ch b. chunk_rep ch (scan_types c) b) out (filter (\<lambda>b. \<not> skips c b) blocks)"

lemma chunks_rep_simps [simp]: "chunks_rep c [] []"
  "chunks_rep c out bs \<Longrightarrow> chunks_rep c out' bs' \<Longrightarrow> chunks_rep c (out @ out') (bs @ bs')"
  by (auto simp: chunks_rep_def intro: list_all2_appendI)

lemma zone_hit_inside:
  assumes "readers_inside (scan_types c) bp tab rs" and "zone_ok c"
  shows "zone_hit c rs = Inr (skips c (take kChunkRows tab))"
proof (cases "zone_filter c")
  case (Some z)
  obtain p lo hi where z: "z = (p, lo, hi)" by (cases z)
  then have p: "p < length (scan_types c)" using Some assms(2) by (simp add: zone_ok_def)
  then obtain ec where "cr_type (rs ! p) = scan_types c ! p" "inside bp (rs ! p) ec (take kChunkRows (col p tab)) (split_chunks (drop kChunkRows (col p tab)))"
    using assms(1) by (auto simp: readers_inside_def)
  then have "cr_meta (rs ! p) = chunk_meta (scan_types c ! p) (col p (take kChunkRows tab))" by (simp add: inside_def chunk_meta_def)
  then show ?thesis using Some z p assms(1) by (simp add: zone_hit_def skips_def readers_inside_def)
qed (simp add: zone_hit_def skips_def)

lemma scan_step_ok:
  assumes at: "readers_at (scan_types c) bp tab rs" and ne: "tab \<noteq> []" "scan_types c \<noteq> []" and z: "zone_ok c"
    and w: "\<forall>r \<in> set tab. length r = length (scan_types c)"
  shows "\<exists>rs' new bp'. scan_step c bp rs = (Inr (True, rs', new), bp') \<and> same_pages bp bp' \<and>
    readers_at (scan_types c) bp' (drop kChunkRows tab) rs' \<and> chunks_rep c new [take kChunkRows tab]"
proof -
  let ?ts = "scan_types c"
  obtain r rest where rs: "rs = r # rest" using at ne(2) by (cases rs) (auto simp: readers_at_def)
  obtain bp1 r1 as rest1 bp2 where n: "NextChunk bp r = (Inr True, bp1, r1)" "each_reader (\<lambda>_. NextChunk) 1 bp1 rest = (Inr (as, rest1), bp2)"
    "same_pages bp bp2" "readers_inside ?ts bp2 tab (r1 # rest1)" using NextChunk_readers [OF at [unfolded rs] ne(1)] by blast
  note hit = zone_hit_inside [OF n(4) z]
  show ?thesis
  proof (cases "skips c (take kChunkRows tab)")
    case True
    obtain as2 rs2 bp3 where "each_reader (\<lambda>_. SkipPayload) 0 bp2 (r1 # rest1) = (Inr (as2, rs2), bp3)" "same_pages bp2 bp3"
      "readers_at ?ts bp3 (drop kChunkRows tab) rs2" using SkipPayload_readers [OF n(4)] by blast
    then show ?thesis using n hit True by (auto simp: scan_step_def rs Let_def chunks_rep_def dest: same_pages_trans simp del: each_reader.simps)
  next
    case False
    obtain vs rs2 bp3 where d: "each_reader (\<lambda>k bp r. Decode bp r (columns (Initialize ?ts) ! k)) 0 bp2 (r1 # rest1) = (Inr (vs, rs2), bp3)"
      "same_pages bp2 bp3" "readers_at ?ts bp3 (drop kChunkRows tab) rs2" "length vs = length ?ts"
      "\<forall>k < length ?ts. vtype (vs ! k) = ?ts ! k \<and> vec_rep (vs ! k) (col k (take kChunkRows tab))" using Decode_readers [OF n(4)] by blast
    have rows: "unat (cm_num_rows (cr_meta r1)) = length (take kChunkRows tab)"
    proof -
      have "readers_inside ?ts bp2 tab (r1 # rest1)" by (rule n(4))
      then obtain ec where ec: "inside bp2 r1 ec (take kChunkRows (col 0 tab)) (split_chunks (drop kChunkRows (col 0 tab)))"
        using ne(2) by (force simp: readers_inside_def)
      then have ok: "chunk_ok (cr_type r1) (col 0 (take kChunkRows tab))"
        using column_chunk_ok(1) [of "cr_type r1" "col 0 (take kChunkRows tab)" "col 0 (take kChunkRows tab)"] by (simp add: inside_def)
      have "Encoding.num_rows ec = Encoding.rows (col 0 (take kChunkRows tab))"
        by (rule EncodeChunk_ok [OF ok]) (use ec in \<open>simp add: inside_def\<close>)
      then show ?thesis using ec by (simp add: inside_def meta_of_def kChunkRows_def unsigned_of_nat take_bit_nat_eq_self)
    qed
    have "map vtype vs = ?ts" using d(4,5) by (intro nth_equalityI) auto
    then have "chunk_rep ((Initialize ?ts)\<lparr>columns := vs, cardinality := unat (cm_num_rows (cr_meta r1))\<rparr>) ?ts (take kChunkRows tab)"
      unfolding rows using d(5) w by (auto simp: chunk_rep_def cols_rep_def col_def dest: in_set_takeD)
    then show ?thesis using n d(1-3) hit False by (auto simp: scan_step_def rs Let_def chunks_rep_def dest: same_pages_trans simp del: each_reader.simps)
  qed
qed

lemma scan_step_end:
  assumes "readers_at (scan_types c) bp [] rs" and "scan_types c \<noteq> []"
  shows "\<exists>rs'. scan_step c bp rs = (Inr (False, rs', []), bp)"
proof -
  obtain r rest where rs: "rs = r # rest" using assms by (cases rs) (auto simp: readers_at_def)
  have "chunks_at bp r []" using assms rs by (force simp: readers_at_def split_chunks_simps)
  then show ?thesis using NextChunk_end [of bp r] by (simp add: scan_step_def rs)
qed

text \<open>The contents of a table: \<open>vals rg k\<close> is column \<open>k\<close> of row group \<open>rg\<close>, stored under its root page.\<close>

definition table_at :: "pool \<Rightarrow> TableMeta \<Rightarrow> (nat \<Rightarrow> nat \<Rightarrow> Value list) \<Rightarrow> (nat \<Rightarrow> nat) \<Rightarrow> bool" where
  "table_at bp tbl vals n \<longleftrightarrow> (\<forall>rg < length (row_groups tbl). length (column_roots (row_groups tbl ! rg)) = length (tm_schema tbl) \<and>
     (\<forall>k < length (tm_schema tbl). length (vals rg k) = n rg \<and> column_ok (col_type (tm_schema tbl ! k)) (vals rg k) \<and>
        stream_at (view bp) (pages bp) (column_roots (row_groups tbl ! rg) ! k) (column_bytes (col_type (tm_schema tbl ! k)) (vals rg k))))"

definition rg_rows :: "nat list \<Rightarrow> (nat \<Rightarrow> nat \<Rightarrow> Value list) \<Rightarrow> (nat \<Rightarrow> nat) \<Rightarrow> nat \<Rightarrow> Value list list" where
  "rg_rows cols vals n rg = map (\<lambda>i. map (\<lambda>k. vals rg k ! i) cols) [0..<n rg]"

definition scan_ok :: "column_scan \<Rightarrow> bool" where
  "scan_ok c \<longleftrightarrow> zone_ok c \<and> col_idx c \<noteq> [] \<and> (\<forall>k \<in> set (col_idx c). k < length (tm_schema (scan_table c))) \<and>
     scan_types c = map (\<lambda>k. col_type (tm_schema (scan_table c) ! k)) (col_idx c)"

lemma table_at_keeps: "table_at bp tbl vals n \<Longrightarrow> same_pages bp bp' \<Longrightarrow> table_at bp' tbl vals n"
  using bs.keeps_stored [of bp bp'] unfolding table_at_def by blast

lemma open_readers_ok:
  assumes "stream_ready bp" and "table_at bp tbl vals n" and rg: "rg < length (row_groups tbl)" and "\<forall>k \<in> set cols. k < length (tm_schema tbl)"
  shows "\<exists>rs bp'. open_readers bp (tm_schema tbl) (row_groups tbl ! rg) cols = (Inr rs, bp') \<and> same_pages bp bp' \<and> length rs = length cols \<and>
    (\<forall>i < length cols. cr_type (rs ! i) = col_type (tm_schema tbl ! (cols ! i)) \<and> chunks_at bp' (rs ! i) (split_chunks (vals rg (cols ! i))))"
  using assms(1,2,4)
proof (induction cols arbitrary: bp)
  case (Cons k cols)
  have k: "k < length (tm_schema tbl)" "length (column_roots (row_groups tbl ! rg)) = length (tm_schema tbl)"
    "column_ok (col_type (tm_schema tbl ! k)) (vals rg k)"
    "stream_at (view bp) (pages bp) (column_roots (row_groups tbl ! rg) ! k) (column_bytes (col_type (tm_schema tbl ! k)) (vals rg k))"
    using Cons.prems(2,3) rg by (simp_all add: table_at_def)
  obtain bp1 r where o: "ColumnReader bp (column_roots (row_groups tbl ! rg) ! k) (col_type (tm_schema tbl ! k)) = (Inr (), bp1, r)"
    "cr_type r = col_type (tm_schema tbl ! k)" "same_pages bp bp1" "chunks_at bp1 r (split_chunks (vals rg k))"
    using ColumnReader_ok [OF Cons.prems(1) k(3,4)] by blast
  have "stream_ready bp1" using bs.keeps_ready [OF o(3) Cons.prems(1)] .
  from Cons.IH [OF this table_at_keeps [OF Cons.prems(2) o(3)]] Cons.prems(3) obtain rs bp' where
    e: "open_readers bp1 (tm_schema tbl) (row_groups tbl ! rg) cols = (Inr rs, bp')" "same_pages bp1 bp'" "length rs = length cols"
    "\<forall>i < length cols. cr_type (rs ! i) = col_type (tm_schema tbl ! (cols ! i)) \<and> chunks_at bp' (rs ! i) (split_chunks (vals rg (cols ! i)))" by auto
  have "open_readers bp (tm_schema tbl) (row_groups tbl ! rg) (k # cols) = (Inr (r # rs), bp')"
    using k(1,2) o(1) e(1) by (simp add: GetColumn_def)
  moreover have "\<forall>i < length (k # cols). cr_type ((r # rs) ! i) = col_type (tm_schema tbl ! ((k # cols) ! i)) \<and>
    chunks_at bp' ((r # rs) ! i) (split_chunks (vals rg ((k # cols) ! i)))"
    using o(2) chunks_at_keeps [OF o(4) e(2)] e(4) by (auto simp: nth_Cons split: nat.splits)
  ultimately show ?case using same_pages_trans [OF o(3) e(2)] e(3) by auto
qed (auto simp: same_pages_refl)

text \<open>\<open>slot_rep c bp tab slot m\<close>: the slot is on its way to the rows \<open>tab\<close> and needs \<open>m\<close> more turns.\<close>

definition slot_rep :: "column_scan \<Rightarrow> pool \<Rightarrow> Value list list \<Rightarrow> rg_state \<Rightarrow> nat \<Rightarrow> bool" where
  "slot_rep c bp tab slot m =
     (case slot of
        Waiting \<Rightarrow> m = length (split_chunks tab) + 2
      | Decoding rs out \<Rightarrow> (\<exists>bs rest. split_chunks tab = bs @ split_chunks rest \<and> set rest \<subseteq> set tab \<and>
          readers_at (scan_types c) bp rest rs \<and> chunks_rep c out bs \<and> m = length (split_chunks rest) + 1)
      | Decoded out \<Rightarrow> chunks_rep c out (split_chunks tab) \<and> m = 0)"

lemma slot_rep_keeps: "slot_rep c bp tab slot m \<Longrightarrow> same_pages bp bp' \<Longrightarrow> slot_rep c bp' tab slot m"
  unfolding slot_rep_def using readers_keeps(1) by (auto split: rg_state.splits) blast

lemma scan_turn_ok:
  assumes c: "scan_ok c" and ready: "stream_ready bp" and tab: "table_at bp (scan_table c) vals n"
    and len: "length slots = length (row_groups (scan_table c))"
    and slots: "\<forall>j < length slots. slot_rep c bp (rg_rows (col_idx c) vals n j) (slots ! j) (m j)"
  shows "\<exists>bp' slots'. scan_turn c (bp, slots) rg = Inr (bp', slots') \<and> same_pages bp bp' \<and> length slots' = length slots \<and>
    (\<forall>j < length slots. slot_rep c bp' (rg_rows (col_idx c) vals n j) (slots' ! j) (if j = rg then m j - 1 else m j))"
proof (cases "rg < length slots")
  case False
  then show ?thesis using slots ready by (auto simp: scan_turn_def same_pages_refl)
next
  case rg: True
  let ?tab = "rg_rows (col_idx c) vals n rg" and ?ts = "scan_types c"
  have rep: "slot_rep c bp ?tab (slots ! rg) (m rg)" using slots rg by blast
  have st: "store_inv bp" using ready by simp
  have ts: "?ts \<noteq> []" "length ?ts = length (col_idx c)" "zone_ok c" using c by (auto simp: scan_ok_def)
  have turn: ?thesis if "scan_turn c (bp, slots) rg = Inr (bp', slots[rg := s])" "same_pages bp bp'" "slot_rep c bp' ?tab s (m rg - 1)" for bp' s
  proof -
    have "slot_rep c bp' (rg_rows (col_idx c) vals n j) (slots[rg := s] ! j) (if j = rg then m j - 1 else m j)" if "j < length slots" for j
      using that \<open>slot_rep c bp' ?tab s (m rg - 1)\<close> slots slot_rep_keeps [OF _ \<open>same_pages bp bp'\<close>] by (cases "j = rg") auto
    then show ?thesis using that(1,2) by (intro exI [of _ bp'] exI [of _ "slots[rg := s]"]) simp
  qed
  show ?thesis
  proof (cases "slots ! rg")
    case Waiting
    obtain rs bp' where o: "open_readers bp (tm_schema (scan_table c)) (row_groups (scan_table c) ! rg) (col_idx c) = (Inr rs, bp')" "same_pages bp bp'"
      "length rs = length (col_idx c)" "\<forall>i < length (col_idx c). cr_type (rs ! i) = col_type (tm_schema (scan_table c) ! (col_idx c ! i)) \<and>
        chunks_at bp' (rs ! i) (split_chunks (vals rg (col_idx c ! i)))"
      using open_readers_ok [OF ready tab _ , of rg "col_idx c"] rg len c by (auto simp: scan_ok_def)
    have "col i ?tab = vals rg (col_idx c ! i)" if "i < length (col_idx c)" for i
    proof (rule nth_equalityI)
      show l: "length (col i ?tab) = length (vals rg (col_idx c ! i))"
        using tab rg len c that by (simp add: table_at_def scan_ok_def rg_rows_def)
      show "col i ?tab ! j = vals rg (col_idx c ! i) ! j" if "j < length (col i ?tab)" for j
        using that \<open>i < length (col_idx c)\<close> by (simp add: col_def rg_rows_def)
    qed
    then have "readers_at ?ts bp' ?tab rs" using o ts c by (simp add: readers_at_def same_pages_def scan_ok_def)
    then have "slot_rep c bp' ?tab (Decoding rs []) (m rg - 1)"
      using rep Waiting by (auto simp: slot_rep_def intro!: exI [of _ "[]"] exI [of _ ?tab])
    then show ?thesis using turn o(1,2) rg Waiting by (simp add: scan_turn_def)
  next
    case (Decoded out)
    then have "scan_turn c (bp, slots) rg = Inr (bp, slots[rg := Decoded out])" using rg by (simp add: scan_turn_def) (metis list_update_id)
    then show ?thesis using turn rep Decoded same_pages_refl [OF st] by (simp add: slot_rep_def)
  next
    case (Decoding rs out)
    then obtain bs rest where d: "split_chunks ?tab = bs @ split_chunks rest" "set rest \<subseteq> set ?tab" "readers_at ?ts bp rest rs"
      "chunks_rep c out bs" "m rg = length (split_chunks rest) + 1" using rep by (auto simp: slot_rep_def)
    show ?thesis
    proof (cases "rest = []")
      case True
      obtain rs' where "scan_step c bp rs = (Inr (False, rs', []), bp)" using scan_step_end d(3) True ts(1) by blast
      then have "scan_turn c (bp, slots) rg = Inr (bp, slots[rg := Decoded out])" using rg Decoding by (simp add: scan_turn_def)
      moreover have "slot_rep c bp ?tab (Decoded out) (m rg - 1)" using d True by (simp add: slot_rep_def split_chunks_simps)
      ultimately show ?thesis using turn same_pages_refl [OF st] by blast
    next
      case False
      have "\<forall>r \<in> set rest. length r = length ?ts" using d(2) ts(2) by (auto simp: rg_rows_def)
      from scan_step_ok [OF d(3) False ts(1,3) this] obtain rs' new bp' where
        s: "scan_step c bp rs = (Inr (True, rs', new), bp')" "same_pages bp bp'" "readers_at ?ts bp' (drop kChunkRows rest) rs'"
        "chunks_rep c new [take kChunkRows rest]" by blast
      have "scan_turn c (bp, slots) rg = Inr (bp', slots[rg := Decoding rs' (out @ new)])" using rg Decoding s(1) by (simp add: scan_turn_def)
      moreover have "slot_rep c bp' ?tab (Decoding rs' (out @ new)) (m rg - 1)"
      proof -
        have "split_chunks ?tab = (bs @ [take kChunkRows rest]) @ split_chunks (drop kChunkRows rest)" using d(1) split_chunks_simps(2) [OF False] by simp
        moreover have "set (drop kChunkRows rest) \<subseteq> set ?tab" using d(2) set_drop_subset by fast
        moreover have "m rg - 1 = length (split_chunks (drop kChunkRows rest)) + 1" using d(5) split_chunks_simps(2) [OF False] by simp
        ultimately show ?thesis using s(3) chunks_rep_simps(2) [OF d(4) s(4)] by (simp only: slot_rep_def rg_state.case) blast
      qed
      ultimately show ?thesis using turn s(2) by blast
    qed
  qed
qed

lemma scan_schedule_ok:
  assumes "scan_ok c" and "stream_ready bp" and "table_at bp (scan_table c) vals n"
    and "length slots = length (row_groups (scan_table c))"
    and "\<forall>j < length slots. slot_rep c bp (rg_rows (col_idx c) vals n j) (slots ! j) (m j)"
  shows "\<exists>bp' slots'. foldR (scan_turn c) (bp, slots) sched = Inr (bp', slots') \<and> same_pages bp bp' \<and> length slots' = length slots \<and>
    (\<forall>j < length slots. slot_rep c bp' (rg_rows (col_idx c) vals n j) (slots' ! j) (m j - count_list sched j))"
  using assms(2-5)
proof (induction sched arbitrary: bp slots m)
  case Nil
  then show ?case by (auto simp: same_pages_refl)
next
  case (Cons rg sched)
  from scan_turn_ok [OF assms(1) Cons.prems] obtain bp1 slots1 where
    t: "scan_turn c (bp, slots) rg = Inr (bp1, slots1)" "same_pages bp bp1" "length slots1 = length slots"
    "\<forall>j < length slots. slot_rep c bp1 (rg_rows (col_idx c) vals n j) (slots1 ! j) (if j = rg then m j - 1 else m j)" by blast
  have "stream_ready bp1" using bs.keeps_ready [OF t(2) Cons.prems(1)] .
  from Cons.IH [OF this table_at_keeps [OF Cons.prems(2) t(2)], of slots1 "\<lambda>j. if j = rg then m j - 1 else m j"] t(3,4) Cons.prems(3)
  obtain bp' slots' where "foldR (scan_turn c) (bp1, slots1) sched = Inr (bp', slots')" "same_pages bp1 bp'" "length slots' = length slots"
    "\<forall>j < length slots. slot_rep c bp' (rg_rows (col_idx c) vals n j) (slots' ! j) ((if j = rg then m j - 1 else m j) - count_list sched j)" by auto
  moreover have "(if j = rg then m j - 1 else m j) - count_list sched j = m j - count_list (rg # sched) j" for j by simp
  ultimately show ?case using t(1) same_pages_trans [OF t(2)] by auto
qed

section \<open>What a scan produces\<close>

definition kept :: "column_scan \<Rightarrow> Value list list \<Rightarrow> Value list list list" where
  "kept c tab = filter (\<lambda>b. \<not> skips c b) (split_chunks tab)"

lemma decoded_rep:
  assumes "length slots = length tabs" and "\<forall>j < length slots. slot_rep c bp (tabs ! j) (slots ! j) 0"
  shows "\<exists>out. decoded slots = Some out \<and> list_all2 (\<lambda>ch b. chunk_rep ch (scan_types c) b) out (concat (map (kept c) tabs))"
  using assms
proof (induction slots tabs rule: list_induct2)
  case (Cons s slots tab tabs)
  have "\<forall>j < length slots. slot_rep c bp (tabs ! j) (slots ! j) 0" using Cons.prems by fastforce
  from Cons.IH [OF this] obtain out where out: "decoded slots = Some out"
    "list_all2 (\<lambda>ch b. chunk_rep ch (scan_types c) b) out (concat (map (kept c) tabs))" by blast
  have "slot_rep c bp tab s 0" using Cons.prems by fastforce
  then obtain o1 where "s = Decoded o1" "chunks_rep c o1 (split_chunks tab)" by (auto simp: slot_rep_def split: rg_state.splits)
  then show ?case using out list_all2_appendI [of _ o1 "kept c tab" out "concat (map (kept c) tabs)"] by (simp add: chunks_rep_def kept_def [symmetric])
qed simp

lemma scan_yields:
  assumes "list_all2 (\<lambda>ch b. chunk_rep ch ts b) (scan_chunks st) blocks" and "\<forall>b \<in> set blocks. b \<noteq> [] \<and> length b \<le> kVectorSize"
  shows "yields scan_next ts (st\<lparr>chunk_cursor := i\<rparr>) (concat (drop i blocks))"
proof (induction "length blocks - i" arbitrary: i)
  case 0
  then have "length (scan_chunks st) \<le> i" using list_all2_lengthD [OF assms(1)] by simp
  then show ?case using 0 by (auto intro!: yields.stop simp: scan_next_def set_cardinality_def typed_out_def)
next
  case (Suc d)
  then have i: "i < length blocks" "i < length (scan_chunks st)" using list_all2_lengthD [OF assms(1)] by simp_all
  have "yields scan_next ts (st\<lparr>chunk_cursor := Suc i\<rparr>) (concat (drop (Suc i) blocks))" by (rule Suc.hyps(1)) (use Suc.hyps(2) in simp)
  moreover have "chunk_rep (scan_chunks st ! i) ts (blocks ! i)" using assms(1) i(2) by (rule list_all2_nthD)
  then have "\<exists>out'. scan_next (st\<lparr>chunk_cursor := i\<rparr>) out = Some (Inr (out', st\<lparr>chunk_cursor := Suc i\<rparr>)) \<and> chunk_rep out' ts (blocks ! i)" for out
    using i(2) by (simp add: scan_next_def)
  moreover have "blocks ! i \<noteq> []" "length (blocks ! i) \<le> kVectorSize" using assms(2) i(1) by simp_all
  ultimately have "yields scan_next ts (st\<lparr>chunk_cursor := i\<rparr>) (blocks ! i @ concat (drop (Suc i) blocks))" by (intro yields.more) blast+
  then show ?case using Cons_nth_drop_Suc [OF i(1)] by (metis concat.simps(2))
qed

lemma split_chunks_col: "split_chunks (col k tab) = map (col k) (split_chunks tab)"
proof (induction tab rule: split_chunks.induct)
  case (1 tab)
  show ?case
  proof (cases "tab = []")
    case False
    then show ?thesis using "1.IH" split_chunks_simps(2) [of tab] split_chunks_simps(2) [of "col k tab"] by simp
  qed (simp add: split_chunks_simps)
qed

text \<open>The rows of the pushed-down range; all rows without one.\<close>

definition zone_row :: "column_scan \<Rightarrow> Value list \<Rightarrow> bool" where
  "zone_row c r = (case zone_filter c of None \<Rightarrow> True | Some (p, lo, hi) \<Rightarrow> in_range lo hi (r ! p))"

lemma skipped_block:
  assumes "zone_ok c" and "\<And>k. k < length (scan_types c) \<Longrightarrow> column_ok (scan_types c ! k) (col k tab)" and b: "b \<in> set (split_chunks tab)" and "skips c b"
  shows "filter (zone_row c) b = []"
proof -
  obtain p lo hi where z: "zone_filter c = Some (p, lo, hi)" "zone_skip lo hi (chunk_meta (scan_types c ! p) (col p b))"
    using assms(4) by (auto simp: skips_def split: option.splits)
  then have p: "p < length (scan_types c)" using assms(1) by (simp add: zone_ok_def)
  have m: "col p b \<in> set (split_chunks (col p tab))" using b by (auto simp: split_chunks_col)
  have "chunk_ok (scan_types c ! p) (col p b)"
    using split_chunks_members [OF m] strs_concat_member [OF m] column_chunk_ok(1) [OF assms(2) [OF p], of "col p b"] by (simp add: concat_split_chunks)
  from skipped_chunk [OF this z(2)] show ?thesis by (auto simp: col_def zone_row_def z filter_empty_conv)
qed

lemma kept_rows:
  assumes "zone_ok c" and "\<And>k. k < length (scan_types c) \<Longrightarrow> column_ok (scan_types c ! k) (col k tab)"
  shows "filter (zone_row c) (concat (kept c tab)) = filter (zone_row c) tab"
proof -
  have "filter (zone_row c) (concat (filter (\<lambda>b. \<not> skips c b) bs)) = filter (zone_row c) (concat bs)" if "\<And>b. b \<in> set bs \<Longrightarrow> skips c b \<Longrightarrow> filter (zone_row c) b = []" for bs
    using that by (induction bs) auto
  from this [of "split_chunks tab"] show ?thesis
    using skipped_block [OF assms] by (simp add: kept_def concat_split_chunks)
qed

lemma kept_all: "zone_filter c = None \<Longrightarrow> concat (kept c tab) = tab"
  by (simp add: kept_def skips_def concat_split_chunks)

definition all_rows :: "column_scan \<Rightarrow> (nat \<Rightarrow> nat \<Rightarrow> Value list) \<Rightarrow> (nat \<Rightarrow> nat) \<Rightarrow> Value list list" where
  "all_rows c vals n = concat (map (rg_rows (col_idx c) vals n) [0..<length (row_groups (scan_table c))])"

definition fair :: "column_scan \<Rightarrow> (nat \<Rightarrow> nat) \<Rightarrow> nat list \<Rightarrow> bool" where
  "fair c n sched \<longleftrightarrow> (\<forall>rg < length (row_groups (scan_table c)). n rg div kChunkRows + 3 \<le> count_list sched rg)"

lemma length_split_chunks: "length (split_chunks xs) \<le> length xs div kChunkRows + 1"
proof (induction xs rule: split_chunks.induct)
  case (1 xs)
  show ?case
  proof (cases "xs = []")
    case False
    note s = split_chunks_simps(2) [OF False] and IH = "1.IH" [OF False]
    show ?thesis
    proof (cases "kChunkRows < length xs")
      case True
      then have "(length xs - kChunkRows) div kChunkRows + 1 = length xs div kChunkRows" by (simp add: kChunkRows_def le_div_geq)
      then show ?thesis unfolding s using IH by simp
    qed (simp add: s split_chunks_simps)
  qed (simp add: split_chunks_simps)
qed

lemma filter_concat_cong:
  "(\<And>j. j \<in> set xs \<Longrightarrow> filter P (concat (h j)) = filter P (g j)) \<Longrightarrow> filter P (concat (concat (map h xs))) = filter P (concat (map g xs))"
  by (induction xs) simp_all

lemma ColumnScan_rows:
  assumes "ColumnScan tbl alias cols = Inr c0" and "cols \<noteq> []" and "c = c0 \<or> (\<exists>p lo hi. c = SetZoneFilter p lo hi c0 \<and> p < length cols)"
    and "stream_ready bp" and "table_at bp tbl vals n" and "fair c n sched"
  shows "\<exists>out. produces (ScanOperator c sched) \<lparr>scan_pool = bp, scan_chunks = cs, chunk_cursor = k\<rparr> out \<and>
    filter (zone_row c) out = filter (zone_row c) (all_rows c vals n) \<and> set out \<subseteq> set (all_rows c vals n)"
proof -
  have g: "mapR (GetColumn (tm_schema tbl)) cols = Inr xs \<Longrightarrow> (\<forall>k \<in> set cols. k < length (tm_schema tbl)) \<and> xs = map ((!) (tm_schema tbl)) cols" for xs
    by (induction cols arbitrary: xs) (auto simp: GetColumn_def split: if_splits sum.splits)
  obtain xs where "mapR (GetColumn (tm_schema tbl)) cols = Inr xs" "scan_table c0 = tbl" "col_idx c0 = cols" "scan_types c0 = map col_type xs" "zone_filter c0 = None"
    using assms(1) by (cases "mapR (GetColumn (tm_schema tbl)) cols") (auto simp: ColumnScan_def)
  then have c: "scan_table c = tbl" "scan_ok c" using g assms(2,3) by (auto simp: scan_ok_def zone_ok_def SetZoneFilter_def)
  let ?num = "length (row_groups tbl)" and ?st = "\<lparr>scan_pool = bp, scan_chunks = cs, chunk_cursor = k\<rparr>"
  let ?tab = "rg_rows (col_idx c) vals n"
  let ?m = "\<lambda>j. length (split_chunks (?tab j)) + 2"
  have tab: "table_at bp (scan_table c) vals n" using assms(5) c(1) by simp
  have "\<exists>bp' slots'. foldR (scan_turn c) (bp, replicate ?num Waiting) sched = Inr (bp', slots') \<and> same_pages bp bp' \<and>
    length slots' = length (replicate ?num Waiting) \<and>
    (\<forall>j < length (replicate ?num Waiting). slot_rep c bp' (?tab j) (slots' ! j) (?m j - count_list sched j))"
    by (rule scan_schedule_ok [OF c(2) assms(4) tab]) (simp_all add: c(1) slot_rep_def)
  then obtain bp' slots' where f: "foldR (scan_turn c) (bp, replicate ?num Waiting) sched = Inr (bp', slots')" "length slots' = ?num"
    "\<forall>j < ?num. slot_rep c bp' (?tab j) (slots' ! j) (?m j - count_list sched j)" by auto
  have "?m j - count_list sched j = 0" if "j < ?num" for j
  proof -
    have "n j div kChunkRows + 3 \<le> count_list sched j" using assms(6) that c(1) by (simp add: fair_def)
    then show ?thesis using length_split_chunks [of "?tab j"] by (simp add: rg_rows_def)
  qed
  then have "\<forall>j < length slots'. slot_rep c bp' (map ?tab [0..<?num] ! j) (slots' ! j) 0" using f(2,3) by force
  from decoded_rep [OF _ this] f(2) obtain out where out: "decoded slots' = Some out"
    "list_all2 (\<lambda>ch b. chunk_rep ch (scan_types c) b) out (concat (map (kept c) (map ?tab [0..<?num])))" by auto
  let ?blocks = "concat (map (kept c) (map ?tab [0..<?num]))"
  obtain bp'' where op: "Open (ScanOperator c sched) ?st = Some (Inr \<lparr>scan_pool = bp'', scan_chunks = out, chunk_cursor = 0\<rparr>)"
    using f(1,2) out(1) c(1) by (cases "?num = 0") (auto simp: ScanOperator_def scan_open_def Let_def)
  have "\<forall>b \<in> set ?blocks. b \<noteq> [] \<and> length b \<le> kVectorSize"
    using split_chunks_members by (fastforce simp: kept_def kVectorSize_def kChunkRows_def)
  from scan_yields [of "scan_types c" "\<lparr>scan_pool = bp'', scan_chunks = out, chunk_cursor = 0\<rparr>" ?blocks 0, OF _ this] out(2)
  have "produces (ScanOperator c sched) ?st (concat ?blocks)" using op by (auto simp: produces_def ScanOperator_def)
  moreover have "filter (zone_row c) (concat ?blocks) = filter (zone_row c) (all_rows c vals n)"
  proof -
    have "filter (zone_row c) (concat (kept c (?tab j))) = filter (zone_row c) (?tab j)" if j: "j < ?num" for j
    proof (rule kept_rows)
      show "zone_ok c" using c(2) by (simp add: scan_ok_def)
      fix k
      assume k: "k < length (scan_types c)"
      have i: "k < length (col_idx c)" "col_idx c ! k < length (tm_schema tbl)" "scan_types c ! k = col_type (tm_schema tbl ! (col_idx c ! k))"
        using k c by (simp_all add: scan_ok_def)
      then have v: "length (vals j (col_idx c ! k)) = n j" "column_ok (scan_types c ! k) (vals j (col_idx c ! k))"
        using assms(5) j by (simp_all add: table_at_def)
      have "col k (?tab j) = vals j (col_idx c ! k)" using v(1) i(1) by (intro nth_equalityI) (simp_all add: col_def rg_rows_def)
      then show "column_ok (scan_types c ! k) (col k (?tab j))" using v(2) by simp
    qed
    then have "filter (zone_row c) (concat (concat (map (\<lambda>j. kept c (?tab j)) [0..<?num]))) = filter (zone_row c) (concat (map ?tab [0..<?num]))"
      by (intro filter_concat_cong) simp
    then show ?thesis by (simp add: all_rows_def c(1) o_def)
  qed
  moreover have "set (concat ?blocks) \<subseteq> set (all_rows c vals n)"
  proof -
    have "set (concat (kept c (?tab j))) \<subseteq> set (?tab j)" for j
      using split_chunks_members [of _ "?tab j"] by (fastforce simp: kept_def)
    then show ?thesis by (fastforce simp: all_rows_def c(1))
  qed
  ultimately show ?thesis by blast
qed



end
