(* ===== verification/Hash_Join.thy ===== *)
theory Hash_Join
  imports Operators
begin

text \<open>
  The hash join (\<open>execution/hash_join.cpp\<close>): the build side is materialised and indexed by the
  serialised key, the probe side is streamed, and one joined row at a time is appended to the
  output batch. The two loops of \<open>AdvanceProbeRow\<close> and \<open>Next\<close> are partial functions.
\<close>

section \<open>Join keys\<close>

fun KeyOf :: "Value \<Rightarrow> string" where
  "KeyOf Null = []"
| "KeyOf (Int32 x) = CHR ''i'' # string_of_bytes (PutPod x)"
| "KeyOf (Int64 x) = CHR ''I'' # string_of_bytes (PutPod x)"
| "KeyOf (Dbl x) = CHR ''d'' # string_of_bytes (PutPod x)"
| "KeyOf (Str s) = CHR ''s'' # s"

section \<open>State\<close>

record ('l, 'r) join_state =
  jleft :: 'l
  jright :: 'r
  build_rows :: "Value list list"
  build_index :: "string \<rightharpoonup> u32 list"
  lchunk :: chunk
  lpos :: nat
  left_done :: bool
  matches :: "u32 list option"
  mpos :: nat

section \<open>Build\<close>

text \<open>
  The body of the build loop for one row: a row whose key is not NULL is entered in the index
  under its position, which is kept in 32 bits.
\<close>

definition build_step :: "nat \<Rightarrow> Value list list \<times> (string \<rightharpoonup> u32 list) \<Rightarrow> Value list \<Rightarrow> (Value list list \<times> (string \<rightharpoonup> u32 list)) result" where
  "build_step rkey = (\<lambda>(rows, index) row.
     if rkey < length row then
       (let key = row ! rkey in
        Inr (rows @ [row],
          if IsNull key then index
          else index(KeyOf key \<mapsto> (case index (KeyOf key) of None \<Rightarrow> [] | Some is \<Rightarrow> is) @ [word_of_nat (length rows)])))
     else Inl (Undefined ''row[right_key_]''))"

text \<open>
  The rows the loop sees are those the right child yields; collecting them first and then
  indexing them in order does the same work, since neither step affects the other.
\<close>

definition join_open :: "'l Operator \<Rightarrow> 'r Operator \<Rightarrow> nat \<Rightarrow> ('l, 'r) join_state \<Rightarrow> ('l, 'r) join_state result option" where
  "join_open l r rkey j =
     bindO (Open r (jright j)) (\<lambda>r1.
     bindO (drain (Next r) r1 (Initialize (output_types r)) []) (\<lambda>(rows, r2).
     bindO (Some (foldR (build_step rkey) (build_rows j, build_index j) rows)) (\<lambda>(brows, index).
     bindO (Some (Close r r2)) (\<lambda>r3.
     bindO (Open l (jleft j)) (\<lambda>l1.
       Some (Inr (j\<lparr>jleft := l1, jright := r3, build_rows := brows, build_index := index,
         lchunk := Initialize (output_types l), lpos := 0, left_done := False, matches := None, mpos := 0\<rparr>)))))))"

section \<open>Probe\<close>

text \<open>The first half of the loop of \<open>AdvanceProbeRow\<close>: a new probe batch when the current one is used up.\<close>

definition refill :: "'l next_fun \<Rightarrow> ('l, 'r) join_state \<Rightarrow> (bool \<times> ('l, 'r) join_state) result option" where
  "refill nxt j =
     (if cardinality (lchunk j) \<le> lpos j then
        if left_done j then Some (Inr (False, j))
        else bindO (nxt (jleft j) (lchunk j)) (\<lambda>(ch, l1).
          if cardinality ch = 0 then Some (Inr (False, j\<lparr>jleft := l1, lchunk := ch, lpos := 0, left_done := True\<rparr>))
          else Some (Inr (True, j\<lparr>jleft := l1, lchunk := ch, lpos := 0\<rparr>)))
      else Some (Inr (True, j)))"

partial_function (option) AdvanceProbeRow :: "'l next_fun \<Rightarrow> nat \<Rightarrow> ('l, 'r) join_state \<Rightarrow> (bool \<times> ('l, 'r) join_state) result option" where
  "AdvanceProbeRow nxt lkey j =
     bindO (refill nxt j) (\<lambda>(more_rows, j1).
       if \<not> more_rows then Some (Inr (False, j1))
       else bindO (Some (bindR (GetVector (lchunk j1) lkey) (\<lambda>v. GetValue v (lpos j1)))) (\<lambda>key.
         case (if IsNull key then None else build_index j1 (KeyOf key)) of
           Some m \<Rightarrow> Some (Inr (True, j1\<lparr>matches := Some m, mpos := 0\<rparr>))
         | None \<Rightarrow> AdvanceProbeRow nxt lkey (j1\<lparr>lpos := lpos j1 + 1\<rparr>)))"

definition current_match :: "'l next_fun \<Rightarrow> nat \<Rightarrow> ('l, 'r) join_state \<Rightarrow> (bool \<times> ('l, 'r) join_state) result option" where
  "current_match nxt lkey j =
     (case matches j of
        None \<Rightarrow> AdvanceProbeRow nxt lkey j
      | Some m \<Rightarrow> if length m \<le> mpos j then AdvanceProbeRow nxt lkey (j\<lparr>lpos := lpos j + 1, matches := None\<rparr>)
                 else Some (Inr (True, j)))"

text \<open>One joined row: the probe row followed by the build row of the current match.\<close>

definition emit_match :: "nat \<Rightarrow> ('l, 'r) join_state \<Rightarrow> chunk \<Rightarrow> (chunk \<times> ('l, 'r) join_state) result" where
  "emit_match left_cols j out =
     (case matches j of
        None \<Rightarrow> Inl (Undefined ''*matches_'')
      | Some m \<Rightarrow>
          if mpos j < length m \<and> unat (m ! mpos j) < length (build_rows j) then
            let rrow = build_rows j ! unat (m ! mpos j) in
            bindR (append_from_row left_cols (lchunk j) (lpos j) out) (\<lambda>out1.
            bindR (append_values left_cols (length rrow) rrow out1) (\<lambda>out2.
              Inr (set_cardinality out2 (cardinality out2 + 1), j\<lparr>mpos := mpos j + 1\<rparr>)))
          else Inl (Undefined ''(*matches_)[mpos_]''))"

partial_function (option) join_next :: "'l next_fun \<Rightarrow> nat \<Rightarrow> nat \<Rightarrow> ('l, 'r) join_state \<Rightarrow> chunk \<Rightarrow> (chunk \<times> ('l, 'r) join_state) result option" where
  "join_next nxt lkey left_cols j out =
     (if kVectorSize \<le> cardinality out then Some (Inr (out, j))
      else bindO (current_match nxt lkey j) (\<lambda>(found, j1).
        if \<not> found then Some (Inr (out, j1))
        else bindO (Some (emit_match left_cols j1 out)) (\<lambda>(out', j2). join_next nxt lkey left_cols j2 out')))"

definition HashJoin :: "'l Operator \<Rightarrow> 'r Operator \<Rightarrow> nat \<Rightarrow> nat \<Rightarrow> ('l, 'r) join_state Operator" where
  "HashJoin l r lkey rkey = \<lparr>
     output_names = output_names l @ output_names r,
     output_types = output_types l @ output_types r,
     Open = join_open l r rkey,
     Next = (\<lambda>j out. join_next (Next l) lkey (length (output_types l)) j (Reset out)),
     Close = (\<lambda>j. bindR (Close l (jleft j)) (\<lambda>l1. Inr (j\<lparr>jleft := l1, build_rows := [], build_index := Map.empty\<rparr>)))\<rparr>"

section \<open>The index\<close>

lemma string_of_bytes_inj: "string_of_bytes xs = string_of_bytes ys \<longleftrightarrow> xs = ys"
proof -
  have "inj (\<lambda>b :: byte. char_of (unat b) :: char)"
  proof (rule injI)
    fix a b :: byte
    assume "(char_of (unat a) :: char) = char_of (unat b)"
    then have "unat a mod 256 = unat b mod 256" by (simp add: char_of_eq_iff take_bit_eq_mod)
    then show "a = b"
      using unsigned_less [of a, where ?'a = nat] unsigned_less [of b, where ?'a = nat] by (simp add: word_unat_eq_iff)
  qed
  then show ?thesis by (auto simp: string_of_bytes_def inj_map_eq_map)
qed

lemma PutPod_inj:
  assumes "8 dvd LENGTH('a::len)"
  shows "PutPod (a :: 'a word) = PutPod b \<longleftrightarrow> a = b"
  by (metis assms pod_of_bytes_PutPod)

text \<open>Different values have different keys, and only NULL has the empty one.\<close>

lemma KeyOf_inj: "KeyOf x = KeyOf y \<longleftrightarrow> x = y"
  by (cases x; cases y) (simp_all add: string_of_bytes_inj PutPod_inj)

definition idx_of :: "nat \<Rightarrow> Value list list \<Rightarrow> string \<Rightarrow> u32 list" where
  "idx_of rk R k = map word_of_nat (filter (\<lambda>i. R ! i ! rk \<noteq> Null \<and> KeyOf (R ! i ! rk) = k) [0..<length R])"

definition index_rep :: "nat \<Rightarrow> Value list list \<Rightarrow> (string \<rightharpoonup> u32 list) \<Rightarrow> bool" where
  "index_rep rk R index \<longleftrightarrow> (\<forall>k. index k = (if idx_of rk R k = [] then None else Some (idx_of rk R k)))"

lemma idx_of_snoc:
  "idx_of rk (R @ [row]) k = idx_of rk R k @ (if row ! rk \<noteq> Null \<and> KeyOf (row ! rk) = k then [word_of_nat (length R)] else [])"
proof -
  have "filter (\<lambda>i. (R @ [row]) ! i ! rk \<noteq> Null \<and> KeyOf ((R @ [row]) ! i ! rk) = k) [0..<length R] =
    filter (\<lambda>i. R ! i ! rk \<noteq> Null \<and> KeyOf (R ! i ! rk) = k) [0..<length R]"
    by (rule filter_cong) (simp_all add: nth_append)
  then show ?thesis by (simp add: idx_of_def)
qed

lemma build_ok:
  assumes "index_rep rk R index" and "\<forall>r \<in> set rows. rk < length r"
  shows "\<exists>index'. foldR (build_step rk) (R, index) rows = Inr (R @ rows, index') \<and> index_rep rk (R @ rows) index'"
  using assms
proof (induction rows arbitrary: R index)
  case (Cons row rows)
  have "\<exists>index1. build_step rk (R, index) row = Inr (R @ [row], index1) \<and> index_rep rk (R @ [row]) index1"
    using Cons.prems by (auto simp: build_step_def index_rep_def idx_of_snoc IsNull_def Let_def)
  then obtain index1 where s: "build_step rk (R, index) row = Inr (R @ [row], index1)" "index_rep rk (R @ [row]) index1" by blast
  then show ?case using Cons.IH [OF s(2)] Cons.prems(2) by auto
qed simp

lemma idx_of_rows:
  assumes "length R \<le> 2 ^ 32" and "x \<noteq> Null"
  shows "map (\<lambda>i. R ! unat i) (idx_of rk R (KeyOf x)) = filter (\<lambda>r. r ! rk = x) R" and "\<forall>i \<in> set (idx_of rk R (KeyOf x)). unat i < length R"
proof -
  have "unat (word_of_nat i :: u32) = i" if "i < length R" for i using that assms(1) by (simp add: unat_of_nat)
  then have "map (\<lambda>i. R ! unat i) (idx_of rk R (KeyOf x)) = map ((!) R) (filter (\<lambda>i. R ! i ! rk = x) [0..<length R])"
    using assms(2) by (auto simp: idx_of_def KeyOf_inj intro!: map_cong filter_cong)
  also have "\<dots> = filter (\<lambda>r. r ! rk = x) (map ((!) R) [0..<length R])" by (simp add: filter_map o_def)
  finally show "map (\<lambda>i. R ! unat i) (idx_of rk R (KeyOf x)) = filter (\<lambda>r. r ! rk = x) R" by (simp add: map_nth)
  show "\<forall>i \<in> set (idx_of rk R (KeyOf x)). unat i < length R"
    using \<open>\<And>i. i < length R \<Longrightarrow> unat (word_of_nat i :: u32) = i\<close> by (auto simp: idx_of_def)
qed

section \<open>The joined rows\<close>

text \<open>
  The specification: every pair of rows with the same key that is not NULL, in the order of
  the probe side and, for each probe row, in the order of the build side.
\<close>

definition partners :: "nat \<Rightarrow> nat \<Rightarrow> Value list list \<Rightarrow> Value list \<Rightarrow> Value list list" where
  "partners lk rk R l = (if l ! lk = Null then [] else map (\<lambda>r. l @ r) (filter (\<lambda>r. r ! rk = l ! lk) R))"

definition join_rows :: "nat \<Rightarrow> nat \<Rightarrow> Value list list \<Rightarrow> Value list list \<Rightarrow> Value list list" where
  "join_rows lk rk L R = concat (map (partners lk rk R) L)"

lemma join_rows_simps [simp]:
  "join_rows lk rk [] R = []" "join_rows lk rk (l # L) R = partners lk rk R l @ join_rows lk rk L R"
  "join_rows lk rk (L @ L') R = join_rows lk rk L R @ join_rows lk rk L' R"
  by (simp_all add: join_rows_def)

lemma index_partners:
  assumes "index_rep rk R index" and "length R \<le> 2 ^ 32"
  shows "(if IsNull (l ! lk) then None else index (KeyOf (l ! lk))) = None \<Longrightarrow> partners lk rk R l = []"
    and "(if IsNull (l ! lk) then None else index (KeyOf (l ! lk))) = Some m \<Longrightarrow>
      partners lk rk R l = map (\<lambda>i. l @ R ! unat i) m \<and> m \<noteq> [] \<and> (\<forall>i \<in> set m. unat i < length R)"
proof -
  show "(if IsNull (l ! lk) then None else index (KeyOf (l ! lk))) = None \<Longrightarrow> partners lk rk R l = []"
    using assms idx_of_rows(1) [OF assms(2), of "l ! lk" rk] by (auto simp: partners_def index_rep_def IsNull_def split: if_splits)
  assume m: "(if IsNull (l ! lk) then None else index (KeyOf (l ! lk))) = Some m"
  then have n: "l ! lk \<noteq> Null" and i: "m = idx_of rk R (KeyOf (l ! lk))" "m \<noteq> []"
    using assms(1) by (auto simp: index_rep_def IsNull_def split: if_splits)
  have "partners lk rk R l = map ((@) l) (map (\<lambda>i. R ! unat i) m)" using n idx_of_rows(1) [OF assms(2) n, of rk] by (simp add: partners_def i(1))
  then show "partners lk rk R l = map (\<lambda>i. l @ R ! unat i) m \<and> m \<noteq> [] \<and> (\<forall>i \<in> set m. unat i < length R)"
    using i idx_of_rows(2) [OF assms(2) n] by simp
qed

section \<open>The probe loop\<close>

text \<open>
  The invariant between two output rows: \<open>lrows\<close> are the rows of the current probe batch,
  \<open>rest\<close> those the left child has still to yield, and \<open>pending\<close> the joined rows to come.
\<close>

definition batch_rep :: "chunk \<Rightarrow> ColumnType list \<Rightarrow> Value list list \<Rightarrow> bool" where
  "batch_rep ch ts rows \<longleftrightarrow> typed_out ts ch \<and> cardinality ch = length rows \<and> (rows = [] \<or> chunk_rep ch ts rows)"

definition join_inv :: "'l next_fun \<Rightarrow> ColumnType list \<Rightarrow> nat \<Rightarrow> nat \<Rightarrow> Value list list \<Rightarrow> ('l, 'r) join_state \<Rightarrow> Value list list \<Rightarrow> Value list list \<Rightarrow> bool" where
  "join_inv nxt lts lk rk R j lrows rest \<longleftrightarrow>
     build_rows j = R \<and> length R \<le> 2 ^ 32 \<and> index_rep rk R (build_index j) \<and> lk < length lts \<and>
     batch_rep (lchunk j) lts lrows \<and> lpos j \<le> length lrows \<and>
     (if left_done j then rest = [] else yields nxt lts (jleft j) rest) \<and>
     (case matches j of None \<Rightarrow> True
      | Some m \<Rightarrow> lpos j < length lrows \<and> partners lk rk R (lrows ! lpos j) = map (\<lambda>i. lrows ! lpos j @ R ! unat i) m \<and>
          (\<forall>i \<in> set m. unat i < length R))"

definition pending :: "nat \<Rightarrow> nat \<Rightarrow> Value list list \<Rightarrow> ('l, 'r) join_state \<Rightarrow> Value list list \<Rightarrow> Value list list \<Rightarrow> Value list list" where
  "pending lk rk R j lrows rest =
     (case matches j of
        None \<Rightarrow> join_rows lk rk (drop (lpos j) lrows) R
      | Some m \<Rightarrow> drop (mpos j) (partners lk rk R (lrows ! lpos j)) @ join_rows lk rk (drop (Suc (lpos j)) lrows) R) @
     join_rows lk rk rest R"

text \<open>After a refill there is a probe row, or none is left; nothing to come is lost.\<close>

lemma refill_ok:
  assumes inv: "join_inv nxt lts lk rk R j lrows rest" and m: "matches j = None"
  shows "(\<exists>j1 lrows1. refill nxt j = Some (Inr (False, j1)) \<and> join_inv nxt lts lk rk R j1 lrows1 [] \<and> matches j1 = None \<and>
      drop (lpos j1) lrows1 = [] \<and> drop (lpos j) lrows @ rest = []) \<or>
    (\<exists>j1 lrows1 rest1. refill nxt j = Some (Inr (True, j1)) \<and> join_inv nxt lts lk rk R j1 lrows1 rest1 \<and> matches j1 = None \<and>
      lpos j1 < length lrows1 \<and> drop (lpos j1) lrows1 @ rest1 = drop (lpos j) lrows @ rest)"
proof -
  have c: "cardinality (lchunk j) = length lrows" "typed_out lts (lchunk j)" using inv by (auto simp: join_inv_def batch_rep_def)
  show ?thesis
  proof (cases "length lrows \<le> lpos j")
    case False
    then show ?thesis using inv m c by (intro disjI2 exI [of _ j] exI [of _ lrows] exI [of _ rest]) (simp add: refill_def)
  next
    case True
    show ?thesis
    proof (cases "left_done j")
      case d: True
      then have "rest = []" using inv by (simp add: join_inv_def)
      then show ?thesis using True d c m inv by (intro disjI1 exI [of _ j] exI [of _ lrows]) (simp add: refill_def)
    next
      case d: False
      then have "yields nxt lts (jleft j) rest" using inv by (simp add: join_inv_def)
      then show ?thesis
      proof cases
        case stop
        obtain ch l1 where n: "nxt (jleft j) (lchunk j) = Some (Inr (ch, l1))" "typed_out lts ch" "cardinality ch = 0"
          using stop(2) [OF c(2)] by blast
        let ?j1 = "j\<lparr>jleft := l1, lchunk := ch, lpos := 0, left_done := True\<rparr>"
        have "join_inv nxt lts lk rk R ?j1 [] []" using inv m n by (auto simp: join_inv_def batch_rep_def)
        then show ?thesis using m True d c n stop(1) by (intro disjI1 exI [of _ ?j1] exI [of _ "[]"]) (simp add: refill_def)
      next
        case (more rows l1 rest1)
        obtain ch where n: "nxt (jleft j) (lchunk j) = Some (Inr (ch, l1))" "chunk_rep ch lts rows"
          using more(4) [OF c(2)] by blast
        then have card: "cardinality ch = length rows" by (simp add: chunk_rep_def)
        let ?j1 = "j\<lparr>jleft := l1, lchunk := ch, lpos := 0\<rparr>"
        have "join_inv nxt lts lk rk R ?j1 rows rest1"
          using inv m n card more(5) d by (auto simp: join_inv_def batch_rep_def)
        moreover have "refill nxt j = Some (Inr (True, ?j1))" using True d c n(1) card more(2) by (simp add: refill_def)
        moreover have "drop (lpos ?j1) rows @ rest1 = drop (lpos j) lrows @ rest" using True more(1) by simp
        ultimately show ?thesis using m more(2) by (intro disjI2 exI [of _ ?j1] exI [of _ rows] exI [of _ rest1]) simp
      qed
    qed
  qed
qed

lemma AdvanceProbeRow_ok:
  assumes "join_inv nxt lts lk rk R j lrows rest" and "matches j = None"
  shows "(\<exists>j1 lrows1. AdvanceProbeRow nxt lk j = Some (Inr (False, j1)) \<and> join_inv nxt lts lk rk R j1 lrows1 [] \<and>
      pending lk rk R j1 lrows1 [] = [] \<and> pending lk rk R j lrows rest = []) \<or>
    (\<exists>j1 lrows1 rest1 m. AdvanceProbeRow nxt lk j = Some (Inr (True, j1)) \<and> join_inv nxt lts lk rk R j1 lrows1 rest1 \<and>
      matches j1 = Some m \<and> mpos j1 = 0 \<and> m \<noteq> [] \<and> pending lk rk R j1 lrows1 rest1 = pending lk rk R j lrows rest)"
  using assms
proof (induction "length (drop (lpos j) lrows @ rest)" arbitrary: j lrows rest rule: less_induct)
  case less
  have pend: "pending lk rk R j lrows rest = join_rows lk rk (drop (lpos j) lrows @ rest) R"
    using less.prems(2) by (simp add: pending_def)
  from refill_ok [OF less.prems] show ?case
  proof (elim disjE exE conjE)
    fix j1 lrows1
    assume r: "refill nxt j = Some (Inr (False, j1))" "join_inv nxt lts lk rk R j1 lrows1 []" "matches j1 = None"
      "drop (lpos j1) lrows1 = []" "drop (lpos j) lrows @ rest = []"
    have "AdvanceProbeRow nxt lk j = Some (Inr (False, j1))" using r(1) by (subst AdvanceProbeRow.simps) simp
    moreover have "pending lk rk R j1 lrows1 [] = []" using r(3,4) by (simp add: pending_def)
    ultimately show ?thesis using pend r(2,5) by (intro disjI1 exI [of _ j1] exI [of _ lrows1]) simp
  next
    fix j1 lrows1 rest1
    assume r: "refill nxt j = Some (Inr (True, j1))" and inv: "join_inv nxt lts lk rk R j1 lrows1 rest1" and m: "matches j1 = None"
      and l: "lpos j1 < length lrows1" and eq: "drop (lpos j1) lrows1 @ rest1 = drop (lpos j) lrows @ rest"
    let ?l = "lrows1 ! lpos j1"
    have d: "drop (lpos j1) lrows1 = ?l # drop (Suc (lpos j1)) lrows1" using l by (simp add: Cons_nth_drop_Suc)
    have rep: "chunk_rep (lchunk j1) lts lrows1" "lk < length lts" using inv l by (auto simp: join_inv_def batch_rep_def)
    have ix: "index_rep rk R (build_index j1)" "length R \<le> 2 ^ 32" using inv by (auto simp: join_inv_def)
    have key: "bindR (GetVector (lchunk j1) lk) (\<lambda>v. GetValue v (lpos j1)) = Inr (?l ! lk)"
      using chunk_rep_value [OF rep(1) l] chunk_rep_row [OF rep(1) l] rep(2) by simp
    show ?thesis
    proof (cases "if IsNull (?l ! lk) then None else build_index j1 (KeyOf (?l ! lk))")
      case None
      let ?j2 = "j1\<lparr>lpos := lpos j1 + 1\<rparr>"
      have no: "partners lk rk R ?l = []" using index_partners(1) [OF ix None] .
      have inv2: "join_inv nxt lts lk rk R ?j2 lrows1 rest1" using inv m l by (auto simp: join_inv_def)
      have "pending lk rk R ?j2 lrows1 rest1 = join_rows lk rk (drop (lpos j1) lrows1 @ rest1) R" using m no d by (simp add: pending_def)
      then have pend2: "pending lk rk R ?j2 lrows1 rest1 = pending lk rk R j lrows rest" using pend eq by simp
      have "length (drop (lpos ?j2) lrows1 @ rest1) < length (drop (lpos j) lrows @ rest)"
        unfolding eq [symmetric] d by simp
      moreover have "AdvanceProbeRow nxt lk j = AdvanceProbeRow nxt lk ?j2"
        using r key None by (subst AdvanceProbeRow.simps) simp
      moreover have "matches ?j2 = None" using m by simp
      ultimately show ?thesis using less.hyps [of ?j2 lrows1 rest1, OF _ inv2] unfolding pend2 by simp
    next
      case (Some ms)
      note p = index_partners(2) [OF ix Some]
      let ?j2 = "j1\<lparr>matches := Some ms, mpos := 0\<rparr>"
      have "join_inv nxt lts lk rk R ?j2 lrows1 rest1" using inv l p by (auto simp: join_inv_def)
      moreover have "pending lk rk R ?j2 lrows1 rest1 = join_rows lk rk (drop (lpos j1) lrows1 @ rest1) R"
        unfolding d by (simp add: pending_def)
      moreover have "AdvanceProbeRow nxt lk j = Some (Inr (True, ?j2))" using r key Some by (subst AdvanceProbeRow.simps) simp
      ultimately show ?thesis using p pend eq by (intro disjI2 exI [of _ ?j2] exI [of _ lrows1] exI [of _ rest1] exI [of _ ms]) simp
    qed
  qed
qed

lemma current_match_ok:
  assumes inv: "join_inv nxt lts lk rk R j lrows rest"
  shows "(\<exists>j1 lrows1. current_match nxt lk j = Some (Inr (False, j1)) \<and> join_inv nxt lts lk rk R j1 lrows1 [] \<and>
      pending lk rk R j1 lrows1 [] = [] \<and> pending lk rk R j lrows rest = []) \<or>
    (\<exists>j1 lrows1 rest1 m. current_match nxt lk j = Some (Inr (True, j1)) \<and> join_inv nxt lts lk rk R j1 lrows1 rest1 \<and>
      matches j1 = Some m \<and> mpos j1 < length m \<and> pending lk rk R j1 lrows1 rest1 = pending lk rk R j lrows rest)"
proof (cases "matches j")
  case None
  then show ?thesis using AdvanceProbeRow_ok [OF inv None] by (auto simp: current_match_def)
next
  case (Some m)
  show ?thesis
  proof (cases "mpos j < length m")
    case True
    then show ?thesis using Some inv by (auto simp: current_match_def)
  next
    case False
    let ?j = "j\<lparr>lpos := lpos j + 1, matches := None\<rparr>"
    have p: "lpos j < length lrows" "length (partners lk rk R (lrows ! lpos j)) = length m" using inv Some by (auto simp: join_inv_def)
    have "join_inv nxt lts lk rk R ?j lrows rest" using inv p by (auto simp: join_inv_def)
    moreover have "pending lk rk R ?j lrows rest = pending lk rk R j lrows rest" using Some False p by (simp add: pending_def)
    ultimately show ?thesis
      using AdvanceProbeRow_ok [of nxt lts lk rk R ?j lrows rest] Some False by (auto simp: current_match_def)
  qed
qed

section \<open>One output batch\<close>

lemma emit_match_ok:
  assumes inv: "join_inv nxt lts lk rk R j lrows rest" and m: "matches j = Some m" "mpos j < length m"
    and R: "\<forall>r \<in> set R. list_all2 value_fits rts r"
    and out: "cols_rep (columns out) (lts @ rts) acc" "cardinality out = length acc"
    and fit: "rows_fit (lts @ rts) (acc @ [lrows ! lpos j @ R ! unat (m ! mpos j)])"
  shows "\<exists>out'. emit_match (length lts) j out = Inr (out', j\<lparr>mpos := mpos j + 1\<rparr>) \<and>
    chunk_rep out' (lts @ rts) (acc @ [lrows ! lpos j @ R ! unat (m ! mpos j)])"
proof -
  let ?l = "lrows ! lpos j" and ?r = "R ! unat (m ! mpos j)" and ?ts = "lts @ rts"
  have l: "lpos j < length lrows" "build_rows j = R" "unat (m ! mpos j) < length R" using inv m by (auto simp: join_inv_def)
  then have src: "chunk_rep (lchunk j) lts lrows" using inv by (auto simp: join_inv_def batch_rep_def)
  have row: "list_all2 value_fits ?ts (?l @ ?r)" using fit by (simp add: rows_fit_def)
  have len: "length ?l = length lts" "length ?r = length rts" "length (columns out) = length ?ts"
    using chunk_rep_row [OF src l(1)] R l(3) list_all2_lengthD nth_mem cols_rep_types(1) [OF out(1)] by fastforce+
  define g where "g = (\<lambda>c. vec_of (?ts ! c) (map (\<lambda>r. r ! c) (acc @ [?l @ ?r])))"
  have ap: "AppendValue (columns out ! c) ((?l @ ?r) ! c) = Inr (g c)" "vec_rep (g c) (map (\<lambda>r. r ! c) (acc @ [?l @ ?r]))"
    "vtype (columns out ! c) = ?ts ! c" if "c < length ?ts" for c
  proof -
    show v: "vtype (columns out ! c) = ?ts ! c" using cols_rep_types(2) [OF out(1) that] .
    have "vec_rep (columns out ! c) (map (\<lambda>r. r ! c) acc)" using out(1) that by (simp add: cols_rep_def)
    from vec_rep_append [OF this, of "(?l @ ?r) ! c"] show "AppendValue (columns out ! c) ((?l @ ?r) ! c) = Inr (g c)"
      "vec_rep (g c) (map (\<lambda>r. r ! c) (acc @ [?l @ ?r]))"
      using row fit that v by (simp_all add: g_def list_all2_conv_all_nth rows_fit_def del: length_append)
  qed
  have from_left: "bindR (GetVector (lchunk j) c) (\<lambda>w. AppendFrom (columns out ! c) w (lpos j)) = Inr (g c)" if "c < length lts" for c
  proof -
    have "vec_rep (columns (lchunk j) ! c) (map (\<lambda>r. r ! c) lrows)" "vtype (columns (lchunk j) ! c) = lts ! c" "c < length (columns (lchunk j))"
      using src that cols_rep_types [of "columns (lchunk j)" lts lrows] by (auto simp: chunk_rep_def cols_rep_def)
    then show ?thesis
      using AppendFrom_rep [of "columns (lchunk j) ! c" _ "lpos j" "columns out ! c"] ap(1,3) [of c] that l(1) len
      by (simp add: GetVector_def nth_append)
  qed
  let ?k = "length lts" and ?n = "length rts"
  let ?c1 = "map (\<lambda>k. if k < ?k then g k else columns out ! k) [0..<length ?ts]"
  have one: "append_from_row ?k (lchunk j) (lpos j) out = Inr (out\<lparr>columns := ?c1\<rparr>)"
    using upd_all [of ?k 0 out "\<lambda>c v. bindR (GetVector (lchunk j) c) (\<lambda>w. AppendFrom v w (lpos j))" g] from_left len
    by (simp add: append_from_row_def)
  define ch1 where "ch1 = out\<lparr>columns := ?c1\<rparr>"
  have c1: "columns ch1 = ?c1" "length (columns ch1) = length ?ts" "\<And>c. c < ?n \<Longrightarrow> columns ch1 ! (?k + c) = columns out ! (?k + c)"
    by (simp_all add: ch1_def)
  have "(if c < length ?r then AppendValue (columns ch1 ! (?k + c)) (?r ! c) else Inl (Undefined ''row[c]'')) = Inr (g (?k + c))"
    if "c < ?n" for c using ap(1) [of "?k + c"] that len(1,2) c1(3) by (simp add: nth_append)
  then have "append_values ?k (length ?r) ?r ch1 =
    Inr (ch1\<lparr>columns := map (\<lambda>k. if ?k \<le> k \<and> k < ?k + ?n then g (?k + (k - ?k)) else columns ch1 ! k) [0..<length (columns ch1)]\<rparr>)"
    using upd_all [of ?n ?k ch1 "\<lambda>c v. if c < length ?r then AppendValue v (?r ! c) else Inl (Undefined ''row[c]'')" "\<lambda>c. g (?k + c)"]
      len(2) c1(2) by (simp add: append_values_def)
  moreover have "map (\<lambda>k. if ?k \<le> k \<and> k < ?k + ?n then g (?k + (k - ?k)) else columns ch1 ! k) [0..<length (columns ch1)] = map g [0..<length ?ts]"
    by (rule nth_equalityI) (auto simp: c1(1,2) not_le)
  ultimately have two: "append_values ?k (length ?r) ?r ch1 = Inr (out\<lparr>columns := map g [0..<length ?ts]\<rparr>)"
    by (simp add: ch1_def)
  have "cols_rep (map g [0..<length ?ts]) ?ts (acc @ [?l @ ?r])"
  proof -
    have "map vtype (map g [0..<length ?ts]) = ?ts" by (rule nth_equalityI) (simp_all add: g_def)
    then show ?thesis using out(1) len ap(2) by (auto simp: cols_rep_def)
  qed
  then show ?thesis using one two l m out(2) unfolding ch1_def [symmetric]
    by (auto simp: emit_match_def Let_def chunk_rep_def)
qed

lemma join_next_ok:
  assumes "join_inv nxt lts lk rk R j lrows rest" and R: "\<forall>r \<in> set R. list_all2 value_fits rts r"
    and "rows_fit (lts @ rts) (acc @ pending lk rk R j lrows rest)" and "length acc \<le> kVectorSize"
  shows "\<exists>j' lrows' rest'. join_inv nxt lts lk rk R j' lrows' rest' \<and>
    pending lk rk R j' lrows' rest' = drop (kVectorSize - length acc) (pending lk rk R j lrows rest) \<and>
    (\<forall>out. cols_rep (columns out) (lts @ rts) acc \<longrightarrow> cardinality out = length acc \<longrightarrow>
      (\<exists>out'. join_next nxt lk (length lts) j out = Some (Inr (out', j')) \<and>
        chunk_rep out' (lts @ rts) (acc @ take (kVectorSize - length acc) (pending lk rk R j lrows rest))))"
  using assms(1,3,4)
proof (induction "kVectorSize - length acc" arbitrary: j lrows rest acc)
  case 0
  then have "length acc = kVectorSize" by simp
  then show ?case using 0
    by (intro exI [of _ j] exI [of _ lrows] exI [of _ rest]) (auto simp: chunk_rep_def join_next.simps)
next
  case (Suc k)
  have n: "length acc < kVectorSize" using Suc.hyps(2) by simp
  from current_match_ok [OF Suc.prems(1)] show ?case
  proof (elim disjE exE conjE)
    fix j1 lrows1
    assume c: "current_match nxt lk j = Some (Inr (False, j1))" "join_inv nxt lts lk rk R j1 lrows1 []"
      "pending lk rk R j1 lrows1 [] = []" "pending lk rk R j lrows rest = []"
    then show ?thesis using n
      by (intro exI [of _ j1] exI [of _ lrows1] exI [of _ "[]"]) (auto simp: chunk_rep_def join_next.simps)
  next
    fix j1 lrows1 rest1 m
    assume c: "current_match nxt lk j = Some (Inr (True, j1))" "join_inv nxt lts lk rk R j1 lrows1 rest1" "matches j1 = Some m"
      "mpos j1 < length m" "pending lk rk R j1 lrows1 rest1 = pending lk rk R j lrows rest"
    let ?row = "lrows1 ! lpos j1 @ R ! unat (m ! mpos j1)" and ?j2 = "j1\<lparr>mpos := mpos j1 + 1\<rparr>"
    have pm: "partners lk rk R (lrows1 ! lpos j1) = map (\<lambda>i. lrows1 ! lpos j1 @ R ! unat i) m" using c(2,3) by (simp add: join_inv_def)
    have inv2: "join_inv nxt lts lk rk R ?j2 lrows1 rest1" using c(2,3) by (auto simp: join_inv_def)
    have "drop (mpos j1) (partners lk rk R (lrows1 ! lpos j1)) = ?row # drop (Suc (mpos j1)) (partners lk rk R (lrows1 ! lpos j1))"
      using c(4) by (simp add: pm drop_map flip: Cons_nth_drop_Suc)
    then have pend: "pending lk rk R j lrows rest = ?row # pending lk rk R ?j2 lrows1 rest1"
      unfolding c(5) [symmetric] using c(3) by (simp add: pending_def)
    have fit: "rows_fit (lts @ rts) ((acc @ [?row]) @ pending lk rk R ?j2 lrows1 rest1)" using Suc.prems(2) by (simp add: pend)
    have fit1: "rows_fit (lts @ rts) (acc @ [?row])" by (rule rows_fit_subset [OF fit]) simp
    have k: "k = kVectorSize - length (acc @ [?row])" "length (acc @ [?row]) \<le> kVectorSize" using Suc.hyps(2) n by simp_all
    obtain j' lrows' rest' where ih: "join_inv nxt lts lk rk R j' lrows' rest'"
      "pending lk rk R j' lrows' rest' = drop (kVectorSize - length (acc @ [?row])) (pending lk rk R ?j2 lrows1 rest1)"
      "\<And>out. cols_rep (columns out) (lts @ rts) (acc @ [?row]) \<Longrightarrow> cardinality out = length (acc @ [?row]) \<Longrightarrow>
        \<exists>out'. join_next nxt lk (length lts) ?j2 out = Some (Inr (out', j')) \<and>
          chunk_rep out' (lts @ rts) ((acc @ [?row]) @ take (kVectorSize - length (acc @ [?row])) (pending lk rk R ?j2 lrows1 rest1))"
      using Suc.hyps(1) [OF k(1) inv2 fit k(2)] by blast
    have sz: "kVectorSize - length acc = Suc (kVectorSize - length (acc @ [?row]))" using n by simp
    have "\<exists>out'. join_next nxt lk (length lts) j out = Some (Inr (out', j')) \<and>
        chunk_rep out' (lts @ rts) (acc @ take (kVectorSize - length acc) (pending lk rk R j lrows rest))"
      if o: "cols_rep (columns out) (lts @ rts) acc" "cardinality out = length acc" for out
    proof -
      obtain out1 where e: "emit_match (length lts) j1 out = Inr (out1, ?j2)" "chunk_rep out1 (lts @ rts) (acc @ [?row])"
        using emit_match_ok [OF c(2,3,4) R o fit1] by blast
      then have "join_next nxt lk (length lts) j out = join_next nxt lk (length lts) ?j2 out1"
        using c(1) n o(2) by (subst join_next.simps) simp
      then show ?thesis using ih(3) [of out1] e(2) unfolding sz pend by (auto simp: chunk_rep_def)
    qed
    then show ?thesis using ih(1,2) unfolding sz pend by (intro exI [of _ j'] exI [of _ lrows'] exI [of _ rest']) simp
  qed
qed

lemma join_yields:
  assumes "join_inv nxt lts lk rk R j lrows rest" and "\<forall>r \<in> set R. list_all2 value_fits rts r"
    and "rows_fit (lts @ rts) (pending lk rk R j lrows rest)"
  shows "yields (\<lambda>j out. join_next nxt lk (length lts) j (Reset out)) (lts @ rts) j (pending lk rk R j lrows rest)"
  using assms(1,3)
proof (induction "length (pending lk rk R j lrows rest)" arbitrary: j lrows rest rule: less_induct)
  case less
  let ?N = "\<lambda>j out. join_next nxt lk (length lts) j (Reset out)" and ?p = "pending lk rk R j lrows rest"
  obtain j' lrows' rest' where n: "join_inv nxt lts lk rk R j' lrows' rest'" "pending lk rk R j' lrows' rest' = drop kVectorSize ?p"
    "\<And>out. cols_rep (columns out) (lts @ rts) [] \<Longrightarrow> cardinality out = 0 \<Longrightarrow>
      \<exists>out'. join_next nxt lk (length lts) j out = Some (Inr (out', j')) \<and> chunk_rep out' (lts @ rts) (take kVectorSize ?p)"
    using join_next_ok [OF less.prems(1) assms(2), of "[]"] less.prems(2) by auto
  have step: "\<exists>out'. ?N j out = Some (Inr (out', j')) \<and> chunk_rep out' (lts @ rts) (take kVectorSize ?p)" if "typed_out (lts @ rts) out" for out
    using n(3) [OF Reset_rep [OF that]] by (simp add: Reset_def)
  show ?case
  proof (cases "?p = []")
    case True
    have "\<exists>out' s'. ?N j out = Some (Inr (out', s')) \<and> typed_out (lts @ rts) out' \<and> cardinality out' = 0" if t: "typed_out (lts @ rts) out" for out
    proof -
      obtain out' where "?N j out = Some (Inr (out', j'))" "chunk_rep out' (lts @ rts) []" using step [OF t] True by auto
      then show ?thesis using typed_simps(4) by (intro exI [of _ out'] exI [of _ j']) (auto simp: chunk_rep_def)
    qed
    then show ?thesis using True by (simp add: yields.stop)
  next
    case False
    have k: "0 < kVectorSize" by (simp add: kVectorSize_def)
    have "mset (drop kVectorSize ?p) \<subseteq># mset ?p" by (metis append_take_drop_id mset_append mset_subset_eq_add_right)
    then have "rows_fit (lts @ rts) (pending lk rk R j' lrows' rest')" using rows_fit_subset [OF less.prems(2)] n(2) by simp
    then have "yields ?N (lts @ rts) j' (drop kVectorSize ?p)" using less.hyps [OF _ n(1)] n(2) False k by auto
    moreover have "take kVectorSize ?p \<noteq> []" using False k by simp
    ultimately have "yields ?N (lts @ rts) j (take kVectorSize ?p @ drop kVectorSize ?p)"
      using step by (intro yields.more) auto
    then show ?thesis by simp
  qed
qed

lemma HashJoin_rows:
  assumes "produces l (jleft j) L" and "produces r (jright j) R" and "build_rows j = []" and "build_index j = Map.empty"
    and "lk < length (output_types l)" and "rk < length (output_types r)" and "length R \<le> 2 ^ 32"
    and "\<And>s. \<exists>s'. Close r s = Inr s'" and "rows_fit (output_types l @ output_types r) (join_rows lk rk L R)"
  shows "produces (HashJoin l r lk rk) j (join_rows lk rk L R)"
proof -
  let ?lts = "output_types l" and ?rts = "output_types r"
  obtain l1 where l1: "Open l (jleft j) = Some (Inr l1)" "yields (Next l) ?lts l1 L" using assms(1) by (auto simp: produces_def)
  obtain r1 where r1: "Open r (jright j) = Some (Inr r1)" "yields (Next r) ?rts r1 R" using assms(2) by (auto simp: produces_def)
  have R: "\<forall>r \<in> set R. list_all2 value_fits ?rts r" by (rule yields_rows [OF r1(2)])
  obtain r2 where d: "drain (Next r) r1 (Initialize ?rts) [] = Some (Inr (R, r2))"
    using drain_ok [OF r1(2) typed_simps(1), of "[]"] by auto
  obtain r3 where c: "Close r r2 = Inr r3" using assms(8) by blast
  have "index_rep rk [] Map.empty" by (simp add: index_rep_def idx_of_def)
  moreover have "\<forall>r \<in> set R. rk < length r" using R assms(6) list_all2_lengthD by fastforce
  ultimately obtain index where b: "foldR (build_step rk) ([], Map.empty) R = Inr (R, index)" "index_rep rk R index"
    using build_ok [of rk "[]" Map.empty R] by auto
  let ?j = "j\<lparr>jleft := l1, jright := r3, build_rows := R, build_index := index,
         lchunk := Initialize ?lts, lpos := 0, left_done := False, matches := None, mpos := 0\<rparr>"
  have op: "Open (HashJoin l r lk rk) j = Some (Inr ?j)"
    using l1(1) r1(1) d c b(1) assms(3,4) by (simp add: HashJoin_def join_open_def)
  have inv: "join_inv (Next l) ?lts lk rk R ?j [] L"
    using assms(5,7) b(2) l1(2) by (simp add: join_inv_def batch_rep_def Initialize_def typed_out_def Vector_def o_def)
  have pend: "pending lk rk R ?j [] L = join_rows lk rk L R" by (simp add: pending_def)
  have "yields (Next (HashJoin l r lk rk)) (?lts @ ?rts) ?j (join_rows lk rk L R)"
    using join_yields [OF inv R] assms(9) pend by (simp add: HashJoin_def)
  then show ?thesis using op by (auto simp: produces_def HashJoin_def)
qed

text \<open>C22. The hash join of two children produces exactly the pairs of rows whose keys are the same value of the same
  type and not NULL, in probe order and, for each probe row, in build order, whatever the sizes
  of the batches on either side; every call returns.\<close>

theorem HashJoin_produces:
  assumes "produces l (jleft j) L" and "produces r (jright j) R" and "build_rows j = []" and "build_index j = Map.empty"
    and "lk < length (output_types l)" and "rk < length (output_types r)" and "length R \<le> 2 ^ 32"
    and "\<And>s. \<exists>s'. Close r s = Inr s'" and "rows_fit (output_types l @ output_types r) (join_rows lk rk L R)"
  shows "produces (HashJoin l r lk rk) j (join_rows lk rk L R)"
  by (rule HashJoin_rows) (use assms in auto)

theorem HashJoin_produces_witness:
  "produces (HashJoin (list_source [kInt, kVarchar]) (list_source [kInt]) 0 0)
     \<lparr>jleft = [[Int32 1, Str ''a''], [Null, Str ''b''], [Int32 2, Str ''c'']], jright = [[Int32 2], [Int32 1], [Int32 2]],
      build_rows = [], build_index = Map.empty, lchunk = Initialize [], lpos = 0, left_done = False, matches = None, mpos = 0\<rparr>
     [[Int32 1, Str ''a'', Int32 1], [Int32 2, Str ''c'', Int32 2], [Int32 2, Str ''c'', Int32 2]]"
proof -
  let ?L = "[[Int32 1, Str ''a''], [Null, Str ''b''], [Int32 2, Str ''c'']]" and ?R = "[[Int32 2], [Int32 1], [Int32 2]]"
  have l: "produces (list_source [kInt, kVarchar]) ?L ?L" by (rule list_source_produces) (simp add: rows_fit_def less_Suc_eq)
  have r: "produces (list_source [kInt]) ?R ?R" by (rule list_source_produces) (simp add: rows_fit_def)
  have "join_rows 0 0 ?L ?R = [[Int32 1, Str ''a'', Int32 1], [Int32 2, Str ''c'', Int32 2], [Int32 2, Str ''c'', Int32 2]]"
    by (simp add: join_rows_def partners_def)
  then show ?thesis
    using HashJoin_produces [of "list_source [kInt, kVarchar]" "\<lparr>jleft = ?L, jright = ?R,
      build_rows = [], build_index = Map.empty, lchunk = Initialize [], lpos = 0, left_done = False, matches = None, mpos = 0\<rparr>" ?L
      "list_source [kInt]" ?R 0 0] l r
    by (simp add: list_source_def rows_fit_def less_Suc_eq)
qed

text \<open>C36. A join of key columns of different types, for instance \<open>INT\<close> with \<open>BIGINT\<close>, produces no row at all, although
  the comparison operators treat equal numbers of both types as equal.\<close>

theorem HashJoin_mixed_types_empty:
  assumes "produces l (jleft j) L" and "produces r (jright j) R" and "build_rows j = []" and "build_index j = Map.empty"
    and "lk < length (output_types l)" and "rk < length (output_types r)" and "length R \<le> 2 ^ 32"
    and "\<And>s. \<exists>s'. Close r s = Inr s'" and "output_types l ! lk \<noteq> output_types r ! rk"
  shows "produces (HashJoin l r lk rk) j [] \<and> CompareValues (Int32 5) (Int64 5) = Inr kEqual"
proof
  have L: "\<forall>x \<in> set L. value_fits (output_types l ! lk) (x ! lk)" and R: "\<forall>x \<in> set R. value_fits (output_types r ! rk) (x ! rk)"
    using assms(1,2,5,6) yields_rows by (fastforce simp: produces_def list_all2_conv_all_nth)+
  have "partners lk rk R x = []" if x: "x \<in> set L" for x
  proof -
    have "y ! rk \<noteq> x ! lk" if "x ! lk \<noteq> Null" "y \<in> set R" for y
    proof
      assume "y ! rk = x ! lk"
      then have "value_fits (output_types l ! lk) (x ! lk)" "value_fits (output_types r ! rk) (x ! lk)" using L R x that by auto
      then show False using assms(9) that(1) by (cases "x ! lk") auto
    qed
    then show ?thesis by (auto simp: partners_def filter_empty_conv)
  qed
  then have "join_rows lk rk L R = []" by (auto simp: join_rows_def)
  then show "produces (HashJoin l r lk rk) j []"
    using HashJoin_rows [OF assms(1-8)] by (simp add: rows_fit_def)
  show "CompareValues (Int32 5) (Int64 5) = Inr kEqual"
    using CompareValues_ints [of "Int32 5" 5 "Int64 5" 5] by (simp add: order_int_def)
qed

theorem HashJoin_mixed_types_empty_witness:
  "produces (HashJoin (list_source [kInt]) (list_source [kBigInt]) 0 0)
     \<lparr>jleft = [[Int32 5]], jright = [[Int64 5]], build_rows = [], build_index = Map.empty, lchunk = Initialize [], lpos = 0,
      left_done = False, matches = None, mpos = 0\<rparr> [] \<and> CompareValues (Int32 5) (Int64 5) = Inr kEqual"
proof -
  have l: "produces (list_source [kInt]) [[Int32 5]] [[Int32 5]]" by (rule list_source_produces) (simp add: rows_fit_def)
  have r: "produces (list_source [kBigInt]) [[Int64 5]] [[Int64 5]]" by (rule list_source_produces) (simp add: rows_fit_def)
  show ?thesis
    by (rule HashJoin_mixed_types_empty [where L = "[[Int32 5]]" and R = "[[Int64 5]]"]) (use l r in \<open>simp_all add: list_source_def\<close>)
qed

end
