(* ===== verification/Ast.thy ===== *)
theory Ast
  imports Values
begin

text \<open>
  The syntax trees of SQL statements (\<open>sql/ast.h\<close>). A null pointer is \<open>None\<close>; a node that is
  statically a column reference is the pair of its qualifier (empty if there is none) and name.
\<close>

datatype BinOp = kEq | kNe | kLt | kLe | kGt | kGe | kAnd | kOr | kAdd | kSub | kMul | kDiv

datatype AggKind = kCountStar | kCount | kSum | kAvg | kMin | kMax

type_synonym column_ref = "string \<times> string"

datatype Expr =
    ColumnRefExpr column_ref
  | LiteralExpr Value
  | BinaryExpr BinOp Expr Expr
  | NotExpr Expr
  | InExpr Expr "Value list"
  | AggregateExpr AggKind "Expr option"

record ColumnDef =
  cd_name :: string
  cd_type :: ColumnType
  cd_varchar_len :: u16

record TableRef =
  tr_name :: string
  tr_alias :: string

record SelectItem =
  item_expr :: Expr
  output_alias :: string

record order_by =
  ob_output_name :: string
  descending :: bool

record select =
  select_star :: bool
  items :: "SelectItem list"
  tables :: "TableRef list"
  where_clause :: "Expr option"
  group_by :: "column_ref list"
  having :: "Expr option"
  order_by_clause :: "order_by option"
  limit_clause :: "nat option"

datatype Statement =
    CreateTableStmt string "ColumnDef list"
  | DropTableStmt string
  | TruncateStmt string
  | InsertStmt string "Value list list"
  | SelectStmt select

fun is_aggregate :: "Expr \<Rightarrow> bool" where
  "is_aggregate (AggregateExpr k e) = True"
| "is_aggregate _ = False"

definition HasAggregates :: "select \<Rightarrow> bool" where
  "HasAggregates s = list_ex (\<lambda>it. is_aggregate (item_expr it)) (items s)"

end
