(* ===== verification/Hash_Aggregate.thy ===== *)
theory Hash_Aggregate
  imports Operators Ast
begin

text \<open>
  Hash aggregation (\<open>execution/hash_aggregate.cpp\<close>): accumulators, group keys, the parallel
  build with one table of groups per worker, and the merge of the tables. Which worker takes
  which batch is up to the scheduler and is an argument of the model.
\<close>

section \<open>Aggregates\<close>

record AggSpec =
  agg_kind :: AggKind
  input_expr :: "BoundExpr option"
  input_type :: ColumnType
  output_type :: ColumnType
  output_name :: string

record Acc =
  count :: "64 word"
  nonnull :: "64 word"
  isum :: "64 word"
  dsum :: double
  minv :: Value
  maxv :: Value

definition new_acc :: Acc where
  "new_acc = \<lparr>count = 0, nonnull = 0, isum = 0, dsum = 0, minv = Null, maxv = Null\<rparr>"

record GroupState =
  group_key :: "Value list"
  accs :: "Acc list"

text \<open>Addition of \<open>int64_t\<close>, undefined when it overflows.\<close>

definition add_i64 :: "64 word \<Rightarrow> 64 word \<Rightarrow> 64 word result" where
  "add_i64 a b = i64_result (sint a + sint b)"

fun key_part :: "Value \<Rightarrow> string" where
  "key_part Null = [char_of (0 :: nat)]"
| "key_part (Int32 x) = char_of (1 :: nat) # string_of_bytes (PutPod x)"
| "key_part (Int64 x) = char_of (1 :: nat) # string_of_bytes (PutPod x)"
| "key_part (Dbl x) = char_of (1 :: nat) # string_of_bytes (PutPod x)"
| "key_part (Str s) = [char_of (1 :: nat), char_of (2 :: nat)] @ s @ [char_of (3 :: nat)]"

definition KeyString :: "Value list \<Rightarrow> string" where
  "KeyString key = concat (map key_part key)"

definition AsDoubleVal :: "Value \<Rightarrow> double result" where
  "AsDoubleVal v = AsDouble v"

definition AsI64Val :: "Value \<Rightarrow> 64 word result" where
  "AsI64Val v = AsI64 v"

section \<open>Accumulating\<close>

definition take_min :: "Value \<Rightarrow> Value \<Rightarrow> Value result" where
  "take_min v m = (if IsNull m then Inr v else bindR (CompareValues v m) (\<lambda>o'. Inr (if o' = kLess then v else m)))"

definition take_max :: "Value \<Rightarrow> Value \<Rightarrow> Value result" where
  "take_max v m = (if IsNull m then Inr v else bindR (CompareValues v m) (\<lambda>o'. Inr (if o' = kGreater then v else m)))"

definition update_value :: "AggSpec \<Rightarrow> Acc \<Rightarrow> Value \<Rightarrow> Acc result" where
  "update_value spec acc v =
     (case agg_kind spec of
        kSum \<Rightarrow>
          if input_type spec = kFloat
          then bindR (AsDoubleVal v) (\<lambda>x. Inr (acc\<lparr>dsum := d_add (dsum acc) x\<rparr>))
          else bindR (AsI64Val v) (\<lambda>x. bindR (add_i64 (isum acc) x) (\<lambda>s. Inr (acc\<lparr>isum := s\<rparr>)))
      | kAvg \<Rightarrow> bindR (AsDoubleVal v) (\<lambda>x. Inr (acc\<lparr>dsum := d_add (dsum acc) x\<rparr>))
      | kMin \<Rightarrow> bindR (take_min v (minv acc)) (\<lambda>m. Inr (acc\<lparr>minv := m\<rparr>))
      | kMax \<Rightarrow> bindR (take_max v (maxv acc)) (\<lambda>m. Inr (acc\<lparr>maxv := m\<rparr>))
      | _ \<Rightarrow> Inr acc)"

text \<open>The body of the loop of \<open>UpdateGroup\<close> for one aggregate, given how its argument is evaluated.\<close>

definition update_acc :: "(BoundExpr \<Rightarrow> Value result) \<Rightarrow> AggSpec \<Rightarrow> Acc \<Rightarrow> Acc result" where
  "update_acc ev spec acc =
     (if agg_kind spec = kCountStar then bindR (add_i64 (count acc) 1) (\<lambda>n. Inr (acc\<lparr>count := n\<rparr>))
      else case input_expr spec of
          None \<Rightarrow> Inl (Undefined ''*spec.input_expr'')
        | Some e \<Rightarrow> bindR (ev e) (\<lambda>v.
            if IsNull v then Inr acc
            else bindR (add_i64 (nonnull acc) 1) (\<lambda>n. update_value spec (acc\<lparr>nonnull := n\<rparr>) v)))"

fun map2R :: "('a \<Rightarrow> 'b \<Rightarrow> 'c result) \<Rightarrow> 'a list \<Rightarrow> 'b list \<Rightarrow> 'c list result" where
  "map2R f (x # xs) (y # ys) = bindR (f x y) (\<lambda>z. bindR (map2R f xs ys) (\<lambda>zs. Inr (z # zs)))"
| "map2R f [] ys = Inr []"
| "map2R f (x # xs) [] = Inl (Undefined ''accs[ai]'')"

definition UpdateGroup :: "AggSpec list \<Rightarrow> GroupState \<Rightarrow> chunk \<Rightarrow> nat \<Rightarrow> GroupState result" where
  "UpdateGroup aggs g ch row =
     bindR (map2R (update_acc (\<lambda>e. EvalExprRow e ch row)) aggs (accs g)) (\<lambda>as. Inr (g\<lparr>accs := as\<rparr>))"

type_synonym partial = "GroupState list \<times> (string \<rightharpoonup> nat)"

definition ProcessRow :: "nat list \<Rightarrow> AggSpec list \<Rightarrow> chunk \<Rightarrow> partial \<Rightarrow> nat \<Rightarrow> partial result" where
  "ProcessRow group_indices aggs ch = (\<lambda>(groups, index) row.
     bindR (mapR (\<lambda>gi. bindR (GetVector ch gi) (\<lambda>v. GetValue v row)) group_indices) (\<lambda>key.
       let ks = KeyString key;
           (gidx, groups1, index1) =
             (case index ks of
                None \<Rightarrow> (length groups, groups @ [\<lparr>group_key = key, accs = replicate (length aggs) new_acc\<rparr>], index(ks \<mapsto> length groups))
              | Some i \<Rightarrow> (i, groups, index)) in
       if gidx < length groups1 then
         bindR (UpdateGroup aggs (groups1 ! gidx) ch row) (\<lambda>g. Inr (groups1[gidx := g], index1))
       else Inl (Undefined ''groups[gidx]'')))"

section \<open>Merging\<close>

definition MergeAcc :: "Acc \<Rightarrow> Acc \<Rightarrow> Acc result" where
  "MergeAcc dst src =
     bindR (add_i64 (count dst) (count src)) (\<lambda>c.
     bindR (add_i64 (nonnull dst) (nonnull src)) (\<lambda>n.
     bindR (add_i64 (isum dst) (isum src)) (\<lambda>i.
     bindR (if IsNull (minv src) then Inr (minv dst) else take_min (minv src) (minv dst)) (\<lambda>mn.
     bindR (if IsNull (maxv src) then Inr (maxv dst) else take_max (maxv src) (maxv dst)) (\<lambda>mx.
     Inr \<lparr>count = c, nonnull = n, isum = i, dsum = d_add (dsum dst) (dsum src), minv = mn, maxv = mx\<rparr>)))))"

definition merge_group :: "AggSpec list \<Rightarrow> partial \<Rightarrow> GroupState \<Rightarrow> partial result" where
  "merge_group aggs = (\<lambda>(groups, index) g.
     let ks = KeyString (group_key g) in
     case index ks of
       None \<Rightarrow> Inr (groups @ [g], index(ks \<mapsto> length groups))
     | Some i \<Rightarrow>
         if i < length groups then
           bindR (map2R MergeAcc (accs (groups ! i)) (accs g)) (\<lambda>as. Inr (groups[i := (groups ! i)\<lparr>accs := as\<rparr>], index))
         else Inl (Undefined ''groups_[it->second]''))"

definition Finalize :: "AggSpec \<Rightarrow> Acc \<Rightarrow> Value" where
  "Finalize spec a =
     (case agg_kind spec of
        kCountStar \<Rightarrow> Int64 (count a)
      | kCount \<Rightarrow> Int64 (nonnull a)
      | kSum \<Rightarrow> if nonnull a = 0 then Null else if input_type spec = kFloat then Dbl (dsum a) else Int64 (isum a)
      | kAvg \<Rightarrow> if nonnull a = 0 then Null else Dbl (d_div (dsum a) (double_of_int (sint (nonnull a))))
      | kMin \<Rightarrow> minv a
      | kMax \<Rightarrow> maxv a)"

section \<open>The operator\<close>

text \<open>
  One worker: it folds the rows of the batches it takes into a table of its own. An exception
  inside a worker leaves the thread function, which ends the process.
\<close>

definition run_worker :: "nat list \<Rightarrow> AggSpec list \<Rightarrow> chunk list \<Rightarrow> nat list \<Rightarrow> partial result" where
  "run_worker group_indices aggs inputs taken =
     (case foldR (\<lambda>pr ci. foldR (ProcessRow group_indices aggs (inputs ! ci)) pr [0..<cardinality (inputs ! ci)]) ([], Map.empty) taken of
        Inl e \<Rightarrow> Inl Terminate
      | Inr pr \<Rightarrow> Inr pr)"

text \<open>The batches of the child, each pulled into a fresh one.\<close>

partial_function (option) drain_chunks :: "'s next_fun \<Rightarrow> ColumnType list \<Rightarrow> 's \<Rightarrow> chunk list \<Rightarrow> (chunk list \<times> 's) result option" where
  "drain_chunks nxt ts s inputs =
     bindO (nxt s (Initialize ts)) (\<lambda>(ch, s').
       if cardinality ch = 0 then Some (Inr (inputs, s'))
       else drain_chunks nxt ts s' (inputs @ [ch]))"

text \<open>
  A schedule gives for every worker the batches it takes from the shared cursor, in increasing
  order; together the workers take every batch once. \<open>sched n\<close> is the one that happens for \<open>n\<close>
  batches.
\<close>

definition valid_schedule :: "(nat \<Rightarrow> nat list list) \<Rightarrow> bool" where
  "valid_schedule sched \<longleftrightarrow> (\<forall>n. mset (concat (sched n)) = mset [0..<n] \<and> (\<forall>w \<in> set (sched n). sorted_wrt (<) w))"

definition build_groups :: "nat list \<Rightarrow> AggSpec list \<Rightarrow> nat list list \<Rightarrow> chunk list \<Rightarrow> partial \<Rightarrow> partial result" where
  "build_groups group_indices aggs sched inputs init =
     (if inputs = [] then Inr init
      else bindR (mapR (run_worker group_indices aggs inputs) sched) (\<lambda>partials.
        foldR (\<lambda>acc (groups, index). foldR (merge_group aggs) acc groups) init partials))"

record 's agg_state =
  agg_child :: 's
  agg_groups :: "GroupState list"
  agg_index :: "string \<rightharpoonup> nat"
  agg_cursor :: nat

definition agg_open :: "'s Operator \<Rightarrow> nat list \<Rightarrow> AggSpec list \<Rightarrow> (nat \<Rightarrow> nat list list) \<Rightarrow> 's agg_state \<Rightarrow> 's agg_state result option" where
  "agg_open child group_indices aggs sched a =
     bindO (Open child (agg_child a)) (\<lambda>s1.
     bindO (drain_chunks (Next child) (output_types child) s1 []) (\<lambda>(inputs, s2).
     bindO (Some (build_groups group_indices aggs (sched (length inputs)) inputs (agg_groups a, agg_index a))) (\<lambda>(groups, index).
       let groups1 = (if group_indices = [] \<and> groups = [] then [\<lparr>group_key = [], accs = replicate (length aggs) new_acc\<rparr>] else groups) in
       Some (Inr (a\<lparr>agg_child := s2, agg_groups := groups1, agg_index := index, agg_cursor := 0\<rparr>)))))"

definition group_row :: "AggSpec list \<Rightarrow> GroupState \<Rightarrow> Value list" where
  "group_row aggs g = group_key g @ map2 Finalize aggs (accs g)"

definition HashAggregate :: "'s Operator \<Rightarrow> nat list \<Rightarrow> string list \<Rightarrow> ColumnType list \<Rightarrow> AggSpec list \<Rightarrow> (nat \<Rightarrow> nat list list) \<Rightarrow> 's agg_state Operator" where
  "HashAggregate child group_indices group_names group_types aggs sched = \<lparr>
     output_names = take (length group_indices) group_names @ map output_name aggs,
     output_types = take (length group_indices) group_types @ map output_type aggs,
     Open = agg_open child group_indices aggs sched,
     Next = (\<lambda>a out. bindO (Some (emit_rows (\<lambda>out row. length row) (map (group_row aggs) (agg_groups a)) (agg_cursor a) (Reset out)))
       (\<lambda>(out', cursor). Some (Inr (out', a\<lparr>agg_cursor := cursor\<rparr>)))),
     Close = (\<lambda>a. bindR (Close child (agg_child a)) (\<lambda>s'. Inr (a\<lparr>agg_child := s', agg_groups := [], agg_index := Map.empty\<rparr>)))\<rparr>"

section \<open>What an accumulator holds\<close>

text \<open>The arguments of an aggregate that are not NULL, over a list of rows.\<close>

definition arg_of :: "AggSpec \<Rightarrow> Value list \<Rightarrow> Value" where
  "arg_of spec r = (case input_expr spec of None \<Rightarrow> Null | Some e \<Rightarrow> (case eval_row e r of Inr v \<Rightarrow> v | Inl _ \<Rightarrow> Null))"

definition arg_values :: "AggSpec \<Rightarrow> Value list list \<Rightarrow> Value list" where
  "arg_values spec rows = filter (\<lambda>v. v \<noteq> Null) (map (arg_of spec) rows)"

definition int_val :: "Value \<Rightarrow> int" where
  "int_val v = (case int_of_value v of Some x \<Rightarrow> x | None \<Rightarrow> 0)"

definition is_min :: "Value list \<Rightarrow> Value \<Rightarrow> bool" where
  "is_min vs m \<longleftrightarrow> (if vs = [] then m = Null else m \<in> set vs \<and> (\<forall>v \<in> set vs. \<not> cmp_less v m))"

definition is_max :: "Value list \<Rightarrow> Value \<Rightarrow> bool" where
  "is_max vs m \<longleftrightarrow> (if vs = [] then m = Null else m \<in> set vs \<and> (\<forall>v \<in> set vs. \<not> cmp_less m v))"

definition acc_rep :: "AggSpec \<Rightarrow> Value list list \<Rightarrow> Acc \<Rightarrow> bool" where
  "acc_rep spec rows a \<longleftrightarrow>
     sint (count a) = (if agg_kind spec = kCountStar then int (length rows) else 0) \<and>
     sint (nonnull a) = (if agg_kind spec = kCountStar then 0 else int (length (arg_values spec rows))) \<and>
     sint (isum a) = (if agg_kind spec = kSum then sum_list (map int_val (arg_values spec rows)) else 0) \<and>
     dsum a = 0 \<and>
     is_min (if agg_kind spec = kMin then arg_values spec rows else []) (minv a) \<and>
     is_max (if agg_kind spec = kMax then arg_values spec rows else []) (maxv a)"

text \<open>
  The aggregates whose result does not depend on the order of the rows: counts, integer sums
  that cannot overflow in any order, minima and maxima of integers and strings.
\<close>

definition spec_ok :: "AggSpec \<Rightarrow> Value list list \<Rightarrow> bool" where
  "spec_ok spec rows \<longleftrightarrow> length rows < 2 ^ 63 \<and>
     (agg_kind spec \<noteq> kCountStar \<longrightarrow>
        (\<exists>e. input_expr spec = Some e \<and> (\<forall>r \<in> set rows. \<exists>v. eval_row e r = Inr v \<and> value_fits (input_type spec) v))) \<and>
     agg_kind spec \<noteq> kAvg \<and>
     (agg_kind spec = kSum \<longrightarrow> input_type spec \<in> {kInt, kBigInt} \<and> sum_list (map (\<lambda>v. \<bar>int_val v\<bar>) (arg_values spec rows)) < 2 ^ 63) \<and>
     (agg_kind spec \<in> {kMin, kMax} \<longrightarrow> input_type spec \<noteq> kFloat)"

lemma arg_values_simps [simp]:
  "arg_values spec [] = []" "arg_values spec (xs @ ys) = arg_values spec xs @ arg_values spec ys"
  "arg_values spec (r # xs) = (if arg_of spec r = Null then [] else [arg_of spec r]) @ arg_values spec xs"
  by (simp_all add: arg_values_def)

lemma i64_result_ok: "- (2 ^ 63) \<le> x \<Longrightarrow> x < 2 ^ 63 \<Longrightarrow> \<exists>c. i64_result x = Inr c \<and> sint c = x"
  by (simp add: i64_result_def signed_of_int signed_take_bit_int_eq_self)

lemma add_i64_ok: "- (2 ^ 63) \<le> sint a + sint b \<Longrightarrow> sint a + sint b < 2 ^ 63 \<Longrightarrow> \<exists>c. add_i64 a b = Inr c \<and> sint c = sint a + sint b"
  unfolding add_i64_def by (rule i64_result_ok)

lemma d_add_zero: "d_add 0 0 = 0"
  by (simp add: d_add_def is_nan_def is_inf_def d_magnitude_def d_units_def d_sig_def with_sign_def d_sign_def Let_def)

lemma sum_abs_bound: "\<bar>sum_list (map f xs)\<bar> \<le> sum_list (map (\<lambda>v. \<bar>f v\<bar> :: int) xs)"
  by (induction xs) auto

lemma sum_abs_nonneg: "0 \<le> sum_list (map (\<lambda>v. \<bar>f v\<bar> :: int) xs)"
  by (induction xs) auto

lemma AsI64Val_int:
  assumes "value_fits t v" "v \<noteq> Null" "t \<in> {kInt, kBigInt}"
  shows "\<exists>x. AsI64Val v = Inr x \<and> sint x = int_val v"
proof -
  have "sint (scast i :: 64 word) = sint i" for i :: "32 word"
    using sint_bounds(1,2) [of i] by (simp add: signed_scast_eq signed_take_bit_int_eq_self)
  then show ?thesis using assms by (cases v) (auto simp: AsI64Val_def int_val_def)
qed

text \<open>Running minima and maxima over one type with a total order.\<close>

definition ordered_vals :: "ColumnType \<Rightarrow> Value list \<Rightarrow> bool" where
  "ordered_vals t vs \<longleftrightarrow> t \<noteq> kFloat \<and> (\<forall>v \<in> set vs. value_fits t v \<and> v \<noteq> Null)"

lemma ordered_cmp:
  assumes "ordered_vals t vs" "x \<in> set vs" "y \<in> set vs" "z \<in> set vs"
  shows "\<not> cmp_less x x" "cmp_less x y \<Longrightarrow> cmp_less y z \<Longrightarrow> cmp_less x z" "cmp_less x z \<Longrightarrow> cmp_less x y \<or> cmp_less y z"
    "\<not> cmp_less x y \<Longrightarrow> \<not> cmp_less y x \<Longrightarrow> x = y"
    "CompareValues x y = Inr (if cmp_less x y then kLess else if cmp_less y x then kGreater else kEqual)"
proof -
  have v: "value_fits t x" "value_fits t y" "value_fits t z" "x \<noteq> Null" "y \<noteq> Null" "z \<noteq> Null" "t \<noteq> kFloat"
    using assms by (auto simp: ordered_vals_def)
  then have nn: "\<not> is_nan_value x" "\<not> is_nan_value y" "\<not> is_nan_value z" by (cases x; cases y; cases z; simp)+
  note o = cmp_less_order [OF v(1-6) nn]
  show "\<not> cmp_less x x" "cmp_less x y \<Longrightarrow> cmp_less y z \<Longrightarrow> cmp_less x z" "cmp_less x z \<Longrightarrow> cmp_less x y \<or> cmp_less y z"
    using o by blast+
  show "CompareValues x y = Inr (if cmp_less x y then kLess else if cmp_less y x then kGreater else kEqual)"
    by (rule CompareValues_typed [OF v(1,2,4,5)])
  show "\<not> cmp_less x y \<Longrightarrow> \<not> cmp_less y x \<Longrightarrow> x = y"
    using value_fits_nonnull [OF v(1,4)] value_fits_nonnull [OF v(2,5)] v(7)
    by (cases t) (auto simp: not_less intro: signed_word_eqI)
qed

lemma take_min_ok:
  assumes vs: "ordered_vals t (vs @ ws)" and m: "is_min vs m" and n: "is_min ws n" and ne: "ws \<noteq> []"
  shows "\<exists>k. take_min n m = Inr k \<and> is_min (vs @ ws) k"
proof (cases "vs = []")
  case True
  then show ?thesis using m n by (simp add: take_min_def is_min_def)
next
  case False
  have in_set: "m \<in> set (vs @ ws)" "n \<in> set (vs @ ws)" "m \<noteq> Null" using m n False ne vs by (auto simp: is_min_def ordered_vals_def)
  have low: "\<forall>v \<in> set vs. \<not> cmp_less v m" "\<forall>v \<in> set ws. \<not> cmp_less v n" using m n False ne by (auto simp: is_min_def)
  note o = ordered_cmp [OF vs]
  show ?thesis
  proof (cases "cmp_less n m")
    case True
    have "\<not> cmp_less v n" if "v \<in> set vs" for v using o(2) [of v n m] in_set that low(1) True by auto
    then show ?thesis using True o(5) [OF in_set(2,1,1)] in_set n ne False low(2) by (auto simp: take_min_def is_min_def IsNull_def)
  next
    case False
    have "\<not> cmp_less v m" if "v \<in> set ws" for v using o(3) [of v n m] in_set that low(2) False by auto
    then show ?thesis using False o(5) [OF in_set(2,1,1)] in_set m \<open>vs \<noteq> []\<close> low(1) by (auto simp: take_min_def is_min_def IsNull_def)
  qed
qed

lemma take_max_ok:
  assumes vs: "ordered_vals t (vs @ ws)" and m: "is_max vs m" and n: "is_max ws n" and ne: "ws \<noteq> []"
  shows "\<exists>k. take_max n m = Inr k \<and> is_max (vs @ ws) k"
proof (cases "vs = []")
  case True
  then show ?thesis using m n by (simp add: take_max_def is_max_def)
next
  case False
  have in_set: "m \<in> set (vs @ ws)" "n \<in> set (vs @ ws)" "m \<noteq> Null" using m n False ne vs by (auto simp: is_max_def ordered_vals_def)
  have hi: "\<forall>v \<in> set vs. \<not> cmp_less m v" "\<forall>v \<in> set ws. \<not> cmp_less n v" using m n False ne by (auto simp: is_max_def)
  note o = ordered_cmp [OF vs]
  have asym: "\<not> (cmp_less n m \<and> cmp_less m n)" using o(1,2) in_set by blast
  show ?thesis
  proof (cases "cmp_less m n")
    case True
    have "\<not> cmp_less n v" if "v \<in> set vs" for v using o(2) [of m n v] in_set that hi(1) True by auto
    then show ?thesis using True asym o(5) [OF in_set(2,1,1)] in_set n ne False hi(2) by (auto simp: take_max_def is_max_def IsNull_def)
  next
    case False
    have "\<not> cmp_less m v" if "v \<in> set ws" for v using o(3) [of m n v] in_set that hi(2) False by auto
    then show ?thesis using False o(5) [OF in_set(2,1,1)] in_set m \<open>vs \<noteq> []\<close> hi(1) by (auto simp: take_max_def is_max_def IsNull_def)
  qed
qed

section \<open>Updating and merging accumulators\<close>

lemma acc_rep_new: "acc_rep spec [] new_acc"
  by (simp add: acc_rep_def new_acc_def is_min_def is_max_def)

lemma spec_ok_subset:
  assumes ok: "spec_ok spec all" and sub: "mset rows \<subseteq># mset all"
  shows "spec_ok spec rows"
proof -
  have set: "set rows \<subseteq> set all" using set_mset_mono [OF sub] by simp
  have len: "length rows \<le> length all" using size_mset_mono [OF sub] by simp
  have sum: "sum_list (map (\<lambda>v. \<bar>int_val v\<bar>) (arg_values spec xs)) = (\<Sum>r \<in># mset xs. if arg_of spec r = Null then 0 else \<bar>int_val (arg_of spec r)\<bar>)" for xs
    by (induction xs) auto
  have nonneg: "0 \<le> (\<Sum>r \<in># M. if arg_of spec r = Null then 0 else \<bar>int_val (arg_of spec r)\<bar>)" for M
    by (induction M) auto
  obtain M where "mset all = mset rows + M" using sub by (auto simp: mset_subset_eq_exists_conv)
  then have "sum_list (map (\<lambda>v. \<bar>int_val v\<bar>) (arg_values spec rows)) \<le> sum_list (map (\<lambda>v. \<bar>int_val v\<bar>) (arg_values spec all))"
    unfolding sum using nonneg by simp
  note le = this
  show ?thesis
    unfolding spec_ok_def
  proof (intro conjI impI)
    show "length rows < 2 ^ 63" using ok len by (simp add: spec_ok_def)
    show "\<exists>e. input_expr spec = Some e \<and> (\<forall>r \<in> set rows. \<exists>v. eval_row e r = Inr v \<and> value_fits (input_type spec) v)"
      if "agg_kind spec \<noteq> kCountStar" using ok set that unfolding spec_ok_def by (meson subsetD)
    show "sum_list (map (\<lambda>v. \<bar>int_val v\<bar>) (arg_values spec rows)) < 2 ^ 63" if "agg_kind spec = kSum"
      using ok le that by (simp add: spec_ok_def)
  qed (use ok in \<open>auto simp: spec_ok_def\<close>)
qed

lemma is_min_set: "set vs = set ws \<Longrightarrow> is_min vs = is_min ws"
  by (cases "vs = []") (auto simp: is_min_def fun_eq_iff)

lemma is_max_set: "set vs = set ws \<Longrightarrow> is_max vs = is_max ws"
  by (cases "vs = []") (auto simp: is_max_def fun_eq_iff)

lemma acc_rep_mset:
  assumes "mset rows = mset rows'" and "acc_rep spec rows a"
  shows "acc_rep spec rows' a"
proof -
  have m: "mset (arg_values spec rows) = mset (arg_values spec rows')" using assms(1) by (simp add: arg_values_def)
  then have "length (arg_values spec rows) = length (arg_values spec rows')"
    "sum_list (map int_val (arg_values spec rows)) = sum_list (map int_val (arg_values spec rows'))"
    "is_min (arg_values spec rows) = is_min (arg_values spec rows')" "is_max (arg_values spec rows) = is_max (arg_values spec rows')"
    by (metis size_mset, metis mset_map sum_mset_sum_list, metis is_min_set set_mset_mset, metis is_max_set set_mset_mset)
  then show ?thesis using assms(2) mset_eq_length [OF assms(1)] by (cases "agg_kind spec") (simp_all add: acc_rep_def)
qed

lemma args_typed:
  assumes "spec_ok spec rows" "agg_kind spec \<noteq> kCountStar"
  shows "\<forall>v \<in> set (arg_values spec rows). value_fits (input_type spec) v \<and> v \<noteq> Null"
    and "r \<in> set rows \<Longrightarrow> \<exists>e. input_expr spec = Some e \<and> eval_row e r = Inr (arg_of spec r)"
  using assms by (auto simp: spec_ok_def arg_values_def arg_of_def split: option.splits sum.splits)

lemma args_ordered: "spec_ok spec rows \<Longrightarrow> agg_kind spec \<in> {kMin, kMax} \<Longrightarrow> ordered_vals (input_type spec) (arg_values spec rows)"
  using args_typed(1) [of spec rows] by (auto simp: ordered_vals_def spec_ok_def)

lemma length_arg_values: "length (arg_values spec rows) \<le> length rows"
  unfolding arg_values_def by (metis length_filter_le length_map)

lemma MergeAcc_ok:
  assumes ok: "spec_ok spec (xs @ ys)" and a: "acc_rep spec xs a" and b: "acc_rep spec ys b"
  shows "\<exists>c. MergeAcc a b = Inr c \<and> acc_rep spec (xs @ ys) c"
proof -
  let ?k = "agg_kind spec" and ?vx = "arg_values spec xs" and ?vy = "arg_values spec ys"
  have len: "length xs + length ys < 2 ^ 63" using ok by (simp add: spec_ok_def)
  have "\<exists>c. add_i64 (count a) (count b) = Inr c \<and> sint c = sint (count a) + sint (count b)"
    using a b len by (intro add_i64_ok) (auto simp: acc_rep_def)
  then obtain c where c: "add_i64 (count a) (count b) = Inr c" "sint c = sint (count a) + sint (count b)" by blast
  have "\<exists>c. add_i64 (nonnull a) (nonnull b) = Inr c \<and> sint c = sint (nonnull a) + sint (nonnull b)"
    using a b len length_arg_values [of spec xs] length_arg_values [of spec ys] by (intro add_i64_ok) (auto simp: acc_rep_def)
  then obtain n where n: "add_i64 (nonnull a) (nonnull b) = Inr n" "sint n = sint (nonnull a) + sint (nonnull b)" by blast
  have "\<exists>c. add_i64 (isum a) (isum b) = Inr c \<and> sint c = sint (isum a) + sint (isum b)"
  proof (intro add_i64_ok)
    have "\<bar>sum_list (map int_val (?vx @ ?vy))\<bar> < 2 ^ 63" if "?k = kSum"
      using ok that sum_abs_bound [of int_val "?vx @ ?vy"] by (auto simp: spec_ok_def)
    then have "\<bar>sint (isum a) + sint (isum b)\<bar> < 2 ^ 63" using a b by (cases "?k = kSum") (auto simp: acc_rep_def)
    then show "- (2 ^ 63) \<le> sint (isum a) + sint (isum b)" "sint (isum a) + sint (isum b) < 2 ^ 63" by auto
  qed
  then obtain s where s: "add_i64 (isum a) (isum b) = Inr s" "sint s = sint (isum a) + sint (isum b)" by blast
  let ?mx = "if ?k = kMin then ?vx else []" and ?my = "if ?k = kMin then ?vy else []"
  have "\<exists>m. (if IsNull (minv b) then Inr (minv a) else take_min (minv b) (minv a)) = Inr m \<and> is_min (?mx @ ?my) m"
  proof (cases "?my = []")
    case True
    then show ?thesis using a b by (auto simp: acc_rep_def is_min_def IsNull_def split: if_splits)
  next
    case False
    then have "ordered_vals (input_type spec) (?mx @ ?my)" using args_ordered [OF ok] by auto
    moreover have "minv b \<noteq> Null" using False b args_ordered [OF ok] by (auto simp: acc_rep_def is_min_def ordered_vals_def split: if_splits)
    ultimately show ?thesis using take_min_ok [of "input_type spec" ?mx ?my "minv a" "minv b"] a b False by (simp add: acc_rep_def IsNull_def)
  qed
  then obtain mn where mn: "(if IsNull (minv b) then Inr (minv a) else take_min (minv b) (minv a)) = Inr mn" "is_min (?mx @ ?my) mn" by blast
  let ?nx = "if ?k = kMax then ?vx else []" and ?ny = "if ?k = kMax then ?vy else []"
  have "\<exists>m. (if IsNull (maxv b) then Inr (maxv a) else take_max (maxv b) (maxv a)) = Inr m \<and> is_max (?nx @ ?ny) m"
  proof (cases "?ny = []")
    case True
    then show ?thesis using a b by (auto simp: acc_rep_def is_max_def IsNull_def split: if_splits)
  next
    case False
    then have "ordered_vals (input_type spec) (?nx @ ?ny)" using args_ordered [OF ok] by auto
    moreover have "maxv b \<noteq> Null" using False b args_ordered [OF ok] by (auto simp: acc_rep_def is_max_def ordered_vals_def split: if_splits)
    ultimately show ?thesis using take_max_ok [of "input_type spec" ?nx ?ny "maxv a" "maxv b"] a b False by (simp add: acc_rep_def IsNull_def)
  qed
  then obtain mx where mx: "(if IsNull (maxv b) then Inr (maxv a) else take_max (maxv b) (maxv a)) = Inr mx" "is_max (?nx @ ?ny) mx" by blast
  let ?c = "\<lparr>count = c, nonnull = n, isum = s, dsum = d_add (dsum a) (dsum b), minv = mn, maxv = mx\<rparr>"
  have "MergeAcc a b = Inr ?c" using c(1) n(1) s(1) mn(1) mx(1) by (simp add: MergeAcc_def)
  moreover have "acc_rep spec (xs @ ys) ?c"
    using a b c(2) n(2) s(2) mn(2) mx(2) d_add_zero by (auto simp: acc_rep_def)
  ultimately show ?thesis by blast
qed

lemma update_acc_ok:
  assumes ok: "spec_ok spec (xs @ [r])" and a: "acc_rep spec xs a"
  shows "\<exists>c. update_acc (\<lambda>e. eval_row e r) spec a = Inr c \<and> acc_rep spec (xs @ [r]) c"
proof (cases "agg_kind spec = kCountStar")
  case True
  have "\<exists>c. add_i64 (count a) 1 = Inr c \<and> sint c = sint (count a) + sint (1 :: 64 word)"
    using a ok True by (intro add_i64_ok) (auto simp: acc_rep_def spec_ok_def)
  then show ?thesis using True a by (auto simp: update_acc_def acc_rep_def)
next
  case k: False
  let ?v = "arg_of spec r" and ?vs = "arg_values spec xs"
  obtain e where e: "input_expr spec = Some e" "eval_row e r = Inr ?v" using args_typed(2) [OF ok k, of r] by auto
  show ?thesis
  proof (cases "?v = Null")
    case True
    then show ?thesis using k e a by (auto simp: update_acc_def acc_rep_def)
  next
    case False
    have typed: "value_fits (input_type spec) ?v" using args_typed(1) [OF ok k] False by simp
    have "\<exists>c. add_i64 (nonnull a) 1 = Inr c \<and> sint c = sint (nonnull a) + sint (1 :: 64 word)"
      using a ok k length_arg_values [of spec xs] by (intro add_i64_ok) (auto simp: acc_rep_def spec_ok_def)
    then obtain n where n: "add_i64 (nonnull a) 1 = Inr n" "sint n = sint (nonnull a) + 1" by auto
    let ?a = "a\<lparr>nonnull := n\<rparr>"
    have up: "update_acc (\<lambda>e. eval_row e r) spec a = update_value spec ?a ?v"
      using k e n(1) False by (simp add: update_acc_def IsNull_def)
    consider "agg_kind spec = kCount" | "agg_kind spec = kSum" | "agg_kind spec = kMin" | "agg_kind spec = kMax"
      using k ok by (cases "agg_kind spec") (auto simp: spec_ok_def)
    then show ?thesis
    proof cases
      case 1
      then show ?thesis using up a n(2) False by (auto simp: update_value_def acc_rep_def)
    next
      case 2
      obtain x where x: "AsI64Val ?v = Inr x" "sint x = int_val ?v" using AsI64Val_int [OF typed False] ok 2 by (auto simp: spec_ok_def)
      have "\<bar>sum_list (map int_val (?vs @ [?v]))\<bar> < 2 ^ 63"
        using ok 2 False sum_abs_bound [of int_val "?vs @ [?v]"] by (auto simp: spec_ok_def)
      then have "\<exists>c. add_i64 (isum a) x = Inr c \<and> sint c = sint (isum a) + sint x"
        using a 2 x(2) by (intro add_i64_ok) (auto simp: acc_rep_def)
      then show ?thesis using up a 2 n(2) x False ok by (auto simp: update_value_def acc_rep_def spec_ok_def)
    next
      case 3
      have "ordered_vals (input_type spec) (?vs @ [?v])" using args_ordered [OF ok] 3 False by simp
      moreover have "is_min [?v] ?v" using ordered_cmp(1) [OF calculation, of ?v ?v ?v] by (simp add: is_min_def)
      ultimately obtain m where "take_min ?v (minv a) = Inr m" "is_min (?vs @ [?v]) m"
        using take_min_ok [of _ ?vs "[?v]" "minv a" ?v] a 3 by (auto simp: acc_rep_def)
      then show ?thesis using up a 3 n(2) False by (auto simp: update_value_def acc_rep_def)
    next
      case 4
      have "ordered_vals (input_type spec) (?vs @ [?v])" using args_ordered [OF ok] 4 False by simp
      moreover have "is_max [?v] ?v" using ordered_cmp(1) [OF calculation, of ?v ?v ?v] by (simp add: is_max_def)
      ultimately obtain m where "take_max ?v (maxv a) = Inr m" "is_max (?vs @ [?v]) m"
        using take_max_ok [of _ ?vs "[?v]" "maxv a" ?v] a 4 by (auto simp: acc_rep_def)
      then show ?thesis using up a 4 n(2) False by (auto simp: update_value_def acc_rep_def)
    qed
  qed
qed

lemma map2R_list:
  assumes "length xs = length ys" and "\<And>x y. (x, y) \<in> set (zip xs ys) \<Longrightarrow> \<exists>z. f x y = Inr z \<and> Q x z"
  shows "\<exists>zs. map2R f xs ys = Inr zs \<and> list_all2 Q xs zs"
  using assms
proof (induction xs ys rule: list_induct2)
  case (Cons x xs y ys)
  obtain z where z: "f x y = Inr z" "Q x z" using Cons.prems by auto
  obtain zs where "map2R f xs ys = Inr zs" "list_all2 Q xs zs" using Cons.IH Cons.prems by auto
  then show ?case using z by simp
qed simp

section \<open>Tables of groups\<close>

text \<open>
  A table of groups represents a list of rows: the index finds exactly the group of a key, the
  groups are those of the rows' keys, and the accumulators of a group cover its rows.
\<close>

definition groups_rep :: "AggSpec list \<Rightarrow> (Value list \<Rightarrow> Value list) \<Rightarrow> partial \<Rightarrow> Value list list \<Rightarrow> bool" where
  "groups_rep aggs keyf pr rows \<longleftrightarrow>
     (\<forall>ks i. snd pr ks = Some i \<longleftrightarrow> i < length (fst pr) \<and> KeyString (group_key (fst pr ! i)) = ks) \<and>
     group_key ` set (fst pr) = keyf ` set rows \<and>
     (\<forall>g \<in> set (fst pr). list_all2 (\<lambda>spec a. acc_rep spec (filter (\<lambda>r. keyf r = group_key g) rows) a) aggs (accs g))"

lemma groups_rep_empty: "groups_rep aggs keyf ([], Map.empty) []"
  by (simp add: groups_rep_def)

lemma absorb_new:
  assumes rep: "groups_rep aggs keyf (groups, index) rows" and ns: "\<forall>r \<in> set ns. keyf r = k" "ns \<noteq> []"
    and none: "index (KeyString k) = None" and as: "list_all2 (\<lambda>spec a. acc_rep spec ns a) aggs as"
  shows "groups_rep aggs keyf (groups @ [\<lparr>group_key = k, accs = as\<rparr>], index(KeyString k \<mapsto> length groups)) (rows @ ns)"
proof -
  let ?g = "\<lparr>group_key = k, accs = as\<rparr>"
  have ix: "index ks = Some i \<longleftrightarrow> i < length groups \<and> KeyString (group_key (groups ! i)) = ks" for ks i using rep by (simp add: groups_rep_def)
  have fresh: "KeyString (group_key g) \<noteq> KeyString k" if "g \<in> set groups" for g
    using that none ix by (metis in_set_conv_nth option.distinct(1))
  then have nk: "group_key g \<noteq> k" if "g \<in> set groups" for g using that by auto
  have keys: "group_key ` set groups = keyf ` set rows" using rep by (simp add: groups_rep_def)
  then have "k \<notin> keyf ` set rows" using nk by (metis imageE)
  then have rk: "filter (\<lambda>r. keyf r = k) rows = []" by (auto simp: filter_empty_conv)
  have nf: "filter (\<lambda>r. keyf r = k) ns = ns" using ns by (simp add: filter_id_conv)
  have other: "filter (\<lambda>r. keyf r = group_key g) (rows @ ns) = filter (\<lambda>r. keyf r = group_key g) rows" if "g \<in> set groups" for g
    using nk [OF that] ns by (auto simp: filter_empty_conv)
  have kn: "keyf ` set ns = {k}" using ns by (cases ns) auto
  have ix': "(index(KeyString k \<mapsto> length groups)) ks = Some i \<longleftrightarrow>
      i < length (groups @ [?g]) \<and> KeyString (group_key ((groups @ [?g]) ! i)) = ks" for ks i
    using ix [of ks i] none fresh nth_mem [of i groups] by (auto simp: nth_append less_Suc_eq)
  have acc': "list_all2 (\<lambda>spec a. acc_rep spec (filter (\<lambda>r. keyf r = group_key g) (rows @ ns)) a) aggs (accs g)"
    if "g \<in> set (groups @ [?g])" for g
  proof (cases "g \<in> set groups")
    case True
    then show ?thesis using rep unfolding other [OF True] groups_rep_def fst_conv by blast
  next
    case False
    then show ?thesis using that as rk nf by simp
  qed
  have "group_key ` set (groups @ [?g]) = keyf ` set (rows @ ns)" using keys kn by (simp add: image_Un)
  then show ?thesis unfolding groups_rep_def fst_conv snd_conv using ix' acc' by blast
qed

lemma absorb_old:
  assumes rep: "groups_rep aggs keyf (groups, index) rows" and ns: "\<forall>r \<in> set ns. keyf r = k" "ns \<noteq> []"
    and old: "index (KeyString k) = Some i" and inj: "inj_on KeyString (keyf ` set (rows @ ns))"
  shows "i < length groups" "group_key (groups ! i) = k"
    "list_all2 (\<lambda>spec a. acc_rep spec (filter (\<lambda>r. keyf r = k) rows) a) aggs (accs (groups ! i))"
    "list_all2 (\<lambda>spec a. acc_rep spec (filter (\<lambda>r. keyf r = k) rows @ ns) a) aggs as \<Longrightarrow>
      groups_rep aggs keyf (groups[i := (groups ! i)\<lparr>accs := as\<rparr>], index) (rows @ ns)"
proof -
  have ix: "index ks = Some i \<longleftrightarrow> i < length groups \<and> KeyString (group_key (groups ! i)) = ks" for ks i using rep by (simp add: groups_rep_def)
  then show i: "i < length groups" using old by blast
  have keys: "group_key ` set groups = keyf ` set rows" using rep by (simp add: groups_rep_def)
  have accs: "list_all2 (\<lambda>spec a. acc_rep spec (filter (\<lambda>r. keyf r = group_key g) rows) a) aggs (accs g)" if "g \<in> set groups" for g
    using rep that unfolding groups_rep_def fst_conv by blast
  have kin: "k \<in> keyf ` set ns" using ns by (cases ns) auto
  have "group_key (groups ! i) \<in> keyf ` set rows" using keys i by (metis imageI nth_mem)
  moreover have "KeyString (group_key (groups ! i)) = KeyString k" using ix old by blast
  ultimately show k: "group_key (groups ! i) = k" 
    by (intro inj_onD [OF inj]) (use kin in \<open>simp_all add: image_Un\<close>)
  show "list_all2 (\<lambda>spec a. acc_rep spec (filter (\<lambda>r. keyf r = k) rows) a) aggs (accs (groups ! i))"
    using accs [OF nth_mem [OF i]] unfolding k .
  assume as: "list_all2 (\<lambda>spec a. acc_rep spec (filter (\<lambda>r. keyf r = k) rows @ ns) a) aggs as"
  let ?g = "(groups ! i)\<lparr>accs := as\<rparr>"
  have nf: "filter (\<lambda>r. keyf r = k) ns = ns" using ns by (simp add: filter_id_conv)
  have mk: "map group_key (groups[i := ?g]) = map group_key groups" using i by (simp add: map_update list_update_same_conv)
  have nthk: "group_key (groups[i := ?g] ! n) = group_key (groups ! n)" if "n < length groups" for n
    using that by (metis length_list_update mk nth_map)
  have nth: "list_all2 (\<lambda>spec a. acc_rep spec (filter (\<lambda>r. keyf r = group_key (groups[i := ?g] ! n)) (rows @ ns)) a) aggs (accs (groups[i := ?g] ! n))"
    if n: "n < length groups" for n
  proof (cases "n = i")
    case True
    then show ?thesis using as i k nf by simp
  next
    case False
    have "group_key (groups ! n) \<noteq> k" using ix [of "KeyString k" n] old n False by auto
    then have "filter (\<lambda>r. keyf r = group_key (groups ! n)) ns = []" using ns by (auto simp: filter_empty_conv)
    then show ?thesis using accs [OF nth_mem [OF n]] False by simp
  qed
  have "group_key ` set (groups[i := ?g]) = group_key ` set groups" by (metis list.set_map mk)
  moreover have "k \<in> keyf ` set rows" using k keys i by (metis imageI nth_mem)
  moreover have "keyf ` set ns = {k}" using ns by (cases ns) auto
  ultimately have "group_key ` set (groups[i := ?g]) = keyf ` set (rows @ ns)" using keys by (auto simp: image_Un)
  moreover have "index ks = Some n \<longleftrightarrow> n < length (groups[i := ?g]) \<and> KeyString (group_key (groups[i := ?g] ! n)) = ks" for ks n
    using ix [of ks n] nthk [of n] by auto
  moreover have "list_all2 (\<lambda>spec a. acc_rep spec (filter (\<lambda>r. keyf r = group_key g) (rows @ ns)) a) aggs (accs g)"
    if "g \<in> set (groups[i := ?g])" for g
    using nth that by (metis in_set_conv_nth length_list_update)
  ultimately show "groups_rep aggs keyf (groups[i := ?g], index) (rows @ ns)"
    unfolding groups_rep_def fst_conv snd_conv by blast
qed

section \<open>Workers and the merge\<close>

definition agg_ok :: "AggSpec list \<Rightarrow> (Value list \<Rightarrow> Value list) \<Rightarrow> Value list list \<Rightarrow> bool" where
  "agg_ok aggs keyf rows \<longleftrightarrow> (\<forall>spec \<in> set aggs. spec_ok spec rows) \<and> inj_on KeyString (keyf ` set rows)"

lemma agg_ok_subset: "agg_ok aggs keyf all \<Longrightarrow> mset rows \<subseteq># mset all \<Longrightarrow> agg_ok aggs keyf rows"
  using spec_ok_subset set_mset_mono [of "mset rows" "mset all"] by (auto simp: agg_ok_def intro: inj_on_subset [OF _ image_mono])

lemma filter_subset: "mset (filter P xs) \<subseteq># mset xs"
  by (simp add: multiset_filter_subset)

definition row_key :: "nat list \<Rightarrow> Value list \<Rightarrow> Value list" where
  "row_key gis r = map ((!) r) gis"

lemma ProcessRow_ok:
  assumes rep: "groups_rep aggs (row_key gis) pr rows" and ch: "chunk_rep ch ts crows" "i < length crows"
    and gis: "\<forall>g \<in> set gis. g < length ts" and ok: "agg_ok aggs (row_key gis) (rows @ [crows ! i])"
  shows "\<exists>pr'. ProcessRow gis aggs ch pr i = Inr pr' \<and> groups_rep aggs (row_key gis) pr' (rows @ [crows ! i])"
proof -
  let ?keyf = "row_key gis" and ?r = "crows ! i"
  obtain groups index where pr: "pr = (groups, index)" by (cases pr)
  note rep = rep [unfolded pr]
  let ?k = "?keyf ?r"
  have len: "length ?r = length ts" using chunk_rep_row [OF ch] .
  have key: "mapR (\<lambda>gi. bindR (GetVector ch gi) (\<lambda>v. GetValue v i)) gis = Inr ?k"
    unfolding row_key_def by (rule mapR_Inr) (use gis len in \<open>simp add: chunk_rep_value [OF ch]\<close>)
  have ev: "(\<lambda>e. EvalExprRow e ch i) = (\<lambda>e. eval_row e ?r)" by (simp add: EvalExprRow_rep [OF ch])
  have upd: "\<exists>as'. map2R (update_acc (\<lambda>e. eval_row e ?r)) aggs as = Inr as' \<and> list_all2 (\<lambda>spec a. acc_rep spec (xs @ [?r]) a) aggs as'"
    if as: "list_all2 (\<lambda>spec a. acc_rep spec xs a) aggs as" and xs: "mset (xs @ [?r]) \<subseteq># mset (rows @ [?r])" for as xs
  proof (rule map2R_list)
    show "length aggs = length as" using list_all2_lengthD [OF as] .
    show "\<exists>z. update_acc (\<lambda>e. eval_row e ?r) spec a = Inr z \<and> acc_rep spec (xs @ [?r]) z" if z: "(spec, a) \<in> set (zip aggs as)" for spec a
    proof -
      have "spec_ok spec (rows @ [?r])" using ok z by (auto simp: agg_ok_def dest: set_zip_leftD)
      then have "spec_ok spec (xs @ [?r])" by (rule spec_ok_subset) (rule xs)
      moreover have "acc_rep spec xs a" using as z by (auto simp: list_all2_iff)
      ultimately show ?thesis by (rule update_acc_ok)
    qed
  qed
  show ?thesis
  proof (cases "index (KeyString ?k)")
    case None
    have "list_all2 (\<lambda>spec a. acc_rep spec [] a) aggs (replicate (length aggs) new_acc)"
      by (simp add: list_all2_conv_all_nth acc_rep_new)
    from upd [OF this] obtain as where as: "map2R (update_acc (\<lambda>e. eval_row e ?r)) aggs (replicate (length aggs) new_acc) = Inr as"
      "list_all2 (\<lambda>spec a. acc_rep spec [?r] a) aggs as" by auto
    have "ProcessRow gis aggs ch pr i = Inr (groups @ [\<lparr>group_key = ?k, accs = as\<rparr>], index(KeyString ?k \<mapsto> length groups))"
      using key None as(1) by (simp add: pr ProcessRow_def UpdateGroup_def ev)
    then show ?thesis using absorb_new [OF rep _ _ None as(2)] by auto
  next
    case (Some n)
    have inj: "inj_on KeyString (?keyf ` set (rows @ [?r]))" using ok by (simp add: agg_ok_def)
    note old = absorb_old [OF rep _ _ Some inj, simplified]
    have "mset (filter (\<lambda>r. ?keyf r = ?k) rows @ [?r]) \<subseteq># mset (rows @ [?r])" using filter_subset [of _ rows] by simp
    from upd [OF old(3) this] obtain as where as: "map2R (update_acc (\<lambda>e. eval_row e ?r)) aggs (accs (groups ! n)) = Inr as"
      "list_all2 (\<lambda>spec a. acc_rep spec (filter (\<lambda>r. ?keyf r = ?k) rows @ [?r]) a) aggs as" by blast
    have "ProcessRow gis aggs ch pr i = Inr (groups[n := (groups ! n)\<lparr>accs := as\<rparr>], index)"
      using key Some as(1) old(1) by (simp add: pr ProcessRow_def UpdateGroup_def ev)
    then show ?thesis using old(4) as(2) by auto
  qed
qed

lemma map2R_nth:
  assumes "length xs = length ys" and "\<And>n. n < length xs \<Longrightarrow> \<exists>z. f (xs ! n) (ys ! n) = Inr z \<and> Q n z"
  shows "\<exists>zs. map2R f xs ys = Inr zs \<and> length zs = length xs \<and> (\<forall>n < length xs. Q n (zs ! n))"
  using assms
proof (induction xs ys arbitrary: Q rule: list_induct2)
  case (Cons x xs y ys)
  obtain z where z: "f x y = Inr z" "Q 0 z" using Cons.prems [of 0] by auto
  have "\<exists>zs. map2R f xs ys = Inr zs \<and> length zs = length xs \<and> (\<forall>n < length xs. Q (Suc n) (zs ! n))"
    by (rule Cons.IH) (use Cons.prems in fastforce)
  then obtain zs where "map2R f xs ys = Inr zs" "length zs = length xs" "\<forall>n < length xs. Q (Suc n) (zs ! n)" by blast
  then show ?case using z by (auto simp: nth_Cons split: nat.splits)
qed simp

lemma batch_ok:
  assumes rep: "groups_rep aggs (row_key gis) pr rows" and ch: "chunk_rep ch ts crows" and gis: "\<forall>g \<in> set gis. g < length ts"
    and ok: "agg_ok aggs (row_key gis) (rows @ crows)"
  shows "\<exists>pr'. foldR (ProcessRow gis aggs ch) pr [0..<cardinality ch] = Inr pr' \<and> groups_rep aggs (row_key gis) pr' (rows @ crows)"
proof -
  have n: "cardinality ch = length crows" using ch by (simp add: chunk_rep_def)
  have "\<exists>pr'. foldR (ProcessRow gis aggs ch) pr [0..<length crows] = Inr pr' \<and> groups_rep aggs (row_key gis) pr' (rows @ take (length crows) crows)"
  proof (rule foldR_upt [where P = "\<lambda>i pr. groups_rep aggs (row_key gis) pr (rows @ take i crows)"])
    fix i pr
    assume i: "i < length crows" and P: "groups_rep aggs (row_key gis) pr (rows @ take i crows)"
    have t: "(rows @ take i crows) @ [crows ! i] = rows @ take (Suc i) crows" using i by (simp add: take_Suc_conv_app_nth)
    have "mset (rows @ take (Suc i) crows) \<subseteq># mset (rows @ crows)"
      by (metis append.assoc append_take_drop_id mset_append mset_subset_eq_add_left)
    then have "agg_ok aggs (row_key gis) ((rows @ take i crows) @ [crows ! i])" unfolding t by (rule agg_ok_subset [OF ok])
    from ProcessRow_ok [OF P ch i gis this] show "\<exists>pr'. ProcessRow gis aggs ch pr i = Inr pr' \<and>
      groups_rep aggs (row_key gis) pr' (rows @ take (Suc i) crows)" unfolding t .
  qed (use rep in simp)
  then show ?thesis by (simp add: n)
qed

lemma worker_ok:
  assumes ch: "list_all2 (\<lambda>ch rs. chunk_rep ch ts rs) inputs rss" and gis: "\<forall>g \<in> set gis. g < length ts"
    and "groups_rep aggs (row_key gis) pr rows" and "\<forall>ci \<in> set taken. ci < length inputs"
    and "agg_ok aggs (row_key gis) (rows @ concat (map ((!) rss) taken))"
  shows "\<exists>pr'. foldR (\<lambda>pr ci. foldR (ProcessRow gis aggs (inputs ! ci)) pr [0..<cardinality (inputs ! ci)]) pr taken = Inr pr' \<and>
    groups_rep aggs (row_key gis) pr' (rows @ concat (map ((!) rss) taken))"
  using assms(3-5)
proof (induction taken arbitrary: pr rows)
  case (Cons ci taken)
  have c: "chunk_rep (inputs ! ci) ts (rss ! ci)" using ch Cons.prems(2) by (simp add: list_all2_conv_all_nth)
  have "agg_ok aggs (row_key gis) (rows @ rss ! ci)"
    by (rule agg_ok_subset [OF Cons.prems(3)]) simp
  then obtain pr1 where b: "foldR (ProcessRow gis aggs (inputs ! ci)) pr [0..<cardinality (inputs ! ci)] = Inr pr1"
    "groups_rep aggs (row_key gis) pr1 (rows @ rss ! ci)"
    using batch_ok [OF Cons.prems(1) c gis] by blast
  then show ?case using Cons.IH [OF b(2)] Cons.prems(2,3) by simp
qed simp

lemma run_worker_ok:
  assumes "list_all2 (\<lambda>ch rs. chunk_rep ch ts rs) inputs rss" and "\<forall>g \<in> set gis. g < length ts"
    and "\<forall>ci \<in> set taken. ci < length inputs" and "agg_ok aggs (row_key gis) (concat (map ((!) rss) taken))"
  shows "\<exists>pr. run_worker gis aggs inputs taken = Inr pr \<and> groups_rep aggs (row_key gis) pr (concat (map ((!) rss) taken))"
proof -
  obtain pr where "foldR (\<lambda>pr ci. foldR (ProcessRow gis aggs (inputs ! ci)) pr [0..<cardinality (inputs ! ci)]) ([], Map.empty) taken = Inr pr"
    "groups_rep aggs (row_key gis) pr (concat (map ((!) rss) taken))"
    using worker_ok [OF assms(1,2) groups_rep_empty assms(3), of aggs] assms(4) unfolding append_Nil by blast
  then show ?thesis by (intro exI [of _ pr]) (simp add: run_worker_def)
qed

text \<open>Merging one table into another adds the rows it represents, group by group.\<close>

lemma merge_group_ok:
  assumes rep: "groups_rep aggs keyf pr rows" and g: "list_all2 (\<lambda>spec a. acc_rep spec ns a) aggs (accs g)"
    and ns: "\<forall>r \<in> set ns. keyf r = group_key g" "ns \<noteq> []" and ok: "agg_ok aggs keyf (rows @ ns)"
  shows "\<exists>pr'. merge_group aggs pr g = Inr pr' \<and> groups_rep aggs keyf pr' (rows @ ns)"
proof -
  obtain groups index where pr: "pr = (groups, index)" by (cases pr)
  note rep = rep [unfolded pr]
  show ?thesis
  proof (cases "index (KeyString (group_key g))")
    case None
    have "merge_group aggs pr g = Inr (groups @ [\<lparr>group_key = group_key g, accs = accs g\<rparr>], index(KeyString (group_key g) \<mapsto> length groups))"
      using None by (simp add: pr merge_group_def)
    then show ?thesis using absorb_new [OF rep ns None g] by auto
  next
    case (Some i)
    have inj: "inj_on KeyString (keyf ` set (rows @ ns))" using ok by (simp add: agg_ok_def)
    note old = absorb_old [OF rep ns Some inj]
    let ?k = "group_key g" and ?as = "accs (groups ! i)"
    let ?xs = "filter (\<lambda>r. keyf r = ?k) rows"
    have len: "length aggs = length ?as" "length aggs = length (accs g)" using old(3) g by (auto dest: list_all2_lengthD)
    have "\<exists>zs. map2R MergeAcc ?as (accs g) = Inr zs \<and> length zs = length ?as \<and> (\<forall>n < length ?as. acc_rep (aggs ! n) (?xs @ ns) (zs ! n))"
    proof -
      have m: "\<exists>z. MergeAcc (?as ! n) (accs g ! n) = Inr z \<and> acc_rep (aggs ! n) (?xs @ ns) z" if n: "n < length aggs" for n
      proof (rule MergeAcc_ok)
        have "spec_ok (aggs ! n) (rows @ ns)" using ok n by (simp add: agg_ok_def)
        then show "spec_ok (aggs ! n) (?xs @ ns)" by (rule spec_ok_subset) (simp add: multiset_filter_subset)
        show "acc_rep (aggs ! n) ?xs (?as ! n)" "acc_rep (aggs ! n) ns (accs g ! n)" using old(3) g n by (auto simp: list_all2_conv_all_nth)
      qed
      show ?thesis
        by (rule map2R_nth) (use m len in auto)
    qed
    then obtain zs where zs: "map2R MergeAcc ?as (accs g) = Inr zs" "list_all2 (\<lambda>spec a. acc_rep spec (?xs @ ns) a) aggs zs"
      using len by (auto simp: list_all2_conv_all_nth)
    have "merge_group aggs pr g = Inr (groups[i := (groups ! i)\<lparr>accs := zs\<rparr>], index)"
      using Some old(1) zs(1) by (simp add: pr merge_group_def)
    then show ?thesis using old(4) [OF zs(2)] by blast
  qed
qed

lemma merge_groups_ok:
  assumes "groups_rep aggs keyf pr rows"
    and gs: "\<And>g. g \<in> set gs \<Longrightarrow> list_all2 (\<lambda>spec a. acc_rep spec (filter (\<lambda>r. keyf r = group_key g) rows2) a) aggs (accs g) \<and>
      (\<exists>r \<in> set rows2. keyf r = group_key g)"
    and "distinct (map group_key gs)"
    and "agg_ok aggs keyf (rows @ concat (map (\<lambda>g. filter (\<lambda>r. keyf r = group_key g) rows2) gs))"
  shows "\<exists>pr'. foldR (merge_group aggs) pr gs = Inr pr' \<and>
    groups_rep aggs keyf pr' (rows @ concat (map (\<lambda>g. filter (\<lambda>r. keyf r = group_key g) rows2) gs))"
  using assms
proof (induction gs arbitrary: pr rows)
  case (Cons g gs)
  let ?ns = "filter (\<lambda>r. keyf r = group_key g) rows2"
  have ok: "agg_ok aggs keyf (rows @ ?ns)" by (rule agg_ok_subset [OF Cons.prems(4)]) simp
  have g: "list_all2 (\<lambda>spec a. acc_rep spec ?ns a) aggs (accs g)" "\<exists>r \<in> set rows2. keyf r = group_key g"
    using Cons.prems(2) [OF list.set_intros(1)] by blast+
  then have ne: "?ns \<noteq> []" by (simp add: filter_empty_conv)
  have "\<forall>r \<in> set ?ns. keyf r = group_key g" by simp
  from merge_group_ok [OF Cons.prems(1) g(1) this ne ok]
  obtain pr1 where m: "merge_group aggs pr g = Inr pr1" "groups_rep aggs keyf pr1 (rows @ ?ns)" by blast
  have "\<exists>pr'. foldR (merge_group aggs) pr1 gs = Inr pr' \<and>
    groups_rep aggs keyf pr' ((rows @ ?ns) @ concat (map (\<lambda>g. filter (\<lambda>r. keyf r = group_key g) rows2) gs))"
    by (rule Cons.IH [OF m(2)]) (use Cons.prems in simp_all)
  then show ?case using m(1) by simp
qed simp

lemma mset_by_key:
  "distinct ks \<Longrightarrow> mset (concat (map (\<lambda>k. filter (\<lambda>r. keyf r = k) rows) ks)) = mset (filter (\<lambda>r. keyf r \<in> set ks) rows)"
proof (induction ks)
  case (Cons k ks)
  have "k \<notin> set ks" using Cons.prems by simp
  then have "mset (filter (\<lambda>r. keyf r \<in> set (k # ks)) rows) = mset (filter (\<lambda>r. keyf r = k) rows) + mset (filter (\<lambda>r. keyf r \<in> set ks) rows)"
    by (induction rows) auto
  then show ?case using Cons by simp
qed simp

lemma groups_rep_keys:
  assumes "groups_rep aggs keyf (groups, index) rows"
  shows "distinct (map group_key groups)" and "set (map group_key groups) = keyf ` set rows"
    and "g \<in> set groups \<Longrightarrow> list_all2 (\<lambda>spec a. acc_rep spec (filter (\<lambda>r. keyf r = group_key g) rows) a) aggs (accs g)"
proof -
  have ix: "index ks = Some i \<longleftrightarrow> i < length groups \<and> KeyString (group_key (groups ! i)) = ks" for ks i
    using assms unfolding groups_rep_def fst_conv snd_conv by blast
  have "i = j" if "i < length groups" "j < length groups" "group_key (groups ! i) = group_key (groups ! j)" for i j
    using ix [of "KeyString (group_key (groups ! i))" i] ix [of "KeyString (group_key (groups ! i))" j] that by simp
  then show "distinct (map group_key groups)" by (auto simp: distinct_conv_nth)
  show "set (map group_key groups) = keyf ` set rows" using assms unfolding groups_rep_def fst_conv by simp
  show "g \<in> set groups \<Longrightarrow> list_all2 (\<lambda>spec a. acc_rep spec (filter (\<lambda>r. keyf r = group_key g) rows) a) aggs (accs g)"
    using assms unfolding groups_rep_def fst_conv by blast
qed

lemma groups_rep_mset:
  assumes rep: "groups_rep aggs keyf pr rows" and m: "mset rows = mset rows'"
  shows "groups_rep aggs keyf pr rows'"
  unfolding groups_rep_def
proof (intro conjI ballI)
  show "\<forall>ks i. snd pr ks = Some i \<longleftrightarrow> i < length (fst pr) \<and> KeyString (group_key (fst pr ! i)) = ks"
    using rep unfolding groups_rep_def by (rule conjunct1)
  have "set rows = set rows'" using m by (metis set_mset_mset)
  moreover have "group_key ` set (fst pr) = keyf ` set rows" using rep unfolding groups_rep_def by (elim conjE)
  ultimately show "group_key ` set (fst pr) = keyf ` set rows'" by (simp only:)
  fix g
  assume "g \<in> set (fst pr)"
  then have "list_all2 (\<lambda>spec a. acc_rep spec (filter (\<lambda>r. keyf r = group_key g) rows) a) aggs (accs g)"
    using rep unfolding groups_rep_def by blast
  then show "list_all2 (\<lambda>spec a. acc_rep spec (filter (\<lambda>r. keyf r = group_key g) rows') a) aggs (accs g)"
    by (rule list_all2_mono) (rule acc_rep_mset [rotated], assumption, simp add: m)
qed

lemma merge_partial_ok:
  assumes rep: "groups_rep aggs keyf pr rows" and rep2: "groups_rep aggs keyf (gs, index2) rows2" and ok: "agg_ok aggs keyf (rows @ rows2)"
  shows "\<exists>pr'. foldR (merge_group aggs) pr gs = Inr pr' \<and> groups_rep aggs keyf pr' (rows @ rows2)"
proof -
  note k = groups_rep_keys [OF rep2]
  let ?parts = "concat (map (\<lambda>g. filter (\<lambda>r. keyf r = group_key g) rows2) gs)"
  have "concat (map (\<lambda>g. filter (\<lambda>r. keyf r = group_key g) rows2) gs) = concat (map (\<lambda>k. filter (\<lambda>r. keyf r = k) rows2) (map group_key gs))"
    by (simp add: o_def)
  then have "mset ?parts = mset (filter (\<lambda>r. keyf r \<in> set (map group_key gs)) rows2)" using mset_by_key [OF k(1)] by metis
  moreover have "filter (\<lambda>r. keyf r \<in> set (map group_key gs)) rows2 = rows2" unfolding k(2) by (simp add: filter_id_conv)
  ultimately have parts: "mset ?parts = mset rows2" by metis
  then have m: "mset (rows @ ?parts) = mset (rows @ rows2)" by simp
  have "agg_ok aggs keyf (rows @ ?parts)" by (rule agg_ok_subset [OF ok]) (simp only: m subset_mset.order_refl)
  moreover have "\<exists>r \<in> set rows2. keyf r = group_key g" if "g \<in> set gs" for g
  proof -
    have "group_key g \<in> keyf ` set rows2" using that k(2) by (metis image_eqI list.set_map)
    then show ?thesis by auto
  qed
  ultimately obtain pr' where "foldR (merge_group aggs) pr gs = Inr pr'" "groups_rep aggs keyf pr' (rows @ ?parts)"
    using merge_groups_ok [OF rep _ k(1), of rows2] k(3) by blast
  then show ?thesis using groups_rep_mset [OF _ m] by blast
qed

lemma merge_all_ok:
  assumes "groups_rep aggs keyf pr rows" and "list_all2 (\<lambda>p rs. groups_rep aggs keyf p rs) partials rss"
    and "agg_ok aggs keyf (rows @ concat rss)"
  shows "\<exists>pr'. foldR (\<lambda>acc (groups, index). foldR (merge_group aggs) acc groups) pr partials = Inr pr' \<and> groups_rep aggs keyf pr' (rows @ concat rss)"
  using assms(2,1,3)
proof (induction arbitrary: pr rows rule: list_all2_induct)
  case (Cons p ps rs rss)
  obtain gs index2 where p: "p = (gs, index2)" by (cases p)
  have "agg_ok aggs keyf (rows @ rs)" by (rule agg_ok_subset [OF Cons.prems(2)]) simp
  then obtain pr1 where m: "foldR (merge_group aggs) pr gs = Inr pr1" "groups_rep aggs keyf pr1 (rows @ rs)"
    using merge_partial_ok [OF Cons.prems(1) Cons.hyps(1) [unfolded p]] by blast
  then show ?case using Cons.IH [OF m(2)] Cons.prems(2) by (simp add: p)
qed simp

lemma mset_concat_schedule:
  assumes "mset (concat sched) = mset [0..<length rss]"
  shows "mset (concat (map (\<lambda>w. concat (map ((!) rss) w)) sched)) = mset (concat rss)"
proof -
  have len: "mset (concat (map f xs)) = (\<Sum>x \<in># mset xs. mset (f x))" for f :: "nat \<Rightarrow> 'a list" and xs by (induction xs) simp_all
  have "concat (map (\<lambda>w. concat (map ((!) rss) w)) sched) = concat (map ((!) rss) (concat sched))" by (induction sched) simp_all
  then have "mset (concat (map (\<lambda>w. concat (map ((!) rss) w)) sched)) = mset (concat (map ((!) rss) [0..<length rss]))"
    using len [of "(!) rss" "concat sched"] len [of "(!) rss" "[0..<length rss]"] assms by metis
  then show ?thesis by (simp only: map_nth)
qed

lemma build_groups_ok:
  assumes ch: "list_all2 (\<lambda>ch rs. chunk_rep ch ts rs) inputs rss" and gis: "\<forall>g \<in> set gis. g < length ts"
    and sched: "mset (concat sched) = mset [0..<length inputs]" and ok: "agg_ok aggs (row_key gis) (concat rss)"
  shows "\<exists>pr. build_groups gis aggs sched inputs ([], Map.empty) = Inr pr \<and> groups_rep aggs (row_key gis) pr (concat rss)"
proof (cases "inputs = []")
  case True
  then show ?thesis using ch by (simp add: build_groups_def groups_rep_empty)
next
  case False
  have len: "length inputs = length rss" using list_all2_lengthD [OF ch] .
  let ?R = "\<lambda>w. concat (map ((!) rss) w)"
  have m: "mset (concat (map ?R sched)) = mset (concat rss)" using mset_concat_schedule sched len by metis
  have in_range: "\<forall>ci \<in> set w. ci < length inputs" if "w \<in> set sched" for w
  proof
    fix ci
    assume "ci \<in> set w"
    then have "ci \<in> set_mset (mset (concat sched))" using that by auto
    then show "ci < length inputs" unfolding sched by simp
  qed
  have "mset (?R w) \<subseteq># mset (concat rss)" if w: "w \<in> set sched" for w
  proof -
    obtain xs ys where "sched = xs @ w # ys" using w by (meson split_list)
    then show ?thesis unfolding m [symmetric] by simp
  qed
  then have wok: "\<exists>pr. run_worker gis aggs inputs w = Inr pr \<and> groups_rep aggs (row_key gis) pr (?R w)" if "w \<in> set sched" for w
    using run_worker_ok [OF ch gis in_range [OF that]] agg_ok_subset [OF ok] that by blast
  have "\<exists>partials. mapR (run_worker gis aggs inputs) sched = Inr partials \<and> list_all2 (\<lambda>p rs. groups_rep aggs (row_key gis) p rs) partials (map ?R sched)"
    using wok
  proof (induction sched)
    case (Cons w ws)
    obtain pr where "run_worker gis aggs inputs w = Inr pr" "groups_rep aggs (row_key gis) pr (?R w)" using Cons.prems [of w] by auto
    moreover obtain ps where "mapR (run_worker gis aggs inputs) ws = Inr ps" "list_all2 (\<lambda>p rs. groups_rep aggs (row_key gis) p rs) ps (map ?R ws)"
      using Cons.IH Cons.prems by auto
    ultimately show ?case by simp
  qed simp
  then obtain partials where p: "mapR (run_worker gis aggs inputs) sched = Inr partials"
    "list_all2 (\<lambda>p rs. groups_rep aggs (row_key gis) p rs) partials (map ?R sched)" by blast
  have "agg_ok aggs (row_key gis) ([] @ concat (map ?R sched))" by (rule agg_ok_subset [OF ok]) (simp add: m)
  then obtain pr where "foldR (\<lambda>acc (groups, index). foldR (merge_group aggs) acc groups) ([], Map.empty) partials = Inr pr"
    "groups_rep aggs (row_key gis) pr ([] @ concat (map ?R sched))"
    using merge_all_ok [OF groups_rep_empty p(2)] by blast
  then show ?thesis using groups_rep_mset [of aggs "row_key gis" pr "concat (map ?R sched)", OF _ m] p(1) False
    by (auto simp: build_groups_def)
qed

section \<open>What the operator produces\<close>

text \<open>The value of an aggregate over the rows of a group, and the rows of a grouped query.\<close>

definition least_of :: "(Value \<Rightarrow> Value \<Rightarrow> bool) \<Rightarrow> Value list \<Rightarrow> Value" where
  "least_of lt vs = (case vs of [] \<Rightarrow> Null | v # ws \<Rightarrow> fold (\<lambda>w m. if lt w m then w else m) ws v)"

definition agg_value :: "AggSpec \<Rightarrow> Value list list \<Rightarrow> Value" where
  "agg_value spec rows =
     (let vs = arg_values spec rows in
      case agg_kind spec of
        kCountStar \<Rightarrow> Int64 (of_nat (length rows))
      | kCount \<Rightarrow> Int64 (of_nat (length vs))
      | kSum \<Rightarrow> if vs = [] then Null else Int64 (of_int (sum_list (map int_val vs)))
      | kMin \<Rightarrow> least_of cmp_less vs
      | kMax \<Rightarrow> least_of (\<lambda>x y. cmp_less y x) vs
      | kAvg \<Rightarrow> Null)"

definition agg_row :: "nat list \<Rightarrow> AggSpec list \<Rightarrow> Value list list \<Rightarrow> Value list \<Rightarrow> Value list" where
  "agg_row gis aggs rows k = k @ map (\<lambda>spec. agg_value spec (filter (\<lambda>r. row_key gis r = k) rows)) aggs"

definition agg_rows :: "nat list \<Rightarrow> AggSpec list \<Rightarrow> Value list list \<Rightarrow> Value list list" where
  "agg_rows gis aggs rows = map (agg_row gis aggs rows) (if gis = [] then [[]] else remdups (map (row_key gis) rows))"

lemma fold_least:
  assumes "\<And>x y z. x \<in> S \<Longrightarrow> y \<in> S \<Longrightarrow> z \<in> S \<Longrightarrow> lt x z \<Longrightarrow> lt x y \<or> lt y z" and "\<And>x. x \<in> S \<Longrightarrow> \<not> lt x x"
    and "\<And>x y z. x \<in> S \<Longrightarrow> y \<in> S \<Longrightarrow> z \<in> S \<Longrightarrow> lt x y \<Longrightarrow> lt y z \<Longrightarrow> lt x z"
    and "insert v (set ws) \<subseteq> S"
  shows "fold (\<lambda>w m. if lt w m then w else m) ws v \<in> insert v (set ws) \<and>
    (\<forall>w \<in> insert v (set ws). \<not> lt w (fold (\<lambda>w m. if lt w m then w else m) ws v))"
  using assms(4)
proof (induction ws arbitrary: v)
  case (Cons w ws)
  define u where "u = (if lt w v then w else v)"
  define m where "m = fold (\<lambda>w m. if lt w m then w else m) ws u"
  have S: "insert u (set ws) \<subseteq> S" "v \<in> S" "w \<in> S" "u \<in> S" using Cons.prems by (auto simp: u_def)
  from Cons.IH [OF S(1)] have IH: "m \<in> insert u (set ws)" "\<forall>x \<in> insert u (set ws). \<not> lt x m" by (simp_all add: m_def)
  then have mS: "m \<in> S" using S(1) by blast
  have "\<not> lt v u" "\<not> lt w u" using assms(2) [OF S(2)] assms(2) [OF S(3)] assms(3) [OF S(2,3,2)] by (auto simp: u_def)
  moreover have "\<not> lt u m" using IH(2) by blast
  ultimately have "\<not> lt v m" "\<not> lt w m" using assms(1) [OF S(2,4) mS] assms(1) [OF S(3,4) mS] by blast+
  moreover have "m \<in> insert v (set (w # ws))" using IH(1) by (auto simp: u_def split: if_splits)
  moreover have "fold (\<lambda>w m. if lt w m then w else m) (w # ws) v = m" by (simp add: m_def u_def)
  ultimately show ?case using IH(2) by (simp del: fold_simps)
qed (use assms(2) in simp)

lemma least_of_unique:
  assumes o: "ordered_vals t vs"
  shows "is_min vs m \<Longrightarrow> m = least_of cmp_less vs" and "is_max vs m \<Longrightarrow> m = least_of (\<lambda>x y. cmp_less y x) vs"
proof -
  note c = ordered_cmp [OF o]
  have eq: "x = y" if "x \<in> set vs" "y \<in> set vs" "\<not> cmp_less x y" "\<not> cmp_less y x" for x y using c(4) that by blast
  have in_min: "v \<in> set vs \<Longrightarrow> least_of lt vs \<in> set vs \<and> (\<forall>w \<in> set vs. \<not> lt w (least_of lt vs))" if lt: "lt = cmp_less \<or> lt = (\<lambda>x y. cmp_less y x)" for lt v
  proof (cases vs)
    case (Cons u us)
    have "fold (\<lambda>w m. if lt w m then w else m) us u \<in> insert u (set us) \<and> (\<forall>w \<in> insert u (set us). \<not> lt w (fold (\<lambda>w m. if lt w m then w else m) us u))"
    proof (rule fold_least [where S = "set vs"])
      show "lt x z \<Longrightarrow> lt x y \<or> lt y z" if "x \<in> set vs" "y \<in> set vs" "z \<in> set vs" for x y z using lt c(3) that by blast
      show "lt x y \<Longrightarrow> lt y z \<Longrightarrow> lt x z" if "x \<in> set vs" "y \<in> set vs" "z \<in> set vs" for x y z using lt c(2) that by blast
      show "\<not> lt x x" if "x \<in> set vs" for x using lt c(1) that by blast
    qed (simp add: Cons)
    then show ?thesis by (simp add: Cons least_of_def)
  qed simp
  have min: "is_min vs (least_of cmp_less vs)"
    using in_min [of cmp_less "hd vs"] by (cases "vs = []") (simp_all add: is_min_def least_of_def)
  have max: "is_max vs (least_of (\<lambda>x y. cmp_less y x) vs)"
    using in_min [of "\<lambda>x y. cmp_less y x" "hd vs"] by (cases "vs = []") (simp_all add: is_max_def least_of_def)
  show "is_min vs m \<Longrightarrow> m = least_of cmp_less vs" using min eq by (auto simp: is_min_def split: if_splits)
  show "is_max vs m \<Longrightarrow> m = least_of (\<lambda>x y. cmp_less y x) vs" using max eq by (auto simp: is_max_def split: if_splits)
qed

lemma of_sint: "sint w = x \<Longrightarrow> w = of_int x" for w :: "64 word"
  by (metis of_int_sint scast_id)

lemma Finalize_rep:
  assumes "spec_ok spec rows" and "acc_rep spec rows a"
  shows "Finalize spec a = agg_value spec rows"
proof -
  have z: "(nonnull a = 0) = (sint (nonnull a) = 0)" by (metis signed_eq_0_iff)
  show ?thesis
  proof (cases "agg_kind spec")
    case kCountStar
    then have "sint (count a) = int (length rows)" using assms(2) by (simp add: acc_rep_def)
    from of_sint [OF this] show ?thesis using kCountStar by (simp add: Finalize_def agg_value_def)
  next
    case kCount
    then have "sint (nonnull a) = int (length (arg_values spec rows))" using assms(2) by (simp add: acc_rep_def)
    from of_sint [OF this] show ?thesis using kCount by (simp add: Finalize_def agg_value_def)
  next
    case kSum
    then have "sint (nonnull a) = int (length (arg_values spec rows))" "sint (isum a) = sum_list (map int_val (arg_values spec rows))"
      using assms(2) by (simp_all add: acc_rep_def)
    moreover have "input_type spec \<noteq> kFloat" using assms(1) kSum by (auto simp: spec_ok_def)
    ultimately show ?thesis using kSum of_sint [of "isum a"] by (simp add: Finalize_def agg_value_def z Let_def)
  next
    case kMin
    then have "is_min (arg_values spec rows) (minv a)" using assms(2) by (simp add: acc_rep_def)
    then show ?thesis using kMin least_of_unique(1) [OF args_ordered [OF assms(1)]] by (simp add: Finalize_def agg_value_def)
  next
    case kMax
    then have "is_max (arg_values spec rows) (maxv a)" using assms(2) by (simp add: acc_rep_def)
    then show ?thesis using kMax least_of_unique(2) [OF args_ordered [OF assms(1)]] by (simp add: Finalize_def agg_value_def)
  next
    case kAvg
    then show ?thesis using assms(1) by (simp add: spec_ok_def)
  qed
qed

lemma drain_chunks_ok:
  assumes "yields nxt ts s rows"
  shows "\<exists>chs rss s'. drain_chunks nxt ts s inputs = Some (Inr (inputs @ chs, s')) \<and> list_all2 (\<lambda>ch rs. chunk_rep ch ts rs) chs rss \<and> concat rss = rows"
  using assms
proof (induction arbitrary: inputs rule: yields.induct)
  case (stop s)
  obtain out' s' where "nxt s (Initialize ts) = Some (Inr (out', s'))" "cardinality out' = 0" using stop [OF typed_simps(1)] by blast
  then show ?case by (subst drain_chunks.simps) simp
next
  case (more rows s s' rest)
  obtain ch where o: "nxt s (Initialize ts) = Some (Inr (ch, s'))" "chunk_rep ch ts rows" using more(3) [OF typed_simps(1)] by blast
  then have "cardinality ch \<noteq> 0" using more(1) by (simp add: chunk_rep_def)
  moreover obtain chs rss s'' where "drain_chunks nxt ts s' (inputs @ [ch]) = Some (Inr ((inputs @ [ch]) @ chs, s''))"
    "list_all2 (\<lambda>ch rs. chunk_rep ch ts rs) chs rss" "concat rss = rest" using more(5) by blast
  ultimately show ?case using o
    by (subst drain_chunks.simps, intro exI [of _ "ch # chs"] exI [of _ "rows # rss"] exI [of _ s'']) simp
qed

lemma groups_rows:
  assumes rep: "groups_rep aggs (row_key gis) (groups, index) rows" and ok: "\<forall>spec \<in> set aggs. spec_ok spec rows"
  shows "mset (map (group_row aggs) groups) = mset (map (agg_row gis aggs rows) (remdups (map (row_key gis) rows)))"
proof -
  note k = groups_rep_keys [OF rep]
  have row: "group_row aggs g = agg_row gis aggs rows (group_key g)" if g: "g \<in> set groups" for g
  proof -
    have l: "list_all2 (\<lambda>spec a. acc_rep spec (filter (\<lambda>r. row_key gis r = group_key g) rows) a) aggs (accs g)" using k(3) [OF g] .
    have "map2 Finalize aggs (accs g) = map (\<lambda>spec. agg_value spec (filter (\<lambda>r. row_key gis r = group_key g) rows)) aggs"
    proof (rule nth_equalityI)
      fix i
      assume "i < length (map2 Finalize aggs (accs g))"
      then have i: "i < length aggs" "i < length (accs g)" by simp_all
      then have "spec_ok (aggs ! i) (filter (\<lambda>r. row_key gis r = group_key g) rows)" by (intro spec_ok_subset [OF bspec [OF ok nth_mem]] filter_subset)
      moreover have "acc_rep (aggs ! i) (filter (\<lambda>r. row_key gis r = group_key g) rows) (accs g ! i)" using l i(1) by (rule list_all2_nthD)
      ultimately have "Finalize (aggs ! i) (accs g ! i) = agg_value (aggs ! i) (filter (\<lambda>r. row_key gis r = group_key g) rows)" by (rule Finalize_rep)
      then show "map2 Finalize aggs (accs g) ! i = map (\<lambda>spec. agg_value spec (filter (\<lambda>r. row_key gis r = group_key g) rows)) aggs ! i"
        using i by simp
    qed (use list_all2_lengthD [OF l] in simp)
    then show ?thesis by (simp add: group_row_def agg_row_def)
  qed
  have "map (group_row aggs) groups = map (agg_row gis aggs rows) (map group_key groups)" using row by simp
  moreover have "mset (map group_key groups) = mset (remdups (map (row_key gis) rows))"
    using k(1,2) by (metis distinct_remdups list.set_map set_eq_iff_mset_eq_distinct set_remdups)
  ultimately show ?thesis by (metis mset_map)
qed

lemma remdups_const: "xs \<noteq> [] \<Longrightarrow> remdups (map (\<lambda>_. c) xs) = [c]"
proof (induction xs)
  case (Cons x xs)
  then show ?case by (cases xs) simp_all
qed simp

lemma no_rows_group:
  assumes "\<forall>spec \<in> set aggs. spec_ok spec []"
  shows "group_row aggs \<lparr>group_key = [], accs = replicate (length aggs) new_acc\<rparr> = agg_row [] aggs [] []"
proof -
  have "map2 Finalize aggs (replicate (length aggs) new_acc) = map (\<lambda>spec. agg_value spec []) aggs"
    using assms by (induction aggs) (simp_all add: Finalize_rep [OF _ acc_rep_new])
  then show ?thesis by (simp add: group_row_def agg_row_def)
qed

lemma agg_yields:
  assumes "rows_fit (output_types (HashAggregate child gis names ts aggs sched)) (map (group_row aggs) (agg_groups a))" and "agg_cursor a = 0"
  shows "yields (Next (HashAggregate child gis names ts aggs sched)) (output_types (HashAggregate child gis names ts aggs sched)) a
    (map (group_row aggs) (agg_groups a))"
proof -
  let ?rows = "map (group_row aggs) (agg_groups a)"
  have "yields (Next (HashAggregate child gis names ts aggs sched)) (output_types (HashAggregate child gis names ts aggs sched))
    (a\<lparr>agg_cursor := c\<rparr>) (drop c ?rows)" for c
  proof (induction "length ?rows - c" arbitrary: c rule: less_induct)
    case less
    let ?N = "Next (HashAggregate child gis names ts aggs sched)"
    let ?ts = "output_types (HashAggregate child gis names ts aggs sched)"
    show ?case
    proof (cases "c < length ?rows")
      case False
      then show ?thesis by (auto intro!: yields.stop simp: emit_rows_def HashAggregate_def)
    next
      case True
      let ?k = "min kVectorSize (length ?rows - c)"
      have k: "0 < ?k" using True by (simp add: kVectorSize_def)
      have "yields ?N ?ts (a\<lparr>agg_cursor := c + ?k\<rparr>) (drop (c + ?k) ?rows)" using True k by (intro less) simp
      moreover have "\<exists>out'. ?N (a\<lparr>agg_cursor := c\<rparr>) out = Some (Inr (out', a\<lparr>agg_cursor := c + ?k\<rparr>)) \<and> chunk_rep out' ?ts (take ?k (drop c ?rows))"
        if "typed_out ?ts out" for out
        using emit_rows_rep [OF full_width_simps(2) assms(1) Reset_rep [OF that] True] by (auto simp: HashAggregate_def)
      moreover have "take ?k (drop c ?rows) \<noteq> []" "length (take ?k (drop c ?rows)) \<le> kVectorSize" using True k by auto
      ultimately have "yields ?N ?ts (a\<lparr>agg_cursor := c\<rparr>) (take ?k (drop c ?rows) @ drop (c + ?k) ?rows)" by (intro yields.more)
      moreover have "take ?k (drop c ?rows) @ drop (c + ?k) ?rows = drop c ?rows" by (metis append_take_drop_id drop_drop add.commute)
      ultimately show ?thesis by simp
    qed
  qed
  from this [of 0] show ?thesis using assms(2) by (cases a) simp
qed

lemma HashAggregate_rows:
  assumes "produces child s rows" and "\<forall>g \<in> set gis. g < length (output_types child)" and "valid_schedule sched"
    and "agg_ok aggs (row_key gis) rows" and "rows_fit (take (length gis) ts @ map output_type aggs) (agg_rows gis aggs rows)"
  shows "\<exists>out. produces (HashAggregate child gis names ts aggs sched) \<lparr>agg_child = s, agg_groups = [], agg_index = Map.empty, agg_cursor = c\<rparr> out \<and>
    mset out = mset (agg_rows gis aggs rows)"
proof -
  let ?op = "HashAggregate child gis names ts aggs sched" and ?a = "\<lparr>agg_child = s, agg_groups = [], agg_index = Map.empty, agg_cursor = c\<rparr>"
  obtain s1 where s1: "Open child s = Some (Inr s1)" "yields (Next child) (output_types child) s1 rows" using assms(1) by (auto simp: produces_def)
  obtain inputs rss s2 where d: "drain_chunks (Next child) (output_types child) s1 [] = Some (Inr (inputs, s2))"
    "list_all2 (\<lambda>ch rs. chunk_rep ch (output_types child) rs) inputs rss" "concat rss = rows" using drain_chunks_ok [OF s1(2), of "[]"] by auto
  have "mset (concat (sched (length inputs))) = mset [0..<length inputs]" using assms(3) by (simp only: valid_schedule_def)
  from build_groups_ok [OF d(2) assms(2) this assms(4) [folded d(3)]] obtain groups index where
    b: "build_groups gis aggs (sched (length inputs)) inputs ([], Map.empty) = Inr (groups, index)"
    "groups_rep aggs (row_key gis) (groups, index) rows" unfolding d(3) by auto
  define gs where "gs = (if gis = [] \<and> groups = [] then [\<lparr>group_key = [], accs = replicate (length aggs) new_acc\<rparr>] else groups)"
  let ?a' = "\<lparr>agg_child = s2, agg_groups = gs, agg_index = index, agg_cursor = 0\<rparr>"
  have open': "Open ?op ?a = Some (Inr ?a')" using s1(1) d(1) b(1) by (simp add: HashAggregate_def agg_open_def gs_def Let_def)
  have specs: "\<forall>spec \<in> set aggs. spec_ok spec rows" using assms(4) by (simp add: agg_ok_def)
  note gr = groups_rows [OF b(2) specs]
  have "mset (map (group_row aggs) gs) = mset (agg_rows gis aggs rows)"
  proof (cases "gis = []")
    case False
    then show ?thesis using gr by (simp add: gs_def agg_rows_def)
  next
    case gis: True
    show ?thesis
    proof (cases "rows = []")
      case True
      then have "groups = []" using gr by simp
      then show ?thesis using gis True no_rows_group specs by (simp add: gs_def agg_rows_def)
    next
      case False
      have "remdups (map (row_key gis) rows) = [[]]"
        using remdups_const [OF False, of "[] :: Value list"] by (simp add: gis row_key_def [abs_def])
      then show ?thesis using gr gis by (auto simp: gs_def agg_rows_def)
    qed
  qed
  moreover from this have "rows_fit (output_types ?op) (map (group_row aggs) (agg_groups ?a'))"
    using rows_fit_subset [OF assms(5)] by (simp add: HashAggregate_def)
  ultimately show ?thesis using open' agg_yields [of child gis names ts aggs sched ?a'] unfolding produces_def by auto
qed



text \<open>A batch with given rows.\<close>

definition chunk_of :: "ColumnType list \<Rightarrow> Value list list \<Rightarrow> chunk" where
  "chunk_of ts rows = \<lparr>chunk_types = ts, columns = map (\<lambda>c. vec_of (ts ! c) (map (\<lambda>r. r ! c) rows)) [0..<length ts], cardinality = length rows\<rparr>"

lemma chunk_of_rep: "rows_fit ts rows \<Longrightarrow> chunk_rep (chunk_of ts rows) ts rows"
  by (auto simp: chunk_rep_def cols_rep_def chunk_of_def vec_rep_def rows_fit_def list_all2_conv_all_nth list_all_iff intro!: nth_equalityI)

text \<open>C37. The byte string of a group key does not separate string columns: whenever a string contains the bytes 3, 1, 2
  a different split gives the same byte string, and the two rows are counted as one group, under
  the key of the first.\<close>

theorem KeyString_collision:
  assumes "sep = map char_of [3 :: nat, 1, 2]" and "chunk_rep ch [kVarchar, kVarchar] [[Str (a @ sep @ b), Str c], [Str a, Str (b @ sep @ c)]]"
  shows "KeyString [Str (a @ sep @ b), Str c] = KeyString [Str a, Str (b @ sep @ c)] \<and>
    [Str (a @ sep @ b), Str c] \<noteq> [Str a, Str (b @ sep @ c)] \<and>
    (\<exists>index. run_worker [0, 1] [\<lparr>agg_kind = kCountStar, input_expr = None, input_type = kBigInt, output_type = kBigInt, output_name = n\<rparr>] [ch] [0] =
      Inr ([\<lparr>group_key = [Str (a @ sep @ b), Str c], accs = [new_acc\<lparr>count := 2\<rparr>]\<rparr>], index))"
proof -
  let ?x = "[Str (a @ sep @ b), Str c]" and ?y = "[Str a, Str (b @ sep @ c)]"
  have eq: "KeyString ?y = KeyString ?x" by (simp add: KeyString_def assms(1))
  have card: "cardinality ch = 2" using assms(2) by (simp add: chunk_rep_def)
  note val = chunk_rep_value [OF assms(2)]
  have k0: "mapR (\<lambda>gi. bindR (GetVector ch gi) (\<lambda>v. GetValue v 0)) [0, 1] = Inr ?x"
    and k1: "mapR (\<lambda>gi. bindR (GetVector ch gi) (\<lambda>v. GetValue v 1)) [0, 1] = Inr ?y"
    using val [of 0 0] val [of 0 1] val [of 1 0] val [of 1 1] by simp_all
  have one: "add_i64 0 1 = Inr 1" "add_i64 1 1 = Inr 2" by (simp_all add: add_i64_def i64_result_def)
  let ?aggs = "[\<lparr>agg_kind = kCountStar, input_expr = None, input_type = kBigInt, output_type = kBigInt, output_name = n\<rparr>]"
  let ?g = "\<lambda>n. \<lparr>group_key = ?x, accs = [new_acc\<lparr>count := n\<rparr>]\<rparr>"
  have "ProcessRow [0, 1] ?aggs ch ([], Map.empty) 0 = Inr ([?g 1], [KeyString ?x \<mapsto> 0])"
    using k0 one by (simp add: ProcessRow_def UpdateGroup_def update_acc_def new_acc_def Let_def)
  moreover have "ProcessRow [0, 1] ?aggs ch ([?g 1], [KeyString ?x \<mapsto> 0]) 1 = Inr ([?g 2], [KeyString ?x \<mapsto> 0])"
    using k1 one by (simp add: ProcessRow_def UpdateGroup_def update_acc_def new_acc_def Let_def eq)
  ultimately show ?thesis using eq by (simp add: run_worker_def card numeral_2_eq_2 assms(1))
qed

theorem KeyString_collision_witness:
  "let sep = map char_of [3 :: nat, 1, 2] in
     KeyString [Str (''a'' @ sep @ ''b''), Str ''c''] = KeyString [Str ''a'', Str (''b'' @ sep @ ''c'')]"
proof -
  let ?sep = "map char_of [3 :: nat, 1, 2]"
  let ?rows = "[[Str (''a'' @ ?sep @ ''b''), Str ''c''], [Str ''a'', Str (''b'' @ ?sep @ ''c'')]]"
  have "chunk_rep (chunk_of [kVarchar, kVarchar] ?rows) [kVarchar, kVarchar] ?rows" by (rule chunk_of_rep) (simp add: rows_fit_def less_Suc_eq)
  from KeyString_collision [OF refl this] show ?thesis by (simp only: Let_def)
qed

text \<open>C38. An aggregate over an unsuitable argument is not reported as an error of the query: \<open>SUM\<close> over a string raises an
  exception inside a worker thread, which ends the process, whatever the other rows are.\<close>

theorem sum_varchar_terminates:
  assumes "chunk_rep ch ts rows" and "i < length rows" and "\<forall>j < i. rows ! j ! c = Null" and "c < length ts" and "rows ! i ! c = Str s"
    and "spec = \<lparr>agg_kind = kSum, input_expr = Some (ColumnE c kVarchar), input_type = kVarchar, output_type = kBigInt, output_name = n\<rparr>"
  shows "build_groups [] [spec] [[0]] [ch] init = Inl Terminate"
proof -
  have ev: "EvalExprRow (ColumnE c kVarchar) ch j = Inr (rows ! j ! c)" if "j < length rows" for j
    using EvalExprRow_rep [OF assms(1) that] chunk_rep_row [OF assms(1) that] assms(4) by (simp add: eval_row_def)
  let ?g = "[\<lparr>group_key = [], accs = [new_acc]\<rparr>]" and ?ix = "[KeyString [] \<mapsto> 0]"
  let ?P = "ProcessRow [] [spec] ch"
  have skip: "?P pr j = Inr (?g, ?ix)" if "j < i" "pr = ([], Map.empty) \<or> pr = (?g, ?ix)" for j pr
    using that assms(2,3) ev [of j] by (auto simp: ProcessRow_def UpdateGroup_def update_acc_def assms(6) Let_def)
  have pre: "\<exists>pr. foldR ?P ([], Map.empty) [0..<k] = Inr pr \<and> (pr = ([], Map.empty) \<or> pr = (?g, ?ix))" if "k \<le> i" for k
    using that by (induction k) (use skip in \<open>auto simp: foldR_append\<close>)
  have fail: "\<exists>e. ?P pr i = Inl e" if "pr = ([], Map.empty) \<or> pr = (?g, ?ix)" for pr
    using that assms(2,5) ev [of i]
    by (auto simp: ProcessRow_def UpdateGroup_def update_acc_def update_value_def assms(6) Let_def new_acc_def add_i64_def i64_result_def AsI64Val_def)
  have "[0..<length rows] = [0..<i] @ i # [Suc i..<length rows]" using assms(2) upt_add_eq_append [of 0 i "length rows - i"] by (simp add: upt_conv_Cons)
  moreover obtain pr where "foldR ?P ([], Map.empty) [0..<i] = Inr pr" "pr = ([], Map.empty) \<or> pr = (?g, ?ix)" using pre by blast
  ultimately have "\<exists>e. foldR ?P ([], Map.empty) [0..<length rows] = Inl e" using fail by (fastforce simp: foldR_append)
  moreover have "cardinality ch = length rows" using assms(1) by (simp add: chunk_rep_def)
  ultimately show ?thesis by (auto simp: build_groups_def run_worker_def)
qed

theorem sum_varchar_terminates_witness:
  "build_groups [] [\<lparr>agg_kind = kSum, input_expr = Some (ColumnE 0 kVarchar), input_type = kVarchar, output_type = kBigInt, output_name = ''s''\<rparr>]
     [[0]] [chunk_of [kVarchar] [[Null], [Str ''a'']]] ([], Map.empty) = Inl Terminate"
proof -
  have "chunk_rep (chunk_of [kVarchar] [[Null], [Str ''a'']]) [kVarchar] [[Null], [Str ''a'']]" by (rule chunk_of_rep) (simp add: rows_fit_def)
  from sum_varchar_terminates [OF this, of 1 0 "''a''" _ "''s''" "([], Map.empty)", OF _ _ _ _ refl] show ?thesis by simp
qed

end
