(* ===== verification/Plans.thy ===== *)
theory Plans
  imports Column_Scan Hash_Join Hash_Aggregate
begin

text \<open>
  Trees of operators (the \<open>unique_ptr<Operator>\<close> that \<open>planner/planner.cpp\<close> builds): the tree as
  data, the state of all its nodes, and the operator it stands for, composed from the operators
  of \<open>execution/\<close>.
\<close>

section \<open>Plans\<close>

text \<open>One constructor for each operator class, with the arguments of its C++ constructor.\<close>

datatype plan =
    ScanP column_scan
  | JoinP plan plan nat nat
  | FilterP plan BoundExpr
  | AggregateP plan "nat list" "string list" "ColumnType list" "AggSpec list"
  | ProjectionP plan "nat list" "string list"
  | OrderByP plan nat bool
  | LimitP plan nat

text \<open>\<open>output_names()\<close> and \<open>output_types()\<close>, which the constructors set.\<close>

fun plan_names :: "plan \<Rightarrow> string list" where
  "plan_names (ScanP c) = scan_names c"
| "plan_names (JoinP l r lk rk) = plan_names l @ plan_names r"
| "plan_names (FilterP p e) = plan_names p"
| "plan_names (AggregateP p gis gnames gtypes aggs) = take (length gis) gnames @ map output_name aggs"
| "plan_names (ProjectionP p sources names) = names"
| "plan_names (OrderByP p key desc) = plan_names p"
| "plan_names (LimitP p n) = plan_names p"

fun plan_types :: "plan \<Rightarrow> ColumnType list" where
  "plan_types (ScanP c) = scan_types c"
| "plan_types (JoinP l r lk rk) = plan_types l @ plan_types r"
| "plan_types (FilterP p e) = plan_types p"
| "plan_types (AggregateP p gis gnames gtypes aggs) = take (length gis) gtypes @ map output_type aggs"
| "plan_types (ProjectionP p sources names) = map (\<lambda>s. plan_types p ! s) sources"
| "plan_types (OrderByP p key desc) = plan_types p"
| "plan_types (LimitP p n) = plan_types p"

section \<open>Running a plan\<close>

text \<open>The state of every node of a plan.\<close>

datatype plan_state =
    ScanS scan_state
  | JoinS plan_state plan_state "Value list list" "string \<rightharpoonup> u32 list" chunk nat bool "u32 list option" nat
  | FilterS plan_state chunk
  | AggregateS plan_state "GroupState list" "string \<rightharpoonup> nat" nat
  | ProjectionS plan_state chunk
  | OrderByS plan_state "Value list list" nat
  | LimitS plan_state chunk nat

text \<open>An operator over its own state, as one over the states of plans.\<close>

definition wrap :: "('a \<Rightarrow> plan_state) \<Rightarrow> (plan_state \<Rightarrow> 'a option) \<Rightarrow> 'a Operator \<Rightarrow> plan_state Operator" where
  "wrap up down p = \<lparr>
     output_names = output_names p,
     output_types = output_types p,
     Open = (\<lambda>s. case down s of None \<Rightarrow> Some (Inl (Undefined ''state'')) | Some x \<Rightarrow> bindO (Open p x) (\<lambda>y. Some (Inr (up y)))),
     Next = (\<lambda>s out. case down s of None \<Rightarrow> Some (Inl (Undefined ''state''))
        | Some x \<Rightarrow> bindO (Next p x out) (\<lambda>(out', y). Some (Inr (out', up y)))),
     Close = (\<lambda>s. case down s of None \<Rightarrow> Inr s | Some x \<Rightarrow> bindR (Close p x) (\<lambda>y. Inr (up y)))\<rparr>"

lemma wrap_simps [simp]: "output_names (wrap up down p) = output_names p" "output_types (wrap up down p) = output_types p"
  by (simp_all add: wrap_def)

lemma wrap_yields:
  assumes p: "\<And>x. down (up x) = Some x" and "yields (Next q) ts s tab"
  shows "yields (Next (wrap up down q)) ts (up s) tab"
  using assms(2)
proof (induction rule: yields.induct)
  case (stop s)
  show ?case by (rule yields.stop) (use stop in \<open>fastforce simp: wrap_def p\<close>)
next
  case (more tab s s' rest)
  show ?case by (rule yields.more [OF more(1,2) _ more(5)]) (use more(3) in \<open>fastforce simp: wrap_def p\<close>)
qed

lemma wrap_produces:
  assumes p: "\<And>x. down (up x) = Some x" and "produces q s tab"
  shows "produces (wrap up down q) (up s) tab"
proof -
  obtain s' where s': "Open q s = Some (Inr s')" "yields (Next q) (output_types q) s' tab" using assms(2) by (auto simp: produces_def)
  have "Open (wrap up down q) (up s) = Some (Inr (up s'))" using s'(1) by (simp add: wrap_def p)
  with wrap_yields [of down up, OF p s'(2)] show ?thesis by (simp add: produces_def)
qed

lemma wrap_Close: "(\<And>x. \<exists>y. Close p x = Inr y) \<Longrightarrow> \<exists>s'. Close (wrap up down p) s = Inr s'"
proof -
  assume "\<And>x. \<exists>y. Close p x = Inr y"
  then obtain f where f: "\<And>x. Close p x = Inr (f x)" by metis
  show ?thesis by (cases "down s") (simp_all add: wrap_def f)
qed

fun join_of :: "plan_state \<Rightarrow> (plan_state, plan_state) join_state option" where
  "join_of (JoinS l r brows index ch p d m mp) = Some \<lparr>jleft = l, jright = r, build_rows = brows, build_index = index,
     lchunk = ch, lpos = p, left_done = d, matches = m, mpos = mp\<rparr>"
| "join_of _ = None"

definition of_join :: "(plan_state, plan_state) join_state \<Rightarrow> plan_state" where
  "of_join j = JoinS (jleft j) (jright j) (build_rows j) (build_index j) (lchunk j) (lpos j) (left_done j) (matches j) (mpos j)"

fun agg_of :: "plan_state \<Rightarrow> plan_state agg_state option" where
  "agg_of (AggregateS s groups index cursor) = Some \<lparr>agg_child = s, agg_groups = groups, agg_index = index, agg_cursor = cursor\<rparr>"
| "agg_of _ = None"

definition of_agg :: "plan_state agg_state \<Rightarrow> plan_state" where
  "of_agg a = AggregateS (agg_child a) (agg_groups a) (agg_index a) (agg_cursor a)"

lemma join_agg_of [simp]: "join_of (of_join j) = Some j" "agg_of (of_agg a) = Some a"
  by (simp_all add: of_join_def of_agg_def)

text \<open>
  The operator of a plan. \<open>scans c\<close> is the schedule of the workers of the scan \<open>c\<close>, \<open>work n\<close> the
  assignment of \<open>n\<close> batches to the workers of an aggregation. An index outside the child's
  columns, which the constructor of a projection reads, has been rejected when the plan was built.
\<close>

fun plan_op :: "(column_scan \<Rightarrow> nat list) \<Rightarrow> (nat \<Rightarrow> nat list list) \<Rightarrow> plan \<Rightarrow> plan_state Operator" where
  "plan_op scans work (ScanP c) = wrap ScanS (\<lambda>s. case s of ScanS x \<Rightarrow> Some x | _ \<Rightarrow> None) (ScanOperator c (scans c))"
| "plan_op scans work (JoinP l r lk rk) = wrap of_join join_of (HashJoin (plan_op scans work l) (plan_op scans work r) lk rk)"
| "plan_op scans work (FilterP p e) =
     wrap (\<lambda>(s, ch). FilterS s ch) (\<lambda>s. case s of FilterS x ch \<Rightarrow> Some (x, ch) | _ \<Rightarrow> None) (Filter (plan_op scans work p) e)"
| "plan_op scans work (AggregateP p gis gnames gtypes aggs) =
     wrap of_agg agg_of (HashAggregate (plan_op scans work p) gis gnames gtypes aggs work)"
| "plan_op scans work (ProjectionP p sources names) =
     (case Projection (plan_op scans work p) sources names of
        Inr q \<Rightarrow> wrap (\<lambda>(s, ch). ProjectionS s ch) (\<lambda>s. case s of ProjectionS x ch \<Rightarrow> Some (x, ch) | _ \<Rightarrow> None) q
      | Inl e \<Rightarrow> (plan_op scans work p)\<lparr>output_names := names, output_types := map (\<lambda>s. output_types (plan_op scans work p) ! s) sources,
          Open := \<lambda>_. Some (Inl e)\<rparr>)"
| "plan_op scans work (OrderByP p key desc) =
     wrap (\<lambda>(s, rs, n). OrderByS s rs n) (\<lambda>s. case s of OrderByS x rs n \<Rightarrow> Some (x, rs, n) | _ \<Rightarrow> None) (OrderBy (plan_op scans work p) key desc)"
| "plan_op scans work (LimitP p n) =
     wrap (\<lambda>(s, ch, k). LimitS s ch k) (\<lambda>s. case s of LimitS x ch k \<Rightarrow> Some (x, ch, k) | _ \<Rightarrow> None) (Limit (plan_op scans work p))"

text \<open>The state a plan is constructed in, over the pool \<open>bp\<close>.\<close>

fun plan_init :: "pool \<Rightarrow> plan \<Rightarrow> plan_state" where
  "plan_init bp (ScanP c) = ScanS \<lparr>scan_pool = bp, scan_chunks = [], chunk_cursor = 0\<rparr>"
| "plan_init bp (JoinP l r lk rk) = JoinS (plan_init bp l) (plan_init bp r) [] Map.empty (Initialize []) 0 False None 0"
| "plan_init bp (FilterP p e) = FilterS (plan_init bp p) (Initialize [])"
| "plan_init bp (AggregateP p gis gnames gtypes aggs) = AggregateS (plan_init bp p) [] Map.empty 0"
| "plan_init bp (ProjectionP p sources names) = ProjectionS (plan_init bp p) (Initialize [])"
| "plan_init bp (OrderByP p key desc) = OrderByS (plan_init bp p) [] 0"
| "plan_init bp (LimitP p n) = LimitS (plan_init bp p) (Initialize []) n"

lemma plan_op_output: "output_names (plan_op scans work p) = plan_names p \<and> output_types (plan_op scans work p) = plan_types p"
  by (induction p)
    (auto simp: ScanOperator_def HashJoin_def Filter_def HashAggregate_def Projection_def OrderBy_def Limit_def split: sum.splits)

lemmas plan_op_types [simp] = plan_op_output [THEN conjunct2]

section \<open>What a plan produces\<close>

definition runs :: "(column_scan \<Rightarrow> nat list) \<Rightarrow> (nat \<Rightarrow> nat list list) \<Rightarrow> pool \<Rightarrow> plan \<Rightarrow> Value list list \<Rightarrow> bool" where
  "runs scans work bp p tab \<longleftrightarrow> produces (plan_op scans work p) (plan_init bp p) tab"

lemma runs_scan:
  "produces (ScanOperator c (scans c)) \<lparr>scan_pool = bp, scan_chunks = [], chunk_cursor = 0\<rparr> tab \<Longrightarrow> runs scans work bp (ScanP c) tab"
  using wrap_produces [of "\<lambda>s. case s of ScanS x \<Rightarrow> Some x | _ \<Rightarrow> None" ScanS] by (simp add: runs_def)

lemma runs_filter:
  assumes "runs scans work bp p tab" and "fast_safe e (plan_types p) tab" and "\<forall>r \<in> set tab. \<exists>v. eval_row e r = Inr v"
  shows "runs scans work bp (FilterP p e) (filter (keep e) tab)"
proof -
  note f = wrap_produces [of "\<lambda>s. case s of FilterS x ch \<Rightarrow> Some (x, ch) | _ \<Rightarrow> None" "\<lambda>(s, ch). FilterS s ch" "Filter (plan_op scans work p) e"
    "(plan_init bp p, Initialize [])"]
  have "produces (Filter (plan_op scans work p) e) (plan_init bp p, Initialize []) (filter (keep e) tab)"
    using Filter_rows [of "plan_op scans work p"] assms by (simp add: runs_def)
  from f [OF _ this] show ?thesis by (auto simp: runs_def)
qed

lemma runs_limit: "runs scans work bp p tab \<Longrightarrow> runs scans work bp (LimitP p n) (take n tab)"
  unfolding runs_def plan_op.simps plan_init.simps
  using wrap_produces [of "\<lambda>s. case s of LimitS x ch k \<Rightarrow> Some (x, ch, k) | _ \<Rightarrow> None" "\<lambda>(s, ch, k). LimitS s ch k" _ "(plan_init bp p, Initialize [], n)"]
    Limit_rows [of "plan_op scans work p" "plan_init bp p" tab "Initialize []" n] by auto

lemma runs_projection:
  assumes "runs scans work bp p tab" and "\<forall>c \<in> set sources. c < length (plan_types p)"
  shows "runs scans work bp (ProjectionP p sources names) (map (\<lambda>r. map ((!) r) sources) tab)"
proof -
  obtain q where q: "Projection (plan_op scans work p) sources names = Inr q" using assms(2) by (simp add: Projection_def)
  have "produces q (plan_init bp p, Initialize []) (map (\<lambda>r. map ((!) r) sources) tab)"
    using Projection_produces [OF _ q] assms(1) by (simp add: runs_def)
  from wrap_produces [of "\<lambda>s. case s of ProjectionS x ch \<Rightarrow> Some (x, ch) | _ \<Rightarrow> None" "\<lambda>(s, ch). ProjectionS s ch", OF _ this]
  show ?thesis by (auto simp: runs_def q)
qed

lemma sort_by_cong: "(\<And>a b. a \<in> set xs \<Longrightarrow> b \<in> set xs \<Longrightarrow> lt a b = lt' a b) \<Longrightarrow> sort_by lt xs = sort_by lt' xs"
proof (induction xs)
  case (Cons x xs)
  have "insort_by lt x ys = insort_by lt' x ys" if "set ys \<subseteq> set xs" for ys
    using that Cons.prems by (induction ys) auto
  then show ?case using Cons by simp
qed simp

lemma sort_by_map: "(\<And>a b. a \<in> set xs \<Longrightarrow> b \<in> set xs \<Longrightarrow> lt' (f a) (f b) = lt a b) \<Longrightarrow> sort_by lt' (map f xs) = map f (sort_by lt xs)"
proof (induction xs)
  case (Cons x xs)
  have "insort_by lt' (f x) (map f ys) = map f (insort_by lt x ys)" if "set ys \<subseteq> set xs" for ys
    using that Cons.prems by (induction ys) auto
  then show ?case using Cons by simp
qed simp

lemma runs_order_by:
  assumes "runs scans work bp p tab" and "rows_fit (plan_types p) tab" and "key < length (plan_types p)" and "\<forall>r \<in> set tab. \<not> is_nan_value (r ! key)"
  shows "runs scans work bp (OrderByP p key desc) (sort_by (\<lambda>a b. key_less desc (a ! key) (b ! key)) tab)"
proof -
  have ok: "key_ok (plan_types p ! key) key tab"
    using assms(2-4) by (auto simp: key_ok_def rows_fit_def list_all2_conv_all_nth)
  have "(row_less key desc a b = Inr True) = key_less desc (a ! key) (b ! key)" if "a \<in> set tab" "b \<in> set tab" for a b
    using ok that row_less_key [of key a b "plan_types p ! key" desc] by (auto simp: key_ok_def)
  then have "sort_by (\<lambda>a b. row_less key desc a b = Inr True) tab = sort_by (\<lambda>a b. key_less desc (a ! key) (b ! key)) tab"
    by (rule sort_by_cong)
  then have "produces (OrderBy (plan_op scans work p) key desc) (plan_init bp p, [], 0) (sort_by (\<lambda>a b. key_less desc (a ! key) (b ! key)) tab)"
    using OrderBy_sorts [of "plan_op scans work p" "plan_init bp p" tab key desc 0] assms unfolding runs_def plan_op_types by simp
  from wrap_produces [of "\<lambda>s. case s of OrderByS x rs n \<Rightarrow> Some (x, rs, n) | _ \<Rightarrow> None" "\<lambda>(s, rs, n). OrderByS s rs n", OF _ this]
  show ?thesis by (auto simp: runs_def)
qed

lemma ScanOperator_types [simp]: "output_types (ScanOperator c sched) = scan_types c"
  by (simp add: ScanOperator_def)

lemma runs_join:
  assumes "runs scans work bp (ScanP l) L" and "runs scans work bp (ScanP r) R" and "lk < length (scan_types l)" and "rk < length (scan_types r)"
    and "length R \<le> 2 ^ 32" and "rows_fit (scan_types l @ scan_types r) (join_rows lk rk L R)"
  shows "runs scans work bp (JoinP (ScanP l) (ScanP r) lk rk) (join_rows lk rk L R)"
proof -
  let ?l = "plan_op scans work (ScanP l)" and ?r = "plan_op scans work (ScanP r)"
  let ?j = "\<lparr>jleft = plan_init bp (ScanP l), jright = plan_init bp (ScanP r), build_rows = [], build_index = Map.empty,
     lchunk = Initialize [], lpos = 0, left_done = False, matches = None, mpos = 0\<rparr>"
  have "\<exists>s'. Close ?r s = Inr s'" for s unfolding plan_op.simps by (rule wrap_Close) (simp add: ScanOperator_def)
  from HashJoin_rows [of ?l ?j L ?r R lk rk, OF _ _ _ _ _ _ _ this] assms
  have "produces (HashJoin ?l ?r lk rk) ?j (join_rows lk rk L R)" unfolding runs_def by simp
  from wrap_produces [of join_of of_join, OF _ this] show ?thesis unfolding runs_def plan_op.simps by (simp add: of_join_def)
qed

lemma runs_aggregate:
  assumes "runs scans work bp p tab" and "\<forall>g \<in> set gis. g < length (plan_types p)" and "valid_schedule work"
    and "agg_ok aggs (row_key gis) tab" and "rows_fit (take (length gis) ts @ map output_type aggs) (agg_rows gis aggs tab)"
  shows "\<exists>out. runs scans work bp (AggregateP p gis names ts aggs) out \<and> mset out = mset (agg_rows gis aggs tab)"
proof -
  obtain out where out: "produces (HashAggregate (plan_op scans work p) gis names ts aggs work)
      \<lparr>agg_child = plan_init bp p, agg_groups = [], agg_index = Map.empty, agg_cursor = 0\<rparr> out" "mset out = mset (agg_rows gis aggs tab)"
    using HashAggregate_rows [of "plan_op scans work p" "plan_init bp p" tab gis work aggs ts names 0] assms unfolding runs_def plan_op_types by blast
  from wrap_produces [of agg_of of_agg, OF _ out(1)] have "runs scans work bp (AggregateP p gis names ts aggs) out"
    by (simp add: runs_def of_agg_def)
  with out(2) show ?thesis by blast
qed

end
