(* ===== verification/Planner.thy ===== *)
theory Planner
  imports Plans Catalogs
begin

text \<open>
  The planner (\<open>planner/planner.cpp\<close>): name resolution, binding of expressions, the columns a
  query needs, the range pushed down into a scan, the join, the residual filter, aggregation,
  projection, and sorting. C++ leaves open which of the two operands of \<open>Binary(op, Bind(l),
  Bind(r))\<close> is bound first; the model binds the left one first, which matters only for the
  message when both fail.
\<close>

section \<open>Names\<close>

definition PlanFail :: "string \<Rightarrow> 'a result" where
  "PlanFail m = Inl (RuntimeError (''planner: '' @ m))"

definition EndsWith :: "string \<Rightarrow> string \<Rightarrow> bool" where
  "EndsWith s suf \<longleftrightarrow> length suf \<le> length s \<and> drop (length s - length suf) s = suf"

definition Resolve :: "string list \<Rightarrow> string \<Rightarrow> string \<Rightarrow> nat result" where
  "Resolve names alias cname =
     (if alias \<noteq> [] then
        let target = alias @ ''.'' @ cname in
        case find (\<lambda>i. names ! i = target) [0..<length names] of
          Some i \<Rightarrow> Inr i
        | None \<Rightarrow> PlanFail (''unknown column: '' @ target)
      else
        case filter (\<lambda>i. names ! i = cname \<or> EndsWith (names ! i) (CHR ''.'' # cname)) [0..<length names] of
          [] \<Rightarrow> PlanFail (''unknown column: '' @ cname)
        | [i] \<Rightarrow> Inr i
        | _ \<Rightarrow> PlanFail (''ambiguous column: '' @ cname))"

fun OpSym :: "BinOp \<Rightarrow> string" where
  "OpSym kEq = ''=''"
| "OpSym kNe = ''!=''"
| "OpSym kLt = ''<''"
| "OpSym kLe = ''<=''"
| "OpSym kGt = ''>''"
| "OpSym kGe = ''>=''"
| "OpSym kAnd = ''AND''"
| "OpSym kOr = ''OR''"
| "OpSym kAdd = ''+''"
| "OpSym kSub = ''-''"
| "OpSym kMul = ''*''"
| "OpSym kDiv = ''/''"

fun ExprToString :: "Expr \<Rightarrow> string" where
  "ExprToString (ColumnRefExpr c) = snd c"
| "ExprToString (LiteralExpr v) = ValueToString v"
| "ExprToString (BinaryExpr p l r) = ''('' @ ExprToString l @ '' '' @ OpSym p @ '' '' @ ExprToString r @ '')''"
| "ExprToString _ = ''?''"

definition arg_string :: "Expr option \<Rightarrow> string" where
  "arg_string e = (case e of None \<Rightarrow> ''?'' | Some a \<Rightarrow> ExprToString a)"

fun AggName :: "AggKind \<Rightarrow> Expr option \<Rightarrow> string" where
  "AggName kCountStar e = ''COUNT(*)''"
| "AggName kCount e = ''COUNT('' @ arg_string e @ '')''"
| "AggName kSum e = ''SUM('' @ arg_string e @ '')''"
| "AggName kAvg e = ''AVG('' @ arg_string e @ '')''"
| "AggName kMin e = ''MIN('' @ arg_string e @ '')''"
| "AggName kMax e = ''MAX('' @ arg_string e @ '')''"

section \<open>Binding\<close>

fun ToBoundOp :: "BinOp \<Rightarrow> BoundOp" where
  "ToBoundOp BinOp.kEq = BoundOp.kEq"
| "ToBoundOp BinOp.kNe = BoundOp.kNe"
| "ToBoundOp BinOp.kLt = BoundOp.kLt"
| "ToBoundOp BinOp.kLe = BoundOp.kLe"
| "ToBoundOp BinOp.kGt = BoundOp.kGt"
| "ToBoundOp BinOp.kGe = BoundOp.kGe"
| "ToBoundOp BinOp.kAnd = BoundOp.kAnd"
| "ToBoundOp BinOp.kOr = BoundOp.kOr"
| "ToBoundOp BinOp.kAdd = BoundOp.kAdd"
| "ToBoundOp BinOp.kSub = BoundOp.kSub"
| "ToBoundOp BinOp.kMul = BoundOp.kMul"
| "ToBoundOp BinOp.kDiv = BoundOp.kDiv"

definition bind_name :: "string list \<Rightarrow> ColumnType list \<Rightarrow> string \<Rightarrow> string \<Rightarrow> BoundExpr result" where
  "bind_name names types alias cname =
     bindR (Resolve names alias cname) (\<lambda>idx. if idx < length types then Inr (ColumnE idx (types ! idx)) else Inl (Undefined ''types[idx]''))"

text \<open>\<open>IN\<close> as a chain of equalities; the loop keeps the chain built so far, none at first.\<close>

definition bind_in :: "string list \<Rightarrow> ColumnType list \<Rightarrow> Expr \<Rightarrow> Value list \<Rightarrow> BoundExpr result" where
  "bind_in names types column vs =
     (case column of
        ColumnRefExpr c \<Rightarrow>
          bindR (foldR (\<lambda>chain v.
              bindR (bind_name names types (fst c) (snd c)) (\<lambda>cname.
                let eq = BinaryE BoundOp.kEq cname (LiteralE v) in
                Inr (Some (case chain of None \<Rightarrow> eq | Some ch \<Rightarrow> BinaryE BoundOp.kOr ch eq)))) None vs)
            (\<lambda>chain. case chain of None \<Rightarrow> PlanFail ''empty IN list'' | Some ch \<Rightarrow> Inr ch)
      | _ \<Rightarrow> PlanFail ''IN requires a column on the left'')"

fun Bind :: "string list \<Rightarrow> ColumnType list \<Rightarrow> Expr \<Rightarrow> BoundExpr result" where
  "Bind names types (ColumnRefExpr c) = bind_name names types (fst c) (snd c)"
| "Bind names types (LiteralExpr v) = Inr (LiteralE v)"
| "Bind names types (NotExpr e) = bindR (Bind names types e) (\<lambda>b. Inr (NotE b))"
| "Bind names types (AggregateExpr k a) = bind_name names types [] (AggName k a)"
| "Bind names types (InExpr column vs) = bind_in names types column vs"
| "Bind names types (BinaryExpr p l r) =
     bindR (Bind names types l) (\<lambda>bl. bindR (Bind names types r) (\<lambda>br. Inr (BinaryE (ToBoundOp p) bl br)))"

fun Flatten :: "Expr \<Rightarrow> Expr list" where
  "Flatten (BinaryExpr p l r) = (if p = BinOp.kAnd then Flatten l @ Flatten r else [BinaryExpr p l r])"
| "Flatten e = [e]"

text \<open>A walk over the column references with the callback \<open>cb\<close>, which updates \<open>n\<close>.\<close>

fun WalkRefs :: "('n \<Rightarrow> column_ref \<Rightarrow> 'n result) \<Rightarrow> 'n \<Rightarrow> Expr \<Rightarrow> 'n result" where
  "WalkRefs cb n (ColumnRefExpr c) = cb n c"
| "WalkRefs cb n (LiteralExpr v) = Inr n"
| "WalkRefs cb n (NotExpr e) = WalkRefs cb n e"
| "WalkRefs cb n (AggregateExpr k a) = (case a of None \<Rightarrow> Inr n | Some e \<Rightarrow> WalkRefs cb n e)"
| "WalkRefs cb n (InExpr e vs) = WalkRefs cb n e"
| "WalkRefs cb n (BinaryExpr p l r) = bindR (WalkRefs cb n l) (\<lambda>n1. WalkRefs cb n1 r)"

definition walk_opt :: "('n \<Rightarrow> column_ref \<Rightarrow> 'n result) \<Rightarrow> 'n \<Rightarrow> Expr option \<Rightarrow> 'n result" where
  "walk_opt cb n e = (case e of None \<Rightarrow> Inr n | Some x \<Rightarrow> WalkRefs cb n x)"

section \<open>Tables and the columns they need\<close>

record ScanInfo =
  si_table :: TableMeta
  si_alias :: string
  col_indices :: "nat list"
  name_to_scanpos :: "string \<rightharpoonup> nat"

type_synonym from_table = "TableMeta \<times> string"

definition resolve_table :: "Catalog \<Rightarrow> TableRef \<Rightarrow> from_table result" where
  "resolve_table catalog tr =
     (case GetTable catalog (tr_name tr) of
        None \<Rightarrow> PlanFail (''unknown table: '' @ tr_name tr)
      | Some meta \<Rightarrow> Inr (meta, if tr_alias tr = [] then tr_name tr else tr_alias tr))"

definition owning_alias :: "from_table list \<Rightarrow> string \<Rightarrow> string result" where
  "owning_alias scans cname =
     bindR (foldR (\<lambda>found (meta, alias).
         if FindColumn (tm_schema meta) cname \<noteq> None then
           (if found \<noteq> [] then PlanFail (''ambiguous column: '' @ cname) else Inr alias)
         else Inr found) [] scans)
       (\<lambda>found. if found = [] then PlanFail (''unknown column: '' @ cname) else Inr found)"

text \<open>The map from aliases to sets of column names, as the set of its pairs without repetitions.\<close>

type_synonym needed = "column_ref list"

definition add_ref :: "from_table list \<Rightarrow> needed \<Rightarrow> column_ref \<Rightarrow> needed result" where
  "add_ref scans needed c =
     bindR (if fst c = [] then owning_alias scans (snd c) else Inr (fst c)) (\<lambda>a. Inr (List.insert (a, snd c) needed))"

definition aggregated :: "select \<Rightarrow> bool" where
  "aggregated stmt \<longleftrightarrow> HasAggregates stmt \<or> group_by stmt \<noteq> []"

definition needed_columns :: "from_table list \<Rightarrow> select \<Rightarrow> needed result" where
  "needed_columns scans stmt =
     bindR (if select_star stmt then
              Inr (foldl (\<lambda>n (meta, alias). foldl (\<lambda>n c. List.insert (alias, col_name c) n) n (tm_schema meta)) [] scans)
            else foldR (\<lambda>n it. WalkRefs (add_ref scans) n (item_expr it)) [] (items stmt)) (\<lambda>n1.
     bindR (walk_opt (add_ref scans) n1 (where_clause stmt)) (\<lambda>n2.
     bindR (walk_opt (add_ref scans) n2 (having stmt)) (\<lambda>n3.
     bindR (foldR (add_ref scans) n3 (group_by stmt)) (\<lambda>n4.
       Inr (case order_by_clause stmt of
              Some ob \<Rightarrow> if aggregated stmt then n4
                         else (case add_ref scans n4 ([], ob_output_name ob) of Inr n5 \<Rightarrow> n5 | Inl _ \<Rightarrow> n4)
            | None \<Rightarrow> n4)))))"

fun join_columns :: "Expr \<Rightarrow> (column_ref \<times> column_ref) option" where
  "join_columns (BinaryExpr BinOp.kEq (ColumnRefExpr l) (ColumnRefExpr r)) = Some (l, r)"
| "join_columns _ = None"

text \<open>The position of the join predicate among the conjuncts, with its two columns.\<close>

definition find_join :: "Expr list \<Rightarrow> (nat \<times> column_ref \<times> column_ref) option" where
  "find_join conjuncts =
     (case find (\<lambda>i. join_columns (conjuncts ! i) \<noteq> None) [0..<length conjuncts] of
        None \<Rightarrow> None
      | Some i \<Rightarrow> (case join_columns (conjuncts ! i) of None \<Rightarrow> None | Some (l, r) \<Rightarrow> Some (i, l, r)))"

text \<open>The columns of a scan; the entry of its alias gets a first column when it has none.\<close>

definition scan_columns :: "needed \<Rightarrow> from_table \<Rightarrow> (needed \<times> ScanInfo) result" where
  "scan_columns needed = (\<lambda>(meta, alias).
     let names_of = (\<lambda>n. remdups (map snd (filter (\<lambda>(a, _). a = alias) n))); schema = tm_schema meta in
     bindR (if names_of needed = [] then bindR (GetColumn schema 0) (\<lambda>c. Inr (List.insert (alias, col_name c) needed)) else Inr needed) (\<lambda>needed1.
     bindR (mapR (\<lambda>cn. case FindColumn schema cn of Some i \<Rightarrow> Inr i | None \<Rightarrow> Inl (Undefined ''*FindColumn(cn)'')) (names_of needed1)) (\<lambda>found.
       let idxs = sort found in
       bindR (foldR (\<lambda>m pos. bindR (GetColumn schema (idxs ! pos)) (\<lambda>c. Inr (m(col_name c \<mapsto> pos)))) Map.empty [0..<length idxs]) (\<lambda>m.
         Inr (needed1, \<lparr>si_table = meta, si_alias = alias, col_indices = idxs, name_to_scanpos = m\<rparr>)))))"

fun all_scan_columns :: "needed \<Rightarrow> from_table list \<Rightarrow> ScanInfo list result" where
  "all_scan_columns needed [] = Inr []"
| "all_scan_columns needed (t # ts) =
     bindR (scan_columns needed t) (\<lambda>(needed1, si). bindR (all_scan_columns needed1 ts) (\<lambda>sis. Inr (si # sis)))"

section \<open>The range pushed down\<close>

definition min64 :: "64 word" where "min64 = 2 ^ 63"
definition max64 :: "64 word" where "max64 = 2 ^ 63 - 1"

text \<open>The bounds for a comparison of a column with \<open>v\<close>, if it has any; the addition and the subtraction are signed.\<close>

definition zone_bounds :: "BinOp \<Rightarrow> 64 word \<Rightarrow> (64 word \<times> 64 word) option result" where
  "zone_bounds p v =
     (case p of
        BinOp.kEq \<Rightarrow> Inr (Some (v, v))
      | BinOp.kGe \<Rightarrow> Inr (Some (v, max64))
      | BinOp.kGt \<Rightarrow> if v = max64 then Inl (Undefined ''v + 1'') else Inr (Some (v + 1, max64))
      | BinOp.kLe \<Rightarrow> Inr (Some (min64, v))
      | BinOp.kLt \<Rightarrow> if v = min64 then Inl (Undefined ''v - 1'') else Inr (Some (min64, v - 1))
      | _ \<Rightarrow> Inr None)"

definition int_literal :: "Value \<Rightarrow> 64 word option" where
  "int_literal v = (case v of Int32 i \<Rightarrow> Some (scast i) | Int64 l \<Rightarrow> Some l | _ \<Rightarrow> None)"

definition pushdown_of :: "ScanInfo \<Rightarrow> Expr \<Rightarrow> (nat \<times> 64 word \<times> 64 word) option result" where
  "pushdown_of si e =
     (case e of
        BinaryExpr p (ColumnRefExpr c) (LiteralExpr v) \<Rightarrow>
          (case name_to_scanpos si (snd c) of
             None \<Rightarrow> Inr None
           | Some pos \<Rightarrow>
               (case FindColumn (tm_schema (si_table si)) (snd c) of
                  None \<Rightarrow> Inl (Undefined ''*FindColumn(column_name)'')
                | Some i \<Rightarrow>
                    bindR (GetColumn (tm_schema (si_table si)) i) (\<lambda>cname.
                      if col_type cname \<notin> {kInt, kBigInt} then Inr None
                      else (case int_literal v of
                              None \<Rightarrow> Inr None
                            | Some x \<Rightarrow> bindR (zone_bounds p x) (\<lambda>b. Inr (case b of None \<Rightarrow> None | Some (lo, hi) \<Rightarrow> Some (pos, lo, hi)))))))
      | _ \<Rightarrow> Inr None)"

text \<open>The first conjunct that can be pushed down.\<close>

fun pushdown :: "ScanInfo \<Rightarrow> Expr list \<Rightarrow> (nat \<times> 64 word \<times> 64 word) option result" where
  "pushdown si [] = Inr None"
| "pushdown si (e # es) = bindR (pushdown_of si e) (\<lambda>z. case z of None \<Rightarrow> pushdown si es | Some b \<Rightarrow> Inr (Some b))"

section \<open>The bottom of the plan\<close>

definition scan_pos :: "ScanInfo \<Rightarrow> column_ref \<Rightarrow> nat result" where
  "scan_pos si c = (case name_to_scanpos si (snd c) of None \<Rightarrow> Inl (OutOfRange ''map::at'') | Some p \<Rightarrow> Inr p)"

definition join_plan :: "ScanInfo list \<Rightarrow> column_scan list \<Rightarrow> column_ref \<Rightarrow> column_ref \<Rightarrow> plan result" where
  "join_plan infos ops lc rc =
     (let swapped = (fst lc = si_alias (infos ! 1) \<or> fst rc = si_alias (infos ! 0));
          left_scan = (if swapped then 1 else 0); right_scan = (if swapped then 0 else 1);
          left_col = (if fst lc = si_alias (infos ! left_scan) then lc else rc);
          right_col = (if fst lc = si_alias (infos ! left_scan) then rc else lc) in
      bindR (scan_pos (infos ! left_scan) left_col) (\<lambda>left_key.
      bindR (scan_pos (infos ! right_scan) right_col) (\<lambda>right_key.
        Inr (JoinP (ScanP (ops ! left_scan)) (ScanP (ops ! right_scan)) left_key right_key))))"

definition bind_conjuncts :: "string list \<Rightarrow> ColumnType list \<Rightarrow> Expr list \<Rightarrow> BoundExpr option result" where
  "bind_conjuncts names types residual =
     foldR (\<lambda>pred e. bindR (Bind names types e) (\<lambda>b.
       Inr (Some (case pred of None \<Rightarrow> b | Some p \<Rightarrow> BinaryE BoundOp.kAnd p b)))) None residual"

definition where_plan :: "string list \<Rightarrow> ColumnType list \<Rightarrow> Expr list \<Rightarrow> plan \<Rightarrow> plan result" where
  "where_plan names types residual root =
     bindR (bind_conjuncts names types residual) (\<lambda>pred. Inr (case pred of None \<Rightarrow> root | Some p \<Rightarrow> FilterP root p))"

text \<open>The constructor of a projection reads the type of every source column.\<close>

definition project :: "plan \<Rightarrow> nat list \<Rightarrow> string list \<Rightarrow> plan result" where
  "project root sources names =
     (if \<forall>s \<in> set sources. s < length (plan_types root) then Inr (ProjectionP root sources names) else Inl (Undefined ''output_types()[s]''))"

definition item_name :: "SelectItem \<Rightarrow> string \<Rightarrow> string" where
  "item_name it derived = (if output_alias it = [] then derived else output_alias it)"

section \<open>Aggregation\<close>

definition agg_spec :: "string list \<Rightarrow> ColumnType list \<Rightarrow> AggKind \<Rightarrow> Expr option \<Rightarrow> AggSpec result" where
  "agg_spec names types k arg =
     (if k = kCountStar then
        Inr \<lparr>agg_kind = k, input_expr = None, input_type = kInt, output_type = kBigInt, output_name = AggName k arg\<rparr>
      else bindR (case arg of None \<Rightarrow> PlanFail ''unsupported expression in predicate'' | Some e \<Rightarrow> Bind names types e) (\<lambda>b.
        let t = InferBoundType b in
        Inr \<lparr>agg_kind = k, input_expr = Some b, input_type = t,
          output_type = (case k of kSum \<Rightarrow> if t = kFloat then kFloat else kBigInt | kAvg \<Rightarrow> kFloat | kMin \<Rightarrow> t | kMax \<Rightarrow> t | _ \<Rightarrow> kBigInt),
          output_name = AggName k arg\<rparr>))"

definition add_agg :: "string list \<Rightarrow> ColumnType list \<Rightarrow> AggSpec list \<Rightarrow> AggKind \<Rightarrow> Expr option \<Rightarrow> AggSpec list result" where
  "add_agg names types specs k arg =
     (if AggName k arg \<in> set (map output_name specs) then Inr specs
      else bindR (agg_spec names types k arg) (\<lambda>s. Inr (specs @ [s])))"

fun collect_aggs :: "string list \<Rightarrow> ColumnType list \<Rightarrow> AggSpec list \<Rightarrow> Expr \<Rightarrow> AggSpec list result" where
  "collect_aggs names types specs (AggregateExpr k arg) = add_agg names types specs k arg"
| "collect_aggs names types specs (NotExpr e) = collect_aggs names types specs e"
| "collect_aggs names types specs (BinaryExpr p l r) =
     bindR (collect_aggs names types specs l) (\<lambda>specs1. collect_aggs names types specs1 r)"
| "collect_aggs names types specs _ = Inr specs"

definition agg_item :: "string list \<Rightarrow> SelectItem \<Rightarrow> (nat \<times> string) result" where
  "agg_item out_names it =
     (case item_expr it of
        AggregateExpr k a \<Rightarrow> bindR (Resolve out_names [] (AggName k a)) (\<lambda>i. Inr (i, item_name it (AggName k a)))
      | ColumnRefExpr c \<Rightarrow> bindR (Resolve out_names [] (snd c)) (\<lambda>i. Inr (i, item_name it (snd c)))
      | _ \<Rightarrow> PlanFail ''unsupported SELECT item in aggregate query'')"

definition aggregate_plan :: "select \<Rightarrow> string list \<Rightarrow> ColumnType list \<Rightarrow> plan \<Rightarrow> plan result" where
  "aggregate_plan stmt names types root =
     bindR (mapR (\<lambda>g. Resolve names (fst g) (snd g)) (group_by stmt)) (\<lambda>group_idx.
     bindR (mapR (\<lambda>i. if i < length types then Inr (types ! i) else Inl (Undefined ''combined_types[idx]'')) group_idx) (\<lambda>group_types.
     bindR (foldR (\<lambda>specs it. collect_aggs names types specs (item_expr it)) [] (items stmt)) (\<lambda>specs1.
     bindR (case having stmt of None \<Rightarrow> Inr specs1 | Some h \<Rightarrow> collect_aggs names types specs1 h) (\<lambda>specs.
       let group_names = map snd (group_by stmt);
           out_names = group_names @ map output_name specs;
           out_types = group_types @ map output_type specs;
           agg = AggregateP root group_idx group_names group_types specs in
       bindR (case having stmt of None \<Rightarrow> Inr agg | Some h \<Rightarrow> bindR (Bind out_names out_types h) (\<lambda>p. Inr (FilterP agg p))) (\<lambda>root1.
       bindR (mapR (agg_item out_names) (items stmt)) (\<lambda>proj.
         project root1 (map fst proj) (map snd proj)))))))"

section \<open>Queries without aggregates\<close>

definition bare_name :: "string \<Rightarrow> string" where
  "bare_name full = (if CHR ''.'' \<in> set full then tl (dropWhile (\<lambda>c. c \<noteq> CHR ''.'') full) else full)"

definition plain_item :: "string list \<Rightarrow> SelectItem \<Rightarrow> (nat \<times> string) result" where
  "plain_item names it =
     (case item_expr it of
        ColumnRefExpr c \<Rightarrow> bindR (Resolve names (fst c) (snd c)) (\<lambda>i. Inr (i, item_name it (snd c)))
      | _ \<Rightarrow> PlanFail ''non-aggregate query: SELECT item must be a column'')"

definition projection_items :: "select \<Rightarrow> bool \<Rightarrow> string list \<Rightarrow> (nat \<times> string) list result" where
  "projection_items stmt single names =
     (if select_star stmt then Inr (map (\<lambda>i. (i, if single then bare_name (names ! i) else names ! i)) [0..<length names])
      else mapR (plain_item names) (items stmt))"

text \<open>The last projected column of a name.\<close>

definition last_index :: "string list \<Rightarrow> string \<Rightarrow> nat option" where
  "last_index names n = find (\<lambda>i. names ! i = n) (rev [0..<length names])"

definition plain_plan :: "select \<Rightarrow> bool \<Rightarrow> string list \<Rightarrow> plan \<Rightarrow> plan result" where
  "plain_plan stmt single names root =
     bindR (projection_items stmt single names) (\<lambda>proj.
       let sources = map fst proj; proj_names = map snd proj in
       case order_by_clause stmt of
         None \<Rightarrow> project root sources proj_names
       | Some ob \<Rightarrow>
           (case last_index proj_names (ob_output_name ob) of
              None \<Rightarrow> bindR (Resolve names [] (ob_output_name ob)) (\<lambda>cidx. project (OrderByP root cidx (descending ob)) sources proj_names)
            | Some pidx \<Rightarrow> bindR (project root sources proj_names) (\<lambda>p. Inr (OrderByP p pidx (descending ob)))))"

section \<open>The whole plan\<close>

definition bottom_plan :: "select \<Rightarrow> from_table list \<Rightarrow> needed \<Rightarrow> (string list \<times> ColumnType list \<times> plan) result" where
  "bottom_plan stmt scans needed =
     (let conjuncts = (case where_clause stmt of None \<Rightarrow> [] | Some w \<Rightarrow> Flatten w);
          join = (if length scans = 2 then find_join conjuncts else None) in
      if length scans = 2 \<and> join = None then PlanFail ''two-table query requires an equi-join predicate''
      else
        bindR (case join of None \<Rightarrow> Inr needed
               | Some (_, lc, rc) \<Rightarrow> bindR (add_ref scans needed lc) (\<lambda>n1. add_ref scans n1 rc)) (\<lambda>needed1.
        bindR (all_scan_columns needed1 scans) (\<lambda>infos.
        bindR (mapR (\<lambda>si. ColumnScan (si_table si) (si_alias si) (col_indices si)) infos) (\<lambda>ops.
        let names = concat (map scan_names ops); types = concat (map scan_types ops) in
        bindR (if length scans = 1 then pushdown (infos ! 0) conjuncts else Inr None) (\<lambda>zone.
        bindR (case join of
                 None \<Rightarrow> Inr (ScanP (case zone of None \<Rightarrow> ops ! 0 | Some (p, lo, hi) \<Rightarrow> SetZoneFilter p lo hi (ops ! 0)))
               | Some (_, lc, rc) \<Rightarrow> join_plan infos ops lc rc) (\<lambda>root.
        let residual = (case join of None \<Rightarrow> conjuncts | Some (i, _, _) \<Rightarrow> take i conjuncts @ drop (Suc i) conjuncts) in
        bindR (where_plan names types residual root) (\<lambda>root1. Inr (names, types, root1))))))))"

definition PlanSelect :: "select \<Rightarrow> Catalog \<Rightarrow> plan result" where
  "PlanSelect stmt catalog =
     (if select.tables stmt = [] then PlanFail ''SELECT without FROM is not supported''
      else if 2 < length (select.tables stmt) then PlanFail ''more than two-table joins are not supported''
      else
        bindR (mapR (resolve_table catalog) (select.tables stmt)) (\<lambda>scans.
        bindR (needed_columns scans stmt) (\<lambda>needed.
        bindR (bottom_plan stmt scans needed) (\<lambda>(names, types, root).
        bindR (if aggregated stmt then
                 bindR (aggregate_plan stmt names types root) (\<lambda>p.
                   case order_by_clause stmt of
                     None \<Rightarrow> Inr p
                   | Some ob \<Rightarrow> bindR (Resolve (plan_names p) [] (ob_output_name ob)) (\<lambda>i. Inr (OrderByP p i (descending ob))))
               else plain_plan stmt (length scans = 1) names root) (\<lambda>p.
          Inr (case limit_clause stmt of None \<Rightarrow> p | Some n \<Rightarrow> LimitP p n))))))"

end
