(* ===== verification/Queries.thy ===== *)
theory Queries
  imports Planner
begin

text \<open>
  What the plans of \<open>planner/planner.cpp\<close> compute, against a reference that knows nothing of
  pruned columns, pushed-down ranges or operators: the query over the whole rows of its tables.
\<close>

section \<open>Names of columns\<close>

text \<open>A name without a dot; \<open>base\<close> is what follows the last dot.\<close>

definition plain :: "string \<Rightarrow> bool" where
  "plain s \<longleftrightarrow> CHR ''.'' \<notin> set s"

definition base :: "string \<Rightarrow> string" where
  "base s = rev (takeWhile (\<lambda>c. c \<noteq> CHR ''.'') (rev s))"

lemma base_simps [simp]: "plain s \<Longrightarrow> base s = s" "base (p @ CHR ''.'' # s) = base s"
proof -
  have all: "(\<forall>x \<in> set xs. x \<noteq> CHR ''.'') \<longrightarrow> takeWhile (\<lambda>c. c \<noteq> CHR ''.'') xs = xs" for xs :: string
    by (induction xs) auto
  then have r: "(\<forall>x \<in> set s. x \<noteq> CHR ''.'') \<longrightarrow> takeWhile (\<lambda>c. c \<noteq> CHR ''.'') (rev s) = rev s" by (metis set_rev)
  show "base s = s" if "plain s"
    using r that unfolding base_def plain_def by (metis rev_rev_ident)
  show "base (p @ CHR ''.'' # s) = base s"
  proof (cases "CHR ''.'' \<in> set s")
    case True
    then show ?thesis using takeWhile_append1 [of "CHR ''.''" "rev s"] by (simp add: base_def)
  next
    case False
    then have "takeWhile (\<lambda>c. c \<noteq> CHR ''.'') (rev s @ CHR ''.'' # rev p) = rev s" by (subst takeWhile_append2) auto
    moreover have "takeWhile (\<lambda>c. c \<noteq> CHR ''.'') (rev s) = rev s" using r False by auto
    ultimately show ?thesis by (simp only: base_def rev_append rev.simps append_assoc append.simps)
  qed
qed

definition matches_name :: "string \<Rightarrow> column_ref \<Rightarrow> bool" where
  "matches_name s c \<longleftrightarrow> (if fst c \<noteq> [] then s = fst c @ ''.'' @ snd c else s = snd c \<or> EndsWith s (CHR ''.'' # snd c))"

lemma matches_base: "matches_name s c \<Longrightarrow> base s = base (snd c)"
proof -
  assume m: "matches_name s c"
  have "\<exists>p. s = p @ CHR ''.'' # snd c" if "EndsWith s (CHR ''.'' # snd c)"
    using that unfolding EndsWith_def by (metis append_take_drop_id)
  then show ?thesis using m by (auto simp: matches_name_def split: if_splits)
qed

lemma distinct_length_le_one: "distinct xs \<Longrightarrow> \<forall>x \<in> set xs. \<forall>y \<in> set xs. x = y \<Longrightarrow> length xs \<le> 1"
  by (metis List.finite_set One_nat_def card_le_Suc0_iff_eq distinct_card)

text \<open>
  A reference is clear when at most one name matches it, as every reference is when no two names
  have the same base. Resolving a clear reference is finding the name that matches.
\<close>

definition clear :: "string list \<Rightarrow> column_ref \<Rightarrow> bool" where
  "clear names c \<longleftrightarrow> (\<forall>j < length names. \<forall>k < length names. matches_name (names ! j) c \<longrightarrow> matches_name (names ! k) c \<longrightarrow> j = k)"

lemma clear_distinct: "distinct (map base names) \<Longrightarrow> clear names c"
  unfolding clear_def using matches_base by (metis distinct_conv_nth length_map nth_map)

lemma Resolve_unique:
  assumes "clear names c"
  shows "Resolve names (fst c) (snd c) = Inr i \<longleftrightarrow> i < length names \<and> matches_name (names ! i) c"
proof -
  have u: "j = k" if "j < length names" "k < length names" "matches_name (names ! j) c" "matches_name (names ! k) c" for j k
    using that assms unfolding clear_def by blast
  show ?thesis
  proof (cases "fst c = []")
    case False
    show ?thesis
    proof (cases "find (\<lambda>i. names ! i = fst c @ ''.'' @ snd c) [0..<length names]")
      case None
      then have "Resolve names (fst c) (snd c) = PlanFail (''unknown column: '' @ fst c @ ''.'' @ snd c)" using False by (simp add: Resolve_def Let_def)
      then show ?thesis using None False by (auto simp: PlanFail_def matches_name_def find_None_iff)
    next
      case (Some k)
      then have k: "k < length names" "matches_name (names ! k) c" using False by (auto simp: find_Some_iff matches_name_def)
      have "Resolve names (fst c) (snd c) = Inr k" using False Some by (simp add: Resolve_def Let_def)
      then show ?thesis using k u by auto
    qed
  next
    case True
    define ms where "ms = filter (\<lambda>i. matches_name (names ! i) c) [0..<length names]"
    have r: "Resolve names (fst c) (snd c) = (case ms of [] \<Rightarrow> PlanFail (''unknown column: '' @ snd c) | [i] \<Rightarrow> Inr i | _ \<Rightarrow> PlanFail (''ambiguous column: '' @ snd c))"
      using True by (simp add: Resolve_def ms_def matches_name_def)
    have ms: "x \<in> set ms \<longleftrightarrow> x < length names \<and> matches_name (names ! x) c" for x by (auto simp: ms_def)
    have "distinct ms" by (simp add: ms_def)
    moreover have "\<forall>x \<in> set ms. \<forall>y \<in> set ms. x = y" using u by (simp add: ms)
    ultimately have "length ms \<le> 1" by (rule distinct_length_le_one)
    then consider "ms = []" | k where "ms = [k]" by (cases ms) auto
    then show ?thesis
    proof cases
      case 1
      then show ?thesis using r ms by (auto simp: PlanFail_def)
    next
      case 2
      then show ?thesis using r ms u by fastforce
    qed
  qed
qed

section \<open>Expressions over some of the columns\<close>

fun map_cols :: "(nat \<Rightarrow> nat) \<Rightarrow> BoundExpr \<Rightarrow> BoundExpr" where
  "map_cols f (ColumnE i t) = ColumnE (f i) t"
| "map_cols f (LiteralE v) = LiteralE v"
| "map_cols f (NotE e) = NotE (map_cols f e)"
| "map_cols f (BinaryE p l r) = BinaryE p (map_cols f l) (map_cols f r)"

text \<open>The expressions the planner builds over \<open>n\<close> columns.\<close>

fun bound_ok :: "nat \<Rightarrow> BoundExpr \<Rightarrow> bool" where
  "bound_ok n (ColumnE i t) \<longleftrightarrow> i < n"
| "bound_ok n (LiteralE v) \<longleftrightarrow> True"
| "bound_ok n (NotE e) \<longleftrightarrow> bound_ok n e"
| "bound_ok n (BinaryE p l r) \<longleftrightarrow> p \<notin> {kColumn, kLiteral, kNot} \<and> bound_ok n l \<and> bound_ok n r"

lemma eval_map_cols:
  "bound_ok (length cols) e \<Longrightarrow> \<forall>k \<in> set cols. k < length r \<Longrightarrow> eval_row (map_cols ((!) cols) e) r = eval_row e (map ((!) r) cols)"
  unfolding eval_row_def by (induction e) (auto cong: if_cong)

lemma distinct_nths: "distinct ys \<Longrightarrow> distinct cols \<Longrightarrow> \<forall>k \<in> set cols. k < length ys \<Longrightarrow> distinct (map ((!) ys) cols)"
  by (auto simp: distinct_map inj_on_def nth_eq_iff_index_eq)

lemma bind_name_ok:
  "bind_name names types a c = Inr b \<longleftrightarrow> (\<exists>i. Resolve names a c = Inr i \<and> i < length types \<and> b = ColumnE i (types ! i))"
  by (auto simp: bind_name_def split: if_splits)

lemma Resolve_bound: "Resolve names a c = Inr i \<Longrightarrow> i < length names"
proof -
  assume r: "Resolve names a c = Inr i"
  show ?thesis
  proof (cases "a = []")
    case False
    then show ?thesis using r by (auto simp: Resolve_def PlanFail_def Let_def find_Some_iff split: option.splits)
  next
    case True
    then have "filter (\<lambda>i. names ! i = c \<or> EndsWith (names ! i) (CHR ''.'' # c)) [0..<length names] = [i]"
      using r by (auto simp: Resolve_def PlanFail_def split: list.splits)
    then have "i \<in> set (filter (\<lambda>i. names ! i = c \<or> EndsWith (names ! i) (CHR ''.'' # c)) [0..<length names])" by simp
    then show ?thesis by simp
  qed
qed

lemma bind_in_bound:
  assumes "bind_in names types e vs = Inr b" and "\<And>a c b. bind_name names types a c = Inr b \<Longrightarrow> bound_ok n b"
  shows "bound_ok n b"
proof -
  obtain c where c: "e = ColumnRefExpr c" using assms(1) by (cases e) (auto simp: bind_in_def PlanFail_def)
  let ?step = "\<lambda>chain v. bindR (bind_name names types (fst c) (snd c)) (\<lambda>col.
                let eq = BinaryE BoundOp.kEq col (LiteralE v) in
                Inr (Some (case chain of None \<Rightarrow> eq | Some ch \<Rightarrow> BinaryE BoundOp.kOr ch eq)))"
  have "foldR ?step s vs = Inr (Some b) \<Longrightarrow> pred_option (bound_ok n) s \<Longrightarrow> bound_ok n b" for s
  proof (induction vs arbitrary: s)
    case (Cons v vs)
    obtain col where col: "bind_name names types (fst c) (snd c) = Inr col" using Cons.prems(1) by auto
    have "bound_ok n col" using assms(2) col by blast
    let ?s = "Some (case s of None \<Rightarrow> BinaryE BoundOp.kEq col (LiteralE v) | Some ch \<Rightarrow> BinaryE BoundOp.kOr ch (BinaryE BoundOp.kEq col (LiteralE v)))"
    have "foldR ?step ?s vs = Inr (Some b)" using Cons.prems(1) col by (simp add: Let_def)
    moreover have "pred_option (bound_ok n) ?s" using Cons.prems(2) \<open>bound_ok n col\<close> by (cases s) simp_all
    ultimately show ?case by (rule Cons.IH)
  qed simp
  from this [of None] show ?thesis using assms(1) by (auto simp: bind_in_def c PlanFail_def split: option.splits)
qed

lemma ToBoundOp_proper [simp]: "ToBoundOp p \<noteq> kColumn" "ToBoundOp p \<noteq> kLiteral" "ToBoundOp p \<noteq> kNot"
  by (cases p; simp)+

lemma Bind_bound: "Bind names types e = Inr b \<Longrightarrow> bound_ok (length names) b"
proof (induction e arbitrary: b)
  case (InExpr e vs)
  have "bound_ok (length names) b" if "bind_name names types a c = Inr b" for a c b
    using that Resolve_bound by (auto simp: bind_name_ok)
  then show ?case using bind_in_bound [of names types e vs b "length names"] InExpr.prems by simp
qed (auto simp: bind_name_ok dest: Resolve_bound)

text \<open>Binding against some columns of a table agrees with binding against all of them.\<close>

lemma clear_subset:
  assumes "clear names c" and "distinct cols" and "\<forall>k \<in> set cols. k < length names"
  shows "clear (map ((!) names) cols) c"
  unfolding clear_def
proof (intro allI impI)
  fix j k assume jk: "j < length (map ((!) names) cols)" "k < length (map ((!) names) cols)"
    "matches_name (map ((!) names) cols ! j) c" "matches_name (map ((!) names) cols ! k) c"
  then have "cols ! j = cols ! k" using assms(1,3) by (simp add: clear_def)
  then show "j = k" using jk(1,2) assms(2) by (simp add: nth_eq_iff_index_eq)
qed

lemma Resolve_subset:
  assumes "clear names (a, c)" and "distinct cols" and "\<forall>k \<in> set cols. k < length names" and "Resolve (map ((!) names) cols) a c = Inr i"
  shows "Resolve names a c = Inr (cols ! i)"
proof -
  from Resolve_unique [OF clear_subset [OF assms(1-3)], of i] have "i < length cols" "matches_name (names ! (cols ! i)) (a, c)" using assms(4) by auto
  then show ?thesis using Resolve_unique [OF assms(1), of "cols ! i"] assms(3) by simp
qed

text \<open>The references by which an expression is bound; an aggregate is bound by its name, its argument where it is computed.\<close>

fun expr_refs :: "Expr \<Rightarrow> column_ref set" where
  "expr_refs (ColumnRefExpr c) = {c}"
| "expr_refs (LiteralExpr v) = {}"
| "expr_refs (NotExpr e) = expr_refs e"
| "expr_refs (AggregateExpr k a) = insert ([], AggName k a) (case a of None \<Rightarrow> {} | Some e \<Rightarrow> expr_refs e)"
| "expr_refs (InExpr e vs) = expr_refs e"
| "expr_refs (BinaryExpr p l r) = expr_refs l \<union> expr_refs r"

lemma Bind_subset:
  assumes "distinct cols" and "\<forall>k \<in> set cols. k < length names" and "length types = length names"
  shows "Bind (map ((!) names) cols) (map ((!) types) cols) e = Inr b \<Longrightarrow> \<forall>c \<in> expr_refs e. clear names c \<Longrightarrow> Bind names types e = Inr (map_cols ((!) cols) b)"
proof (induction e arbitrary: b)
  have name: "bind_name names types a c = Inr (map_cols ((!) cols) b)" if "bind_name (map ((!) names) cols) (map ((!) types) cols) a c = Inr b" "clear names (a, c)" for a c b
    using that Resolve_subset [OF that(2) assms(1,2)] assms(2,3) by (auto simp: bind_name_ok)
  {
    case (InExpr e vs)
    then obtain c where c: "e = ColumnRefExpr c" by (cases e) (auto simp: bind_in_def PlanFail_def)
    have cl: "clear names (fst c, snd c)" using InExpr.prems(2) c by simp
    let ?step = "\<lambda>names types chain v. bindR (bind_name names types (fst c) (snd c)) (\<lambda>col.
                let eq = BinaryE BoundOp.kEq col (LiteralE v) in
                Inr (Some (case chain of None \<Rightarrow> eq | Some ch \<Rightarrow> BinaryE BoundOp.kOr ch eq)))"
    have "foldR (?step (map ((!) names) cols) (map ((!) types) cols)) s vs = Inr (Some b) \<Longrightarrow>
      foldR (?step names types) (map_option (map_cols ((!) cols)) s) vs = Inr (Some (map_cols ((!) cols) b))" for s
    proof (induction vs arbitrary: s)
      case (Cons v vs)
      obtain col where col: "bind_name (map ((!) names) cols) (map ((!) types) cols) (fst c) (snd c) = Inr col" using Cons.prems(1) by auto
      let ?s = "Some (case s of None \<Rightarrow> BinaryE BoundOp.kEq col (LiteralE v) | Some ch \<Rightarrow> BinaryE BoundOp.kOr ch (BinaryE BoundOp.kEq col (LiteralE v)))"
      have "foldR (?step (map ((!) names) cols) (map ((!) types) cols)) ?s vs = Inr (Some b)" using Cons.prems col by (simp add: Let_def)
      from Cons.IH [OF this] show ?case using name [OF col cl] by (cases s) (simp_all add: Let_def)
    qed simp
    from this [of None] show ?case using InExpr by (auto simp: bind_in_def c PlanFail_def split: option.splits)
  next
    case (ColumnRefExpr c)
    then show ?case using name by simp
  next
    case (AggregateExpr k a)
    then show ?case using name by simp
  }
qed auto

section \<open>Predicates\<close>

definition eval_truth :: "BoundExpr \<Rightarrow> Value list \<Rightarrow> bool result" where
  "eval_truth e r = bindR (eval_row e r) (\<lambda>v. Inr (ValueTruthy v))"

lemma keep_truth: "keep e r \<longleftrightarrow> eval_truth e r = Inr True"
  by (cases "eval_row e r") (simp_all add: keep_def eval_truth_def)

lemma truthy_truth [simp]: "ValueTruthy (truth b) = b"
  by (simp add: truth_def)

lemma eval_truth_and: "eval_truth (BinaryE BoundOp.kAnd p b) r = bindR (eval_truth p r) (\<lambda>x. if x then eval_truth b r else Inr False)"
  unfolding eval_truth_def eval_row_def
  by (cases "eval_with (\<lambda>i. if i < length r then Inr (r ! i) else Inl (Undefined ''columns_[i]'')) p";
      cases "eval_with (\<lambda>i. if i < length r then Inr (r ! i) else Inl (Undefined ''columns_[i]'')) b") simp_all

text \<open>The chain of conjuncts evaluates as the whole \<open>WHERE\<close> expression does.\<close>

definition and_chain :: "BoundExpr option \<Rightarrow> BoundExpr \<Rightarrow> Value list \<Rightarrow> bool result" where
  "and_chain s b r = (case s of None \<Rightarrow> eval_truth b r | Some p \<Rightarrow> bindR (eval_truth p r) (\<lambda>x. if x then eval_truth b r else Inr False))"

abbreviation conj_step :: "string list \<Rightarrow> ColumnType list \<Rightarrow> BoundExpr option \<Rightarrow> Expr \<Rightarrow> BoundExpr option result" where
  "conj_step names types pred e \<equiv> bindR (Bind names types e) (\<lambda>b. Inr (Some (case pred of None \<Rightarrow> b | Some p \<Rightarrow> BinaryE BoundOp.kAnd p b)))"

lemma conj_single:
  assumes "foldR (conj_step names types) s [e] = Inr s'"
  shows "\<exists>q b. Bind names types e = Inr b \<and> s' = Some q \<and> (\<forall>r. eval_truth q r = and_chain s b r) \<and>
    (q = b \<or> (\<exists>x y. q = BinaryE BoundOp.kAnd x y))"
  using assms by (cases s) (auto simp: and_chain_def eval_truth_and)

lemma Flatten_not_Nil [simp]: "Flatten e \<noteq> []"
  by (induction e) simp_all

lemma conj_last: "foldR (conj_step names types) (Some p) es = Inr (Some q) \<Longrightarrow> es \<noteq> [] \<Longrightarrow> \<exists>x y. q = BinaryE BoundOp.kAnd x y"
proof (induction es arbitrary: p)
  case (Cons e es)
  obtain b where "Bind names types e = Inr b" using Cons.prems(1) by auto
  then show ?case using Cons.prems Cons.IH by (cases es) auto
qed simp

lemma conj_chain:
  assumes "foldR (conj_step names types) s (Flatten w) = Inr s'"
  shows "\<exists>q b. Bind names types w = Inr b \<and> s' = Some q \<and> (\<forall>r. eval_truth q r = and_chain s b r) \<and>
    (q = b \<or> (\<exists>x y. q = BinaryE BoundOp.kAnd x y))"
  using assms
proof (induction w arbitrary: s s')
  case (BinaryExpr p l r)
  show ?case
  proof (cases "p = BinOp.kAnd")
    case True
    then obtain s1 where s1: "foldR (conj_step names types) s (Flatten l) = Inr s1" "foldR (conj_step names types) s1 (Flatten r) = Inr s'"
      using BinaryExpr.prems by (auto simp: foldR_append)
    obtain q1 b1 where l: "Bind names types l = Inr b1" "s1 = Some q1" "\<forall>r. eval_truth q1 r = and_chain s b1 r" using BinaryExpr.IH(1) [OF s1(1)] by blast
    obtain q b where r: "Bind names types r = Inr b" "s' = Some q" "\<forall>r. eval_truth q r = and_chain s1 b r" "q = b \<or> (\<exists>x y. q = BinaryE BoundOp.kAnd x y)"
      using BinaryExpr.IH(2) [OF s1(2)] by blast
    have "eval_truth q z = and_chain s (BinaryE BoundOp.kAnd b1 b) z" for z
      using l(2,3) r(3) by (cases s; cases "eval_truth (the s) z"; cases "eval_truth b1 z") (auto simp: and_chain_def eval_truth_and)
    moreover have "\<exists>x y. q = BinaryE BoundOp.kAnd x y"
      using s1(2) l(2) conj_last [of names types q1 "Flatten r" q] r(2) Flatten_not_Nil [of r] by simp
    ultimately show ?thesis using True l(1) r(1,2) by auto
  next
    case False
    then show ?thesis using conj_single [of names types s "BinaryExpr p l r" s'] BinaryExpr.prems by auto
  qed
qed (simp only: Flatten.simps, erule conj_single)+

lemma fast_safe_and: "bound_ok (length ts) x \<Longrightarrow> bound_ok (length ts) y \<Longrightarrow> fast_safe (BinaryE BoundOp.kAnd x y) ts tab"
  by (cases x; cases y) (auto simp: is_compare_def)

lemma conj_bound: "foldR (conj_step names types) s es = Inr (Some q) \<Longrightarrow> pred_option (bound_ok (length names)) s \<Longrightarrow> bound_ok (length names) q"
proof (induction es arbitrary: s)
  case (Cons e es)
  obtain b where b: "Bind names types e = Inr b" using Cons.prems(1) by auto
  have "pred_option (bound_ok (length names)) (Some (case s of None \<Rightarrow> b | Some p \<Rightarrow> BinaryE BoundOp.kAnd p b))"
    using Cons.prems(2) Bind_bound [OF b] by (cases s) simp_all
  then show ?case using Cons.IH Cons.prems(1) b by auto
qed simp

lemma where_pred:
  assumes "bind_conjuncts names types (Flatten w) = Inr pred"
  shows "\<exists>q b. pred = Some q \<and> Bind names types w = Inr b \<and> bound_ok (length names) b \<and> (\<forall>r. eval_truth q r = eval_truth b r) \<and>
    (\<forall>ts tab. length ts = length names \<longrightarrow> fast_safe b ts tab \<longrightarrow> fast_safe q ts tab)"
proof -
  have f: "foldR (conj_step names types) None (Flatten w) = Inr pred" using assms by (simp add: bind_conjuncts_def)
  from conj_chain [OF this] obtain q b where q: "Bind names types w = Inr b" "pred = Some q" "\<forall>r. eval_truth q r = eval_truth b r"
    "q = b \<or> (\<exists>x y. q = BinaryE BoundOp.kAnd x y)" by (auto simp: and_chain_def)
  have "bound_ok (length names) q" using conj_bound [of names types None "Flatten w" q] f q(2) by simp
  then have "\<forall>ts tab. length ts = length names \<longrightarrow> fast_safe b ts tab \<longrightarrow> fast_safe q ts tab" using q(4) fast_safe_and by auto
  then show ?thesis using q Bind_bound by blast
qed

lemma conjuncts_kept: "Bind names types w = Inr b \<Longrightarrow> keep b r \<Longrightarrow> e \<in> set (Flatten w) \<Longrightarrow> \<exists>c. Bind names types e = Inr c \<and> keep c r"
proof (induction w arbitrary: b)
  case (BinaryExpr p x y)
  obtain bx by' where xy: "Bind names types x = Inr bx" "Bind names types y = Inr by'" "b = BinaryE (ToBoundOp p) bx by'"
    using BinaryExpr.prems(1) by auto
  show ?case
  proof (cases "p = BinOp.kAnd")
    case True
    then have "keep bx r" "keep by' r" using BinaryExpr.prems(2) xy(3) by (auto simp: keep_truth eval_truth_and bindR_Inr_iff split: if_splits)
    then show ?thesis using BinaryExpr.IH xy(1,2) BinaryExpr.prems(3) True by auto
  next
    case False
    then show ?thesis using BinaryExpr.prems by auto
  qed
qed auto

text \<open>The fast path is as safe on some columns as on all of them.\<close>

lemma fast_safe_subset:
  assumes "fast_safe (map_cols ((!) cols) b) types tab" and "bound_ok (length cols) b"
  shows "fast_safe b (map ((!) types) cols) (map (\<lambda>r. map ((!) r) cols) tab)"
  using assms by (cases "(b, types, tab)" rule: fast_safe.cases) auto

section \<open>The range of a conjunct\<close>

lemma range_limits: "sint max64 = 2 ^ 63 - 1" "sint min64 = - (2 ^ 63)"
  by (simp_all add: max64_def min64_def)

lemma zone_bounds_in_range:
  assumes "zone_bounds p v = Inr (Some (lo, hi))" and "keep (BinaryE (ToBoundOp p) (ColumnE i t) (LiteralE lit)) r" and "int_literal lit = Some v"
    and "i < length r" and "r ! i = Null \<or> int_of_value (r ! i) = Some x"
  shows "in_range lo hi (r ! i)"
proof -
  have lit: "int_of_value lit = Some (sint v)" "lit \<noteq> Null"
    using assms(3) by (auto simp: int_literal_def sint_scast64 split: Value.splits)
  have p: "p \<in> {BinOp.kEq, BinOp.kGe, BinOp.kGt, BinOp.kLe, BinOp.kLt}" using assms(1) by (cases p) (auto simp: zone_bounds_def)
  have nn: "r ! i \<noteq> Null"
    using assms(2,4) p by (auto simp: keep_def eval_row_def is_arith_def CompareResult_def)
  then have x: "int_of_value (r ! i) = Some x" using assms(5) by blast
  have cmp: "CompareValues (r ! i) lit = Inr (order_int x (sint v))" by (rule CompareValues_ints [OF x lit(1)])
  have k: "compare_ok (ToBoundOp p) (order_int x (sint v)) = Some True"
    using assms(2,4) p nn lit(2) cmp by (auto simp: keep_def eval_row_def is_arith_def CompareResult_def IsNull_def)
  have b: "- (2 ^ 63) \<le> x \<and> x < 2 ^ 63"
  proof (cases "r ! i")
    case (Int32 k)
    then show ?thesis using x sint_bounds(1,2) [of k] by simp
  next
    case (Int64 k)
    then show ?thesis using x sint_bounds(3,4) [of k] by simp
  qed (use x in simp_all)
  have plus: "sint (v + 1) = sint v + 1" if "v \<noteq> max64"
  proof -
    have "sint v \<noteq> sint max64" using that signed_word_eqI by blast
    then show ?thesis using sint_bounds(3,4) [of v] range_limits(1) by (simp add: sint_word_ariths signed_take_bit_int_eq_self)
  qed
  have minus: "sint (v - 1) = sint v - 1" if "v \<noteq> min64"
  proof -
    have "sint v \<noteq> sint min64" using that signed_word_eqI by blast
    then show ?thesis using sint_bounds(3,4) [of v] range_limits(2) by (simp add: sint_word_ariths signed_take_bit_int_eq_self)
  qed
  show ?thesis
    using assms(1) p k x b plus minus range_limits
    by (auto simp: zone_bounds_def in_range_def order_int_def split: if_splits)
qed

section \<open>One table\<close>

text \<open>The names of all columns of a table, its rows, and what makes its names resolvable.\<close>

definition table_names :: "string \<Rightarrow> schema \<Rightarrow> string list" where
  "table_names alias s = map (\<lambda>c. if alias = [] then col_name c else alias @ ''.'' @ col_name c) s"

definition schema_named :: "schema \<Rightarrow> bool" where
  "schema_named s \<longleftrightarrow> distinct (map col_name s) \<and> (\<forall>c \<in> set s. plain (col_name c))"

definition table_rows :: "TableMeta \<Rightarrow> (nat \<Rightarrow> nat \<Rightarrow> Value list) \<Rightarrow> (nat \<Rightarrow> nat) \<Rightarrow> Value list list" where
  "table_rows tbl vals n = concat (map (rg_rows [0..<length (tm_schema tbl)] vals n) [0..<length (row_groups tbl)])"

lemma base_table_names: "schema_named s \<Longrightarrow> map base (table_names alias s) = map col_name s"
  by (auto simp: table_names_def schema_named_def)

lemma table_names_distinct: "schema_named s \<Longrightarrow> distinct (map base (table_names alias s))"
  by (metis base_table_names schema_named_def)

lemma length_table_names [simp]: "length (table_names alias s) = length s"
  by (simp add: table_names_def)

lemma matches_column: "schema_named s \<Longrightarrow> i < length s \<Longrightarrow> matches_name (table_names alias s ! i) c \<Longrightarrow> col_name (s ! i) = base (snd c)"
  using matches_base [of "table_names alias s ! i" c] base_table_names [of s "alias"] by (metis length_map nth_map)

lemma mapR_GetColumn: "mapR (GetColumn s) cols = Inr cs \<longleftrightarrow> (\<forall>k \<in> set cols. k < length s) \<and> cs = map ((!) s) cols"
proof -
  have "mapR (GetColumn s) cols = Inr (map ((!) s) cols)" if "\<forall>k \<in> set cols. k < length s"
    using that by (intro mapR_Inr) (simp add: GetColumn_def)
  moreover have "\<forall>k \<in> set cols. k < length s" if "mapR (GetColumn s) cols = Inr cs"
    using that by (induction cols arbitrary: cs) (auto simp: GetColumn_def split: if_splits)
  ultimately show ?thesis by auto
qed

lemma ColumnScan_fields:
  assumes "ColumnScan tbl alias cols = Inr c"
  shows "scan_table c = tbl" "col_idx c = cols" "scan_names c = map ((!) (table_names alias (tm_schema tbl))) cols"
    "scan_types c = map ((!) (Types (tm_schema tbl))) cols" "zone_filter c = None" "\<forall>k \<in> set cols. k < length (tm_schema tbl)"
  using assms by (auto simp: ColumnScan_def mapR_GetColumn table_names_def Types_def)

text \<open>The columns chosen for a scan.\<close>

lemma FindColumn_distinct:
  assumes "mapR (\<lambda>cn. case FindColumn s cn of Some i \<Rightarrow> Inr i | None \<Rightarrow> Inl e) cns = Inr found"
  shows "map (\<lambda>i. col_name (s ! i)) found = cns \<and> (\<forall>i \<in> set found. i < length s)"
  using assms
proof (induction cns arbitrary: found)
  case (Cons cn cns)
  then obtain i rest where i: "FindColumn s cn = Some i" "mapR (\<lambda>cn. case FindColumn s cn of Some i \<Rightarrow> Inr i | None \<Rightarrow> Inl e) cns = Inr rest" "found = i # rest"
    by (auto split: option.splits)
  have "i < length s \<and> col_name (s ! i) = cn" using i(1) FindColumn_Some [of s cn i] by simp
  then show ?case using Cons.IH [OF i(2)] i(3) by simp
qed simp

lemma scan_columns_ok:
  assumes "scan_columns needed (tbl, alias) = Inr (needed', si)"
  shows "si_table si = tbl" "si_alias si = alias" "col_indices si \<noteq> []" "distinct (col_indices si)" "sorted (col_indices si)"
    "\<forall>k \<in> set (col_indices si). k < length (tm_schema tbl)"
    "name_to_scanpos si s = Some pos \<Longrightarrow> pos < length (col_indices si) \<and> col_name (tm_schema tbl ! (col_indices si ! pos)) = s"
    "c \<in> set (tm_schema tbl) \<Longrightarrow> (alias, col_name c) \<in> set needed \<Longrightarrow> col_name c \<in> (\<lambda>k. col_name (tm_schema tbl ! k)) ` set (col_indices si)"
proof -
  let ?s = "tm_schema tbl" and ?of = "\<lambda>n. remdups (map snd (filter (\<lambda>(a, _). a = alias) n))"
  let ?F = "\<lambda>idxs m pos. bindR (GetColumn ?s (idxs ! pos)) (\<lambda>c. Inr (m(col_name c \<mapsto> pos)))"
  obtain found m where f: "mapR (\<lambda>cn. case FindColumn ?s cn of Some i \<Rightarrow> Inr i | None \<Rightarrow> Inl (Undefined ''*FindColumn(cn)'')) (?of needed') = Inr found"
    "foldR (?F (sort found)) Map.empty [0..<length (sort found)] = Inr m"
    "si = \<lparr>si_table = tbl, si_alias = alias, col_indices = sort found, name_to_scanpos = m\<rparr>"
    "if ?of needed = [] then \<exists>c. needed' = List.insert (alias, c) needed else needed' = needed"
    using assms by (auto simp: scan_columns_def Let_def split: if_splits)
  note found = FindColumn_distinct [OF f(1)]
  have ne: "?of needed' \<noteq> []" using f(4) by (auto split: if_splits simp: filter_empty_conv List.insert_def)
  have d: "distinct found" using found distinct_remdups by (metis distinct_map)
  show "si_table si = tbl" "si_alias si = alias" "sorted (col_indices si)" "distinct (col_indices si)" using f(3) d by simp_all
  show "\<forall>k \<in> set (col_indices si). k < length ?s" using found f(3) by simp
  have "length found \<noteq> 0" using ne found by (metis length_0_conv length_map)
  then show "col_indices si \<noteq> []" using f(3) by (metis ScanInfo.select_convs(3) length_0_conv length_sort)
  have "\<exists>m'. foldR (?F (sort found)) Map.empty [0..<length (sort found)] = Inr m' \<and>
    (\<forall>s pos. m' s = Some pos \<longrightarrow> pos < length (sort found) \<and> col_name (?s ! (sort found ! pos)) = s)"
  proof (rule foldR_upt [where P = "\<lambda>k m'. \<forall>s pos. m' s = Some pos \<longrightarrow> pos < k \<and> col_name (?s ! (sort found ! pos)) = s"])
    fix i and m' :: "string \<rightharpoonup> nat"
    assume i: "i < length (sort found)" and IH: "\<forall>s pos. m' s = Some pos \<longrightarrow> pos < i \<and> col_name (?s ! (sort found ! pos)) = s"
    have "sort found ! i \<in> set found" using i by (metis nth_mem set_sort)
    then have "GetColumn ?s (sort found ! i) = Inr (?s ! (sort found ! i))" using found by (simp add: GetColumn_def)
    then show "\<exists>s'. ?F (sort found) m' i = Inr s' \<and> (\<forall>s pos. s' s = Some pos \<longrightarrow> pos < Suc i \<and> col_name (?s ! (sort found ! pos)) = s)"
      using IH by (auto intro: less_SucI)
  qed simp
  then show "name_to_scanpos si s = Some pos \<Longrightarrow> pos < length (col_indices si) \<and> col_name (?s ! (col_indices si ! pos)) = s"
    using f(2,3) by auto
  assume c: "c \<in> set ?s" "(alias, col_name c) \<in> set needed"
  then have "col_name c \<in> set (?of needed)" by force
  moreover from this have "?of needed \<noteq> []" by (metis empty_iff empty_set)
  then have "needed' = needed" using f(4) by (simp only: if_False)
  ultimately have "col_name c \<in> set (map (\<lambda>i. col_name (?s ! i)) found)" using found by simp
  then show "col_name c \<in> (\<lambda>k. col_name (?s ! k)) ` set (col_indices si)" using f(3) by auto
qed

text \<open>Rows over some columns of a table.\<close>

abbreviation pick :: "nat list \<Rightarrow> Value list \<Rightarrow> Value list" where
  "pick cols r \<equiv> map ((!) r) cols"

lemma all_rows_pick:
  assumes "\<forall>k \<in> set (col_idx c). k < length (tm_schema (scan_table c))"
  shows "all_rows c vals n = map (pick (col_idx c)) (table_rows (scan_table c) vals n)"
proof -
  have "rg_rows (col_idx c) vals n rg = map (pick (col_idx c)) (rg_rows [0..<length (tm_schema (scan_table c))] vals n rg)" for rg
    using assms by (auto simp: rg_rows_def)
  then have "rg_rows (col_idx c) vals n = (\<lambda>rg. map (pick (col_idx c)) (rg_rows [0..<length (tm_schema (scan_table c))] vals n rg))" by (rule ext)
  then show ?thesis unfolding all_rows_def table_rows_def map_concat by (simp add: o_def)
qed

lemma table_rows_fit:
  assumes "table_at bp tbl vals n" and "r \<in> set (table_rows tbl vals n)"
  shows "list_all2 value_fits (Types (tm_schema tbl)) r"
proof -
  obtain rg i where r: "rg < length (row_groups tbl)" "i < n rg" "r = map (\<lambda>k. vals rg k ! i) [0..<length (tm_schema tbl)]"
    using assms(2) by (auto simp: table_rows_def rg_rows_def)
  have "value_fits (col_type (tm_schema tbl ! k)) (vals rg k ! i)" if "k < length (tm_schema tbl)" for k
    using assms(1) r(1,2) that by (auto simp: table_at_def column_ok_def list_all_length)
  then show ?thesis using r(3) by (simp add: list_all2_conv_all_nth Types_def)
qed

text \<open>The reference for \<open>WHERE\<close>, and what is asked of it: evaluation on the rows of the table
  raises no error, and no comparison leaves the types of the fast path.\<close>

definition where_rows :: "string list \<Rightarrow> ColumnType list \<Rightarrow> Expr option \<Rightarrow> Value list list \<Rightarrow> Value list list" where
  "where_rows names types w tab =
     (case w of None \<Rightarrow> tab | Some e \<Rightarrow> (case Bind names types e of Inl _ \<Rightarrow> [] | Inr b \<Rightarrow> filter (keep b) tab))"

definition where_ok :: "string list \<Rightarrow> ColumnType list \<Rightarrow> Expr option \<Rightarrow> Value list list \<Rightarrow> bool" where
  "where_ok names types w tab \<longleftrightarrow>
     (\<forall>e b. w = Some e \<longrightarrow> Bind names types e = Inr b \<longrightarrow> fast_safe b types tab \<and> (\<forall>r \<in> set tab. \<exists>v. eval_row b r = Inr v))"

lemma pushdown_conjunct: "pushdown si es = Inr (Some z) \<Longrightarrow> \<exists>e \<in> set es. pushdown_of si e = Inr (Some z)"
  by (induction es) (auto split: option.splits)

text \<open>A row that a conjunct keeps lies in the range pushed down for it.\<close>

lemma pushdown_kept:
  assumes "scan_columns needed (tbl, alias) = Inr (needed', si)" and "schema_named (tm_schema tbl)" and "pushdown_of si e = Inr (Some (p, lo, hi))"
    and "Bind (map ((!) (table_names alias (tm_schema tbl))) (col_indices si)) (map ((!) (Types (tm_schema tbl))) (col_indices si)) e = Inr b"
    and "keep b r" and "list_all2 value_fits (map ((!) (Types (tm_schema tbl))) (col_indices si)) r"
  shows "p < length (col_indices si) \<and> in_range lo hi (r ! p)"
proof -
  let ?s = "tm_schema tbl" and ?cols = "col_indices si"
  note sc = scan_columns_ok [OF assms(1)]
  obtain q cr lit i x where e: "e = BinaryExpr q (ColumnRefExpr cr) (LiteralExpr lit)" "name_to_scanpos si (snd cr) = Some p"
    "FindColumn ?s (snd cr) = Some i" "col_type (?s ! i) \<in> {kInt, kBigInt}" "int_literal lit = Some x" "zone_bounds q x = Inr (Some (lo, hi))" "i < length ?s"
    using assms(3) sc(1) by (auto simp: pushdown_of_def GetColumn_def split: Expr.splits option.splits if_splits)
  have p: "p < length ?cols" "col_name (?s ! (?cols ! p)) = snd cr" using sc(7) [OF e(2)] by auto
  let ?names = "map ((!) (table_names alias ?s)) ?cols" and ?types = "map ((!) (Types ?s)) ?cols"
  obtain idx where idx: "Resolve ?names (fst cr) (snd cr) = Inr idx" "b = BinaryE (ToBoundOp q) (ColumnE idx (?types ! idx)) (LiteralE lit)"
    using assms(4) e(1) by (auto simp: bind_name_ok)
  have i: "idx < length ?cols" using Resolve_bound [OF idx(1)] by simp
  have "map base ?names = map ((!) (map base (table_names alias ?s))) ?cols" using sc(6) by simp
  moreover have "distinct (map ((!) (map base (table_names alias ?s))) ?cols)"
    by (rule distinct_nths [OF table_names_distinct [OF assms(2)] sc(4)]) (use sc(6) in simp)
  ultimately have "distinct (map base ?names)" by (simp only:)
  from Resolve_unique [OF clear_distinct [OF this], of cr idx] have m: "matches_name (table_names alias ?s ! (?cols ! idx)) cr" using idx(1) i by simp
  have k: "?cols ! idx < length ?s" "?cols ! p < length ?s" using sc(6) i p(1) by simp_all
  have "plain (snd cr)" using assms(2) k(2) p(2) nth_mem unfolding schema_named_def by metis
  then have n: "col_name (?s ! (?cols ! idx)) = snd cr" using matches_column [OF assms(2) k(1) m] by simp
  have dn: "distinct (map col_name ?s)" using assms(2) by (simp add: schema_named_def)
  have "?cols ! idx = ?cols ! p" using n p(2) k dn by (metis length_map nth_eq_iff_index_eq nth_map)
  then have ip: "idx = p" using nth_eq_iff_index_eq [OF sc(4) i p(1)] by simp
  have "i = ?cols ! p" using FindColumn_Some [of ?s "snd cr" i] e(3) k(2) p(2) e(7) dn by (metis length_map nth_eq_iff_index_eq nth_map)
  moreover have "value_fits (?types ! p) (r ! p)" "length r = length ?cols" using assms(6) p(1) by (auto simp: list_all2_conv_all_nth)
  ultimately have "value_fits (col_type (?s ! i)) (r ! p)" using p(1) k by (simp add: Types_def)
  then have "r ! p = Null \<or> (\<exists>x. int_of_value (r ! p) = Some x)" using e(4) by (cases "r ! p") auto
  then obtain y where y: "r ! p = Null \<or> int_of_value (r ! p) = Some y" by blast
  from zone_bounds_in_range [OF e(6) _ e(5) _ y] assms(5) idx(2) ip p(1) \<open>length r = length ?cols\<close> show ?thesis by simp
qed

text \<open>The bottom of the plan for one table: a scan of some of its columns and the filter.\<close>

lemma fast_safe_mono: "fast_safe b ts tab \<Longrightarrow> set out \<subseteq> set tab \<Longrightarrow> fast_safe b ts out"
  by (cases "(b, ts, tab)" rule: fast_safe.cases) auto

lemma pushdown_pos: "pushdown_of si e = Inr (Some (p, lo, hi)) \<Longrightarrow> \<exists>s. name_to_scanpos si s = Some p"
  by (auto simp: pushdown_of_def split: Expr.splits option.splits if_splits; blast)

lemma filter_filter_eq: "filter P (filter Q xs) = filter (\<lambda>x. P x \<and> Q x) xs"
  by (induction xs) auto

lemma bottom_single:
  assumes plan: "bottom_plan stmt [(tbl, alias)] needed = Inr (names, types, root)" and s: "schema_named (tm_schema tbl)"
    and store: "stream_ready bp" "table_at bp tbl vals n" and fair: "\<And>c. scan_table c = tbl \<Longrightarrow> fair c n (scans c)"
    and wok: "where_ok (table_names alias (tm_schema tbl)) (Types (tm_schema tbl)) (where_clause stmt) (table_rows tbl vals n)"
  shows "\<exists>cols. distinct cols \<and> sorted cols \<and> (\<forall>k \<in> set cols. k < length (tm_schema tbl)) \<and>
    ((\<forall>c \<in> set (tm_schema tbl). (alias, col_name c) \<in> set needed) \<longrightarrow> cols = [0..<length (tm_schema tbl)]) \<and>
    names = map ((!) (table_names alias (tm_schema tbl))) cols \<and> types = map ((!) (Types (tm_schema tbl))) cols \<and> plan_types root = types \<and>
    runs scans work bp root (map (pick cols) (where_rows (table_names alias (tm_schema tbl)) (Types (tm_schema tbl)) (where_clause stmt) (table_rows tbl vals n)))"
proof -
  let ?s = "tm_schema tbl" and ?tab = "table_rows tbl vals n"
  let ?full = "table_names alias ?s" and ?ft = "Types ?s"
  define conjuncts where "conjuncts = (case where_clause stmt of None \<Rightarrow> [] | Some w \<Rightarrow> Flatten w)"
  obtain needed' si c0 zone pred where b: "scan_columns needed (tbl, alias) = Inr (needed', si)" "ColumnScan (si_table si) (si_alias si) (col_indices si) = Inr c0"
    "pushdown si conjuncts = Inr zone" "names = scan_names c0" "types = scan_types c0" "bind_conjuncts names types conjuncts = Inr pred"
    "root = (let p = ScanP (case zone of None \<Rightarrow> c0 | Some (p, lo, hi) \<Rightarrow> SetZoneFilter p lo hi c0) in case pred of None \<Rightarrow> p | Some q \<Rightarrow> FilterP p q)"
    using plan by (auto simp: bottom_plan_def Let_def where_plan_def conjuncts_def cong: option.case_cong)
  note sc = scan_columns_ok [OF b(1)]
  let ?cols = "col_indices si"
  note cs = ColumnScan_fields [OF b(2)]
  have nt: "names = map ((!) ?full) ?cols" "types = map ((!) ?ft) ?cols" using cs(3,4) b(4,5) sc(1,2) by simp_all
  define c where "c = (case zone of None \<Rightarrow> c0 | Some (p, lo, hi) \<Rightarrow> SetZoneFilter p lo hi c0)"
  have cf: "scan_table c = tbl" "col_idx c = ?cols" "scan_types c = types" "scan_names c = names" using cs(1,2) sc(1) b(4,5)
    by (simp_all add: c_def SetZoneFilter_def split: option.splits)
  have zp: "p < length ?cols" if zz: "zone = Some (p, lo, hi)" for p lo hi
  proof -
    obtain e where "pushdown_of si e = Inr (Some (p, lo, hi))" using pushdown_conjunct b(3) zz by blast
    from pushdown_pos [OF this] show ?thesis using sc(7) by blast
  qed
  have z: "c = c0 \<or> (\<exists>p lo hi. c = SetZoneFilter p lo hi c0 \<and> p < length ?cols)" 
  proof (cases zone)
    case (Some z)
    obtain p lo hi where "z = (p, lo, hi)" by (cases z)
    then show ?thesis using zp [of p lo hi] Some by (auto simp: c_def)
  qed (simp add: c_def)
  have tbl: "si_table si = tbl" by (rule sc(1))
  from ColumnScan_rows [OF b(2) sc(3) z store(1), of vals n "scans c" "[]" 0] store(2) fair [OF cf(1)]
  obtain out where out: "runs scans work bp (ScanP c) out" "filter (zone_row c) out = filter (zone_row c) (all_rows c vals n)" "set out \<subseteq> set (all_rows c vals n)"
    using runs_scan [of c scans bp _ work] by (auto simp: tbl)
  have rows: "all_rows c vals n = map (pick ?cols) ?tab" using all_rows_pick [of c vals n] cf sc(6) by simp
  have fits: "list_all2 value_fits types r" if r: "r \<in> set out" for r
  proof -
    obtain r0 where r0: "r0 \<in> set ?tab" "r = pick ?cols r0" using r out(3) rows by auto
    then show ?thesis using table_rows_fit [OF store(2) r0(1)] sc(6) by (auto simp: nt list_all2_conv_all_nth Types_def)
  qed
  have root: "root = (case pred of None \<Rightarrow> ScanP c | Some q \<Rightarrow> FilterP (ScanP c) q)" using b(7) unfolding Let_def c_def [symmetric] .
  have "runs scans work bp root (map (pick ?cols) (where_rows ?full ?ft (where_clause stmt) ?tab))"
  proof (cases "where_clause stmt")
    case None
    then have "zone = None" "pred = None" using b(3,6) by (simp_all add: conjuncts_def bind_conjuncts_def)
    then have "zone_row c = (\<lambda>_. True)" using cs(5) by (simp add: c_def zone_row_def fun_eq_iff)
    then show ?thesis using out(1,2) rows root None \<open>pred = None\<close> by (simp add: where_rows_def)
  next
    case (Some w)
    have "bind_conjuncts names types (Flatten w) = Inr pred" using b(6) Some by (simp add: conjuncts_def)
    from where_pred [OF this] obtain q bw where q: "pred = Some q" "Bind names types w = Inr bw" "bound_ok (length names) bw"
      "\<forall>r. eval_truth q r = eval_truth bw r" "\<forall>ts tab. length ts = length names \<longrightarrow> fast_safe bw ts tab \<longrightarrow> fast_safe q ts tab" by blast
    let ?bf = "map_cols ((!) ?cols) bw"
    have bf: "Bind ?full ?ft w = Inr ?bf"
      by (rule Bind_subset [OF sc(4)]) (use sc(6) q(2) clear_distinct [OF table_names_distinct [OF s]] in \<open>simp_all add: nt Types_def\<close>)
    have ev: "eval_row ?bf r0 = eval_row bw (pick ?cols r0)" if "r0 \<in> set ?tab" for r0
      using eval_map_cols [of ?cols bw r0] q(3) nt(1) sc(6) table_rows_fit [OF store(2) that] by (auto dest!: list_all2_lengthD simp: Types_def)
    have ok: "fast_safe ?bf ?ft ?tab" "\<forall>r \<in> set ?tab. \<exists>v. eval_row ?bf r = Inr v"
      using wok Some bf unfolding where_ok_def by blast+
    have ev2: "\<exists>v. eval_row q r = Inr v" if r: "r \<in> set out" for r
    proof -
      obtain r0 where r0: "r0 \<in> set ?tab" "r = pick ?cols r0" using r out(3) rows by auto
      then obtain v where "eval_row bw r = Inr v" using ok(2) ev by force
      then have "eval_truth q r = Inr (ValueTruthy v)" using q(4) by (simp add: eval_truth_def)
      then show ?thesis by (auto simp: eval_truth_def)
    qed
    have fs: "fast_safe q types out"
    proof -
      have "fast_safe bw types (map (pick ?cols) ?tab)" using fast_safe_subset [OF ok(1)] q(3) nt by simp
      then have "fast_safe q types (map (pick ?cols) ?tab)" using q(5) nt by simp
      then show ?thesis by (rule fast_safe_mono) (use out(3) rows in simp)
    qed
    have run: "runs scans work bp root (filter (keep q) out)" using runs_filter [OF out(1), of q] fs ev2 root q(1) cf(3) by simp
    have kz: "zone_row c r" if kr: "keep q r" "list_all2 value_fits types r" for r
    proof (cases zone)
      case None
      then show ?thesis using cs(5) by (simp add: c_def zone_row_def)
    next
      case (Some zz)
      obtain p lo hi where zz: "zz = (p, lo, hi)" by (cases zz)
      obtain e where e: "e \<in> set (Flatten w)" "pushdown_of si e = Inr (Some (p, lo, hi))"
        using pushdown_conjunct b(3) Some zz \<open>where_clause stmt = Some w\<close> by (force simp: conjuncts_def)
      have "keep bw r" using kr(1) q(4) by (simp add: keep_truth)
      from conjuncts_kept [OF q(2) this e(1)] obtain be where "Bind names types e = Inr be" "keep be r" by blast
      from pushdown_kept [OF b(1) s e(2) this(1) [unfolded nt] this(2) kr(2) [unfolded nt]]
      show ?thesis using Some zz by (simp add: zone_row_def c_def SetZoneFilter_def)
    qed
    have "filter (keep q) out = filter (keep q) (filter (zone_row c) out)" using kz fits by (auto simp: filter_filter_eq intro!: filter_cong)
    also have "\<dots> = filter (keep q) (filter (zone_row c) (map (pick ?cols) ?tab))" using out(2) rows by simp
    also have "\<dots> = filter (keep q) (map (pick ?cols) ?tab)"
    proof -
      have "list_all2 value_fits types (pick ?cols r0)" if "r0 \<in> set ?tab" for r0
        using table_rows_fit [OF store(2) that] sc(6) by (auto simp: nt list_all2_conv_all_nth Types_def)
      then show ?thesis using kz by (auto intro!: filter_cong)
    qed
    also have "\<dots> = map (pick ?cols) (filter (keep ?bf) ?tab)"
      using ev q(4) by (auto simp: filter_map keep_truth eval_truth_def intro!: arg_cong [of _ _ "map (pick ?cols)"] filter_cong)
    finally show ?thesis using run bf Some by (simp add: where_rows_def)
  qed
  moreover have "?cols = [0..<length ?s]" if all: "\<forall>c \<in> set ?s. (alias, col_name c) \<in> set needed"
  proof -
    have "i \<in> set ?cols" if i: "i < length ?s" for i
    proof -
      have "col_name (?s ! i) \<in> (\<lambda>k. col_name (?s ! k)) ` set ?cols" using sc(8) [of "?s ! i"] i all by simp
      then obtain k where "k \<in> set ?cols" "col_name (?s ! i) = col_name (?s ! k)" by auto
      moreover from this have "k < length ?s" using sc(6) by blast
      ultimately show ?thesis using s i unfolding schema_named_def by (metis length_map nth_eq_iff_index_eq nth_map)
    qed
    then have "set ?cols = set [0..<length ?s]" using sc(6) by auto
    then show ?thesis using sc(4,5) by (metis distinct_upt sorted_distinct_set_unique sorted_upt)
  qed
  moreover have "plan_types root = types" using root cf(3) by (cases pred) simp_all
  ultimately show ?thesis using sc(4-6) nt by blast
qed

end
