(* ===== verification/Query_Results.thy ===== *)
theory Query_Results
  imports Queries
begin

text \<open>
  The rows and the headers a whole plan of \<open>PlanSelect\<close> returns, against the query over the
  whole rows of its table.
\<close>

section \<open>The reference\<close>

text \<open>
  The query without aggregates over the rows \<open>tab\<close>, of one table or of pairs from two: the
  filter, then sorting by a key, an output name or else a column, then the limit, then the
  selected columns. Over one table \<open>*\<close> gives bare column names.
\<close>

definition order_key :: "string list \<Rightarrow> (nat \<times> string) list \<Rightarrow> order_by \<Rightarrow> nat result" where
  "order_key names proj ob =
     (case last_index (map snd proj) (ob_output_name ob) of
        Some k \<Rightarrow> Inr (fst (proj ! k))
      | None \<Rightarrow> Resolve names [] (ob_output_name ob))"

definition order_rows :: "bool \<Rightarrow> nat \<Rightarrow> Value list list \<Rightarrow> Value list list" where
  "order_rows desc key = sort_by (\<lambda>a b. key_less desc (a ! key) (b ! key))"

definition query_rows :: "bool \<Rightarrow> string list \<Rightarrow> ColumnType list \<Rightarrow> select \<Rightarrow> Value list list \<Rightarrow> (string list \<times> Value list list) result" where
  "query_rows single names types stmt tab =
     bindR (projection_items stmt single names) (\<lambda>proj.
       let kept = where_rows names types (where_clause stmt) tab in
       bindR (case order_by_clause stmt of
                None \<Rightarrow> Inr kept
              | Some ob \<Rightarrow> bindR (order_key names proj ob) (\<lambda>key. Inr (order_rows (descending ob) key kept))) (\<lambda>rs.
         Inr (map snd proj, map (pick (map fst proj)) (case limit_clause stmt of None \<Rightarrow> rs | Some n \<Rightarrow> take n rs))))"

text \<open>
  The references a query resolves among the columns of its tables: those of its expressions, and
  the name it is sorted by when that is not a header. Over one table they are all clear; over
  two tables a name that both have is clear when it is qualified.
\<close>

definition out_names :: "select \<Rightarrow> string list" where
  "out_names stmt = (if select_star stmt then [] else
     map (\<lambda>it. item_name it (case item_expr it of ColumnRefExpr c \<Rightarrow> snd c | _ \<Rightarrow> [])) (items stmt))"

definition opt_refs :: "Expr option \<Rightarrow> column_ref set" where
  "opt_refs e = (case e of None \<Rightarrow> {} | Some x \<Rightarrow> expr_refs x)"

definition stmt_refs :: "select \<Rightarrow> column_ref set" where
  "stmt_refs stmt = (\<Union>it \<in> set (items stmt). expr_refs (item_expr it)) \<union> opt_refs (where_clause stmt) \<union> opt_refs (having stmt) \<union> set (group_by stmt) \<union>
     (case order_by_clause stmt of None \<Rightarrow> {}
      | Some ob \<Rightarrow> if aggregated stmt \<or> ob_output_name ob \<in> set (out_names stmt) then {} else {([], ob_output_name ob)})"

definition clear_refs :: "string list \<Rightarrow> select \<Rightarrow> bool" where
  "clear_refs names stmt \<longleftrightarrow> (\<forall>c \<in> stmt_refs stmt. clear names c)"

lemma clear_refs_distinct: "distinct (map base names) \<Longrightarrow> clear_refs names stmt"
  using clear_distinct by (simp add: clear_refs_def)

section \<open>The columns needed\<close>

lemma add_ref_mono: "add_ref scans n c = Inr n' \<Longrightarrow> set n \<subseteq> set n'"
  by (auto simp: add_ref_def)

lemma WalkRefs_mono: "WalkRefs (add_ref scans) n e = Inr n' \<Longrightarrow> set n \<subseteq> set n'"
proof (induction e arbitrary: n n')
  case (BinaryExpr p l r)
  then show ?case by (auto; blast)
next
  case (AggregateExpr k a)
  then show ?case by (cases a) auto
qed (auto dest: add_ref_mono)

lemma foldR_mono: "(\<And>n x n'. f n x = Inr n' \<Longrightarrow> set n \<subseteq> set n') \<Longrightarrow> foldR f n xs = Inr n' \<Longrightarrow> set n \<subseteq> set n'"
proof (induction xs arbitrary: n)
  case (Cons x xs)
  obtain m where "f n x = Inr m" "foldR f m xs = Inr n'" using Cons.prems(2) by auto
  then show ?case using Cons.IH [of m] Cons.prems(1) by blast
qed simp

lemma insert_columns: "set (foldl (\<lambda>n c. List.insert (a, col_name c) n) n cs) = set n \<union> (\<lambda>c. (a, col_name c)) ` set cs"
  by (induction cs arbitrary: n) auto

lemma insert_tables: "set (foldl (\<lambda>n (meta, alias). foldl (\<lambda>n c. List.insert (alias, col_name c) n) n (tm_schema meta)) n scans) =
    set n \<union> (\<Union>(meta, alias) \<in> set scans. (\<lambda>c. (alias, col_name c)) ` set (tm_schema meta))"
  by (induction scans arbitrary: n) (auto simp: insert_columns)

lemma needed_star:
  assumes "needed_columns scans stmt = Inr needed" and "select_star stmt" and "(tbl, a) \<in> set scans" and "c \<in> set (tm_schema tbl)"
  shows "(a, col_name c) \<in> set needed"
proof -
  let ?n = "foldl (\<lambda>n (meta, alias). foldl (\<lambda>n c. List.insert (alias, col_name c) n) n (tm_schema meta)) [] scans"
  have w: "walk_opt (add_ref s) n e = Inr n' \<Longrightarrow> set n \<subseteq> set n'" for s n e n'
    by (cases e) (auto simp: walk_opt_def dest: WalkRefs_mono)
  obtain n2 n3 n4 where n: "walk_opt (add_ref scans) ?n (where_clause stmt) = Inr n2" "walk_opt (add_ref scans) n2 (having stmt) = Inr n3"
    "foldR (add_ref scans) n3 (group_by stmt) = Inr n4" and
    last: "needed = (case order_by_clause stmt of
              Some ob \<Rightarrow> if aggregated stmt then n4
                         else (case add_ref scans n4 ([], ob_output_name ob) of Inr n5 \<Rightarrow> n5 | Inl _ \<Rightarrow> n4)
            | None \<Rightarrow> n4)"
    using assms(1,2) unfolding needed_columns_def bindR_Inr_iff by auto
  have n4: "set n4 \<subseteq> set needed"
    unfolding last by (cases "order_by_clause stmt") (auto dest: add_ref_mono split: sum.splits)
  have "set ?n \<subseteq> set n2" "set n2 \<subseteq> set n3" using w n(1,2) by blast+
  moreover have "set n3 \<subseteq> set n4" using foldR_mono [of "add_ref scans", OF add_ref_mono n(3)] .
  moreover have "(a, col_name c) \<in> set ?n" using assms(3,4) by (auto simp: insert_tables intro!: bexI [of _ "(tbl, a)"])
  ultimately show ?thesis using n4 by blast
qed

section \<open>The projection\<close>

lemma projection_items_pick:
  assumes names: "\<forall>it \<in> set (items stmt). \<forall>c \<in> expr_refs (item_expr it). clear names c" and cols: "distinct cols" "\<forall>k \<in> set cols. k < length names"
    and star: "select_star stmt \<Longrightarrow> cols = [0..<length names]"
    and p: "projection_items stmt single (map ((!) names) cols) = Inr proj"
  shows "projection_items stmt single names = Inr (map (\<lambda>(i, n). (cols ! i, n)) proj) \<and> (\<forall>(i, n) \<in> set proj. i < length cols)"
proof (cases "select_star stmt")
  case True
  then have c: "cols = [0..<length names]" by (rule star)
  have "map ((!) names) cols = names" by (simp add: c map_nth)
  with p True show ?thesis by (auto simp: projection_items_def c)
next
  case False
  have "mapR (plain_item (map ((!) names) cols)) is = Inr proj \<Longrightarrow> \<forall>it \<in> set is. \<forall>c \<in> expr_refs (item_expr it). clear names c \<Longrightarrow>
    mapR (plain_item names) is = Inr (map (\<lambda>(i, n). (cols ! i, n)) proj) \<and> (\<forall>(i, n) \<in> set proj. i < length cols)" for "is"
  proof (induction "is" arbitrary: proj)
    case (Cons x xs)
    obtain i n rest where x: "plain_item (map ((!) names) cols) x = Inr (i, n)" "mapR (plain_item (map ((!) names) cols)) xs = Inr rest" "proj = (i, n) # rest"
      using Cons.prems(1) by auto
    obtain c where c: "item_expr x = ColumnRefExpr c" "Resolve (map ((!) names) cols) (fst c) (snd c) = Inr i" "n = item_name x (snd c)"
      using x(1) by (auto simp: plain_item_def PlanFail_def split: Expr.splits)
    have "clear names (fst c, snd c)" using Cons.prems(2) c(1) by simp
    then have "plain_item names x = Inr (cols ! i, n)" using Resolve_subset [OF _ cols c(2)] c(1,3) by (simp add: plain_item_def)
    then show ?case using Cons.IH [OF x(2)] Cons.prems(2) x(3) Resolve_bound [OF c(2)] by simp
  qed simp
  with p False names show ?thesis by (simp add: projection_items_def)
qed

lemma plain_item_names: "mapR (plain_item names) is = Inr proj \<Longrightarrow> map snd proj = map (\<lambda>it. item_name it (case item_expr it of ColumnRefExpr c \<Rightarrow> snd c | _ \<Rightarrow> [])) is"
  by (induction "is" arbitrary: proj) (auto simp: plain_item_def PlanFail_def split: Expr.splits)

lemma projection_names: "projection_items stmt single names = Inr proj \<Longrightarrow> \<not> select_star stmt \<Longrightarrow> map snd proj = out_names stmt"
  by (simp add: projection_items_def out_names_def plain_item_names)

lemma last_index_None: "last_index names n = None \<longleftrightarrow> n \<notin> set names"
  by (auto simp: last_index_def find_None_iff in_set_conv_nth)

lemma last_index_Some: "last_index names n = Some k \<Longrightarrow> k < length names"
  by (auto simp: last_index_def find_Some_iff rev_nth)

lemma project_ok: "project root sources names = Inr p \<longleftrightarrow> (\<forall>s \<in> set sources. s < length (plan_types root)) \<and> p = ProjectionP root sources names"
  by (auto simp: project_def)

section \<open>Sorting\<close>

lemma length_strs_filter: "length (strs (map f (filter P xs))) \<le> length (strs (map f xs))"
  by (induction xs) (auto simp: le_SucI trans_le_add2)

lemma where_rows_filter: "\<exists>P. where_rows names types w tab = filter P tab"
  by (cases w; cases "Bind names types (the w)") (auto simp: where_rows_def intro: exI [of _ "\<lambda>_. True"] exI [of _ "\<lambda>_. False"])

lemma rows_fit_pick:
  assumes "rows_fit types tab" and "\<forall>k \<in> set cols. k < length types"
  shows "rows_fit (map ((!) types) cols) (map (pick cols) (filter P tab))"
proof -
  have "list_all2 value_fits (map ((!) types) cols) (pick cols r)" if "r \<in> set tab" for r
    using assms that by (auto simp: rows_fit_def list_all2_conv_all_nth)
  moreover have "length (strs (map (\<lambda>r. r ! c) (map (pick cols) (filter P tab)))) < 2 ^ 32" if "c < length cols" for c
  proof -
    have m: "map (\<lambda>r. r ! c) (map (pick cols) (filter P tab)) = map (\<lambda>r. r ! (cols ! c)) (filter P tab)" using that by simp
    have "length (strs (map (\<lambda>r. r ! (cols ! c)) tab)) < 2 ^ 32" using assms that by (auto simp: rows_fit_def)
    from le_less_trans [OF length_strs_filter this] show ?thesis unfolding m .
  qed
  ultimately show ?thesis by (auto simp: rows_fit_def)
qed

section \<open>Queries over one table\<close>

definition single_ok :: "select \<Rightarrow> schema \<Rightarrow> string \<Rightarrow> Value list list \<Rightarrow> bool" where
  "single_ok stmt s a tab \<longleftrightarrow> schema_named s \<and> where_ok (table_names a s) (Types s) (where_clause stmt) tab \<and>
     (order_by_clause stmt \<noteq> None \<longrightarrow> rows_fit (Types s) tab \<and> (\<forall>r \<in> set tab. \<forall>v \<in> set r. \<not> is_nan_value v))"

lemma plain_plan_rows:
  fixes names :: "string list" and types :: "ColumnType list"
  assumes plan: "plain_plan stmt single (map ((!) names) cols) root = Inr p" and run: "runs scans work bp root (map (pick cols) (filter P tab))"
    and names: "clear_refs names stmt" "\<not> aggregated stmt" "length types = length names" and cols: "distinct cols" "\<forall>k \<in> set cols. k < length names"
    and star: "select_star stmt \<Longrightarrow> cols = [0..<length names]" and types: "plan_types root = map ((!) types) cols"
    and ord: "order_by_clause stmt \<noteq> None \<Longrightarrow> rows_fit types tab \<and> (\<forall>r \<in> set tab. \<forall>v \<in> set r. \<not> is_nan_value v)"
  shows "\<exists>proj out. projection_items stmt single names = Inr proj \<and> plan_names p = map snd proj \<and>
    (case order_by_clause stmt of None \<Rightarrow> out = filter P tab
      | Some ob \<Rightarrow> \<exists>key. order_key names proj ob = Inr key \<and> out = order_rows (descending ob) key (filter P tab)) \<and>
    runs scans work bp p (map (pick (map fst proj)) out)"
proof -
  obtain proj0 where p0: "projection_items stmt single (map ((!) names) cols) = Inr proj0" using plan by (auto simp: plain_plan_def)
  define proj where "proj = map (\<lambda>(i, n). (cols ! i, n)) proj0"
  have "\<forall>it \<in> set (items stmt). \<forall>c \<in> expr_refs (item_expr it). clear names c" using names(1) by (auto simp: clear_refs_def stmt_refs_def)
  note pi = projection_items_pick [OF this cols star p0, folded proj_def]
  have snd: "map snd proj = map snd proj0" and fst: "map fst proj = map (\<lambda>i. cols ! i) (map fst proj0)" by (auto simp: proj_def)
  have src: "\<forall>s \<in> set (map fst proj0). s < length cols" using pi by auto
  have run_proj: "runs scans work bp (ProjectionP r0 (map fst proj0) (map snd proj0)) (map (pick (map fst proj)) rs)"
    if "runs scans work bp r0 (map (pick cols) rs)" "plan_types r0 = map ((!) types) cols" for r0 rs
  proof -
    have "map (\<lambda>r. map ((!) r) (map fst proj0)) (map (pick cols) rs) = map (pick (map fst proj)) rs"
      using src by (auto simp: fst)
    then show ?thesis using runs_projection [OF that(1), of "map fst proj0" "map snd proj0"] src that(2) by (simp only: length_map)
  qed
  let ?tab = "map (pick cols) (filter P tab)"
  have fit: "rows_fit (plan_types root) ?tab" "\<forall>r \<in> set tab. \<forall>i < length types. \<not> is_nan_value (r ! i)" if "order_by_clause stmt = Some ob" for ob
  proof -
    show "rows_fit (plan_types root) ?tab" using rows_fit_pick [of types tab cols P] ord that cols(2) names(3) types by simp
    have "length r = length types" if "r \<in> set tab" for r using ord that \<open>order_by_clause stmt = Some ob\<close> by (auto simp: rows_fit_def list_all2_lengthD)
    then show "\<forall>r \<in> set tab. \<forall>i < length types. \<not> is_nan_value (r ! i)" using ord that by auto
  qed
  show ?thesis
  proof (cases "order_by_clause stmt")
    case None
    then have "p = ProjectionP root (map fst proj0) (map snd proj0)" using plan p0 by (auto simp: plain_plan_def project_ok)
    then show ?thesis using run_proj [OF run types] pi snd None by (intro exI [of _ proj] exI [of _ "filter P tab"]) simp
  next
    case (Some ob)
    show ?thesis
    proof (cases "last_index (map snd proj0) (ob_output_name ob)")
      case None
      obtain c where c: "Resolve (map ((!) names) cols) [] (ob_output_name ob) = Inr c"
        "p = ProjectionP (OrderByP root c (descending ob)) (map fst proj0) (map snd proj0)"
        using plan p0 Some None by (auto simp: plain_plan_def project_ok)
      have "ob_output_name ob \<notin> set (out_names stmt)"
        using projection_names [OF p0] None by (cases "select_star stmt") (auto simp: last_index_None out_names_def)
      then have "clear names ([], ob_output_name ob)" using names(1,2) Some by (auto simp: clear_refs_def stmt_refs_def)
      from Resolve_subset [OF this cols c(1)] have k: "Resolve names [] (ob_output_name ob) = Inr (cols ! c)" .
      have cl: "c < length cols" using Resolve_bound [OF c(1)] by simp
      have "runs scans work bp (OrderByP root c (descending ob)) (sort_by (\<lambda>a b. key_less (descending ob) (a ! c) (b ! c)) ?tab)"
        by (rule runs_order_by [OF run fit(1) [OF Some]]) (use types cl fit(2) [OF Some] cols(2) names(3) in auto)
      moreover have "sort_by (\<lambda>a b. key_less (descending ob) (a ! c) (b ! c)) ?tab = map (pick cols) (order_rows (descending ob) (cols ! c) (filter P tab))"
        unfolding order_rows_def by (rule sort_by_map) (use cl in simp)
      ultimately show ?thesis
        using run_proj [of "OrderByP root c (descending ob)"] types pi snd Some None c(2) k
        by (intro exI [of _ proj] exI [of _ "order_rows (descending ob) (cols ! c) (filter P tab)"]) (simp add: order_key_def)
    next
      case (Some k)
      then have kl: "k < length proj0" by (auto dest: last_index_Some)
      have p: "p = OrderByP (ProjectionP root (map fst proj0) (map snd proj0)) k (descending ob)"
        using plan p0 \<open>order_by_clause stmt = Some ob\<close> Some by (auto simp: plain_plan_def project_ok)
      let ?key = "fst (proj ! k)" and ?root = "ProjectionP root (map fst proj0) (map snd proj0)"
      have sk: "order_key names proj ob = Inr ?key" using Some by (simp add: order_key_def snd)
      have key: "?key = cols ! fst (proj0 ! k)" "fst (proj0 ! k) < length cols" using kl src by (auto simp: proj_def case_prod_beta)
      have r1: "runs scans work bp ?root (map (pick (map fst proj)) (filter P tab))"
        by (rule run_proj [OF run types])
      have "rows_fit (map ((!) types) (map fst proj)) (map (pick (map fst proj)) (filter P tab))"
        by (rule rows_fit_pick) (use ord \<open>order_by_clause stmt = Some ob\<close> src cols(2) names(3) in \<open>auto simp: fst\<close>)
      then have f1: "rows_fit (plan_types ?root) (map (pick (map fst proj)) (filter P tab))" using types src by (auto simp: fst cong: map_cong)
      have pl: "k < length proj" using kl by (simp add: proj_def)
      have at: "pick (map fst proj) r ! k = r ! ?key" for r using pl by simp
      have "runs scans work bp p (sort_by (\<lambda>a b. key_less (descending ob) (a ! k) (b ! k)) (map (pick (map fst proj)) (filter P tab)))"
        unfolding p by (rule runs_order_by [OF r1 f1]) (use kl key fit(2) [OF \<open>order_by_clause stmt = Some ob\<close>] cols(2) names(3) pl in auto)
      moreover have "sort_by (\<lambda>a b. key_less (descending ob) (a ! k) (b ! k)) (map (pick (map fst proj)) (filter P tab)) =
        map (pick (map fst proj)) (order_rows (descending ob) ?key (filter P tab))"
        unfolding order_rows_def by (rule sort_by_map) (simp only: at)
      ultimately show ?thesis using pi sk snd p \<open>order_by_clause stmt = Some ob\<close> by auto
    qed
  qed
qed

text \<open>The upper part of a plan over any rows: \<open>root\<close> produces the columns \<open>cols\<close> of the rows that \<open>WHERE\<close> keeps.\<close>

lemma plain_query:
  fixes names :: "string list" and types :: "ColumnType list"
  assumes plan: "plain_plan stmt single (map ((!) names) cols) root = Inr q" and p: "p = (case limit_clause stmt of None \<Rightarrow> q | Some k \<Rightarrow> LimitP q k)"
    and run: "runs scans work bp root (map (pick cols) (where_rows names types (where_clause stmt) tab))"
    and names: "clear_refs names stmt" "\<not> aggregated stmt" "length types = length names" and cols: "distinct cols" "\<forall>k \<in> set cols. k < length names"
    and star: "select_star stmt \<Longrightarrow> cols = [0..<length names]" and types: "plan_types root = map ((!) types) cols"
    and ord: "order_by_clause stmt \<noteq> None \<Longrightarrow> rows_fit types tab \<and> (\<forall>r \<in> set tab. \<forall>v \<in> set r. \<not> is_nan_value v)"
  shows "\<exists>out. query_rows single names types stmt tab = Inr (plan_names p, out) \<and> runs scans work bp p out"
proof -
  obtain P where P: "where_rows names types (where_clause stmt) tab = filter P tab" using where_rows_filter by blast
  from plain_plan_rows [OF plan run [unfolded P] names cols star types ord]
  obtain proj out where q: "projection_items stmt single names = Inr proj" "plan_names q = map snd proj"
    "case order_by_clause stmt of None \<Rightarrow> out = filter P tab
      | Some ob \<Rightarrow> \<exists>key. order_key names proj ob = Inr key \<and> out = order_rows (descending ob) key (filter P tab)"
    "runs scans work bp q (map (pick (map fst proj)) out)" by blast
  have "query_rows single names types stmt tab = Inr (map snd proj, map (pick (map fst proj)) (case limit_clause stmt of None \<Rightarrow> out | Some k \<Rightarrow> take k out))"
    using q(1,3) P by (auto simp: query_rows_def split: option.splits)
  moreover have "plan_names p = map snd proj" using p q(2) by (cases "limit_clause stmt") simp_all
  moreover have "runs scans work bp p (map (pick (map fst proj)) (case limit_clause stmt of None \<Rightarrow> out | Some k \<Rightarrow> take k out))"
    using p q(4) runs_limit [OF q(4)] by (cases "limit_clause stmt") (simp_all add: take_map)
  ultimately show ?thesis by metis
qed

lemma PlanSelect_single:
  assumes plan: "PlanSelect stmt catalog = Inr p" and one: "select.tables stmt = [tr]" "\<not> aggregated stmt"
    and tbl: "GetTable catalog (tr_name tr) = Some tbl" and a: "a = (if tr_alias tr = [] then tr_name tr else tr_alias tr)"
    and store: "stream_ready bp" "table_at bp tbl vals n" and fair: "\<And>c. scan_table c = tbl \<Longrightarrow> fair c n (scans c)"
    and ok: "single_ok stmt (tm_schema tbl) a (table_rows tbl vals n)"
  shows "\<exists>out. query_rows True (table_names a (tm_schema tbl)) (Types (tm_schema tbl)) stmt (table_rows tbl vals n) = Inr (plan_names p, out) \<and>
    runs scans work bp p out"
proof -
  let ?full = "table_names a (tm_schema tbl)" and ?ft = "Types (tm_schema tbl)" and ?tab = "table_rows tbl vals n"
  obtain needed names types root q where b: "needed_columns [(tbl, a)] stmt = Inr needed" "bottom_plan stmt [(tbl, a)] needed = Inr (names, types, root)"
    "plain_plan stmt True names root = Inr q" "p = (case limit_clause stmt of None \<Rightarrow> q | Some k \<Rightarrow> LimitP q k)"
    using plan one tbl by (auto simp: PlanSelect_def resolve_table_def a cong: if_cong)
  have s: "schema_named (tm_schema tbl)" and w: "where_ok ?full ?ft (where_clause stmt) ?tab"
    and o: "order_by_clause stmt \<noteq> None \<Longrightarrow> rows_fit ?ft ?tab \<and> (\<forall>r \<in> set ?tab. \<forall>v \<in> set r. \<not> is_nan_value v)"
    using ok by (simp_all add: single_ok_def)
  from bottom_single [OF b(2) s store fair w, of work] obtain cols where c: "distinct cols" "\<forall>k \<in> set cols. k < length ?full"
    "(\<forall>c \<in> set (tm_schema tbl). (a, col_name c) \<in> set needed) \<longrightarrow> cols = [0..<length ?full]"
    "names = map ((!) ?full) cols" "plan_types root = map ((!) ?ft) cols"
    "runs scans work bp root (map (pick cols) (where_rows ?full ?ft (where_clause stmt) ?tab))" by auto
  have star: "select_star stmt \<Longrightarrow> cols = [0..<length ?full]" using c(3) needed_star [OF b(1), of tbl a] by auto
  have "length ?ft = length ?full" by (simp add: Types_def)
  then show ?thesis using plain_query [OF b(3) [unfolded c(4)] b(4) c(6) clear_refs_distinct [OF table_names_distinct [OF s]] one(2) _ c(1,2) star c(5) o] by blast
qed

text \<open>Refinement of a query over one table: whatever columns the planner prunes, whatever range it pushes
  into the scan and wherever it places the sort, the plan \<open>PlanSelect\<close> returns produces exactly
  the rows of the query over the whole table, in its order, under its headers.\<close>

theorem PlanSelect_one_table:
  assumes plan: "PlanSelect stmt catalog = Inr p" and one: "select.tables stmt = [tr]" "\<not> aggregated stmt"
    and tbl: "GetTable catalog (tr_name tr) = Some tbl" and a: "a = (if tr_alias tr = [] then tr_name tr else tr_alias tr)"
    and store: "stream_ready bp" "table_at bp tbl vals n" and fair: "\<And>c. scan_table c = tbl \<Longrightarrow> fair c n (scans c)"
    and ok: "single_ok stmt (tm_schema tbl) a (table_rows tbl vals n)"
  shows "\<exists>out. query_rows True (table_names a (tm_schema tbl)) (Types (tm_schema tbl)) stmt (table_rows tbl vals n) = Inr (plan_names p, out) \<and>
    runs scans work bp p out"
  by (rule PlanSelect_single [OF assms])

definition sample_stmt :: select where
  "sample_stmt = \<lparr>select_star = False, items = [\<lparr>item_expr = ColumnRefExpr ([], ''a''), output_alias = ''x''\<rparr>],
     tables = [\<lparr>tr_name = ''t'', tr_alias = []\<rparr>],
     where_clause = Some (BinaryExpr BinOp.kGe (ColumnRefExpr ([], ''a'')) (LiteralExpr (Int32 4))), group_by = [], having = None,
     order_by_clause = Some \<lparr>ob_output_name = ''x'', descending = True\<rparr>, limit_clause = Some 1\<rparr>"

definition sample_table :: "u32 \<Rightarrow> TableMeta" where
  "sample_table pid = \<lparr>TableMeta.tm_name = ''t'', tm_schema = [\<lparr>col_name = ''a'', col_type = kInt, varchar_len = 0, column_index = 0\<rparr>],
     row_groups = [\<lparr>RowGroup.num_rows = 3, column_roots = [pid]\<rparr>]\<rparr>"

lemma sample_names: "table_names ''t'' (tm_schema (sample_table pid)) = [''t.a'']" "Types (tm_schema (sample_table pid)) = [kInt]"
  "table_rows (sample_table pid) (\<lambda>_ _. [Int32 4, Null, Int32 9]) (\<lambda>_. 3) = [[Int32 4], [Null], [Int32 9]]"
  by (simp_all add: sample_table_def table_names_def Types_def table_rows_def rg_rows_def upt_rec numeral_3_eq_3)

lemma sample_plan: "PlanSelect sample_stmt \<lparr>Catalog.tables = [(''t'', sample_table pid)]\<rparr> = Inr (LimitP (OrderByP (ProjectionP
    (FilterP (ScanP \<lparr>scan_table = sample_table pid, col_idx = [0], scan_names = [''t.a''], scan_types = [kInt], zone_filter = Some (0, 4, max64)\<rparr>)
      (BinaryE BoundOp.kGe (ColumnE 0 kInt) (LiteralE (Int32 4)))) [0] [''x'']) 0 True) 1)"
  by (simp add: Let_def PlanFail_def PlanSelect_def sample_stmt_def sample_table_def resolve_table_def GetTable_def aggregated_def HasAggregates_def
    needed_columns_def add_ref_def owning_alias_def FindColumn_def walk_opt_def bottom_plan_def scan_columns_def GetColumn_def
    ColumnScan_def pushdown_of_def int_literal_def zone_bounds_def where_plan_def bind_conjuncts_def bind_name_def Resolve_def EndsWith_def
    plain_plan_def projection_items_def plain_item_def item_name_def last_index_def project_def SetZoneFilter_def)

lemma sample_bind: "Bind [''t.a''] [kInt] (BinaryExpr BinOp.kGe (ColumnRefExpr ([], ''a'')) (LiteralExpr (Int32 4))) =
    Inr (BinaryE BoundOp.kGe (ColumnE 0 kInt) (LiteralE (Int32 4)))"
  by (simp add: bind_name_def Resolve_def EndsWith_def)

lemma sample_rows: "query_rows True [''t.a''] [kInt] sample_stmt [[Int32 4], [Null], [Int32 9]] = Inr ([''x''], [[Int32 9]])"
proof -
  have "where_rows [''t.a''] [kInt] (where_clause sample_stmt) [[Int32 4], [Null], [Int32 9]] = [[Int32 4], [Int32 9]]"
    using sample_bind
    by (auto simp: sample_stmt_def where_rows_def keep_def eval_row_def is_arith_def CompareResult_def IsNull_def CompareValues_ints order_int_def truth_def)
  moreover have "projection_items sample_stmt True [''t.a''] = Inr [(0, ''x'')]"
    by (simp add: projection_items_def sample_stmt_def plain_item_def Resolve_def EndsWith_def item_name_def)
  ultimately show ?thesis
    by (simp add: query_rows_def Let_def order_key_def last_index_def order_rows_def key_less_def) (simp add: sample_stmt_def last_index_def order_rows_def order_key_def key_less_def)
qed

lemma sample_ok: "single_ok sample_stmt (tm_schema (sample_table pid)) ''t'' [[Int32 4], [Null], [Int32 9]]"
proof -
  have "where_ok [''t.a''] [kInt] (where_clause sample_stmt) [[Int32 4], [Null], [Int32 9]]"
    using sample_bind by (auto simp: where_ok_def sample_stmt_def eval_row_def is_arith_def CompareResult_def is_compare_def IsNull_def CompareValues_ints)
  moreover have "schema_named (tm_schema (sample_table pid))" by (simp add: sample_table_def schema_named_def plain_def)
  moreover have "rows_fit [kInt] [[Int32 4], [Null], [Int32 9]]" by (simp add: rows_fit_def strs_def)
  ultimately show ?thesis by (simp add: single_ok_def sample_names)
qed

text \<open>The theorem at \<open>SELECT a AS x FROM t WHERE a >= 4 ORDER BY x DESC LIMIT 1\<close>.\<close>

theorem PlanSelect_one_table_witness:
  "\<exists>bp pid p. PlanSelect sample_stmt \<lparr>Catalog.tables = [(''t'', sample_table pid)]\<rparr> = Inr p \<and>
     runs (\<lambda>_. [0, 0, 0]) (\<lambda>n. [[0..<n]]) bp p [[Int32 9]]"
proof -
  let ?vs = "[Int32 4, Null, Int32 9]"
  obtain pid bp where a: "stream_added sample_pool bp pid (column_bytes kInt ?vs)"
    using write_column_ok [OF sample_ready(1) sample_column] by blast
  let ?tbl = "sample_table pid"
  have tab: "table_at bp ?tbl (\<lambda>_ _. ?vs) (\<lambda>_. 3)"
    using bs.added_stored [OF a] sample_column(1) by (simp add: table_at_def sample_table_def)
  have f: "fair c (\<lambda>_. 3) [0, 0, 0]" if "scan_table c = ?tbl" for c
    using that by (simp add: fair_def kChunkRows_def sample_table_def)
  have get: "GetTable \<lparr>Catalog.tables = [(''t'', ?tbl)]\<rparr> (tr_name \<lparr>tr_name = ''t'', tr_alias = []\<rparr>) = Some ?tbl" by (simp add: GetTable_def)
  have one: "select.tables sample_stmt = [\<lparr>tr_name = ''t'', tr_alias = []\<rparr>]" "\<not> aggregated sample_stmt"
    by (simp_all add: sample_stmt_def aggregated_def HasAggregates_def)
  have a_eq: "''t'' = (if tr_alias \<lparr>tr_name = ''t'', tr_alias = []\<rparr> = [] then tr_name \<lparr>tr_name = ''t'', tr_alias = []\<rparr> else tr_alias \<lparr>tr_name = ''t'', tr_alias = []\<rparr>)"
    by simp
  from PlanSelect_one_table [OF sample_plan one get a_eq bs.added_ready [OF a sample_ready(1)] tab f, of "\<lambda>n. [[0..<n]]"] sample_ok [of pid]
  obtain out where out: "query_rows True [''t.a''] [kInt] sample_stmt [[Int32 4], [Null], [Int32 9]] = Inr ([''x''], out)"
    "runs (\<lambda>_. [0, 0, 0]) (\<lambda>n. [[0..<n]]) bp (LimitP (OrderByP (ProjectionP
      (FilterP (ScanP \<lparr>scan_table = ?tbl, col_idx = [0], scan_names = [''t.a''], scan_types = [kInt], zone_filter = Some (0, 4, max64)\<rparr>)
      (BinaryE BoundOp.kGe (ColumnE 0 kInt) (LiteralE (Int32 4)))) [0] [''x'']) 0 True) 1) out"
    unfolding sample_names by auto
  have "out = [[Int32 9]]" using out(1) sample_rows by simp
  with out(2) sample_plan show ?thesis by blast
qed

end
