(* ===== verification/Lexer.thy ===== *)
theory Lexer
  imports Values
begin

text \<open>
  The tokenizer of SQL text (\<open>sql/lexer.cpp\<close>). The position in the text is the rest of it; the
  character classes are those of the C locale.
\<close>

section \<open>Tokens\<close>

datatype TokenKind = kKeyword | kIdentifier | kInteger | kFloatLit | kString | kPunct | kEof

record Token =
  tok_kind :: TokenKind
  tok_text :: string
  int_value :: "64 word"
  float_value :: double

definition plain_token :: "TokenKind \<Rightarrow> string \<Rightarrow> Token" where
  "plain_token k s = \<lparr>tok_kind = k, tok_text = s, int_value = 0, float_value = 0\<rparr>"

definition Keywords :: "string list" where
  "Keywords =
    [''SELECT'', ''FROM'', ''WHERE'', ''INSERT'', ''INTO'', ''VALUES'', ''CREATE'',
     ''TABLE'', ''DROP'', ''TRUNCATE'', ''AND'', ''OR'', ''NOT'', ''ORDER'',
     ''BY'', ''ASC'', ''DESC'', ''LIMIT'', ''GROUP'', ''HAVING'', ''AS'',
     ''BETWEEN'', ''IN'', ''INT'', ''BIGINT'', ''FLOAT'', ''VARCHAR'', ''NULL'',
     ''COUNT'', ''SUM'', ''AVG'', ''MIN'', ''MAX'', ''TRUE'', ''FALSE'']"

definition IsKeyword :: "string \<Rightarrow> bool" where
  "IsKeyword upper \<longleftrightarrow> upper \<in> set Keywords"

section \<open>Characters\<close>

definition in_codes :: "nat \<Rightarrow> nat \<Rightarrow> char \<Rightarrow> bool" where
  "in_codes lo hi c \<longleftrightarrow> lo \<le> of_char c \<and> of_char c \<le> hi"

definition isspace :: "char \<Rightarrow> bool" where
  "isspace c \<longleftrightarrow> in_codes 9 13 c \<or> c = CHR '' ''"

definition isdigit :: "char \<Rightarrow> bool" where
  "isdigit c \<longleftrightarrow> in_codes 48 57 c"

definition isalpha :: "char \<Rightarrow> bool" where
  "isalpha c \<longleftrightarrow> in_codes 65 90 c \<or> in_codes 97 122 c"

definition toupper :: "char \<Rightarrow> char" where
  "toupper c = (if in_codes 97 122 c then char_of (of_char c - 32 :: nat) else c)"

definition ToUpper :: "string \<Rightarrow> string" where
  "ToUpper s = map toupper s"

definition IsIdentStart :: "char \<Rightarrow> bool" where
  "IsIdentStart c \<longleftrightarrow> isalpha c \<or> c = CHR ''_''"

definition IsIdentCont :: "char \<Rightarrow> bool" where
  "IsIdentCont c \<longleftrightarrow> isalpha c \<or> isdigit c \<or> c = CHR ''_''"

abbreviation quote :: char where
  "quote \<equiv> CHR 0x27"

abbreviation newline :: char where
  "newline \<equiv> CHR 0x0A"

section \<open>Numbers\<close>

definition digits_value :: "string \<Rightarrow> nat" where
  "digits_value ds = foldl (\<lambda>n c. 10 * n + (of_char c - 48)) 0 ds"

definition split_sign :: "string \<Rightarrow> bool \<times> string" where
  "split_sign s = (if take 1 s = ''-'' then (True, drop 1 s) else (False, s))"

definition stoll :: "string \<Rightarrow> 64 word result" where
  "stoll s =
     (let (neg, ds) = split_sign s; v = (if neg then - int (digits_value ds) else int (digits_value ds)) in
      if - (2 ^ 63) \<le> v \<and> v < 2 ^ 63 then Inr (word_of_int v) else Inl (OutOfRange ''stoll''))"

text \<open>
  The nearest double, ties to even. \<open>std::stod\<close> throws when \<open>strtod\<close> sets \<open>ERANGE\<close>: on overflow,
  and (as the GNU library does) when the result is subnormal and not exact.
\<close>

definition stod :: "string \<Rightarrow> double result" where
  "stod s =
     (let (neg, ds) = split_sign s; whole = takeWhile isdigit ds; frac = drop (Suc (length whole)) ds;
          m = digits_value (whole @ frac); q = 10 ^ length frac; mag = mag_of_quot m q in
      if mag = 2047 * 2 ^ 52 \<or> (m \<noteq> 0 \<and> mag < 2 ^ 52 \<and> (m * 2 ^ 1074) mod q \<noteq> 0) then Inl (OutOfRange ''stod'')
      else Inr (with_sign neg mag))"

section \<open>The tokenizer\<close>

definition prev_is_value :: "Token list \<Rightarrow> bool" where
  "prev_is_value out \<longleftrightarrow> out \<noteq> [] \<and>
     (let p = last out in tok_kind p \<in> {kIdentifier, kInteger, kFloatLit, kString} \<or> (tok_kind p = kPunct \<and> tok_text p = '')''))"

text \<open>The rest of a string literal after its opening quote; \<open>None\<close> when it is not closed.\<close>

fun lex_string :: "string \<Rightarrow> string \<Rightarrow> (string \<times> string) option" where
  "lex_string s [] = None"
| "lex_string s (c # cs) =
     (if c = quote then
        (case cs of
           d # ds \<Rightarrow> if d = quote then lex_string (s @ [quote]) ds else Some (s, cs)
         | [] \<Rightarrow> Some (s, cs))
      else lex_string (s @ [c]) cs)"

text \<open>The text of a numeric literal, whether it has a point, and the rest.\<close>

definition lex_number :: "string \<Rightarrow> string \<times> bool \<times> string" where
  "lex_number cs =
     (let (neg, ds) = split_sign cs; whole = takeWhile isdigit ds; rest = dropWhile isdigit ds;
          sign = (if neg then ''-'' else []) in
      if take 1 rest = ''.'' then
        (sign @ whole @ ''.'' @ takeWhile isdigit (drop 1 rest), True, dropWhile isdigit (drop 1 rest))
      else (sign @ whole, False, rest))"

definition number_token :: "string \<Rightarrow> bool \<Rightarrow> Token result" where
  "number_token s is_float =
     (case (if is_float then bindR (stod s) (\<lambda>d. Inr \<lparr>tok_kind = kFloatLit, tok_text = s, int_value = 0, float_value = d\<rparr>)
            else bindR (stoll s) (\<lambda>i. Inr \<lparr>tok_kind = kInteger, tok_text = s, int_value = i, float_value = 0\<rparr>)) of
        Inl e \<Rightarrow> Inl (RuntimeError (''lexer: invalid numeric literal: '' @ s))
      | Inr t \<Rightarrow> Inr t)"

definition word_token :: "string \<Rightarrow> Token" where
  "word_token s = (let upper = ToUpper s in if IsKeyword upper then plain_token kKeyword upper else plain_token kIdentifier s)"

text \<open>Punctuation: its text and its length in the source; \<open><>\<close> is spelled \<open>!=\<close>.\<close>

definition lex_punct :: "string \<Rightarrow> (string \<times> nat) option" where
  "lex_punct cs =
     (if take 2 cs = ''!='' then Some (''!='', 2)
      else if take 2 cs = ''<='' then Some (''<='', 2)
      else if take 2 cs = ''>='' then Some (''>='', 2)
      else if take 2 cs = ''<>'' then Some (''!='', 2)
      else if cs \<noteq> [] \<and> hd cs \<in> set ''(),;*=<>.+-/'' then Some ([hd cs], 1)
      else None)"

lemma lex_string_length: "lex_string s cs = Some (t, rest) \<Longrightarrow> length rest \<le> length cs"
  by (induction s cs rule: lex_string.induct) (fastforce split: if_splits list.splits)+

lemma lex_number_length:
  assumes "lex_number (c # cs) = (s, f, rest)" and "isdigit c \<or> c = CHR ''-''"
  shows "length rest \<le> length cs"
proof -
  have d: "length (dropWhile P xs) \<le> length xs" for P and xs :: string by (rule length_dropWhile_le)
  have "length (dropWhile isdigit (snd (split_sign (c # cs)))) \<le> length cs"
    using assms(2) d [of isdigit cs] by (auto simp: split_sign_def)
  moreover have "length rest \<le> length (dropWhile isdigit (snd (split_sign (c # cs))))"
    using assms(1) d [of isdigit "drop 1 (dropWhile isdigit (snd (split_sign (c # cs))))"]
    by (auto simp: lex_number_def Let_def case_prod_beta split: if_splits)
  ultimately show ?thesis by simp
qed

function lex :: "Token list \<Rightarrow> string \<Rightarrow> Token list result" where
  "lex out [] = Inr (out @ [plain_token kEof []])"
| "lex out (c # cs) =
     (if isspace c then lex out cs
      else if c = CHR ''-'' \<and> take 1 cs = ''-'' then lex out (dropWhile (\<lambda>d. d \<noteq> newline) cs)
      else if c = quote then
        (case lex_string [] cs of
           None \<Rightarrow> Inl (RuntimeError ''lexer: unterminated string literal'')
         | Some (s, rest) \<Rightarrow> lex (out @ [plain_token kString s]) rest)
      else if isdigit c \<or> (c = CHR ''-'' \<and> cs \<noteq> [] \<and> isdigit (hd cs) \<and> \<not> prev_is_value out) then
        (case lex_number (c # cs) of (s, is_float, rest) \<Rightarrow>
           (case number_token s is_float of Inl e \<Rightarrow> Inl e | Inr t \<Rightarrow> lex (out @ [t]) rest))
      else if IsIdentStart c then lex (out @ [word_token (c # takeWhile IsIdentCont cs)]) (dropWhile IsIdentCont cs)
      else
        (case lex_punct (c # cs) of
           None \<Rightarrow> Inl (RuntimeError (''lexer: unexpected character '' @ [quote, c, quote]))
         | Some (p, n) \<Rightarrow> lex (out @ [plain_token kPunct p]) (drop (n - 1) cs)))"
  by pat_completeness auto
termination
  by (relation "measure (\<lambda>(out, cs). length cs)")
    (auto dest!: lex_string_length lex_number_length [OF sym] intro: le_imp_less_Suc length_dropWhile_le)

declare lex.simps(2) [simp del]

definition Tokenize :: "string \<Rightarrow> Token list result" where
  "Tokenize sql = lex [] sql"

section \<open>Reading back what was written\<close>

text \<open>The text of a token; quotes in a string are doubled.\<close>

definition spell :: "Token \<Rightarrow> string" where
  "spell t =
     (if tok_kind t = kString then quote # concat (map (\<lambda>c. if c = quote then [quote, quote] else [c]) (tok_text t)) @ [quote]
      else tok_text t)"

definition spell_all :: "Token list \<Rightarrow> string" where
  "spell_all ts = concat (map (\<lambda>t. spell t @ '' '') ts)"

text \<open>The tokens the tokenizer can produce, after the tokens \<open>out\<close>.\<close>

definition word_ok :: "string \<Rightarrow> bool" where
  "word_ok s \<longleftrightarrow> s \<noteq> [] \<and> IsIdentStart (hd s) \<and> list_all IsIdentCont s"

definition int_text :: "string \<Rightarrow> bool" where
  "int_text s \<longleftrightarrow> snd (split_sign s) \<noteq> [] \<and> list_all isdigit (snd (split_sign s))"

definition float_text :: "string \<Rightarrow> bool" where
  "float_text s \<longleftrightarrow> (\<exists>w f. snd (split_sign s) = w @ CHR ''.'' # f \<and> w \<noteq> [] \<and> list_all isdigit w \<and> list_all isdigit f)"

definition token_ok :: "Token list \<Rightarrow> Token \<Rightarrow> bool" where
  "token_ok out t \<longleftrightarrow>
     (case tok_kind t of
        kKeyword \<Rightarrow> t = plain_token kKeyword (tok_text t) \<and> IsKeyword (tok_text t)
      | kIdentifier \<Rightarrow> t = plain_token kIdentifier (tok_text t) \<and> word_ok (tok_text t) \<and> \<not> IsKeyword (ToUpper (tok_text t))
      | kInteger \<Rightarrow> int_text (tok_text t) \<and> number_token (tok_text t) False = Inr t \<and> (take 1 (tok_text t) = ''-'' \<longrightarrow> \<not> prev_is_value out)
      | kFloatLit \<Rightarrow> float_text (tok_text t) \<and> number_token (tok_text t) True = Inr t \<and> (take 1 (tok_text t) = ''-'' \<longrightarrow> \<not> prev_is_value out)
      | kString \<Rightarrow> t = plain_token kString (tok_text t)
      | kPunct \<Rightarrow> t = plain_token kPunct (tok_text t) \<and>
          tok_text t \<in> {''!='', ''<='', ''>='', ''('', '')'', '','', '';'', ''*'', ''='', ''<'', ''>'', ''.'', ''+'', ''-'', ''/''}
      | kEof \<Rightarrow> False)"

fun tokens_ok :: "Token list \<Rightarrow> Token list \<Rightarrow> bool" where
  "tokens_ok out [] = True"
| "tokens_ok out (t # ts) = (token_ok out t \<and> tokens_ok (out @ [t]) ts)"

lemma lex_space: "lex out (CHR '' '' # rest) = lex out rest"
  by (simp add: lex.simps(2) isspace_def)

lemma keyword_words: "IsKeyword s \<Longrightarrow> word_ok s \<and> ToUpper s = s"
proof -
  have "\<forall>s \<in> set Keywords. word_ok s \<and> ToUpper s = s"
    by (simp add: Keywords_def word_ok_def ToUpper_def toupper_def in_codes_def IsIdentStart_def IsIdentCont_def isalpha_def)
  then show "IsKeyword s \<Longrightarrow> word_ok s \<and> ToUpper s = s" by (simp add: IsKeyword_def)
qed

lemma start_class: "IsIdentStart c \<Longrightarrow> \<not> isspace c \<and> \<not> isdigit c \<and> c \<noteq> CHR ''-'' \<and> c \<noteq> quote"
  by (auto simp: IsIdentStart_def isspace_def isdigit_def isalpha_def in_codes_def)

lemma digit_class: "isdigit c \<Longrightarrow> \<not> isspace c \<and> c \<noteq> CHR ''-'' \<and> c \<noteq> quote \<and> c \<noteq> CHR ''.''"
  by (auto simp: isspace_def isdigit_def in_codes_def)

lemma span_append: "list_all P xs \<Longrightarrow> ys = [] \<or> \<not> P (hd ys) \<Longrightarrow> takeWhile P (xs @ ys) = xs \<and> dropWhile P (xs @ ys) = ys"
  by (cases ys; induction xs) auto

lemma space_class [simp]: "\<not> IsIdentCont (CHR '' '')" "\<not> isdigit (CHR '' '')" "\<not> isdigit (CHR ''.'')" "\<not> isdigit (CHR ''-'')"
  "\<not> isspace (CHR ''-'')" "\<not> IsIdentStart (CHR ''-'')"
  by (simp_all add: IsIdentCont_def IsIdentStart_def isalpha_def isdigit_def isspace_def in_codes_def)

lemma lex_word: "word_ok s \<Longrightarrow> lex out (s @ CHR '' '' # rest) = lex (out @ [word_token s]) (CHR '' '' # rest)"
proof -
  assume w: "word_ok s"
  then obtain c cs where s: "s = c # cs" "IsIdentStart c" "list_all IsIdentCont cs" by (cases s) (auto simp: word_ok_def)
  have "takeWhile IsIdentCont (cs @ CHR '' '' # rest) = cs \<and> dropWhile IsIdentCont (cs @ CHR '' '' # rest) = CHR '' '' # rest"
    by (rule span_append [OF s(3)]) simp
  then show "lex out (s @ CHR '' '' # rest) = lex (out @ [word_token s]) (CHR '' '' # rest)"
    using s(1) start_class [OF s(2)] s(2) by (simp add: lex.simps(2))
qed

lemma split_sign_append: "s \<noteq> [] \<Longrightarrow> split_sign (s @ ys) = (fst (split_sign s), snd (split_sign s) @ ys)"
  by (cases s) (auto simp: split_sign_def)

lemma sign_text: "s = (if fst (split_sign s) then ''-'' else []) @ snd (split_sign s)"
  by (cases s) (auto simp: split_sign_def)

lemma lex_int_text: "int_text s \<Longrightarrow> lex_number (s @ CHR '' '' # rest) = (s, False, CHR '' '' # rest)"
proof -
  assume s: "int_text s"
  have "takeWhile isdigit (snd (split_sign s) @ CHR '' '' # rest) = snd (split_sign s) \<and> dropWhile isdigit (snd (split_sign s) @ CHR '' '' # rest) = CHR '' '' # rest"
    by (rule span_append) (use s in \<open>simp_all add: int_text_def\<close>)
  moreover have "s \<noteq> []" using s by (auto simp: int_text_def split_sign_def)
  ultimately show ?thesis using sign_text [of s] by (simp add: lex_number_def split_sign_append Let_def case_prod_beta)
qed

lemma lex_float_text: "float_text s \<Longrightarrow> lex_number (s @ CHR '' '' # rest) = (s, True, CHR '' '' # rest)"
proof -
  assume s: "float_text s"
  then obtain w f where wf: "snd (split_sign s) = w @ CHR ''.'' # f" "list_all isdigit w" "list_all isdigit f" by (auto simp: float_text_def)
  have "takeWhile isdigit (w @ CHR ''.'' # f @ CHR '' '' # rest) = w \<and> dropWhile isdigit (w @ CHR ''.'' # f @ CHR '' '' # rest) = CHR ''.'' # f @ CHR '' '' # rest"
    by (rule span_append [OF wf(2)]) simp
  moreover have "takeWhile isdigit (f @ CHR '' '' # rest) = f \<and> dropWhile isdigit (f @ CHR '' '' # rest) = CHR '' '' # rest"
    by (rule span_append [OF wf(3)]) simp
  moreover have "s \<noteq> []" using wf by (auto simp: split_sign_def)
  ultimately show ?thesis using sign_text [of s] wf(1) by (simp add: lex_number_def split_sign_append Let_def case_prod_beta)
qed

lemma lex_number_token:
  assumes "lex_number (s @ rest) = (s, fl, rest)" and "number_token s fl = Inr t" and "isdigit (hd (snd (split_sign s)))" and "snd (split_sign s) \<noteq> []"
    and "take 1 s = ''-'' \<longrightarrow> \<not> prev_is_value out"
  shows "lex out (s @ rest) = lex (out @ [t]) rest"
proof (cases "fst (split_sign s)")
  case True
  then obtain d ds where s: "s = CHR ''-'' # d # ds" "isdigit d" using sign_text [of s] assms(3,4) by (cases "snd (split_sign s)") auto
  have "d \<noteq> CHR ''-''" using digit_class [OF s(2)] by simp
  then show ?thesis using assms(1,2,5) s by (simp add: lex.simps(2))
next
  case False
  then obtain d ds where s: "s = d # ds" "isdigit d" using sign_text [of s] assms(3,4) by (cases "snd (split_sign s)") auto
  then show ?thesis using assms(1,2) digit_class [OF s(2)] by (simp add: lex.simps(2))
qed

lemma lex_string_quoted:
  "lex_string acc (concat (map (\<lambda>c. if c = quote then [quote, quote] else [c]) s) @ quote # CHR '' '' # rest) = Some (acc @ s, CHR '' '' # rest)"
  by (induction s arbitrary: acc) simp_all

lemma lex_token:
  assumes "token_ok out t"
  shows "lex out (spell t @ CHR '' '' # rest) = lex (out @ [t]) rest"
proof (cases "tok_kind t")
  case kKeyword
  then have t: "t = plain_token kKeyword (tok_text t)" "IsKeyword (tok_text t)" using assms by (simp_all add: token_ok_def)
  have "word_token (tok_text t) = t" using keyword_words [OF t(2)] t by (simp add: word_token_def)
  then show ?thesis using lex_word keyword_words [OF t(2)] kKeyword by (simp add: spell_def lex_space)
next
  case kIdentifier
  then have t: "t = plain_token kIdentifier (tok_text t)" "word_ok (tok_text t)" "\<not> IsKeyword (ToUpper (tok_text t))" using assms by (simp_all add: token_ok_def)
  have "word_token (tok_text t) = t" using t by (simp add: word_token_def)
  then show ?thesis using lex_word t(2) kIdentifier by (simp add: spell_def lex_space)
next
  case kInteger
  then have t: "int_text (tok_text t)" "number_token (tok_text t) False = Inr t" "take 1 (tok_text t) = ''-'' \<longrightarrow> \<not> prev_is_value out"
    using assms by (simp_all add: token_ok_def)
  have "snd (split_sign (tok_text t)) \<noteq> []" "isdigit (hd (snd (split_sign (tok_text t))))"
    using t(1) by (auto simp: int_text_def neq_Nil_conv)
  from lex_number_token [OF lex_int_text [OF t(1)] t(2) this(2,1) t(3)] show ?thesis using kInteger by (simp add: spell_def lex_space)
next
  case kFloatLit
  then have t: "float_text (tok_text t)" "number_token (tok_text t) True = Inr t" "take 1 (tok_text t) = ''-'' \<longrightarrow> \<not> prev_is_value out"
    using assms by (simp_all add: token_ok_def)
  have "snd (split_sign (tok_text t)) \<noteq> []" "isdigit (hd (snd (split_sign (tok_text t))))"
    using t(1) by (auto simp: float_text_def neq_Nil_conv)
  from lex_number_token [OF lex_float_text [OF t(1)] t(2) this(2,1) t(3)] show ?thesis using kFloatLit by (simp add: spell_def lex_space)
next
  case kString
  then have t: "t = plain_token kString (tok_text t)" using assms by (simp add: token_ok_def)
  have q: "\<not> isspace quote" "\<not> isdigit quote" by (simp_all add: isspace_def isdigit_def in_codes_def)
  show ?thesis using kString lex_string_quoted [of "[]"] t q by (simp add: spell_def lex.simps(2) [of _ quote] lex_space)
next
  case kPunct
  then have t: "t = plain_token kPunct (tok_text t)" "tok_text t \<in> {''!='', ''<='', ''>='', ''('', '')'', '','', '';'', ''*'', ''='', ''<'', ''>'', ''.'', ''+'', ''-'', ''/''}"
    using assms by (simp_all add: token_ok_def)
  have "lex out (p @ CHR '' '' # rest) = lex (out @ [plain_token kPunct p]) (CHR '' '' # rest)"
    if "p \<in> {''!='', ''<='', ''>='', ''('', '')'', '','', '';'', ''*'', ''='', ''<'', ''>'', ''.'', ''+'', ''-'', ''/''}" for p
    using that by (elim insertE emptyE; simp add: lex.simps(2) isspace_def isdigit_def IsIdentStart_def isalpha_def in_codes_def lex_punct_def)
  from this [OF t(2)] t(1) show ?thesis using kPunct by (simp add: spell_def lex_space)
next
  case kEof
  then show ?thesis using assms by (simp add: token_ok_def)
qed

lemma lex_tokens: "tokens_ok out ts \<Longrightarrow> lex out (spell_all ts) = Inr (out @ ts @ [plain_token kEof []])"
proof (induction ts arbitrary: out)
  case (Cons t ts)
  then show ?case using lex_token [of out t "spell_all ts"] by (simp add: spell_all_def)
qed (simp add: spell_all_def)

text \<open>C39. Tokenizing the text of any sequence of tokens (keywords, identifiers, numbers, strings with quotes in them,
  punctuation) separated by spaces gives exactly these tokens and the end marker.\<close>

theorem Tokenize_spelled:
  assumes "tokens_ok [] ts"
  shows "Tokenize (spell_all ts) = Inr (ts @ [plain_token kEof []])"
  using lex_tokens [OF assms] by (simp add: Tokenize_def)

theorem Tokenize_spelled_witness:
  "Tokenize (spell_all [plain_token kKeyword ''SELECT'', plain_token kIdentifier ''a_1'', plain_token kPunct ''-'',
      \<lparr>tok_kind = kInteger, tok_text = ''-5'', int_value = -5, float_value = 0\<rparr>, plain_token kString [CHR ''x'', quote]]) =
    Inr ([plain_token kKeyword ''SELECT'', plain_token kIdentifier ''a_1'', plain_token kPunct ''-'',
      \<lparr>tok_kind = kInteger, tok_text = ''-5'', int_value = -5, float_value = 0\<rparr>, plain_token kString [CHR ''x'', quote]] @ [plain_token kEof []])"
  by (rule Tokenize_spelled)
    (simp add: token_ok_def plain_token_def IsKeyword_def Keywords_def word_ok_def IsIdentStart_def IsIdentCont_def isalpha_def isdigit_def in_codes_def
      ToUpper_def toupper_def int_text_def split_sign_def number_token_def stoll_def digits_value_def prev_is_value_def)

end
