(* ===== verification/Parser.thy ===== *)
theory Parser
  imports Lexer Ast
begin

text \<open>
  The recursive-descent parser of SQL statements (\<open>sql/parser.cpp\<close>). The position in the token
  vector is the rest of it. The recursion of the expression grammar carries fuel; running out of
  it, like reading past the last token, would be \<open>Undefined\<close>, and is shown never to happen.
\<close>

section \<open>Looking at tokens\<close>

type_synonym tokens = "Token list"
type_synonym 'a parsed = "('a \<times> tokens) result"

definition Fail :: "string \<Rightarrow> 'a result" where
  "Fail m = Inl (RuntimeError (''parser: '' @ m))"

definition Peek :: "tokens \<Rightarrow> Token result" where
  "Peek ts = (case ts of [] \<Rightarrow> Inl (Undefined ''tokens_[pos_]'') | t # _ \<Rightarrow> Inr t)"

definition Consume :: "tokens \<Rightarrow> Token parsed" where
  "Consume ts = bindR (Peek ts) (\<lambda>t. Inr (t, tl ts))"

definition MatchKw :: "string \<Rightarrow> tokens \<Rightarrow> bool parsed" where
  "MatchKw kw ts = bindR (Peek ts) (\<lambda>t. Inr (if tok_kind t = kKeyword \<and> tok_text t = kw then (True, tl ts) else (False, ts)))"

definition MatchPunct :: "string \<Rightarrow> tokens \<Rightarrow> bool parsed" where
  "MatchPunct p ts = bindR (Peek ts) (\<lambda>t. Inr (if tok_kind t = kPunct \<and> tok_text t = p then (True, tl ts) else (False, ts)))"

definition ExpectKw :: "string \<Rightarrow> tokens \<Rightarrow> unit parsed" where
  "ExpectKw kw ts = bindR (MatchKw kw ts) (\<lambda>(ok, ts1).
     if ok then Inr ((), ts1)
     else bindR (Peek ts1) (\<lambda>t. Fail (''expected keyword '' @ kw @ '', got '' @ [quote] @ tok_text t @ [quote])))"

definition ExpectPunct :: "string \<Rightarrow> tokens \<Rightarrow> unit parsed" where
  "ExpectPunct p ts = bindR (MatchPunct p ts) (\<lambda>(ok, ts1).
     if ok then Inr ((), ts1)
     else bindR (Peek ts1) (\<lambda>t. Fail (''expected '' @ [quote] @ p @ [quote] @ '', got '' @ [quote] @ tok_text t @ [quote])))"

definition ExpectIdent :: "tokens \<Rightarrow> string parsed" where
  "ExpectIdent ts = bindR (Peek ts) (\<lambda>t.
     if tok_kind t \<noteq> kIdentifier then Fail (''expected identifier, got '' @ [quote] @ tok_text t @ [quote])
     else bindR (Consume ts) (\<lambda>(t1, ts1). Inr (tok_text t1, ts1)))"

definition ExpectEnd :: "tokens \<Rightarrow> unit parsed" where
  "ExpectEnd ts = bindR (MatchPunct '';'' ts) (\<lambda>(_, ts1). bindR (Peek ts1) (\<lambda>t.
     if tok_kind t \<noteq> kEof then Fail ''trailing tokens after statement'' else Inr ((), ts1)))"

text \<open>\<open>while (MatchPunct(",")) v.push_back(p())\<close> after a first element.\<close>

fun comma_loop :: "nat \<Rightarrow> (tokens \<Rightarrow> 'a parsed) \<Rightarrow> 'a list \<Rightarrow> tokens \<Rightarrow> 'a list parsed" where
  "comma_loop 0 p acc ts = Inl (Undefined ''out of fuel'')"
| "comma_loop (Suc n) p acc ts =
     bindR (MatchPunct '','' ts) (\<lambda>(ok, ts1).
       if ok then bindR (p ts1) (\<lambda>(x, ts2). comma_loop n p (acc @ [x]) ts2) else Inr (acc, ts1))"

definition comma_list :: "(tokens \<Rightarrow> 'a parsed) \<Rightarrow> tokens \<Rightarrow> 'a list parsed" where
  "comma_list p ts = bindR (p ts) (\<lambda>(x, ts1). comma_loop (length ts1) p [x] ts1)"

section \<open>Expressions\<close>

definition ParseLiteral :: "tokens \<Rightarrow> Value parsed" where
  "ParseLiteral ts = bindR (Peek ts) (\<lambda>t.
     case tok_kind t of
       kInteger \<Rightarrow>
         Inr (if - (2 ^ 31) \<le> sint (int_value t) \<and> sint (int_value t) < 2 ^ 31 then Int32 (scast (int_value t)) else Int64 (int_value t), tl ts)
     | kFloatLit \<Rightarrow> Inr (Dbl (float_value t), tl ts)
     | kString \<Rightarrow> Inr (Str (tok_text t), tl ts)
     | _ \<Rightarrow>
         if tok_kind t = kKeyword \<and> tok_text t = ''NULL'' then Inr (Null, tl ts)
         else Fail (''expected literal, got '' @ [quote] @ tok_text t @ [quote]))"

definition PeekAggregate :: "Token \<Rightarrow> bool" where
  "PeekAggregate t \<longleftrightarrow> tok_kind t = kKeyword \<and> tok_text t \<in> {''COUNT'', ''SUM'', ''AVG'', ''MIN'', ''MAX''}"

definition ParseColumnRef :: "tokens \<Rightarrow> column_ref parsed" where
  "ParseColumnRef ts = bindR (ExpectIdent ts) (\<lambda>(first, ts1). bindR (MatchPunct ''.'' ts1) (\<lambda>(dot, ts2).
     if dot then bindR (ExpectIdent ts2) (\<lambda>(name, ts3). Inr ((first, name), ts3)) else Inr (([], first), ts2)))"

definition compare_op :: "Token \<Rightarrow> BinOp option" where
  "compare_op t =
     (if tok_kind t \<noteq> kPunct then None
      else if tok_text t = ''='' then Some kEq
      else if tok_text t = ''!='' then Some kNe
      else if tok_text t = ''<'' then Some kLt
      else if tok_text t = ''<='' then Some kLe
      else if tok_text t = ''>'' then Some kGt
      else if tok_text t = ''>='' then Some kGe
      else None)"

definition add_op :: "Token \<Rightarrow> BinOp option" where
  "add_op t = (if tok_kind t \<noteq> kPunct then None else if tok_text t = ''+'' then Some kAdd else if tok_text t = ''-'' then Some kSub else None)"

definition mul_op :: "Token \<Rightarrow> BinOp option" where
  "mul_op t = (if tok_kind t \<noteq> kPunct then None else if tok_text t = ''*'' then Some kMul else if tok_text t = ''/'' then Some kDiv else None)"

text \<open>\<open>l BETWEEN lo AND hi\<close>, for a column \<open>l\<close>.\<close>

definition between :: "Expr \<Rightarrow> Expr \<Rightarrow> Expr \<Rightarrow> Expr result" where
  "between l lo hi =
     (case l of
        ColumnRefExpr c \<Rightarrow>
          Inr (BinaryExpr kAnd (BinaryExpr kGe (ColumnRefExpr c) lo) (BinaryExpr kLe (ColumnRefExpr c) hi))
      | _ \<Rightarrow> Fail ''BETWEEN requires a column on the left'')"

definition agg_kind_of :: "string \<Rightarrow> AggKind" where
  "agg_kind_of fn =
     (if fn = ''COUNT'' then kCount else if fn = ''SUM'' then kSum else if fn = ''AVG'' then kAvg else if fn = ''MIN'' then kMin else kMax)"

text \<open>
  The functions of the expression grammar and the loops inside them, each given how to call the
  others: \<open>call p ts\<close> runs the one named by \<open>p\<close>.
\<close>

datatype production =
    Or | OrLoop Expr | And | AndLoop Expr | Not | Comparison | AddSub | AddSubLoop Expr | MulDiv | MulDivLoop Expr | Primary | Aggregate

type_synonym caller = "production \<Rightarrow> tokens \<Rightarrow> Expr parsed"

definition ParseOr :: "caller \<Rightarrow> tokens \<Rightarrow> Expr parsed" where
  "ParseOr call ts = bindR (call And ts) (\<lambda>(l, ts1). call (OrLoop l) ts1)"

definition or_loop :: "caller \<Rightarrow> Expr \<Rightarrow> tokens \<Rightarrow> Expr parsed" where
  "or_loop call l ts =
     bindR (MatchKw ''OR'' ts) (\<lambda>(ok, ts1).
       if ok then bindR (call And ts1) (\<lambda>(r, ts2). call (OrLoop (BinaryExpr kOr l r)) ts2) else Inr (l, ts1))"

definition ParseAnd :: "caller \<Rightarrow> tokens \<Rightarrow> Expr parsed" where
  "ParseAnd call ts = bindR (call Not ts) (\<lambda>(l, ts1). call (AndLoop l) ts1)"

definition and_loop :: "caller \<Rightarrow> Expr \<Rightarrow> tokens \<Rightarrow> Expr parsed" where
  "and_loop call l ts =
     bindR (MatchKw ''AND'' ts) (\<lambda>(ok, ts1).
       if ok then bindR (call Not ts1) (\<lambda>(r, ts2). call (AndLoop (BinaryExpr kAnd l r)) ts2) else Inr (l, ts1))"

definition ParseNot :: "caller \<Rightarrow> tokens \<Rightarrow> Expr parsed" where
  "ParseNot call ts =
     bindR (MatchKw ''NOT'' ts) (\<lambda>(ok, ts1).
       if ok then bindR (call Not ts1) (\<lambda>(e, ts2). Inr (NotExpr e, ts2)) else call Comparison ts1)"

definition ParseComparison :: "caller \<Rightarrow> tokens \<Rightarrow> Expr parsed" where
  "ParseComparison call ts =
     bindR (call AddSub ts) (\<lambda>(l, ts1). bindR (Peek ts1) (\<lambda>t.
       if tok_kind t = kPunct then
         (case compare_op t of
            None \<Rightarrow> Inr (l, ts1)
          | Some op' \<Rightarrow> bindR (call AddSub (tl ts1)) (\<lambda>(r, ts2). Inr (BinaryExpr op' l r, ts2)))
       else if tok_kind t = kKeyword \<and> tok_text t = ''BETWEEN'' then
         bindR (call AddSub (tl ts1)) (\<lambda>(lo, ts2).
         bindR (ExpectKw ''AND'' ts2) (\<lambda>(_, ts3).
         bindR (call AddSub ts3) (\<lambda>(hi, ts4).
         bindR (between l lo hi) (\<lambda>e. Inr (e, ts4)))))
       else if tok_kind t = kKeyword \<and> tok_text t = ''IN'' then
         bindR (ExpectPunct ''('' (tl ts1)) (\<lambda>(_, ts2).
         bindR (comma_list ParseLiteral ts2) (\<lambda>(vs, ts3).
         bindR (ExpectPunct '')'' ts3) (\<lambda>(_, ts4). Inr (InExpr l vs, ts4))))
       else Inr (l, ts1)))"

definition ParseAddSub :: "caller \<Rightarrow> tokens \<Rightarrow> Expr parsed" where
  "ParseAddSub call ts = bindR (call MulDiv ts) (\<lambda>(l, ts1). call (AddSubLoop l) ts1)"

definition add_sub_loop :: "caller \<Rightarrow> Expr \<Rightarrow> tokens \<Rightarrow> Expr parsed" where
  "add_sub_loop call l ts =
     bindR (Peek ts) (\<lambda>t.
       case add_op t of
         None \<Rightarrow> Inr (l, ts)
       | Some op' \<Rightarrow> bindR (call MulDiv (tl ts)) (\<lambda>(r, ts1). call (AddSubLoop (BinaryExpr op' l r)) ts1))"

definition ParseMulDiv :: "caller \<Rightarrow> tokens \<Rightarrow> Expr parsed" where
  "ParseMulDiv call ts = bindR (call Primary ts) (\<lambda>(l, ts1). call (MulDivLoop l) ts1)"

definition mul_div_loop :: "caller \<Rightarrow> Expr \<Rightarrow> tokens \<Rightarrow> Expr parsed" where
  "mul_div_loop call l ts =
     bindR (Peek ts) (\<lambda>t.
       case mul_op t of
         None \<Rightarrow> Inr (l, ts)
       | Some op' \<Rightarrow> bindR (call Primary (tl ts)) (\<lambda>(r, ts1). call (MulDivLoop (BinaryExpr op' l r)) ts1))"

definition ParsePrimary :: "caller \<Rightarrow> tokens \<Rightarrow> Expr parsed" where
  "ParsePrimary call ts =
     bindR (MatchPunct ''('' ts) (\<lambda>(ok, ts1).
       if ok then bindR (call Or ts1) (\<lambda>(e, ts2). bindR (ExpectPunct '')'' ts2) (\<lambda>(_, ts3). Inr (e, ts3)))
       else bindR (Peek ts1) (\<lambda>t.
         if PeekAggregate t then call Aggregate ts1
         else if tok_kind t \<in> {kInteger, kFloatLit, kString} \<or> (tok_kind t = kKeyword \<and> tok_text t = ''NULL'') then
           bindR (ParseLiteral ts1) (\<lambda>(v, ts2). Inr (LiteralExpr v, ts2))
         else if tok_kind t = kIdentifier then
           bindR (ParseColumnRef ts1) (\<lambda>(c, ts2). Inr (ColumnRefExpr c, ts2))
         else Fail (''expected expression, got '' @ [quote] @ tok_text t @ [quote])))"

definition ParseAggregate :: "caller \<Rightarrow> tokens \<Rightarrow> Expr parsed" where
  "ParseAggregate call ts =
     bindR (Consume ts) (\<lambda>(fn, ts1).
     bindR (ExpectPunct ''('' ts1) (\<lambda>(_, ts2).
     bindR (if tok_text fn = ''COUNT'' then MatchPunct ''*'' ts2 else Inr (False, ts2)) (\<lambda>(star, ts3).
     bindR (if star then Inr (AggregateExpr kCountStar None, ts3)
            else bindR (call AddSub ts3) (\<lambda>(e, ts4). Inr (AggregateExpr (agg_kind_of (tok_text fn)) (Some e), ts4))) (\<lambda>(agg, ts5).
     bindR (ExpectPunct '')'' ts5) (\<lambda>(_, ts6). Inr (agg, ts6))))))"

fun body :: "production \<Rightarrow> caller \<Rightarrow> tokens \<Rightarrow> Expr parsed" where
  "body Or call = ParseOr call"
| "body (OrLoop l) call = or_loop call l"
| "body And call = ParseAnd call"
| "body (AndLoop l) call = and_loop call l"
| "body Not call = ParseNot call"
| "body Comparison call = ParseComparison call"
| "body AddSub call = ParseAddSub call"
| "body (AddSubLoop l) call = add_sub_loop call l"
| "body MulDiv call = ParseMulDiv call"
| "body (MulDivLoop l) call = mul_div_loop call l"
| "body Primary call = ParsePrimary call"
| "body Aggregate call = ParseAggregate call"

fun parse :: "nat \<Rightarrow> production \<Rightarrow> tokens \<Rightarrow> Expr parsed" where
  "parse 0 p ts = Inl (Undefined ''out of fuel'')"
| "parse (Suc n) p ts = body p (parse n) ts"

text \<open>Enough fuel for the nesting that a token list can ask for.\<close>

definition fuel :: "tokens \<Rightarrow> nat" where
  "fuel ts = 9 * length ts + 9"

definition ParseExpr :: "tokens \<Rightarrow> Expr parsed" where
  "ParseExpr ts = parse (fuel ts) Or ts"

section \<open>Statements\<close>

definition ParseSelectItem :: "tokens \<Rightarrow> SelectItem parsed" where
  "ParseSelectItem ts =
     bindR (Peek ts) (\<lambda>t.
     bindR (parse (fuel ts) (if PeekAggregate t then Aggregate else Primary) ts) (\<lambda>(e, ts1).
     bindR (MatchKw ''AS'' ts1) (\<lambda>(ok, ts2).
       if ok then bindR (ExpectIdent ts2) (\<lambda>(a, ts3). Inr (\<lparr>item_expr = e, output_alias = a\<rparr>, ts3))
       else Inr (\<lparr>item_expr = e, output_alias = []\<rparr>, ts2))))"

definition ParseTableRef :: "tokens \<Rightarrow> TableRef parsed" where
  "ParseTableRef ts =
     bindR (ExpectIdent ts) (\<lambda>(name, ts1). bindR (Peek ts1) (\<lambda>t.
       if tok_kind t = kKeyword \<and> tok_text t = ''AS'' then
         bindR (ExpectIdent (tl ts1)) (\<lambda>(a, ts2). Inr (\<lparr>tr_name = name, tr_alias = a\<rparr>, ts2))
       else if tok_kind t = kIdentifier then
         bindR (ExpectIdent ts1) (\<lambda>(a, ts2). Inr (\<lparr>tr_name = name, tr_alias = a\<rparr>, ts2))
       else Inr (\<lparr>tr_name = name, tr_alias = name\<rparr>, ts1)))"

text \<open>The optional clauses: \<open>if (MatchKw(kw)) x = p()\<close>.\<close>

definition clause :: "string \<Rightarrow> (tokens \<Rightarrow> 'a parsed) \<Rightarrow> tokens \<Rightarrow> 'a option parsed" where
  "clause kw p ts = bindR (MatchKw kw ts) (\<lambda>(ok, ts1). if ok then bindR (p ts1) (\<lambda>(x, ts2). Inr (Some x, ts2)) else Inr (None, ts1))"

definition after_by :: "(tokens \<Rightarrow> 'a parsed) \<Rightarrow> tokens \<Rightarrow> 'a parsed" where
  "after_by p ts = bindR (ExpectKw ''BY'' ts) (\<lambda>(_, ts1). p ts1)"

definition ParseOrderKey :: "tokens \<Rightarrow> order_by parsed" where
  "ParseOrderKey ts =
     bindR (ExpectIdent ts) (\<lambda>(first, ts1).
     bindR (MatchPunct ''.'' ts1) (\<lambda>(dot, ts2).
     bindR (if dot then ExpectIdent ts2 else Inr (first, ts2)) (\<lambda>(name, ts3).
     bindR (MatchKw ''DESC'' ts3) (\<lambda>(desc, ts4).
     bindR (if desc then Inr (True, ts4) else MatchKw ''ASC'' ts4) (\<lambda>(_, ts5).
       Inr (\<lparr>ob_output_name = name, descending = desc\<rparr>, ts5))))))"

definition ParseLimit :: "tokens \<Rightarrow> nat parsed" where
  "ParseLimit ts =
     bindR (Peek ts) (\<lambda>t.
       if tok_kind t \<noteq> kInteger \<or> sint (int_value t) < 0 then Fail ''LIMIT must be a non-negative integer''
       else Inr (unat (int_value t), tl ts))"

definition ParseSelect :: "tokens \<Rightarrow> Statement parsed" where
  "ParseSelect ts =
     bindR (ExpectKw ''SELECT'' ts) (\<lambda>(_, ts1).
     bindR (MatchPunct ''*'' ts1) (\<lambda>(star, ts2).
     bindR (if star then Inr ([], ts2) else comma_list ParseSelectItem ts2) (\<lambda>(its, ts3).
     bindR (ExpectKw ''FROM'' ts3) (\<lambda>(_, ts4).
     bindR (comma_list ParseTableRef ts4) (\<lambda>(tbls, ts5).
     bindR (clause ''WHERE'' ParseExpr ts5) (\<lambda>(wh, ts6).
     bindR (clause ''GROUP'' (after_by (comma_list ParseColumnRef)) ts6) (\<lambda>(gb, ts7).
     bindR (clause ''HAVING'' ParseExpr ts7) (\<lambda>(hv, ts8).
     bindR (clause ''ORDER'' (after_by ParseOrderKey) ts8) (\<lambda>(ob, ts9).
     bindR (clause ''LIMIT'' ParseLimit ts9) (\<lambda>(lim, ts10).
     bindR (ExpectEnd ts10) (\<lambda>(_, ts11).
       Inr (SelectStmt \<lparr>select_star = star, items = its, tables = tbls, where_clause = wh,
         group_by = (case gb of None \<Rightarrow> [] | Some cs \<Rightarrow> cs), having = hv, order_by_clause = ob, limit_clause = lim\<rparr>, ts11))))))))))))"

definition ParseRow :: "tokens \<Rightarrow> Value list parsed" where
  "ParseRow ts = bindR (ExpectPunct ''('' ts) (\<lambda>(_, ts1). bindR (comma_list ParseLiteral ts1) (\<lambda>(vs, ts2).
     bindR (ExpectPunct '')'' ts2) (\<lambda>(_, ts3). Inr (vs, ts3))))"

definition ParseInsert :: "tokens \<Rightarrow> Statement parsed" where
  "ParseInsert ts =
     bindR (ExpectKw ''INSERT'' ts) (\<lambda>(_, ts1). bindR (ExpectKw ''INTO'' ts1) (\<lambda>(_, ts2).
     bindR (ExpectIdent ts2) (\<lambda>(name, ts3). bindR (ExpectKw ''VALUES'' ts3) (\<lambda>(_, ts4).
     bindR (comma_list ParseRow ts4) (\<lambda>(rs, ts5).
     bindR (ExpectEnd ts5) (\<lambda>(_, ts6). Inr (InsertStmt name rs, ts6)))))))"

definition ParseColumnDef :: "tokens \<Rightarrow> ColumnDef parsed" where
  "ParseColumnDef ts =
     bindR (ExpectIdent ts) (\<lambda>(name, ts1). bindR (Peek ts1) (\<lambda>t.
       if tok_kind t \<noteq> kKeyword then Fail (''expected column type, got '' @ [quote] @ tok_text t @ [quote])
       else if tok_text t = ''INT'' then Inr (\<lparr>cd_name = name, cd_type = kInt, cd_varchar_len = 0\<rparr>, tl ts1)
       else if tok_text t = ''BIGINT'' then Inr (\<lparr>cd_name = name, cd_type = kBigInt, cd_varchar_len = 0\<rparr>, tl ts1)
       else if tok_text t = ''FLOAT'' then Inr (\<lparr>cd_name = name, cd_type = kFloat, cd_varchar_len = 0\<rparr>, tl ts1)
       else if tok_text t = ''VARCHAR'' then
         bindR (ExpectPunct ''('' (tl ts1)) (\<lambda>(_, ts2). bindR (Peek ts2) (\<lambda>u.
           if tok_kind u \<noteq> kInteger \<or> sint (int_value u) \<le> 0 \<or> 65535 < sint (int_value u)
           then Fail ''VARCHAR length must be a positive integer <= 65535''
           else bindR (ExpectPunct '')'' (tl ts2)) (\<lambda>(_, ts3).
             Inr (\<lparr>cd_name = name, cd_type = kVarchar, cd_varchar_len = ucast (int_value u)\<rparr>, ts3))))
       else Fail (''unknown column type: '' @ tok_text t)))"

definition ParseCreateTable :: "tokens \<Rightarrow> Statement parsed" where
  "ParseCreateTable ts =
     bindR (ExpectKw ''CREATE'' ts) (\<lambda>(_, ts1). bindR (ExpectKw ''TABLE'' ts1) (\<lambda>(_, ts2).
     bindR (ExpectIdent ts2) (\<lambda>(name, ts3). bindR (ExpectPunct ''('' ts3) (\<lambda>(_, ts4).
     bindR (comma_list ParseColumnDef ts4) (\<lambda>(cols, ts5). bindR (ExpectPunct '')'' ts5) (\<lambda>(_, ts6).
     bindR (ExpectEnd ts6) (\<lambda>(_, ts7). Inr (CreateTableStmt name cols, ts7))))))))"

definition ParseDrop :: "tokens \<Rightarrow> Statement parsed" where
  "ParseDrop ts =
     bindR (ExpectKw ''DROP'' ts) (\<lambda>(_, ts1). bindR (ExpectKw ''TABLE'' ts1) (\<lambda>(_, ts2).
     bindR (ExpectIdent ts2) (\<lambda>(name, ts3). bindR (ExpectEnd ts3) (\<lambda>(_, ts4). Inr (DropTableStmt name, ts4)))))"

definition ParseTruncate :: "tokens \<Rightarrow> Statement parsed" where
  "ParseTruncate ts =
     bindR (ExpectKw ''TRUNCATE'' ts) (\<lambda>(_, ts1). bindR (ExpectKw ''TABLE'' ts1) (\<lambda>(_, ts2).
     bindR (ExpectIdent ts2) (\<lambda>(name, ts3). bindR (ExpectEnd ts3) (\<lambda>(_, ts4). Inr (TruncateStmt name, ts4)))))"

definition ParseStatement :: "tokens \<Rightarrow> Statement parsed" where
  "ParseStatement ts = bindR (Peek ts) (\<lambda>t.
     if tok_kind t \<noteq> kKeyword then Fail ''expected statement''
     else if tok_text t = ''SELECT'' then ParseSelect ts
     else if tok_text t = ''INSERT'' then ParseInsert ts
     else if tok_text t = ''CREATE'' then ParseCreateTable ts
     else if tok_text t = ''DROP'' then ParseDrop ts
     else if tok_text t = ''TRUNCATE'' then ParseTruncate ts
     else Fail (''unsupported statement: '' @ tok_text t))"

definition Parse :: "string \<Rightarrow> Statement result" where
  "Parse sql = bindR (Tokenize sql) (\<lambda>tokens. bindR (ParseStatement tokens) (\<lambda>(s, _). Inr s))"

section \<open>The parser always returns\<close>

text \<open>
  \<open>eof_ended ts\<close>: the rest of the tokens ends with the end marker. \<open>settles r n\<close>: the parser has
  reported an error of its own or leaves such a rest of at most \<open>n\<close> tokens.
\<close>

definition eof_ended :: "tokens \<Rightarrow> bool" where
  "eof_ended ts \<longleftrightarrow> ts \<noteq> [] \<and> tok_kind (last ts) = kEof"

definition settles :: "'a parsed \<Rightarrow> nat \<Rightarrow> bool" where
  "settles r n \<longleftrightarrow> (case r of Inl e \<Rightarrow> \<exists>m. e = RuntimeError m | Inr (x, ts) \<Rightarrow> eof_ended ts \<and> length ts \<le> n)"

lemma ok_simps [simp]: "settles (Inr (x, ts)) n \<longleftrightarrow> eof_ended ts \<and> length ts \<le> n" "settles (Fail m) n" "settles (Inl (RuntimeError m)) n" "bindR (Fail m) f = Fail m"
  by (simp_all add: settles_def Fail_def)

lemma settles_mono: "settles r m \<Longrightarrow> m \<le> n \<Longrightarrow> settles r n"
  by (auto simp: settles_def split: sum.splits)

lemma settles_bind:
  "settles r m \<Longrightarrow> (\<And>x ts. eof_ended ts \<Longrightarrow> length ts \<le> m \<Longrightarrow> settles (f x ts) n) \<Longrightarrow> settles (bindR r (case_prod f)) n"
  by (cases r) (auto simp: settles_def)

lemma eof_ended_tl: "eof_ended ts \<Longrightarrow> tok_kind (hd ts) \<noteq> kEof \<Longrightarrow> eof_ended (tl ts) \<and> length (tl ts) = length ts - 1 \<and> 2 \<le> length ts"
  by (cases ts; cases "tl ts") (auto simp: eof_ended_def)

lemma eof_ended_pos: "eof_ended ts \<Longrightarrow> 0 < length ts"
  by (simp add: eof_ended_def)

text \<open>One rule for each primitive, with what is known afterwards.\<close>

lemma bind_peek:
  assumes "eof_ended ts" and "tok_kind (hd ts) \<noteq> kEof \<Longrightarrow> eof_ended (tl ts) \<Longrightarrow> length (tl ts) = length ts - 1 \<Longrightarrow> 2 \<le> length ts \<Longrightarrow> settles (f (hd ts)) n"
    and "tok_kind (hd ts) = kEof \<Longrightarrow> settles (f (hd ts)) n"
  shows "settles (bindR (Peek ts) f) n"
  using assms eof_ended_tl [OF assms(1)] by (cases ts) (auto simp: eof_ended_def Peek_def)

lemma bind_kw:
  assumes "eof_ended ts" and "eof_ended (tl ts) \<Longrightarrow> length (tl ts) = length ts - 1 \<Longrightarrow> 2 \<le> length ts \<Longrightarrow> settles (f True (tl ts)) n" and "settles (f False ts) n"
  shows "settles (bindR (MatchKw kw ts) (case_prod f)) n"
  using assms eof_ended_tl [OF assms(1)] by (cases ts) (auto simp: MatchKw_def Peek_def eof_ended_def)

lemma bind_punct:
  assumes "eof_ended ts" and "eof_ended (tl ts) \<Longrightarrow> length (tl ts) = length ts - 1 \<Longrightarrow> 2 \<le> length ts \<Longrightarrow> settles (f True (tl ts)) n" and "settles (f False ts) n"
  shows "settles (bindR (MatchPunct p ts) (case_prod f)) n"
  using assms eof_ended_tl [OF assms(1)] by (cases ts) (auto simp: MatchPunct_def Peek_def eof_ended_def)

lemma settles_expect: "eof_ended ts \<Longrightarrow> settles (ExpectKw kw ts) (length ts - 1)" "eof_ended ts \<Longrightarrow> settles (ExpectPunct p ts) (length ts - 1)"
  by (auto simp: ExpectKw_def ExpectPunct_def intro!: bind_kw bind_punct bind_peek)

lemma settles_ident: "eof_ended ts \<Longrightarrow> settles (ExpectIdent ts) (length ts - 1)"
  using eof_ended_tl [of ts] by (cases ts) (auto simp: ExpectIdent_def Consume_def Peek_def eof_ended_def)

lemma settles_end: "eof_ended ts \<Longrightarrow> settles (ExpectEnd ts) (length ts)"
  by (auto simp: ExpectEnd_def intro!: bind_punct bind_peek)

lemma settles_literal: "eof_ended ts \<Longrightarrow> settles (ParseLiteral ts) (length ts - 1)"
  by (auto simp: ParseLiteral_def split: TokenKind.splits intro!: bind_peek)

lemmas bind_expect = settles_bind [OF settles_expect(1)] settles_bind [OF settles_expect(2)]
lemmas bind_ident = settles_bind [OF settles_ident]
lemmas bind_literal = settles_bind [OF settles_literal]
lemmas binds = bind_peek bind_kw bind_punct bind_expect bind_ident bind_literal

lemma settles_column_ref: "eof_ended ts \<Longrightarrow> settles (ParseColumnRef ts) (length ts - 1)"
  unfolding ParseColumnRef_def by (auto intro!: binds)

text \<open>What a parser must do to be used for the elements of a comma-separated list.\<close>

definition progress :: "(tokens \<Rightarrow> 'a parsed) \<Rightarrow> bool" where
  "progress p \<longleftrightarrow> (\<forall>ts. eof_ended ts \<longrightarrow> settles (p ts) (length ts - 1))"

lemma progress_bind: "progress p \<Longrightarrow> eof_ended ts \<Longrightarrow> (\<And>x ts'. eof_ended ts' \<Longrightarrow> length ts' \<le> length ts - 1 \<Longrightarrow> settles (f x ts') n) \<Longrightarrow>
    settles (bindR (p ts) (case_prod f)) n"
  unfolding progress_def by (rule settles_bind [of _ "length ts - 1"]) blast+

lemma comma_loop_settles: "progress p \<Longrightarrow> eof_ended ts \<Longrightarrow> length ts \<le> n \<Longrightarrow> settles (comma_loop n p acc ts) (length ts)"
proof (induction n arbitrary: acc ts)
  case (Suc n)
  have "settles (comma_loop n p (acc @ [x]) ts2) (length ts)" if "eof_ended ts2" "length ts2 \<le> length ts - 1 - 1" "2 \<le> length ts" for x ts2
    by (rule settles_mono [OF Suc.IH [OF Suc.prems(1) that(1)]]) (use that(2,3) Suc.prems(3) in auto)
  then show ?case using Suc.prems by (auto intro!: bind_punct progress_bind [of p])
qed (simp add: eof_ended_def)

lemma progress_comma_list: "progress p \<Longrightarrow> progress (comma_list p)"
  unfolding progress_def [of "comma_list p"] comma_list_def
  by (auto intro!: progress_bind settles_mono [OF comma_loop_settles])

lemma progress_simps [simp]: "progress ParseLiteral" "progress ParseColumnRef" "progress ExpectIdent"
  using settles_literal settles_column_ref settles_ident by (simp_all add: progress_def)

text \<open>
  The fuel each production needs beyond nine units for every token left, and the tokens it
  uses at least.
\<close>

fun rank :: "production \<Rightarrow> nat" where
  "rank Or = 8"
| "rank And = 7"
| "rank Not = 6"
| "rank Comparison = 5"
| "rank AddSub = 4"
| "rank MulDiv = 3"
| "rank Primary = 2"
| "rank Aggregate = 1"
| "rank _ = 0"

fun least_use :: "production \<Rightarrow> nat" where
  "least_use (OrLoop l) = 0"
| "least_use (AndLoop l) = 0"
| "least_use (AddSubLoop l) = 0"
| "least_use (MulDivLoop l) = 0"
| "least_use _ = 1"

definition callable :: "production \<Rightarrow> tokens \<Rightarrow> bool" where
  "callable p ts \<longleftrightarrow> eof_ended ts \<and> (p = Aggregate \<longrightarrow> PeekAggregate (hd ts))"

lemma callable_simps [simp]: "p \<noteq> Aggregate \<Longrightarrow> callable p ts \<longleftrightarrow> eof_ended ts"
  by (simp add: callable_def)

definition good_caller :: "nat \<Rightarrow> caller \<Rightarrow> bool" where
  "good_caller n call \<longleftrightarrow> (\<forall>p ts. callable p ts \<longrightarrow> 9 * length ts + rank p < n \<longrightarrow> settles (call p ts) (length ts - least_use p))"

lemma call_settles: "good_caller n call \<Longrightarrow> callable p ts \<Longrightarrow> 9 * length ts + rank p < n \<Longrightarrow> length ts - least_use p \<le> m \<Longrightarrow> settles (call p ts) m"
  unfolding good_caller_def using settles_mono by blast

lemma bind_call:
  assumes "good_caller n call" and "callable p ts" and "9 * length ts + rank p < n"
    and "\<And>x ts'. eof_ended ts' \<Longrightarrow> length ts' \<le> length ts - least_use p \<Longrightarrow> settles (f x ts') m"
  shows "settles (bindR (call p ts) (case_prod f)) m"
  by (rule settles_bind [OF call_settles [OF assms(1-3) order_refl] assms(4)])

lemma bind_argument:
  assumes "good_caller n call" and "eof_ended ts" and "9 * length ts + 4 < n"
    and "\<And>x ts'. eof_ended ts' \<Longrightarrow> length ts' \<le> length ts \<Longrightarrow> settles (f x ts') m"
  shows "settles (bindR (bindR (call AddSub ts) (\<lambda>(e, ts4). Inr (g e, ts4))) (case_prod f)) m"
  by (rule settles_bind [of _ "length ts"]) (use assms in \<open>auto intro!: bind_call [OF assms(1)]\<close>)

lemma compare_op_not_eof: "compare_op t = Some op' \<Longrightarrow> tok_kind t \<noteq> kEof" "add_op t = Some op' \<Longrightarrow> tok_kind t \<noteq> kEof" "mul_op t = Some op' \<Longrightarrow> tok_kind t \<noteq> kEof"
  by (auto simp: compare_op_def add_op_def mul_op_def split: if_splits)

lemma bind_between: "eof_ended ts \<Longrightarrow> length ts \<le> n \<Longrightarrow> settles (bindR (between l lo hi) (\<lambda>e. Inr (e, ts))) n"
  by (cases l) (auto simp: between_def)

lemma body_settles:
  assumes c: "good_caller n call" and ts: "callable p ts" and fuel: "9 * length ts + rank p < Suc n"
  shows "settles (body p call ts) (length ts - least_use p)"
proof -
  have t: "eof_ended ts" "0 < length ts" using ts eof_ended_pos by (auto simp: callable_def)
  note rules = binds bind_call [OF c] call_settles [OF c]
  show ?thesis
  proof (cases p)
    case Or
    then show ?thesis using t fuel by (auto simp: ParseOr_def intro!: rules)
  next
    case (OrLoop l)
    then show ?thesis using t fuel by (auto simp: or_loop_def intro!: rules)
  next
    case And
    then show ?thesis using t fuel by (auto simp: ParseAnd_def intro!: rules)
  next
    case (AndLoop l)
    then show ?thesis using t fuel by (auto simp: and_loop_def intro!: rules)
  next
    case Not
    then show ?thesis using t fuel by (auto simp: ParseNot_def intro!: rules)
  next
    case Comparison
    then show ?thesis
      using t fuel by (auto simp: ParseComparison_def split: option.splits dest: compare_op_not_eof
        intro!: rules bind_between progress_bind [OF progress_comma_list])
  next
    case AddSub
    then show ?thesis using t fuel by (auto simp: ParseAddSub_def intro!: rules)
  next
    case (AddSubLoop l)
    then show ?thesis using t fuel by (auto simp: add_sub_loop_def split: option.splits dest: compare_op_not_eof intro!: rules)
  next
    case MulDiv
    then show ?thesis using t fuel by (auto simp: ParseMulDiv_def intro!: rules)
  next
    case (MulDivLoop l)
    then show ?thesis using t fuel by (auto simp: mul_div_loop_def split: option.splits dest: compare_op_not_eof intro!: rules)
  next
    case Primary
    then show ?thesis using t fuel by (auto simp: ParsePrimary_def callable_def intro!: rules progress_bind [of ParseColumnRef])
  next
    case Aggregate
    then have "PeekAggregate (hd ts)" using ts by (simp add: callable_def)
    then have "tok_kind (hd ts) \<noteq> kEof" by (auto simp: PeekAggregate_def)
    then have "Consume ts = Inr (hd ts, tl ts)" "eof_ended (tl ts)" "length (tl ts) = length ts - 1" "2 \<le> length ts"
      using eof_ended_tl [OF t(1)] t(2) by (auto simp: Consume_def Peek_def split: list.splits)
    then show ?thesis using Aggregate t fuel by (auto simp: ParseAggregate_def intro!: rules bind_argument [OF c]; linarith)
  qed
qed

lemma parse_settles: "callable p ts \<Longrightarrow> 9 * length ts + rank p < n \<Longrightarrow> settles (parse n p ts) (length ts - least_use p)"
proof (induction n arbitrary: p ts)
  case (Suc n)
  have "good_caller n (parse n)" using Suc.IH by (simp add: good_caller_def)
  then show ?case using body_settles [of n "parse n" p ts] Suc.prems by simp
qed simp

lemma progress_parsers [simp]: "progress ParseExpr" "progress ParseSelectItem" "progress ParseTableRef" "progress ParseColumnDef" "progress ParseRow"
  "progress ParseOrderKey" "progress ParseLimit"
proof -
  show e: "progress ParseExpr" using parse_settles [of Or] by (auto simp: progress_def ParseExpr_def fuel_def)
  have p: "settles (parse (fuel ts) (if PeekAggregate (hd ts) then Aggregate else Primary) ts) (length ts - 1)" if "eof_ended ts" for ts
    using parse_settles [of "if PeekAggregate (hd ts) then Aggregate else Primary" ts "fuel ts"] that
    by (auto simp: callable_def fuel_def split: if_splits)
  show "progress ParseSelectItem" by (auto simp: progress_def ParseSelectItem_def intro!: bind_peek settles_bind [OF p] bind_kw bind_ident)
  show "progress ParseTableRef" by (auto simp: progress_def ParseTableRef_def intro!: binds)
  show "progress ParseColumnDef" by (auto simp: progress_def ParseColumnDef_def intro!: binds; linarith)
  show "progress ParseRow" unfolding progress_def [of ParseRow] ParseRow_def by (auto intro!: binds progress_bind [OF progress_comma_list])
  have "settles (if dot then ExpectIdent ts else Inr (first, ts)) (length ts)" if "eof_ended ts" for dot ts first
    using settles_mono [OF settles_ident [OF that]] that by simp
  moreover have "settles (if desc then Inr (True, ts) else MatchKw ''ASC'' ts) (length ts)" if "eof_ended ts" for desc ts
    using that eof_ended_tl [OF that] by (auto simp: MatchKw_def Peek_def eof_ended_def split: list.splits)
  moreover have "settles (MatchKw kw ts) n" if "eof_ended ts" "length ts \<le> n" for kw ts n
    using that eof_ended_tl [OF that(1)] by (auto simp: MatchKw_def Peek_def eof_ended_def split: list.splits)
  ultimately show "progress ParseOrderKey"
    by (auto simp: progress_def ParseOrderKey_def intro!: bind_ident bind_punct bind_kw settles_bind [of "if _ then _ else _"])
  show "progress ParseLimit" by (auto simp: progress_def ParseLimit_def intro!: bind_peek)
qed

lemma clause_settles: "progress p \<Longrightarrow> eof_ended ts \<Longrightarrow> settles (clause kw p ts) (length ts)"
  unfolding clause_def by (auto intro!: bind_kw progress_bind [of p])

lemma progress_after_by: "progress p \<Longrightarrow> progress (after_by p)"
proof -
  assume p: "progress p"
  have "settles (p ts1) (length ts - 1)" if "eof_ended ts1" "length ts1 \<le> length ts - 1" for ts ts1 :: tokens
    using p that settles_mono [of "p ts1" "length ts1 - 1"] by (simp add: progress_def)
  then show ?thesis unfolding progress_def after_by_def by (auto intro!: bind_expect)
qed

lemma settles_select: "eof_ended ts \<Longrightarrow> settles (ParseSelect ts) (length ts)"
proof -
  have its: "settles (if star then Inr ([], ts) else comma_list ParseSelectItem ts) (length ts)" if "eof_ended ts" for star ts
    using that settles_mono [of "comma_list ParseSelectItem ts" "length ts - 1"] progress_comma_list [OF progress_parsers(2)] by (simp add: progress_def)
  show "eof_ended ts \<Longrightarrow> settles (ParseSelect ts) (length ts)"
    unfolding ParseSelect_def
    by (auto intro!: bind_expect bind_punct settles_bind [OF its] progress_bind [OF progress_comma_list]
      settles_bind [OF clause_settles] settles_bind [OF settles_end] progress_after_by progress_comma_list)
qed

lemma settles_statement: "eof_ended ts \<Longrightarrow> settles (ParseStatement ts) (length ts)"
  by (auto simp: ParseStatement_def ParseInsert_def ParseCreateTable_def ParseDrop_def ParseTruncate_def
    intro!: bind_peek settles_select bind_expect bind_ident settles_bind [OF settles_end] progress_bind [OF progress_comma_list])

lemma lex_settles: "case lex out cs of Inl e \<Rightarrow> \<exists>m. e = RuntimeError m | Inr ts \<Rightarrow> eof_ended ts"
proof (induction out cs rule: lex.induct)
  case (1 out)
  then show ?case by (simp add: eof_ended_def plain_token_def)
next
  case (2 out c cs)
  have num: "\<exists>m. e = RuntimeError m" if "number_token s f = Inl e" for s f e
    using that by (auto simp: number_token_def split: sum.splits)
  show ?case
  proof (cases "isspace c \<or> (c = CHR ''-'' \<and> take 1 cs = ''-'') \<or> c = quote")
    case True
    then show ?thesis
      by (subst lex.simps(2)) (use "2.IH"(1-3) in \<open>auto split: option.splits\<close>)
  next
    case a: False
    show ?thesis
    proof (cases "isdigit c \<or> (c = CHR ''-'' \<and> cs \<noteq> [] \<and> isdigit (hd cs) \<and> \<not> prev_is_value out)")
      case True
      obtain s f rest where n: "lex_number (c # cs) = (s, f, rest)" by (metis prod_cases3)
      have "lex out (c # cs) = (case number_token s f of Inl e \<Rightarrow> Inl e | Inr t \<Rightarrow> lex (out @ [t]) rest)"
        using a True n by (auto simp: lex.simps(2))
      then show ?thesis using "2.IH"(4) a True n num by (cases "number_token s f") auto
    next
      case b: False
      show ?thesis
      proof (cases "IsIdentStart c")
        case True
        have "lex out (c # cs) = lex (out @ [word_token (c # takeWhile IsIdentCont cs)]) (dropWhile IsIdentCont cs)"
          using a b True by (simp add: lex.simps(2) del: de_Morgan_conj)
        then show ?thesis using "2.IH"(5) a b True by auto
      next
        case False
        have "lex out (c # cs) = (case lex_punct (c # cs) of
           None \<Rightarrow> Inl (RuntimeError (''lexer: unexpected character '' @ [quote, c, quote]))
         | Some (p, n) \<Rightarrow> lex (out @ [plain_token kPunct p]) (drop (n - 1) cs))"
          using a b False by (simp add: lex.simps(2) del: de_Morgan_conj)
        then show ?thesis using "2.IH"(6) a b False by (cases "lex_punct (c # cs)") auto
      qed
    qed
  qed
qed

text \<open>C15. Parsing any text whatsoever ends, with a statement or with a \<open>runtime_error\<close> of the lexer or the parser: the
  recursive descent never runs out of fuel, however deeply the text is nested, and never reads past the last
  token.\<close>

theorem Parse_total: "(\<exists>s. Parse sql = Inr s) \<or> (\<exists>m. Parse sql = Inl (RuntimeError m))"
proof (cases "Tokenize sql")
  case (Inl e)
  then show ?thesis using lex_settles [of "[]" sql] by (simp add: Parse_def Tokenize_def)
next
  case (Inr ts)
  then have "eof_ended ts" using lex_settles [of "[]" sql] by (simp add: Tokenize_def)
  from settles_statement [OF this] show ?thesis using Inr by (auto simp: Parse_def settles_def split: sum.splits)
qed

end
