(* ===== verification/Database.thy ===== *)
theory Database
  imports Query_Results Parser
begin

text \<open>
  The database (\<open>db.h\<close>, \<open>db.cpp\<close>): statements are parsed and executed; inserted rows wait in
  a column-wise buffer and are written to a row group before a query reads the table, or when
  the database is closed.
\<close>

section \<open>State\<close>

text \<open>\<open>bp_\<close> with \<open>disk_\<close>, \<open>catalog_\<close>, \<open>pending_\<close> and \<open>closed_\<close>. After \<open>Close\<close> the two handles are
  null, which \<open>closed\<close> tells; \<open>db_pool\<close> then only stands for the file that is left.\<close>

record db =
  db_pool :: pool
  db_catalog :: Catalog
  pending :: "(string \<times> Value list list) list"
  closed :: bool

record ResultSet =
  column_names :: "string list"
  rs_rows :: "Value list list"

definition no_rows :: ResultSet where
  "no_rows = \<lparr>column_names = [], rs_rows = []\<rparr>"

type_synonym 'a db_result = "'a result \<times> db"

definition kDefaultBufferPoolFrames :: nat where
  "kDefaultBufferPoolFrames = 1024"

definition kRowGroupSize :: nat where
  "kRowGroupSize = 100000"

text \<open>Sequencing of calls that may not return; an exception keeps what has been changed.\<close>

definition db_then :: "'a db_result option \<Rightarrow> ('a \<Rightarrow> db \<Rightarrow> 'b db_result option) \<Rightarrow> 'b db_result option" where
  "db_then m f = Option.bind m (\<lambda>(r, db). case r of Inl e \<Rightarrow> Some (Inl e, db) | Inr x \<Rightarrow> f x db)"

lemma db_then_simps [simp]: "db_then (Some (Inr x, db)) f = f x db" "db_then (Some (Inl e, db)) f = Some (Inl e, db)" "db_then None f = None"
  by (simp_all add: db_then_def)

section \<open>Values of the declared type\<close>

definition mismatch :: "'a result" where
  "mismatch = Inl (RuntimeError ''INSERT: value does not match column type'')"

definition Coerce :: "Value \<Rightarrow> ColumnType \<Rightarrow> Value result" where
  "Coerce v t =
     (if IsNull v then Inr v
      else case t of
          kInt \<Rightarrow> (case v of Int32 i \<Rightarrow> Inr v | Int64 l \<Rightarrow> Inr (Int32 (scast l)) | _ \<Rightarrow> mismatch)
        | kBigInt \<Rightarrow> (case v of Int64 l \<Rightarrow> Inr v | Int32 i \<Rightarrow> Inr (Int64 (scast i)) | _ \<Rightarrow> mismatch)
        | kFloat \<Rightarrow> (case v of Dbl d \<Rightarrow> Inr v | Int32 i \<Rightarrow> Inr (Dbl (double_of_int (sint i)))
                     | Int64 l \<Rightarrow> Inr (Dbl (double_of_int (sint l))) | _ \<Rightarrow> mismatch)
        | kVarchar \<Rightarrow> (case v of Str s \<Rightarrow> Inr v | _ \<Rightarrow> mismatch))"

section \<open>Opening\<close>

text \<open>On a file with the bytes \<open>f\<close>.\<close>

definition DB_Open :: "byte list \<Rightarrow> bool \<Rightarrow> db result option" where
  "DB_Open f ok =
     (case DiskManager f ok of
        Inl e \<Rightarrow> Some (Inl e)
      | Inr d \<Rightarrow>
          (case BufferPool d kDefaultBufferPoolFrames of
             Inl e \<Rightarrow> Some (Inl e)
           | Inr bp \<Rightarrow>
               bindO (Load d) (\<lambda>c. Some (Inr \<lparr>db_pool = bp, db_catalog = c, pending = [], closed = False\<rparr>))))"

section \<open>Flushing\<close>

definition PersistCatalog :: "db \<Rightarrow> unit db_result option" where
  "PersistCatalog db =
     (if closed db then Some (Inl (Undefined ''*disk_''), db)
      else map_option (\<lambda>(r, d). (r, db\<lparr>db_pool := (db_pool db)\<lparr>disk_manager := d\<rparr>\<rparr>)) (Persist (db_catalog db) (disk_manager (db_pool db))))"

text \<open>The columns of one row group: rows \<open>start\<close> to \<open>stop - 1\<close> of the buffers.\<close>

fun write_columns :: "schema \<Rightarrow> Value list list \<Rightarrow> nat \<Rightarrow> nat \<Rightarrow> nat list \<Rightarrow> pool \<Rightarrow> PageId list pool_result" where
  "write_columns s cols start stop [] bp = (Inr [], bp)"
| "write_columns s cols start stop (c # cs) bp =
     (case GetColumn s c of
        Inl e \<Rightarrow> (Inl e, bp)
      | Inr column \<Rightarrow>
          if \<not> (c < length cols \<and> stop \<le> length (cols ! c)) then (Inl (Undefined ''cols[c][r]''), bp)
          else case write_column bp (col_type column) (take (stop - start) (drop start (cols ! c))) of
              (Inl e, bp1, _) \<Rightarrow> (Inl e, bp1)
            | (Inr root, bp1, _) \<Rightarrow>
                (case write_columns s cols start stop cs bp1 of
                   (Inl e, bp2) \<Rightarrow> (Inl e, bp2)
                 | (Inr roots, bp2) \<Rightarrow> (Inr (root # roots), bp2)))"

fun flush_groups :: "string \<Rightarrow> schema \<Rightarrow> Value list list \<Rightarrow> nat \<Rightarrow> nat list \<Rightarrow> db \<Rightarrow> unit db_result" where
  "flush_groups name s cols num_vals [] db = (Inr (), db)"
| "flush_groups name s cols num_vals (start # starts) db =
     (let stop = min (start + kRowGroupSize) num_vals in
      case write_columns s cols start stop [0..<NumColumns s] (db_pool db) of
        (Inl e, bp) \<Rightarrow> (Inl e, db\<lparr>db_pool := bp\<rparr>)
      | (Inr roots, bp) \<Rightarrow>
          (case AddRowGroup (db_catalog db) name \<lparr>RowGroup.num_rows = word_of_nat (stop - start), column_roots = roots\<rparr> of
             Inl e \<Rightarrow> (Inl e, db\<lparr>db_pool := bp\<rparr>)
           | Inr c \<Rightarrow> flush_groups name s cols num_vals starts (db\<lparr>db_pool := bp, db_catalog := c\<rparr>)))"

text \<open>The values of \<open>start\<close> in \<open>for (start = 0; start < num_vals; start += kRowGroupSize)\<close>.\<close>

definition group_starts :: "nat \<Rightarrow> nat list" where
  "group_starts num_vals = map (\<lambda>i. i * kRowGroupSize) [0..<(num_vals + kRowGroupSize - 1) div kRowGroupSize]"

definition clear_pending :: "string \<Rightarrow> db \<Rightarrow> db" where
  "clear_pending name db = db\<lparr>pending := update_at name (map (\<lambda>_. [])) (pending db)\<rparr>"

definition FlushPool :: "db \<Rightarrow> unit db_result" where
  "FlushPool db = (case FlushAll (db_pool db) of (r, bp) \<Rightarrow> (r, db\<lparr>db_pool := bp\<rparr>))"

definition FlushTable :: "string \<Rightarrow> db \<Rightarrow> unit db_result option" where
  "FlushTable name db =
     (case map_of (pending db) name of
        None \<Rightarrow> Some (Inr (), db)
      | Some cols \<Rightarrow>
          if cols = [] \<or> hd cols = [] then Some (Inr (), db)
          else case GetTable (db_catalog db) name of
              None \<Rightarrow> Some (Inr (), db)
            | Some meta \<Rightarrow>
                if closed db then Some (Inl (Undefined ''*bp_''), db)
                else let num_vals = length (hd cols) in
                  db_then (Some (flush_groups name (tm_schema meta) cols num_vals (group_starts num_vals) db)) (\<lambda>_ db1.
                  db_then (Some (FlushPool (clear_pending name db1))) (\<lambda>_ db2. PersistCatalog db2)))"

fun flush_tables :: "string list \<Rightarrow> db \<Rightarrow> unit db_result option" where
  "flush_tables [] db = Some (Inr (), db)"
| "flush_tables (n # ns) db = db_then (FlushTable n db) (\<lambda>_ db1. flush_tables ns db1)"

definition FlushAllPending :: "db \<Rightarrow> unit db_result option" where
  "FlushAllPending db = flush_tables (map fst (pending db)) db"

text \<open>\<open>Close\<close>; releasing the pool flushes it once more and drops any exception of that.\<close>

definition CloseDB :: "db \<Rightarrow> unit db_result option" where
  "CloseDB db =
     (if closed db then Some (Inr (), db)
      else db_then (FlushAllPending db) (\<lambda>_ db1.
           db_then (Some (FlushPool db1)) (\<lambda>_ db2.
           db_then (PersistCatalog db2) (\<lambda>_ db3. Some (Inr (), (snd (FlushPool db3))\<lparr>closed := True\<rparr>)))))"

section \<open>Statements\<close>

definition table_schema :: "ColumnDef list \<Rightarrow> schema result" where
  "table_schema defs =
     Schema (map (\<lambda>(i, d). \<lparr>col_name = cd_name d, col_type = cd_type d, varchar_len = cd_varchar_len d,
         column_index = word_of_nat i\<rparr>) (enumerate 0 defs))"

definition create_table :: "string \<Rightarrow> ColumnDef list \<Rightarrow> db \<Rightarrow> ResultSet db_result option" where
  "create_table name defs db =
     (if GetTable (db_catalog db) name \<noteq> None then Some (Inl (RuntimeError (''table already exists: '' @ name)), db)
      else case table_schema defs of
          Inl e \<Rightarrow> Some (Inl e, db)
        | Inr s \<Rightarrow>
            (let db1 = db\<lparr>pending := update_at name (\<lambda>_. replicate (NumColumns s) []) (emplace name [] (pending db))\<rparr> in
             case CreateTable (db_catalog db1) name s of
               Inl e \<Rightarrow> Some (Inl e, db1)
             | Inr c \<Rightarrow> db_then (PersistCatalog (db1\<lparr>db_catalog := c\<rparr>)) (\<lambda>_ db2. Some (Inr no_rows, db2))))"

definition drop_table :: "string \<Rightarrow> db \<Rightarrow> ResultSet db_result option" where
  "drop_table name db =
     (case DropTable (db_catalog db) name of
        (False, c) \<Rightarrow> Some (Inl (RuntimeError (''unknown table: '' @ name)), db\<lparr>db_catalog := c\<rparr>)
      | (True, c) \<Rightarrow> db_then (PersistCatalog (db\<lparr>db_catalog := c, pending := erase name (pending db)\<rparr>)) (\<lambda>_ db1. Some (Inr no_rows, db1)))"

definition truncate_table :: "string \<Rightarrow> db \<Rightarrow> ResultSet db_result option" where
  "truncate_table name db =
     (case GetTable (db_catalog db) name of
        None \<Rightarrow> Some (Inl (RuntimeError (''unknown table: '' @ name)), db)
      | Some _ \<Rightarrow>
          (case ClearRowGroups (db_catalog db) name of
             Inl e \<Rightarrow> Some (Inl e, db)
           | Inr c \<Rightarrow> db_then (PersistCatalog (clear_pending name (db\<lparr>db_catalog := c\<rparr>))) (\<lambda>_ db1. Some (Inr no_rows, db1))))"

text \<open>The values of one row, pushed one by one onto the columns' buffers.\<close>

fun push_values :: "schema \<Rightarrow> Value list \<Rightarrow> nat list \<Rightarrow> Value list list \<Rightarrow> unit result \<times> Value list list" where
  "push_values s row [] cols = (Inr (), cols)"
| "push_values s row (i # is) cols =
     (case bindR (GetColumn s i) (\<lambda>column. Coerce (row ! i) (col_type column)) of
        Inl e \<Rightarrow> (Inl e, cols)
      | Inr v \<Rightarrow> push_values s row is (cols[i := cols ! i @ [v]]))"

fun push_rows :: "schema \<Rightarrow> Value list list \<Rightarrow> Value list list \<Rightarrow> unit result \<times> Value list list" where
  "push_rows s [] cols = (Inr (), cols)"
| "push_rows s (row # rest) cols =
     (if length row \<noteq> NumColumns s then (Inl (RuntimeError ''INSERT: value count does not match column count''), cols)
      else case push_values s row [0..<length row] cols of
          (Inl e, cols1) \<Rightarrow> (Inl e, cols1)
        | (Inr _, cols1) \<Rightarrow> push_rows s rest cols1)"

definition insert_rows :: "string \<Rightarrow> Value list list \<Rightarrow> db \<Rightarrow> ResultSet db_result" where
  "insert_rows name rs db =
     (case GetTable (db_catalog db) name of
        None \<Rightarrow> (Inl (RuntimeError (''unknown table: '' @ name)), db)
      | Some meta \<Rightarrow>
          (let buffers = emplace name [] (pending db);
               cols = (case map_of buffers name of None \<Rightarrow> [] | Some c \<Rightarrow> c);
               cols0 = (if length cols \<noteq> NumColumns (tm_schema meta) then replicate (NumColumns (tm_schema meta)) [] else cols) in
           case push_rows (tm_schema meta) rs cols0 of
             (r, cols1) \<Rightarrow> (bindR r (\<lambda>_. Inr no_rows), db\<lparr>pending := update_at name (\<lambda>_. cols1) buffers\<rparr>)))"

text \<open>The pool after a query, from the state of the plan. Each scan of a join reads through its own
  copy of the pool; the one kept is that of the left scan. The copies differ in which pages are cached.\<close>

fun plan_pool :: "plan_state \<Rightarrow> pool" where
  "plan_pool (ScanS s) = scan_pool s"
| "plan_pool (JoinS l r brows index ch p d m mp) = plan_pool l"
| "plan_pool (FilterS s ch) = plan_pool s"
| "plan_pool (AggregateS s groups index cursor) = plan_pool s"
| "plan_pool (ProjectionS s ch) = plan_pool s"
| "plan_pool (OrderByS s rs n) = plan_pool s"
| "plan_pool (LimitS s ch k) = plan_pool s"

definition run_plan :: "(column_scan \<Rightarrow> nat list) \<Rightarrow> (nat \<Rightarrow> nat list list) \<Rightarrow> pool \<Rightarrow> plan \<Rightarrow> (Value list list \<times> pool) result option" where
  "run_plan scans work bp p =
     (let q = plan_op scans work p in
      bindO (Open q (plan_init bp p)) (\<lambda>s.
      bindO (drain (Next q) s (Initialize (output_types q)) []) (\<lambda>(rs, s').
      Some (bindR (Close q s') (\<lambda>s''. Inr (rs, plan_pool s''))))))"

definition select_rows :: "(column_scan \<Rightarrow> nat list) \<Rightarrow> (nat \<Rightarrow> nat list list) \<Rightarrow> select \<Rightarrow> db \<Rightarrow> ResultSet db_result option" where
  "select_rows scans work stmt db =
     db_then (flush_tables (map tr_name (select.tables stmt)) db) (\<lambda>_ db1.
       if closed db1 then Some (Inl (Undefined ''*bp_''), db1)
       else case PlanSelect stmt (db_catalog db1) of
           Inl e \<Rightarrow> Some (Inl e, db1)
         | Inr p \<Rightarrow>
             Option.bind (run_plan scans work (db_pool db1) p) (\<lambda>r. Some (case r of
               Inl e \<Rightarrow> (Inl e, db1)
             | Inr (rs, bp) \<Rightarrow> (Inr \<lparr>column_names = plan_names p, rs_rows = rs\<rparr>, db1\<lparr>db_pool := bp\<rparr>))))"

definition exec :: "(column_scan \<Rightarrow> nat list) \<Rightarrow> (nat \<Rightarrow> nat list list) \<Rightarrow> Statement \<Rightarrow> db \<Rightarrow> ResultSet db_result option" where
  "exec scans work stmt db =
     (case stmt of
        CreateTableStmt name defs \<Rightarrow> create_table name defs db
      | DropTableStmt name \<Rightarrow> drop_table name db
      | TruncateStmt name \<Rightarrow> truncate_table name db
      | InsertStmt name rs \<Rightarrow> Some (insert_rows name rs db)
      | SelectStmt sel \<Rightarrow> select_rows scans work sel db)"

definition Execute :: "(column_scan \<Rightarrow> nat list) \<Rightarrow> (nat \<Rightarrow> nat list list) \<Rightarrow> string \<Rightarrow> db \<Rightarrow> ResultSet db_result option" where
  "Execute scans work sql db =
     (case Parse sql of Inl e \<Rightarrow> Some (Inl e, db) | Inr stmt \<Rightarrow> exec scans work stmt db)"

end
