(* ===== verification/Flushing.thy ===== *)
theory Flushing
  imports Database Reserved_Pages
begin

text \<open>
  What the tables of a database hold: the rows of their row groups, which lie on pages outside
  the catalog's chain, and the rows that wait in the buffers. Flushing moves rows from the
  second to the first.
\<close>

section \<open>The catalog's pages and the pool\<close>

lemma catalog_chain_cong:
  assumes "catalog_chain d ids" and "disk_inv d'" and "num_pages d \<le> num_pages d'" and "\<And>i. i \<in> set ids \<Longrightarrow> disk_page d' i = disk_page d i"
  shows "catalog_chain d' ids"
proof -
  have "0 \<in> set ids" using assms(1) by (cases ids) (auto simp: catalog_chain_def split: if_splits)
  then have z: "disk_page d' 0 = disk_page d 0" by (rule assms(4))
  have "chain_from (disk_page d') pid ids' \<longleftrightarrow> chain_from (disk_page d) pid ids'" if "set ids' \<subseteq> set ids" for pid ids'
    using that assms(4) by (induction ids' arbitrary: pid) auto
  then show ?thesis using assms(1-3) by (auto simp: catalog_chain_def z)
qed

text \<open>The pages of the catalog are known to the pool only through the disk, and they are not pages of column data.\<close>

definition pool_at :: "PageId list \<Rightarrow> pool \<Rightarrow> bool" where
  "pool_at ids bp \<longleftrightarrow> store_inv bp \<and> (\<forall>q. pins bp q = 0) \<and> 2 \<le> num_frames bp \<and> catalog_chain (disk_manager bp) ids \<and>
     (\<forall>i \<in> set ids. page_table bp i = None \<and> \<not> is_data (disk_page (disk_manager bp) i))"

definition free_pages :: "PageId list \<Rightarrow> pool \<Rightarrow> PageId set" where
  "free_pages ids bp = {p. p \<notin> set ids \<and> unat p < pages bp}"

definition grown :: "PageId list \<Rightarrow> pool \<Rightarrow> pool \<Rightarrow> bool" where
  "grown ids bp bp' \<longleftrightarrow> pool_at ids bp' \<and> pages bp \<le> pages bp' \<and> (\<forall>p. unat p < pages bp \<longrightarrow> view bp' p = view bp p)"

lemma grown_refl: "pool_at ids bp \<Longrightarrow> grown ids bp bp"
  by (simp add: grown_def)

lemma grown_trans: "grown ids a b \<Longrightarrow> grown ids b c \<Longrightarrow> grown ids a c"
  by (simp add: grown_def)

lemma grown_at: "grown ids bp bp' \<Longrightarrow> pool_at ids bp'"
  by (simp add: grown_def)

lemma pool_at_ready: "pool_at ids bp \<Longrightarrow> stream_ready bp"
  by (simp add: pool_at_def)

lemma pool_at_id: "pool_at ids bp \<Longrightarrow> i \<in> set ids \<Longrightarrow> unat i < pages bp"
  by (simp add: pool_at_def catalog_chain_def)

lemma grown_stream:
  assumes "grown ids bp bp'" and "stream_in (free_pages ids bp) (view bp) (pages bp) pid bs"
  shows "stream_in (free_pages ids bp') (view bp') (pages bp') pid bs"
  by (rule stream_in_cong [OF assms(2)]) (use assms(1) in \<open>auto simp: grown_def free_pages_def\<close>)

lemma write_column_grown:
  assumes at: "pool_at ids bp" and ok: "column_ok t vs" and room: "pages bp + length (column_bytes t vs) div PayloadCapacity + 1 < 2 ^ 32"
  obtains pid bp' w where "write_column bp t vs = (Inr pid, bp', w)" "grown ids bp bp'"
    "pages bp' \<le> pages bp + length (column_bytes t vs) div PayloadCapacity + 1"
    "stream_in (free_pages ids bp') (view bp') (pages bp') pid (column_bytes t vs)"
proof -
  have b: "page_budget bp (length (column_bytes t vs))" using room by simp
  obtain pid bp' w where w: "write_column bp t vs = (Inr pid, bp', w)" "stream_added bp bp' pid (column_bytes t vs)"
    using write_column_ok [OF pool_at_ready [OF at] ok b] by blast
  have a: "store_inv bp'" "pins bp' = pins bp" "num_frames bp' = num_frames bp" "pages bp \<le> pages bp'"
    "\<forall>q. unat q < pages bp \<longrightarrow> view bp' q = view bp q" "pages bp' \<le> pages bp + length (column_bytes t vs) div PayloadCapacity + 1"
    using w(2) by (auto simp: stream_added_def untouched_def)
  have "dom (page_table bp') \<subseteq> dom (page_table bp) \<union> {p. pages bp \<le> unat p}"
    using write_column_caches [OF w(1)] a(6) room by (simp add: caches_def)
  then have none: "page_table bp' i = None" if "i \<in> set ids" for i
    using that at pool_at_id [OF at that] by (fastforce simp: pool_at_def)
  have dsk: "disk_page (disk_manager bp') i = disk_page (disk_manager bp) i" if i: "i \<in> set ids" for i
    using a(5) pool_at_id [OF at i] none [OF i] at i by (auto simp: view_def pool_at_def)
  then have "catalog_chain (disk_manager bp') ids"
    using at a(1,4) catalog_chain_cong [of "disk_manager bp" ids "disk_manager bp'"] pool_okD(1) [of "{}" bp'] by (auto simp: pool_at_def store_inv_def)
  then have g: "grown ids bp bp'" using a none at dsk by (auto simp: grown_def pool_at_def)
  have "stream_in (free_pages ids bp') (view bp') (pages bp') pid (column_bytes t vs)"
    by (rule stream_in_cong [where S = "{p. pages bp \<le> unat p \<and> unat p < pages bp'}"])
      (use w(2) pool_at_id [OF at] in \<open>auto simp: stream_added_def free_pages_def dest: leD\<close>)
  then show thesis using w(1) g a(6) that by blast
qed

text \<open>Nothing to write back: flushing such a pool changes nothing.\<close>

definition clean :: "pool \<Rightarrow> bool" where
  "clean bp \<longleftrightarrow> (\<forall>i < length (frames bp). valid (frames bp ! i) \<longrightarrow> \<not> dirty (frames bp ! i))"

lemma FlushAll_clean: "clean bp \<Longrightarrow> FlushAll bp = (Inr (), bp)"
proof -
  assume "clean bp"
  then have "FlushFrames bp is = (Inr (), bp)" if "set is \<subseteq> {..<length (frames bp)}" for "is"
    using that by (induction "is") (auto simp: clean_def Let_def)
  then show ?thesis by (simp add: FlushAll_def subset_iff)
qed

lemma FlushAll_grown:
  assumes "pool_at ids bp"
  shows "\<exists>bp'. FlushAll bp = (Inr (), bp') \<and> grown ids bp bp' \<and> pages bp' = pages bp \<and>
    (\<forall>p. unat p < pages bp \<longrightarrow> disk_page (disk_manager bp') p = view bp p) \<and> clean bp'"
proof -
  have ok: "pool_inv bp" "io_ok (disk_manager bp)" using assms by (simp_all add: pool_at_def store_inv_def)
  obtain bp' where f: "FlushAll bp = (Inr (), bp')" "pool_inv bp'" "keeps_pages bp bp'" "view bp' = view bp" "pins bp' = pins bp"
    "\<forall>q. unat q < pages bp \<longrightarrow> pins bp q = 0 \<longrightarrow> disk_page (disk_manager bp') q = view bp q"
    using FlushAll_effect [OF ok] by blast
  have ff: "FlushFrames bp [0..<num_frames bp] = (Inr (), bp')" using f(1) pool_okD(2) [OF ok(1)] by (simp add: FlushAll_def)
  have sub: "set [0..<num_frames bp] \<subseteq> {..<num_frames bp}" by auto
  note F = FlushFrames_ok [OF ok(1) sub ff]
  have pt: "page_table bp' = page_table bp" using F(2) by (simp add: flushed_def)
  have d: "\<forall>p. unat p < pages bp \<longrightarrow> disk_page (disk_manager bp') p = view bp p" using f(6) assms by (simp add: pool_at_def)
  have same: "disk_page (disk_manager bp') i = disk_page (disk_manager bp) i" if "i \<in> set ids" for i
    using d pool_at_id [OF assms that] assms that by (simp add: view_def pool_at_def)
  have np: "pages bp' = pages bp" "num_frames bp' = num_frames bp" "io_ok (disk_manager bp')" using f(3) ok(2) by (simp_all add: keeps_pages_def)
  have "catalog_chain (disk_manager bp') ids"
    using assms catalog_chain_cong [of "disk_manager bp" ids "disk_manager bp'"] same np pool_okD(1) [OF f(2)] by (simp add: pool_at_def)
  then have g: "grown ids bp bp'" using assms f np pt same by (simp add: grown_def pool_at_def store_inv_def)
  have "\<not> dirty (frames bp' ! i)" if i: "valid (frames bp' ! i)" "i < num_frames bp'" for i
  proof -
    have "page_table bp (fpage_id (frames bp' ! i)) = Some i" using valid_frame [OF f(2) i(2,1)] pt by simp
    then show ?thesis using F(3) mapped_frame(1,3) [OF ok(1)] by auto
  qed
  then have "clean bp'" using pool_okD(2) [OF f(2)] by (auto simp: clean_def)
  then show ?thesis using f(1) g np d by blast
qed

text \<open>The catalog may have moved to more or fewer pages, the other pages are as they were.\<close>

definition moved :: "PageId list \<Rightarrow> pool \<Rightarrow> PageId list \<Rightarrow> pool \<Rightarrow> bool" where
  "moved ids bp ids' bp' \<longleftrightarrow> pool_at ids' bp' \<and> pages bp \<le> pages bp' \<and> (\<forall>i \<in> set ids'. i \<in> set ids \<or> pages bp \<le> unat i) \<and>
     (\<forall>p. unat p < pages bp \<longrightarrow> p \<notin> set ids \<longrightarrow> view bp' p = view bp p)"

lemma moved_stream:
  assumes "moved ids bp ids' bp'" and "stream_in (free_pages ids bp) (view bp) (pages bp) pid bs"
  shows "stream_in (free_pages ids' bp') (view bp') (pages bp') pid bs"
  by (rule stream_in_cong [OF assms(2)]) (use assms(1) in \<open>auto simp: moved_def free_pages_def\<close>)

lemma grown_moved: "grown ids bp bp' \<Longrightarrow> moved ids bp' ids' bp'' \<Longrightarrow> moved ids bp ids' bp''"
  by (fastforce simp: moved_def grown_def)

lemma Persist_moved:
  assumes at: "pool_at ids bp" and room: "pages bp + pages_needed (catalog_body c) < 2 ^ 32"
  obtains ids' d' where "Persist c (disk_manager bp) = Some (Inr (), d')" "moved ids bp ids' (bp\<lparr>disk_manager := d'\<rparr>)"
    "stored_body d' ids' (catalog_body c)" "num_pages d' \<le> pages bp + pages_needed (catalog_body c)"
    "\<forall>p. unat p < pages bp \<longrightarrow> p \<notin> set ids \<longrightarrow> disk_page d' p = disk_page (disk_manager bp) p"
proof -
  have ok: "pool_inv bp" and io: "io_ok (disk_manager bp)" and ch: "catalog_chain (disk_manager bp) ids"
    and none: "\<forall>i \<in> set ids. page_table bp i = None" using at by (simp_all add: pool_at_def store_inv_def)
  obtain ids' d' where p: "Persist c (disk_manager bp) = Some (Inr (), d')" "catalog_chain d' ids'" "stored_body d' ids' (catalog_body c)"
    "io_ok d'" "length ids' = pages_needed (catalog_body c)" "take (length ids) ids' = take (length ids') ids"
    "num_pages d' = pages bp + (length ids' - length ids)"
    "\<forall>j. unat j < pages bp \<longrightarrow> j \<notin> set ids \<longrightarrow> disk_page d' j = disk_page (disk_manager bp) j"
    "\<forall>i \<in> set ids'. i \<in> set ids \<or> pages bp \<le> unat i"
    using Persist_ok [OF ch io room] by metis
  let ?bp = "bp\<lparr>disk_manager := d'\<rparr>"
  have inv: "disk_inv d'" using p(2) by (simp add: catalog_chain_def)
  have np: "num_pages d' \<le> pages bp + pages_needed (catalog_body c)" "pages bp \<le> num_pages d'" using p(5,7) by simp_all
  have mapped: "q \<notin> set ids \<and> unat q < pages bp" if "page_table bp q = Some i" for q i
    using that none mapped_frame(7) [OF ok that] by auto
  have fr: "frame_ok ?bp i" if i: "i < num_frames bp" for i
    using pool_okD(6) [OF ok i] np(2) p(8) mapped by (auto simp: frame_ok_def Let_def intro: less_le_trans)
  then have "pool_inv ?bp" using ok inv by (auto simp: pool_ok_def table_ok_def lru_ok_def free_ok_def)
  then have st: "store_inv ?bp" using p(4) by (simp add: store_inv_def)
  have fresh: "i \<in> set ids \<or> pages bp \<le> unat i" if "i \<in> set ids'" for i using p(9) that by blast
  have "page_table bp i = None" if "i \<in> set ids'" for i
    using fresh [OF that] mapped by (cases "page_table bp i") force+
  moreover have "pins ?bp = pins bp" by (simp add: pins_def fun_eq_iff split: option.splits)
  moreover have "\<not> is_data (disk_page d' i)" if "i \<in> set ids'" for i
    using p(3) that by (simp add: stored_body_def is_data_def)
  ultimately have "pool_at ids' ?bp" using at st p(2) by (simp add: pool_at_def)
  moreover have "view ?bp q = view bp q" if "unat q < pages bp" "q \<notin> set ids" for q
    using that p(8) by (simp add: view_def split: option.splits)
  ultimately have "moved ids bp ids' ?bp" using fresh np by (simp add: moved_def)
  then show thesis using that p(1,3,8) np(1) by blast
qed

section \<open>Row groups\<close>

definition segment :: "nat \<Rightarrow> nat \<Rightarrow> 'a list \<Rightarrow> 'a list" where
  "segment start stop xs = take (stop - start) (drop start xs)"

text \<open>Buffers of \<open>m\<close> rows that fit the columns.\<close>

definition buffers_ok :: "schema \<Rightarrow> Value list list \<Rightarrow> nat \<Rightarrow> bool" where
  "buffers_ok s cols m \<longleftrightarrow> length cols = length s \<and> (\<forall>k < length s. length (cols ! k) = m \<and> column_ok (col_type (s ! k)) (cols ! k))"

definition col_pages :: "ColumnType \<Rightarrow> Value list \<Rightarrow> nat" where
  "col_pages t vs = length (column_bytes t vs) div PayloadCapacity + 1"

definition cols_pages :: "schema \<Rightarrow> Value list list \<Rightarrow> nat \<Rightarrow> nat \<Rightarrow> nat list \<Rightarrow> nat" where
  "cols_pages s cols start stop cs = sum_list (map (\<lambda>k. col_pages (col_type (s ! k)) (segment start stop (cols ! k))) cs)"

lemma length_segment: "stop \<le> length xs \<Longrightarrow> length (segment start stop xs) = stop - start"
  by (simp add: segment_def)

lemma segment_nth: "i < stop - start \<Longrightarrow> stop \<le> length xs \<Longrightarrow> segment start stop xs ! i = xs ! (start + i)"
  by (simp add: segment_def)

lemma column_ok_segment: "column_ok t vs \<Longrightarrow> column_ok t (segment start stop vs)"
proof -
  assume ok: "column_ok t vs"
  have "vs = take start vs @ segment start stop vs @ drop (stop - start) (drop start vs)" by (simp only: segment_def append_take_drop_id)
  then have "strs vs = strs (take start vs @ segment start stop vs @ drop (stop - start) (drop start vs))" by (rule arg_cong)
  then have "strs vs = strs (take start vs) @ strs (segment start stop vs) @ strs (drop (stop - start) (drop start vs))" by simp
  moreover have "set (segment start stop vs) \<subseteq> set vs" by (auto simp: segment_def dest: in_set_takeD in_set_dropD)
  ultimately show ?thesis using ok by (auto simp: column_ok_def list_all_iff)
qed

lemma write_columns_ok:
  assumes "pool_at ids bp" and "buffers_ok s cols m" and "stop \<le> m" and "\<forall>k \<in> set cs. k < length s"
    and "pages bp + cols_pages s cols start stop cs < 2 ^ 32"
  shows "\<exists>roots bp'. write_columns s cols start stop cs bp = (Inr roots, bp') \<and> grown ids bp bp' \<and>
    pages bp' \<le> pages bp + cols_pages s cols start stop cs \<and>
    list_all2 (\<lambda>k pid. stream_in (free_pages ids bp') (view bp') (pages bp') pid (column_bytes (col_type (s ! k)) (segment start stop (cols ! k)))) cs roots"
  using assms
proof (induction cs arbitrary: bp)
  case Nil
  then show ?case by (simp add: grown_refl)
next
  case (Cons c cs)
  let ?vs = "segment start stop (cols ! c)" and ?t = "col_type (s ! c)"
  have c: "c < length s" "c < length cols" "stop \<le> length (cols ! c)" "column_ok ?t ?vs"
    using Cons.prems(2-4) column_ok_segment by (auto simp: buffers_ok_def)
  have pg: "cols_pages s cols start stop (c # cs) = col_pages ?t ?vs + cols_pages s cols start stop cs" by (simp add: cols_pages_def)
  obtain pid bp1 w where w: "write_column bp ?t ?vs = (Inr pid, bp1, w)" "grown ids bp bp1" "pages bp1 \<le> pages bp + col_pages ?t ?vs"
    "stream_in (free_pages ids bp1) (view bp1) (pages bp1) pid (column_bytes ?t ?vs)"
    using write_column_grown [OF Cons.prems(1) c(4)] Cons.prems(5) unfolding pg col_pages_def by auto
  obtain roots bp2 where r: "write_columns s cols start stop cs bp1 = (Inr roots, bp2)" "grown ids bp1 bp2"
    "pages bp2 \<le> pages bp1 + cols_pages s cols start stop cs"
    "list_all2 (\<lambda>k pid. stream_in (free_pages ids bp2) (view bp2) (pages bp2) pid (column_bytes (col_type (s ! k)) (segment start stop (cols ! k)))) cs roots"
    using Cons.IH [OF grown_at [OF w(2)] Cons.prems(2,3)] Cons.prems(4,5) w(3) unfolding pg by auto
  have "write_columns s cols start stop (c # cs) bp = (Inr (pid # roots), bp2)"
    using w(1) r(1) c by (simp add: GetColumn_def segment_def)
  then show ?case using r w(3) grown_trans [OF w(2) r(2)] grown_stream [OF r(2) w(4)] unfolding pg by auto
qed

section \<open>Stored rows\<close>

definition table_in :: "PageId list \<Rightarrow> pool \<Rightarrow> TableMeta \<Rightarrow> (nat \<Rightarrow> nat \<Rightarrow> Value list) \<Rightarrow> (nat \<Rightarrow> nat) \<Rightarrow> bool" where
  "table_in ids bp tbl vals n \<longleftrightarrow> (\<forall>rg < length (row_groups tbl). length (column_roots (row_groups tbl ! rg)) = length (tm_schema tbl) \<and>
     n rg \<le> kRowGroupSize \<and>
     (\<forall>k < length (tm_schema tbl). length (vals rg k) = n rg \<and> column_ok (col_type (tm_schema tbl ! k)) (vals rg k) \<and>
        stream_in (free_pages ids bp) (view bp) (pages bp) (column_roots (row_groups tbl ! rg) ! k) (column_bytes (col_type (tm_schema tbl ! k)) (vals rg k))))"

definition stored :: "PageId list \<Rightarrow> pool \<Rightarrow> TableMeta \<Rightarrow> Value list list \<Rightarrow> bool" where
  "stored ids bp tbl rs \<longleftrightarrow> (\<exists>vals n. table_in ids bp tbl vals n \<and> rs = table_rows tbl vals n)"

lemma table_in_at: "table_in ids bp tbl vals n \<Longrightarrow> table_at bp tbl vals n"
  by (auto simp: table_in_def table_at_def intro: stream_in_at)

lemma stored_mono:
  assumes "stored ids bp tbl rs"
    and "\<And>pid bs. stream_in (free_pages ids bp) (view bp) (pages bp) pid bs \<Longrightarrow> stream_in (free_pages ids' bp') (view bp') (pages bp') pid bs"
  shows "stored ids' bp' tbl rs"
proof -
  obtain vals n where v: "table_in ids bp tbl vals n" "rs = table_rows tbl vals n" using assms(1) by (auto simp: stored_def)
  have "table_in ids' bp' tbl vals n" using v(1) assms(2) by (auto simp: table_in_def)
  then show ?thesis using v(2) by (auto simp: stored_def)
qed

lemma stored_grown: "stored ids bp tbl rs \<Longrightarrow> grown ids bp bp' \<Longrightarrow> stored ids bp' tbl rs"
  by (erule stored_mono, erule grown_stream)

lemma stored_moved: "stored ids bp tbl rs \<Longrightarrow> moved ids bp ids' bp' \<Longrightarrow> stored ids' bp' tbl rs"
  by (erule stored_mono, erule moved_stream)

definition buffer_rows :: "schema \<Rightarrow> Value list list \<Rightarrow> nat \<Rightarrow> Value list list" where
  "buffer_rows s cols m = map (\<lambda>i. map (\<lambda>k. cols ! k ! i) [0..<length s]) [0..<m]"

lemma segment_upt: "stop \<le> m \<Longrightarrow> segment start stop (map f [0..<m]) = map (\<lambda>i. f (start + i)) [0..<stop - start]"
  by (rule nth_equalityI) (auto simp: segment_def)

lemma stored_group:
  assumes st: "stored ids bp tbl R" and b: "buffers_ok (tm_schema tbl) cols m" "stop \<le> m" "stop - start \<le> kRowGroupSize"
    and roots: "list_all2 (\<lambda>k pid. stream_in (free_pages ids bp) (view bp) (pages bp) pid
        (column_bytes (col_type (tm_schema tbl ! k)) (segment start stop (cols ! k)))) [0..<length (tm_schema tbl)] (column_roots rg)"
  shows "stored ids bp (tbl\<lparr>row_groups := row_groups tbl @ [rg]\<rparr>) (R @ segment start stop (buffer_rows (tm_schema tbl) cols m))"
proof -
  let ?s = "tm_schema tbl" and ?g = "length (row_groups tbl)" and ?tbl = "tbl\<lparr>row_groups := row_groups tbl @ [rg]\<rparr>"
  obtain vals n where v: "table_in ids bp tbl vals n" "R = table_rows tbl vals n" using st by (auto simp: stored_def)
  define vals' where "vals' = (\<lambda>r k. if r = ?g then segment start stop (cols ! k) else vals r k)"
  define n' where "n' = n(?g := stop - start)"
  have len: "length (segment start stop (cols ! k)) = stop - start" if "k < length ?s" for k
    using that b(1,2) by (simp add: length_segment buffers_ok_def)
  have "table_in ids bp ?tbl vals' n'"
    unfolding table_in_def
  proof (intro allI impI)
    fix r
    assume r: "r < length (row_groups ?tbl)"
    show "length (column_roots (row_groups ?tbl ! r)) = length (tm_schema ?tbl) \<and> n' r \<le> kRowGroupSize \<and>
      (\<forall>k < length (tm_schema ?tbl). length (vals' r k) = n' r \<and> column_ok (col_type (tm_schema ?tbl ! k)) (vals' r k) \<and>
        stream_in (free_pages ids bp) (view bp) (pages bp) (column_roots (row_groups ?tbl ! r) ! k) (column_bytes (col_type (tm_schema ?tbl ! k)) (vals' r k)))"
    proof (cases "r = ?g")
      case True
      then show ?thesis using roots b column_ok_segment len by (simp add: vals'_def n'_def buffers_ok_def list_all2_conv_all_nth)
    next
      case False
      then have "r < ?g" using r by simp
      then show ?thesis using v(1) False by (simp add: vals'_def n'_def table_in_def nth_append)
    qed
  qed
  moreover have "table_rows ?tbl vals' n' = R @ segment start stop (buffer_rows ?s cols m)"
  proof -
    have old: "map (rg_rows [0..<length ?s] vals' n') [0..<?g] = map (rg_rows [0..<length ?s] vals n) [0..<?g]"
      by (rule map_cong) (auto simp: rg_rows_def vals'_def n'_def)
    have new: "rg_rows [0..<length ?s] vals' n' ?g = segment start stop (buffer_rows ?s cols m)"
      using b(1,2) by (auto simp: rg_rows_def vals'_def n'_def buffer_rows_def segment_upt segment_nth buffers_ok_def)
    show ?thesis using v(2) by (simp add: table_rows_def old new)
  qed
  ultimately show ?thesis unfolding stored_def by metis
qed

section \<open>Flushing a table\<close>

lemma length_put_row_group [simp]: "length (put_row_group rg) = 8 + 4 * length (column_roots rg)"
  using length_concat_blocks [of "column_roots rg" PutPod 4] by (simp add: put_row_group_def)

lemma length_update_at:
  assumes "map_of es k = Some m" and "\<And>k. length (put (k, f m)) = length (put (k, m)) + d"
  shows "length (concat (map put (update_at k f es))) = length (concat (map put es)) + d"
  using assms(1) by (induction es) (auto simp: assms(2) split: if_splits)

lemma length_catalog_body_add:
  assumes "GetTable c name = Some tbl" and "AddRowGroup c name rg = Inr c'"
  shows "length (catalog_body c') = length (catalog_body c) + (8 + 4 * length (column_roots rg))"
proof -
  let ?f = "\<lambda>m. m\<lparr>row_groups := row_groups m @ [rg]\<rparr>" and ?put = "\<lambda>(name :: string, m). put_table m"
  have c: "c' = c\<lparr>Catalog.tables := update_at name ?f (Catalog.tables c)\<rparr>" and m: "map_of (Catalog.tables c) name = Some tbl"
    using assms by (auto simp: AddRowGroup_def GetTable_def)
  have "length (concat (map ?put (update_at name ?f (Catalog.tables c)))) = length (concat (map ?put (Catalog.tables c))) + (8 + 4 * length (column_roots rg))"
    by (rule length_update_at [OF m]) (simp add: put_table_def Let_def)
  then show ?thesis by (simp add: catalog_body_def c)
qed

lemma AddRowGroup_ok:
  assumes "map_inv (Catalog.tables c)" and "GetTable c name = Some tbl"
  obtains c' where "AddRowGroup c name rg = Inr c'" "map_inv (Catalog.tables c')" 
    "GetTable c' = (GetTable c)(name \<mapsto> tbl\<lparr>row_groups := row_groups tbl @ [rg]\<rparr>)"
proof -
  let ?f = "\<lambda>m. m\<lparr>row_groups := row_groups m @ [rg]\<rparr>"
  let ?c = "c\<lparr>Catalog.tables := update_at name ?f (Catalog.tables c)\<rparr>"
  have "AddRowGroup c name rg = Inr ?c" using assms(2) by (simp add: AddRowGroup_def)
  moreover have "map_inv (Catalog.tables ?c)" using om_table_facts(2) [OF assms(1)] by simp
  moreover have "GetTable ?c = (GetTable c)(name \<mapsto> ?f tbl)" using om_table_facts(5) [OF assms(1), of name ?f] assms(2) by (simp add: GetTable_def fun_eq_iff)
  ultimately show thesis by (rule that)
qed

definition flush_pages :: "schema \<Rightarrow> Value list list \<Rightarrow> nat \<Rightarrow> nat list \<Rightarrow> nat" where
  "flush_pages s cols m starts = sum_list (map (\<lambda>start. cols_pages s cols start (min (start + kRowGroupSize) m) [0..<length s]) starts)"

lemma take_segment: "take start xs @ segment start (min (start + k) (length xs)) xs = take (start + k) xs"
  by (simp add: segment_def take_add min_def)

lemma flush_groups_ok:
  assumes "pool_at ids (db_pool db)" and "map_inv (Catalog.tables (db_catalog db))" and "GetTable (db_catalog db) name = Some tbl" and "s = tm_schema tbl"
    and "buffers_ok s cols m" and "stored ids (db_pool db) tbl (R @ take (i * kRowGroupSize) (buffer_rows s cols m))" and "i \<le> g" "\<forall>j < g. j * kRowGroupSize < m"
    and "pages (db_pool db) + flush_pages s cols m (map (\<lambda>i. i * kRowGroupSize) [i..<g]) < 2 ^ 32"
  shows "\<exists>db' rgs. flush_groups name s cols m (map (\<lambda>i. i * kRowGroupSize) [i..<g]) db = (Inr (), db') \<and> grown ids (db_pool db) (db_pool db') \<and>
    pages (db_pool db') \<le> pages (db_pool db) + flush_pages s cols m (map (\<lambda>i. i * kRowGroupSize) [i..<g]) \<and>
    pending db' = pending db \<and> closed db' = closed db \<and> map_inv (Catalog.tables (db_catalog db')) \<and> length rgs = g - i \<and>
    length (catalog_body (db_catalog db')) = length (catalog_body (db_catalog db)) + (g - i) * (8 + 4 * length s) \<and>
    GetTable (db_catalog db') = (GetTable (db_catalog db))(name \<mapsto> tbl\<lparr>row_groups := row_groups tbl @ rgs\<rparr>) \<and>
    stored ids (db_pool db') (tbl\<lparr>row_groups := row_groups tbl @ rgs\<rparr>) (R @ take (g * kRowGroupSize) (buffer_rows s cols m))"
  using assms
proof (induction "g - i" arbitrary: i db tbl)
  case 0
  then have "[i..<g] = []" "i = g" by simp_all
  then show ?case using 0 by (intro exI [of _ db] exI [of _ "[]"]) (simp add: grown_refl flush_pages_def fun_eq_iff)
next
  case (Suc d)
  let ?K = kRowGroupSize and ?rows = "buffer_rows s cols m"
  let ?start = "i * ?K" let ?stop = "min (?start + ?K) m"
  have i: "i < g" "[i..<g] = i # [Suc i..<g]" "?start < m" using Suc.hyps(2) Suc.prems(8) by (simp_all add: upt_conv_Cons)
  let ?rest = "flush_pages s cols m (map (\<lambda>i. i * ?K) [Suc i..<g])" and ?c = "cols_pages s cols ?start ?stop [0..<length s]"
  have pg: "flush_pages s cols m (map (\<lambda>i. i * ?K) [i..<g]) = ?c + ?rest" using i(2) by (simp add: flush_pages_def)
  obtain roots bp where w: "write_columns s cols ?start ?stop [0..<NumColumns s] (db_pool db) = (Inr roots, bp)" "grown ids (db_pool db) bp"
    "pages bp \<le> pages (db_pool db) + ?c"
    "list_all2 (\<lambda>k pid. stream_in (free_pages ids bp) (view bp) (pages bp) pid (column_bytes (col_type (s ! k)) (segment ?start ?stop (cols ! k)))) [0..<length s] roots"
    using write_columns_ok [OF Suc.prems(1,5), of ?stop "[0..<length s]" ?start] Suc.prems(9) unfolding pg NumColumns_def by auto
  let ?rg = "\<lparr>RowGroup.num_rows = word_of_nat (?stop - ?start), column_roots = roots\<rparr>"
  let ?tbl = "tbl\<lparr>row_groups := row_groups tbl @ [?rg]\<rparr>"
  obtain c where c: "AddRowGroup (db_catalog db) name ?rg = Inr c" "map_inv (Catalog.tables c)" "GetTable c = (GetTable (db_catalog db))(name \<mapsto> ?tbl)"
    using AddRowGroup_ok [OF Suc.prems(2,3)] by blast
  let ?db = "db\<lparr>db_pool := bp, db_catalog := c\<rparr>"
  have "stored ids bp ?tbl ((R @ take ?start ?rows) @ segment ?start ?stop ?rows)"
    using stored_group [OF stored_grown [OF Suc.prems(6) w(2)], of cols m ?stop ?start ?rg] Suc.prems(4,5) w(4) by auto
  moreover have "take ?start ?rows @ segment ?start ?stop ?rows = take (Suc i * ?K) ?rows"
    using take_segment [of ?start ?rows ?K] by (simp add: buffer_rows_def add.commute)
  ultimately have st: "stored ids (db_pool ?db) ?tbl (R @ take (Suc i * ?K) ?rows)" by simp
  obtain db' rgs where r: "flush_groups name s cols m (map (\<lambda>i. i * ?K) [Suc i..<g]) ?db = (Inr (), db')" "grown ids bp (db_pool db')"
    "pages (db_pool db') \<le> pages bp + ?rest" "pending db' = pending db" "closed db' = closed db" "map_inv (Catalog.tables (db_catalog db'))" "length rgs = g - Suc i"
    "length (catalog_body (db_catalog db')) = length (catalog_body c) + (g - Suc i) * (8 + 4 * length s)"
    "GetTable (db_catalog db') = (GetTable c)(name \<mapsto> ?tbl\<lparr>row_groups := row_groups ?tbl @ rgs\<rparr>)"
    "stored ids (db_pool db') (?tbl\<lparr>row_groups := row_groups ?tbl @ rgs\<rparr>) (R @ take (g * ?K) ?rows)"
  proof -
    have d: "d = g - Suc i" using Suc.hyps(2) by simp
    have at: "pool_at ids (db_pool ?db)" "map_inv (Catalog.tables (db_catalog ?db))" "GetTable (db_catalog ?db) name = Some ?tbl" "s = tm_schema ?tbl"
      "Suc i \<le> g" "pages (db_pool ?db) + ?rest < 2 ^ 32"
      using grown_at [OF w(2)] c(2,3) Suc.prems(4,9) w(3) i(1) unfolding pg by simp_all
    from Suc.hyps(1) [OF d at(1-4) Suc.prems(5) st at(5) Suc.prems(8) at(6)] that show thesis by auto
  qed
  have "length roots = length s" using w(4) by (simp add: list_all2_lengthD [symmetric])
  then have "length (catalog_body (db_catalog db')) = length (catalog_body (db_catalog db)) + Suc (g - Suc i) * (8 + 4 * length s)"
    using r(8) length_catalog_body_add [OF Suc.prems(3) c(1)] by simp
  moreover have "Suc (g - Suc i) = g - i" using i(1) by simp
  ultimately have len: "length (catalog_body (db_catalog db')) = length (catalog_body (db_catalog db)) + (g - i) * (8 + 4 * length s)" by (simp only:)
  have "flush_groups name s cols m (map (\<lambda>i. i * ?K) [i..<g]) db = (Inr (), db')" using w(1) c(1) r(1) i(2) by (simp add: Let_def)
  then show ?case using r(1-7,9-) len c(3) w(3) grown_trans [OF w(2) r(2)] i(1) unfolding pg by (intro exI [of _ db'] exI [of _ "?rg # rgs"]) auto
qed

end
