(* ===== verification/Database_Contents.thy ===== *)
theory Database_Contents
  imports Flushing
begin

text \<open>
  The database as a map from table names to a schema and rows, and what its operations do to
  that map when the buffered rows are flushed, and when it is closed and opened again.
\<close>

section \<open>The contents of a database\<close>

type_synonym contents = "string \<rightharpoonup> schema \<times> Value list list"

definition buffered :: "db \<Rightarrow> string \<Rightarrow> schema \<Rightarrow> Value list list \<Rightarrow> bool" where
  "buffered db name s rs \<longleftrightarrow>
     (case map_of (pending db) name of None \<Rightarrow> rs = [] | Some cols \<Rightarrow> \<exists>m. buffers_ok s cols m \<and> rs = buffer_rows s cols m)"

definition table_rep :: "PageId list \<Rightarrow> db \<Rightarrow> string \<Rightarrow> TableMeta \<Rightarrow> Value list list \<Rightarrow> bool" where
  "table_rep ids db name tbl rs \<longleftrightarrow> tm_name tbl = name \<and> length name < 256 \<and> tm_schema tbl \<noteq> [] \<and> schema_ok (tm_schema tbl) \<and>
     (\<exists>R P. stored ids (db_pool db) tbl R \<and> buffered db name (tm_schema tbl) P \<and> rs = R @ P)"

definition db_rep :: "PageId list \<Rightarrow> db \<Rightarrow> contents \<Rightarrow> bool" where
  "db_rep ids db A \<longleftrightarrow> \<not> closed db \<and> pool_at ids (db_pool db) \<and> map_inv (Catalog.tables (db_catalog db)) \<and> map_inv (pending db) \<and>
     (\<forall>name. case GetTable (db_catalog db) name of
        None \<Rightarrow> A name = None
      | Some tbl \<Rightarrow> \<exists>rs. A name = Some (tm_schema tbl, rs) \<and> table_rep ids db name tbl rs)"

lemma db_repD:
  assumes "db_rep ids db A"
  shows "\<not> closed db" "pool_at ids (db_pool db)" "map_inv (Catalog.tables (db_catalog db))" "map_inv (pending db)"
    "GetTable (db_catalog db) name = None \<longleftrightarrow> A name = None"
    "GetTable (db_catalog db) name = Some tbl \<Longrightarrow> \<exists>rs. A name = Some (tm_schema tbl, rs) \<and> table_rep ids db name tbl rs"
proof -
  have c: "case GetTable (db_catalog db) name of None \<Rightarrow> A name = None
      | Some tbl \<Rightarrow> \<exists>rs. A name = Some (tm_schema tbl, rs) \<and> table_rep ids db name tbl rs"
    using assms by (simp add: db_rep_def)
  show "GetTable (db_catalog db) name = None \<longleftrightarrow> A name = None" using c by (auto split: option.splits)
  show "\<exists>rs. A name = Some (tm_schema tbl, rs) \<and> table_rep ids db name tbl rs" if "GetTable (db_catalog db) name = Some tbl"
    using c that by simp
qed (use assms in \<open>simp_all add: db_rep_def\<close>)

lemma db_repI:
  assumes "\<not> closed db" "pool_at ids (db_pool db)" "map_inv (Catalog.tables (db_catalog db))" "map_inv (pending db)"
    and "\<And>name. GetTable (db_catalog db) name = None \<Longrightarrow> A name = None"
    and "\<And>name tbl. GetTable (db_catalog db) name = Some tbl \<Longrightarrow> \<exists>rs. A name = Some (tm_schema tbl, rs) \<and> table_rep ids db name tbl rs"
  shows "db_rep ids db A"
  using assms by (simp add: db_rep_def split: option.splits)

lemma table_rep_cong:
  assumes "table_rep ids db name tbl rs" and "map_of (pending db') name = map_of (pending db) name"
    and "\<And>R. stored ids (db_pool db) tbl R \<Longrightarrow> stored ids' (db_pool db') tbl R"
  shows "table_rep ids' db' name tbl rs"
proof -
  have "buffered db' name s P = buffered db name s P" for s P using assms(2) by (simp add: buffered_def)
  then show ?thesis using assms(1,3) by (auto simp: table_rep_def)
qed

text \<open>Caching, writing back and adding pages.\<close>

lemma db_rep_grown:
  assumes "db_rep ids db A" and g: "grown ids (db_pool db) bp"
  shows "db_rep ids (db\<lparr>db_pool := bp\<rparr>) A"
proof (rule db_repI)
  note D = db_repD [OF assms(1)]
  show "\<exists>rs. A name = Some (tm_schema tbl, rs) \<and> table_rep ids (db\<lparr>db_pool := bp\<rparr>) name tbl rs" if "GetTable (db_catalog (db\<lparr>db_pool := bp\<rparr>)) name = Some tbl" for name tbl
    using that D(6) [of name tbl] table_rep_cong [of ids db name tbl _ "db\<lparr>db_pool := bp\<rparr>" ids] stored_grown [OF _ g] by auto
qed (use db_repD [OF assms(1)] grown_at [OF g] in simp_all)

section \<open>Persisting\<close>

definition pages_for :: "nat \<Rightarrow> nat" where
  "pages_for n = max 1 ((n + PayloadCapacity - 1) div PayloadCapacity)"

lemma pages_needed_for: "pages_needed bs = pages_for (length bs)"
  by (simp add: pages_needed_def pages_for_def)

definition persist_room :: "db \<Rightarrow> bool" where
  "persist_room db \<longleftrightarrow> pages (db_pool db) + pages_needed (catalog_body (db_catalog db)) < 2 ^ 32"

text \<open>Every page is on the disk as the pool shows it.\<close>

definition durable :: "pool \<Rightarrow> bool" where
  "durable bp \<longleftrightarrow> (\<forall>p. unat p < pages bp \<longrightarrow> disk_page (disk_manager bp) p = view bp p)"

lemma PersistCatalog_rep:
  assumes r: "db_rep ids db A" and room: "persist_room db"
  obtains ids' db' where "PersistCatalog db = Some (Inr (), db')" "db_rep ids' db' A" "db' = db\<lparr>db_pool := db_pool db'\<rparr>"
    "stored_body (disk_manager (db_pool db')) ids' (catalog_body (db_catalog db))"
    "pages (db_pool db') \<le> pages (db_pool db) + pages_needed (catalog_body (db_catalog db))"
    "durable (db_pool db) \<Longrightarrow> durable (db_pool db')" "frames (db_pool db') = frames (db_pool db)"
proof -
  note D = db_repD [OF r]
  obtain ids' d' where p: "Persist (db_catalog db) (disk_manager (db_pool db)) = Some (Inr (), d')" "moved ids (db_pool db) ids' ((db_pool db)\<lparr>disk_manager := d'\<rparr>)"
    "stored_body d' ids' (catalog_body (db_catalog db))" "num_pages d' \<le> pages (db_pool db) + pages_needed (catalog_body (db_catalog db))"
    "\<forall>p. unat p < pages (db_pool db) \<longrightarrow> p \<notin> set ids \<longrightarrow> disk_page d' p = disk_page (disk_manager (db_pool db)) p"
    using Persist_moved [OF D(2)] room unfolding persist_room_def by metis
  let ?bp = "(db_pool db)\<lparr>disk_manager := d'\<rparr>" and ?db = "db\<lparr>db_pool := (db_pool db)\<lparr>disk_manager := d'\<rparr>\<rparr>"
  have "PersistCatalog db = Some (Inr (), ?db)" using p(1) D(1) by (simp add: PersistCatalog_def)
  moreover have "db_rep ids' ?db A"
  proof (rule db_repI)
    show "pool_at ids' (db_pool ?db)" using p(2) by (simp add: moved_def)
    show "\<exists>rs. A name = Some (tm_schema tbl, rs) \<and> table_rep ids' ?db name tbl rs" if "GetTable (db_catalog ?db) name = Some tbl" for name tbl
      using that D(6) [of name tbl] table_rep_cong [of ids db name tbl _ ?db ids'] stored_moved [OF _ p(2)] by auto
  qed (use D in simp_all)
  moreover have "durable ?bp" if d: "durable (db_pool db)"
    unfolding durable_def
  proof (intro allI impI)
    fix q :: PageId
    assume "unat q < pages ?bp"
    show "disk_page (disk_manager ?bp) q = view ?bp q"
    proof (cases "page_table (db_pool db) q")
      case None
      then show ?thesis by (simp add: view_def)
    next
      case (Some i)
      have q: "q \<notin> set ids" "unat q < pages (db_pool db)"
        using Some D(2) mapped_frame(7) [of "{}" "db_pool db" q i] by (auto simp: pool_at_def store_inv_def)
      then have "disk_page (disk_manager (db_pool db)) q = view (db_pool db) q" using d by (simp add: durable_def)
      then show ?thesis using Some q p(5) by (simp add: view_def)
    qed
  qed
  ultimately show thesis using that [of ?db ids'] p(3,4) by simp
qed

section \<open>Flushing one table\<close>

text \<open>What flushing a table adds to the catalog, in bytes, and to the file, in pages.\<close>

definition flush_bytes :: "string \<Rightarrow> db \<Rightarrow> nat" where
  "flush_bytes name db =
     (case GetTable (db_catalog db) name of None \<Rightarrow> 0
      | Some tbl \<Rightarrow> (case map_of (pending db) name of None \<Rightarrow> 0
          | Some cols \<Rightarrow> if cols = [] \<or> hd cols = [] then 0 else length (group_starts (length (hd cols))) * (8 + 4 * length (tm_schema tbl))))"

definition flush_cost :: "string \<Rightarrow> db \<Rightarrow> nat" where
  "flush_cost name db =
     (case GetTable (db_catalog db) name of None \<Rightarrow> 0
      | Some tbl \<Rightarrow> (case map_of (pending db) name of None \<Rightarrow> 0
          | Some cols \<Rightarrow> if cols = [] \<or> hd cols = [] then 0
              else flush_pages (tm_schema tbl) cols (length (hd cols)) (group_starts (length (hd cols))) +
                pages_for (length (catalog_body (db_catalog db)) + flush_bytes name db)))"

definition flush_room :: "string \<Rightarrow> db \<Rightarrow> bool" where
  "flush_room name db \<longleftrightarrow> flush_cost name db = 0 \<or> pages (db_pool db) + flush_cost name db < 2 ^ 32"

lemma pages_for_pos: "0 < pages_for n"
  by (simp add: pages_for_def)

definition unbuffered :: "db \<Rightarrow> string \<Rightarrow> bool" where
  "unbuffered db name \<longleftrightarrow> (case map_of (pending db) name of None \<Rightarrow> True | Some cols \<Rightarrow> cols = [] \<or> hd cols = [])"

lemma buffers_ok_hd: "buffers_ok s cols m \<Longrightarrow> s \<noteq> [] \<Longrightarrow> cols \<noteq> [] \<and> m = length (hd cols)"
  by (cases cols; cases s) (auto simp: buffers_ok_def)

lemma hd_cleared: "xs = [] \<or> hd (map (\<lambda>_. []) xs) = []"
  by (cases xs) auto

lemma unbuffered_rows: "unbuffered db name \<Longrightarrow> s \<noteq> [] \<Longrightarrow> buffered db name s P \<Longrightarrow> P = []"
  by (auto simp: unbuffered_def buffered_def buffer_rows_def dest: buffers_ok_hd split: option.splits)

lemma unbuffered_stored: "unbuffered db name \<Longrightarrow> table_rep ids db name tbl rs \<Longrightarrow> stored ids (db_pool db) tbl rs"
  using unbuffered_rows by (fastforce simp: table_rep_def)

lemma group_starts_cover:
  "group_starts m = map (\<lambda>i. i * kRowGroupSize) [0..<length (group_starts m)]" "j < length (group_starts m) \<Longrightarrow> j * kRowGroupSize < m"
  "m \<le> length (group_starts m) * kRowGroupSize"
proof -
  have K: "kRowGroupSize = 100000" by (simp add: kRowGroupSize_def)
  show "group_starts m = map (\<lambda>i. i * kRowGroupSize) [0..<length (group_starts m)]" by (simp add: group_starts_def)
  show "j * kRowGroupSize < m" if "j < length (group_starts m)"
    using that div_mult_mod_eq [of "m + 99999" 100000] mod_less_divisor [of 100000 "m + 99999"] unfolding group_starts_def K by (simp; linarith)
  show "m \<le> length (group_starts m) * kRowGroupSize"
    using div_mult_mod_eq [of "m + 99999" 100000] mod_less_divisor [of 100000 "m + 99999"] unfolding group_starts_def K by (simp; linarith)
qed

lemma clear_pending_simps [simp]: "db_pool (clear_pending name db) = db_pool db" "db_catalog (clear_pending name db) = db_catalog db"
  "closed (clear_pending name db) = closed db"
  by (simp_all add: clear_pending_def)

lemma pending_update: "map_inv (ps :: (string \<times> Value list list) list) \<Longrightarrow> map_of (update_at name f ps) = (map_of ps)(name := map_option f (map_of ps name)) \<and> map_inv (update_at name f ps)"
  by (simp add: om.look_upd)

lemma flushed_rep:
  assumes r: "db_rep ids db A" and g: "grown ids (db_pool db) (db_pool db')"
    and db': "closed db' = closed db" "map_inv (Catalog.tables (db_catalog db'))" "pending db' = update_at name (map (\<lambda>_. [])) (pending db)"
    and cat: "GetTable (db_catalog db') = (GetTable (db_catalog db))(name \<mapsto> tbl\<lparr>row_groups := gs\<rparr>)"
    and tbl: "GetTable (db_catalog db) name = Some tbl" "A name = Some (tm_schema tbl, rs)" "stored ids (db_pool db') (tbl\<lparr>row_groups := gs\<rparr>) rs"
  shows "db_rep ids db' A \<and> unbuffered db' name"
proof
  note D = db_repD [OF r]
  have pd: "map_of (pending db') = (map_of (pending db))(name := map_option (map (\<lambda>_. [])) (map_of (pending db) name))" "map_inv (pending db')"
    using pending_update [OF D(4)] db'(3) by simp_all
  show "unbuffered db' name" using pd(1) hd_cleared by (fastforce simp: unbuffered_def split: option.splits)
  obtain rs0 where t: "A name = Some (tm_schema tbl, rs0)" "table_rep ids db name tbl rs0" using D(6) [OF tbl(1)] by blast
  have "buffered db' name (tm_schema tbl) []"
    using t(2) pd(1) by (auto simp: table_rep_def buffered_def buffers_ok_def buffer_rows_def column_ok_def split: option.splits intro!: exI [of _ 0])
  then have "table_rep ids db' name (tbl\<lparr>row_groups := gs\<rparr>) rs" using t(2) tbl(3) by (auto simp: table_rep_def)
  then have name: "\<exists>rs. A name = Some (tm_schema (tbl\<lparr>row_groups := gs\<rparr>), rs) \<and> table_rep ids db' name (tbl\<lparr>row_groups := gs\<rparr>) rs"
    using tbl(2) by simp
  show "db_rep ids db' A"
  proof (rule db_repI)
    show "\<not> closed db'" "pool_at ids (db_pool db')" "map_inv (Catalog.tables (db_catalog db'))" "map_inv (pending db')"
      using D(1) db'(1,2) grown_at [OF g] pd(2) by simp_all
    fix nm
    show "A nm = None" if "GetTable (db_catalog db') nm = None" using that D(5) [of nm] cat by (simp split: if_splits)
    show "\<exists>rs. A nm = Some (tm_schema t, rs) \<and> table_rep ids db' nm t rs" if gt: "GetTable (db_catalog db') nm = Some t" for t
    proof (cases "nm = name")
      case True
      then show ?thesis using gt cat name by simp
    next
      case False
      then have "GetTable (db_catalog db) nm = Some t" using gt cat by simp
      from D(6) [OF this] obtain rs where "A nm = Some (tm_schema t, rs)" "table_rep ids db nm t rs" by blast
      with table_rep_cong [OF this(2), of db' ids] stored_grown [OF _ g] pd(1) False show ?thesis by auto
    qed
  qed
qed

lemma FlushTable_rep:
  assumes r: "db_rep ids db A" and room: "flush_room name db"
  obtains ids' db' where "FlushTable name db = Some (Inr (), db')" "db_rep ids' db' A"
    "GetTable (db_catalog db') name \<noteq> None \<Longrightarrow> unbuffered db' name" "\<And>n. unbuffered db n \<Longrightarrow> unbuffered db' n"
    "map fst (pending db') = map fst (pending db)" "pages (db_pool db') \<le> pages (db_pool db) + flush_cost name db"
    "length (catalog_body (db_catalog db')) = length (catalog_body (db_catalog db)) + flush_bytes name db"
proof (cases "unbuffered db name \<or> GetTable (db_catalog db) name = None")
  case True
  then have f: "FlushTable name db = Some (Inr (), db)" "flush_bytes name db = 0"
    by (auto simp: FlushTable_def unbuffered_def flush_bytes_def split: option.splits)
  show thesis by (rule that [OF f(1) r]) (use f True in auto)
next
  case False
  note D = db_repD [OF r]
  obtain cols tbl where c: "map_of (pending db) name = Some cols" "cols \<noteq> []" "hd cols \<noteq> []" "GetTable (db_catalog db) name = Some tbl"
    using False by (auto simp: unbuffered_def split: option.splits)
  let ?s = "tm_schema tbl" and ?m = "length (hd cols)" 
  let ?g = "length (group_starts ?m)"
  obtain rs where t: "A name = Some (?s, rs)" "table_rep ids db name tbl rs" using D(6) [OF c(4)] by blast
  then obtain R P where st: "stored ids (db_pool db) tbl R" "buffered db name ?s P" "rs = R @ P" by (auto simp: table_rep_def)
  then obtain m where "buffers_ok ?s cols m" "P = buffer_rows ?s cols m" using c(1) by (auto simp: buffered_def)
  then have b: "buffers_ok ?s cols ?m" "P = buffer_rows ?s cols ?m" using buffers_ok_hd [of ?s cols m] t(2) by (auto simp: table_rep_def)
  have rm: "pages (db_pool db) + flush_pages ?s cols ?m (group_starts ?m) + pages_for (length (catalog_body (db_catalog db)) + ?g * (8 + 4 * length ?s)) < 2 ^ 32"
    "flush_cost name db = flush_pages ?s cols ?m (group_starts ?m) + pages_for (length (catalog_body (db_catalog db)) + ?g * (8 + 4 * length ?s))"
    "flush_bytes name db = ?g * (8 + 4 * length ?s)"
    using room c pages_for_pos [of "length (catalog_body (db_catalog db)) + ?g * (8 + 4 * length ?s)"]
    by (simp_all add: flush_room_def flush_cost_def flush_bytes_def add.assoc)
  note gs = group_starts_cover [where m = ?m]
  obtain db1 rgs where f: "flush_groups name ?s cols ?m (group_starts ?m) db = (Inr (), db1)" "grown ids (db_pool db) (db_pool db1)"
    "pages (db_pool db1) \<le> pages (db_pool db) + flush_pages ?s cols ?m (group_starts ?m)" "pending db1 = pending db" "closed db1 = closed db"
    "map_inv (Catalog.tables (db_catalog db1))" "length (catalog_body (db_catalog db1)) = length (catalog_body (db_catalog db)) + ?g * (8 + 4 * length ?s)"
    "GetTable (db_catalog db1) = (GetTable (db_catalog db))(name \<mapsto> tbl\<lparr>row_groups := row_groups tbl @ rgs\<rparr>)"
    "stored ids (db_pool db1) (tbl\<lparr>row_groups := row_groups tbl @ rgs\<rparr>) (R @ take (?g * kRowGroupSize) (buffer_rows ?s cols ?m))"
    using flush_groups_ok [OF D(2,3) c(4) refl b(1), of R 0 ?g] st(1) gs rm by (auto simp: gs(1) [symmetric])
  have rows: "R @ take (?g * kRowGroupSize) (buffer_rows ?s cols ?m) = rs" using gs(3) st(3) b(2) by (simp add: buffer_rows_def)
  obtain bp where fl: "FlushAll (db_pool db1) = (Inr (), bp)" "grown ids (db_pool db1) bp" "pages bp = pages (db_pool db1)"
    using FlushAll_grown [OF grown_at [OF f(2)]] by blast
  let ?db2 = "(clear_pending name db1)\<lparr>db_pool := bp\<rparr>"
  have rep2: "db_rep ids ?db2 A \<and> unbuffered ?db2 name"
    by (rule flushed_rep [OF r, where tbl = tbl and gs = "row_groups tbl @ rgs" and rs = rs])
      (use grown_trans [OF f(2) fl(2)] f c(4) t(1) stored_grown [OF f(9) fl(2)] rows in \<open>simp_all add: clear_pending_def\<close>)
  have "persist_room ?db2" using rm f(3,7) fl(3) by (simp add: persist_room_def pages_needed_for)
  then obtain ids' db3 where p: "PersistCatalog ?db2 = Some (Inr (), db3)" "db_rep ids' db3 A"
    "db3 = ?db2\<lparr>db_pool := db_pool db3\<rparr>" "pages (db_pool db3) \<le> pages (db_pool ?db2) + pages_needed (catalog_body (db_catalog ?db2))"
    by (rule PersistCatalog_rep [OF conjunct1 [OF rep2]]) blast
  have pd: "pending db3 = update_at name (map (\<lambda>_. [])) (pending db)" by (subst p(3)) (simp add: clear_pending_def f(4))
  have "FlushTable name db = Some (Inr (), db3)"
    using c D(1) f(1) fl(1) p(1) by (simp add: FlushTable_def FlushPool_def)
  moreover have "unbuffered db3 name" using rep2 pd f(4) by (simp add: unbuffered_def clear_pending_def)
  moreover have "unbuffered db3 n" if "unbuffered db n" for n
    using that pending_update [OF D(4), of name] hd_cleared by (fastforce simp: unbuffered_def pd split: option.splits)
  moreover have "map fst (update_at name h ps) = map fst ps" for h and ps :: "(string \<times> Value list list) list" by (induction ps) auto
  moreover have "db_catalog db3 = db_catalog db1" by (subst p(3)) simp
  ultimately show thesis using that p(2,4) pd rm(2,3) f(3,7) fl(3) by (simp add: pages_needed_for)
qed

section \<open>Closing and opening again\<close>

fun flush_rooms :: "string list \<Rightarrow> db \<Rightarrow> bool" where
  "flush_rooms [] db = True"
| "flush_rooms (n # ns) db \<longleftrightarrow> flush_room n db \<and> (case FlushTable n db of Some (Inr _, db1) \<Rightarrow> flush_rooms ns db1 | _ \<Rightarrow> True)"

lemma flush_tables_rep:
  "db_rep ids db A \<Longrightarrow> flush_rooms ns db \<Longrightarrow>
    \<exists>ids' db'. flush_tables ns db = Some (Inr (), db') \<and> db_rep ids' db' A \<and>
      (\<forall>n. unbuffered db n \<or> n \<in> set ns \<longrightarrow> A n \<noteq> None \<longrightarrow> unbuffered db' n) \<and> map fst (pending db') = map fst (pending db)"
proof (induction ns arbitrary: ids db)
  case (Cons n ns)
  have fr: "flush_room n db" using Cons.prems(2) by simp
  obtain ids1 db1 where f: "FlushTable n db = Some (Inr (), db1)" "db_rep ids1 db1 A"
    "GetTable (db_catalog db1) n \<noteq> None \<Longrightarrow> unbuffered db1 n" "\<And>n. unbuffered db n \<Longrightarrow> unbuffered db1 n"
    "map fst (pending db1) = map fst (pending db)"
    by (rule FlushTable_rep [OF Cons.prems(1) fr]) blast
  obtain ids' db' where r: "flush_tables ns db1 = Some (Inr (), db')" "db_rep ids' db' A"
    "\<forall>n. unbuffered db1 n \<or> n \<in> set ns \<longrightarrow> A n \<noteq> None \<longrightarrow> unbuffered db' n" "map fst (pending db') = map fst (pending db1)"
    using Cons.IH [OF f(2)] Cons.prems(2) f(1) by auto
  have "unbuffered db1 n" if "A n \<noteq> None" using that f(3) db_repD(5) [OF f(2), of n] by simp
  then show ?case using f r by (intro exI [of _ ids'] exI [of _ db']) auto
qed auto

definition close_room :: "db \<Rightarrow> bool" where
  "close_room db \<longleftrightarrow> flush_rooms (map fst (pending db)) db \<and>
     (case FlushAllPending db of Some (Inr _, db1) \<Rightarrow> persist_room db1 \<and> length (catalog_body (db_catalog db1)) < 2 ^ 32 | _ \<Rightarrow> True)"

lemma length_sum_le: "x \<in> set xs \<Longrightarrow> (f x :: nat) \<le> sum_list (map f xs)"
  by (induction xs) auto

lemma length_le_sum: "(\<And>x. x \<in> set xs \<Longrightarrow> 1 \<le> length (f x)) \<Longrightarrow> length xs \<le> length (concat (map f xs))"
  by (induction xs) fastforce+

lemma catalog_counts:
  assumes "length (catalog_body c) < 2 ^ 32"
  shows "length (Catalog.tables c) < 2 ^ 32" "(k, m) \<in> set (Catalog.tables c) \<Longrightarrow> length (row_groups m) < 2 ^ 32"
proof -
  let ?put = "\<lambda>(name :: string, m). put_table m"
  have b: "length (concat (map ?put (Catalog.tables c))) \<le> length (catalog_body c)" by (simp add: catalog_body_def)
  have "1 \<le> length (?put x)" for x by (cases x) (simp add: put_table_def Let_def)
  then have "length (Catalog.tables c) \<le> length (concat (map ?put (Catalog.tables c)))" by (rule length_le_sum)
  then show "length (Catalog.tables c) < 2 ^ 32" using b assms by linarith
  assume m: "(k, m) \<in> set (Catalog.tables c)"
  have "length (row_groups m) \<le> length (concat (map put_row_group (row_groups m)))" by (rule length_le_sum) simp
  also have "\<dots> \<le> length (put_table m)" by (simp add: put_table_def Let_def)
  also have "\<dots> \<le> length (concat (map ?put (Catalog.tables c)))"
    using length_sum_le [OF m, of "length \<circ> ?put"] by (simp add: length_concat o_def)
  finally show "length (row_groups m) < 2 ^ 32" using b assms by linarith
qed

lemma db_rep_catalog_ok:
  assumes r: "db_rep ids db A" and "length (catalog_body (db_catalog db)) < 2 ^ 32"
  shows "catalog_ok (db_catalog db)"
proof -
  note D = db_repD [OF r]
  have "k = tm_name m \<and> Catalogs.table_ok m" if km: "(k, m) \<in> set (Catalog.tables (db_catalog db))" for k m
  proof -
    have "distinct (map fst (Catalog.tables (db_catalog db)))" using D(3) by (simp add: map_inv_def strict_sorted_iff)
    then have "GetTable (db_catalog db) k = Some m" using km by (simp add: GetTable_def)
    from D(6) [OF this] obtain rs where t: "table_rep ids db k m rs" by blast
    then have "list_all (\<lambda>rg. length (column_roots rg) = length (tm_schema m)) (row_groups m)"
      by (auto simp: table_rep_def stored_def table_in_def list_all_length)
    then show ?thesis using t catalog_counts(2) [OF assms(2) km] by (simp add: table_rep_def Catalogs.table_ok_def)
  qed
  then show ?thesis using D(3) catalog_counts(1) [OF assms(2)] by (auto simp: catalog_ok_def list_all_iff)
qed

lemma DiskManager_again: "disk_inv d \<Longrightarrow> 0 < num_pages d \<Longrightarrow> io_ok d \<Longrightarrow> DiskManager (fbytes d) True = Inr d"
  by (simp add: DiskManager_def Let_def disk_inv_def kPageSize_def)

lemma BufferPool_at:
  assumes d: "catalog_chain d ids" "io_ok d" "\<forall>i \<in> set ids. \<not> is_data (disk_page d i)" and n: "2 \<le> n"
  obtains bp where "BufferPool d n = Inr bp" "pool_at ids bp" "disk_manager bp = d" "view bp = disk_page d"
proof -
  obtain bp where b: "BufferPool d n = Inr bp" using n by (simp add: BufferPool_def)
  then have f: "disk_manager bp = d" "num_frames bp = n" "page_table bp = Map.empty" using n by (auto simp: BufferPool_def)
  have "disk_inv d" using d(1) by (simp add: catalog_chain_def)
  then have "pool_inv bp" using pool_inv_BufferPool b by blast
  then have "pool_at ids bp" using f d n by (simp add: pool_at_def store_inv_def pins_def)
  moreover have "view bp = disk_page d" using f by (simp add: view_def fun_eq_iff)
  ultimately show thesis using that b f(1) by blast
qed

lemma DB_Open_rep:
  assumes r: "db_rep ids db A" and un: "\<And>n. A n \<noteq> None \<Longrightarrow> unbuffered db n" and d: "durable (db_pool db)"
    and body: "stored_body (disk_manager (db_pool db)) ids (catalog_body (db_catalog db))" "length (catalog_body (db_catalog db)) < 2 ^ 32"
  shows "\<exists>db'. DB_Open (fbytes (disk_manager (db_pool db))) True = Some (Inr db') \<and> db_rep ids db' A"
proof -
  note D = db_repD [OF r]
  let ?d = "disk_manager (db_pool db)"
  have io: "io_ok ?d" and ch: "catalog_chain ?d ids" and nd: "\<forall>i \<in> set ids. \<not> is_data (disk_page ?d i)"
    using D(2) by (simp_all add: pool_at_def store_inv_def)
  have inv: "disk_inv ?d" "0 < num_pages ?d" using ch by (cases ids; force simp: catalog_chain_def split: if_splits)+
  obtain bp where b: "BufferPool ?d kDefaultBufferPoolFrames = Inr bp" "pool_at ids bp" "disk_manager bp = ?d" "view bp = disk_page ?d"
    using BufferPool_at [OF ch io nd, of kDefaultBufferPoolFrames] by (auto simp: kDefaultBufferPoolFrames_def)
  have "Load ?d = Some (Inr (db_catalog db))" by (rule Load_ok [OF ch body(1) db_rep_catalog_ok [OF r body(2)]])
  then have "DB_Open (fbytes ?d) True = Some (Inr \<lparr>db_pool = bp, db_catalog = db_catalog db, pending = [], closed = False\<rparr>)" (is "_ = Some (Inr ?db)")
    using DiskManager_again [OF inv io] b(1) by (simp add: DB_Open_def)
  moreover have "db_rep ids ?db A"
  proof (rule db_repI)
    fix name tbl
    assume "GetTable (db_catalog ?db) name = Some tbl"
    then obtain rs where t: "A name = Some (tm_schema tbl, rs)" "table_rep ids db name tbl rs" using D(6) by auto
    then have "stored ids (db_pool db) tbl rs" using unbuffered_stored [OF un t(2)] by simp
    moreover have "stream_in (free_pages ids bp) (view bp) (pages bp) pid bs" if "stream_in (free_pages ids (db_pool db)) (view (db_pool db)) (pages (db_pool db)) pid bs" for pid bs
      by (rule stream_in_cong [OF that]) (use d b(3,4) in \<open>auto simp: free_pages_def durable_def\<close>)
    ultimately have "stored ids bp tbl rs" by (rule stored_mono)
    then have "table_rep ids ?db name tbl rs" using t(2) by (auto simp: table_rep_def buffered_def)
    then show "\<exists>rs. A name = Some (tm_schema tbl, rs) \<and> table_rep ids ?db name tbl rs" using t(1) by blast
  qed (use D(3,5) b(2) in \<open>simp_all add: map_inv_def\<close>)
  ultimately show ?thesis by blast
qed

lemma CloseDB_rep:
  assumes r: "db_rep ids db A" and room: "close_room db"
  obtains ids' db' where "CloseDB db = Some (Inr (), db'\<lparr>closed := True\<rparr>)" "db_rep ids' db' A" "\<And>n. A n \<noteq> None \<Longrightarrow> unbuffered db' n" "durable (db_pool db')"
    "stored_body (disk_manager (db_pool db')) ids' (catalog_body (db_catalog db'))" "length (catalog_body (db_catalog db')) < 2 ^ 32"
proof -
  note D = db_repD [OF r]
  obtain ids1 db1 where f: "flush_tables (map fst (pending db)) db = Some (Inr (), db1)" "db_rep ids1 db1 A"
    "\<forall>n. unbuffered db n \<or> n \<in> set (map fst (pending db)) \<longrightarrow> A n \<noteq> None \<longrightarrow> unbuffered db1 n"
  proof -
    have "flush_rooms (map fst (pending db)) db" using room by (simp add: close_room_def)
    from flush_tables_rep [OF r this] that show thesis by blast
  qed
  have "unbuffered db n" if "n \<notin> set (map fst (pending db))" for n
    using that by (simp add: unbuffered_def map_of_eq_None_iff [THEN iffD2])
  then have un: "A n \<noteq> None \<Longrightarrow> unbuffered db1 n" for n using f(3) by blast
  have rm: "persist_room db1" "length (catalog_body (db_catalog db1)) < 2 ^ 32"
    using room f(1) by (simp_all add: close_room_def FlushAllPending_def)
  note D1 = db_repD [OF f(2)]
  obtain bp where fl: "FlushAll (db_pool db1) = (Inr (), bp)" "grown ids1 (db_pool db1) bp" "pages bp = pages (db_pool db1)"
    "\<forall>p. unat p < pages (db_pool db1) \<longrightarrow> disk_page (disk_manager bp) p = view (db_pool db1) p" "clean bp"
    using FlushAll_grown [OF D1(2)] by blast
  let ?db2 = "db1\<lparr>db_pool := bp\<rparr>"
  have rep2: "db_rep ids1 ?db2 A" by (rule db_rep_grown [OF f(2) fl(2)])
  have dur: "durable (db_pool ?db2)" using fl(2-4) by (simp add: durable_def grown_def)
  have "persist_room ?db2" using rm(1) fl(3) by (simp add: persist_room_def)
  then obtain ids' db3 where p: "PersistCatalog ?db2 = Some (Inr (), db3)" "db_rep ids' db3 A"
    "db3 = ?db2\<lparr>db_pool := db_pool db3\<rparr>" "stored_body (disk_manager (db_pool db3)) ids' (catalog_body (db_catalog ?db2))"
    "durable (db_pool ?db2) \<Longrightarrow> durable (db_pool db3)" "frames (db_pool db3) = frames (db_pool ?db2)" by (rule PersistCatalog_rep [OF rep2]) blast
  have same: "pending db3 = pending db1" "db_catalog db3 = db_catalog db1" by (subst p(3), simp)+
  have "FlushAll (db_pool db3) = (Inr (), db_pool db3)" using fl(5) p(6) by (intro FlushAll_clean) (simp add: clean_def)
  then have "FlushPool db3 = (Inr (), db3)" by (simp add: FlushPool_def)
  then have "CloseDB db = Some (Inr (), db3\<lparr>closed := True\<rparr>)"
    using D(1) f(1) fl(1) p(1) by (simp add: CloseDB_def FlushAllPending_def FlushPool_def)
  then show thesis
    by (rule that [OF _ p(2) _ p(5) [OF dur]]) (use un rm(2) same p(4) in \<open>simp_all add: unbuffered_def\<close>)
qed

lemma close_open:
  assumes "db_rep ids db A" and "close_room db"
  shows "\<exists>db' db2 ids'. CloseDB db = Some (Inr (), db') \<and> closed db' \<and>
    DB_Open (fbytes (disk_manager (db_pool db'))) True = Some (Inr db2) \<and> db_rep ids' db2 A"
proof -
  obtain ids' db' where c: "CloseDB db = Some (Inr (), db'\<lparr>closed := True\<rparr>)" "db_rep ids' db' A" "\<And>n. A n \<noteq> None \<Longrightarrow> unbuffered db' n"
    "durable (db_pool db')" "stored_body (disk_manager (db_pool db')) ids' (catalog_body (db_catalog db'))" "length (catalog_body (db_catalog db')) < 2 ^ 32"
    by (rule CloseDB_rep [OF assms]) blast
  obtain db2 where "DB_Open (fbytes (disk_manager (db_pool db'))) True = Some (Inr db2)" "db_rep ids' db2 A"
    using DB_Open_rep [OF c(2-6)] by blast
  then show ?thesis using c(1) by (intro exI [of _ "db'\<lparr>closed := True\<rparr>"] exI [of _ db2] exI [of _ ids']) simp
qed

text \<open>C5. Closing a database writes everything it holds, buffered rows included, and opening the file again
  gives a database with the same tables, schemas and rows in the same order; the bytes of the
  file are all that is carried over.\<close>

theorem close_and_open:
  assumes "db_rep ids db A" and "close_room db"
  shows "\<exists>db' db2 ids'. CloseDB db = Some (Inr (), db') \<and> closed db' \<and>
    DB_Open (fbytes (disk_manager (db_pool db'))) True = Some (Inr db2) \<and> db_rep ids' db2 A"
  by (rule close_open [OF assms])

text \<open>A database with three rows in its buffers and none on the disk.\<close>

definition sample_schema :: schema where
  "sample_schema = [\<lparr>col_name = ''a'', col_type = kInt, varchar_len = 0, column_index = 0\<rparr>]"

definition sample_db :: "pool \<Rightarrow> db" where
  "sample_db bp = \<lparr>db_pool = bp, db_catalog = \<lparr>Catalog.tables = [(''t'', \<lparr>tm_name = ''t'', tm_schema = sample_schema, row_groups = []\<rparr>)]\<rparr>,
     pending = [(''t'', [[Int32 4, Null, Int32 9]])], closed = False\<rparr>"

definition sample_contents :: contents where
  "sample_contents = [''t'' \<mapsto> (sample_schema, [[Int32 4], [Null], [Int32 9]])]"

lemma new_page: "disk_page sample_disk 0 = zero_page" "hdr_page_type (disk_page sample_disk 0) = 0"
proof -
  show z: "disk_page sample_disk 0 = zero_page" by (simp add: disk_page_def sample_disk_def read_at_def zero_page_def)
  then show "hdr_page_type (disk_page sample_disk 0) = 0"
    by (simp add: hdr_page_type_def zero_page_def kPageSize_def read_at_def pod_of_bytes_def numeral_2_eq_2)
qed

lemma new_page_data: "\<not> is_data (disk_page sample_disk 0)"
  using new_page(2) by (simp add: is_data_def)

lemma sample_db_rep:
  obtains bp where "BufferPool sample_disk kDefaultBufferPoolFrames = Inr bp" "pages bp = 1" "db_rep [0] (sample_db bp) sample_contents"
proof -
  obtain bp where b: "BufferPool sample_disk kDefaultBufferPoolFrames = Inr bp" "pool_at [0] bp" "disk_manager bp = sample_disk"
    using BufferPool_at [OF sample_chain, of kDefaultBufferPoolFrames] new_page_data by (auto simp: kDefaultBufferPoolFrames_def sample_disk)
  let ?tbl = "\<lparr>tm_name = ''t'', tm_schema = sample_schema, row_groups = []\<rparr>" and ?cols = "[[Int32 4, Null, Int32 9]]"
  have "buffers_ok sample_schema ?cols 3" using sample_column(1) by (simp add: buffers_ok_def sample_schema_def)
  moreover have "buffer_rows sample_schema ?cols 3 = [[Int32 4], [Null], [Int32 9]]"
    by (simp add: buffer_rows_def sample_schema_def numeral_3_eq_3)
  ultimately have "buffered (sample_db bp) ''t'' sample_schema [[Int32 4], [Null], [Int32 9]]" unfolding buffered_def by (auto simp: sample_db_def)
  moreover have "stored [0] bp ?tbl []" by (auto simp: stored_def table_in_def table_rows_def)
  ultimately have "table_rep [0] (sample_db bp) ''t'' ?tbl [[Int32 4], [Null], [Int32 9]]"
    by (auto simp: table_rep_def sample_db_def sample_schema_def schema_ok_def kMaxColumnNameLen_def)
  then have "db_rep [0] (sample_db bp) sample_contents"
    by (intro db_repI) (use b in \<open>auto simp: sample_db_def sample_contents_def GetTable_def map_inv_def split: if_splits\<close>)
  then show thesis using that b by (simp add: sample_disk)
qed

lemma sample_flush: "flush_cost ''t'' (sample_db bp) = 2" "flush_bytes ''t'' (sample_db bp) = 12"
proof -
  let ?vs = "[Int32 4, Null, Int32 9]"
  have "group_starts 3 = [0]" by (simp add: group_starts_def kRowGroupSize_def)
  then have g: "group_starts (Suc (Suc (Suc 0))) = [0]" by (simp add: numeral_3_eq_3)
  have "length (catalog_body (db_catalog (sample_db bp))) \<le> 4000"
    by (simp add: catalog_body_def sample_db_def sample_schema_def put_table_def Serialize_def put_column_def Let_def)
  then have "pages_for (length (catalog_body (db_catalog (sample_db bp))) + 12) = 1"
    by (auto simp: pages_for_def PayloadCapacity_def kPageSize_def kHeaderSize_def max_def)
  moreover have "col_pages kInt ?vs = 1"
    using sample_column_length by (simp add: col_pages_def PayloadCapacity_def kPageSize_def kHeaderSize_def)
  moreover show b: "flush_bytes ''t'' (sample_db bp) = 12" by (simp add: flush_bytes_def sample_db_def GetTable_def sample_schema_def g)
  ultimately show "flush_cost ''t'' (sample_db bp) = 2"
    by (simp add: flush_cost_def sample_db_def GetTable_def sample_schema_def flush_pages_def cols_pages_def g segment_def kRowGroupSize_def)
qed

lemma sample_close_room:
  assumes "pages bp = 1" and r: "db_rep [0] (sample_db bp) sample_contents"
  shows "close_room (sample_db bp)"
proof -
  have room: "flush_room ''t'' (sample_db bp)" using assms(1) by (simp add: flush_room_def sample_flush) (simp add: sample_db_def)
  obtain ids1 db1 where f: "FlushTable ''t'' (sample_db bp) = Some (Inr (), db1)" "pages (db_pool db1) \<le> pages (db_pool (sample_db bp)) + flush_cost ''t'' (sample_db bp)"
    "length (catalog_body (db_catalog db1)) = length (catalog_body (db_catalog (sample_db bp))) + flush_bytes ''t'' (sample_db bp)"
    by (rule FlushTable_rep [OF r room]) blast
  have "length (catalog_body (db_catalog (sample_db bp))) \<le> 4000"
    by (simp add: catalog_body_def sample_db_def sample_schema_def put_table_def Serialize_def put_column_def Let_def)
  then have l: "length (catalog_body (db_catalog db1)) \<le> 4012" using f(3) sample_flush(2) [of bp] by simp
  then have "pages_for (length (catalog_body (db_catalog db1))) = 1"
    by (auto simp: pages_for_def PayloadCapacity_def kPageSize_def kHeaderSize_def max_def)
  moreover have "pages (db_pool db1) \<le> 3" using f(2) sample_flush(1) [of bp] assms(1) by (simp add: sample_db_def)
  ultimately have p: "persist_room db1" by (simp add: persist_room_def pages_needed_for)
  have "map fst (pending (sample_db bp)) = [''t'']" by (simp add: sample_db_def)
  then show ?thesis using f(1) room p l by (simp add: close_room_def FlushAllPending_def)
qed

text \<open>The theorem at a database whose rows are all still in the buffers.\<close>

theorem close_and_open_witness:
  "\<exists>bp db' db2 ids'. CloseDB (sample_db bp) = Some (Inr (), db') \<and> DB_Open (fbytes (disk_manager (db_pool db'))) True = Some (Inr db2) \<and>
    db_rep ids' db2 [''t'' \<mapsto> (sample_schema, [[Int32 4], [Null], [Int32 9]])]"
proof -
  obtain bp where b: "pages bp = 1" "db_rep [0] (sample_db bp) sample_contents" by (rule sample_db_rep)
  from close_and_open [OF b(2) sample_close_room [OF b]] show ?thesis unfolding sample_contents_def by blast
qed

end
