(* ===== verification/Database_Updates.thy ===== *)
theory Database_Updates
  imports Database_Contents
begin

text \<open>
  What the statements that change a database do to its contents: creating, dropping and truncating
  tables, and inserting rows.
\<close>

section \<open>Inserting\<close>

text \<open>The rows an \<open>INSERT\<close> adds, each value in the type of its column.\<close>

definition coerce_row :: "schema \<Rightarrow> Value list \<Rightarrow> Value list result" where
  "coerce_row s row =
     (if length row \<noteq> length s then Inl (RuntimeError ''INSERT: value count does not match column count'')
      else mapR (\<lambda>k. Coerce (row ! k) (col_type (s ! k))) [0..<length s])"

lemma Coerce_fits: "Coerce v t = Inr w \<Longrightarrow> value_fits t w"
  by (cases t; cases v) (auto simp: Coerce_def mismatch_def)

lemma coerce_row_ok: "coerce_row s row = Inr vs \<Longrightarrow> length row = length s \<and> length vs = length s \<and>
    (\<forall>k < length s. Coerce (row ! k) (col_type (s ! k)) = Inr (vs ! k))"
proof -
  assume c: "coerce_row s row = Inr vs"
  then have r: "length row = length s" "mapR (\<lambda>k. Coerce (row ! k) (col_type (s ! k))) [0..<length s] = Inr vs"
    by (auto simp: coerce_row_def split: if_splits)
  show ?thesis using r(1) mapR_length [OF r(2)] mapR_nth [OF r(2)] by simp
qed

lemma push_values_ok:
  assumes "\<forall>k \<in> set ks. k < length s \<and> Coerce (row ! k) (col_type (s ! k)) = Inr (vs ! k)" and "distinct ks" and "length cols = length s"
  shows "\<exists>cols'. push_values s row ks cols = (Inr (), cols') \<and> length cols' = length s \<and>
    (\<forall>k < length s. cols' ! k = (if k \<in> set ks then cols ! k @ [vs ! k] else cols ! k))"
  using assms
proof (induction ks arbitrary: cols)
  case (Cons i ks)
  obtain cols' where "push_values s row ks (cols[i := cols ! i @ [vs ! i]]) = (Inr (), cols')" "length cols' = length s"
    "\<forall>k < length s. cols' ! k = (if k \<in> set ks then cols[i := cols ! i @ [vs ! i]] ! k @ [vs ! k] else cols[i := cols ! i @ [vs ! i]] ! k)"
    using Cons.IH [of "cols[i := cols ! i @ [vs ! i]]"] Cons.prems by auto
  then show ?case using Cons.prems by (intro exI [of _ cols']) (auto simp: GetColumn_def nth_list_update)
qed simp

lemma push_rows_ok:
  "mapR (coerce_row s) rs = Inr vss \<Longrightarrow> length cols = length s \<Longrightarrow>
    \<exists>cols'. push_rows s rs cols = (Inr (), cols') \<and> length cols' = length s \<and> (\<forall>k < length s. cols' ! k = cols ! k @ map (\<lambda>vs. vs ! k) vss)"
proof (induction rs arbitrary: vss cols)
  case (Cons row rs)
  obtain vs rest where v: "coerce_row s row = Inr vs" "mapR (coerce_row s) rs = Inr rest" "vss = vs # rest" using Cons.prems(1) by auto
  note cr = coerce_row_ok [OF v(1)]
  obtain cols1 where p: "push_values s row [0..<length row] cols = (Inr (), cols1)" "length cols1 = length s"
    "\<forall>k < length s. cols1 ! k = (if k \<in> set [0..<length row] then cols ! k @ [vs ! k] else cols ! k)"
    using push_values_ok [of "[0..<length row]" s row vs cols] cr Cons.prems(2) by auto
  obtain cols' where "push_rows s rs cols1 = (Inr (), cols')" "length cols' = length s" "\<forall>k < length s. cols' ! k = cols1 ! k @ map (\<lambda>vs. vs ! k) rest"
    using Cons.IH [OF v(2) p(2)] by blast
  then show ?case using p cr v(3) by (simp add: NumColumns_def)
qed simp

lemma push_rows_error:
  "mapR (coerce_row s) rs = Inl e \<Longrightarrow> length cols = length s \<Longrightarrow> \<exists>cols'. push_rows s rs cols = (Inl e, cols')"
proof (induction rs arbitrary: cols)
  case (Cons row rs)
  show ?case
  proof (cases "coerce_row s row")
    case (Inr vs)
    note cr = coerce_row_ok [OF Inr]
    obtain cols1 where p: "push_values s row [0..<length row] cols = (Inr (), cols1)" "length cols1 = length s"
      using push_values_ok [of "[0..<length row]" s row vs cols] cr Cons.prems(2) by auto
    have "mapR (coerce_row s) rs = Inl e" using Cons.prems(1) Inr by (cases "mapR (coerce_row s) rs") auto
    then show ?thesis using Cons.IH [OF _ p(2)] p(1) cr by (auto simp: NumColumns_def)
  next
    case (Inl e')
    have err: "mapR f ks = Inl e \<Longrightarrow> \<forall>k \<in> set ks. k < length s \<and> f k = Coerce (row ! k) (col_type (s ! k)) \<Longrightarrow> \<exists>cols'. push_values s row ks cols = (Inl e, cols')" for f ks cols
    proof (induction ks arbitrary: cols)
      case (Cons k ks)
      then show ?case by (cases "f k"; cases "mapR f ks") (auto simp: GetColumn_def)
    qed simp
    show ?thesis
    proof (cases "length row = length s")
      case True
      then have "mapR (\<lambda>k. Coerce (row ! k) (col_type (s ! k))) [0..<length s] = Inl e" using Inl Cons.prems(1) by (simp add: coerce_row_def)
      from err [OF this, of cols] True show ?thesis by (auto simp: NumColumns_def)
    qed (use Inl Cons.prems(1) in \<open>auto simp: coerce_row_def NumColumns_def\<close>)
  qed
qed simp

section \<open>Updates\<close>

text \<open>What a statement that changes the database means, \<open>None\<close> where it throws.\<close>

fun update_contents :: "Statement \<Rightarrow> contents \<Rightarrow> contents option" where
  "update_contents (CreateTableStmt name defs) A =
     (if A name \<noteq> None then None else (case table_schema defs of Inl _ \<Rightarrow> None | Inr s \<Rightarrow> Some (A(name \<mapsto> (s, [])))))"
| "update_contents (DropTableStmt name) A = (if A name = None then None else Some (A(name := None)))"
| "update_contents (TruncateStmt name) A = (case A name of None \<Rightarrow> None | Some (s, rs) \<Rightarrow> Some (A(name \<mapsto> (s, []))))"
| "update_contents (InsertStmt name rs) A =
     (case A name of
        None \<Rightarrow> None
      | Some (s, old) \<Rightarrow> (case mapR (coerce_row s) rs of Inl _ \<Rightarrow> None | Inr new \<Rightarrow> Some (A(name \<mapsto> (s, old @ new)))))"
| "update_contents (SelectStmt sel) A = Some A"

text \<open>Room: page ids for the catalog, and 32-bit lengths for the names, the columns and the strings.\<close>

definition catalog_room :: "db \<Rightarrow> Catalog \<Rightarrow> bool" where
  "catalog_room db c \<longleftrightarrow> pages (db_pool db) + pages_needed (catalog_body c) < 2 ^ 32"

fun update_room :: "Statement \<Rightarrow> db \<Rightarrow> bool" where
  "update_room (CreateTableStmt name defs) db \<longleftrightarrow> length name < 256 \<and> defs \<noteq> [] \<and> length defs < 2 ^ 16 \<and>
     (case table_schema defs of Inl _ \<Rightarrow> True
      | Inr s \<Rightarrow> (case CreateTable (db_catalog db) name s of Inl _ \<Rightarrow> True | Inr c \<Rightarrow> catalog_room db c))"
| "update_room (DropTableStmt name) db \<longleftrightarrow> catalog_room db (snd (DropTable (db_catalog db) name))"
| "update_room (TruncateStmt name) db \<longleftrightarrow> (case ClearRowGroups (db_catalog db) name of Inl _ \<Rightarrow> True | Inr c \<Rightarrow> catalog_room db c)"
| "update_room (InsertStmt name rs) db \<longleftrightarrow>
     (case map_of (pending (snd (insert_rows name rs db))) name of None \<Rightarrow> True | Some cols \<Rightarrow> \<forall>c \<in> set cols. length (strs c) + 2 ^ 14 \<le> 2 ^ 32)"
| "update_room (SelectStmt sel) db = True"

lemma table_rep_other:
  "table_rep ids db nm t rs \<Longrightarrow> db_pool db' = db_pool db \<Longrightarrow> map_of (pending db') nm = map_of (pending db) nm \<Longrightarrow> table_rep ids db' nm t rs"
  by (erule table_rep_cong) simp_all

text \<open>One table is replaced, the others stay.\<close>

lemma db_rep_replace:
  assumes r: "db_rep ids db A" and db': "closed db' = closed db" "db_pool db' = db_pool db" "map_inv (Catalog.tables (db_catalog db'))" "map_inv (pending db')"
    and pd: "\<And>nm. nm \<noteq> name \<Longrightarrow> map_of (pending db') nm = map_of (pending db) nm"
    and cat: "GetTable (db_catalog db') = (GetTable (db_catalog db))(name := t)"
    and new: "case t of None \<Rightarrow> x = None | Some tbl \<Rightarrow> \<exists>rs. x = Some (tm_schema tbl, rs) \<and> table_rep ids db' name tbl rs"
  shows "db_rep ids db' (A(name := x))"
proof (rule db_repI)
  note D = db_repD [OF r]
  fix nm
  show "(A(name := x)) nm = None" if "GetTable (db_catalog db') nm = None" using that cat new D(5) [of nm] by (auto split: if_splits)
  show "\<exists>rs. (A(name := x)) nm = Some (tm_schema tbl, rs) \<and> table_rep ids db' nm tbl rs" if g: "GetTable (db_catalog db') nm = Some tbl" for tbl
  proof (cases "nm = name")
    case True
    then show ?thesis using g cat new by simp
  next
    case False
    then obtain rs where "A nm = Some (tm_schema tbl, rs)" "table_rep ids db nm tbl rs" using D(6) [of nm tbl] g cat by auto
    then show ?thesis using table_rep_other [of ids db nm tbl rs db'] db'(2) pd False by simp
  qed
qed (use db_repD(1,2) [OF r] db' in simp_all)

lemma stored_no_groups: "row_groups tbl = [] \<Longrightarrow> stored ids bp tbl []"
  by (auto simp: stored_def table_in_def table_rows_def)

lemma length_Schema: "table_schema defs = Inr s \<Longrightarrow> length s = length defs"
  by (auto simp: table_schema_def Schema_eq)

lemma buffers_ok_empty: "buffers_ok s (replicate (length s) []) 0" "buffers_ok s cols m \<Longrightarrow> buffers_ok s (map (\<lambda>_. []) cols) 0" "buffer_rows s cols 0 = []"
  by (auto simp: buffers_ok_def column_ok_def buffer_rows_def)

lemma persisted_rep:
  assumes "db_rep ids db A" and "catalog_room db (db_catalog db)"
  shows "\<exists>ids' db'. PersistCatalog db = Some (Inr (), db') \<and> db_rep ids' db' A"
  using PersistCatalog_rep [OF assms(1)] assms(2) unfolding persist_room_def catalog_room_def by metis

lemma create_table_rep:
  assumes r: "db_rep ids db A" and a: "A name = None" and s: "table_schema defs = Inr s" and room: "update_room (CreateTableStmt name defs) db"
  shows "\<exists>ids' db'. create_table name defs db = Some (Inr no_rows, db') \<and> db_rep ids' db' (A(name \<mapsto> (s, [])))"
proof -
  note D = db_repD [OF r]
  let ?tbl = "\<lparr>tm_name = name, tm_schema = s, row_groups = []\<rparr>"
  let ?c = "(db_catalog db)\<lparr>Catalog.tables := emplace name ?tbl (Catalog.tables (db_catalog db))\<rparr>"
  have g: "GetTable (db_catalog db) name = None" using D(5) a by blast
  then have c: "CreateTable (db_catalog db) name s = Inr ?c" by (simp add: CreateTable_def)
  have cm: "map_inv (Catalog.tables ?c)" "GetTable ?c = (GetTable (db_catalog db))(name \<mapsto> ?tbl)"
    using om_table_facts(1,4) [OF D(3), of name ?tbl] g by (auto simp: GetTable_def fun_eq_iff dom_def)
  let ?db = "db\<lparr>pending := update_at name (\<lambda>_. replicate (NumColumns s) []) (emplace name [] (pending db)), db_catalog := ?c\<rparr>"
  have pd: "map_inv (pending ?db)" "map_of (pending ?db) = (map_of (pending db))(name \<mapsto> replicate (length s) [])"
    using om.look_ins [OF D(4), of name "[]"] om.look_upd [of "emplace name [] (pending db)" name] by (auto simp: NumColumns_def fun_eq_iff dom_def)
  have "s \<noteq> []" "schema_ok s" using length_Schema [OF s] room s Schema_ok [of _ s] by (auto simp: table_schema_def)
  then have t: "table_rep ids ?db name ?tbl []"
    using room stored_no_groups [of ?tbl] buffers_ok_empty(1,3) [of s] pd(2) by (fastforce simp: table_rep_def buffered_def)
  have "db_rep ids ?db (A(name \<mapsto> (s, [])))"
    by (rule db_rep_replace [OF r, where t = "Some ?tbl"]) (use cm pd t in simp_all)
  moreover have "catalog_room ?db (db_catalog ?db)" using room s c by (simp add: catalog_room_def)
  ultimately obtain ids' db' where "PersistCatalog ?db = Some (Inr (), db')" "db_rep ids' db' (A(name \<mapsto> (s, [])))" using persisted_rep by blast
  then show ?thesis using g s c by (intro exI [of _ ids'] exI [of _ db']) (simp add: create_table_def)
qed

lemma drop_table_rep:
  assumes r: "db_rep ids db A" and a: "A name \<noteq> None" and room: "update_room (DropTableStmt name) db"
  shows "\<exists>ids' db'. drop_table name db = Some (Inr no_rows, db') \<and> db_rep ids' db' (A(name := None))"
proof -
  note D = db_repD [OF r]
  let ?c = "(db_catalog db)\<lparr>Catalog.tables := erase name (Catalog.tables (db_catalog db))\<rparr>"
  have d: "DropTable (db_catalog db) name = (True, ?c)" using D(5) [of name] a by (auto simp: DropTable_def)
  have cm: "map_inv (Catalog.tables ?c)" "GetTable ?c = (GetTable (db_catalog db))(name := None)"
    using om_table_facts(3,6) [OF D(3), of name] by (simp_all add: GetTable_def fun_eq_iff)
  let ?db = "db\<lparr>db_catalog := ?c, pending := erase name (pending db)\<rparr>"
  have "db_rep ids ?db (A(name := None))"
    by (rule db_rep_replace [OF r, where t = None]) (use cm om.look_del [OF D(4), of name] in simp_all)
  moreover have "catalog_room ?db (db_catalog ?db)" using room d by (simp add: catalog_room_def)
  ultimately obtain ids' db' where "PersistCatalog ?db = Some (Inr (), db')" "db_rep ids' db' (A(name := None))" using persisted_rep by blast
  then show ?thesis using d by (intro exI [of _ ids'] exI [of _ db']) (simp add: drop_table_def)
qed

lemma truncate_table_rep:
  assumes r: "db_rep ids db A" and a: "A name = Some (s, rs)" and room: "update_room (TruncateStmt name) db"
  shows "\<exists>ids' db'. truncate_table name db = Some (Inr no_rows, db') \<and> db_rep ids' db' (A(name \<mapsto> (s, [])))"
proof -
  note D = db_repD [OF r]
  obtain tbl where g: "GetTable (db_catalog db) name = Some tbl" using D(5) [of name] a by auto
  from D(6) [OF g] a have t: "s = tm_schema tbl" "table_rep ids db name tbl rs" by auto
  let ?tbl = "tbl\<lparr>row_groups := []\<rparr>"
  let ?c = "(db_catalog db)\<lparr>Catalog.tables := update_at name (\<lambda>m. m\<lparr>row_groups := []\<rparr>) (Catalog.tables (db_catalog db))\<rparr>"
  have c: "ClearRowGroups (db_catalog db) name = Inr ?c" using g by (simp add: ClearRowGroups_def)
  have cm: "map_inv (Catalog.tables ?c)" "GetTable ?c = (GetTable (db_catalog db))(name \<mapsto> ?tbl)"
    using om_table_facts(2,5) [OF D(3), of name "\<lambda>m. m\<lparr>row_groups := []\<rparr>"] g by (simp_all add: GetTable_def fun_eq_iff)
  let ?db = "clear_pending name (db\<lparr>db_catalog := ?c\<rparr>)"
  have pd: "map_inv (pending ?db)" "map_of (pending ?db) = (map_of (pending db))(name := map_option (map (\<lambda>_. [])) (map_of (pending db) name))"
    using pending_update [OF D(4), of name "map (\<lambda>_. [])"] by (simp_all add: clear_pending_def)
  obtain P where "buffered db name s P" using t by (auto simp: table_rep_def)
  then have "buffered ?db name s []"
  proof (cases "map_of (pending db) name")
    case (Some cols)
    with \<open>buffered db name s P\<close> obtain m where "buffers_ok s cols m" by (auto simp: buffered_def)
    from buffers_ok_empty(2) [OF this] show ?thesis using Some pd(2) buffers_ok_empty(3) [of s] by (auto simp: buffered_def)
  qed (simp add: buffered_def pd(2))
  then have t': "table_rep ids ?db name ?tbl []" using t stored_no_groups [of ?tbl] by (fastforce simp: table_rep_def)
  have "db_rep ids ?db (A(name \<mapsto> (s, [])))"
    by (rule db_rep_replace [OF r, where t = "Some ?tbl"]) (use cm pd t' t(1) in simp_all)
  moreover have "catalog_room ?db (db_catalog ?db)" using room c by (simp add: catalog_room_def)
  ultimately obtain ids' db' where "PersistCatalog ?db = Some (Inr (), db')" "db_rep ids' db' (A(name \<mapsto> (s, [])))" using persisted_rep by blast
  then show ?thesis using g c by (intro exI [of _ ids'] exI [of _ db']) (simp add: truncate_table_def)
qed

text \<open>The buffers \<open>INSERT\<close> starts from.\<close>

definition insert_buffers :: "db \<Rightarrow> string \<Rightarrow> schema \<Rightarrow> Value list list" where
  "insert_buffers db name s =
     (case map_of (pending db) name of Some cols \<Rightarrow> if length cols \<noteq> NumColumns s then replicate (NumColumns s) [] else cols
      | None \<Rightarrow> replicate (NumColumns s) [])"

lemma insert_buffers_ok:
  assumes "buffered db name s P" and "s \<noteq> []"
  shows "\<exists>m. buffers_ok s (insert_buffers db name s) m \<and> P = buffer_rows s (insert_buffers db name s) m"
proof (cases "map_of (pending db) name")
  case None
  then show ?thesis using assms buffers_ok_empty(1,3) [of s] by (auto simp: buffered_def insert_buffers_def NumColumns_def)
next
  case (Some cols)
  then obtain m where m: "buffers_ok s cols m" "P = buffer_rows s cols m" using assms by (auto simp: buffered_def)
  then have "length cols = length s" by (simp add: buffers_ok_def)
  then show ?thesis using Some m by (auto simp: insert_buffers_def NumColumns_def)
qed

lemma insert_rows_eq:
  assumes "map_inv (pending db)" and "GetTable (db_catalog db) name = Some tbl" and "tm_schema tbl \<noteq> []"
  shows "\<exists>ps. (\<forall>rs. insert_rows name rs db = (case push_rows (tm_schema tbl) rs (insert_buffers db name (tm_schema tbl)) of
      (r, cols) \<Rightarrow> (bindR r (\<lambda>_. Inr no_rows), db\<lparr>pending := ps cols\<rparr>))) \<and>
    (\<forall>cols. map_inv (ps cols) \<and> map_of (ps cols) = (map_of (pending db))(name \<mapsto> cols))"
proof -
  let ?ps = "\<lambda>cols. update_at name (\<lambda>_. cols) (emplace name [] (pending db))"
  have e: "map_inv (emplace name [] (pending db))" "map_of (emplace name [] (pending db)) = (if name \<in> dom (map_of (pending db)) then map_of (pending db) else (map_of (pending db))(name \<mapsto> []))"
    using om.look_ins [OF assms(1)] by simp_all
  have "map_inv (?ps cols) \<and> map_of (?ps cols) = (map_of (pending db))(name \<mapsto> cols)" for cols
    using pending_update [OF e(1)] e(2) by (auto simp: fun_eq_iff dom_def)
  moreover have "insert_rows name rs db = (case push_rows (tm_schema tbl) rs (insert_buffers db name (tm_schema tbl)) of
      (r, cols) \<Rightarrow> (bindR r (\<lambda>_. Inr no_rows), db\<lparr>pending := ?ps cols\<rparr>))" for rs
    using assms(2,3) e(2) by (auto simp: insert_rows_def insert_buffers_def NumColumns_def dom_def split: option.splits)
  ultimately show ?thesis by (intro exI [of _ ?ps]) blast
qed

lemma buffer_rows_append:
  assumes "\<forall>k < length s. length (cols ! k) = m \<and> cols' ! k = cols ! k @ map (\<lambda>vs. vs ! k) vss" and "\<forall>vs \<in> set vss. length vs = length s"
  shows "buffer_rows s cols' (m + length vss) = buffer_rows s cols m @ vss"
proof -
  have "map (\<lambda>i. map (\<lambda>k. cols' ! k ! (m + i)) [0..<length s]) [0..<length vss] = vss"
    using assms by (auto intro!: nth_equalityI simp: nth_append)
  moreover have "map (\<lambda>i. map (\<lambda>k. cols' ! k ! i) [0..<length s]) [0..<m] = buffer_rows s cols m"
    using assms(1) by (auto simp: buffer_rows_def nth_append)
  moreover have "map f [m..<m + length vss] = map (\<lambda>i. f (m + i)) [0..<length vss]" for f :: "nat \<Rightarrow> Value list" by (rule nth_equalityI) simp_all
  ultimately show ?thesis by (simp add: buffer_rows_def upt_add_eq_append [of 0])
qed

lemma insert_rows_rep:
  assumes r: "db_rep ids db A" and a: "A name = Some (s, old)" and new: "mapR (coerce_row s) rs = Inr vss" and room: "update_room (InsertStmt name rs) db"
  shows "\<exists>db'. insert_rows name rs db = (Inr no_rows, db') \<and> db_rep ids db' (A(name \<mapsto> (s, old @ vss)))"
proof -
  note D = db_repD [OF r]
  obtain tbl where g: "GetTable (db_catalog db) name = Some tbl" using D(5) [of name] a by auto
  from D(6) [OF g] a have t: "s = tm_schema tbl" "table_rep ids db name tbl old" by auto
  then obtain R P where st: "stored ids (db_pool db) tbl R" "buffered db name s P" "old = R @ P" and s: "s \<noteq> []" by (auto simp: table_rep_def)
  obtain m where m: "buffers_ok s (insert_buffers db name s) m" "P = buffer_rows s (insert_buffers db name s) m" using insert_buffers_ok [OF st(2) s] by blast
  let ?c = "insert_buffers db name s"
  obtain cols' where p: "push_rows s rs ?c = (Inr (), cols')" "length cols' = length s" "\<forall>k < length s. cols' ! k = ?c ! k @ map (\<lambda>vs. vs ! k) vss"
    using push_rows_ok [OF new, of ?c] m(1) by (auto simp: buffers_ok_def)
  obtain ps where ins: "insert_rows name rs db = (Inr no_rows, db\<lparr>pending := ps cols'\<rparr>)" (is "_ = (_, ?db)")
    "map_inv (ps cols')" "map_of (ps cols') = (map_of (pending db))(name \<mapsto> cols')"
  proof -
    have "tm_schema tbl \<noteq> []" using s t(1) by simp
    from insert_rows_eq [OF D(4) g this] show thesis using that p(1) t(1) by (metis (no_types, lifting) bindR_simps(2) case_prod_conv)
  qed
  have row: "length vs = length s \<and> (\<forall>k < length s. value_fits (col_type (s ! k)) (vs ! k))" if "vs \<in> set vss" for vs
  proof -
    obtain i where i: "i < length vss" "vs = vss ! i" using \<open>vs \<in> set vss\<close> by (metis in_set_conv_nth)
    then have "coerce_row s (rs ! i) = Inr vs" using mapR_length [OF new] mapR_nth [OF new] by simp
    from coerce_row_ok [OF this] show ?thesis using Coerce_fits by blast
  qed
  have old: "\<forall>k < length s. length (?c ! k) = m \<and> column_ok (col_type (s ! k)) (?c ! k)" using m(1) by (simp add: buffers_ok_def)
  have small: "\<forall>k < length s. length (strs (cols' ! k)) + 2 ^ 14 \<le> 2 ^ 32" using room ins(1,3) p(2) by simp
  have "buffers_ok s cols' (m + length vss)"
    unfolding buffers_ok_def column_ok_def using p(2,3) old small row by (auto simp: column_ok_def list_all_iff)
  moreover have "buffer_rows s cols' (m + length vss) = P @ vss"
    unfolding m(2) by (rule buffer_rows_append) (use p(3) old row in auto)
  ultimately have "buffered ?db name s (P @ vss)" using ins(3) by (auto simp: buffered_def)
  then have t': "table_rep ids ?db name tbl (old @ vss)" using t st by (auto simp: table_rep_def)
  have "GetTable (db_catalog ?db) = (GetTable (db_catalog db))(name := Some tbl)" using g by (simp add: fun_eq_iff)
  then have "db_rep ids ?db (A(name \<mapsto> (s, old @ vss)))"
    by (intro db_rep_replace [OF r, where t = "Some tbl"]) (use D(3) ins(2,3) t' t(1) in simp_all)
  then show ?thesis using ins(1) by blast
qed

lemma insert_rows_error:
  assumes r: "db_rep ids db A" and a: "A name = Some (s, old)" and new: "mapR (coerce_row s) rs = Inl e"
  shows "\<exists>db'. insert_rows name rs db = (Inl e, db')"
proof -
  note D = db_repD [OF r]
  obtain tbl where g: "GetTable (db_catalog db) name = Some tbl" using D(5) [of name] a by auto
  from D(6) [OF g] a have t: "s = tm_schema tbl" "table_rep ids db name tbl old" by auto
  then obtain P where "buffered db name s P" and s: "s \<noteq> []" by (auto simp: table_rep_def)
  then obtain m where "buffers_ok s (insert_buffers db name s) m" using insert_buffers_ok by blast
  then have "length (insert_buffers db name s) = length s" by (simp add: buffers_ok_def)
  from push_rows_error [OF new this] obtain cols where p: "push_rows s rs (insert_buffers db name s) = (Inl e, cols)" by blast
  have "tm_schema tbl \<noteq> []" using s t(1) by simp
  from insert_rows_eq [OF D(4) g this] show ?thesis using p t(1) by auto
qed

lemma update_effect:
  assumes "db_rep ids db A" and "update_room stmt db" and "\<And>sel. stmt \<noteq> SelectStmt sel"
  shows "case update_contents stmt A of
      Some A' \<Rightarrow> \<exists>ids' db'. exec scans work stmt db = Some (Inr no_rows, db') \<and> db_rep ids' db' A'
    | None \<Rightarrow> \<exists>e db'. exec scans work stmt db = Some (Inl e, db') \<and> ((\<forall>name rs. stmt \<noteq> InsertStmt name rs) \<longrightarrow> db' = db)"
proof (cases stmt)
  case (CreateTableStmt name defs)
  show ?thesis
  proof (cases "A name \<noteq> None")
    case True
    then have "GetTable (db_catalog db) name \<noteq> None" using db_repD(5) [OF assms(1), of name] by simp
    then show ?thesis using CreateTableStmt True by (auto simp: exec_def create_table_def)
  next
    case False
    then have g: "GetTable (db_catalog db) name = None" using db_repD(5) [OF assms(1)] by blast
    show ?thesis
    proof (cases "table_schema defs")
      case (Inl e)
      then show ?thesis using CreateTableStmt False g by (simp add: exec_def create_table_def)
    next
      case (Inr s)
      have "A name = None" using False by blast
      with create_table_rep [OF assms(1) this Inr] assms(2) Inr CreateTableStmt show ?thesis by (simp del: update_room.simps add: exec_def)
    qed
  qed
next
  case (DropTableStmt name)
  show ?thesis
  proof (cases "A name")
    case None
    then have "GetTable (db_catalog db) name = None" using db_repD(5) [OF assms(1)] by blast
    then show ?thesis using DropTableStmt None by (simp add: exec_def drop_table_def DropTable_def)
  next
    case (Some x)
    then show ?thesis using DropTableStmt drop_table_rep [OF assms(1), of name] assms(2) by (auto simp: exec_def)
  qed
next
  case (TruncateStmt name)
  show ?thesis
  proof (cases "A name")
    case None
    then have "GetTable (db_catalog db) name = None" using db_repD(5) [OF assms(1)] by blast
    then show ?thesis using TruncateStmt None by (simp add: exec_def truncate_table_def)
  next
    case (Some x)
    then show ?thesis using TruncateStmt truncate_table_rep [OF assms(1), of name "fst x" "snd x"] assms(2) by (cases x) (auto simp: exec_def)
  qed
next
  case (InsertStmt name rs)
  show ?thesis
  proof (cases "A name")
    case None
    then have "GetTable (db_catalog db) name = None" using db_repD(5) [OF assms(1)] by blast
    then show ?thesis using InsertStmt None by (simp add: exec_def insert_rows_def)
  next
    case (Some x)
    show ?thesis
    proof (cases "mapR (coerce_row (fst x)) rs")
      case (Inr new)
      then show ?thesis using InsertStmt Some insert_rows_rep [OF assms(1), of name "fst x" "snd x" rs new] assms(2) by (cases x) (auto simp: exec_def)
    next
      case (Inl e)
      then show ?thesis using InsertStmt Some insert_rows_error [OF assms(1), of name "fst x" "snd x" rs e] by (cases x) (auto simp: exec_def)
    qed
  qed
qed (use assms(3) in blast)

text \<open>C4. Refinement of the statements that change a database: \<open>CREATE TABLE\<close>, \<open>DROP TABLE\<close>, \<open>TRUNCATE\<close> and
  \<open>INSERT\<close>, executed on the catalog pages, the buffer pool and the column buffers, do to the
  tables, schemas and rows what the statement means, for every table at once. Where the statement
  has no meaning an exception is raised, and all but \<open>INSERT\<close> then leave the database as it was.\<close>

theorem updates_refine:
  assumes "db_rep ids db A" and "update_room stmt db" and "\<And>sel. stmt \<noteq> SelectStmt sel"
  shows "case update_contents stmt A of
      Some A' \<Rightarrow> \<exists>ids' db'. exec scans work stmt db = Some (Inr no_rows, db') \<and> db_rep ids' db' A'
    | None \<Rightarrow> \<exists>e db'. exec scans work stmt db = Some (Inl e, db') \<and> ((\<forall>name rs. stmt \<noteq> InsertStmt name rs) \<longrightarrow> db' = db)"
  by (rule update_effect [OF assms])

section \<open>A new database\<close>

lemma DB_Open_new: "\<exists>db. DB_Open [] True = Some (Inr db) \<and> db_rep [0] db Map.empty \<and> db_catalog db = empty_catalog \<and> pending db = [] \<and> pages (db_pool db) = 1"
proof -
  obtain bp where b: "BufferPool sample_disk kDefaultBufferPoolFrames = Inr bp" "pool_at [0] bp" "disk_manager bp = sample_disk"
    using BufferPool_at [OF sample_chain, of kDefaultBufferPoolFrames] new_page_data by (auto simp: kDefaultBufferPoolFrames_def sample_disk)
  have "Load sample_disk = Some (Inr empty_catalog)"
    using dm.rd_ok [of sample_disk 0] sample_disk new_page(2) by (simp add: Load_def)
  then show ?thesis using b sample_disk by (simp add: DB_Open_def db_rep_def empty_catalog_def GetTable_def map_inv_def)
qed

text \<open>The theorem at \<open>INSERT INTO t VALUES (7)\<close> with a literal of 64 bits, at \<open>DROP TABLE u\<close>, and at a
  database that holds rows in its buffers.\<close>

theorem updates_refine_witness:
  "\<exists>bp ids' db'. exec (\<lambda>_. []) (\<lambda>_. []) (InsertStmt ''t'' [[Int64 7]]) (sample_db bp) = Some (Inr no_rows, db') \<and>
    db_rep ids' db' [''t'' \<mapsto> (sample_schema, [[Int32 4], [Null], [Int32 9], [Int32 7]])] \<and>
    (\<exists>e. exec (\<lambda>_. []) (\<lambda>_. []) (DropTableStmt ''u'') (sample_db bp) = Some (Inl e, sample_db bp))"
proof -
  obtain bp where b: "pages bp = 1" "db_rep [0] (sample_db bp) sample_contents" by (rule sample_db_rep)
  have c: "mapR (coerce_row sample_schema) [[Int64 7]] = Inr [[Int32 7]]" by (simp add: coerce_row_def sample_schema_def Coerce_def IsNull_def)
  have "insert_rows ''t'' [[Int64 7]] (sample_db bp) = (Inr no_rows, (sample_db bp)\<lparr>pending := [(''t'', [[Int32 4, Null, Int32 9, Int32 7]])]\<rparr>)"
    by (simp add: insert_rows_def sample_db_def GetTable_def NumColumns_def sample_schema_def GetColumn_def Coerce_def IsNull_def)
  then have room: "update_room (InsertStmt ''t'' [[Int64 7]]) (sample_db bp)" by simp
  have drop: "update_room (DropTableStmt ''u'') (sample_db bp)"
  proof -
    have "length (catalog_body (db_catalog (sample_db bp))) \<le> 4000"
      by (simp add: catalog_body_def sample_db_def sample_schema_def put_table_def Serialize_def put_column_def Let_def)
    then have "pages_needed (catalog_body (db_catalog (sample_db bp))) = 1"
      by (auto simp: pages_needed_def PayloadCapacity_def kPageSize_def kHeaderSize_def max_def)
    moreover have "DropTable (db_catalog (sample_db bp)) ''u'' = (False, db_catalog (sample_db bp))" by (simp add: DropTable_def sample_db_def GetTable_def)
    ultimately show ?thesis using b(1) by (simp add: catalog_room_def) (simp add: sample_db_def)
  qed
  have "update_contents (InsertStmt ''t'' [[Int64 7]]) sample_contents = Some (sample_contents(''t'' \<mapsto> (sample_schema, [[Int32 4], [Null], [Int32 9], [Int32 7]])))"
    using c by (simp add: sample_contents_def)
  moreover have "update_contents (DropTableStmt ''u'') sample_contents = None" by (simp add: sample_contents_def)
  ultimately show ?thesis
    using updates_refine [OF b(2) room, of "\<lambda>_. []" "\<lambda>_. []"] updates_refine [OF b(2) drop, of "\<lambda>_. []" "\<lambda>_. []"] by (force simp: sample_contents_def)
qed

end
