(* ===== verification/Query_State.thy ===== *)
theory Query_State
  imports Query_Results
begin

text \<open>
  What running a plan does to the buffer pool: whatever the plan and however long it runs, the
  pools its scans read through still show the same pages afterwards.
\<close>

section \<open>Operators that keep an invariant of their state\<close>

definition next_keeps :: "('s \<Rightarrow> bool) \<Rightarrow> 's next_fun \<Rightarrow> bool" where
  "next_keeps I nxt \<longleftrightarrow> (\<forall>s ch ch' s'. I s \<longrightarrow> nxt s ch = Some (Inr (ch', s')) \<longrightarrow> I s')"

definition op_keeps :: "('s \<Rightarrow> bool) \<Rightarrow> 's Operator \<Rightarrow> bool" where
  "op_keeps I p \<longleftrightarrow> (\<forall>s s'. I s \<longrightarrow> Open p s = Some (Inr s') \<longrightarrow> I s') \<and> next_keeps I (Next p) \<and> (\<forall>s s'. I s \<longrightarrow> Close p s = Inr s' \<longrightarrow> I s')"

lemma bindO_Inr_iff: "bindO m f = Some (Inr y) \<longleftrightarrow> (\<exists>x. m = Some (Inr x) \<and> f x = Some (Inr y))"
proof (cases m)
  case (Some r)
  then show ?thesis by (cases r) simp_all
qed simp

lemma next_keepsD: "next_keeps I nxt \<Longrightarrow> nxt s ch = Some (Inr (ch', s')) \<Longrightarrow> I s \<Longrightarrow> I s'"
  unfolding next_keeps_def by blast

lemma op_keepsD:
  assumes "op_keeps I p"
  shows "Open p s = Some (Inr s') \<Longrightarrow> I s \<Longrightarrow> I s'" "next_keeps I (Next p)" "Close p s = Inr s' \<Longrightarrow> I s \<Longrightarrow> I s'"
  using assms unfolding op_keeps_def by blast+

lemma op_keepsI:
  assumes "\<And>s s'. I s \<Longrightarrow> Open p s = Some (Inr s') \<Longrightarrow> I s'" and "\<And>s ch ch' s'. I s \<Longrightarrow> Next p s ch = Some (Inr (ch', s')) \<Longrightarrow> I s'"
    and "\<And>s s'. I s \<Longrightarrow> Close p s = Inr s' \<Longrightarrow> I s'"
  shows "op_keeps I p"
  using assms unfolding op_keeps_def next_keeps_def by blast

text \<open>The loops that pull a child.\<close>

lemma drain_keeps:
  assumes "drain nxt s ch acc = Some (Inr (rs, s'))" and "next_keeps I nxt" and "I s"
  shows "I s'"
proof -
  have "\<forall>rs s'. y = Inr (rs, s') \<longrightarrow> next_keeps I nxt \<longrightarrow> I s \<longrightarrow> I s'" if "drain nxt s ch acc = Some y" for nxt s ch acc y
    using that
  proof (rule drain.raw_induct [where P = "\<lambda>nxt s ch acc y. \<forall>rs s'. y = Inr (rs, s') \<longrightarrow> next_keeps I nxt \<longrightarrow> I s \<longrightarrow> I s'", rotated], intro allI impI)
    fix drain nxt s ch acc y rs s'
    assume IH: "\<And>nxt s ch acc y. drain nxt s ch acc = Some y \<Longrightarrow> \<forall>rs s'. y = Inr (rs, s') \<longrightarrow> next_keeps I nxt \<longrightarrow> I s \<longrightarrow> I s'"
      and b: "bindO (nxt s ch) (\<lambda>(ch', s'). if cardinality ch' = 0 then Some (Inr (acc, s')) else bindO (Some (chunk_rows ch')) (\<lambda>rs. drain nxt s' ch' (acc @ rs))) = Some y"
      and y: "y = Inr (rs, s')" and k: "next_keeps I nxt" "I s"
    obtain ch1 s1 where n: "nxt s ch = Some (Inr (ch1, s1))"
      "(if cardinality ch1 = 0 then Some (Inr (acc, s1)) else bindO (Some (chunk_rows ch1)) (\<lambda>rs. drain nxt s1 ch1 (acc @ rs))) = Some (Inr (rs, s'))"
      using b unfolding y bindO_Inr_iff by auto
    have i: "I s1" by (rule next_keepsD [OF k(1) n(1) k(2)])
    show "I s'"
    proof (cases "cardinality ch1 = 0")
      case True
      then show ?thesis using n(2) i by simp
    next
      case False
      then obtain r where "drain nxt s1 ch1 (acc @ r) = Some (Inr (rs, s'))" using n(2) by (auto simp: bindO_Inr_iff)
      then show ?thesis using IH k(1) i by blast
    qed
  qed
  then show ?thesis using assms by blast
qed

lemma drain_chunks_keeps:
  assumes "drain_chunks nxt ts s acc = Some (Inr (chs, s'))" and "next_keeps I nxt" and "I s"
  shows "I s'"
proof -
  have "\<forall>chs s'. y = Inr (chs, s') \<longrightarrow> next_keeps I nxt \<longrightarrow> I s \<longrightarrow> I s'" if "drain_chunks nxt ts s acc = Some y" for nxt ts s acc y
    using that
  proof (rule drain_chunks.raw_induct [where P = "\<lambda>nxt ts s acc y. \<forall>chs s'. y = Inr (chs, s') \<longrightarrow> next_keeps I nxt \<longrightarrow> I s \<longrightarrow> I s'", rotated], intro allI impI)
    fix loop nxt ts s acc y chs s'
    assume IH: "\<And>nxt ts s acc y. loop nxt ts s acc = Some y \<Longrightarrow> \<forall>chs s'. y = Inr (chs, s') \<longrightarrow> next_keeps I nxt \<longrightarrow> I s \<longrightarrow> I s'"
      and b: "bindO (nxt s (Initialize ts)) (\<lambda>(ch, s'). if cardinality ch = 0 then Some (Inr (acc, s')) else loop nxt ts s' (acc @ [ch])) = Some y"
      and y: "y = Inr (chs, s')" and k: "next_keeps I nxt" "I s"
    obtain ch1 s1 where n: "nxt s (Initialize ts) = Some (Inr (ch1, s1))"
      "(if cardinality ch1 = 0 then Some (Inr (acc, s1)) else loop nxt ts s1 (acc @ [ch1])) = Some (Inr (chs, s'))"
      using b unfolding y bindO_Inr_iff by auto
    have i: "I s1" by (rule next_keepsD [OF k(1) n(1) k(2)])
    show "I s'" using n(2) i IH [of nxt ts s1 "acc @ [ch1]"] k(1) by (cases "cardinality ch1 = 0") auto
  qed
  then show ?thesis using assms by blast
qed

lemma filter_next_keeps:
  assumes "filter_next nxt p s input out = Some (Inr (out', s', input'))" and "next_keeps I nxt" and "I s"
  shows "I s'"
proof -
  have "\<forall>a s' b. y = Inr (a, s', b) \<longrightarrow> next_keeps I nxt \<longrightarrow> I s \<longrightarrow> I s'" if "filter_next nxt p s input out = Some y" for nxt p s input out y
    using that
  proof (rule filter_next.raw_induct [where P = "\<lambda>nxt p s input out y. \<forall>a s' b. y = Inr (a, s', b) \<longrightarrow> next_keeps I nxt \<longrightarrow> I s \<longrightarrow> I s'", rotated], intro allI impI)
    fix loop nxt p s input out y a s' b
    assume IH: "\<And>nxt p s input out y. loop nxt p s input out = Some y \<Longrightarrow> \<forall>a s' b. y = Inr (a, s', b) \<longrightarrow> next_keeps I nxt \<longrightarrow> I s \<longrightarrow> I s'"
      and e: "bindO (nxt s input) (\<lambda>(input', s').
       if cardinality input' = 0 then Some (Inr (set_cardinality out 0, s', input'))
       else bindO (Some (filter_batch p input' out)) (\<lambda>(kept, out').
         if 0 < kept then Some (Inr (set_cardinality out' kept, s', input')) else loop nxt p s' input' out')) = Some y"
      and y: "y = Inr (a, s', b)" and k: "next_keeps I nxt" "I s"
    obtain in1 s1 where n: "nxt s input = Some (Inr (in1, s1))"
      "(if cardinality in1 = 0 then Some (Inr (set_cardinality out 0, s1, in1))
       else bindO (Some (filter_batch p in1 out)) (\<lambda>(kept, out').
         if 0 < kept then Some (Inr (set_cardinality out' kept, s1, in1)) else loop nxt p s1 in1 out')) = Some (Inr (a, s', b))"
      using e unfolding y bindO_Inr_iff by auto
    have i: "I s1" by (rule next_keepsD [OF k(1) n(1) k(2)])
    have "I s'" if "loop nxt p s1 in1 o1 = Some (Inr (a, s', b))" for o1 using IH [OF that] k(1) i by blast
    then show "I s'" using n(2) i by (auto simp: bindO_Inr_iff split: if_splits)
  qed
  then show ?thesis using assms by blast
qed

section \<open>Each operator keeps what its child keeps\<close>

text \<open>What a call on the child, or a loop of such calls, keeps.\<close>

lemma child_keeps:
  assumes "op_keeps I p"
  shows "Open p s = Some (Inr s') \<Longrightarrow> I s \<Longrightarrow> I s'"
    "Close p s = Inr s' \<Longrightarrow> I s \<Longrightarrow> I s'"
    "drain (Next p) s ch acc = Some (Inr (rs, s')) \<Longrightarrow> I s \<Longrightarrow> I s'"
    "drain_chunks (Next p) ts s chs = Some (Inr (chs', s')) \<Longrightarrow> I s \<Longrightarrow> I s'"
    "filter_next (Next p) e s ch out = Some (Inr (out', s', ch')) \<Longrightarrow> I s \<Longrightarrow> I s'"
    "projection_next (Next p) sources s ch out = Some (Inr (out', s', ch')) \<Longrightarrow> I s \<Longrightarrow> I s'"
    "limit_next (Next p) s ch n out = Some (Inr (out', s', ch', n')) \<Longrightarrow> I s \<Longrightarrow> I s'"
proof -
  note n = op_keepsD(2) [OF assms]
  show "Open p s = Some (Inr s') \<Longrightarrow> I s \<Longrightarrow> I s'" "Close p s = Inr s' \<Longrightarrow> I s \<Longrightarrow> I s'"
    using op_keepsD(1,3) [OF assms] by blast+
  show "drain (Next p) s ch acc = Some (Inr (rs, s')) \<Longrightarrow> I s \<Longrightarrow> I s'" by (rule drain_keeps [OF _ n])
  show "drain_chunks (Next p) ts s chs = Some (Inr (chs', s')) \<Longrightarrow> I s \<Longrightarrow> I s'" by (rule drain_chunks_keeps [OF _ n])
  show "filter_next (Next p) e s ch out = Some (Inr (out', s', ch')) \<Longrightarrow> I s \<Longrightarrow> I s'" by (rule filter_next_keeps [OF _ n])
  show "I s'" if l: "projection_next (Next p) sources s ch out = Some (Inr (out', s', ch'))" "I s"
  proof -
    obtain c where "Next p s ch = Some (Inr (c, s'))"
      using l(1) by (auto simp: projection_next_def Let_def bindO_Inr_iff split: if_splits)
    then show ?thesis by (rule next_keepsD [OF n _ l(2)])
  qed
  show "I s'" if l: "limit_next (Next p) s ch n out = Some (Inr (out', s', ch', n'))" "I s"
  proof (cases "s' = s")
    case False
    then obtain c where "Next p s ch = Some (Inr (c, s'))"
      using l(1) by (auto simp: limit_next_def Let_def bindO_Inr_iff split: if_splits)
    then show ?thesis by (rule next_keepsD [OF n _ l(2)])
  qed (use l in simp)
qed

lemma Filter_keeps:
  assumes k: "op_keeps I p"
  shows "op_keeps (\<lambda>(s, ch). I s) (Filter p e)"
  by (rule op_keepsI) (auto simp: Filter_def bindO_Inr_iff bindR_Inr_iff dest: child_keeps [OF k])

lemma Projection_keeps:
  assumes k: "op_keeps I p" and "Projection p sources names = Inr q"
  shows "op_keeps (\<lambda>(s, ch). I s) q"
  by (rule op_keepsI) (use assms(2) in \<open>auto simp: Projection_def bindO_Inr_iff bindR_Inr_iff dest: child_keeps [OF k] split: if_splits\<close>)

lemma Limit_keeps:
  assumes k: "op_keeps I p"
  shows "op_keeps (\<lambda>(s, ch, n). I s) (Limit p)"
  by (rule op_keepsI) (auto simp: Limit_def bindO_Inr_iff bindR_Inr_iff dest: child_keeps [OF k])

lemma OrderBy_keeps:
  assumes k: "op_keeps I p"
  shows "op_keeps (\<lambda>(s, rs, n). I s) (OrderBy p key desc)"
proof (rule op_keepsI)
  show "(\<lambda>(s, rs, n). I s) s'" if "(\<lambda>(s, rs, n). I s) s" "Open (OrderBy p key desc) s = Some (Inr s')" for s s'
    using that child_keeps(1,3) [OF k] by (auto simp: OrderBy_def bindO_Inr_iff)
qed (auto simp: OrderBy_def bindO_Inr_iff bindR_Inr_iff dest: child_keeps [OF k])

lemma HashAggregate_keeps:
  assumes k: "op_keeps I p"
  shows "op_keeps (\<lambda>a. I (agg_child a)) (HashAggregate p gis names ts aggs work)"
  by (rule op_keepsI) (auto simp: HashAggregate_def agg_open_def Let_def bindO_Inr_iff bindR_Inr_iff dest: child_keeps [OF k])

text \<open>The join, over the states of its two children.\<close>

definition join_keeps :: "('l \<Rightarrow> bool) \<Rightarrow> ('r \<Rightarrow> bool) \<Rightarrow> ('l, 'r) join_state \<Rightarrow> bool" where
  "join_keeps I K j \<longleftrightarrow> I (jleft j) \<and> K (jright j)"

lemma refill_keeps: "refill nxt j = Some (Inr (b, j')) \<Longrightarrow> next_keeps I nxt \<Longrightarrow> join_keeps I K j \<Longrightarrow> join_keeps I K j'"
  by (auto simp: refill_def join_keeps_def bindO_Inr_iff dest: next_keepsD split: if_splits)

lemma AdvanceProbeRow_keeps:
  assumes "AdvanceProbeRow nxt lkey j = Some (Inr (b, j'))" and "next_keeps I nxt" and "join_keeps I K j"
  shows "join_keeps I K j'"
proof -
  have "\<forall>b j'. y = Inr (b, j') \<longrightarrow> next_keeps I nxt \<longrightarrow> join_keeps I K j \<longrightarrow> join_keeps I K j'" if "AdvanceProbeRow nxt lkey j = Some y"
    for nxt lkey y and j :: "('a, 'b) join_state"
    using that
  proof (rule AdvanceProbeRow.raw_induct [where P = "\<lambda>nxt lkey j y. \<forall>b j'. y = Inr (b, j') \<longrightarrow> next_keeps I nxt \<longrightarrow> join_keeps I K j \<longrightarrow> join_keeps I K j'", rotated], intro allI impI)
    fix loop nxt lkey y b j' and j :: "('a, 'b) join_state"
    assume IH: "\<And>nxt lkey j y. loop nxt lkey j = Some y \<Longrightarrow> \<forall>b j'. y = Inr (b, j') \<longrightarrow> next_keeps I nxt \<longrightarrow> join_keeps I K j \<longrightarrow> join_keeps I K j'"
      and e: "bindO (refill nxt j) (\<lambda>(more_rows, j1).
       if \<not> more_rows then Some (Inr (False, j1))
       else bindO (Some (bindR (GetVector (lchunk j1) lkey) (\<lambda>v. GetValue v (lpos j1)))) (\<lambda>key.
         case (if IsNull key then None else build_index j1 (KeyOf key)) of
           None \<Rightarrow> loop nxt lkey (j1\<lparr>lpos := lpos j1 + 1\<rparr>)
         | Some m \<Rightarrow> Some (Inr (True, j1\<lparr>matches := Some m, mpos := 0\<rparr>)))) = Some y"
      and y: "y = Inr (b, j')" and k: "next_keeps I nxt" "join_keeps I K j"
    obtain more j1 where n: "refill nxt j = Some (Inr (more, j1))"
      "j' = j1 \<or> (\<exists>m. j' = j1\<lparr>matches := Some m, mpos := 0\<rparr>) \<or> loop nxt lkey (j1\<lparr>lpos := lpos j1 + 1\<rparr>) = Some (Inr (b, j'))"
      using e unfolding y bindO_Inr_iff by (auto simp: bindO_Inr_iff split: if_splits option.splits)
    have "join_keeps I K j1" by (rule refill_keeps [OF n(1) k])
    then show "join_keeps I K j'" using n(2) IH [of nxt lkey "j1\<lparr>lpos := lpos j1 + 1\<rparr>"] k(1) by (auto simp: join_keeps_def)
  qed
  then show ?thesis using assms by blast
qed

lemma join_next_keeps:
  assumes "join_next nxt lkey lc j out = Some (Inr (out', j'))" and "next_keeps I nxt" and "join_keeps I K j"
  shows "join_keeps I K j'"
proof -
  have "\<forall>a j'. y = Inr (a, j') \<longrightarrow> next_keeps I nxt \<longrightarrow> join_keeps I K j \<longrightarrow> join_keeps I K j'" if "join_next nxt lkey lc j out = Some y"
    for nxt lkey lc out y and j :: "('a, 'b) join_state"
    using that
  proof (rule join_next.raw_induct [where P = "\<lambda>nxt lkey lc j out y. \<forall>a j'. y = Inr (a, j') \<longrightarrow> next_keeps I nxt \<longrightarrow> join_keeps I K j \<longrightarrow> join_keeps I K j'", rotated], intro allI impI)
    fix loop nxt lkey lc out y a j' and j :: "('a, 'b) join_state"
    assume IH: "\<And>nxt lkey lc j out y. loop nxt lkey lc j out = Some y \<Longrightarrow> \<forall>a j'. y = Inr (a, j') \<longrightarrow> next_keeps I nxt \<longrightarrow> join_keeps I K j \<longrightarrow> join_keeps I K j'"
      and e: "(if kVectorSize \<le> cardinality out then Some (Inr (out, j))
      else bindO (current_match nxt lkey j) (\<lambda>(found, j1).
        if \<not> found then Some (Inr (out, j1))
        else bindO (Some (emit_match lc j1 out)) (\<lambda>(out', j2). loop nxt lkey lc j2 out'))) = Some y"
      and y: "y = Inr (a, j')" and k: "next_keeps I nxt" "join_keeps I K j"
    show "join_keeps I K j'"
    proof (cases "kVectorSize \<le> cardinality out")
      case True
      then show ?thesis using e y k by simp
    next
      case False
      obtain found j1 where n: "current_match nxt lkey j = Some (Inr (found, j1))"
        "j' = j1 \<or> (\<exists>o2 j2. emit_match lc j1 out = Inr (o2, j2) \<and> loop nxt lkey lc j2 o2 = Some (Inr (a, j')))"
        using e False unfolding y by (auto simp: bindO_Inr_iff split: if_splits)
      have c: "join_keeps I K j1"
        using n(1) k AdvanceProbeRow_keeps [OF _ k(1), of lkey _ found j1 K] by (auto simp: current_match_def join_keeps_def split: option.splits if_splits)
      have "join_keeps I K j2" if "emit_match lc j1 out = Inr (o2, j2)" for o2 j2
        using that c by (auto simp: emit_match_def join_keeps_def bindR_Inr_iff Let_def split: option.splits if_splits)
      then show ?thesis using n(2) c IH k(1) by blast
    qed
  qed
  then show ?thesis using assms by blast
qed

lemma HashJoin_keeps:
  assumes l: "op_keeps I l" and r: "op_keeps K r"
  shows "op_keeps (join_keeps I K) (HashJoin l r lkey rkey)"
proof (rule op_keepsI)
  show "join_keeps I K j'" if "join_keeps I K j" "Open (HashJoin l r lkey rkey) j = Some (Inr j')" for j j'
    using that child_keeps(1) [OF l] child_keeps(1,2,3) [OF r] by (auto simp: HashJoin_def join_open_def join_keeps_def bindO_Inr_iff)
  show "join_keeps I K j'" if "join_keeps I K j" "Next (HashJoin l r lkey rkey) j ch = Some (Inr (ch', j'))" for j j' ch ch'
    using join_next_keeps [OF _ op_keepsD(2) [OF l] that(1)] that(2) by (simp add: HashJoin_def)
qed (auto simp: HashJoin_def join_keeps_def bindR_Inr_iff dest: child_keeps [OF l])

section \<open>Plans\<close>

fun pools_in :: "(pool \<Rightarrow> bool) \<Rightarrow> plan_state \<Rightarrow> bool" where
  "pools_in G (ScanS s) = G (scan_pool s)"
| "pools_in G (JoinS l r brows index ch p d m mp) \<longleftrightarrow> pools_in G l \<and> pools_in G r"
| "pools_in G (FilterS s ch) = pools_in G s"
| "pools_in G (AggregateS s groups index cursor) = pools_in G s"
| "pools_in G (ProjectionS s ch) = pools_in G s"
| "pools_in G (OrderByS s rs n) = pools_in G s"
| "pools_in G (LimitS s ch k) = pools_in G s"

fun scans_of :: "plan \<Rightarrow> column_scan list" where
  "scans_of (ScanP c) = [c]"
| "scans_of (JoinP l r lk rk) = scans_of l @ scans_of r"
| "scans_of (FilterP p e) = scans_of p"
| "scans_of (AggregateP p gis gnames gtypes aggs) = scans_of p"
| "scans_of (ProjectionP p sources names) = scans_of p"
| "scans_of (OrderByP p key desc) = scans_of p"
| "scans_of (LimitP p n) = scans_of p"

lemma wrap_keeps:
  assumes k: "op_keeps I p" and up: "\<And>x. J (up x) \<longleftrightarrow> I x" "\<And>s x. down s = Some x \<Longrightarrow> s = up x"
  shows "op_keeps J (wrap up down p)"
proof (rule op_keepsI)
  show "J s'" if s: "J s" "Open (wrap up down p) s = Some (Inr s')" for s s'
  proof -
    obtain x y where x: "down s = Some x" "Open p x = Some (Inr y)" "s' = up y" using s(2) by (auto simp: wrap_def bindO_Inr_iff split: option.splits)
    then show ?thesis using s(1) up(1) up(2) [OF x(1)] child_keeps(1) [OF k x(2)] by simp
  qed
  show "J s'" if s: "J s" "Next (wrap up down p) s ch = Some (Inr (ch', s'))" for s s' ch ch'
  proof -
    obtain x y where x: "down s = Some x" "Next p x ch = Some (Inr (ch', y))" "s' = up y" using s(2) by (auto simp: wrap_def bindO_Inr_iff split: option.splits)
    then show ?thesis using s(1) up(1) up(2) [OF x(1)] next_keepsD [OF op_keepsD(2) [OF k] x(2)] by simp
  qed
  show "J s'" if s: "J s" "Close (wrap up down p) s = Inr s'" for s s'
  proof (cases "down s")
    case None
    then show ?thesis using s by (simp add: wrap_def)
  next
    case (Some x)
    then obtain y where y: "Close p x = Inr y" "s' = up y" using s(2) by (auto simp: wrap_def bindR_Inr_iff)
    then show ?thesis using s(1) up(1) up(2) [OF Some] child_keeps(2) [OF k y(1)] by simp
  qed
qed

lemma join_of_Some: "join_of s = Some j \<Longrightarrow> s = of_join j"
  by (cases s) (auto simp: of_join_def)

lemma agg_of_Some: "agg_of s = Some a \<Longrightarrow> s = of_agg a"
  by (cases s) (auto simp: of_agg_def)

lemma plan_keeps:
  "(\<And>c. c \<in> set (scans_of p) \<Longrightarrow> op_keeps (\<lambda>st. G (scan_pool st)) (ScanOperator c (scans c))) \<Longrightarrow> op_keeps (pools_in G) (plan_op scans work p)"
proof (induction p)
  case (ScanP c)
  show ?case unfolding plan_op.simps
    by (rule wrap_keeps [OF ScanP [of c]]) (auto split: plan_state.splits)
next
  case (JoinP l r lk rk)
  show ?case unfolding plan_op.simps
    by (rule wrap_keeps [OF HashJoin_keeps [of "pools_in G" _ "pools_in G"]]) (use JoinP join_of_Some in \<open>auto simp: join_keeps_def of_join_def\<close>)
next
  case (FilterP p e)
  show ?case unfolding plan_op.simps
    by (rule wrap_keeps [OF Filter_keeps [of "pools_in G"]]) (use FilterP in \<open>auto split: plan_state.splits\<close>)
next
  case (AggregateP p gis gnames gtypes aggs)
  show ?case unfolding plan_op.simps
    by (rule wrap_keeps [OF HashAggregate_keeps [of "pools_in G"]]) (use AggregateP agg_of_Some in \<open>auto simp: of_agg_def\<close>)
next
  case (ProjectionP p sources names)
  then have k: "op_keeps (pools_in G) (plan_op scans work p)" by simp
  show ?case
  proof (cases "Projection (plan_op scans work p) sources names")
    case (Inl e)
    then show ?thesis using op_keepsD(2,3) [OF k] by (simp add: op_keeps_def)
  next
    case (Inr q)
    have "op_keeps (pools_in G) (wrap (\<lambda>(s, ch). ProjectionS s ch) (\<lambda>s. case s of ProjectionS x ch \<Rightarrow> Some (x, ch) | _ \<Rightarrow> None) q)"
      by (rule wrap_keeps [OF Projection_keeps [OF k Inr]]) (auto split: plan_state.splits)
    then show ?thesis using Inr by simp
  qed
next
  case (OrderByP p key desc)
  show ?case unfolding plan_op.simps
    by (rule wrap_keeps [OF OrderBy_keeps [of "pools_in G"]]) (use OrderByP in \<open>auto split: plan_state.splits\<close>)
next
  case (LimitP p n)
  show ?case unfolding plan_op.simps
    by (rule wrap_keeps [OF Limit_keeps [of "pools_in G"]]) (use LimitP in \<open>auto split: plan_state.splits\<close>)
qed

lemma plan_Close: "\<exists>s'. Close (plan_op scans work p) s = Inr s'"
proof (induction p arbitrary: s)
  case (ScanP c)
  show ?case unfolding plan_op.simps by (rule wrap_Close) (simp add: ScanOperator_def)
next
  case (JoinP l r lk rk)
  show ?case unfolding plan_op.simps by (rule wrap_Close) (use JoinP(1) in \<open>fastforce simp: HashJoin_def bindR_Inr_iff\<close>)
next
  case (FilterP p e)
  show ?case unfolding plan_op.simps by (rule wrap_Close) (use FilterP in \<open>fastforce simp: Filter_def bindR_Inr_iff\<close>)
next
  case (AggregateP p gis gnames gtypes aggs)
  show ?case unfolding plan_op.simps by (rule wrap_Close) (use AggregateP in \<open>fastforce simp: HashAggregate_def bindR_Inr_iff\<close>)
next
  case (ProjectionP p sources names)
  show ?case
  proof (cases "Projection (plan_op scans work p) sources names")
    case (Inl e)
    then show ?thesis using ProjectionP by simp
  next
    case (Inr q)
    have "\<exists>y. Close q x = Inr y" for x
      using Inr ProjectionP [of "fst x"] by (cases x) (auto simp: Projection_def bindR_Inr_iff split: if_splits)
    then show ?thesis using Inr by (simp add: wrap_Close)
  qed
next
  case (OrderByP p key desc)
  show ?case unfolding plan_op.simps by (rule wrap_Close) (use OrderByP in \<open>fastforce simp: OrderBy_def bindR_Inr_iff\<close>)
next
  case (LimitP p n)
  show ?case unfolding plan_op.simps by (rule wrap_Close) (use LimitP in \<open>fastforce simp: Limit_def bindR_Inr_iff\<close>)
qed

lemma plan_init_pools: "G bp \<Longrightarrow> pools_in G (plan_init bp p)"
  by (induction p) auto

section \<open>Scans change the cache only\<close>

lemma scan_same_pages:
  assumes c: "scan_ok c" and ready: "stream_ready bp" and tab: "table_at bp (scan_table c) vals n"
  shows "op_keeps (\<lambda>st. same_pages bp (scan_pool st)) (ScanOperator c sched)"
proof (rule op_keepsI)
  fix st st'
  assume s: "same_pages bp (scan_pool st)" and o: "Open (ScanOperator c sched) st = Some (Inr st')"
  let ?num = "length (row_groups (scan_table c))"
  have "\<exists>bp' slots'. foldR (scan_turn c) (scan_pool st, replicate ?num Waiting) sched = Inr (bp', slots') \<and> same_pages (scan_pool st) bp' \<and>
    length slots' = length (replicate ?num Waiting) \<and>
    (\<forall>j < length (replicate ?num Waiting). slot_rep c bp' (rg_rows (col_idx c) vals n j) (slots' ! j)
      (length (split_chunks (rg_rows (col_idx c) vals n j)) + 2 - count_list sched j))"
    by (rule scan_schedule_ok [OF c bs.keeps_ready [OF s ready] table_at_keeps [OF tab s]]) (simp_all add: slot_rep_def)
  then obtain bp' slots' where f: "foldR (scan_turn c) (scan_pool st, replicate ?num Waiting) sched = Inr (bp', slots')" "same_pages (scan_pool st) bp'" by blast
  have "scan_pool st' = scan_pool st \<or> scan_pool st' = bp'"
    using o f(1) by (auto simp: ScanOperator_def scan_open_def Let_def split: if_splits option.splits)
  then show "same_pages bp (scan_pool st')" using s same_pages_trans [OF s f(2)] by auto
qed (auto simp: ScanOperator_def scan_next_def split: if_splits)

section \<open>The scans of a plan\<close>

lemma scan_of_columns:
  assumes "scan_columns needed t = Inr (needed', si)" and "ColumnScan (si_table si) (si_alias si) (col_indices si) = Inr c"
  shows "scan_ok c" "scan_table c = fst t" "zone_filter c = None" "scan_types c \<noteq> []"
proof -
  obtain tbl a where t: "t = (tbl, a)" by (cases t)
  note s = scan_columns_ok(1,3) [OF assms(1) [unfolded t]] and f = ColumnScan_fields [OF assms(2)]
  show "scan_table c = fst t" "zone_filter c = None" "scan_types c \<noteq> []" using s f t by simp_all
  show "scan_ok c" using s f by (auto simp: scan_ok_def zone_ok_def Types_def)
qed

lemma all_scan_columns_nth:
  "all_scan_columns needed ts = Inr infos \<Longrightarrow> length infos = length ts \<and> (\<forall>i < length ts. \<exists>n n'. scan_columns n (ts ! i) = Inr (n', infos ! i))"
proof (induction ts arbitrary: needed infos)
  case (Cons t ts)
  obtain n1 si sis where c: "scan_columns needed t = Inr (n1, si)" "all_scan_columns n1 ts = Inr sis" "infos = si # sis" using Cons.prems by auto
  then show ?case using Cons.IH [OF c(2)] by (auto simp: nth_Cons split: nat.splits)
qed simp

lemma bottom_scans:
  assumes plan: "bottom_plan stmt scans needed = Inr (names, types, root)" and n: "scans \<noteq> []"
  shows "\<forall>c \<in> set (scans_of root). scan_ok c \<and> scan_table c \<in> fst ` set scans"
proof -
  define conjuncts where "conjuncts = (case where_clause stmt of None \<Rightarrow> [] | Some w \<Rightarrow> Flatten w)"
  define join where "join = (if length scans = 2 then find_join conjuncts else None)"
  obtain needed1 infos ops zone root0 pred where b: "all_scan_columns needed1 scans = Inr infos"
    "mapR (\<lambda>si. ColumnScan (si_table si) (si_alias si) (col_indices si)) infos = Inr ops"
    "(if length scans = 1 then pushdown (infos ! 0) conjuncts else Inr None) = Inr zone"
    "(case join of None \<Rightarrow> Inr (ScanP (case zone of None \<Rightarrow> ops ! 0 | Some (p, lo, hi) \<Rightarrow> SetZoneFilter p lo hi (ops ! 0)))
      | Some (_, lc, rc) \<Rightarrow> join_plan infos ops lc rc) = Inr root0"
    "root = (case pred of None \<Rightarrow> root0 | Some p \<Rightarrow> FilterP root0 p)"
  proof -
    note u = plan [unfolded bottom_plan_def Let_def where_plan_def, folded conjuncts_def, folded join_def]
    have n: "\<not> (length scans = 2 \<and> join = None)"
    proof
      assume "length scans = 2 \<and> join = None"
      then show False using u by (simp only: if_P PlanFail_def sum.distinct)
    qed
    show thesis using u that unfolding if_not_P [OF n] bindR_Inr_iff by blast
  qed
  note a = all_scan_columns_nth [OF b(1)]
  have op: "scan_ok (ops ! i) \<and> scan_table (ops ! i) \<in> fst ` set scans \<and> zone_filter (ops ! i) = None \<and> length (col_indices (infos ! i)) = length (scan_types (ops ! i))"
    if i: "i < length scans" for i
  proof -
    obtain m m' where m: "scan_columns m (scans ! i) = Inr (m', infos ! i)" using a i by blast
    have "ColumnScan (si_table (infos ! i)) (si_alias (infos ! i)) (col_indices (infos ! i)) = Inr (ops ! i)"
      using mapR_nth [OF b(2)] mapR_length [OF b(2)] a i by simp
    from scan_of_columns [OF m this] ColumnScan_fields(4) [OF this] show ?thesis using i by auto
  qed
  have "\<forall>c \<in> set (scans_of root0). scan_ok c \<and> scan_table c \<in> fst ` set scans"
  proof (cases join)
    case (Some x)
    then have l: "length scans = 2" by (auto simp: join_def split: if_splits)
    then have "0 < length scans" "1 < length scans" by simp_all
    then have "scan_ok (ops ! k) \<and> scan_table (ops ! k) \<in> fst ` set scans" if "k \<in> {0, 1}" for k using op that by blast
    moreover obtain k k' i j where "root0 = JoinP (ScanP (ops ! k)) (ScanP (ops ! k')) i j" "k \<in> {0, 1}" "k' \<in> {0, 1}"
      using b(4) Some by (auto simp: join_plan_def Let_def bindR_Inr_iff split: prod.splits if_splits)
    ultimately show ?thesis by auto
  next
    case None
    have op0: "scan_ok (ops ! 0)" "scan_table (ops ! 0) \<in> fst ` set scans" "zone_filter (ops ! 0) = None"
      "length (col_indices (infos ! 0)) = length (scan_types (ops ! 0))" using op [of 0] n by auto
    show ?thesis
    proof (cases zone)
      case None
      then have "root0 = ScanP (ops ! 0)" using b(4) \<open>join = None\<close> by simp
      then show ?thesis using op0(1,2) by simp
    next
      case (Some z)
      obtain p lo hi where z: "z = (p, lo, hi)" by (cases z)
      have "pushdown (infos ! 0) conjuncts = Inr (Some (p, lo, hi))" using b(3) Some z by (auto split: if_splits)
      then obtain e where "pushdown_of (infos ! 0) e = Inr (Some (p, lo, hi))" using pushdown_conjunct by blast
      then obtain s where "name_to_scanpos (infos ! 0) s = Some p" using pushdown_pos by blast
      moreover obtain tbl al m m' where "scan_columns m (tbl, al) = Inr (m', infos ! 0)" using a n by (metis length_greater_0_conv surj_pair)
      ultimately have "p < length (scan_types (ops ! 0))" using scan_columns_ok(7) op0(4) by metis
      then have "scan_ok (SetZoneFilter p lo hi (ops ! 0))" using op0(1) by (auto simp: scan_ok_def zone_ok_def SetZoneFilter_def)
      moreover have "root0 = ScanP (SetZoneFilter p lo hi (ops ! 0))" "scan_table (SetZoneFilter p lo hi (ops ! 0)) = scan_table (ops ! 0)"
        using b(4) \<open>join = None\<close> Some z by (simp_all add: SetZoneFilter_def)
      ultimately show ?thesis using op0(2) by simp
    qed
  qed
  then show ?thesis using b(5) by (cases pred) simp_all
qed

lemma project_scans: "project root sources names = Inr p \<Longrightarrow> scans_of p = scans_of root"
  by (auto simp: project_ok)

lemma PlanSelect_scans:
  assumes "PlanSelect stmt catalog = Inr p" and "c \<in> set (scans_of p)"
  shows "scan_ok c \<and> (\<exists>tr \<in> set (select.tables stmt). GetTable catalog (tr_name tr) = Some (scan_table c))"
proof -
  obtain scans needed names types root q where b: "mapR (resolve_table catalog) (select.tables stmt) = Inr scans" "select.tables stmt \<noteq> []"
    "bottom_plan stmt scans needed = Inr (names, types, root)"
    "(if aggregated stmt then
        bindR (aggregate_plan stmt names types root) (\<lambda>p.
          case order_by_clause stmt of None \<Rightarrow> Inr p
          | Some ob \<Rightarrow> bindR (Resolve (plan_names p) [] (ob_output_name ob)) (\<lambda>i. Inr (OrderByP p i (descending ob))))
      else plain_plan stmt (length scans = 1) names root) = Inr q"
    "p = (case limit_clause stmt of None \<Rightarrow> q | Some n \<Rightarrow> LimitP q n)"
  proof -
    note u = assms(1) [unfolded PlanSelect_def]
    have n: "\<not> select.tables stmt = []" "\<not> 2 < length (select.tables stmt)" using assms(1) by (auto simp: PlanSelect_def PlanFail_def split: if_splits)
    show thesis using u that n unfolding if_not_P [OF n(1)] if_not_P [OF n(2)] bindR_Inr_iff split_paired_Ex case_prod_conv by blast
  qed
  have "scans_of q = scans_of root"
    using b(4) project_scans
    by (auto simp: aggregate_plan_def plain_plan_def Let_def bindR_Inr_iff split: if_splits option.splits) (metis scans_of.simps(6))+
  then have c: "c \<in> set (scans_of root)" using assms(2) b(5) by (cases "limit_clause stmt") simp_all
  have "scans \<noteq> []" using b(1,2) mapR_length [OF b(1)] by auto
  then have "scan_ok c" "scan_table c \<in> fst ` set scans" using bottom_scans [OF b(3)] c by blast+
  moreover have "\<exists>tr \<in> set (select.tables stmt). GetTable catalog (tr_name tr) = Some (fst t)" if "t \<in> set scans" for t
  proof -
    obtain i where i: "i < length scans" "t = scans ! i" using \<open>t \<in> set scans\<close> by (metis in_set_conv_nth)
    then have "resolve_table catalog (select.tables stmt ! i) = Inr t" "i < length (select.tables stmt)"
      using mapR_nth [OF b(1)] mapR_length [OF b(1)] by auto
    then show ?thesis by (intro bexI [of _ "select.tables stmt ! i"]) (auto simp: resolve_table_def PlanFail_def split: option.splits)
  qed
  ultimately show ?thesis by fastforce
qed

end
