(* ===== verification/Group_Queries.thy ===== *)
theory Group_Queries
  imports Query_Results
begin

text \<open>
  Queries with aggregates or \<open>GROUP BY\<close> over one table: what the plan of \<open>PlanSelect\<close> returns, against
  the query over the whole rows of the table. The order in which groups come out depends on how
  the batches are divided among the workers, so it is left open; everything after it is not.
\<close>

section \<open>The reference\<close>

text \<open>The columns to group by, their types and the aggregates of the query, without repetitions.\<close>

definition grouping :: "string list \<Rightarrow> ColumnType list \<Rightarrow> select \<Rightarrow> (nat list \<times> ColumnType list \<times> AggSpec list) result" where
  "grouping names types stmt =
     bindR (mapR (\<lambda>g. Resolve names (fst g) (snd g)) (group_by stmt)) (\<lambda>gis.
     bindR (mapR (\<lambda>i. if i < length types then Inr (types ! i) else Inl (Undefined ''combined_types[idx]'')) gis) (\<lambda>ts.
     bindR (foldR (\<lambda>specs it. collect_aggs names types specs (item_expr it)) [] (items stmt)) (\<lambda>specs1.
     bindR (case having stmt of None \<Rightarrow> Inr specs1 | Some h \<Rightarrow> collect_aggs names types specs1 h) (\<lambda>specs.
       Inr (gis, ts, specs)))))"

text \<open>The columns of the groups.\<close>

definition group_names :: "select \<Rightarrow> AggSpec list \<Rightarrow> string list" where
  "group_names stmt specs = map snd (group_by stmt) @ map output_name specs"

definition group_types :: "ColumnType list \<Rightarrow> AggSpec list \<Rightarrow> ColumnType list" where
  "group_types ts specs = ts @ map output_type specs"

text \<open>From the groups to the result: \<open>HAVING\<close>, the selected columns, then sorting by an output column and the limit.\<close>

definition finish_groups :: "select \<Rightarrow> string list \<Rightarrow> ColumnType list \<Rightarrow> Value list list \<Rightarrow> (string list \<times> Value list list) result" where
  "finish_groups stmt names types groups =
     bindR (mapR (agg_item names) (items stmt)) (\<lambda>proj.
       let res = map (pick (map fst proj)) (where_rows names types (having stmt) groups) in
       bindR (case order_by_clause stmt of
                None \<Rightarrow> Inr res
              | Some ob \<Rightarrow> bindR (Resolve (map snd proj) [] (ob_output_name ob)) (\<lambda>i. Inr (order_rows (descending ob) i res))) (\<lambda>rs.
         Inr (map snd proj, case limit_clause stmt of None \<Rightarrow> rs | Some n \<Rightarrow> take n rs)))"

section \<open>Aggregates over some columns of a table\<close>

definition spec_cols :: "(nat \<Rightarrow> nat) \<Rightarrow> AggSpec \<Rightarrow> AggSpec" where
  "spec_cols f spec = spec\<lparr>input_expr := map_option (map_cols f) (input_expr spec)\<rparr>"

lemma spec_cols_simps [simp]: "agg_kind (spec_cols f s) = agg_kind s" "input_expr (spec_cols f s) = map_option (map_cols f) (input_expr s)"
  "input_type (spec_cols f s) = input_type s" "output_type (spec_cols f s) = output_type s" "output_name (spec_cols f s) = output_name s"
  by (simp_all add: spec_cols_def)

definition spec_bound :: "nat \<Rightarrow> AggSpec \<Rightarrow> bool" where
  "spec_bound n spec \<longleftrightarrow> pred_option (bound_ok n) (input_expr spec)"

lemma InferBoundType_map_cols [simp]: "InferBoundType (map_cols f b) = InferBoundType b"
  by (induction b) auto

lemma arg_of_cols:
  assumes "spec_bound (length cols) spec" and "\<forall>k \<in> set cols. k < length r"
  shows "arg_of (spec_cols ((!) cols) spec) r = arg_of spec (pick cols r)"
  using assms eval_map_cols [of cols _ r] by (cases "input_expr spec") (simp_all add: arg_of_def spec_bound_def)

lemma arg_values_cols:
  assumes "spec_bound (length cols) spec" and "\<forall>r \<in> set tab. \<forall>k \<in> set cols. k < length r"
  shows "arg_values (spec_cols ((!) cols) spec) tab = arg_values spec (map (pick cols) tab)"
proof -
  have "map (arg_of (spec_cols ((!) cols) spec)) tab = map (arg_of spec) (map (pick cols) tab)"
    using arg_of_cols assms by simp
  then show ?thesis unfolding arg_values_def by (simp only:)
qed

lemma agg_value_cols:
  assumes "spec_bound (length cols) spec" and "\<forall>r \<in> set tab. \<forall>k \<in> set cols. k < length r"
  shows "agg_value (spec_cols ((!) cols) spec) tab = agg_value spec (map (pick cols) tab)"
  using arg_values_cols [OF assms] by (simp add: agg_value_def Let_def split: AggKind.split)

lemma spec_ok_cols:
  assumes "spec_bound (length cols) spec" and "\<forall>r \<in> set tab. \<forall>k \<in> set cols. k < length r"
  shows "spec_ok (spec_cols ((!) cols) spec) tab = spec_ok spec (map (pick cols) tab)"
  using arg_values_cols [OF assms] assms eval_map_cols [of cols _] by (auto simp: spec_ok_def spec_bound_def)

lemma row_key_cols:
  assumes "\<forall>g \<in> set gis. g < length cols"
  shows "row_key (map ((!) cols) gis) r = row_key gis (pick cols r)"
  using assms by (simp add: row_key_def)

lemma agg_rows_cols:
  assumes "\<forall>g \<in> set gis. g < length cols" and "\<forall>spec \<in> set specs. spec_bound (length cols) spec" and "\<forall>r \<in> set tab. \<forall>k \<in> set cols. k < length r"
  shows "agg_rows (map ((!) cols) gis) (map (spec_cols ((!) cols)) specs) tab = agg_rows gis specs (map (pick cols) tab)"
proof -
  have key: "row_key (map ((!) cols) gis) = (\<lambda>r. row_key gis (pick cols r))" using row_key_cols [OF assms(1)] by blast
  have "agg_row (map ((!) cols) gis) (map (spec_cols ((!) cols)) specs) tab k = agg_row gis specs (map (pick cols) tab) k" for k
    using assms(2,3) by (simp add: agg_row_def key filter_map comp_def agg_value_cols)
  then have row: "agg_row (map ((!) cols) gis) (map (spec_cols ((!) cols)) specs) tab = agg_row gis specs (map (pick cols) tab)" by blast
  have keys: "map (row_key (map ((!) cols) gis)) tab = map (row_key gis) (map (pick cols) tab)" by (simp add: key)
  show ?thesis unfolding agg_rows_def row keys map_is_Nil_conv ..
qed

lemma agg_ok_cols:
  assumes "\<forall>g \<in> set gis. g < length cols" and "\<forall>spec \<in> set specs. spec_bound (length cols) spec" and "\<forall>r \<in> set tab. \<forall>k \<in> set cols. k < length r"
  shows "agg_ok (map (spec_cols ((!) cols)) specs) (row_key (map ((!) cols) gis)) tab = agg_ok specs (row_key gis) (map (pick cols) tab)"
proof -
  have key: "row_key (map ((!) cols) gis) = (\<lambda>r. row_key gis (pick cols r))" using row_key_cols [OF assms(1)] by blast
  show ?thesis using spec_ok_cols [OF _ assms(3)] assms(2) by (simp add: agg_ok_def key image_image)
qed

section \<open>The planner's aggregates\<close>

lemma agg_spec_subset:
  assumes "distinct cols" "\<forall>k \<in> set cols. k < length names" "length types = length names" "\<forall>c \<in> opt_refs arg. clear names c"
    and "agg_spec (map ((!) names) cols) (map ((!) types) cols) k arg = Inr s"
  shows "agg_spec names types k arg = Inr (spec_cols ((!) cols) s) \<and> spec_bound (length cols) s"
proof (cases "k = kCountStar")
  case True
  then show ?thesis using assms(5) by (auto simp: agg_spec_def spec_cols_def spec_bound_def)
next
  case False
  then obtain e b where e: "arg = Some e" "Bind (map ((!) names) cols) (map ((!) types) cols) e = Inr b" and
    s: "s = \<lparr>agg_kind = k, input_expr = Some b, input_type = InferBoundType b,
          output_type = (case k of kSum \<Rightarrow> if InferBoundType b = kFloat then kFloat else kBigInt | kAvg \<Rightarrow> kFloat
            | kMin \<Rightarrow> InferBoundType b | kMax \<Rightarrow> InferBoundType b | _ \<Rightarrow> kBigInt),
          output_name = AggName k arg\<rparr>"
    using assms(5) by (auto simp: agg_spec_def PlanFail_def Let_def split: option.splits)
  have "bound_ok (length cols) b" using Bind_bound [OF e(2)] by simp
  moreover have "\<forall>c \<in> expr_refs e. clear names c" using assms(4) e(1) by (simp add: opt_refs_def)
  ultimately show ?thesis using Bind_subset [OF assms(1-3) e(2)] False e(1)
    by (simp add: agg_spec_def s spec_cols_def spec_bound_def Let_def split: AggKind.split)
qed

lemma add_agg_subset:
  assumes "distinct cols" "\<forall>k \<in> set cols. k < length names" "length types = length names" "\<forall>c \<in> opt_refs arg. clear names c"
    and "add_agg (map ((!) names) cols) (map ((!) types) cols) specs k arg = Inr specs'" and "\<forall>s \<in> set specs. spec_bound (length cols) s"
  shows "add_agg names types (map (spec_cols ((!) cols)) specs) k arg = Inr (map (spec_cols ((!) cols)) specs') \<and> (\<forall>s \<in> set specs'. spec_bound (length cols) s)"
  using assms(5,6) agg_spec_subset [OF assms(1-4)] by (auto simp: add_agg_def comp_def split: if_splits)

lemma collect_aggs_subset:
  assumes "distinct cols" "\<forall>k \<in> set cols. k < length names" "length types = length names"
  shows "collect_aggs (map ((!) names) cols) (map ((!) types) cols) specs e = Inr specs' \<Longrightarrow> \<forall>c \<in> expr_refs e. clear names c \<Longrightarrow> \<forall>s \<in> set specs. spec_bound (length cols) s \<Longrightarrow>
    collect_aggs names types (map (spec_cols ((!) cols)) specs) e = Inr (map (spec_cols ((!) cols)) specs') \<and> (\<forall>s \<in> set specs'. spec_bound (length cols) s)"
proof (induction e arbitrary: specs specs')
  case (BinaryExpr p l r)
  obtain s1 where s1: "collect_aggs (map ((!) names) cols) (map ((!) types) cols) specs l = Inr s1"
    "collect_aggs (map ((!) names) cols) (map ((!) types) cols) s1 r = Inr specs'" using BinaryExpr.prems(1) by auto
  from BinaryExpr.IH(1) [OF s1(1) _ BinaryExpr.prems(3)] BinaryExpr.IH(2) [OF s1(2)] BinaryExpr.prems(2) show ?case by simp
next
  case (NotExpr e)
  then show ?case by simp
next
  case (AggregateExpr k a)
  then show ?case using add_agg_subset [OF assms, of a specs k specs'] by (simp add: opt_refs_def)
qed auto

lemma grouping_subset:
  assumes c: "clear_refs names stmt" "distinct cols" "\<forall>k \<in> set cols. k < length names" "length types = length names"
    and g: "grouping (map ((!) names) cols) (map ((!) types) cols) stmt = Inr (gis, ts, specs)"
  shows "grouping names types stmt = Inr (map ((!) cols) gis, ts, map (spec_cols ((!) cols)) specs) \<and>
    (\<forall>g \<in> set gis. g < length cols) \<and> length ts = length gis \<and> (\<forall>s \<in> set specs. spec_bound (length cols) s)"
proof -
  let ?n = "map ((!) names) cols" and ?t = "map ((!) types) cols"
  obtain specs1 where g: "mapR (\<lambda>g. Resolve ?n (fst g) (snd g)) (group_by stmt) = Inr gis"
    "mapR (\<lambda>i. if i < length ?t then Inr (?t ! i) else Inl (Undefined ''combined_types[idx]'')) gis = Inr ts"
    "foldR (\<lambda>specs it. collect_aggs ?n ?t specs (item_expr it)) [] (items stmt) = Inr specs1"
    "(case having stmt of None \<Rightarrow> Inr specs1 | Some h \<Rightarrow> collect_aggs ?n ?t specs1 h) = Inr specs"
    using g unfolding grouping_def bindR_Inr_iff by auto
  have cl: "\<forall>g \<in> set (group_by stmt). clear names g" "\<forall>it \<in> set (items stmt). \<forall>c \<in> expr_refs (item_expr it). clear names c"
    "\<forall>c \<in> opt_refs (having stmt). clear names c" using c(1) by (auto simp: clear_refs_def stmt_refs_def)
  have 1: "mapR (\<lambda>g. Resolve ?n (fst g) (snd g)) gs = Inr is \<Longrightarrow> \<forall>g \<in> set gs. clear names g \<Longrightarrow>
    mapR (\<lambda>g. Resolve names (fst g) (snd g)) gs = Inr (map ((!) cols) is) \<and> (\<forall>i \<in> set is. i < length cols)" for gs "is"
  proof (induction gs arbitrary: "is")
    case (Cons g gs)
    obtain i js where i: "Resolve ?n (fst g) (snd g) = Inr i" "mapR (\<lambda>g. Resolve ?n (fst g) (snd g)) gs = Inr js" "is = i # js" using Cons.prems(1) by auto
    have "clear names (fst g, snd g)" using Cons.prems(2) by simp
    then show ?case using Resolve_subset [OF _ c(2,3) i(1)] Resolve_bound [OF i(1)] Cons.IH [OF i(2)] Cons.prems(2) i(3) by simp
  qed simp
  have 2: "mapR (\<lambda>i. if i < length ?t then Inr (?t ! i) else Inl (Undefined ''combined_types[idx]'')) is = Inr js \<Longrightarrow>
    mapR (\<lambda>i. if i < length types then Inr (types ! i) else Inl (Undefined ''combined_types[idx]'')) (map ((!) cols) is) = Inr js" for "is" js
    by (induction "is" arbitrary: js) (use c(3,4) in \<open>auto split: if_splits\<close>)
  have 3: "foldR (\<lambda>specs it. collect_aggs ?n ?t specs (item_expr it)) s xs = Inr s' \<Longrightarrow> \<forall>it \<in> set xs. \<forall>c \<in> expr_refs (item_expr it). clear names c \<Longrightarrow> \<forall>s \<in> set s. spec_bound (length cols) s \<Longrightarrow>
    foldR (\<lambda>specs it. collect_aggs names types specs (item_expr it)) (map (spec_cols ((!) cols)) s) xs = Inr (map (spec_cols ((!) cols)) s') \<and>
    (\<forall>s \<in> set s'. spec_bound (length cols) s)" for s xs s'
  proof (induction xs arbitrary: s)
    case (Cons x xs)
    obtain s1 where s1: "collect_aggs ?n ?t s (item_expr x) = Inr s1" "foldR (\<lambda>specs it. collect_aggs ?n ?t specs (item_expr it)) s1 xs = Inr s'"
      using Cons.prems(1) by auto
    from collect_aggs_subset [OF c(2-4) s1(1) _ Cons.prems(3)] Cons.IH [OF s1(2)] Cons.prems(2) show ?case by simp
  qed simp
  have s1: "foldR (\<lambda>specs it. collect_aggs names types specs (item_expr it)) [] (items stmt) = Inr (map (spec_cols ((!) cols)) specs1)"
    "\<forall>s \<in> set specs1. spec_bound (length cols) s" using 3 [OF g(3) cl(2)] by simp_all
  have "(case having stmt of None \<Rightarrow> Inr (map (spec_cols ((!) cols)) specs1) | Some h \<Rightarrow> collect_aggs names types (map (spec_cols ((!) cols)) specs1) h) =
    Inr (map (spec_cols ((!) cols)) specs) \<and> (\<forall>s \<in> set specs. spec_bound (length cols) s)"
    using g(4) s1(2) collect_aggs_subset [OF c(2-4), of specs1] cl(3) by (cases "having stmt") (auto simp: opt_refs_def)
  then show ?thesis using 1 [OF g(1) cl(1)] 2 [OF g(2)] s1(1) mapR_length [OF g(2)] by (simp add: grouping_def)
qed

section \<open>The plan above the groups\<close>

lemma where_ok_mset:
  assumes "where_ok names types w tab" and "mset out = mset tab"
  shows "where_ok names types w out"
proof -
  have "set out = set tab" using assms(2) by (rule mset_eq_setD)
  then show ?thesis using assms(1) fast_safe_mono [of _ types tab out] by (auto simp: where_ok_def)
qed

lemma runs_having:
  assumes run: "runs scans work bp root tab" and types: "plan_types root = types" and ok: "where_ok names types h tab"
    and plan: "(case h of None \<Rightarrow> Inr root | Some e \<Rightarrow> bindR (Bind names types e) (\<lambda>p. Inr (FilterP root p))) = Inr root1"
  shows "runs scans work bp root1 (where_rows names types h tab) \<and> plan_types root1 = types"
proof (cases h)
  case None
  then show ?thesis using run types plan by (simp add: where_rows_def)
next
  case (Some e)
  then obtain b where b: "Bind names types e = Inr b" "root1 = FilterP root b" using plan by auto
  then show ?thesis using runs_filter [OF run, of b] ok types Some by (simp add: where_ok_def where_rows_def)
qed

lemma finish_plan:
  assumes run: "runs scans work bp root groups" and types: "plan_types root = types" and ok: "where_ok names types (having stmt) groups"
    and having: "(case having stmt of None \<Rightarrow> Inr root | Some e \<Rightarrow> bindR (Bind names types e) (\<lambda>p. Inr (FilterP root p))) = Inr root1"
    and proj: "mapR (agg_item names) (items stmt) = Inr proj" "project root1 (map fst proj) (map snd proj) = Inr p1"
    and order: "(case order_by_clause stmt of None \<Rightarrow> Inr p1 | Some ob \<Rightarrow> bindR (Resolve (plan_names p1) [] (ob_output_name ob)) (\<lambda>i. Inr (OrderByP p1 i (descending ob)))) = Inr p2"
    and fit: "rows_fit types groups" and nan: "order_by_clause stmt \<noteq> None \<Longrightarrow> \<forall>r \<in> set groups. \<forall>v \<in> set r. \<not> is_nan_value v"
    and p: "p = (case limit_clause stmt of None \<Rightarrow> p2 | Some n \<Rightarrow> LimitP p2 n)"
  shows "\<exists>out. finish_groups stmt names types groups = Inr (plan_names p, out) \<and> runs scans work bp p out"
proof -
  note h = runs_having [OF run types ok having]
  let ?srcs = "map fst proj" and ?h = "where_rows names types (having stmt) groups"
  let ?res = "map (pick ?srcs) ?h"
  have srcs: "\<forall>s \<in> set ?srcs. s < length types" and p1: "p1 = ProjectionP root1 ?srcs (map snd proj)" using proj(2) h by (auto simp: project_ok)
  have run1: "runs scans work bp p1 ?res" unfolding p1 by (rule runs_projection) (use h srcs in auto)
  have "\<exists>rs. (case order_by_clause stmt of None \<Rightarrow> Inr ?res
      | Some ob \<Rightarrow> bindR (Resolve (map snd proj) [] (ob_output_name ob)) (\<lambda>i. Inr (order_rows (descending ob) i ?res))) = Inr rs \<and>
    runs scans work bp p2 rs \<and> plan_names p2 = map snd proj"
  proof (cases "order_by_clause stmt")
    case None
    then have "p2 = p1" using order by simp
    then show ?thesis using None run1 by (simp add: p1)
  next
    case (Some ob)
    obtain i where i: "Resolve (map snd proj) [] (ob_output_name ob) = Inr i" "p2 = OrderByP p1 i (descending ob)" using order Some p1 by auto
    have il: "i < length ?srcs" using Resolve_bound [OF i(1)] by simp
    obtain P where P: "?h = filter P groups" using where_rows_filter by blast
    have "rows_fit (map ((!) types) ?srcs) ?res" unfolding P by (rule rows_fit_pick [OF fit srcs])
    then have f: "rows_fit (plan_types p1) ?res" using h p1 by simp
    have "\<not> is_nan_value (r ! i)" if r: "r \<in> set ?res" for r
    proof -
      obtain g where g: "g \<in> set groups" "r = pick ?srcs g" using r P by auto
      have "length g = length types" using fit g(1) by (auto simp: rows_fit_def list_all2_lengthD)
      then have "?srcs ! i < length g" using srcs il by (metis nth_mem)
      then show ?thesis using nan Some g il by simp
    qed
    then have "runs scans work bp p2 (order_rows (descending ob) i ?res)"
      unfolding i(2) order_rows_def by (intro runs_order_by [OF run1 f]) (use il p1 in simp_all)
    then show ?thesis using Some i p1 by simp
  qed
  then obtain rs where rs: "(case order_by_clause stmt of None \<Rightarrow> Inr ?res
      | Some ob \<Rightarrow> bindR (Resolve (map snd proj) [] (ob_output_name ob)) (\<lambda>i. Inr (order_rows (descending ob) i ?res))) = Inr rs"
    "runs scans work bp p2 rs" "plan_names p2 = map snd proj" by blast
  have "runs scans work bp p (case limit_clause stmt of None \<Rightarrow> rs | Some n \<Rightarrow> take n rs)" "plan_names p = map snd proj"
    using rs(2,3) runs_limit [OF rs(2)] p by (simp_all split: option.splits)
  then show ?thesis unfolding finish_groups_def proj(1) bindR_simps Let_def rs(1) by simp
qed

section \<open>Aggregate queries over one table\<close>

definition groups_ok :: "string list \<Rightarrow> ColumnType list \<Rightarrow> select \<Rightarrow> Value list list \<Rightarrow> bool" where
  "groups_ok names types stmt krows \<longleftrightarrow>
     (\<forall>gis ts specs. grouping names types stmt = Inr (gis, ts, specs) \<longrightarrow>
        (let groups = agg_rows gis specs krows in
         agg_ok specs (row_key gis) krows \<and> rows_fit (group_types ts specs) groups \<and>
         where_ok (group_names stmt specs) (group_types ts specs) (having stmt) groups \<and>
         (order_by_clause stmt \<noteq> None \<longrightarrow> (\<forall>r \<in> set groups. \<forall>v \<in> set r. \<not> is_nan_value v))))"

text \<open>What a query with aggregates may return, under the headers \<open>hdr\<close>, for the rows \<open>krows\<close> kept by \<open>WHERE\<close>.\<close>

definition group_result :: "string list \<Rightarrow> ColumnType list \<Rightarrow> select \<Rightarrow> Value list list \<Rightarrow> string list \<Rightarrow> Value list list \<Rightarrow> bool" where
  "group_result names types stmt krows hdr out \<longleftrightarrow>
     (\<exists>gis ts specs groups. grouping names types stmt = Inr (gis, ts, specs) \<and> mset groups = mset (agg_rows gis specs krows) \<and>
        finish_groups stmt (group_names stmt specs) (group_types ts specs) groups = Inr (hdr, out))"

lemma grouped_query:
  fixes names :: "string list" and types :: "ColumnType list"
  assumes plan: "aggregate_plan stmt (map ((!) names) cols) (map ((!) types) cols) root = Inr p1"
    and order: "(case order_by_clause stmt of None \<Rightarrow> Inr p1 | Some ob \<Rightarrow> bindR (Resolve (plan_names p1) [] (ob_output_name ob)) (\<lambda>i. Inr (OrderByP p1 i (descending ob)))) = Inr p2"
    and p: "p = (case limit_clause stmt of None \<Rightarrow> p2 | Some k \<Rightarrow> LimitP p2 k)"
    and run: "runs scans work bp root (map (pick cols) krows)" and fit: "\<forall>r \<in> set krows. length r = length names"
    and names: "clear_refs names stmt" "length types = length names" and cols: "distinct cols" "\<forall>k \<in> set cols. k < length names"
    and types: "plan_types root = map ((!) types) cols" and work: "valid_schedule work" and ok: "groups_ok names types stmt krows"
  shows "\<exists>out. group_result names types stmt krows (plan_names p) out \<and> runs scans work bp p out"
proof -
  obtain gis ts specs root1 proj where g: "grouping (map ((!) names) cols) (map ((!) types) cols) stmt = Inr (gis, ts, specs)"
    "(case having stmt of None \<Rightarrow> Inr (AggregateP root gis (map snd (group_by stmt)) ts specs)
      | Some h \<Rightarrow> bindR (Bind (group_names stmt specs) (group_types ts specs) h) (\<lambda>p. Inr (FilterP (AggregateP root gis (map snd (group_by stmt)) ts specs) p))) = Inr root1"
    "mapR (agg_item (group_names stmt specs)) (items stmt) = Inr proj" "project root1 (map fst proj) (map snd proj) = Inr p1"
    using plan unfolding aggregate_plan_def grouping_def group_names_def group_types_def Let_def bindR_Inr_iff by auto
  let ?gis = "map ((!) cols) gis" and ?specs = "map (spec_cols ((!) cols)) specs"
  from grouping_subset [OF names(1) cols names(2) g(1)]
  have gs: "grouping names types stmt = Inr (?gis, ts, ?specs)" "\<forall>g \<in> set gis. g < length cols" "length ts = length gis"
    "\<forall>s \<in> set specs. spec_bound (length cols) s" by simp_all
  have eqs: "group_names stmt ?specs = group_names stmt specs" "group_types ts ?specs = group_types ts specs"
    by (simp_all add: group_names_def group_types_def comp_def)
  have krows: "\<forall>r \<in> set krows. \<forall>k \<in> set cols. k < length r" using fit cols(2) by simp
  let ?groups = "agg_rows ?gis ?specs krows"
  have eq: "?groups = agg_rows gis specs (map (pick cols) krows)" by (rule agg_rows_cols [OF gs(2,4) krows])
  have o: "agg_ok specs (row_key gis) (map (pick cols) krows)" "rows_fit (group_types ts specs) ?groups"
    "where_ok (group_names stmt specs) (group_types ts specs) (having stmt) ?groups"
    "order_by_clause stmt \<noteq> None \<Longrightarrow> \<forall>r \<in> set ?groups. \<forall>v \<in> set r. \<not> is_nan_value v"
    using ok gs(1) agg_ok_cols [OF gs(2,4) krows] by (simp_all add: groups_ok_def Let_def eqs)
  have tk: "take (length gis) ts = ts" using gs(3) by simp
  have gl: "\<forall>g \<in> set gis. g < length (plan_types root)" using gs(2) types by simp
  from runs_aggregate [OF run gl work o(1), of ts "map snd (group_by stmt)"] o(2) eq
  obtain groups where gr: "runs scans work bp (AggregateP root gis (map snd (group_by stmt)) ts specs) groups" "mset groups = mset ?groups"
    unfolding tk group_types_def by auto
  have "set groups = set ?groups" using gr(2) by (rule mset_eq_setD)
  moreover have "rows_fit (group_types ts specs) groups" using rows_fit_subset [OF o(2)] gr(2) by simp
  moreover have "plan_types (AggregateP root gis (map snd (group_by stmt)) ts specs) = group_types ts specs" by (simp add: group_types_def tk)
  ultimately obtain out where "finish_groups stmt (group_names stmt specs) (group_types ts specs) groups = Inr (plan_names p, out)" "runs scans work bp p out"
    using finish_plan [OF gr(1) _ where_ok_mset [OF o(3) gr(2)] g(2-4) order _ _ p] o(4) by auto
  then show ?thesis unfolding group_result_def using gs(1) gr(2) eqs by metis
qed

lemma PlanSelect_grouped:
  assumes plan: "PlanSelect stmt catalog = Inr p" and one: "select.tables stmt = [tr]" "aggregated stmt"
    and tbl: "GetTable catalog (tr_name tr) = Some tbl" and a: "a = (if tr_alias tr = [] then tr_name tr else tr_alias tr)"
    and store: "stream_ready bp" "table_at bp tbl vals n" and fair: "\<And>c. scan_table c = tbl \<Longrightarrow> fair c n (scans c)"
    and work: "valid_schedule work" and s: "schema_named (tm_schema tbl)"
    and w: "where_ok (table_names a (tm_schema tbl)) (Types (tm_schema tbl)) (where_clause stmt) (table_rows tbl vals n)"
    and krows: "krows = where_rows (table_names a (tm_schema tbl)) (Types (tm_schema tbl)) (where_clause stmt) (table_rows tbl vals n)"
    and ok: "groups_ok (table_names a (tm_schema tbl)) (Types (tm_schema tbl)) stmt krows"
  shows "\<exists>out. group_result (table_names a (tm_schema tbl)) (Types (tm_schema tbl)) stmt krows (plan_names p) out \<and> runs scans work bp p out"
proof -
  let ?full = "table_names a (tm_schema tbl)" and ?ft = "Types (tm_schema tbl)"
  obtain needed names types root p1 p2 where b: "bottom_plan stmt [(tbl, a)] needed = Inr (names, types, root)"
    "aggregate_plan stmt names types root = Inr p1"
    "(case order_by_clause stmt of None \<Rightarrow> Inr p1 | Some ob \<Rightarrow> bindR (Resolve (plan_names p1) [] (ob_output_name ob)) (\<lambda>i. Inr (OrderByP p1 i (descending ob)))) = Inr p2"
    "p = (case limit_clause stmt of None \<Rightarrow> p2 | Some k \<Rightarrow> LimitP p2 k)"
    using plan one tbl by (auto simp: PlanSelect_def resolve_table_def a cong: if_cong)
  from bottom_single [OF b(1) s store fair w, of work] obtain cols where c: "distinct cols" "\<forall>k \<in> set cols. k < length ?full"
    "names = map ((!) ?full) cols" "types = map ((!) ?ft) cols" "plan_types root = map ((!) ?ft) cols" "runs scans work bp root (map (pick cols) krows)"
    unfolding krows by auto
  obtain P where P: "krows = filter P (table_rows tbl vals n)" unfolding krows using where_rows_filter by blast
  have fit: "\<forall>r \<in> set krows. length r = length ?full" using list_all2_lengthD [OF table_rows_fit [OF store(2)]] by (auto simp: Types_def P)
  have "length ?ft = length ?full" by (simp add: Types_def)
  then show ?thesis using grouped_query [OF b(2) [unfolded c(3,4)] b(3,4) c(6) fit clear_refs_distinct [OF table_names_distinct [OF s]] _ c(1,2,5) work ok] by blast
qed

section \<open>An example\<close>

text \<open>\<open>SELECT SUM(a) AS s FROM t WHERE a >= 4 HAVING COUNT(*) > 1\<close>.\<close>

definition sample_groups :: select where
  "sample_groups = \<lparr>select_star = False, items = [\<lparr>item_expr = AggregateExpr kSum (Some (ColumnRefExpr ([], ''a''))), output_alias = ''s''\<rparr>],
     tables = [\<lparr>tr_name = ''t'', tr_alias = []\<rparr>],
     where_clause = Some (BinaryExpr BinOp.kGe (ColumnRefExpr ([], ''a'')) (LiteralExpr (Int32 4))), group_by = [],
     having = Some (BinaryExpr BinOp.kGt (AggregateExpr kCountStar None) (LiteralExpr (Int32 1))), order_by_clause = None, limit_clause = None\<rparr>"

definition sample_specs :: "AggSpec list" where
  "sample_specs = [\<lparr>agg_kind = kSum, input_expr = Some (ColumnE 0 kInt), input_type = kInt, output_type = kBigInt, output_name = ''SUM(a)''\<rparr>,
     \<lparr>agg_kind = kCountStar, input_expr = None, input_type = kInt, output_type = kBigInt, output_name = ''COUNT(*)''\<rparr>]"

lemma sample_grouping: "grouping [''t.a''] [kInt] sample_groups = Inr ([], [], sample_specs)"
  by (simp add: grouping_def sample_groups_def sample_specs_def add_agg_def agg_spec_def bind_name_def Resolve_def EndsWith_def arg_string_def Let_def)

lemma sample_groups_plan: "\<exists>p. PlanSelect sample_groups \<lparr>Catalog.tables = [(''t'', sample_table pid)]\<rparr> = Inr p \<and> plan_names p = [''s'']"
  by (simp add: Let_def PlanFail_def PlanSelect_def sample_groups_def sample_table_def resolve_table_def GetTable_def aggregated_def HasAggregates_def
    needed_columns_def add_ref_def owning_alias_def FindColumn_def walk_opt_def bottom_plan_def scan_columns_def GetColumn_def
    ColumnScan_def pushdown_of_def int_literal_def zone_bounds_def where_plan_def bind_conjuncts_def bind_name_def Resolve_def EndsWith_def
    aggregate_plan_def add_agg_def agg_spec_def arg_string_def agg_item_def item_name_def project_def SetZoneFilter_def)

lemma sample_groups_rows: "where_rows [''t.a''] [kInt] (where_clause sample_groups) [[Int32 4], [Null], [Int32 9]] = [[Int32 4], [Int32 9]]"
  using sample_bind
  by (auto simp: sample_groups_def where_rows_def keep_def eval_row_def is_arith_def CompareResult_def IsNull_def CompareValues_ints order_int_def truth_def)

lemma sample_agg_rows: "agg_rows [] sample_specs [[Int32 4], [Int32 9]] = [[Int64 13, Int64 2]]"
  by (simp add: agg_rows_def agg_row_def sample_specs_def row_key_def agg_value_def arg_values_def arg_of_def eval_row_def int_val_def)

lemma sample_having:
  "group_names sample_groups sample_specs = [''SUM(a)'', ''COUNT(*)'']" "group_types [] sample_specs = [kBigInt, kBigInt]"
  "Bind [''SUM(a)'', ''COUNT(*)''] [kBigInt, kBigInt] (BinaryExpr BinOp.kGt (AggregateExpr kCountStar None) (LiteralExpr (Int32 1))) =
    Inr (BinaryE BoundOp.kGt (ColumnE 1 kBigInt) (LiteralE (Int32 1)))"
  by (simp_all add: group_names_def group_types_def sample_groups_def sample_specs_def bind_name_def Resolve_def EndsWith_def)

lemma sample_groups_ok: "groups_ok [''t.a''] [kInt] sample_groups [[Int32 4], [Int32 9]]"
proof -
  have "agg_ok sample_specs (row_key []) [[Int32 4], [Int32 9]]"
    by (auto simp: agg_ok_def spec_ok_def sample_specs_def row_key_def eval_row_def arg_values_def arg_of_def int_val_def)
  moreover have "rows_fit [kBigInt, kBigInt] [[Int64 13, Int64 2]]" by (auto simp: rows_fit_def strs_def less_Suc_eq)
  moreover have "where_ok [''SUM(a)'', ''COUNT(*)''] [kBigInt, kBigInt] (having sample_groups) [[Int64 13, Int64 2]]"
    using sample_having(3) by (auto simp: where_ok_def sample_groups_def eval_row_def is_arith_def CompareResult_def is_compare_def IsNull_def CompareValues_ints)
  ultimately show ?thesis by (simp add: groups_ok_def sample_grouping sample_agg_rows sample_having(1,2))
qed

lemma sample_group_result: "group_result [''t.a''] [kInt] sample_groups [[Int32 4], [Int32 9]] hdr out \<Longrightarrow> out = [[Int64 13]]"
proof -
  assume "group_result [''t.a''] [kInt] sample_groups [[Int32 4], [Int32 9]] hdr out"
  then have "finish_groups sample_groups [''SUM(a)'', ''COUNT(*)''] [kBigInt, kBigInt] [[Int64 13, Int64 2]] = Inr (hdr, out)"
    by (auto simp: group_result_def sample_grouping sample_agg_rows sample_having(1,2))
  moreover have "where_rows [''SUM(a)'', ''COUNT(*)''] [kBigInt, kBigInt] (having sample_groups) [[Int64 13, Int64 2]] = [[Int64 13, Int64 2]]"
    using sample_having(3)
    by (auto simp: sample_groups_def where_rows_def keep_def eval_row_def is_arith_def CompareResult_def IsNull_def CompareValues_ints order_int_def truth_def)
  moreover have "mapR (agg_item [''SUM(a)'', ''COUNT(*)'']) (items sample_groups) = Inr [(0, ''s'')]"
    by (simp add: sample_groups_def agg_item_def Resolve_def EndsWith_def arg_string_def item_name_def)
  moreover have "order_by_clause sample_groups = None" "limit_clause sample_groups = None" by (simp_all add: sample_groups_def)
  ultimately show ?thesis by (simp add: finish_groups_def)
qed

end
