(* ===== verification/Database_Queries.thy ===== *)
theory Database_Queries
  imports Database_Updates Query_State Group_Queries
begin

text \<open>
  \<open>SELECT\<close> on a database: what it does to the contents of the database, and what it returns.
  With the other statements, closing and opening, these are the steps of a session.
\<close>

section \<open>Reading through the pool\<close>

text \<open>Readers bring pages of column data into the cache and nothing else, so the pages of the catalog stay out of it.\<close>

lemma same_pages_grown:
  assumes at: "pool_at ids bp" and s: "same_pages bp bp'"
  shows "grown ids bp bp'" "pages bp' = pages bp"
proof -
  have st: "store_inv bp'" "pages bp' = pages bp" "num_frames bp' = num_frames bp" "pins bp' = pins bp"
    "\<forall>p. unat p < pages bp \<longrightarrow> view bp' p = view bp p"
    "\<forall>p. page_table bp' p \<noteq> None \<longrightarrow> page_table bp p \<noteq> None \<or> (unat p < pages bp \<and> is_data (view bp p))"
    using s by (simp_all add: same_pages_def)
  have i: "page_table bp' i = None \<and> disk_page (disk_manager bp') i = disk_page (disk_manager bp) i" if "i \<in> set ids" for i
  proof -
    have b: "page_table bp i = None" "\<not> is_data (disk_page (disk_manager bp) i)" "unat i < pages bp"
      using at that pool_at_id [OF at that] by (simp_all add: pool_at_def)
    then have "page_table bp' i = None" using st(6) by (auto simp: view_def)
    moreover have "view bp' i = view bp i" using st(5) b(3) by blast
    ultimately show ?thesis using b(1) by (simp add: view_def)
  qed
  have "catalog_chain (disk_manager bp') ids"
    using at st(1,2) i catalog_chain_cong [of "disk_manager bp" ids "disk_manager bp'"] pool_okD(1) [of "{}" bp'] by (auto simp: pool_at_def store_inv_def)
  then show "grown ids bp bp'" using at st i by (auto simp: grown_def pool_at_def)
  show "pages bp' = pages bp" by (rule st(2))
qed

lemma pools_in_plan: "pools_in G s \<Longrightarrow> G (plan_pool s)"
  by (induction s) auto

lemma run_plan_keeps:
  assumes "run_plan scans work bp p = Some (Inr (rs, bp'))" and ready: "stream_ready bp"
    and s: "\<And>c. c \<in> set (scans_of p) \<Longrightarrow> scan_ok c \<and> (\<exists>vals n. table_at bp (scan_table c) vals n)"
  shows "same_pages bp bp'"
proof -
  let ?q = "plan_op scans work p" and ?G = "same_pages bp"
  have k: "op_keeps (pools_in ?G) ?q"
    by (rule plan_keeps) (use s scan_same_pages [OF _ ready] in blast)
  obtain s1 s2 s3 where r: "Open ?q (plan_init bp p) = Some (Inr s1)" "drain (Next ?q) s1 (Initialize (output_types ?q)) [] = Some (Inr (rs, s2))"
    "Close ?q s2 = Inr s3" "bp' = plan_pool s3"
    using assms(1) by (auto simp: run_plan_def Let_def bindO_Inr_iff bindR_Inr_iff)
  have "pools_in ?G (plan_init bp p)" using plan_init_pools [of ?G] same_pages_refl ready by blast
  then have "pools_in ?G s1" by (rule child_keeps(1) [OF k r(1)])
  then have "pools_in ?G s2" by (rule child_keeps(3) [OF k r(2)])
  then have "pools_in ?G s3" by (rule child_keeps(2) [OF k r(3)])
  then show ?thesis using pools_in_plan r(4) by blast
qed

lemma run_plan_ok:
  assumes "runs scans work bp p out"
  shows "\<exists>bp'. run_plan scans work bp p = Some (Inr (out, bp'))"
proof -
  let ?q = "plan_op scans work p"
  obtain s1 where s1: "Open ?q (plan_init bp p) = Some (Inr s1)" "yields (Next ?q) (output_types ?q) s1 out"
    using assms by (auto simp: runs_def produces_def)
  obtain s2 where s2: "drain (Next ?q) s1 (Initialize (output_types ?q)) [] = Some (Inr (out, s2))"
    using drain_ok [OF s1(2), of "Initialize (output_types ?q)" "[]"] by auto
  obtain s3 where "Close ?q s2 = Inr s3" using plan_Close by blast
  then show ?thesis using s1(1) s2 by (simp add: run_plan_def Let_def)
qed

section \<open>Queries leave the contents alone\<close>

lemma plan_scans_stored:
  assumes r: "db_rep ids db A" and un: "\<And>tr. tr \<in> set (select.tables stmt) \<Longrightarrow> A (tr_name tr) \<noteq> None \<Longrightarrow> unbuffered db (tr_name tr)"
    and p: "PlanSelect stmt (db_catalog db) = Inr p" and c: "c \<in> set (scans_of p)"
  shows "scan_ok c \<and> (\<exists>vals n. table_at (db_pool db) (scan_table c) vals n)"
proof -
  obtain tr where tr: "scan_ok c" "tr \<in> set (select.tables stmt)" "GetTable (db_catalog db) (tr_name tr) = Some (scan_table c)"
    using PlanSelect_scans [OF p c] by blast
  then obtain rs where "A (tr_name tr) = Some (tm_schema (scan_table c), rs)" "table_rep ids db (tr_name tr) (scan_table c) rs"
    using db_repD(6) [OF r tr(3)] by blast
  then have "stored ids (db_pool db) (scan_table c) rs" using unbuffered_stored [OF un [OF tr(2)]] by simp
  then obtain vals n where "table_in ids (db_pool db) (scan_table c) vals n" by (auto simp: stored_def)
  then show ?thesis using tr(1) table_in_at by blast
qed

lemma select_keeps:
  assumes r: "db_rep ids db A" and room: "flush_rooms (map tr_name (select.tables stmt)) db" and run: "select_rows scans work stmt db = Some (res, db')"
  shows "\<exists>ids'. db_rep ids' db' A"
proof -
  obtain ids1 db1 where f: "flush_tables (map tr_name (select.tables stmt)) db = Some (Inr (), db1)" "db_rep ids1 db1 A"
    "\<forall>n. unbuffered db n \<or> n \<in> set (map tr_name (select.tables stmt)) \<longrightarrow> A n \<noteq> None \<longrightarrow> unbuffered db1 n"
    using flush_tables_rep [OF r room] by blast
  have un: "\<And>tr. tr \<in> set (select.tables stmt) \<Longrightarrow> A (tr_name tr) \<noteq> None \<Longrightarrow> unbuffered db1 (tr_name tr)" using f(3) by auto
  note D = db_repD [OF f(2)]
  show ?thesis
  proof (cases "PlanSelect stmt (db_catalog db1)")
    case (Inl e)
    then have "db' = db1" using run f(1) D(1) by (simp add: select_rows_def)
    then show ?thesis using f(2) by blast
  next
    case (Inr p)
    note sel = run [unfolded select_rows_def f(1) db_then_simps Inr sum.case]
    obtain x where x: "run_plan scans work (db_pool db1) p = Some x" using sel D(1) by (cases "run_plan scans work (db_pool db1) p") simp_all
    show ?thesis
    proof (cases x)
      case (Inl e)
      then show ?thesis using sel D(1) x f(2) by auto
    next
      case (Inr y)
      obtain rs bp where y: "y = (rs, bp)" by (cases y)
      have "same_pages (db_pool db1) bp"
        by (rule run_plan_keeps [OF x [unfolded Inr y] pool_at_ready [OF D(2)]])
          (rule plan_scans_stored [OF f(2) un \<open>PlanSelect stmt (db_catalog db1) = Inr p\<close>])
      then have "db_rep ids1 (db1\<lparr>db_pool := bp\<rparr>) A" using db_rep_grown [OF f(2)] same_pages_grown(1) [OF D(2)] by blast
      then show ?thesis using sel D(1) x Inr y by auto
    qed
  qed
qed

section \<open>What a query over one table returns\<close>

text \<open>Every worker makes enough rounds for the largest row group.\<close>

definition fair_scans :: "(column_scan \<Rightarrow> nat list) \<Rightarrow> bool" where
  "fair_scans scans \<longleftrightarrow> (\<forall>c. \<forall>rg < length (row_groups (scan_table c)). kRowGroupSize div kChunkRows + 3 \<le> count_list (scans c) rg)"

text \<open>The tables of a query, stored under their catalog entries with the rows they have by the contents.\<close>

definition table_ready :: "(column_scan \<Rightarrow> nat list) \<Rightarrow> contents \<Rightarrow> Catalog \<Rightarrow> pool \<Rightarrow> string \<Rightarrow> bool" where
  "table_ready scans A catalog bp name \<longleftrightarrow> (\<exists>tbl vals n. GetTable catalog name = Some tbl \<and> A name = Some (tm_schema tbl, table_rows tbl vals n) \<and>
     table_at bp tbl vals n \<and> (\<forall>c. scan_table c = tbl \<longrightarrow> fair c n (scans c)))"

lemma stored_ready:
  assumes r: "db_rep ids db A" and un: "unbuffered db name" and t: "A name \<noteq> None" and fair: "fair_scans scans"
  shows "table_ready scans A (db_catalog db) (db_pool db) name"
proof -
  note D = db_repD [OF r]
  obtain tbl where g: "GetTable (db_catalog db) name = Some tbl" using D(5) [of name] t by auto
  obtain rs where s: "A name = Some (tm_schema tbl, rs)" "table_rep ids db name tbl rs" using D(6) [OF g] by blast
  then have "stored ids (db_pool db) tbl rs" using unbuffered_stored [OF un s(2)] by simp
  then obtain vals n where v: "table_in ids (db_pool db) tbl vals n" "rs = table_rows tbl vals n" by (auto simp: stored_def)
  have "fair c n (scans c)" if "scan_table c = tbl" for c
    unfolding fair_def
  proof (intro allI impI)
    fix rg
    assume rg: "rg < length (row_groups (scan_table c))"
    then have "n rg \<le> kRowGroupSize" using v(1) that by (simp add: table_in_def)
    then have "n rg div kChunkRows \<le> kRowGroupSize div kChunkRows" by (rule div_le_mono)
    then show "n rg div kChunkRows + 3 \<le> count_list (scans c) rg" using fair rg by (fastforce simp: fair_scans_def)
  qed
  then show ?thesis unfolding table_ready_def using g s(1) v(2) table_in_at [OF v(1)] by (intro exI [of _ tbl] exI [of _ vals] exI [of _ n]) simp
qed

text \<open>A query whose plans produce what they should returns it.\<close>

lemma select_result:
  assumes r: "db_rep ids db A" and room: "flush_rooms (map tr_name (select.tables stmt)) db" and fair: "fair_scans scans"
    and t: "\<And>tr. tr \<in> set (select.tables stmt) \<Longrightarrow> A (tr_name tr) \<noteq> None"
    and plan: "\<And>catalog p bp. PlanSelect stmt catalog = Inr p \<Longrightarrow> stream_ready bp \<Longrightarrow>
      \<forall>tr \<in> set (select.tables stmt). table_ready scans A catalog bp (tr_name tr) \<Longrightarrow> \<exists>out. Q (plan_names p) out \<and> runs scans work bp p out"
  shows "\<exists>ids1 db1. flush_tables (map tr_name (select.tables stmt)) db = Some (Inr (), db1) \<and> db_rep ids1 db1 A \<and>
    (case PlanSelect stmt (db_catalog db1) of
       Inl e \<Rightarrow> select_rows scans work stmt db = Some (Inl e, db1)
     | Inr p \<Rightarrow> \<exists>out db'. select_rows scans work stmt db = Some (Inr \<lparr>column_names = plan_names p, rs_rows = out\<rparr>, db') \<and> Q (plan_names p) out)"
proof -
  obtain ids1 db1 where f: "flush_tables (map tr_name (select.tables stmt)) db = Some (Inr (), db1)" "db_rep ids1 db1 A"
    "\<forall>n. unbuffered db n \<or> n \<in> set (map tr_name (select.tables stmt)) \<longrightarrow> A n \<noteq> None \<longrightarrow> unbuffered db1 n"
    using flush_tables_rep [OF r room] by blast
  note D = db_repD [OF f(2)]
  have ready: "\<forall>tr \<in> set (select.tables stmt). table_ready scans A (db_catalog db1) (db_pool db1) (tr_name tr)"
    using stored_ready [OF f(2) _ t fair] f(3) t by auto
  show ?thesis
  proof (cases "PlanSelect stmt (db_catalog db1)")
    case (Inl e)
    then show ?thesis using f(1,2) D(1) by (intro exI [of _ ids1] exI [of _ db1]) (simp add: select_rows_def)
  next
    case (Inr p)
    obtain out where q: "Q (plan_names p) out" "runs scans work (db_pool db1) p out" using plan [OF Inr pool_at_ready [OF D(2)] ready] by blast
    obtain bp where "run_plan scans work (db_pool db1) p = Some (Inr (out, bp))" using run_plan_ok [OF q(2)] by blast
    then have "select_rows scans work stmt db = Some (Inr \<lparr>column_names = plan_names p, rs_rows = out\<rparr>, db1\<lparr>db_pool := bp\<rparr>)"
      using f(1) D(1) Inr by (simp add: select_rows_def)
    then show ?thesis using f(1,2) Inr q(1) by (intro exI [of _ ids1] exI [of _ db1]) simp
  qed
qed

section \<open>Sessions\<close>

text \<open>
  The states a program can bring a database into, starting with a new file, and what the
  database then contains. Steps that would need more than 32 bits of page ids or of string
  lengths are left out.
\<close>

inductive session :: "db \<Rightarrow> contents \<Rightarrow> bool" where
  new_file: "session db Map.empty" if "DB_Open [] True = Some (Inr db)"
| update: "session db' A'" if "session db A" and "update_room stmt db" and "\<And>sel. stmt \<noteq> SelectStmt sel"
    and "exec scans work stmt db = Some (Inr res, db')" and "update_contents stmt A = Some A'"
| query: "session db' A" if "session db A" and "flush_rooms (map tr_name (select.tables sel)) db"
    and "exec scans work (SelectStmt sel) db = Some (res, db')"
| reopen: "session db2 A" if "session db A" and "close_room db" and "CloseDB db = Some (Inr (), db')"
    and "DB_Open (fbytes (disk_manager (db_pool db'))) True = Some (Inr db2)"

lemma session_rep: "session db A \<Longrightarrow> \<exists>ids. db_rep ids db A"
proof (induction rule: session.induct)
  case (new_file db)
  then show ?case using DB_Open_new by auto
next
  case (update db A stmt scans work res db' A')
  then obtain ids where r: "db_rep ids db A" by blast
  from update_effect [OF r update(2,3), of scans work] update(4,5) show ?case by auto
next
  case (query db A sel scans work res db')
  then show ?case using select_keeps by (auto simp: exec_def)
next
  case (reopen db A db' db2)
  then obtain ids where "db_rep ids db A" by blast
  from close_open [OF this reopen(2)] reopen(3,4) show ?case by auto
qed

text \<open>The common part of the theorems about queries in a session.\<close>

lemma session_run:
  assumes s: "session db A" and room: "flush_rooms (map tr_name (select.tables stmt)) db" and fair: "fair_scans scans"
    and t: "\<And>tr. tr \<in> set (select.tables stmt) \<Longrightarrow> A (tr_name tr) \<noteq> None"
    and plan: "\<And>catalog p bp. PlanSelect stmt catalog = Inr p \<Longrightarrow> stream_ready bp \<Longrightarrow>
      \<forall>tr \<in> set (select.tables stmt). table_ready scans A catalog bp (tr_name tr) \<Longrightarrow> \<exists>out. Q (plan_names p) out \<and> runs scans work bp p out"
  shows "\<exists>db1. flush_tables (map tr_name (select.tables stmt)) db = Some (Inr (), db1) \<and>
    (case PlanSelect stmt (db_catalog db1) of
       Inl e \<Rightarrow> exec scans work (SelectStmt stmt) db = Some (Inl e, db1)
     | Inr p \<Rightarrow> \<exists>out db'. exec scans work (SelectStmt stmt) db = Some (Inr \<lparr>column_names = plan_names p, rs_rows = out\<rparr>, db') \<and>
         Q (plan_names p) out \<and> session db' A)"
proof -
  obtain ids where r: "db_rep ids db A" using session_rep [OF s] by blast
  have "\<exists>ids1 db1. flush_tables (map tr_name (select.tables stmt)) db = Some (Inr (), db1) \<and> db_rep ids1 db1 A \<and>
    (case PlanSelect stmt (db_catalog db1) of
       Inl e \<Rightarrow> select_rows scans work stmt db = Some (Inl e, db1)
     | Inr p \<Rightarrow> \<exists>out db'. select_rows scans work stmt db = Some (Inr \<lparr>column_names = plan_names p, rs_rows = out\<rparr>, db') \<and> Q (plan_names p) out)"
    by (rule select_result [OF r room fair]) (fact t, fact plan)
  then obtain db1 where f: "flush_tables (map tr_name (select.tables stmt)) db = Some (Inr (), db1)"
    "case PlanSelect stmt (db_catalog db1) of
       Inl e \<Rightarrow> select_rows scans work stmt db = Some (Inl e, db1)
     | Inr p \<Rightarrow> \<exists>out db'. select_rows scans work stmt db = Some (Inr \<lparr>column_names = plan_names p, rs_rows = out\<rparr>, db') \<and> Q (plan_names p) out"
    by blast
  have "exec scans work (SelectStmt stmt) db = select_rows scans work stmt db" by (simp add: exec_def)
  then show ?thesis using f session.query [OF s room] by (intro exI [of _ db1]) (auto split: sum.splits)
qed

lemma flush_tables_one: "flush_tables [n] db = FlushTable n db" "flush_rooms [n] db = flush_room n db"
proof -
  show "flush_tables [n] db = FlushTable n db"
    by (cases "FlushTable n db") (auto simp: db_then_def split: sum.splits)
  show "flush_rooms [n] db = flush_room n db"
    by (auto split: option.splits sum.splits)
qed

lemma session_query:
  assumes "session db A" and "select.tables stmt = [tr]" "\<not> aggregated stmt" and "A (tr_name tr) = Some (s, rs)"
    and "a = (if tr_alias tr = [] then tr_name tr else tr_alias tr)" and "flush_room (tr_name tr) db"
    and "fair_scans scans" and "single_ok stmt s a rs"
  shows "\<exists>db1. FlushTable (tr_name tr) db = Some (Inr (), db1) \<and>
    (case PlanSelect stmt (db_catalog db1) of
       Inl e \<Rightarrow> exec scans work (SelectStmt stmt) db = Some (Inl e, db1)
     | Inr p \<Rightarrow> \<exists>out db'. exec scans work (SelectStmt stmt) db = Some (Inr \<lparr>column_names = plan_names p, rs_rows = out\<rparr>, db') \<and>
         query_rows True (table_names a s) (Types s) stmt rs = Inr (plan_names p, out) \<and> session db' A)"
proof -
  have Q: "\<exists>out. query_rows True (table_names a s) (Types s) stmt rs = Inr (plan_names p, out) \<and> runs scans work bp p out"
    if p: "PlanSelect stmt catalog = Inr p" "stream_ready bp" and ready: "\<forall>tr \<in> set (select.tables stmt). table_ready scans A catalog bp (tr_name tr)" for catalog p bp
  proof -
    obtain tbl vals n where t: "GetTable catalog (tr_name tr) = Some tbl" "s = tm_schema tbl" "rs = table_rows tbl vals n" "table_at bp tbl vals n"
      "\<And>c. scan_table c = tbl \<Longrightarrow> fair c n (scans c)"
      using ready assms(2,4) by (auto simp: table_ready_def)
    show ?thesis using PlanSelect_single [OF p(1) assms(2,3) t(1) assms(5) p(2) t(4,5)] assms(8) unfolding t(2,3) by blast
  qed
  have room: "flush_rooms (map tr_name (select.tables stmt)) db" using assms(2,6) by (simp only: list.map flush_tables_one)
  have "A (tr_name tr') \<noteq> None" if "tr' \<in> set (select.tables stmt)" for tr' using that assms(2,4) by simp
  from session_run [where Q = "\<lambda>hdr out. query_rows True (table_names a s) (Types s) stmt rs = Inr (hdr, out)", OF assms(1) room assms(7) this Q]
  show ?thesis unfolding assms(2) list.map flush_tables_one(1) by simp
qed


text \<open>A session that creates a table, inserts three rows and queries them.\<close>

definition sample_defs :: "ColumnDef list" where
  "sample_defs = [\<lparr>cd_name = ''a'', cd_type = kInt, cd_varchar_len = 0\<rparr>]"

lemma sample_catalog_room: "pages_needed (catalog_body (db_catalog (sample_db bp))) = 1"
proof -
  have "length (catalog_body (db_catalog (sample_db bp))) \<le> 4000"
    by (simp add: catalog_body_def sample_db_def sample_schema_def put_table_def Serialize_def put_column_def Let_def)
  then show ?thesis by (auto simp: pages_needed_def PayloadCapacity_def kPageSize_def kHeaderSize_def max_def)
qed

lemma sample_session:
  obtains bp where "session (sample_db bp) sample_contents" "pages bp \<le> 2"
proof -
  obtain db0 where d0: "DB_Open [] True = Some (Inr db0)" "db_rep [0] db0 Map.empty" "db_catalog db0 = empty_catalog" "pending db0 = []" "pages (db_pool db0) = 1"
    using DB_Open_new by blast
  note D = db_repD [OF d0(2)]
  define c where "c = \<lparr>Catalog.tables = [(''t'', \<lparr>tm_name = ''t'', tm_schema = sample_schema, row_groups = []\<rparr>)]\<rparr>"
  have c: "db_catalog (sample_db bp) = c" for bp by (simp add: sample_db_def c_def)
  have schema: "table_schema sample_defs = Inr sample_schema" by (simp add: table_schema_def sample_defs_def sample_schema_def Schema_eq kMaxColumnNameLen_def)
  have create: "CreateTable (db_catalog db0) ''t'' sample_schema = Inr c" by (simp add: d0(3) CreateTable_def GetTable_def empty_catalog_def c_def)
  have need: "pages_needed (catalog_body c) = 1" using sample_catalog_room by (simp add: c)
  have room: "catalog_room db0 c" using d0(5) by (simp add: catalog_room_def need)
  obtain ids d where p: "Persist c (disk_manager (db_pool db0)) = Some (Inr (), d)" "num_pages d \<le> pages (db_pool db0) + pages_needed (catalog_body c)"
    using Persist_moved [OF D(2), of c] room unfolding catalog_room_def by metis
  let ?bp = "(db_pool db0)\<lparr>disk_manager := d\<rparr>"
  let ?db1 = "(sample_db ?bp)\<lparr>pending := [(''t'', [[]])]\<rparr>"
  have "exec (\<lambda>_. []) (\<lambda>_. []) (CreateTableStmt ''t'' sample_defs) db0 = Some (Inr no_rows, ?db1)"
    using p(1) create schema D(1) d0(3,4) by (cases db0) (simp add: exec_def create_table_def PersistCatalog_def c empty_catalog_def GetTable_def NumColumns_def sample_schema_def sample_db_def, simp add: c_def sample_schema_def)
  moreover have "update_room (CreateTableStmt ''t'' sample_defs) db0" using schema create room by simp (simp add: sample_defs_def)
  ultimately have s1: "session ?db1 [''t'' \<mapsto> (sample_schema, [])]"
    using schema by (intro session.update [OF session.new_file [OF d0(1)]]) auto
  let ?ins = "InsertStmt ''t'' [[Int32 4], [Null], [Int32 9]]"
  have i: "insert_rows ''t'' [[Int32 4], [Null], [Int32 9]] ?db1 = (Inr no_rows, sample_db ?bp)"
    by (simp add: insert_rows_def sample_db_def GetTable_def NumColumns_def sample_schema_def GetColumn_def Coerce_def IsNull_def)
  have "session (sample_db ?bp) sample_contents"
  proof (rule session.update [OF s1, of ?ins])
    show "update_room ?ins ?db1" by (simp add: i) (simp add: sample_db_def)
    show "update_contents ?ins [''t'' \<mapsto> (sample_schema, [])] = Some sample_contents"
      by (simp add: coerce_row_def sample_schema_def Coerce_def IsNull_def sample_contents_def)
    show "exec (\<lambda>_. []) (\<lambda>_. []) ?ins ?db1 = Some (Inr no_rows, sample_db ?bp)" using i by (simp add: exec_def)
  qed simp
  then show thesis using that p(2) d0(5) need by simp
qed

text \<open>What flushing leaves of a table with one column and three buffered rows.\<close>

lemma flush_three:
  assumes f: "FlushTable name db = Some (Inr (), db1)" and "map_of (pending db) name = Some [vs]" "length vs = 3"
    and "GetTable (db_catalog db) name = Some m" "tm_schema m = [c]" "\<not> closed db"
  shows "\<exists>pid. AddRowGroup (db_catalog db) name \<lparr>RowGroup.num_rows = 3, column_roots = [pid]\<rparr> = Inr (db_catalog db1) \<and>
    pending db1 = update_at name (map (\<lambda>_. [])) (pending db) \<and> \<not> closed db1"
proof -
  have g: "group_starts 3 = [0]" by (simp add: group_starts_def kRowGroupSize_def)
  have keep: "db_catalog db' = db_catalog db \<and> pending db' = pending db \<and> closed db' = closed db" if "PersistCatalog db = Some (x, db')" for db db' and x :: "unit result"
    using that by (auto simp: PersistCatalog_def split: if_splits)
  have vs: "vs \<noteq> []" "take 3 vs = vs" using assms(3) by auto
  have "FlushTable name db = db_then (Some (flush_groups name [c] [vs] 3 [0] db)) (\<lambda>_ db1.
      db_then (Some (FlushPool (clear_pending name db1))) (\<lambda>_ db2. PersistCatalog db2))"
    using assms(2-6) vs by (simp add: FlushTable_def Let_def g)
  with f obtain db2 db3 x where h: "flush_groups name [c] [vs] 3 [0] db = (Inr (), db2)" "FlushPool (clear_pending name db2) = (Inr x, db3)" "PersistCatalog db3 = Some (Inr (), db1)"
    by (auto simp: db_then_def split: sum.splits prod.splits)
  have "write_columns [c] [vs] 0 3 [0] bp = (case write_column bp (col_type c) vs of (Inl e, bp1, _) \<Rightarrow> (Inl e, bp1) | (Inr pid, bp1, _) \<Rightarrow> (Inr [pid], bp1))" for bp
    using assms(3) vs(2) by (auto simp: GetColumn_def split: sum.splits prod.splits)
  then obtain pid where pid: "AddRowGroup (db_catalog db) name \<lparr>RowGroup.num_rows = 3, column_roots = [pid]\<rparr> = Inr (db_catalog db2)" "pending db2 = pending db" "closed db2 = closed db"
    using h(1) by (auto simp: NumColumns_def kRowGroupSize_def split: sum.splits prod.splits)
  moreover have "db_catalog db3 = db_catalog db2 \<and> pending db3 = update_at name (map (\<lambda>_. [])) (pending db2) \<and> closed db3 = closed db2"
    using h(2) by (auto simp: FlushPool_def clear_pending_def split: prod.splits)
  ultimately show ?thesis using keep [OF h(3)] assms(6) by auto
qed

lemma sample_flushed:
  assumes "FlushTable ''t'' (sample_db bp) = Some (Inr (), db1)"
  shows "\<exists>pid. db_catalog db1 = \<lparr>Catalog.tables = [(''t'', sample_table pid)]\<rparr>"
  using flush_three [OF assms, of "[Int32 4, Null, Int32 9]" "\<lparr>tm_name = ''t'', tm_schema = sample_schema, row_groups = []\<rparr>"]
  by (auto simp: sample_db_def sample_schema_def sample_table_def GetTable_def AddRowGroup_def dest: sym [where t = "db_catalog db1"])

definition sample_scans :: "column_scan \<Rightarrow> nat list" where
  "sample_scans c = concat (replicate (kRowGroupSize div kChunkRows + 3) [0..<length (row_groups (scan_table c))])"

lemma sample_scans: "fair_scans sample_scans"
proof -
  have c: "count_list (concat (replicate k xs)) y = k * count_list xs y" for k y and xs :: "nat list" by (induction k) auto
  have "1 \<le> count_list [0..<n] rg" if "rg < n" for rg n using that count_list_0_iff [of "[0..<n]" rg] by simp
  then have "k * 1 \<le> count_list (concat (replicate k [0..<n])) rg" if "rg < n" for k rg n using that unfolding c by (intro mult_le_mono) auto
  from this [where k = "kRowGroupSize div kChunkRows + 3"] show ?thesis by (simp add: fair_scans_def sample_scans_def)
qed

text \<open>The query \<open>SELECT a AS x FROM t WHERE a >= 4 ORDER BY x DESC LIMIT 1\<close> in that session.\<close>

lemma sample_query:
  assumes "\<exists>db1. FlushTable ''t'' (sample_db bp) = Some (Inr (), db1) \<and> (case PlanSelect sample_stmt (db_catalog db1) of
       Inl e \<Rightarrow> exec sample_scans (\<lambda>_. []) (SelectStmt sample_stmt) (sample_db bp) = Some (Inl e, db1)
     | Inr p \<Rightarrow> \<exists>out db'. exec sample_scans (\<lambda>_. []) (SelectStmt sample_stmt) (sample_db bp) = Some (Inr \<lparr>column_names = plan_names p, rs_rows = out\<rparr>, db') \<and>
         query_rows True (table_names ''t'' sample_schema) (Types sample_schema) sample_stmt [[Int32 4], [Null], [Int32 9]] = Inr (plan_names p, out) \<and> session db' sample_contents)"
  shows "\<exists>db'. exec sample_scans (\<lambda>_. []) (SelectStmt sample_stmt) (sample_db bp) = Some (Inr \<lparr>column_names = [''x''], rs_rows = [[Int32 9]]\<rparr>, db') \<and> session db' sample_contents"
proof -
  have "sample_schema = tm_schema (sample_table 0)" by (simp add: sample_schema_def sample_table_def)
  then have names: "table_names ''t'' sample_schema = [''t.a'']" "Types sample_schema = [kInt]" using sample_names by metis+
  obtain db1 pid where f: "FlushTable ''t'' (sample_db bp) = Some (Inr (), db1)" "db_catalog db1 = \<lparr>Catalog.tables = [(''t'', sample_table pid)]\<rparr>"
    using assms sample_flushed by blast
  then obtain p where "PlanSelect sample_stmt (db_catalog db1) = Inr p" using sample_plan by simp
  then show ?thesis using assms f(1) unfolding names by (auto simp: sample_rows)
qed

lemma sample_query_ok:
  "select.tables sample_stmt = [\<lparr>tr_name = ''t'', tr_alias = []\<rparr>]" "\<not> aggregated sample_stmt"
  "single_ok sample_stmt sample_schema ''t'' [[Int32 4], [Null], [Int32 9]]"
proof -
  show "select.tables sample_stmt = [\<lparr>tr_name = ''t'', tr_alias = []\<rparr>]" "\<not> aggregated sample_stmt"
    by (simp_all add: sample_stmt_def aggregated_def HasAggregates_def)
  have "sample_schema = tm_schema (sample_table 0)" by (simp add: sample_schema_def sample_table_def)
  then show "single_ok sample_stmt sample_schema ''t'' [[Int32 4], [Null], [Int32 9]]" using sample_ok [of 0] by simp
qed

lemma sample_tr:
  "sample_contents (tr_name \<lparr>tr_name = ''t'', tr_alias = []\<rparr>) = Some (sample_schema, [[Int32 4], [Null], [Int32 9]])"
  "''t'' = (if tr_alias \<lparr>tr_name = ''t'', tr_alias = []\<rparr> = [] then tr_name \<lparr>tr_name = ''t'', tr_alias = []\<rparr> else tr_alias \<lparr>tr_name = ''t'', tr_alias = []\<rparr>)"
  "tr_name \<lparr>tr_name = ''t'', tr_alias = []\<rparr> = ''t''"
  by (simp_all add: sample_contents_def)

lemma sample_room: "pages bp \<le> 2 \<Longrightarrow> flush_room ''t'' (sample_db bp)"
  by (simp add: flush_room_def sample_flush) (simp add: sample_db_def)


text \<open>C6. No \<open>SELECT\<close>, whatever it joins, groups or fails on, changes the contents of the database: in
  every state a session can reach, what it leaves behind still holds the same tables, schemas and rows.\<close>

theorem select_leaves_contents:
  assumes "session db A" and "flush_rooms (map tr_name (select.tables sel)) db" and "exec scans work (SelectStmt sel) db = Some (res, db')"
  shows "\<exists>ids. db_rep ids db' A"
proof -
  obtain ids where "db_rep ids db A" using session_rep [OF assms(1)] by blast
  then show ?thesis using select_keeps assms(2,3) by (auto simp: exec_def)
qed

theorem select_leaves_contents_witness:
  "\<exists>bp ids db'. exec sample_scans (\<lambda>_. []) (SelectStmt sample_stmt) (sample_db bp) = Some (Inr \<lparr>column_names = [''x''], rs_rows = [[Int32 9]]\<rparr>, db') \<and>
    db_rep ids db' [''t'' \<mapsto> (sample_schema, [[Int32 4], [Null], [Int32 9]])]"
proof -
  obtain bp where s: "session (sample_db bp) sample_contents" "pages bp \<le> 2" by (rule sample_session)
  obtain db' where q: "exec sample_scans (\<lambda>_. []) (SelectStmt sample_stmt) (sample_db bp) = Some (Inr \<lparr>column_names = [''x''], rs_rows = [[Int32 9]]\<rparr>, db')"
    using sample_query [OF session_query [OF s(1) sample_query_ok(1,2) sample_tr(1,2) _ sample_scans sample_query_ok(3), of "\<lambda>_. []", unfolded sample_tr(3), OF sample_room [OF s(2)]]]
    by blast
  have "flush_rooms (map tr_name (select.tables sample_stmt)) (sample_db bp)" 
    using sample_room [OF s(2)] sample_query_ok(1) by (auto split: option.splits prod.splits sum.splits)
  from select_leaves_contents [OF s(1) this q] q show ?thesis unfolding sample_contents_def by blast
qed

text \<open>C9. Flushing a table succeeds and keeps the contents, and the file grows at most by the pages of the
  column streams of its row groups and of the grown catalog.\<close>

theorem flush_growth:
  assumes "session db A" and "flush_room name db"
  shows "\<exists>ids db'. FlushTable name db = Some (Inr (), db') \<and> db_rep ids db' A \<and> pages (db_pool db') \<le> pages (db_pool db) + flush_cost name db"
proof -
  obtain ids where "db_rep ids db A" using session_rep [OF assms(1)] by blast
  then show ?thesis by (rule FlushTable_rep [OF _ assms(2)]) blast
qed

theorem flush_growth_witness:
  "\<exists>bp ids db'. pages bp \<le> 2 \<and> FlushTable ''t'' (sample_db bp) = Some (Inr (), db') \<and> db_rep ids db' sample_contents \<and> pages (db_pool db') \<le> pages bp + 2"
proof -
  obtain bp where s: "session (sample_db bp) sample_contents" "pages bp \<le> 2" by (rule sample_session)
  have "db_pool (sample_db bp) = bp" by (simp add: sample_db_def)
  with flush_growth [OF s(1) sample_room [OF s(2)]] s(2) show ?thesis using sample_flush(1) [of bp] by auto
qed

section \<open>Aggregate queries in a session\<close>

lemma session_grouped:
  assumes "session db A" and "select.tables stmt = [tr]" "aggregated stmt" and "A (tr_name tr) = Some (s, rs)"
    and "a = (if tr_alias tr = [] then tr_name tr else tr_alias tr)" and "flush_room (tr_name tr) db"
    and "fair_scans scans" and "valid_schedule work" and "schema_named s" and "where_ok (table_names a s) (Types s) (where_clause stmt) rs"
    and "groups_ok (table_names a s) (Types s) stmt (where_rows (table_names a s) (Types s) (where_clause stmt) rs)"
  shows "\<exists>db1. FlushTable (tr_name tr) db = Some (Inr (), db1) \<and>
    (case PlanSelect stmt (db_catalog db1) of
       Inl e \<Rightarrow> exec scans work (SelectStmt stmt) db = Some (Inl e, db1)
     | Inr p \<Rightarrow> \<exists>out db'. exec scans work (SelectStmt stmt) db = Some (Inr \<lparr>column_names = plan_names p, rs_rows = out\<rparr>, db') \<and>
         group_result (table_names a s) (Types s) stmt (where_rows (table_names a s) (Types s) (where_clause stmt) rs) (plan_names p) out \<and>
         session db' A)"
proof -
  let ?Q = "group_result (table_names a s) (Types s) stmt (where_rows (table_names a s) (Types s) (where_clause stmt) rs)"
  have Q: "\<exists>out. ?Q (plan_names p) out \<and> runs scans work bp p out"
    if p: "PlanSelect stmt catalog = Inr p" "stream_ready bp" and ready: "\<forall>tr \<in> set (select.tables stmt). table_ready scans A catalog bp (tr_name tr)" for catalog p bp
  proof -
    obtain tbl vals n where t: "GetTable catalog (tr_name tr) = Some tbl" "s = tm_schema tbl" "rs = table_rows tbl vals n" "table_at bp tbl vals n"
      "\<And>c. scan_table c = tbl \<Longrightarrow> fair c n (scans c)"
      using ready assms(2,4) by (auto simp: table_ready_def)
    show ?thesis using PlanSelect_grouped [OF p(1) assms(2,3) t(1) assms(5) p(2) t(4,5) assms(8) _ _ refl] assms(9-11) unfolding t(2,3) by blast
  qed
  have room: "flush_rooms (map tr_name (select.tables stmt)) db" using assms(2,6) by (simp only: list.map flush_tables_one)
  have "A (tr_name tr') \<noteq> None" if "tr' \<in> set (select.tables stmt)" for tr' using that assms(2,4) by simp
  from session_run [where Q = ?Q, OF assms(1) room assms(7) this Q]
  show ?thesis unfolding assms(2) list.map flush_tables_one(1) by simp
qed



end
