(* ===== verification/Join_Queries.thy ===== *)
theory Join_Queries
  imports Group_Queries
begin

text \<open>
  Queries over two tables: the hash join that the planner builds from the first equality of two
  columns in \<open>WHERE\<close>, and the filter above it, give the pairs of rows on which the whole \<open>WHERE\<close>
  holds. When the predicate names the second table first, the planner exchanges the inputs of
  the join but not the columns bound above it.
\<close>

section \<open>Conjuncts\<close>

lemma eval_truth_keep: "\<exists>v. eval_row c r = Inr v \<Longrightarrow> eval_truth c r = Inr (keep c r)"
  by (auto simp: eval_truth_def keep_def)

lemma eval_truth_total: "eval_truth q r = Inr x \<Longrightarrow> (\<exists>v. eval_row q r = Inr v) \<and> keep q r = x"
  by (auto simp: eval_truth_def keep_def bindR_Inr_iff)

text \<open>The rows that satisfy every expression of a list.\<close>

definition all_keep :: "string list \<Rightarrow> ColumnType list \<Rightarrow> Expr list \<Rightarrow> Value list \<Rightarrow> bool" where
  "all_keep names types es r \<longleftrightarrow> (\<forall>e \<in> set es. \<forall>c. Bind names types e = Inr c \<longrightarrow> keep c r)"

definition all_eval :: "string list \<Rightarrow> ColumnType list \<Rightarrow> Expr list \<Rightarrow> Value list \<Rightarrow> bool" where
  "all_eval names types es r \<longleftrightarrow> (\<forall>e \<in> set es. \<forall>c. Bind names types e = Inr c \<longrightarrow> (\<exists>v. eval_row c r = Inr v))"

lemma all_keep_simps [simp]: "all_keep names types [] r" "all_eval names types [] r"
  "all_keep names types (xs @ ys) r \<longleftrightarrow> all_keep names types xs r \<and> all_keep names types ys r"
  "all_eval names types (xs @ ys) r \<longleftrightarrow> all_eval names types xs r \<and> all_eval names types ys r"
  "Bind names types e = Inr c \<Longrightarrow> all_keep names types (e # es) r \<longleftrightarrow> keep c r \<and> all_keep names types es r"
  "Bind names types e = Inr c \<Longrightarrow> all_eval names types (e # es) r \<longleftrightarrow> (\<exists>v. eval_row c r = Inr v) \<and> all_eval names types es r"
  by (auto simp: all_keep_def all_eval_def)

lemma keep_conjuncts:
  "Bind names types w = Inr b \<Longrightarrow> all_eval names types (Flatten w) r \<Longrightarrow> eval_truth b r = Inr (all_keep names types (Flatten w) r)"
proof (induction w arbitrary: b)
  case (BinaryExpr p x y)
  obtain bx by' where xy: "Bind names types x = Inr bx" "Bind names types y = Inr by'" "b = BinaryE (ToBoundOp p) bx by'"
    using BinaryExpr.prems(1) by auto
  show ?case
  proof (cases "p = BinOp.kAnd")
    case True
    then show ?thesis using BinaryExpr.IH(1) [OF xy(1)] BinaryExpr.IH(2) [OF xy(2)] BinaryExpr.prems(2) xy(3) by (simp add: eval_truth_and)
  next
    case False
    then show ?thesis using BinaryExpr.prems eval_truth_keep [of b r] by simp
  qed
qed (use eval_truth_keep in simp_all)

text \<open>The chain the planner binds for the conjuncts left.\<close>

lemma conj_truth:
  assumes "foldR (conj_step names types) s es = Inr s'" and "all_eval names types es r"
    and "case s of None \<Rightarrow> x | Some p \<Rightarrow> eval_truth p r = Inr x"
  shows "case s' of None \<Rightarrow> s = None \<and> es = [] | Some q \<Rightarrow> eval_truth q r = Inr (x \<and> all_keep names types es r)"
  using assms
proof (induction es arbitrary: s x)
  case (Cons e es)
  obtain b where b: "Bind names types e = Inr b" using Cons.prems(1) by auto
  let ?s = "Some (case s of None \<Rightarrow> b | Some p \<Rightarrow> BinaryE BoundOp.kAnd p b)"
  have f: "foldR (conj_step names types) ?s es = Inr s'" using Cons.prems(1) b by simp
  have t: "eval_truth b r = Inr (keep b r)" using Cons.prems(2) b eval_truth_keep by simp
  have "eval_truth (the ?s) r = Inr (x \<and> keep b r)" using Cons.prems(3) t by (cases s) (simp_all add: eval_truth_and)
  then have "case s' of None \<Rightarrow> ?s = None \<and> es = [] | Some q \<Rightarrow> eval_truth q r = Inr ((x \<and> keep b r) \<and> all_keep names types es r)"
    using Cons.IH [OF f, of "x \<and> keep b r"] Cons.prems(2) b by simp
  then show ?case using b by (cases s') (simp_all add: conj_assoc)
qed (auto split: option.splits)

section \<open>The join predicate\<close>

text \<open>Every row of the left table with every row of the right one.\<close>

definition pairs :: "Value list list \<Rightarrow> Value list list \<Rightarrow> Value list list" where
  "pairs L R = concat (map (\<lambda>l. map (\<lambda>r. l @ r) R) L)"

lemma set_pairs: "set (pairs L R) = (\<lambda>(l, r). l @ r) ` (set L \<times> set R)"
  by (force simp: pairs_def)

text \<open>Equality of two columns of one type, none of them \<open>DOUBLE\<close>, is equality of the values.\<close>

lemma compare_equal:
  assumes "value_fits t a" "value_fits t b" and "a \<noteq> Null" "b \<noteq> Null" and "t \<noteq> kFloat"
  shows "CompareResult BoundOp.kEq a b = Inr (truth (b = a))"
proof -
  have "ordered_vals t [a, b]" using assms by (simp add: ordered_vals_def)
  note c = ordered_cmp [OF this, of a b a]
  show ?thesis
  proof (cases "cmp_less a b \<or> cmp_less b a")
    case True
    then have "b \<noteq> a" using c(1) by auto
    then show ?thesis using True c(5) assms(3,4) by (auto simp: CompareResult_def IsNull_def)
  next
    case False
    then have "a = b" using c(4) by simp
    then show ?thesis using False c(5) assms(3,4) by (simp add: CompareResult_def IsNull_def)
  qed
qed

lemma keep_equal:
  assumes "i < length r" "j < length r" and "value_fits t (r ! i)" "value_fits t (r ! j)" and "t \<noteq> kFloat"
  shows "keep (BinaryE BoundOp.kEq (ColumnE i ti) (ColumnE j tj)) r \<longleftrightarrow> r ! i \<noteq> Null \<and> r ! j = r ! i"
proof -
  have e: "eval_row (BinaryE BoundOp.kEq (ColumnE i ti) (ColumnE j tj)) r = CompareResult BoundOp.kEq (r ! i) (r ! j)"
    using assms(1,2) by (simp add: eval_row_def is_arith_def)
  show ?thesis
  proof (cases "r ! i = Null \<or> r ! j = Null")
    case True
    then show ?thesis unfolding keep_def e by (auto simp: CompareResult_def IsNull_def)
  next
    case False
    then show ?thesis unfolding keep_def e using compare_equal [OF assms(3,4) _ _ assms(5)] by simp
  qed
qed

lemma join_rows_filter:
  assumes "\<And>l r. l \<in> set L \<Longrightarrow> r \<in> set R \<Longrightarrow> P (l @ r) \<longleftrightarrow> l ! i \<noteq> Null \<and> r ! j = l ! i"
  shows "join_rows i j L R = filter P (pairs L R)"
  unfolding join_rows_def pairs_def filter_concat
proof (intro arg_cong [of _ _ concat], unfold map_map, intro map_cong refl)
  fix l assume l: "l \<in> set L"
  have "filter (\<lambda>r. P (l @ r)) R = (if l ! i = Null then [] else filter (\<lambda>r. r ! j = l ! i) R)"
    using assms [OF l] by (auto simp: filter_empty_conv intro: filter_cong)
  then show "partners i j R l = (filter P \<circ> (\<lambda>l. map ((@) l) R)) l" by (simp add: partners_def filter_map comp_def)
qed

lemma pick_append:
  assumes "\<forall>k \<in> set cols1. k < length l" and "\<forall>k \<in> set cols2. k < length r" and "m = length l"
  shows "pick (cols1 @ map ((+) m) cols2) (l @ r) = pick cols1 l @ pick cols2 r"
  using assms by (simp add: nth_append)

lemma join_rows_pick:
  assumes "\<forall>l \<in> set L. length l = m \<and> (\<forall>k \<in> set cols1. k < m)" and "\<forall>r \<in> set R. \<forall>k \<in> set cols2. k < length r"
    and "lk < length cols1" "rk < length cols2"
  shows "join_rows lk rk (map (pick cols1) L) (map (pick cols2) R) = map (pick (cols1 @ map ((+) m) cols2)) (join_rows (cols1 ! lk) (cols2 ! rk) L R)"
proof -
  let ?cols = "cols1 @ map ((+) m) cols2"
  have "partners lk rk (map (pick cols2) R) (pick cols1 l) = map (pick ?cols) (partners (cols1 ! lk) (cols2 ! rk) R l)"
    if l: "l \<in> set L" for l
  proof -
    have "map (\<lambda>r. pick cols1 l @ pick cols2 r) (filter P R) = map (\<lambda>r. pick ?cols (l @ r)) (filter P R)" for P
      by (rule map_cong [OF refl], rule pick_append [symmetric]) (use assms(1,2) l in simp_all)
    moreover have "filter (\<lambda>r. r ! rk = v) (map (pick cols2) R) = map (pick cols2) (filter (\<lambda>r. r ! (cols2 ! rk) = v) R)" for v
      using assms(4) by (simp add: filter_map comp_def)
    moreover have "pick cols1 l ! lk = l ! (cols1 ! lk)" using assms(3) by simp
    ultimately show ?thesis unfolding partners_def
      by (cases "l ! (cols1 ! lk) = Null") (simp_all only: map_map comp_def if_True if_False list.map simp_thms)
  qed
  then have "map (\<lambda>l. partners lk rk (map (pick cols2) R) (pick cols1 l)) L = map (\<lambda>l. map (pick ?cols) (partners (cols1 ! lk) (cols2 ! rk) R l)) L"
    by (rule map_cong [OF refl])
  then show ?thesis unfolding join_rows_def map_concat map_map comp_def by (rule arg_cong)
qed

section \<open>The bottom of the plan of a join\<close>

lemma scan_rows:
  assumes sc: "scan_columns needed (tbl, a) = Inr (needed', si)" and c: "ColumnScan (si_table si) (si_alias si) (col_indices si) = Inr c"
    and store: "stream_ready bp" "table_at bp tbl vals n" and fair: "fair c n (scans c)"
  shows "runs scans work bp (ScanP c) (map (pick (col_indices si)) (table_rows tbl vals n))"
proof -
  note s = scan_columns_ok [OF sc] and f = ColumnScan_fields [OF c]
  obtain out where out: "produces (ScanOperator c (scans c)) \<lparr>scan_pool = bp, scan_chunks = [], chunk_cursor = 0\<rparr> out"
    "filter (zone_row c) out = filter (zone_row c) (all_rows c vals n)"
    using ColumnScan_rows [OF c s(3) disjI1 [OF refl] store(1), of vals n "scans c" "[]" 0] store(2) fair s(1) by auto
  have "zone_row c = (\<lambda>_. True)" using f(5) by (simp add: zone_row_def fun_eq_iff)
  then have "out = all_rows c vals n" using out(2) by simp
  also have "\<dots> = map (pick (col_indices si)) (table_rows tbl vals n)" using all_rows_pick [of c vals n] f(1,2) s(1,6) by simp
  finally show ?thesis using runs_scan [of c scans bp out work] out(1) by simp
qed

text \<open>A reference to a column by its bare name, or by the alias of its table, matches the column's name
  in the joined list; a clear one resolves to it.\<close>

lemma dot_split: "plain x \<Longrightarrow> plain y \<Longrightarrow> a @ CHR ''.'' # x = b @ CHR ''.'' # y \<longleftrightarrow> a = b \<and> x = y"
  by (metis append_same_eq base_simps)

definition dotted :: "string \<Rightarrow> string \<Rightarrow> string" where
  "dotted a s = (if a = [] then s else a @ CHR ''.'' # s)"

lemma dotted_eq: "plain x \<Longrightarrow> plain y \<Longrightarrow> dotted a x = b @ CHR ''.'' # y \<Longrightarrow> b = a"
  using dot_split [of x y a b] by (auto simp: dotted_def plain_def split: if_splits)

lemma joined_name:
  "k < length s1 \<Longrightarrow> (table_names a1 s1 @ table_names a2 s2) ! k = dotted a1 (col_name (s1 ! k))"
  "k < length s2 \<Longrightarrow> (table_names a1 s1 @ table_names a2 s2) ! (length s1 + k) = dotted a2 (col_name (s2 ! k))"
  by (simp_all add: nth_append table_names_def dotted_def)

lemma joined_index:
  assumes r: "Resolve (table_names a1 s1 @ table_names a2 s2) (fst c) (snd c) = Inr j" and cl: "clear (table_names a1 s1 @ table_names a2 s2) c"
  shows "k < length s1 \<Longrightarrow> col_name (s1 ! k) = snd c \<Longrightarrow> fst c \<in> {[], a1} \<Longrightarrow> j = k"
    "k < length s2 \<Longrightarrow> col_name (s2 ! k) = snd c \<Longrightarrow> fst c \<in> {[], a2} \<Longrightarrow> j = length s1 + k"
proof -
  let ?full = "table_names a1 s1 @ table_names a2 s2"
  have j: "j < length ?full" "matches_name (?full ! j) c" using Resolve_unique [OF cl] r by blast+
  have m: "matches_name (dotted a (snd c)) c" if "fst c \<in> {[], a}" for a
    using that by (auto simp: matches_name_def EndsWith_def dotted_def)
  show "j = k" if k: "k < length s1" "col_name (s1 ! k) = snd c" "fst c \<in> {[], a1}"
  proof -
    have "matches_name (?full ! k) c" using joined_name(1) [OF k(1), of a1 a2 s2] m [OF k(3)] k(2) by simp
    then show ?thesis using cl j k(1) unfolding clear_def by simp
  qed
  show "j = length s1 + k" if k: "k < length s2" "col_name (s2 ! k) = snd c" "fst c \<in> {[], a2}"
  proof -
    have "matches_name (?full ! (length s1 + k)) c" using joined_name(2) [OF k(1), of a1 s1 a2] m [OF k(3)] k(2) by simp
    then show ?thesis using cl j k(1) unfolding clear_def by simp
  qed
qed

text \<open>A qualified reference names the table of its column.\<close>

lemma joined_alias:
  assumes r: "Resolve (table_names a1 s1 @ table_names a2 s2) (fst c) (snd c) = Inr j" and cl: "clear (table_names a1 s1 @ table_names a2 s2) c"
    and s: "schema_named s1" "schema_named s2" "plain (snd c)" and q: "fst c \<noteq> []"
  shows "fst c = (if j < length s1 then a1 else a2)"
proof -
  let ?full = "table_names a1 s1 @ table_names a2 s2"
  have j: "j < length s1 + length s2" "?full ! j = fst c @ CHR ''.'' # snd c" using Resolve_unique [OF cl, of j] r q by (simp_all add: matches_name_def)
  show ?thesis
  proof (cases "j < length s1")
    case True
    then have "plain (col_name (s1 ! j))" using s(1) by (simp add: schema_named_def)
    then show ?thesis using joined_name(1) [OF True, of a1 a2 s2] j(2) dotted_eq [OF _ s(3)] True by simp
  next
    case False
    then obtain k where k: "j = length s1 + k" "k < length s2" using j(1) by (metis add_less_cancel_left le_add_diff_inverse not_less)
    then have "plain (col_name (s2 ! k))" using s(2) by (simp add: schema_named_def)
    then show ?thesis using joined_name(2) [OF k(2), of a1 s1 a2] j(2) dotted_eq [OF _ s(3)] k(1) False by simp
  qed
qed

lemma find_join_Some:
  assumes "find_join es = Some (i, lc, rc)"
  shows "i < length es" "es ! i = BinaryExpr BinOp.kEq (ColumnRefExpr lc) (ColumnRefExpr rc)"
proof -
  have e: "join_columns e = Some (x, y) \<Longrightarrow> e = BinaryExpr BinOp.kEq (ColumnRefExpr x) (ColumnRefExpr y)" for e x y
    by (cases e rule: join_columns.cases) auto
  show "i < length es" "es ! i = BinaryExpr BinOp.kEq (ColumnRefExpr lc) (ColumnRefExpr rc)"
    using assms e by (auto simp: find_join_def find_Some_iff split: option.splits)
qed

text \<open>What is asked of a query over two tables, the first one of \<open>n\<close> columns: its references are clear, the
  predicate compares a column of each table and names the tables in the order of \<open>FROM\<close>,
  its columns have one type, not \<open>DOUBLE\<close>, and no conjunct of \<open>WHERE\<close> raises an error on a pair of rows.\<close>

definition join_ok :: "select \<Rightarrow> string list \<Rightarrow> ColumnType list \<Rightarrow> string \<Rightarrow> string \<Rightarrow> nat \<Rightarrow> Value list list \<Rightarrow> Value list list \<Rightarrow> bool" where
  "join_ok stmt names types a1 a2 n L R \<longleftrightarrow> length R \<le> 2 ^ 32 \<and> clear_refs names stmt \<and>
     (\<exists>w i lc rc b. where_clause stmt = Some w \<and> Bind names types w = Inr b \<and> find_join (Flatten w) = Some (i, lc, rc) \<and>
        \<not> (fst lc = a2 \<or> fst rc = a1) \<and>
        (\<forall>j k. Resolve names (fst lc) (snd lc) = Inr j \<longrightarrow> Resolve names (fst rc) (snd rc) = Inr k \<longrightarrow>
           (j < n \<longleftrightarrow> n \<le> k) \<and> types ! j = types ! k \<and> types ! j \<noteq> kFloat) \<and>
        rows_fit types (where_rows names types (Some (Flatten w ! i)) (pairs L R)) \<and>
        (\<forall>e \<in> set (Flatten w). where_ok names types (Some e) (pairs L R)))"

lemma scan_columns_mono: "scan_columns needed t = Inr (needed', si) \<Longrightarrow> set needed \<subseteq> set needed'"
  by (cases t) (auto simp: scan_columns_def Let_def split: if_splits)

lemma scan_all_columns:
  assumes sc: "scan_columns needed (tbl, a) = Inr (needed', si)" and s: "schema_named (tm_schema tbl)"
    and all: "\<forall>c \<in> set (tm_schema tbl). (a, col_name c) \<in> set needed"
  shows "col_indices si = [0..<length (tm_schema tbl)]"
proof -
  note k = scan_columns_ok [OF sc]
  have "i \<in> set (col_indices si)" if i: "i < length (tm_schema tbl)" for i
  proof -
    have "col_name (tm_schema tbl ! i) \<in> (\<lambda>k. col_name (tm_schema tbl ! k)) ` set (col_indices si)" using k(8) [of "tm_schema tbl ! i"] i all by simp
    then obtain j where "j \<in> set (col_indices si)" "col_name (tm_schema tbl ! i) = col_name (tm_schema tbl ! j)" by auto
    moreover from this have "j < length (tm_schema tbl)" using k(6) by blast
    ultimately show ?thesis using s i unfolding schema_named_def by (metis length_map nth_eq_iff_index_eq nth_map)
  qed
  then have "set (col_indices si) = set [0..<length (tm_schema tbl)]" using k(6) by auto
  then show ?thesis using k(4,5) by (metis distinct_upt sorted_distinct_set_unique sorted_upt)
qed

lemma bottom_join_parts:
  assumes "bottom_plan stmt [t1, t2] needed = Inr (names, types, root)" and "where_clause stmt = Some w" and "find_join (Flatten w) = Some (i, lc, rc)"
  obtains needed1 needed2 needed3 si1 si2 c1 c2 root0 pred where "set needed \<subseteq> set needed1"
    "scan_columns needed1 t1 = Inr (needed2, si1)" "scan_columns needed2 t2 = Inr (needed3, si2)"
    "ColumnScan (si_table si1) (si_alias si1) (col_indices si1) = Inr c1" "ColumnScan (si_table si2) (si_alias si2) (col_indices si2) = Inr c2"
    "names = scan_names c1 @ scan_names c2" "types = scan_types c1 @ scan_types c2" "join_plan [si1, si2] [c1, c2] lc rc = Inr root0"
    "bind_conjuncts names types (take i (Flatten w) @ drop (Suc i) (Flatten w)) = Inr pred"
    "root = (case pred of None \<Rightarrow> root0 | Some p \<Rightarrow> FilterP root0 p)"
proof -
  obtain n1 needed1 where n: "add_ref [t1, t2] needed lc = Inr n1" "add_ref [t1, t2] n1 rc = Inr needed1"
    using assms by (auto simp: bottom_plan_def Let_def)
  obtain infos ops root0 where p: "all_scan_columns needed1 [t1, t2] = Inr infos"
    "mapR (\<lambda>si. ColumnScan (si_table si) (si_alias si) (col_indices si)) infos = Inr ops"
    "names = concat (map scan_names ops)" "types = concat (map scan_types ops)" "join_plan infos ops lc rc = Inr root0"
    "where_plan names types (take i (Flatten w) @ drop (Suc i) (Flatten w)) root0 = Inr root"
    using assms n by (auto simp: bottom_plan_def Let_def)
  obtain needed2 needed3 si1 si2 where sc: "scan_columns needed1 t1 = Inr (needed2, si1)" "scan_columns needed2 t2 = Inr (needed3, si2)" "infos = [si1, si2]"
    using p(1) by auto
  obtain c1 c2 where c: "ColumnScan (si_table si1) (si_alias si1) (col_indices si1) = Inr c1" "ColumnScan (si_table si2) (si_alias si2) (col_indices si2) = Inr c2" "ops = [c1, c2]"
    using p(2) sc(3) by auto
  obtain pred where "bind_conjuncts names types (take i (Flatten w) @ drop (Suc i) (Flatten w)) = Inr pred"
    "root = (case pred of None \<Rightarrow> root0 | Some p \<Rightarrow> FilterP root0 p)" using p(6) by (auto simp: where_plan_def)
  moreover have "set needed \<subseteq> set needed1" using add_ref_mono n by blast
  ultimately show thesis using that [of needed1 needed2 si1 needed3 si2 c1 c2 root0 pred] sc c p(3-5) by simp
qed

lemma join_plan_keys:
  assumes plan: "join_plan [si1, si2] [c1, c2] lc rc = Inr root0"
    and sc: "scan_columns m1 (t1, a1) = Inr (m1', si1)" "scan_columns m2 (t2, a2) = Inr (m2', si2)"
    and dir: "\<not> (fst lc = a2 \<or> fst rc = a1)" and s: "schema_named (tm_schema t1)" "schema_named (tm_schema t2)"
    and full: "full = table_names a1 (tm_schema t1) @ table_names a2 (tm_schema t2)" and cl: "clear full lc" "clear full rc"
    and res: "Resolve full (fst lc) (snd lc) = Inr j" "Resolve full (fst rc) (snd rc) = Inr k" and cross: "j < length (tm_schema t1) \<longleftrightarrow> length (tm_schema t1) \<le> k"
  shows "\<exists>lk rk. root0 = JoinP (ScanP c1) (ScanP c2) lk rk \<and> lk < length (col_indices si1) \<and> rk < length (col_indices si2) \<and>
    (j = col_indices si1 ! lk \<and> k = length (tm_schema t1) + col_indices si2 ! rk \<or> k = col_indices si1 ! lk \<and> j = length (tm_schema t1) + col_indices si2 ! rk)"
proof -
  note k1 = scan_columns_ok [OF sc(1)] and k2 = scan_columns_ok [OF sc(2)]
  let ?l = "if fst lc = a1 then lc else rc" and ?r = "if fst lc = a1 then rc else lc"
  obtain lk rk where keys: "scan_pos si1 ?l = Inr lk" "scan_pos si2 ?r = Inr rk" "root0 = JoinP (ScanP c1) (ScanP c2) lk rk"
    using plan dir k1(2) k2(2) by (auto simp: join_plan_def Let_def)
  have pos: "lk < length (col_indices si1)" "col_name (tm_schema t1 ! (col_indices si1 ! lk)) = snd ?l"
    "rk < length (col_indices si2)" "col_name (tm_schema t2 ! (col_indices si2 ! rk)) = snd ?r"
    using k1(7) [of "snd ?l" lk] k2(7) [of "snd ?r" rk] keys(1,2) unfolding scan_pos_def by (auto split: option.splits)
  have lt: "col_indices si1 ! lk < length (tm_schema t1)" "col_indices si2 ! rk < length (tm_schema t2)" using k1(6) k2(6) pos(1,3) by auto
  have "plain (snd ?l)" "plain (snd ?r)" using s lt pos(2,4) nth_mem unfolding schema_named_def by metis+
  then have pl: "plain (snd lc)" "plain (snd rc)" by (auto split: if_splits)
  note al = joined_alias [OF res(1) [unfolded full] cl(1) [unfolded full] s pl(1)] joined_alias [OF res(2) [unfolded full] cl(2) [unfolded full] s pl(2)]
  note ij = joined_index [OF res(1) [unfolded full] cl(1) [unfolded full]] and ik = joined_index [OF res(2) [unfolded full] cl(2) [unfolded full]]
  show ?thesis
  proof (cases "fst lc = a1")
    case True
    have "fst rc \<in> {[], a2}" using al(2) dir by (cases "k < length (tm_schema t1)") auto
    then have "j = col_indices si1 ! lk" "k = length (tm_schema t1) + col_indices si2 ! rk"
      using ij(1) [OF lt(1)] ik(2) [OF lt(2)] pos(2,4) True by auto
    then show ?thesis using keys(3) pos(1,3) by auto
  next
    case False
    have l: "fst lc = []" using al(1) dir False by (cases "j < length (tm_schema t1)") auto
    then have j: "j = length (tm_schema t1) + col_indices si2 ! rk" using ij(2) [OF lt(2)] pos(4) False by auto
    then have "k < length (tm_schema t1)" using cross by simp
    then have "fst rc = []" using al(2) dir by auto
    then have "k = col_indices si1 ! lk" using ik(1) [OF lt(1)] pos(2) False by auto
    then show ?thesis using keys(3) pos(1,3) j by auto
  qed
qed

text \<open>The pairs on which the join predicate holds are the rows of the join.\<close>

lemma join_predicate_rows:
  assumes L: "\<forall>l \<in> set L. list_all2 value_fits (Types s1) l" and R: "\<forall>r \<in> set R. list_all2 value_fits (Types s2) r"
    and ft: "ft = Types s1 @ Types s2" and k: "k1 < length s1" "k2 < length s2" and t: "ft ! k1 = ft ! (length s1 + k2)" "ft ! k1 \<noteq> kFloat"
    and jk: "j = k1 \<and> k = length s1 + k2 \<or> k = k1 \<and> j = length s1 + k2"
  shows "join_rows k1 k2 L R = filter (keep (BinaryE BoundOp.kEq (ColumnE j (ft ! j)) (ColumnE k (ft ! k)))) (pairs L R)"
proof (rule join_rows_filter)
  fix l r assume lr: "l \<in> set L" "r \<in> set R"
  have len: "length l = length s1" "length r = length s2" 
    using list_all2_lengthD [OF bspec [OF L lr(1)]] list_all2_lengthD [OF bspec [OF R lr(2)]] by (simp_all add: Types_def)
  have "list_all2 value_fits ft (l @ r)" using L R lr ft by (simp add: list_all2_appendI)
  then have fits: "value_fits (ft ! i) ((l @ r) ! i)" if "i < length s1 + length s2" for i
    using that len by (auto simp: list_all2_conv_all_nth)
  have at: "(l @ r) ! k1 = l ! k1" "(l @ r) ! (length s1 + k2) = r ! k2" using k len by (simp_all add: nth_append)
  have v: "value_fits (ft ! k1) (l ! k1)" "value_fits (ft ! k1) (r ! k2)" using fits [of k1] fits [of "length s1 + k2"] k at t(1) by simp_all
  show "keep (BinaryE BoundOp.kEq (ColumnE j (ft ! j)) (ColumnE k (ft ! k))) (l @ r) \<longleftrightarrow> l ! k1 \<noteq> Null \<and> r ! k2 = l ! k1"
    using jk
  proof
    assume "j = k1 \<and> k = length s1 + k2"
    then show ?thesis using keep_equal [of j "l @ r" k "ft ! k1"] v t(2) k len at by simp
  next
    assume "k = k1 \<and> j = length s1 + k2"
    then show ?thesis using keep_equal [of j "l @ r" k "ft ! k1"] v t(2) k len at by auto
  qed
qed

section \<open>The filter above the join\<close>

lemma conj_binds: "foldR (conj_step names types) s es = Inr s' \<Longrightarrow> e \<in> set es \<Longrightarrow> \<exists>c. Bind names types e = Inr c"
proof (induction es arbitrary: s)
  case (Cons x xs)
  obtain b where "Bind names types x = Inr b" using Cons.prems(1) by auto
  then show ?case using Cons by auto
qed simp

lemma residual_filter:
  fixes names :: "string list" and types :: "ColumnType list"
  assumes bound: "bind_conjuncts (map ((!) names) cols) (map ((!) types) cols) es = Inr pred" and root: "root = (case pred of None \<Rightarrow> root0 | Some p \<Rightarrow> FilterP root0 p)"
    and run: "runs scans work bp root0 (map (pick cols) tab)" and pt: "plan_types root0 = map ((!) types) cols"
    and cl: "\<forall>e \<in> set es. \<forall>c \<in> expr_refs e. clear names c" and c: "distinct cols" "\<forall>k \<in> set cols. k < length names" "length types = length names"
    and rows: "\<forall>r \<in> set tab. length r = length names" and ok: "\<forall>e \<in> set es. where_ok names types (Some e) tab"
  shows "runs scans work bp root (map (pick cols) (filter (all_keep names types es) tab)) \<and> plan_types root = map ((!) types) cols"
proof (cases es)
  case Nil
  then show ?thesis using bound root run pt by (simp add: bind_conjuncts_def filter_True)
next
  case (Cons e es')
  let ?n = "map ((!) names) cols" and ?t = "map ((!) types) cols"
  have f: "foldR (conj_step ?n ?t) None es = Inr pred" using bound by (simp add: bind_conjuncts_def)
  have each: "\<exists>b. Bind ?n ?t e = Inr b \<and> Bind names types e = Inr (map_cols ((!) cols) b) \<and> bound_ok (length cols) b" if "e \<in> set es" for e
    using conj_binds [OF f that] Bind_subset [OF c, of e] Bind_bound [of ?n ?t e] cl that by auto
  have ev: "eval_row (map_cols ((!) cols) b) r = eval_row b (pick cols r)" if "bound_ok (length cols) b" "r \<in> set tab" for b r
    using eval_map_cols [OF that(1), of r] rows that(2) c(2) by simp
  have eval: "all_eval ?n ?t es (pick cols r)" if r: "r \<in> set tab" for r
    unfolding all_eval_def
  proof (intro ballI allI impI)
    fix e b assume e: "e \<in> set es" "Bind ?n ?t e = Inr b"
    have b: "Bind names types e = Inr (map_cols ((!) cols) b)" "bound_ok (length cols) b" using each [OF e(1)] e(2) by auto
    have "\<exists>v. eval_row (map_cols ((!) cols) b) r = Inr v" using ok e(1) b(1) r unfolding where_ok_def by blast
    then show "\<exists>v. eval_row b (pick cols r) = Inr v" unfolding ev [OF b(2) r] .
  qed
  have same: "all_keep ?n ?t es (pick cols r) = all_keep names types es r" if r: "r \<in> set tab" for r
  proof -
    have "(\<forall>c. Bind ?n ?t e = Inr c \<longrightarrow> keep c (pick cols r)) = (\<forall>c. Bind names types e = Inr c \<longrightarrow> keep c r)" if e: "e \<in> set es" for e
    proof -
      obtain b where b: "Bind ?n ?t e = Inr b" "Bind names types e = Inr (map_cols ((!) cols) b)" "bound_ok (length cols) b" using each [OF e] by blast
      then show ?thesis by (simp add: keep_def ev [OF b(3) r])
    qed
    then show ?thesis unfolding all_keep_def by blast
  qed
  obtain b where b: "Bind ?n ?t e = Inr b" "Bind names types e = Inr (map_cols ((!) cols) b)" "bound_ok (length cols) b" using each [of e] Cons by auto
  have f1: "foldR (conj_step ?n ?t) (Some b) es' = Inr pred" using f b(1) Cons by simp
  obtain p where p: "pred = Some p" "\<And>r. r \<in> set tab \<Longrightarrow> eval_truth p (pick cols r) = Inr (all_keep ?n ?t es (pick cols r))"
  proof (cases pred)
    case None
    have "\<exists>q. s' = Some q" if "foldR (conj_step ?n ?t) (Some b) es = Inr s'" for s' b es using that by (induction es arbitrary: b) auto
    then show ?thesis using f1 None by blast
  next
    case (Some q)
    then show ?thesis using that conj_truth [OF f eval, of _ True] by auto
  qed
  have "fast_safe p ?t (map (pick cols) tab)"
  proof (cases "es' = []")
    case True
    then have "p = b" using f1 p(1) by simp
    moreover have "fast_safe (map_cols ((!) cols) b) types tab" using ok Cons b(2) by (auto simp: where_ok_def)
    ultimately show ?thesis using fast_safe_subset b(3) by blast
  next
    case False
    obtain x y where xy: "p = BinaryE BoundOp.kAnd x y" using conj_last [OF f1 [unfolded p(1)] False] by blast
    have "bound_ok (length ?n) p" using conj_bound [OF f [unfolded p(1)]] by simp
    then show ?thesis using fast_safe_and [of ?t x y] xy by simp
  qed
  moreover have "\<forall>r \<in> set (map (pick cols) tab). \<exists>v. eval_row p r = Inr v" using p(2) eval_truth_total by auto
  ultimately have "runs scans work bp (FilterP root0 p) (filter (keep p) (map (pick cols) tab))" using runs_filter [OF run] pt by simp
  moreover have "filter (keep p) (map (pick cols) tab) = map (pick cols) (filter (all_keep names types es) tab)"
    using p(2) eval_truth_total same by (auto simp: filter_map intro!: arg_cong [of _ _ "map (pick cols)"] filter_cong)
  ultimately show ?thesis using root p(1) pt by simp
qed

lemma where_rows_conjuncts:
  assumes "Bind names types w = Inr b" and "\<forall>e \<in> set (Flatten w). where_ok names types (Some e) tab"
  shows "where_rows names types (Some w) tab = filter (all_keep names types (Flatten w)) tab"
proof -
  have "keep b r = all_keep names types (Flatten w) r" if "r \<in> set tab" for r
  proof -
    have "all_eval names types (Flatten w) r" using assms(2) that by (auto simp: all_eval_def where_ok_def)
    then show ?thesis using eval_truth_total [OF keep_conjuncts [OF assms(1)]] by blast
  qed
  then show ?thesis using assms(1) by (auto simp: where_rows_def intro: filter_cong)
qed

lemma conjunct_binds: "Bind names types w = Inr b \<Longrightarrow> e \<in> set (Flatten w) \<Longrightarrow> \<exists>c. Bind names types e = Inr c"
proof (induction w arbitrary: b)
  case (BinaryExpr p l r)
  then show ?case by (auto split: if_splits)
qed auto

lemma conjunct_refs: "e \<in> set (Flatten w) \<Longrightarrow> expr_refs e \<subseteq> expr_refs w"
proof (induction w)
  case (BinaryExpr p l r)
  then show ?case by (auto split: if_splits)
qed auto

text \<open>The columns of both scans, as columns of a pair of rows.\<close>

definition pair_cols :: "schema \<Rightarrow> ScanInfo \<Rightarrow> ScanInfo \<Rightarrow> nat list" where
  "pair_cols s1 si1 si2 = col_indices si1 @ map ((+) (length s1)) (col_indices si2)"

lemma pair_cols_ok:
  assumes sc: "scan_columns m1 (t1, a1) = Inr (m1', si1)" "scan_columns m2 (t2, a2) = Inr (m2', si2)"
  shows "distinct (pair_cols (tm_schema t1) si1 si2)" "\<forall>k \<in> set (pair_cols (tm_schema t1) si1 si2). k < length (tm_schema t1) + length (tm_schema t2)"
    "length xs = length (tm_schema t1) \<Longrightarrow> map ((!) (xs @ ys)) (pair_cols (tm_schema t1) si1 si2) = map ((!) xs) (col_indices si1) @ map ((!) ys) (col_indices si2)"
  using scan_columns_ok(4,6) [OF sc(1)] scan_columns_ok(4,6) [OF sc(2)] by (auto simp: pair_cols_def distinct_map inj_on_def nth_append)

lemma join_root_rows:
  fixes full :: "string list" and ft :: "ColumnType list"
  assumes sc: "scan_columns m1 (t1, a1) = Inr (m1', si1)" "scan_columns m2 (t2, a2) = Inr (m2', si2)"
    and c: "ColumnScan (si_table si1) (si_alias si1) (col_indices si1) = Inr c1" "ColumnScan (si_table si2) (si_alias si2) (col_indices si2) = Inr c2"
    and plan: "join_plan [si1, si2] [c1, c2] lc rc = Inr root0" and dir: "\<not> (fst lc = a2 \<or> fst rc = a1)" and s: "schema_named (tm_schema t1)" "schema_named (tm_schema t2)" and cl: "clear full lc" "clear full rc"
    and full: "full = table_names a1 (tm_schema t1) @ table_names a2 (tm_schema t2)" and ft: "ft = Types (tm_schema t1) @ Types (tm_schema t2)"
    and store: "stream_ready bp" "table_at bp t1 vals1 n1" "table_at bp t2 vals2 n2"
    and fair: "\<And>c. scan_table c = t1 \<Longrightarrow> fair c n1 (scans c)" "\<And>c. scan_table c = t2 \<Longrightarrow> fair c n2 (scans c)"
    and L: "L = table_rows t1 vals1 n1" and R: "R = table_rows t2 vals2 n2" "length R \<le> 2 ^ 32"
    and res: "Resolve full (fst lc) (snd lc) = Inr j" "Resolve full (fst rc) (snd rc) = Inr k" and cross: "j < length (tm_schema t1) \<longleftrightarrow> length (tm_schema t1) \<le> k" and t: "ft ! j = ft ! k" "ft ! j \<noteq> kFloat"
    and tab: "tab = filter (keep (BinaryE BoundOp.kEq (ColumnE j (ft ! j)) (ColumnE k (ft ! k)))) (pairs L R)" and fit: "rows_fit ft tab"
  shows "runs scans work bp root0 (map (pick (pair_cols (tm_schema t1) si1 si2)) tab) \<and> plan_types root0 = map ((!) ft) (pair_cols (tm_schema t1) si1 si2) \<and>
    (\<forall>r \<in> set tab. length r = length full)"
proof -
  let ?s1 = "tm_schema t1" and ?s2 = "tm_schema t2" and ?c1 = "col_indices si1" and ?c2 = "col_indices si2"
  let ?m = "length ?s1" and ?cols = "pair_cols ?s1 si1 si2"
  note k1 = scan_columns_ok [OF sc(1)] and k2 = scan_columns_ok [OF sc(2)] and f1 = ColumnScan_fields [OF c(1)] and f2 = ColumnScan_fields [OF c(2)]
  have types: "scan_types c1 @ scan_types c2 = map ((!) ft) ?cols"
    using f1(4) f2(4) k1(1) k2(1) pair_cols_ok(3) [OF sc, of "Types ?s1"] by (simp add: ft Types_def)
  have tables: "scan_table c1 = t1" "scan_table c2 = t2" using f1(1) f2(1) k1(1) k2(1) by simp_all
  have rL: "runs scans work bp (ScanP c1) (map (pick ?c1) L)" unfolding L by (rule scan_rows [where scans = scans, OF sc(1) c(1) store(1,2) fair(1) [OF tables(1)]])
  have rR: "runs scans work bp (ScanP c2) (map (pick ?c2) R)" unfolding R(1) by (rule scan_rows [where scans = scans, OF sc(2) c(2) store(1,3) fair(2) [OF tables(2)]])
  obtain lk rk where keys: "root0 = JoinP (ScanP c1) (ScanP c2) lk rk" "lk < length ?c1" "rk < length ?c2"
    "j = ?c1 ! lk \<and> k = ?m + ?c2 ! rk \<or> k = ?c1 ! lk \<and> j = ?m + ?c2 ! rk"
    using join_plan_keys [OF plan sc dir s full cl res cross] by blast
  have fits: "\<forall>l \<in> set L. list_all2 value_fits (Types ?s1) l" "\<forall>r \<in> set R. list_all2 value_fits (Types ?s2) r"
    using table_rows_fit [OF store(2)] table_rows_fit [OF store(3)] by (simp_all add: L R(1))
  have lens: "\<forall>l \<in> set L. length l = ?m" "\<forall>r \<in> set R. length r = length ?s2" using fits by (auto simp: Types_def dest!: bspec list_all2_lengthD)
  have k: "?c1 ! lk < ?m" "?c2 ! rk < length ?s2" using k1(6) k2(6) keys(2,3) by auto
  have kt: "ft ! (?c1 ! lk) = ft ! (?m + ?c2 ! rk)" "ft ! (?c1 ! lk) \<noteq> kFloat" using t keys(4) by auto
  have tab_join: "tab = join_rows (?c1 ! lk) (?c2 ! rk) L R" unfolding tab by (rule join_predicate_rows [symmetric, OF fits ft k kt keys(4)])
  have jr: "join_rows lk rk (map (pick ?c1) L) (map (pick ?c2) R) = map (pick ?cols) tab"
    unfolding tab_join pair_cols_def by (rule join_rows_pick) (use lens k1(6) k2(6) keys(2,3) in auto)
  have "rows_fit (map ((!) ft) ?cols) (map (pick ?cols) (filter (\<lambda>_. True) tab))"
    by (rule rows_fit_pick [OF fit]) (use pair_cols_ok(2) [OF sc] in \<open>simp add: ft Types_def\<close>)
  then have "rows_fit (scan_types c1 @ scan_types c2) (join_rows lk rk (map (pick ?c1) L) (map (pick ?c2) R))" unfolding types jr by simp
  moreover have "length (map (pick ?c2) R) \<le> 2 ^ 32" using R(2) by simp
  ultimately have "runs scans work bp root0 (map (pick ?cols) tab)"
    using runs_join [OF rL rR, of lk rk] keys(1-3) f1(4) f2(4) unfolding jr by simp
  moreover have "plan_types root0 = map ((!) ft) ?cols" using keys(1) types by simp
  moreover have "\<forall>r \<in> set tab. length r = length full" using lens by (auto simp: tab set_pairs full)
  ultimately show ?thesis by blast
qed

lemma bottom_join:
  fixes full :: "string list" and ft :: "ColumnType list"
  assumes plan: "bottom_plan stmt [(t1, a1), (t2, a2)] needed = Inr (names, types, root)"
    and s: "schema_named (tm_schema t1)" "schema_named (tm_schema t2)"
    and full: "full = table_names a1 (tm_schema t1) @ table_names a2 (tm_schema t2)" and ft: "ft = Types (tm_schema t1) @ Types (tm_schema t2)"
    and store: "stream_ready bp" "table_at bp t1 vals1 n1" "table_at bp t2 vals2 n2"
    and fair: "\<And>c. scan_table c = t1 \<Longrightarrow> fair c n1 (scans c)" "\<And>c. scan_table c = t2 \<Longrightarrow> fair c n2 (scans c)"
    and L: "L = table_rows t1 vals1 n1" and R: "R = table_rows t2 vals2 n2" and ok: "join_ok stmt full ft a1 a2 (length (tm_schema t1)) L R"
  shows "\<exists>cols. distinct cols \<and> (\<forall>k \<in> set cols. k < length full) \<and>
    ((\<forall>c \<in> set (tm_schema t1). (a1, col_name c) \<in> set needed) \<longrightarrow> (\<forall>c \<in> set (tm_schema t2). (a2, col_name c) \<in> set needed) \<longrightarrow> cols = [0..<length full]) \<and>
    names = map ((!) full) cols \<and> types = map ((!) ft) cols \<and> plan_types root = types \<and>
    runs scans work bp root (map (pick cols) (where_rows full ft (where_clause stmt) (pairs L R)))"
proof -
  let ?s1 = "tm_schema t1" and ?s2 = "tm_schema t2" and ?m = "length (tm_schema t1)"
  obtain w i lc rc b where o: "where_clause stmt = Some w" "Bind full ft w = Inr b" "find_join (Flatten w) = Some (i, lc, rc)" "\<not> (fst lc = a2 \<or> fst rc = a1)"
    "\<And>j k. Resolve full (fst lc) (snd lc) = Inr j \<Longrightarrow> Resolve full (fst rc) (snd rc) = Inr k \<Longrightarrow> (j < ?m \<longleftrightarrow> ?m \<le> k) \<and> ft ! j = ft ! k \<and> ft ! j \<noteq> kFloat"
    "rows_fit ft (where_rows full ft (Some (Flatten w ! i)) (pairs L R))" "\<forall>e \<in> set (Flatten w). where_ok full ft (Some e) (pairs L R)" "length R \<le> 2 ^ 32" "clear_refs full stmt"
    using ok unfolding join_ok_def by blast
  let ?rest = "take i (Flatten w) @ drop (Suc i) (Flatten w)"
  obtain needed1 needed2 needed3 si1 si2 c1 c2 root0 pred where p: "set needed \<subseteq> set needed1"
    "scan_columns needed1 (t1, a1) = Inr (needed2, si1)" "scan_columns needed2 (t2, a2) = Inr (needed3, si2)"
    "ColumnScan (si_table si1) (si_alias si1) (col_indices si1) = Inr c1" "ColumnScan (si_table si2) (si_alias si2) (col_indices si2) = Inr c2"
    "names = scan_names c1 @ scan_names c2" "types = scan_types c1 @ scan_types c2" "join_plan [si1, si2] [c1, c2] lc rc = Inr root0"
    "bind_conjuncts names types ?rest = Inr pred" "root = (case pred of None \<Rightarrow> root0 | Some p \<Rightarrow> FilterP root0 p)"
    by (rule bottom_join_parts [OF plan o(1,3)]) blast
  note f1 = ColumnScan_fields [OF p(4)] and f2 = ColumnScan_fields [OF p(5)] and k1 = scan_columns_ok(1,2) [OF p(2)] and k2 = scan_columns_ok(1,2) [OF p(3)]
  define cols where "cols = pair_cols ?s1 si1 si2"
  have len: "length ft = length full" by (simp add: Types_def ft full)
  have cols: "distinct cols" "\<forall>k \<in> set cols. k < length full" using pair_cols_ok(1,2) [OF p(2,3)] by (simp_all add: cols_def full)
  have names: "names = map ((!) full) cols" using p(6) f1(3) f2(3) k1 k2 pair_cols_ok(3) [OF p(2,3), of "table_names a1 ?s1"] by (simp add: full cols_def)
  have types: "types = map ((!) ft) cols" using p(7) f1(4) f2(4) k1 k2 pair_cols_ok(3) [OF p(2,3), of "Types ?s1"] by (simp add: ft cols_def Types_def)
  note js = find_join_Some [OF o(3)]
  have jc: "Flatten w ! i \<in> set (Flatten w)" using js(1) by simp
  obtain j k where jk: "Resolve full (fst lc) (snd lc) = Inr j" "Resolve full (fst rc) (snd rc) = Inr k"
    "Bind full ft (Flatten w ! i) = Inr (BinaryE BoundOp.kEq (ColumnE j (ft ! j)) (ColumnE k (ft ! k)))"
    using conjunct_binds [OF o(2) jc] js(2) by (auto simp: bind_name_ok)
  let ?cj = "BinaryE BoundOp.kEq (ColumnE j (ft ! j)) (ColumnE k (ft ! k))"
  let ?tab = "filter (keep ?cj) (pairs L R)"
  have fit: "rows_fit ft ?tab" using o(6) by (simp add: where_rows_def jk(3))
  have kt: "j < ?m \<longleftrightarrow> ?m \<le> k" "ft ! j = ft ! k" "ft ! j \<noteq> kFloat" using o(5) [OF jk(1,2)] by blast+
  have cl: "\<forall>e \<in> set (Flatten w). \<forall>c \<in> expr_refs e. clear full c"
    using o(1,9) conjunct_refs [of _ w] by (auto simp: clear_refs_def stmt_refs_def opt_refs_def)
  have cj: "clear full lc" "clear full rc" using cl jc js(2) by fastforce+
  from join_root_rows [OF p(2-5,8) o(4) s cj full ft store fair L R o(8) jk(1,2) kt refl fit, of work]
  have run0: "runs scans work bp root0 (map (pick cols) ?tab)" "plan_types root0 = map ((!) ft) cols" "\<forall>r \<in> set ?tab. length r = length full"
    by (simp_all add: cols_def)
  have wok: "\<forall>e \<in> set ?rest. where_ok full ft (Some e) ?tab"
  proof
    fix e assume "e \<in> set ?rest"
    then have "where_ok full ft (Some e) (pairs L R)" using o(7) by (auto dest: in_set_takeD in_set_dropD)
    moreover have "set ?tab \<subseteq> set (pairs L R)" by auto
    ultimately show "where_ok full ft (Some e) ?tab" using fast_safe_mono unfolding where_ok_def by blast
  qed
  have rest: "\<forall>e \<in> set ?rest. \<forall>c \<in> expr_refs e. clear full c" using cl by (auto dest: in_set_takeD in_set_dropD)
  from residual_filter [OF p(9) [unfolded names types] p(10) run0(1,2) rest cols len run0(3) wok]
  have run: "runs scans work bp root (map (pick cols) (filter (all_keep full ft ?rest) ?tab))" "plan_types root = types" unfolding types by simp_all
  have split: "Flatten w = take i (Flatten w) @ Flatten w ! i # drop (Suc i) (Flatten w)" using js(1) by (rule id_take_nth_drop)
  have "all_keep full ft (Flatten w) r \<longleftrightarrow> keep ?cj r \<and> all_keep full ft ?rest r" for r by (subst split) (simp add: jk(3) conj_ac)
  then have "filter (all_keep full ft ?rest) ?tab = where_rows full ft (where_clause stmt) (pairs L R)"
    unfolding filter_filter_eq o(1) where_rows_conjuncts [OF o(2,7)] by (intro filter_cong) auto
  then have run1: "runs scans work bp root (map (pick cols) (where_rows full ft (where_clause stmt) (pairs L R)))" using run(1) by simp
  have "cols = [0..<length full]" if "\<forall>c \<in> set ?s1. (a1, col_name c) \<in> set needed" "\<forall>c \<in> set ?s2. (a2, col_name c) \<in> set needed"
  proof -
    have "col_indices si1 = [0..<?m]" by (rule scan_all_columns [OF p(2)]) (use s that(1) p(1) in blast)+
    moreover have "col_indices si2 = [0..<length ?s2]"
      by (rule scan_all_columns [OF p(3)]) (use s that(2) p(1) scan_columns_mono [OF p(2)] in blast)+
    moreover have "map ((+) ?m) [0..<length ?s2] = [?m..<?m + length ?s2]" by (rule nth_equalityI) simp_all
    ultimately show ?thesis using upt_add_eq_append [of 0 ?m "length ?s2"] by (simp add: cols_def pair_cols_def full)
  qed
  then show ?thesis using cols names types run(2) run1 by blast
qed

section \<open>Queries over two tables\<close>

lemma query_rows_kept: "query_rows single names types stmt (where_rows names types (where_clause stmt) tab) = query_rows single names types stmt tab"
proof -
  have "where_rows names types (where_clause stmt) (where_rows names types (where_clause stmt) tab) = where_rows names types (where_clause stmt) tab"
    by (auto simp: where_rows_def split: option.splits sum.splits)
  then show ?thesis by (simp add: query_rows_def)
qed

text \<open>The result of a query over the pairs \<open>tab\<close> of rows of its tables, and what is asked of it.\<close>

definition pair_result :: "string list \<Rightarrow> ColumnType list \<Rightarrow> select \<Rightarrow> Value list list \<Rightarrow> string list \<Rightarrow> Value list list \<Rightarrow> bool" where
  "pair_result names types stmt tab hdr out \<longleftrightarrow>
     (if aggregated stmt then group_result names types stmt (where_rows names types (where_clause stmt) tab) hdr out
      else query_rows False names types stmt tab = Inr (hdr, out))"

definition pair_ok :: "string list \<Rightarrow> ColumnType list \<Rightarrow> select \<Rightarrow> Value list list \<Rightarrow> bool" where
  "pair_ok names types stmt tab \<longleftrightarrow>
     (let krows = where_rows names types (where_clause stmt) tab in
      if aggregated stmt then groups_ok names types stmt krows
      else order_by_clause stmt \<noteq> None \<longrightarrow> rows_fit types krows \<and> (\<forall>r \<in> set krows. \<forall>v \<in> set r. \<not> is_nan_value v))"

lemma PlanSelect_pairs:
  fixes full :: "string list" and ft :: "ColumnType list"
  assumes plan: "PlanSelect stmt catalog = Inr p" and two: "select.tables stmt = [tr1, tr2]"
    and tbl: "GetTable catalog (tr_name tr1) = Some t1" "GetTable catalog (tr_name tr2) = Some t2"
    and a: "a1 = (if tr_alias tr1 = [] then tr_name tr1 else tr_alias tr1)" "a2 = (if tr_alias tr2 = [] then tr_name tr2 else tr_alias tr2)"
    and s: "schema_named (tm_schema t1)" "schema_named (tm_schema t2)"
    and full: "full = table_names a1 (tm_schema t1) @ table_names a2 (tm_schema t2)" and ft: "ft = Types (tm_schema t1) @ Types (tm_schema t2)"
    and store: "stream_ready bp" "table_at bp t1 vals1 n1" "table_at bp t2 vals2 n2"
    and fair: "\<And>c. scan_table c = t1 \<Longrightarrow> fair c n1 (scans c)" "\<And>c. scan_table c = t2 \<Longrightarrow> fair c n2 (scans c)"
    and L: "L = table_rows t1 vals1 n1" and R: "R = table_rows t2 vals2 n2" and ok: "join_ok stmt full ft a1 a2 (length (tm_schema t1)) L R"
    and work: "valid_schedule work" and up: "pair_ok full ft stmt (pairs L R)"
  shows "\<exists>out. pair_result full ft stmt (pairs L R) (plan_names p) out \<and> runs scans work bp p out"
proof -
  let ?w = "where_clause stmt"
  obtain needed names types root q where b: "needed_columns [(t1, a1), (t2, a2)] stmt = Inr needed"
    "bottom_plan stmt [(t1, a1), (t2, a2)] needed = Inr (names, types, root)"
    "(if aggregated stmt then bindR (aggregate_plan stmt names types root) (\<lambda>p. case order_by_clause stmt of None \<Rightarrow> Inr p
       | Some ob \<Rightarrow> bindR (Resolve (plan_names p) [] (ob_output_name ob)) (\<lambda>i. Inr (OrderByP p i (descending ob))))
     else plain_plan stmt False names root) = Inr q" "p = (case limit_clause stmt of None \<Rightarrow> q | Some k \<Rightarrow> LimitP q k)"
    using plan two tbl by (auto simp: PlanSelect_def resolve_table_def a cong: if_cong)
  from bottom_join [OF b(2) s full ft store fair L R ok, of work] obtain cols where c: "distinct cols" "\<forall>k \<in> set cols. k < length full"
    "(\<forall>c \<in> set (tm_schema t1). (a1, col_name c) \<in> set needed) \<longrightarrow> (\<forall>c \<in> set (tm_schema t2). (a2, col_name c) \<in> set needed) \<longrightarrow> cols = [0..<length full]"
    "names = map ((!) full) cols" "types = map ((!) ft) cols" "plan_types root = map ((!) ft) cols"
    "runs scans work bp root (map (pick cols) (where_rows full ft ?w (pairs L R)))" by auto
  have len: "length ft = length full" by (simp add: full ft Types_def)
  have cl: "clear_refs full stmt" using ok by (simp add: join_ok_def)
  obtain P where P: "where_rows full ft ?w (pairs L R) = filter P (pairs L R)" using where_rows_filter by blast
  show ?thesis
  proof (cases "aggregated stmt")
    case True
    obtain p1 where p1: "aggregate_plan stmt (map ((!) full) cols) (map ((!) ft) cols) root = Inr p1"
      "(case order_by_clause stmt of None \<Rightarrow> Inr p1 | Some ob \<Rightarrow> bindR (Resolve (plan_names p1) [] (ob_output_name ob)) (\<lambda>i. Inr (OrderByP p1 i (descending ob)))) = Inr q"
      using b(3) True c(4,5) by auto
    have "length l = length (tm_schema t1)" if "l \<in> set L" for l using list_all2_lengthD [OF table_rows_fit [OF store(2)]] that by (simp add: L Types_def)
    moreover have "length r = length (tm_schema t2)" if "r \<in> set R" for r using list_all2_lengthD [OF table_rows_fit [OF store(3)]] that by (simp add: R Types_def)
    ultimately have "\<forall>r \<in> set (where_rows full ft ?w (pairs L R)). length r = length full"
      unfolding P by (auto simp: set_pairs full)
    from grouped_query [OF p1 b(4) c(7) this cl len c(1,2,6) work] show ?thesis using up True by (auto simp: pair_ok_def pair_result_def)
  next
    case False
    have star: "select_star stmt \<Longrightarrow> cols = [0..<length full]" using c(3) needed_star [OF b(1), of t1 a1] needed_star [OF b(1), of t2 a2] by auto
    have plain: "plain_plan stmt False (map ((!) full) cols) root = Inr q" using b(3) False c(4) by simp
    let ?kept = "where_rows full ft ?w (pairs L R)"
    have run: "runs scans work bp root (map (pick cols) (where_rows full ft ?w ?kept))"
      using c(7) by (simp add: where_rows_def split: option.splits sum.splits)
    have ord: "order_by_clause stmt \<noteq> None \<Longrightarrow> rows_fit ft ?kept \<and> (\<forall>r \<in> set ?kept. \<forall>v \<in> set r. \<not> is_nan_value v)"
      using up False by (simp add: pair_ok_def Let_def)
    from plain_query [OF plain b(4) run cl False len c(1,2) star c(6) ord] show ?thesis
      using False by (simp add: pair_result_def query_rows_kept)
  qed
qed

section \<open>A predicate that names the second table first\<close>

text \<open>C40. When the join predicate names the second table of \<open>FROM\<close> on its left or the first one on its right,
  the planner exchanges the inputs of the join, but everything above the join is bound to the
  columns in the order of \<open>FROM\<close>: the columns of the rows that the bottom of the plan produces are
  those of the second table followed by those of the first, while \<open>WHERE\<close>, \<open>GROUP BY\<close> and the
  \<open>SELECT\<close> items are resolved in the list with the first table's columns first.\<close>

theorem reversed_join_columns:
  assumes "bottom_plan stmt [(t1, a1), (t2, a2)] needed = Inr (names, types, root)" and "where_clause stmt = Some w"
    and "find_join (Flatten w) = Some (i, lc, rc)" and "fst lc = a2 \<or> fst rc = a1"
  shows "\<exists>cols1 cols2. cols1 \<noteq> [] \<and> cols2 \<noteq> [] \<and>
    names = map ((!) (table_names a1 (tm_schema t1))) cols1 @ map ((!) (table_names a2 (tm_schema t2))) cols2 \<and>
    plan_names root = map ((!) (table_names a2 (tm_schema t2))) cols2 @ map ((!) (table_names a1 (tm_schema t1))) cols1"
proof -
  obtain needed1 needed2 needed3 si1 si2 c1 c2 root0 pred where p: "set needed \<subseteq> set needed1"
    "scan_columns needed1 (t1, a1) = Inr (needed2, si1)" "scan_columns needed2 (t2, a2) = Inr (needed3, si2)"
    "ColumnScan (si_table si1) (si_alias si1) (col_indices si1) = Inr c1" "ColumnScan (si_table si2) (si_alias si2) (col_indices si2) = Inr c2"
    "names = scan_names c1 @ scan_names c2" "types = scan_types c1 @ scan_types c2" "join_plan [si1, si2] [c1, c2] lc rc = Inr root0"
    "bind_conjuncts names types (take i (Flatten w) @ drop (Suc i) (Flatten w)) = Inr pred"
    "root = (case pred of None \<Rightarrow> root0 | Some p \<Rightarrow> FilterP root0 p)"
    by (rule bottom_join_parts [OF assms(1-3)]) blast
  note k1 = scan_columns_ok [OF p(2)] and k2 = scan_columns_ok [OF p(3)]
  have n: "scan_names c1 = map ((!) (table_names a1 (tm_schema t1))) (col_indices si1)" "scan_names c2 = map ((!) (table_names a2 (tm_schema t2))) (col_indices si2)"
    using ColumnScan_fields(3) [OF p(4)] ColumnScan_fields(3) [OF p(5)] k1(1,2) k2(1,2) by simp_all
  obtain lk rk where "root0 = JoinP (ScanP c2) (ScanP c1) lk rk" using p(8) assms(4) k1(2) k2(2) by (auto simp: join_plan_def Let_def)
  then have "plan_names root = scan_names c2 @ scan_names c1" using p(10) by (cases pred) simp_all
  then have "plan_names root = map ((!) (table_names a2 (tm_schema t2))) (col_indices si2) @ map ((!) (table_names a1 (tm_schema t1))) (col_indices si1)"
    using n by simp
  moreover have "names = map ((!) (table_names a1 (tm_schema t1))) (col_indices si1) @ map ((!) (table_names a2 (tm_schema t2))) (col_indices si2)"
    using p(6) n by simp
  ultimately show ?thesis using k1(3) k2(3) by (intro exI [of _ "col_indices si1"] exI [of _ "col_indices si2"]) simp
qed

text \<open>The theorem at \<open>SELECT o.x FROM o, c WHERE c.id = o.cid\<close>: the column returned under the header \<open>x\<close> is \<open>o.cid\<close>.\<close>

definition reversed_stmt :: select where
  "reversed_stmt = \<lparr>select_star = False, items = [\<lparr>item_expr = ColumnRefExpr (''o'', ''x''), output_alias = []\<rparr>],
     tables = [\<lparr>tr_name = ''o'', tr_alias = []\<rparr>, \<lparr>tr_name = ''c'', tr_alias = []\<rparr>],
     where_clause = Some (BinaryExpr BinOp.kEq (ColumnRefExpr (''c'', ''id'')) (ColumnRefExpr (''o'', ''cid''))), group_by = [], having = None,
     order_by_clause = None, limit_clause = None\<rparr>"

definition sample_o :: TableMeta where
  "sample_o = \<lparr>tm_name = ''o'', tm_schema = [\<lparr>col_name = ''cid'', col_type = kInt, varchar_len = 0, column_index = 0\<rparr>,
     \<lparr>col_name = ''x'', col_type = kInt, varchar_len = 0, column_index = 1\<rparr>], row_groups = []\<rparr>"

definition sample_c :: TableMeta where
  "sample_c = \<lparr>tm_name = ''c'', tm_schema = [\<lparr>col_name = ''id'', col_type = kInt, varchar_len = 0, column_index = 0\<rparr>], row_groups = []\<rparr>"

lemma reversed_bottom:
  "\<exists>types root. bottom_plan reversed_stmt [(sample_o, ''o''), (sample_c, ''c'')] [(''o'', ''x'')] = Inr ([''o.cid'', ''o.x'', ''c.id''], types, root) \<and>
     plan_names root = [''c.id'', ''o.cid'', ''o.x''] \<and>
     PlanSelect reversed_stmt \<lparr>Catalog.tables = [(''o'', sample_o), (''c'', sample_c)]\<rparr> = Inr (ProjectionP root [1] [''x''])"
  by (simp add: Let_def PlanFail_def PlanSelect_def reversed_stmt_def sample_o_def sample_c_def resolve_table_def GetTable_def aggregated_def HasAggregates_def
    needed_columns_def add_ref_def owning_alias_def FindColumn_def walk_opt_def bottom_plan_def find_join_def join_plan_def scan_pos_def scan_columns_def GetColumn_def
    ColumnScan_def where_plan_def bind_conjuncts_def bind_name_def Resolve_def EndsWith_def
    plain_plan_def projection_items_def plain_item_def item_name_def last_index_def project_def)

theorem reversed_join_columns_witness:
  "\<exists>types root cols1 cols2. PlanSelect reversed_stmt \<lparr>Catalog.tables = [(''o'', sample_o), (''c'', sample_c)]\<rparr> = Inr (ProjectionP root [1] [''x'']) \<and>
     bottom_plan reversed_stmt [(sample_o, ''o''), (sample_c, ''c'')] [(''o'', ''x'')] = Inr ([''o.cid'', ''o.x'', ''c.id''], types, root) \<and>
     plan_names root = [''c.id'', ''o.cid'', ''o.x''] \<and> cols2 \<noteq> [] \<and>
     plan_names root = map ((!) (table_names ''c'' (tm_schema sample_c))) cols2 @ map ((!) (table_names ''o'' (tm_schema sample_o))) cols1"
proof -
  obtain types root where r: "bottom_plan reversed_stmt [(sample_o, ''o''), (sample_c, ''c'')] [(''o'', ''x'')] = Inr ([''o.cid'', ''o.x'', ''c.id''], types, root)"
    "plan_names root = [''c.id'', ''o.cid'', ''o.x'']"
    "PlanSelect reversed_stmt \<lparr>Catalog.tables = [(''o'', sample_o), (''c'', sample_c)]\<rparr> = Inr (ProjectionP root [1] [''x''])"
    using reversed_bottom by blast
  have w: "where_clause reversed_stmt = Some (BinaryExpr BinOp.kEq (ColumnRefExpr (''c'', ''id'')) (ColumnRefExpr (''o'', ''cid'')))"
    by (simp add: reversed_stmt_def)
  have j: "find_join (Flatten (BinaryExpr BinOp.kEq (ColumnRefExpr (''c'', ''id'')) (ColumnRefExpr (''o'', ''cid'')))) = Some (0, (''c'', ''id''), (''o'', ''cid''))"
    by (simp add: find_join_def)
  obtain cols1 cols2 where "cols2 \<noteq> []"
    "plan_names root = map ((!) (table_names ''c'' (tm_schema sample_c))) cols2 @ map ((!) (table_names ''o'' (tm_schema sample_o))) cols1"
    using reversed_join_columns [OF r(1) w j] by auto
  with r show ?thesis by (intro exI [of _ types] exI [of _ root] exI [of _ cols1] exI [of _ cols2]) (rule conjI | assumption)+
qed

end
