(* ===== verification/Database_Joins.thy ===== *)
theory Database_Joins
  imports Database_Queries Join_Queries
begin

text \<open>
  Queries over two tables in a session, and a session that joins two tables.
\<close>

section \<open>Joins in a session\<close>


section \<open>A session that joins two tables\<close>

definition u_schema :: schema where
  "u_schema = [\<lparr>col_name = ''a'', col_type = kInt, varchar_len = 0, column_index = 0\<rparr>]"

definition u_defs :: "ColumnDef list" where
  "u_defs = [\<lparr>cd_name = ''a'', cd_type = kInt, cd_varchar_len = 0\<rparr>]"

abbreviation nine :: "Value list" where
  "nine \<equiv> [Int32 4, Null, Int32 9]"

definition pair_catalog :: "RowGroup list \<Rightarrow> RowGroup list \<Rightarrow> Catalog" where
  "pair_catalog gt gu = \<lparr>Catalog.tables = [(''t'', \<lparr>tm_name = ''t'', tm_schema = sample_schema, row_groups = gt\<rparr>),
     (''u'', \<lparr>tm_name = ''u'', tm_schema = u_schema, row_groups = gu\<rparr>)]\<rparr>"

definition pair_db :: "pool \<Rightarrow> db" where
  "pair_db bp = \<lparr>db_pool = bp, db_catalog = pair_catalog [] [], pending = [(''t'', [nine]), (''u'', [nine])], closed = False\<rparr>"

definition pair_contents :: contents where
  "pair_contents = sample_contents(''u'' \<mapsto> (u_schema, [[Int32 4], [Null], [Int32 9]]))"

lemma pair_catalog_size:
  "length (catalog_body (pair_catalog [] [])) \<le> 3000" "length (catalog_body (pair_catalog [\<lparr>RowGroup.num_rows = 3, column_roots = [pid]\<rparr>] [])) \<le> 3000"
  by (simp_all add: catalog_body_def pair_catalog_def sample_schema_def u_schema_def put_table_def Serialize_def put_column_def put_row_group_def Let_def)

lemma small_pages: "length bs \<le> 4000 \<Longrightarrow> pages_needed bs = 1" "n \<le> 4000 \<Longrightarrow> pages_for n = 1"
  by (auto simp: pages_needed_def pages_for_def PayloadCapacity_def kPageSize_def kHeaderSize_def max_def)

lemma pair_session: obtains bp where "session (pair_db bp) pair_contents" "pages bp \<le> 3"
proof -
  obtain bp where s: "session (sample_db bp) sample_contents" "pages bp \<le> 2" by (rule sample_session)
  obtain ids where r: "db_rep ids (sample_db bp) sample_contents" using session_rep [OF s(1)] by blast
  have bp: "db_pool (sample_db bp) = bp" "closed (sample_db bp) = False" by (simp_all add: sample_db_def)
  note D = db_repD [OF r]
  have size: "pages_needed (catalog_body (pair_catalog [] [])) = 1" using pair_catalog_size(1) by (intro small_pages) simp
  obtain ids' d where p: "Persist (pair_catalog [] []) (disk_manager bp) = Some (Inr (), d)" "num_pages d \<le> pages bp + pages_needed (catalog_body (pair_catalog [] []))"
    by (rule Persist_moved [of ids bp "pair_catalog [] []"]) (use D(2) s(2) size bp(1) in auto)
  have schema: "table_schema u_defs = Inr u_schema" by (simp add: table_schema_def u_defs_def u_schema_def Schema_eq kMaxColumnNameLen_def)
  have create: "CreateTable (db_catalog (sample_db bp)) ''u'' u_schema = Inr (pair_catalog [] [])"
    by (simp add: sample_db_def CreateTable_def GetTable_def pair_catalog_def)
  let ?bp = "bp\<lparr>disk_manager := d\<rparr>"
  let ?db1 = "(pair_db ?bp)\<lparr>pending := [(''t'', [nine]), (''u'', [[]])]\<rparr>"
  have "exec (\<lambda>_. []) (\<lambda>_. []) (CreateTableStmt ''u'' u_defs) (sample_db bp) = Some (Inr no_rows, ?db1)"
    using p(1) create schema by (simp add: exec_def create_table_def PersistCatalog_def GetTable_def NumColumns_def sample_db_def pair_db_def)
      (simp add: u_schema_def)
  moreover have "update_room (CreateTableStmt ''u'' u_defs) (sample_db bp)"
    using schema create s(2) size by (simp add: catalog_room_def bp) (simp add: u_defs_def)
  moreover have "update_contents (CreateTableStmt ''u'' u_defs) sample_contents = Some (sample_contents(''u'' \<mapsto> (u_schema, [])))"
    using schema by (simp add: sample_contents_def)
  ultimately have s1: "session ?db1 (sample_contents(''u'' \<mapsto> (u_schema, [])))" by (intro session.update [OF s(1)]) auto
  let ?ins = "InsertStmt ''u'' [[Int32 4], [Null], [Int32 9]]"
  have i: "insert_rows ''u'' [[Int32 4], [Null], [Int32 9]] ?db1 = (Inr no_rows, pair_db ?bp)"
    by (simp add: insert_rows_def pair_db_def pair_catalog_def GetTable_def NumColumns_def u_schema_def GetColumn_def Coerce_def IsNull_def)
  have "session (pair_db ?bp) pair_contents"
  proof (rule session.update [OF s1, of ?ins])
    show "update_room ?ins ?db1" by (simp add: i) (simp add: pair_db_def)
    show "update_contents ?ins (sample_contents(''u'' \<mapsto> (u_schema, []))) = Some pair_contents"
      by (simp add: coerce_row_def u_schema_def Coerce_def IsNull_def pair_contents_def)
    show "exec (\<lambda>_. []) (\<lambda>_. []) ?ins ?db1 = Some (Inr no_rows, pair_db ?bp)" using i by (simp add: exec_def)
  qed simp
  then show thesis using that p(2) s(2) size by simp
qed

lemma pair_flush:
  assumes "FlushTable ''t'' (pair_db bp) = Some (Inr (), db1)"
  obtains pid where "db_catalog db1 = pair_catalog [\<lparr>RowGroup.num_rows = 3, column_roots = [pid]\<rparr>] []" "pending db1 = [(''t'', [[]]), (''u'', [nine])]" "\<not> closed db1"
  using flush_three [OF assms, of nine "\<lparr>tm_name = ''t'', tm_schema = sample_schema, row_groups = []\<rparr>"]
  by (auto simp: pair_db_def pair_catalog_def sample_schema_def GetTable_def AddRowGroup_def dest: sym [where t = "db_catalog db1"])

lemma pair_flush2:
  assumes "FlushTable ''u'' db1 = Some (Inr (), db2)" and "db_catalog db1 = pair_catalog gs []" "pending db1 = [(''t'', [[]]), (''u'', [nine])]" "\<not> closed db1"
  shows "\<exists>pid. db_catalog db2 = pair_catalog gs [\<lparr>RowGroup.num_rows = 3, column_roots = [pid]\<rparr>]"
  using flush_three [OF assms(1), of nine "\<lparr>tm_name = ''u'', tm_schema = u_schema, row_groups = []\<rparr>"] assms(2-4)
  by (auto simp: pair_catalog_def u_schema_def GetTable_def AddRowGroup_def dest: sym [where t = "db_catalog db2"])

lemma nine_pages: "col_pages kInt nine = 1" "group_starts (Suc (Suc (Suc 0))) = [0]"
proof -
  show "col_pages kInt nine = 1" using sample_column_length by (simp add: col_pages_def PayloadCapacity_def kPageSize_def kHeaderSize_def)
  have "group_starts 3 = [0]" by (simp add: group_starts_def kRowGroupSize_def)
  then show "group_starts (Suc (Suc (Suc 0))) = [0]" by (simp add: numeral_3_eq_3)
qed

lemma pair_costs:
  "flush_cost ''t'' (pair_db bp) = 2"
  "db_catalog db1 = pair_catalog [\<lparr>RowGroup.num_rows = 3, column_roots = [pid]\<rparr>] [] \<Longrightarrow> pending db1 = [(''t'', [[]]), (''u'', [nine])] \<Longrightarrow> flush_cost ''u'' db1 = 2"
proof -
  have "flush_bytes ''t'' (pair_db bp) = 12" by (simp add: flush_bytes_def pair_db_def pair_catalog_def GetTable_def sample_schema_def nine_pages)
  moreover have "pages_for (length (catalog_body (pair_catalog [] [])) + 12) = 1" by (rule small_pages(2)) (use pair_catalog_size(1) in simp)
  ultimately show "flush_cost ''t'' (pair_db bp) = 2"
    by (simp add: flush_cost_def pair_db_def GetTable_def) (simp add: pair_catalog_def sample_schema_def flush_pages_def cols_pages_def nine_pages segment_def kRowGroupSize_def)
next
  assume db1: "db_catalog db1 = pair_catalog [\<lparr>RowGroup.num_rows = 3, column_roots = [pid]\<rparr>] []" "pending db1 = [(''t'', [[]]), (''u'', [nine])]"
  have "flush_bytes ''u'' db1 = 12" by (simp add: flush_bytes_def db1 pair_catalog_def GetTable_def u_schema_def nine_pages)
  moreover have "pages_for (length (catalog_body (db_catalog db1)) + 12) = 1" by (rule small_pages(2)) (use pair_catalog_size(2) [of pid] db1 in simp)
  ultimately show "flush_cost ''u'' db1 = 2"
    by (simp add: flush_cost_def GetTable_def db1) (simp add: db1 pair_catalog_def u_schema_def flush_pages_def cols_pages_def nine_pages segment_def kRowGroupSize_def)
qed

lemma pair_rooms:
  assumes s: "session (pair_db bp) pair_contents" and "pages bp \<le> 3"
  shows "flush_rooms [''t'', ''u''] (pair_db bp)"
proof -
  obtain ids where r: "db_rep ids (pair_db bp) pair_contents" using session_rep [OF s] by blast
  have bp: "db_pool (pair_db bp) = bp" by (simp add: pair_db_def)
  have t: "flush_room ''t'' (pair_db bp)" using assms(2) by (simp add: flush_room_def pair_costs(1) bp)
  have "flush_room ''u'' db1" if f: "FlushTable ''t'' (pair_db bp) = Some (Inr (), db1)" for db1
  proof -
    obtain ids1 db1' where "FlushTable ''t'' (pair_db bp) = Some (Inr (), db1')" "pages (db_pool db1') \<le> pages (db_pool (pair_db bp)) + flush_cost ''t'' (pair_db bp)"
      by (rule FlushTable_rep [OF r t]) blast
    then have "pages (db_pool db1) \<le> 5" using f assms(2) by (simp add: pair_costs(1) bp)
    moreover obtain pid where "db_catalog db1 = pair_catalog [\<lparr>RowGroup.num_rows = 3, column_roots = [pid]\<rparr>] []" "pending db1 = [(''t'', [[]]), (''u'', [nine])]"
      by (rule pair_flush [OF f])
    ultimately show ?thesis by (simp add: flush_room_def pair_costs(2))
  qed
  then show ?thesis using t by (auto split: option.splits sum.splits)
qed

text \<open>\<open>SELECT t.a FROM t, u WHERE t.a = u.a\<close>, over two columns that both hold 4, NULL and 9.\<close>

definition pair_stmt :: select where
  "pair_stmt = \<lparr>select_star = False, items = [\<lparr>item_expr = ColumnRefExpr (''t'', ''a''), output_alias = []\<rparr>],
     tables = [\<lparr>tr_name = ''t'', tr_alias = []\<rparr>, \<lparr>tr_name = ''u'', tr_alias = []\<rparr>],
     where_clause = Some (BinaryExpr BinOp.kEq (ColumnRefExpr (''t'', ''a'')) (ColumnRefExpr (''u'', ''a''))), group_by = [], having = None,
     order_by_clause = None, limit_clause = None\<rparr>"

lemma pair_plan: "\<exists>p. PlanSelect pair_stmt (pair_catalog [g] [h]) = Inr p \<and> plan_names p = [''a'']"
  by (simp add: Let_def PlanFail_def PlanSelect_def pair_stmt_def pair_catalog_def sample_schema_def u_schema_def resolve_table_def GetTable_def aggregated_def HasAggregates_def
    needed_columns_def add_ref_def owning_alias_def FindColumn_def walk_opt_def bottom_plan_def find_join_def join_plan_def scan_pos_def scan_columns_def GetColumn_def
    ColumnScan_def where_plan_def bind_conjuncts_def bind_name_def Resolve_def EndsWith_def
    plain_plan_def projection_items_def plain_item_def item_name_def last_index_def project_def)

abbreviation nines :: "Value list list" where
  "nines \<equiv> [[Int32 4], [Null], [Int32 9]]"

lemma pair_names: "table_names ''t'' sample_schema @ table_names ''u'' u_schema = [''t.a'', ''u.a'']" "Types sample_schema @ Types u_schema = [kInt, kInt]"
  "schema_named sample_schema" "schema_named u_schema"
  by (simp_all add: table_names_def sample_schema_def u_schema_def Types_def schema_named_def plain_def)

lemma pair_bind: "Bind [''t.a'', ''u.a''] [kInt, kInt] (BinaryExpr BinOp.kEq (ColumnRefExpr (''t'', ''a'')) (ColumnRefExpr (''u'', ''a''))) =
    Inr (BinaryE BoundOp.kEq (ColumnE 0 kInt) (ColumnE 1 kInt))"
  by (simp add: bind_name_def Resolve_def)

lemma pair_eval: "\<forall>r \<in> set (pairs nines nines). eval_row (BinaryE BoundOp.kEq (ColumnE 0 kInt) (ColumnE 1 kInt)) r = Inr (truth (r ! 0 \<noteq> Null \<and> r ! 1 = r ! 0))"
proof
  fix r assume "r \<in> set (pairs nines nines)"
  then obtain x y where r: "r = [x, y]" "x \<in> set nine" "y \<in> set nine" by (auto simp: pairs_def)
  have e: "eval_row (BinaryE BoundOp.kEq (ColumnE 0 kInt) (ColumnE 1 kInt)) r = CompareResult BoundOp.kEq x y" by (simp add: r(1) eval_row_def is_arith_def)
  show "eval_row (BinaryE BoundOp.kEq (ColumnE 0 kInt) (ColumnE 1 kInt)) r = Inr (truth (r ! 0 \<noteq> Null \<and> r ! 1 = r ! 0))"
  proof (cases "x = Null \<or> y = Null")
    case True
    then show ?thesis unfolding e by (cases "x = Null") (auto simp: r(1) CompareResult_def IsNull_def intro!: arg_cong [of _ _ truth])
  next
    case False
    then show ?thesis unfolding e using compare_equal [of kInt x y] r by auto
  qed
qed

lemma pair_rows: "where_rows [''t.a'', ''u.a''] [kInt, kInt] (where_clause pair_stmt) (pairs nines nines) = [[Int32 4, Int32 4], [Int32 9, Int32 9]]"
proof -
  have "filter (keep (BinaryE BoundOp.kEq (ColumnE 0 kInt) (ColumnE 1 kInt))) (pairs nines nines) = filter (\<lambda>r. r ! 0 \<noteq> Null \<and> r ! 1 = r ! 0) (pairs nines nines)"
    using pair_eval by (auto simp: keep_def intro!: filter_cong)
  also have "\<dots> = [[Int32 4, Int32 4], [Int32 9, Int32 9]]" by (simp add: pairs_def)
  finally show ?thesis using pair_bind by (simp add: where_rows_def pair_stmt_def)
qed

lemma pair_query: "query_rows False [''t.a'', ''u.a''] [kInt, kInt] pair_stmt (pairs nines nines) = Inr ([''a''], [[Int32 4], [Int32 9]])"
proof -
  have "projection_items pair_stmt False [''t.a'', ''u.a''] = Inr [(0, ''a'')]"
    by (simp add: projection_items_def pair_stmt_def plain_item_def Resolve_def EndsWith_def item_name_def)
  moreover have "order_by_clause pair_stmt = None" "limit_clause pair_stmt = None" by (simp_all add: pair_stmt_def)
  ultimately show ?thesis by (simp add: query_rows_def pair_rows Let_def)
qed

lemma pair_join_ok: "join_ok pair_stmt [''t.a'', ''u.a''] [kInt, kInt] ''t'' ''u'' (length sample_schema) nines nines" "pair_ok [''t.a'', ''u.a''] [kInt, kInt] pair_stmt (pairs nines nines)"
proof -
  let ?w = "BinaryExpr BinOp.kEq (ColumnRefExpr (''t'', ''a'')) (ColumnRefExpr (''u'', ''a''))"
  have w: "where_clause pair_stmt = Some ?w" by (simp add: pair_stmt_def)
  have f: "find_join (Flatten ?w) = Some (0, (''t'', ''a''), (''u'', ''a''))" by (simp add: find_join_def)
  have fit: "rows_fit [kInt, kInt] [[Int32 4, Int32 4], [Int32 9, Int32 9]]" by (auto simp: rows_fit_def strs_def less_Suc_eq)
  have ok: "where_ok [''t.a'', ''u.a''] [kInt, kInt] (Some ?w) (pairs nines nines)"
    unfolding where_ok_def
  proof (intro allI impI)
    fix e b assume "Some ?w = Some e" "Bind [''t.a'', ''u.a''] [kInt, kInt] e = Inr b"
    then have "b = BinaryE BoundOp.kEq (ColumnE 0 kInt) (ColumnE 1 kInt)" using pair_bind by (metis option.inject sum.inject(2))
    then show "fast_safe b [kInt, kInt] (pairs nines nines) \<and> (\<forall>r \<in> set (pairs nines nines). \<exists>v. eval_row b r = Inr v)" using pair_eval by simp
  qed
  have res: "Resolve [''t.a'', ''u.a''] ''t'' ''a'' = Inr 0" "Resolve [''t.a'', ''u.a''] ''u'' ''a'' = Inr 1" by (simp_all add: Resolve_def)
  have cl: "clear_refs [''t.a'', ''u.a''] pair_stmt"
    by (auto simp: clear_refs_def stmt_refs_def pair_stmt_def opt_refs_def clear_def matches_name_def less_Suc_eq)
  have n: "length sample_schema = 1" by (simp add: sample_schema_def)
  show "join_ok pair_stmt [''t.a'', ''u.a''] [kInt, kInt] ''t'' ''u'' (length sample_schema) nines nines"
    unfolding join_ok_def
    by (intro conjI exI [of _ ?w] exI [of _ 0] exI [of _ "(''t'', ''a'')"] exI [of _ "(''u'', ''a'')"] exI)
      (use w f fit ok res cl n pair_bind pair_rows in \<open>simp_all\<close>)
  show "pair_ok [''t.a'', ''u.a''] [kInt, kInt] pair_stmt (pairs nines nines)"
    by (simp add: pair_ok_def pair_rows aggregated_def HasAggregates_def) (simp add: pair_stmt_def)
qed


end
