(* ===== verification/Failed_Inserts.thy ===== *)
theory Failed_Inserts
  imports Database_Updates
begin

text \<open>
  What a rejected \<open>INSERT\<close> leaves behind: the rows before the offending one stay, and so do the values
  of the offending row that were converted before the one that could not be. When there are any,
  the columns' buffers no longer have the same length, and every later flush reads one of them
  past its end.
\<close>

section \<open>Buffers of unequal length\<close>

lemma db_then_returns: "db_then m f = Some (Inr y, db') \<Longrightarrow> \<exists>x db1. m = Some (Inr x, db1) \<and> f x db1 = Some (Inr y, db')"
  by (cases m) (auto simp: db_then_def split: sum.splits)

definition ragged :: "string \<Rightarrow> db \<Rightarrow> bool" where
  "ragged name db \<longleftrightarrow> (\<exists>tbl cols k. GetTable (db_catalog db) name = Some tbl \<and> map_of (pending db) name = Some cols \<and>
     cols \<noteq> [] \<and> hd cols \<noteq> [] \<and> k < length (tm_schema tbl) \<and> k < length cols \<and> length (cols ! k) < length (hd cols))"

lemma write_columns_in_range:
  "write_columns s cols start stop ks bp = (Inr roots, bp') \<Longrightarrow> k \<in> set ks \<Longrightarrow> k < length cols \<and> stop \<le> length (cols ! k)"
  by (induction ks arbitrary: bp roots) (auto split: sum.splits prod.splits if_splits)

lemma flush_groups_in_range:
  "flush_groups name s cols m starts db = (Inr (), db') \<Longrightarrow> start \<in> set starts \<Longrightarrow> k < length s \<Longrightarrow>
     k < length cols \<and> min (start + kRowGroupSize) m \<le> length (cols ! k)"
  by (induction starts arbitrary: db)
    (auto simp: Let_def NumColumns_def dest!: write_columns_in_range [where k = k] split: sum.splits prod.splits)

lemma last_group: "0 < m \<Longrightarrow> \<exists>start \<in> set (group_starts m). min (start + kRowGroupSize) m = m"
proof -
  assume m: "0 < m"
  let ?g = "length (group_starts m)"
  have "?g \<noteq> 0" using group_starts_cover(3) [of m] m by (metis mult_zero_left not_less)
  then obtain j where j: "?g = Suc j" by (cases ?g) simp_all
  have "j * kRowGroupSize \<in> set (group_starts m)" using group_starts_cover(1) [of m] j by (metis atLeastLessThan_iff image_eqI le0 lessI list.set_map set_upt)
  moreover have "m \<le> j * kRowGroupSize + kRowGroupSize" using group_starts_cover(3) [of m] j by simp
  ultimately show ?thesis by (intro bexI [of _ "j * kRowGroupSize"]) simp_all
qed

lemma ragged_flush: "ragged name db \<Longrightarrow> FlushTable name db \<noteq> Some (Inr (), db')"
proof
  assume "ragged name db" and f: "FlushTable name db = Some (Inr (), db')"
  then obtain tbl cols k where r: "GetTable (db_catalog db) name = Some tbl" "map_of (pending db) name = Some cols"
    "cols \<noteq> []" "hd cols \<noteq> []" "k < length (tm_schema tbl)" "length (cols ! k) < length (hd cols)" by (auto simp: ragged_def)
  let ?m = "length (hd cols)"
  obtain db1 where "flush_groups name (tm_schema tbl) cols ?m (group_starts ?m) db = (Inr (), db1)"
    using f r(1-4) by (cases "flush_groups name (tm_schema tbl) cols ?m (group_starts ?m) db")
      (auto simp: FlushTable_def Let_def db_then_def split: if_splits sum.splits)
  moreover obtain start where "start \<in> set (group_starts ?m)" "min (start + kRowGroupSize) ?m = ?m" using last_group [of ?m] r(4) by auto
  ultimately have "?m \<le> length (cols ! k)" using flush_groups_in_range r(5) by metis
  then show False using r(6) by simp
qed

text \<open>Flushing another table does not mend them.\<close>

lemma map_of_update_at: "map_of (update_at k f m) x = (if x = k then map_option f (map_of m k) else map_of m x)"
  by (induction k f m rule: update_at.induct) auto

lemma AddRowGroup_schema:
  "AddRowGroup c n rg = Inr c' \<Longrightarrow> map_option tm_schema (GetTable c' m) = map_option tm_schema (GetTable c m)"
  by (auto simp: AddRowGroup_def GetTable_def map_of_update_at option.map_comp comp_def split: option.splits)

lemma flush_groups_schema:
  "flush_groups n s cols num starts db = (r, db') \<Longrightarrow> pending db' = pending db \<and>
     map_option tm_schema (GetTable (db_catalog db') m) = map_option tm_schema (GetTable (db_catalog db) m)"
  by (induction starts arbitrary: db) (fastforce simp: Let_def split: sum.splits prod.splits dest: AddRowGroup_schema)+

lemma FlushTable_schema:
  assumes "FlushTable n db = Some (r, db')"
  shows "map_option tm_schema (GetTable (db_catalog db') m) = map_option tm_schema (GetTable (db_catalog db) m) \<and>
    (m \<noteq> n \<longrightarrow> map_of (pending db') m = map_of (pending db) m)"
proof (cases "db' = db")
  case False
  obtain tbl cols where t: "map_of (pending db) n = Some cols" "GetTable (db_catalog db) n = Some tbl" "cols \<noteq> []" "hd cols \<noteq> []" "\<not> closed db"
    using assms False by (auto simp: FlushTable_def split: option.splits if_splits)
  obtain r1 db1 where g: "flush_groups n (tm_schema tbl) cols (length (hd cols)) (group_starts (length (hd cols))) db = (r1, db1)" by fastforce
  obtain r2 db2 where p: "FlushPool (clear_pending n db1) = (r2, db2)" by fastforce
  have "db' = db1 \<or> db' = db2 \<or> PersistCatalog db2 = Some (r, db')"
    using assms t g p by (cases r1; cases r2) (auto simp: FlushTable_def Let_def)
  moreover have "db_catalog db3 = db_catalog db2 \<and> pending db3 = pending db2" if "PersistCatalog db2 = Some (x, db3)" for x db3
    using that by (auto simp: PersistCatalog_def split: if_splits)
  moreover have "db_catalog db2 = db_catalog db1 \<and> pending db2 = update_at n (map (\<lambda>_. [])) (pending db1)"
    using p by (auto simp: FlushPool_def clear_pending_def split: prod.splits)
  moreover note flush_groups_schema [OF g, of m]
  ultimately show ?thesis by (auto simp: map_of_update_at)
qed simp

lemma ragged_other: "FlushTable n db = Some (r, db') \<Longrightarrow> name \<noteq> n \<Longrightarrow> ragged name db \<Longrightarrow> ragged name db'"
  using FlushTable_schema [of n db r db' name] by (cases "GetTable (db_catalog db') name") (fastforce simp: ragged_def)+

lemma ragged_flushes: "ragged name db \<Longrightarrow> name \<in> set ns \<Longrightarrow> flush_tables ns db \<noteq> Some (Inr (), db')"
proof (induction ns arbitrary: db)
  case (Cons n ns)
  show ?case
  proof
    assume f: "flush_tables (n # ns) db = Some (Inr (), db')"
    then obtain db1 where db1: "FlushTable n db = Some (Inr (), db1)" "flush_tables ns db1 = Some (Inr (), db')"
      by (cases "FlushTable n db") (auto simp: db_then_def split: sum.splits)
    then have "n \<noteq> name" using ragged_flush Cons.prems(1) by blast
    then show False using Cons.IH [OF ragged_other [OF db1(1) _ Cons.prems(1)]] Cons.prems(2) db1(2) by auto
  qed
qed simp

text \<open>No query of the table returns, and the database cannot be closed.\<close>

lemma ragged_select: "ragged name db \<Longrightarrow> name \<in> tr_name ` set (select.tables sel) \<Longrightarrow> select_rows scans work sel db \<noteq> Some (Inr res, db')"
proof
  assume r: "ragged name db" "name \<in> tr_name ` set (select.tables sel)" and q: "select_rows scans work sel db = Some (Inr res, db')"
  have "flush_tables (map tr_name (select.tables sel)) db \<noteq> Some (Inr (), db1)" for db1 by (rule ragged_flushes [OF r(1)]) (use r(2) in simp)
  then show False using db_then_returns [OF q [unfolded select_rows_def]] by auto
qed

lemma ragged_close: "ragged name db \<Longrightarrow> \<not> closed db \<Longrightarrow> CloseDB db \<noteq> Some (Inr (), db')"
proof
  assume r: "ragged name db" "\<not> closed db" and c: "CloseDB db = Some (Inr (), db')"
  have c': "db_then (FlushAllPending db) (\<lambda>_ db1. db_then (Some (FlushPool db1)) (\<lambda>_ db2.
      db_then (PersistCatalog db2) (\<lambda>_ db3. Some (Inr (), (snd (FlushPool db3))\<lparr>closed := True\<rparr>)))) = Some (Inr (), db')"
    using c r(2) by (simp add: CloseDB_def)
  have "name \<in> set (map fst (pending db))" using r(1) by (force simp: ragged_def dest!: map_of_SomeD)
  then have "flush_tables (map fst (pending db)) db \<noteq> Some (Inr (), db1)" for db1 by (rule ragged_flushes [OF r(1)])
  then show False using db_then_returns [OF c'] by (auto simp: FlushAllPending_def)
qed

section \<open>Rejected rows\<close>

lemma push_rows_append: "push_rows s pre cols = (Inr (), cols1) \<Longrightarrow> push_rows s (pre @ rest) cols = push_rows s rest cols1"
  by (induction pre arbitrary: cols) (auto split: if_splits prod.splits sum.splits)

lemma push_values_append: "push_values s row ks cols = (Inr (), cols1) \<Longrightarrow> push_values s row (ks @ ks') cols = push_values s row ks' cols1"
  by (induction ks arbitrary: cols) (auto split: sum.splits)

text \<open>A row whose value in column \<open>k\<close> cannot be converted: the columns before \<open>k\<close> have one value more.\<close>

lemma push_values_stops:
  assumes "k < length s" "length row = length s" "length cols = length s" and ok: "\<forall>i < k. \<exists>v. Coerce (row ! i) (col_type (s ! i)) = Inr v"
    and bad: "Coerce (row ! k) (col_type (s ! k)) = Inl e"
  shows "\<exists>cols' vs. push_values s row [0..<length row] cols = (Inl e, cols') \<and> length cols' = length s \<and>
    (\<forall>i < length s. cols' ! i = (if i < k then cols ! i @ [vs ! i] else cols ! i))"
proof -
  obtain v where v: "\<forall>i < k. Coerce (row ! i) (col_type (s ! i)) = Inr (v i)" using ok by metis
  let ?vs = "map v [0..<k]"
  have "\<forall>i \<in> set [0..<k]. i < length s \<and> Coerce (row ! i) (col_type (s ! i)) = Inr (?vs ! i)" using v assms(1) by simp
  from push_values_ok [OF this distinct_upt assms(3)] obtain cols' where p: "push_values s row [0..<k] cols = (Inr (), cols')" "length cols' = length s"
    "\<forall>i < length s. cols' ! i = (if i \<in> set [0..<k] then cols ! i @ [?vs ! i] else cols ! i)" by blast
  have "[0..<length row] = [0..<k] @ k # [Suc k..<length row]" using assms(1,2) upt_add_eq_append [of 0 k "length row - k"] by (simp add: upt_conv_Cons)
  then have "push_values s row [0..<length row] cols = (Inl e, cols')"
    using push_values_append [OF p(1), of "k # [Suc k..<length row]"] assms(1) bad by (simp add: GetColumn_def)
  then show ?thesis using p(2,3) by (intro exI [of _ cols'] exI [of _ ?vs]) simp
qed

lemma insert_of_table:
  assumes r: "db_rep ids db A" and a: "A name = Some (s, old)"
  obtains tbl m ps where "GetTable (db_catalog db) name = Some tbl" "s = tm_schema tbl" "\<And>k. k < length s \<Longrightarrow> length (insert_buffers db name s ! k) = m"
    "length (insert_buffers db name s) = length s"
    "\<And>rs. insert_rows name rs db = (case push_rows s rs (insert_buffers db name s) of (r, cols) \<Rightarrow> (bindR r (\<lambda>_. Inr no_rows), db\<lparr>pending := ps cols\<rparr>))"
    "\<And>cols. map_of (ps cols) = (map_of (pending db))(name \<mapsto> cols)"
proof -
  note D = db_repD [OF r]
  obtain tbl where g: "GetTable (db_catalog db) name = Some tbl" using D(5) [of name] a by auto
  from D(6) [OF g] a have t: "s = tm_schema tbl" "table_rep ids db name tbl old" by auto
  then obtain P where P: "buffered db name s P" "s \<noteq> []" by (auto simp: table_rep_def)
  then obtain m where m: "buffers_ok s (insert_buffers db name s) m" using insert_buffers_ok by blast
  have "tm_schema tbl \<noteq> []" using P(2) t(1) by simp
  from insert_rows_eq [OF D(4) g this] obtain ps where "\<And>rs. insert_rows name rs db = (case push_rows s rs (insert_buffers db name s) of
      (r, cols) \<Rightarrow> (bindR r (\<lambda>_. Inr no_rows), db\<lparr>pending := ps cols\<rparr>))" "\<And>cols. map_of (ps cols) = (map_of (pending db))(name \<mapsto> cols)"
    unfolding t(1) by blast
  then show thesis using that [of tbl m ps] g t(1) m by (simp add: buffers_ok_def)
qed

text \<open>The rows before the offending one are kept; if its first value is the one that cannot be converted,
  nothing else has changed.\<close>

lemma rejected_at_start:
  assumes r: "db_rep ids db A" and a: "A name = Some (s, old)" and new: "mapR (coerce_row s) pre = Inr vss" and room: "update_room (InsertStmt name pre) db"
    and stop: "\<And>cols. length cols = length s \<Longrightarrow> push_rows s rest cols = (Inl e, cols)"
  shows "\<exists>db'. insert_rows name (pre @ rest) db = (Inl e, db') \<and> db_rep ids db' (A(name \<mapsto> (s, old @ vss)))"
proof -
  obtain ps where ins: "length (insert_buffers db name s) = length s"
    "\<And>rs. insert_rows name rs db = (case push_rows s rs (insert_buffers db name s) of (r, cols) \<Rightarrow> (bindR r (\<lambda>_. Inr no_rows), db\<lparr>pending := ps cols\<rparr>))"
    by (rule insert_of_table [OF r a]) blast
  obtain cols' where p: "push_rows s pre (insert_buffers db name s) = (Inr (), cols')" "length cols' = length s" using push_rows_ok [OF new ins(1)] by blast
  obtain db' where "insert_rows name pre db = (Inr no_rows, db')" "db_rep ids db' (A(name \<mapsto> (s, old @ vss)))" using insert_rows_rep [OF r a new room] by blast
  moreover have "insert_rows name (pre @ rest) db = (Inl e, db\<lparr>pending := ps cols'\<rparr>)" using ins(2) push_rows_append [OF p(1)] stop [OF p(2)] by simp
  ultimately show ?thesis using ins(2) [of pre] p(1) by auto
qed

lemma rejected_later:
  assumes r: "db_rep ids db A" and a: "A name = Some (s, old)" and new: "mapR (coerce_row s) pre = Inr vss"
    and row: "0 < k" "k < length s" "length row = length s" "\<forall>i < k. \<exists>v. Coerce (row ! i) (col_type (s ! i)) = Inr v" "Coerce (row ! k) (col_type (s ! k)) = Inl e"
  shows "\<exists>db'. insert_rows name (pre @ row # post) db = (Inl e, db') \<and> ragged name db' \<and> \<not> closed db'"
proof -
  obtain tbl m ps where ins: "GetTable (db_catalog db) name = Some tbl" "s = tm_schema tbl" "\<And>k. k < length s \<Longrightarrow> length (insert_buffers db name s ! k) = m"
    "length (insert_buffers db name s) = length s"
    "\<And>rs. insert_rows name rs db = (case push_rows s rs (insert_buffers db name s) of (r, cols) \<Rightarrow> (bindR r (\<lambda>_. Inr no_rows), db\<lparr>pending := ps cols\<rparr>))"
    "\<And>cols. map_of (ps cols) = (map_of (pending db))(name \<mapsto> cols)"
    by (rule insert_of_table [OF r a]) blast
  obtain cols1 where p: "push_rows s pre (insert_buffers db name s) = (Inr (), cols1)" "length cols1 = length s"
    "\<forall>k < length s. cols1 ! k = insert_buffers db name s ! k @ map (\<lambda>vs. vs ! k) vss" using push_rows_ok [OF new ins(4)] by blast
  obtain cols2 vs where q: "push_values s row [0..<length row] cols1 = (Inl e, cols2)" "length cols2 = length s"
    "\<forall>i < length s. cols2 ! i = (if i < k then cols1 ! i @ [vs ! i] else cols1 ! i)" using push_values_stops [OF row(2,3) p(2) row(4,5)] by blast
  have "push_rows s (pre @ row # post) (insert_buffers db name s) = (Inl e, cols2)"
    using push_rows_append [OF p(1)] q(1) row(3) by (simp add: NumColumns_def)
  then have i: "insert_rows name (pre @ row # post) db = (Inl e, db\<lparr>pending := ps cols2\<rparr>)" using ins(5) by simp
  have len: "length (cols2 ! 0) = Suc (m + length vss)" "length (cols2 ! k) = m + length vss"
    using q(3) p(3) ins(3) row(1,2) less_trans [OF row(1,2)] by simp_all
  have "cols2 \<noteq> []" using q(2) row(2) by auto
  then have "ragged name (db\<lparr>pending := ps cols2\<rparr>)" unfolding ragged_def
    using ins(1,2,6) len row(2) q(2) by (intro exI [of _ tbl] exI [of _ cols2] exI [of _ k]) (auto simp: hd_conv_nth)
  then show ?thesis using i db_repD(1) [OF r] by simp
qed


text \<open>\<open>INSERT INTO p VALUES (1, 2), (3, 'x')\<close> into a table of two \<open>INT\<close> columns.\<close>

definition p_schema :: schema where
  "p_schema = [\<lparr>col_name = ''a'', col_type = kInt, varchar_len = 0, column_index = 0\<rparr>,
     \<lparr>col_name = ''b'', col_type = kInt, varchar_len = 0, column_index = 1\<rparr>]"

definition p_db :: "pool \<Rightarrow> db" where
  "p_db bp = \<lparr>db_pool = bp, db_catalog = \<lparr>Catalog.tables = [(''p'', \<lparr>tm_name = ''p'', tm_schema = p_schema, row_groups = []\<rparr>)]\<rparr>,
     pending = [(''p'', [[], []])], closed = False\<rparr>"

lemma p_db_rep: obtains bp where "db_rep [0] (p_db bp) [''p'' \<mapsto> (p_schema, [])]"
proof -
  obtain bp where b: "BufferPool sample_disk kDefaultBufferPoolFrames = Inr bp" "pool_at [0] bp" "disk_manager bp = sample_disk"
    using BufferPool_at [OF sample_chain, of kDefaultBufferPoolFrames] new_page_data by (auto simp: kDefaultBufferPoolFrames_def sample_disk)
  let ?tbl = "\<lparr>tm_name = ''p'', tm_schema = p_schema, row_groups = []\<rparr>"
  have "buffers_ok p_schema [[], []] 0" by (auto simp: buffers_ok_def p_schema_def column_ok_def strs_def less_Suc_eq)
  then have "buffered (p_db bp) ''p'' p_schema []" by (auto simp: buffered_def p_db_def buffer_rows_def)
  moreover have "stored [0] bp ?tbl []" by (auto simp: stored_def table_in_def table_rows_def)
  ultimately have "table_rep [0] (p_db bp) ''p'' ?tbl []"
    by (auto simp: table_rep_def p_db_def p_schema_def schema_ok_def kMaxColumnNameLen_def less_Suc_eq)
  then have "db_rep [0] (p_db bp) [''p'' \<mapsto> (p_schema, [])]"
    by (intro db_repI) (use b in \<open>auto simp: p_db_def GetTable_def map_inv_def split: if_splits\<close>)
  then show thesis by (rule that)
qed


end
