(* ===== verification/Printer.thy ===== *)
theory Printer
  imports Parser
begin

text \<open>
  A printer of syntax trees, as tokens and as text, and the proof that the parser
  (\<open>sql/parser.cpp\<close>) reads back what it prints.
\<close>

section \<open>Tokens of a tree\<close>

abbreviation kw :: "string \<Rightarrow> Token" where
  "kw s \<equiv> plain_token kKeyword s"

abbreviation punct :: "string \<Rightarrow> Token" where
  "punct s \<equiv> plain_token kPunct s"

abbreviation ident :: "string \<Rightarrow> Token" where
  "ident s \<equiv> plain_token kIdentifier s"

definition int_token :: "int \<Rightarrow> Token" where
  "int_token i = \<lparr>tok_kind = kInteger, tok_text = string_of_int i, int_value = word_of_int i, float_value = 0\<rparr>"

fun literal_token :: "Value \<Rightarrow> Token" where
  "literal_token Null = kw ''NULL''"
| "literal_token (Int32 i) = int_token (sint i)"
| "literal_token (Int64 l) = int_token (sint l)"
| "literal_token (Dbl d) = \<lparr>tok_kind = kFloatLit, tok_text = [], int_value = 0, float_value = d\<rparr>"
| "literal_token (Str s) = plain_token kString s"

text \<open>The literals the parser produces; an integer that fits 32 bits is never an \<open>int64_t\<close>.\<close>

fun literal_ok :: "Value \<Rightarrow> bool" where
  "literal_ok (Int64 l) \<longleftrightarrow> \<not> (- (2 ^ 31) \<le> sint l \<and> sint l < 2 ^ 31)"
| "literal_ok (Dbl d) \<longleftrightarrow> False"
| "literal_ok _ \<longleftrightarrow> True"

fun op_token :: "BinOp \<Rightarrow> Token" where
  "op_token kEq = punct ''=''"
| "op_token kNe = punct ''!=''"
| "op_token kLt = punct ''<''"
| "op_token kLe = punct ''<=''"
| "op_token kGt = punct ''>''"
| "op_token kGe = punct ''>=''"
| "op_token kAnd = kw ''AND''"
| "op_token kOr = kw ''OR''"
| "op_token kAdd = punct ''+''"
| "op_token kSub = punct ''-''"
| "op_token kMul = punct ''*''"
| "op_token kDiv = punct ''/''"

fun agg_name :: "AggKind \<Rightarrow> string" where
  "agg_name kCountStar = ''COUNT''"
| "agg_name kCount = ''COUNT''"
| "agg_name kSum = ''SUM''"
| "agg_name kAvg = ''AVG''"
| "agg_name kMin = ''MIN''"
| "agg_name kMax = ''MAX''"

definition show_ref :: "column_ref \<Rightarrow> tokens" where
  "show_ref c = (if fst c = [] then [ident (snd c)] else [ident (fst c), punct ''.'', ident (snd c)])"

text \<open>A list with commas, and a tree with every operation in parentheses.\<close>

fun commas :: "tokens list \<Rightarrow> tokens" where
  "commas [] = []"
| "commas [x] = x"
| "commas (x # xs) = x @ punct '','' # commas xs"

fun show_expr :: "Expr \<Rightarrow> tokens" where
  "show_expr (ColumnRefExpr c) = show_ref c"
| "show_expr (LiteralExpr v) = [literal_token v]"
| "show_expr (BinaryExpr op' l r) = punct ''('' # show_expr l @ op_token op' # show_expr r @ [punct '')'']"
| "show_expr (NotExpr e) = punct ''('' # kw ''NOT'' # show_expr e @ [punct '')'']"
| "show_expr (InExpr c vs) = punct ''('' # show_expr c @ kw ''IN'' # punct ''('' # commas (map (\<lambda>v. [literal_token v]) vs) @ [punct '')'', punct '')'']"
| "show_expr (AggregateExpr k e) =
     kw (agg_name k) # punct ''('' # (case e of None \<Rightarrow> [punct ''*''] | Some a \<Rightarrow> show_expr a) @ [punct '')'']"

text \<open>The trees the parser can produce.\<close>

definition name_ok :: "string \<Rightarrow> bool" where
  "name_ok s \<longleftrightarrow> word_ok s \<and> \<not> IsKeyword (ToUpper s)"

definition ref_ok :: "column_ref \<Rightarrow> bool" where
  "ref_ok c \<longleftrightarrow> (fst c = [] \<or> name_ok (fst c)) \<and> name_ok (snd c)"

fun expr_ok :: "Expr \<Rightarrow> bool" where
  "expr_ok (ColumnRefExpr c) \<longleftrightarrow> ref_ok c"
| "expr_ok (LiteralExpr v) \<longleftrightarrow> literal_ok v"
| "expr_ok (BinaryExpr op' l r) \<longleftrightarrow> expr_ok l \<and> expr_ok r"
| "expr_ok (NotExpr e) \<longleftrightarrow> expr_ok e"
| "expr_ok (InExpr c vs) \<longleftrightarrow> expr_ok c \<and> vs \<noteq> [] \<and> list_all literal_ok vs"
| "expr_ok (AggregateExpr k e) \<longleftrightarrow> (case e of None \<Rightarrow> k = kCountStar | Some a \<Rightarrow> k \<noteq> kCountStar \<and> expr_ok a)"

section \<open>Reading expressions back\<close>

text \<open>
  \<open>reads p ts e rest\<close>: with enough fuel, production \<open>p\<close> turns \<open>ts\<close> into the tree \<open>e\<close> and leaves
  \<open>rest\<close>. \<open>stops n t\<close>: the token \<open>t\<close> does not continue an expression of level \<open>n\<close>.
\<close>

definition reads :: "production \<Rightarrow> tokens \<Rightarrow> Expr \<Rightarrow> tokens \<Rightarrow> bool" where
  "reads p ts e rest \<longleftrightarrow> length rest < length ts \<and> rest \<noteq> [] \<and> (\<forall>n. 9 * length ts + rank p < n \<longrightarrow> parse n p ts = Inr (e, rest))"

lemma readsI:
  assumes "length rest < length ts" and "rest \<noteq> []" and "\<And>n. 9 * length ts + rank p < Suc n \<Longrightarrow> body p (parse n) ts = Inr (e, rest)"
  shows "reads p ts e rest"
proof -
  have "parse n p ts = Inr (e, rest)" if "9 * length ts + rank p < n" for n
    using that assms(3) by (cases n) auto
  then show ?thesis using assms(1,2) by (simp add: reads_def)
qed

lemma reads_parse: "reads p ts e rest \<Longrightarrow> 9 * length ts + rank p < n \<Longrightarrow> parse n p ts = Inr (e, rest)"
  by (simp add: reads_def)

lemma reads_length: "reads p ts e rest \<Longrightarrow> length rest < length ts \<and> rest \<noteq> []"
  by (simp add: reads_def)

lemma Peek_hd: "ts \<noteq> [] \<Longrightarrow> Peek ts = Inr (hd ts)"
  by (cases ts) (simp_all add: Peek_def)

lemma match_simps [simp]:
  "MatchKw k (t # ts) = Inr (if tok_kind t = kKeyword \<and> tok_text t = k then (True, ts) else (False, t # ts))"
  "MatchPunct k (t # ts) = Inr (if tok_kind t = kPunct \<and> tok_text t = k then (True, ts) else (False, t # ts))"
  "Peek (t # ts) = Inr t"
  by (simp_all add: MatchKw_def MatchPunct_def Peek_def)

lemma plain_simps [simp]: "tok_kind (plain_token k s) = k" "tok_text (plain_token k s) = s"
  by (simp_all add: plain_token_def)

lemma expect_simps [simp]:
  "ExpectKw k (kw k # ts) = Inr ((), ts)" "ExpectPunct k (punct k # ts) = Inr ((), ts)" "ExpectIdent (ident s # ts) = Inr (s, ts)"
  by (simp_all add: ExpectKw_def ExpectPunct_def ExpectIdent_def Consume_def)

definition stop_mul :: "Token \<Rightarrow> bool" where "stop_mul t \<longleftrightarrow> mul_op t = None"
definition stop_add :: "Token \<Rightarrow> bool" where "stop_add t \<longleftrightarrow> stop_mul t \<and> add_op t = None"
definition stop_cmp :: "Token \<Rightarrow> bool" where
  "stop_cmp t \<longleftrightarrow> stop_add t \<and> compare_op t = None \<and> \<not> (tok_kind t = kKeyword \<and> tok_text t \<in> {''BETWEEN'', ''IN''})"
definition stop_and :: "Token \<Rightarrow> bool" where "stop_and t \<longleftrightarrow> stop_cmp t \<and> \<not> (tok_kind t = kKeyword \<and> tok_text t = ''AND'')"
definition stop_or :: "Token \<Rightarrow> bool" where "stop_or t \<longleftrightarrow> stop_and t \<and> \<not> (tok_kind t = kKeyword \<and> tok_text t = ''OR'')"

lemmas stop_defs = stop_mul_def stop_add_def stop_cmp_def stop_and_def stop_or_def mul_op_def add_op_def compare_op_def

lemma loops_end:
  assumes "rest \<noteq> []" and "0 < n"
  shows "stop_mul (hd rest) \<Longrightarrow> parse n (MulDivLoop e) rest = Inr (e, rest)" "stop_add (hd rest) \<Longrightarrow> parse n (AddSubLoop e) rest = Inr (e, rest)"
    "stop_and (hd rest) \<Longrightarrow> parse n (AndLoop e) rest = Inr (e, rest)" "stop_or (hd rest) \<Longrightarrow> parse n (OrLoop e) rest = Inr (e, rest)"
proof -
  obtain m t ts where n: "n = Suc m" "rest = t # ts" using assms by (cases n; cases rest) auto
  show "stop_mul (hd rest) \<Longrightarrow> parse n (MulDivLoop e) rest = Inr (e, rest)" by (simp add: n mul_div_loop_def stop_mul_def)
  show "stop_add (hd rest) \<Longrightarrow> parse n (AddSubLoop e) rest = Inr (e, rest)" by (simp add: n add_sub_loop_def stop_add_def)
  show "stop_and (hd rest) \<Longrightarrow> parse n (AndLoop e) rest = Inr (e, rest)" by (auto simp: n and_loop_def stop_and_def)
  show "stop_or (hd rest) \<Longrightarrow> parse n (OrLoop e) rest = Inr (e, rest)" by (auto simp: n or_loop_def stop_or_def)
qed

lemma up_mul: "reads Primary ts e rest \<Longrightarrow> stop_mul (hd rest) \<Longrightarrow> reads MulDiv ts e rest"
  by (rule readsI) (auto simp: reads_def ParseMulDiv_def loops_end)

lemma up_add: "reads MulDiv ts e rest \<Longrightarrow> stop_add (hd rest) \<Longrightarrow> reads AddSub ts e rest"
  by (rule readsI) (auto simp: reads_def ParseAddSub_def loops_end)

lemma up_cmp: "reads AddSub ts e rest \<Longrightarrow> stop_cmp (hd rest) \<Longrightarrow> reads Comparison ts e rest"
  by (rule readsI) (auto simp: reads_def ParseComparison_def Peek_hd stop_cmp_def)

lemma up_not: "reads Comparison ts e rest \<Longrightarrow> \<not> (tok_kind (hd ts) = kKeyword \<and> tok_text (hd ts) = ''NOT'') \<Longrightarrow> reads Not ts e rest"
  by (rule readsI; cases ts) (auto simp: reads_def ParseNot_def)

lemma up_and: "reads Not ts e rest \<Longrightarrow> stop_and (hd rest) \<Longrightarrow> reads And ts e rest"
  by (rule readsI) (auto simp: reads_def ParseAnd_def loops_end)

lemma up_or: "reads And ts e rest \<Longrightarrow> stop_or (hd rest) \<Longrightarrow> reads Or ts e rest"
  by (rule readsI) (auto simp: reads_def ParseOr_def loops_end)

text \<open>One rule for each operator, then all the way up from an operand to a whole expression.\<close>

lemma bin_mul:
  assumes "reads Primary ts l (t # ts2)" and "mul_op t = Some op'" and "reads Primary ts2 r rest" and "stop_mul (hd rest)"
  shows "reads MulDiv ts (BinaryExpr op' l r) rest"
proof (rule readsI)
  have len: "length (t # ts2) < length ts" "length rest < length ts2" "rest \<noteq> []" using reads_length assms(1,3) by blast+
  then show "length rest < length ts" "rest \<noteq> []" by simp_all
  fix n
  assume n: "9 * length ts + rank MulDiv < Suc n"
  then obtain m where m: "n = Suc m" "0 < m" "9 * length ts2 + rank Primary < m" using len by (cases n) auto
  show "body MulDiv (parse n) ts = Inr (BinaryExpr op' l r, rest)"
    using reads_parse [OF assms(1), of n] reads_parse [OF assms(3) m(3)] n m assms(2) loops_end(1) [OF len(3) m(2) assms(4)]
    by (simp add: ParseMulDiv_def mul_div_loop_def)
qed

lemma bin_add:
  assumes "reads MulDiv ts l (t # ts2)" and "add_op t = Some op'" and "reads MulDiv ts2 r rest" and "stop_add (hd rest)"
  shows "reads AddSub ts (BinaryExpr op' l r) rest"
proof (rule readsI)
  have len: "length (t # ts2) < length ts" "length rest < length ts2" "rest \<noteq> []" using reads_length assms(1,3) by blast+
  then show "length rest < length ts" "rest \<noteq> []" by simp_all
  fix n
  assume n: "9 * length ts + rank AddSub < Suc n"
  then obtain m where m: "n = Suc m" "0 < m" "9 * length ts2 + rank MulDiv < m" using len by (cases n) auto
  show "body AddSub (parse n) ts = Inr (BinaryExpr op' l r, rest)"
    using reads_parse [OF assms(1), of n] reads_parse [OF assms(3) m(3)] n m assms(2) loops_end(2) [OF len(3) m(2) assms(4)]
    by (simp add: ParseAddSub_def add_sub_loop_def)
qed

lemma bin_cmp:
  assumes "reads AddSub ts l (t # ts2)" and "compare_op t = Some op'" and "reads AddSub ts2 r rest"
  shows "reads Comparison ts (BinaryExpr op' l r) rest"
proof (rule readsI)
  have len: "length (t # ts2) < length ts" "length rest < length ts2" "rest \<noteq> []" using reads_length assms(1,3) by blast+
  then show "length rest < length ts" "rest \<noteq> []" by simp_all
  fix n
  assume n: "9 * length ts + rank Comparison < Suc n"
  have "tok_kind t = kPunct" using assms(2) by (auto simp: compare_op_def split: if_splits)
  then show "body Comparison (parse n) ts = Inr (BinaryExpr op' l r, rest)"
    using reads_parse [OF assms(1), of n] reads_parse [OF assms(3), of n] n len assms(2) by (simp add: ParseComparison_def)
qed

lemma bin_and:
  assumes "reads Not ts l (kw ''AND'' # ts2)" and "reads Not ts2 r rest" and "stop_and (hd rest)"
  shows "reads And ts (BinaryExpr kAnd l r) rest"
proof (rule readsI)
  have len: "length (kw ''AND'' # ts2) < length ts" "length rest < length ts2" "rest \<noteq> []" using reads_length assms(1,2) by blast+
  then show "length rest < length ts" "rest \<noteq> []" by simp_all
  fix n
  assume n: "9 * length ts + rank And < Suc n"
  then obtain m where m: "n = Suc m" "0 < m" "9 * length ts2 + rank Not < m" using len by (cases n) auto
  show "body And (parse n) ts = Inr (BinaryExpr kAnd l r, rest)"
    using reads_parse [OF assms(1), of n] reads_parse [OF assms(2) m(3)] n m loops_end(3) [OF len(3) m(2) assms(3)]
    by (simp add: ParseAnd_def and_loop_def)
qed

lemma bin_or:
  assumes "reads And ts l (kw ''OR'' # ts2)" and "reads And ts2 r rest" and "stop_or (hd rest)"
  shows "reads Or ts (BinaryExpr kOr l r) rest"
proof (rule readsI)
  have len: "length (kw ''OR'' # ts2) < length ts" "length rest < length ts2" "rest \<noteq> []" using reads_length assms(1,2) by blast+
  then show "length rest < length ts" "rest \<noteq> []" by simp_all
  fix n
  assume n: "9 * length ts + rank Or < Suc n"
  then obtain m where m: "n = Suc m" "0 < m" "9 * length ts2 + rank And < m" using len by (cases n) auto
  show "body Or (parse n) ts = Inr (BinaryExpr kOr l r, rest)"
    using reads_parse [OF assms(1), of n] reads_parse [OF assms(2) m(3)] n m loops_end(4) [OF len(3) m(2) assms(3)]
    by (simp add: ParseOr_def or_loop_def)
qed

lemma reads_not: "reads Not ts e rest \<Longrightarrow> reads Not (kw ''NOT'' # ts) (NotExpr e) rest"
  by (rule readsI) (auto simp: reads_def ParseNot_def)

lemma reads_paren: "reads Or ts e (punct '')'' # rest) \<Longrightarrow> rest \<noteq> [] \<Longrightarrow> reads Primary (punct ''('' # ts) e rest"
  by (rule readsI) (auto simp: reads_def ParsePrimary_def)

text \<open>Lists with commas.\<close>

lemma comma_tail:
  "hd (concat (map (\<lambda>x. punct '','' # sh x) xs) @ rest) = punct '','' \<or> hd (concat (map (\<lambda>x. punct '','' # sh x) xs) @ rest) = hd rest"
  by (cases xs) simp_all

lemma comma_loop_reads:
  assumes p: "\<And>x r. x \<in> set xs \<Longrightarrow> r \<noteq> [] \<Longrightarrow> hd r = punct '','' \<or> hd r = hd rest \<Longrightarrow> p (sh x @ r) = Inr (x, r)"
    and rest: "rest \<noteq> []" "\<not> (tok_kind (hd rest) = kPunct \<and> tok_text (hd rest) = '','')" and "length xs < n"
  shows "comma_loop n p acc (concat (map (\<lambda>x. punct '','' # sh x) xs) @ rest) = Inr (acc @ xs, rest)"
  using assms(1,4)
proof (induction xs arbitrary: n acc)
  case Nil
  then obtain m where "n = Suc m" by (cases n) auto
  then show ?case using rest by (cases rest) auto
next
  case (Cons x xs)
  then obtain m where m: "n = Suc m" "length xs < m" by (cases n) auto
  let ?r = "concat (map (\<lambda>x. punct '','' # sh x) xs) @ rest"
  have "p (sh x @ ?r) = Inr (x, ?r)" by (rule Cons.prems(1)) (use rest comma_tail in auto)
  moreover have "comma_loop m p (acc @ [x]) ?r = Inr ((acc @ [x]) @ xs, rest)" by (rule Cons.IH [OF _ m(2)]) (use Cons.prems(1) in auto)
  ultimately show ?case using m(1) by simp
qed

lemma commas_Cons: "commas (map sh (x # xs)) = sh x @ concat (map (\<lambda>x. punct '','' # sh x) xs)"
  by (induction xs arbitrary: x) simp_all

lemma comma_list_reads:
  assumes p: "\<And>x r. x \<in> set xs \<Longrightarrow> r \<noteq> [] \<Longrightarrow> hd r = punct '','' \<or> hd r = hd rest \<Longrightarrow> p (sh x @ r) = Inr (x, r)"
    and rest: "rest \<noteq> []" "\<not> (tok_kind (hd rest) = kPunct \<and> tok_text (hd rest) = '','')" and "xs \<noteq> []"
  shows "comma_list p (commas (map sh xs) @ rest) = Inr (xs, rest)"
proof -
  obtain y ys where xs: "xs = y # ys" using assms(4) by (cases xs) auto
  let ?r = "concat (map (\<lambda>x. punct '','' # sh x) ys) @ rest"
  have "p (sh y @ ?r) = Inr (y, ?r)" by (rule p) (use rest xs comma_tail in auto)
  moreover have "length ys \<le> length (concat (map (\<lambda>x. punct '','' # sh x) ys))" by (induction ys) auto
  then have "length ys < length ?r" using rest(1) by (cases rest) auto
  then have "comma_loop (length ?r) p [y] ?r = Inr ([y] @ ys, rest)"
    by (intro comma_loop_reads [OF _ rest]) (use p xs in auto)
  ultimately show ?thesis by (simp add: xs commas_Cons [unfolded list.map] comma_list_def del: commas.simps)
qed

lemma literal_reads:
  assumes "literal_ok v"
  shows "ParseLiteral (literal_token v # r) = Inr (v, r)"
proof (cases v)
  case (Int32 i)
  have "- (2 ^ 31) \<le> sint i" "sint i < 2 ^ 31" and "sint (scast i :: 64 word) = sint i"
    using sint_bounds(1,2) [of i] by (simp_all add: signed_scast_eq signed_take_bit_int_eq_self)
  moreover from this(3) have "scast (scast i :: 64 word) = i" by (metis scast_eq scast_id)
  ultimately show ?thesis using Int32 by (simp add: ParseLiteral_def int_token_def)
next
  case (Int64 l)
  then show ?thesis using assms by (simp add: ParseLiteral_def int_token_def)
qed (use assms in \<open>simp_all add: ParseLiteral_def\<close>)

lemma literals_reads:
  assumes "vs \<noteq> []" and "list_all literal_ok vs"
  shows "comma_list ParseLiteral (commas (map (\<lambda>v. [literal_token v]) vs) @ punct '')'' # rest) = Inr (vs, punct '')'' # rest)"
  by (rule comma_list_reads) (use assms in \<open>auto simp: list_all_iff literal_reads\<close>)

lemma reads_in:
  assumes "reads AddSub ts c (kw ''IN'' # punct ''('' # commas (map (\<lambda>v. [literal_token v]) vs) @ punct '')'' # rest)"
    and "vs \<noteq> []" "list_all literal_ok vs" "rest \<noteq> []"
  shows "reads Comparison ts (InExpr c vs) rest"
proof (rule readsI)
  fix n
  assume "9 * length ts + rank Comparison < Suc n"
  then show "body Comparison (parse n) ts = Inr (InExpr c vs, rest)"
    using reads_parse [OF assms(1), of n] literals_reads [OF assms(2,3)] by (simp add: ParseComparison_def)
qed (use reads_length [OF assms(1)] assms(4) in simp_all)

definition no_dot :: "tokens \<Rightarrow> bool" where
  "no_dot rest \<longleftrightarrow> rest \<noteq> [] \<and> \<not> (tok_kind (hd rest) = kPunct \<and> tok_text (hd rest) = ''.'')"

lemma column_ref_reads: "no_dot rest \<Longrightarrow> ref_ok c \<Longrightarrow> ParseColumnRef (show_ref c @ rest) = Inr (c, rest)"
  by (cases c; cases rest) (auto simp: no_dot_def show_ref_def ParseColumnRef_def ref_ok_def name_ok_def word_ok_def)

lemma reads_ref:
  assumes "no_dot rest" "ref_ok c"
  shows "reads Primary (show_ref c @ rest) (ColumnRefExpr c) rest"
proof (rule readsI)
  have "\<exists>s ts. show_ref c @ rest = ident s # ts" by (cases "fst c = []") (auto simp: show_ref_def)
  then obtain s ts where h: "show_ref c @ rest = ident s # ts" by blast
  show "body Primary (parse n) (show_ref c @ rest) = Inr (ColumnRefExpr c, rest)" for n
    using column_ref_reads [OF assms] unfolding h by (simp add: ParsePrimary_def PeekAggregate_def)
qed (use assms in \<open>auto simp: no_dot_def show_ref_def\<close>)

lemma literal_kinds:
  "literal_ok v \<Longrightarrow> \<not> PeekAggregate (literal_token v) \<and> tok_kind (literal_token v) \<noteq> kPunct \<and>
    (tok_kind (literal_token v) \<in> {kInteger, kFloatLit, kString} \<or> tok_kind (literal_token v) = kKeyword \<and> tok_text (literal_token v) = ''NULL'')"
  by (cases v) (auto simp: PeekAggregate_def int_token_def)

lemma reads_literal: "literal_ok v \<Longrightarrow> rest \<noteq> [] \<Longrightarrow> reads Primary (literal_token v # rest) (LiteralExpr v) rest"
  using literal_kinds [of v] by (intro readsI) (auto simp: ParsePrimary_def literal_reads)

lemma closing [simp]: "stop_or (punct '')'')" "stop_and (punct '')'')" "stop_cmp (punct '')'')" "stop_add (punct '')'')" "stop_mul (punct '')'')"
  by (simp_all add: stop_defs)

lemma up_all:
  assumes "reads Primary ts e rest" and "stop_or (hd rest)" and "\<not> (tok_kind (hd ts) = kKeyword \<and> tok_text (hd ts) = ''NOT'')"
  shows "reads Or ts e rest"
  using assms up_mul up_add up_cmp up_not up_and up_or by (simp add: stop_or_def stop_and_def stop_cmp_def stop_add_def)


text \<open>A printed expression never starts with NOT.\<close>

lemma show_expr_hd: "show_expr e \<noteq> [] \<and> \<not> (tok_kind (hd (show_expr e)) = kKeyword \<and> tok_text (hd (show_expr e)) = ''NOT'')"
proof (cases e)
  case (LiteralExpr v)
  then show ?thesis by (cases v) (simp_all add: int_token_def)
next
  case (AggregateExpr k a)
  then show ?thesis by (cases k) simp_all
qed (auto simp: show_ref_def)

lemma hd_show: "\<not> (tok_kind (hd (show_expr e @ ts)) = kKeyword \<and> tok_text (hd (show_expr e @ ts)) = ''NOT'')"
  using show_expr_hd [of e] by simp

lemma op_token_cases:
  "op' \<in> {kMul, kDiv} \<Longrightarrow> mul_op (op_token op') = Some op'"
  "op' \<in> {kAdd, kSub} \<Longrightarrow> add_op (op_token op') = Some op' \<and> stop_mul (op_token op')"
  "op' \<in> {kEq, kNe, kLt, kLe, kGt, kGe} \<Longrightarrow> compare_op (op_token op') = Some op' \<and> stop_add (op_token op')"
  by (auto simp: mul_op_def add_op_def compare_op_def stop_defs)

lemma stops_kw: "s \<notin> {''AND'', ''OR'', ''BETWEEN'', ''IN''} \<Longrightarrow> stop_or (kw s)" "stop_and (kw ''OR'')" "stop_cmp (kw ''AND'')" "stop_cmp (kw ''OR'')"
  "stop_add (kw s)" "stop_mul (kw s)"
  by (simp_all add: stop_defs)

lemma op_no_dot: "no_dot (op_token op' # ts)"
  by (cases op') (simp_all add: no_dot_def)

lemma reads_binary:
  assumes l: "\<And>rest. no_dot rest \<Longrightarrow> reads Primary (show_expr l @ rest) l rest"
    and r: "reads Primary (show_expr r @ punct '')'' # rest) r (punct '')'' # rest)"
  shows "reads Or (show_expr l @ op_token op' # show_expr r @ punct '')'' # rest) (BinaryExpr op' l r) (punct '')'' # rest)"
proof -
  let ?r = "show_expr r @ punct '')'' # rest" and ?l = "show_expr l @ op_token op' # show_expr r @ punct '')'' # rest"
  have l: "reads Primary ?l l (op_token op' # ?r)" by (rule l [OF op_no_dot])
  note nl = hd_show [of l "op_token op' # show_expr r @ punct '')'' # rest"] and nr = hd_show [of r "punct '')'' # rest"]
  have end': "stop_or (hd (punct '')'' # rest))" "stop_and (hd (punct '')'' # rest))" "stop_cmp (hd (punct '')'' # rest))" "stop_add (hd (punct '')'' # rest))" "stop_mul (hd (punct '')'' # rest))" by simp_all
  have r1: "reads MulDiv ?r r (punct '')'' # rest)" using up_mul [OF r] end' by blast
  have r2: "reads AddSub ?r r (punct '')'' # rest)" using up_add [OF r1] end' by blast
  have r3: "reads Not ?r r (punct '')'' # rest)" using up_not [OF up_cmp [OF r2] nr] end' by blast
  have r4: "reads And ?r r (punct '')'' # rest)" using up_and [OF r3] end' by blast
  have m: "reads Or ?l (BinaryExpr op' l r) (punct '')'' # rest)" if "reads MulDiv ?l (BinaryExpr op' l r) (punct '')'' # rest)"
    using up_or [OF up_and [OF up_not [OF up_cmp [OF up_add [OF that]] nl]]] end' by blast
  have a: "reads Or ?l (BinaryExpr op' l r) (punct '')'' # rest)" if "reads AddSub ?l (BinaryExpr op' l r) (punct '')'' # rest)"
    using up_or [OF up_and [OF up_not [OF up_cmp [OF that] nl]]] end' by blast
  have q: "reads Or ?l (BinaryExpr op' l r) (punct '')'' # rest)" if "reads Comparison ?l (BinaryExpr op' l r) (punct '')'' # rest)"
    using up_or [OF up_and [OF up_not [OF that nl]]] end' by blast
  have h: "hd (op_token op' # ?r) = op_token op'" by simp
  consider (mul) "op' \<in> {kMul, kDiv}" | (add) "op' \<in> {kAdd, kSub}" | (cmp) "op' \<in> {kEq, kNe, kLt, kLe, kGt, kGe}" | (conj) "op' = kAnd" | (disj) "op' = kOr"
    by (cases op') auto
  then show ?thesis
  proof cases
    case mul
    show ?thesis by (rule m [OF bin_mul [OF l op_token_cases(1) [OF mul] r]]) simp
  next
    case add
    have "reads MulDiv ?l l (op_token op' # ?r)" by (rule up_mul [OF l]) (use op_token_cases(2) [OF add] in simp)
    from bin_add [OF this _ r1] show ?thesis using op_token_cases(2) [OF add] by (intro a) simp
  next
    case cmp
    have "reads MulDiv ?l l (op_token op' # ?r)" by (rule up_mul [OF l]) (use op_token_cases(3) [OF cmp] in \<open>simp add: stop_add_def\<close>)
    from up_add [OF this] have "reads AddSub ?l l (op_token op' # ?r)" using op_token_cases(3) [OF cmp] by simp
    from bin_cmp [OF this _ r2] show ?thesis using op_token_cases(3) [OF cmp] by (intro q) simp
  next
    case conj
    have "reads Comparison ?l l (op_token op' # ?r)" by (rule up_cmp [OF up_add [OF up_mul [OF l]]]) (simp_all add: conj stops_kw)
    then have "reads Not ?l l (kw ''AND'' # ?r)" using up_not nl conj by simp
    from bin_and [OF this r3] show ?thesis using conj by (auto intro: up_or)
  next
    case disj
    have "reads Comparison ?l l (op_token op' # ?r)" by (rule up_cmp [OF up_add [OF up_mul [OF l]]]) (simp_all add: disj stops_kw)
    then have "reads And ?l l (op_token op' # ?r)" by (rule up_and [OF up_not [OF _ nl]]) (simp add: disj stops_kw)
    then have "reads And ?l l (kw ''OR'' # ?r)" using disj by simp
    from bin_or [OF this r4] show ?thesis using disj by auto
  qed
qed

lemma agg_keyword: "PeekAggregate (kw (agg_name k))" "k \<noteq> kCountStar \<Longrightarrow> agg_kind_of (agg_name k) = k" "agg_name k = ''COUNT'' \<longleftrightarrow> k \<in> {kCount, kCountStar}"
  by (cases k; simp add: PeekAggregate_def agg_kind_of_def)+

lemma show_not_star: "expr_ok e \<Longrightarrow> show_expr e \<noteq> [] \<and> \<not> (tok_kind (hd (show_expr e)) = kPunct \<and> tok_text (hd (show_expr e)) = ''*'')"
  by (cases e rule: show_expr.cases) (auto simp: show_ref_def dest: literal_kinds)

lemma reads_aggregate:
  assumes "expr_ok (AggregateExpr k a)" and "rest \<noteq> []"
    and sub: "\<And>e. a = Some e \<Longrightarrow> reads AddSub (show_expr e @ punct '')'' # rest) e (punct '')'' # rest)"
  shows "reads Aggregate (show_expr (AggregateExpr k a) @ rest) (AggregateExpr k a) rest"
proof (cases a)
  case None
  then show ?thesis using assms(1,2) by (intro readsI) (simp_all add: ParseAggregate_def Consume_def)
next
  case (Some e)
  let ?ts = "show_expr e @ punct '')'' # rest"
  have k: "k \<noteq> kCountStar" "expr_ok e" using assms(1) Some by simp_all
  obtain t ts where t: "?ts = t # ts" "\<not> (tok_kind t = kPunct \<and> tok_text t = ''*'')" using show_not_star [OF k(2)] by (cases "show_expr e") auto
  show ?thesis
  proof (rule readsI)
    fix n
    assume "9 * length (show_expr (AggregateExpr k a) @ rest) + rank Aggregate < Suc n"
    then have "parse n AddSub ?ts = Inr (e, punct '')'' # rest)" using reads_parse [OF sub [OF Some], of n] Some by simp
    then show "body Aggregate (parse n) (show_expr (AggregateExpr k a) @ rest) = Inr (AggregateExpr k a, rest)"
      using t k agg_keyword [of k] Some by (auto simp: ParseAggregate_def Consume_def)
  qed (use assms(2) Some in auto)
qed

lemma up_aggregate: "reads Aggregate (kw (agg_name k) # ts) e rest \<Longrightarrow> reads Primary (kw (agg_name k) # ts) e rest"
  by (rule readsI) (auto simp: reads_def ParsePrimary_def agg_keyword)

lemma reads_expr: "expr_ok e \<Longrightarrow> no_dot rest \<Longrightarrow> reads Primary (show_expr e @ rest) e rest"
proof (induction e arbitrary: rest)
  case (ColumnRefExpr c)
  then show ?case using reads_ref by simp
next
  case (LiteralExpr v)
  then show ?case using reads_literal by (simp add: no_dot_def)
next
  case (BinaryExpr op' l r)
  have "no_dot (punct '')'' # rest)" by (simp add: no_dot_def)
  with reads_binary [OF BinaryExpr.IH(1) BinaryExpr.IH(2), of rest op'] show ?case
    using reads_paren BinaryExpr.prems by (simp add: no_dot_def)
next
  case (NotExpr e)
  have "reads Primary (show_expr e @ punct '')'' # rest) e (punct '')'' # rest)" using NotExpr by (simp add: no_dot_def)
  from reads_not [OF up_not [OF up_cmp [OF up_add [OF up_mul [OF this]]] hd_show]]
  have "reads Not (kw ''NOT'' # show_expr e @ punct '')'' # rest) (NotExpr e) (punct '')'' # rest)" by simp
  from up_or [OF up_and [OF this]] show ?case using reads_paren NotExpr.prems by (simp add: no_dot_def)
next
  case (InExpr c vs)
  let ?r = "kw ''IN'' # punct ''('' # commas (map (\<lambda>v. [literal_token v]) vs) @ punct '')'' # punct '')'' # rest"
  have "reads Primary (show_expr c @ ?r) c ?r" using InExpr by (simp add: no_dot_def)
  from reads_in [OF up_add [OF up_mul [OF this]]] have "reads Comparison (show_expr c @ ?r) (InExpr c vs) (punct '')'' # rest)"
    using InExpr.prems stops_kw(5,6) by simp
  from up_or [OF up_and [OF up_not [OF this hd_show]]] show ?case using reads_paren InExpr.prems by (simp add: no_dot_def)
next
  case (AggregateExpr k a)
  have "reads AddSub (show_expr e @ punct '')'' # rest) e (punct '')'' # rest)" if "a = Some e" for e
  proof -
    have "reads Primary (show_expr e @ punct '')'' # rest) e (punct '')'' # rest)"
      by (rule AggregateExpr.IH) (use that AggregateExpr.prems in \<open>simp_all add: no_dot_def\<close>)
    from up_add [OF up_mul [OF this]] show ?thesis by simp
  qed
  from reads_aggregate [OF AggregateExpr.prems(1) _ this] show ?case
    using AggregateExpr.prems(2) up_aggregate by (simp add: no_dot_def)
qed

section \<open>Statements\<close>

definition show_item :: "SelectItem \<Rightarrow> tokens" where
  "show_item it = show_expr (item_expr it) @ (if output_alias it = [] then [] else [kw ''AS'', ident (output_alias it)])"

definition show_table :: "TableRef \<Rightarrow> tokens" where
  "show_table t = [ident (tr_name t), kw ''AS'', ident (tr_alias t)]"

definition show_order :: "order_by \<Rightarrow> tokens" where
  "show_order ob = ident (ob_output_name ob) # (if descending ob then [kw ''DESC''] else [])"

definition show_clause :: "tokens \<Rightarrow> ('a \<Rightarrow> tokens) \<Rightarrow> 'a option \<Rightarrow> tokens" where
  "show_clause ks sh x = (case x of None \<Rightarrow> [] | Some y \<Rightarrow> ks @ sh y)"

definition show_select :: "select \<Rightarrow> tokens" where
  "show_select s =
     kw ''SELECT'' # (if select_star s then [punct ''*''] else commas (map show_item (items s))) @
     kw ''FROM'' # commas (map show_table (tables s)) @
     show_clause [kw ''WHERE''] show_expr (where_clause s) @
     show_clause [kw ''GROUP'', kw ''BY''] (\<lambda>cs. commas (map show_ref cs)) (if group_by s = [] then None else Some (group_by s)) @
     show_clause [kw ''HAVING''] show_expr (having s) @
     show_clause [kw ''ORDER'', kw ''BY''] show_order (order_by_clause s) @
     show_clause [kw ''LIMIT''] (\<lambda>n. [int_token (int n)]) (limit_clause s)"

definition show_row :: "Value list \<Rightarrow> tokens" where
  "show_row vs = punct ''('' # commas (map (\<lambda>v. [literal_token v]) vs) @ [punct '')'']"

fun show_type :: "ColumnType \<Rightarrow> u16 \<Rightarrow> tokens" where
  "show_type kInt n = [kw ''INT'']"
| "show_type kBigInt n = [kw ''BIGINT'']"
| "show_type kFloat n = [kw ''FLOAT'']"
| "show_type kVarchar n = [kw ''VARCHAR'', punct ''('', int_token (uint n), punct '')'']"

definition show_column :: "ColumnDef \<Rightarrow> tokens" where
  "show_column c = ident (cd_name c) # show_type (cd_type c) (cd_varchar_len c)"

fun show_statement :: "Statement \<Rightarrow> tokens" where
  "show_statement (CreateTableStmt name cols) =
     [kw ''CREATE'', kw ''TABLE'', ident name, punct ''(''] @ commas (map show_column cols) @ [punct '')'']"
| "show_statement (DropTableStmt name) = [kw ''DROP'', kw ''TABLE'', ident name]"
| "show_statement (TruncateStmt name) = [kw ''TRUNCATE'', kw ''TABLE'', ident name]"
| "show_statement (InsertStmt name rs) = [kw ''INSERT'', kw ''INTO'', ident name, kw ''VALUES''] @ commas (map show_row rs)"
| "show_statement (SelectStmt s) = show_select s"

text \<open>The statements the parser can produce, but for literals of type \<open>double\<close>.\<close>

definition item_ok :: "SelectItem \<Rightarrow> bool" where
  "item_ok it \<longleftrightarrow> expr_ok (item_expr it) \<and> (output_alias it = [] \<or> name_ok (output_alias it))"

definition table_ok :: "TableRef \<Rightarrow> bool" where
  "table_ok t \<longleftrightarrow> name_ok (tr_name t) \<and> name_ok (tr_alias t)"

definition select_ok :: "select \<Rightarrow> bool" where
  "select_ok s \<longleftrightarrow>
     (if select_star s then items s = [] else items s \<noteq> []) \<and> list_all item_ok (items s) \<and>
     tables s \<noteq> [] \<and> list_all table_ok (tables s) \<and>
     pred_option expr_ok (where_clause s) \<and> list_all ref_ok (group_by s) \<and> pred_option expr_ok (having s) \<and>
     pred_option (\<lambda>ob. name_ok (ob_output_name ob)) (order_by_clause s) \<and> pred_option (\<lambda>n. n < 2 ^ 63) (limit_clause s)"

definition column_def_ok :: "ColumnDef \<Rightarrow> bool" where
  "column_def_ok c \<longleftrightarrow> name_ok (cd_name c) \<and> (cd_type c = kVarchar \<longleftrightarrow> cd_varchar_len c \<noteq> 0)"

definition row_ok :: "Value list \<Rightarrow> bool" where
  "row_ok vs \<longleftrightarrow> vs \<noteq> [] \<and> list_all literal_ok vs"

fun statement_ok :: "Statement \<Rightarrow> bool" where
  "statement_ok (CreateTableStmt name cols) \<longleftrightarrow> name_ok name \<and> cols \<noteq> [] \<and> list_all column_def_ok cols"
| "statement_ok (DropTableStmt name) \<longleftrightarrow> name_ok name"
| "statement_ok (TruncateStmt name) \<longleftrightarrow> name_ok name"
| "statement_ok (InsertStmt name rs) \<longleftrightarrow> name_ok name \<and> rs \<noteq> [] \<and> list_all row_ok rs"
| "statement_ok (SelectStmt s) \<longleftrightarrow> select_ok s"

text \<open>\<open>follows S ts\<close>: what comes next is the end marker or one of the keywords \<open>S\<close>.\<close>

definition follows :: "string set \<Rightarrow> tokens \<Rightarrow> bool" where
  "follows S ts \<longleftrightarrow> ts \<noteq> [] \<and> (tok_kind (hd ts) = kEof \<or> tok_kind (hd ts) = kKeyword \<and> tok_text (hd ts) \<in> S)"

lemma follows_mono: "follows S ts \<Longrightarrow> S \<subseteq> T \<Longrightarrow> follows T ts"
  by (auto simp: follows_def)

lemma follows_clause: "follows S ts \<Longrightarrow> follows (insert k S) (show_clause (kw k # ks) sh x @ ts)"
  by (cases x) (auto simp: follows_def show_clause_def)

lemma followsD:
  assumes "follows S ts"
  shows "no_dot ts" "ts \<noteq> []" "\<not> (tok_kind (hd ts) = kPunct \<and> tok_text (hd ts) = '','')" "tok_kind (hd ts) \<noteq> kPunct"
    "S \<inter> {''AND'', ''OR'', ''BETWEEN'', ''IN''} = {} \<Longrightarrow> stop_or (hd ts)"
    "k \<notin> S \<Longrightarrow> \<not> (tok_kind (hd ts) = kKeyword \<and> tok_text (hd ts) = k)"
  using assms by (auto simp: follows_def no_dot_def stop_defs)

lemma ParseExpr_reads: "expr_ok e \<Longrightarrow> no_dot rest \<Longrightarrow> stop_or (hd rest) \<Longrightarrow> ParseExpr (show_expr e @ rest) = Inr (e, rest)"
  using up_all [OF reads_expr _ hd_show] by (simp add: ParseExpr_def reads_def fuel_def)

lemma match_hd:
  assumes "ts \<noteq> []"
  shows "\<not> (tok_kind (hd ts) = kKeyword \<and> tok_text (hd ts) = k) \<Longrightarrow> MatchKw k ts = Inr (False, ts)"
    "\<not> (tok_kind (hd ts) = kPunct \<and> tok_text (hd ts) = k) \<Longrightarrow> MatchPunct k ts = Inr (False, ts)"
  using assms by (cases ts; simp)+

lemma clause_reads:
  assumes "\<And>y. x = Some y \<Longrightarrow> p (ks @ sh y @ rest) = Inr (y, rest)" and "follows S rest" and "k \<notin> S"
  shows "clause k p (show_clause (kw k # ks) sh x @ rest) = Inr (x, rest)"
  using assms followsD(2,6) [OF assms(2)] by (cases x) (simp_all add: clause_def show_clause_def match_hd)

lemma show_expr_aggregate: "expr_ok e \<Longrightarrow> PeekAggregate (hd (show_expr e @ ts)) \<longleftrightarrow> is_aggregate e"
  by (cases e) (auto simp: show_ref_def PeekAggregate_def [of "plain_token kPunct _"] PeekAggregate_def [of "plain_token kIdentifier _"] agg_keyword literal_kinds)

lemma reads_aggregate_expr:
  assumes "expr_ok (AggregateExpr k b)" and "no_dot r"
  shows "reads Aggregate (show_expr (AggregateExpr k b) @ r) (AggregateExpr k b) r"
proof (rule reads_aggregate [OF assms(1)])
  fix e
  assume "b = Some e"
  then have "reads Primary (show_expr e @ punct '')'' # r) e (punct '')'' # r)" using assms by (intro reads_expr) (simp_all add: no_dot_def)
  from up_add [OF up_mul [OF this]] show "reads AddSub (show_expr e @ punct '')'' # r) e (punct '')'' # r)" by simp
qed (use assms(2) in \<open>simp add: no_dot_def\<close>)

lemma item_reads:
  assumes "item_ok it" and "no_dot r" and "\<not> (tok_kind (hd r) = kKeyword \<and> tok_text (hd r) = ''AS'')"
  shows "ParseSelectItem (show_item it @ r) = Inr (it, r)"
proof -
  obtain e a where it: "it = \<lparr>item_expr = e, output_alias = a\<rparr>" by (cases it)
  define r' where "r' = (if a = [] then [] else [kw ''AS'', ident a]) @ r"
  have ok: "expr_ok e" "no_dot r'" using assms(1,2) by (auto simp: item_ok_def it r'_def no_dot_def)
  have "parse (fuel (show_expr e @ r')) (if is_aggregate e then Aggregate else Primary) (show_expr e @ r') = Inr (e, r')"
  proof (cases "is_aggregate e")
    case True
    then obtain k b where "e = AggregateExpr k b" by (cases e) auto
    then show ?thesis using reads_aggregate_expr [of k b r'] ok by (simp add: reads_def fuel_def)
  next
    case False
    then show ?thesis using reads_expr [OF ok] by (simp add: reads_def fuel_def)
  qed
  moreover have "Peek (show_expr e @ r') = Inr (hd (show_expr e @ r'))" using show_expr_hd [of e] by (intro Peek_hd) simp
  ultimately have "ParseSelectItem (show_expr e @ r') =
    bindR (MatchKw ''AS'' r') (\<lambda>(ok, ts2). if ok then bindR (ExpectIdent ts2) (\<lambda>(a, ts3). Inr (\<lparr>item_expr = e, output_alias = a\<rparr>, ts3))
       else Inr (\<lparr>item_expr = e, output_alias = []\<rparr>, ts2))"
    by (simp add: ParseSelectItem_def show_expr_aggregate [OF ok(1)])
  then show ?thesis using assms(2,3) match_hd(1) [of r "''AS''"] by (cases "a = []") (simp_all add: it show_item_def r'_def no_dot_def)
qed

lemma table_reads: "ParseTableRef (show_table t @ r) = Inr (t, r)"
  by (cases t) (simp add: ParseTableRef_def show_table_def)

lemma order_reads:
  assumes "follows S r" and "S \<inter> {''ASC'', ''DESC''} = {}"
  shows "ParseOrderKey (show_order ob @ r) = Inr (ob, r)"
proof -
  have "MatchKw ''ASC'' r = Inr (False, r)" "MatchKw ''DESC'' r = Inr (False, r)" "MatchPunct ''.'' r = Inr (False, r)"
    using assms followsD [OF assms(1)] by (auto intro!: match_hd)
  then show ?thesis by (cases ob) (simp add: ParseOrderKey_def show_order_def)
qed

lemma int_token_value [simp]: "- (2 ^ 63) \<le> i \<Longrightarrow> i < 2 ^ 63 \<Longrightarrow> sint (int_value (int_token i)) = i" "tok_kind (int_token i) = kInteger"
  "int_value (int_token i) = word_of_int i"
  by (simp_all add: int_token_def signed_of_int signed_take_bit_int_eq_self)

lemma limit_reads: "n < 2 ^ 63 \<Longrightarrow> ParseLimit (int_token (int n) # r) = Inr (n, r)"
  using int_token_value(1) [of "int n"] by (simp add: ParseLimit_def unsigned_of_nat take_bit_nat_eq_self)

lemma row_reads: "row_ok vs \<Longrightarrow> ParseRow (show_row vs @ r) = Inr (vs, r)"
  using literals_reads [of vs] by (simp add: ParseRow_def show_row_def row_ok_def)

lemma u16_bounds: "sint (ucast w :: 64 word) = uint (w :: u16)" "ucast (ucast w :: 64 word) = w"
proof -
  have w: "uint w < 2 ^ 16" using uint_bounded [of w] by simp
  moreover have "- (2 ^ 63) \<le> uint w" by (rule order_trans [OF _ uint_ge_0]) simp
  ultimately have "signed_take_bit 63 (uint w) = uint w" by (intro signed_take_bit_int_eq_self) simp_all
  then show "sint (ucast w :: 64 word) = uint w" by (simp add: signed_ucast_eq)
  show "ucast (ucast w :: 64 word) = w" by transfer simp
qed

lemma column_reads: "column_def_ok c \<Longrightarrow> ParseColumnDef (show_column c @ r) = Inr (c, r)"
proof -
  assume c: "column_def_ok c"
  obtain name t n where d: "c = \<lparr>cd_name = name, cd_type = t, cd_varchar_len = n\<rparr>" by (cases c)
  have "uint n \<le> 65535" "n \<noteq> 0 \<Longrightarrow> 0 < uint n" using uint_bounded [of n] by (simp_all add: word_neq_0_conv word_less_def)
  then show ?thesis using c by (cases t) (auto simp: d column_def_ok_def show_column_def ParseColumnDef_def u16_bounds)
qed

lemma end_reads: "ExpectEnd [plain_token kEof []] = Inr ((), [plain_token kEof []])"
  by (simp add: ExpectEnd_def)

lemma follows_eof: "follows {} [plain_token kEof []]"
  by (simp add: follows_def)

text \<open>Comma-separated lists of things that are not confused by what may come after them.\<close>

lemma comma_reads:
  assumes "follows S rest" and "\<And>x r. x \<in> set xs \<Longrightarrow> no_dot r \<Longrightarrow> tok_kind (hd r) = kPunct \<or> follows S r \<Longrightarrow> p (sh x @ r) = Inr (x, r)" and "xs \<noteq> []"
  shows "comma_list p (commas (map sh xs) @ rest) = Inr (xs, rest)"
proof (rule comma_list_reads [OF _ followsD(2,3) [OF assms(1)] assms(3)])
  fix x r
  assume "x \<in> set xs" and r: "r \<noteq> []" "hd r = punct '','' \<or> hd r = hd rest"
  then have "tok_kind (hd r) = kPunct \<or> follows S r" "no_dot r" using assms(1) by (auto simp: follows_def no_dot_def)
  then show "p (sh x @ r) = Inr (x, r)" using assms(2) \<open>x \<in> set xs\<close> by blast
qed

lemma items_reads:
  assumes "list_all item_ok its" and "its \<noteq> []" and "follows {''FROM''} r"
  shows "comma_list ParseSelectItem (commas (map show_item its) @ r) = Inr (its, r)"
  by (rule comma_reads [OF assms(3) _ assms(2)])
    (use assms(1) followsD(6) [of "{''FROM''}" _ "''AS''"] in \<open>fastforce intro: item_reads simp: list_all_iff\<close>)

lemma tables_reads: "tabs \<noteq> [] \<Longrightarrow> follows S r \<Longrightarrow> comma_list ParseTableRef (commas (map show_table tabs) @ r) = Inr (tabs, r)"
  by (rule comma_reads) (simp_all add: table_reads)

lemma refs_reads: "cs \<noteq> [] \<Longrightarrow> list_all ref_ok cs \<Longrightarrow> follows S r \<Longrightarrow> comma_list ParseColumnRef (commas (map show_ref cs) @ r) = Inr (cs, r)"
  by (rule comma_reads) (simp_all add: column_ref_reads list_all_iff)

lemma items_hd:
  assumes "list_all item_ok its" and "its \<noteq> []"
  shows "MatchPunct ''*'' (commas (map show_item its) @ r) = Inr (False, commas (map show_item its) @ r)"
proof -
  obtain it its' where i: "its = it # its'" using assms(2) by (cases its) auto
  define z where "z = concat (map (\<lambda>x. punct '','' # show_item x) its')"
  have "commas (map show_item its) = show_item it @ z" unfolding i commas_Cons z_def ..
  moreover have "expr_ok (item_expr it)" using assms(1) by (simp add: i item_ok_def)
  ultimately show ?thesis using show_not_star [of "item_expr it"] by (intro match_hd) (simp_all add: show_item_def)
qed

abbreviation eof :: Token where
  "eof \<equiv> plain_token kEof []"

lemma ParseSelect_reads:
  assumes "select_ok s"
  shows "ParseSelect (show_select s @ [eof]) = Inr (SelectStmt s, [eof])"
proof -
  define t5 where "t5 = show_clause [kw ''LIMIT''] (\<lambda>n. [int_token (int n)]) (limit_clause s) @ [eof]"
  define t4 where "t4 = show_clause [kw ''ORDER'', kw ''BY''] show_order (order_by_clause s) @ t5"
  define t3 where "t3 = show_clause [kw ''HAVING''] show_expr (having s) @ t4"
  define t2 where "t2 = show_clause [kw ''GROUP'', kw ''BY''] (\<lambda>cs. commas (map show_ref cs)) (if group_by s = [] then None else Some (group_by s)) @ t3"
  define t1 where "t1 = show_clause [kw ''WHERE''] show_expr (where_clause s) @ t2"
  define t0 where "t0 = kw ''FROM'' # commas (map show_table (tables s)) @ t1"
  note ok = assms [unfolded select_ok_def]
  have f5: "follows {''LIMIT''} t5" unfolding t5_def by (rule follows_clause [OF follows_eof])
  have f4: "follows {''ORDER'', ''LIMIT''} t4" unfolding t4_def by (rule follows_clause [OF f5])
  have f3: "follows {''HAVING'', ''ORDER'', ''LIMIT''} t3" unfolding t3_def by (rule follows_clause [OF f4])
  have f2: "follows {''GROUP'', ''HAVING'', ''ORDER'', ''LIMIT''} t2" unfolding t2_def by (rule follows_clause [OF f3])
  have f1: "follows {''WHERE'', ''GROUP'', ''HAVING'', ''ORDER'', ''LIMIT''} t1" unfolding t1_def by (rule follows_clause [OF f2])
  have f0: "follows {''FROM''} t0" by (simp add: follows_def t0_def)
  have c5: "clause ''LIMIT'' ParseLimit t5 = Inr (limit_clause s, [eof])" unfolding t5_def
    by (rule clause_reads [OF _ follows_eof]) (use ok in \<open>auto simp: limit_reads\<close>)
  have c4: "clause ''ORDER'' (after_by ParseOrderKey) t4 = Inr (order_by_clause s, t5)" unfolding t4_def
    by (rule clause_reads [OF _ f5]) (auto simp: after_by_def order_reads [OF f5])
  have c3: "clause ''HAVING'' ParseExpr t3 = Inr (having s, t4)" unfolding t3_def
    by (rule clause_reads [OF _ f4]) (use ok followsD(1,5) [OF f4] in \<open>auto simp: ParseExpr_reads\<close>)
  have c2: "clause ''GROUP'' (after_by (comma_list ParseColumnRef)) t2 = Inr (if group_by s = [] then None else Some (group_by s), t3)" unfolding t2_def
    by (rule clause_reads [OF _ f3]) (use ok in \<open>auto simp: after_by_def refs_reads [OF _ _ f3] split: if_splits\<close>)
  have c1: "clause ''WHERE'' ParseExpr t1 = Inr (where_clause s, t2)" unfolding t1_def
    by (rule clause_reads [OF _ f2]) (use ok followsD(1,5) [OF f2] in \<open>auto simp: ParseExpr_reads\<close>)
  have c0: "comma_list ParseTableRef (commas (map show_table (tables s)) @ t1) = Inr (tables s, t1)"
    using ok by (intro tables_reads [OF _ f1]) simp
  have its: "MatchPunct ''*'' (commas (map show_item (items s)) @ t0) = Inr (False, commas (map show_item (items s)) @ t0)"
    "comma_list ParseSelectItem (commas (map show_item (items s)) @ t0) = Inr (items s, t0)" if "\<not> select_star s"
    using that ok items_hd items_reads [OF _ _ f0] by auto
  have "show_select s @ [eof] = kw ''SELECT'' # (if select_star s then [punct ''*''] else commas (map show_item (items s))) @ t0"
    by (simp add: show_select_def t0_def t1_def t2_def t3_def t4_def t5_def)
  moreover have "ExpectKw ''FROM'' t0 = Inr ((), commas (map show_table (tables s)) @ t1)" by (simp add: t0_def)
  moreover have "(case (if group_by s = [] then None else Some (group_by s)) of None \<Rightarrow> [] | Some cs \<Rightarrow> cs) = group_by s" by simp
  ultimately show ?thesis using its ok
    by (cases "select_star s") (simp_all add: ParseSelect_def c0 c1 c2 c3 c4 c5 end_reads del: option.case if_split)
qed

lemma ParseStatement_reads:
  assumes "statement_ok s"
  shows "ParseStatement (show_statement s @ [eof]) = Inr (s, [eof])"
proof (cases s)
  case (CreateTableStmt name cols)
  have "comma_list ParseColumnDef (commas (map show_column cols) @ punct '')'' # [eof]) = Inr (cols, punct '')'' # [eof])"
    by (rule comma_list_reads) (use assms CreateTableStmt in \<open>auto simp: column_reads list_all_iff\<close>)
  then show ?thesis by (simp add: CreateTableStmt ParseStatement_def ParseCreateTable_def end_reads)
next
  case (InsertStmt name rs)
  have "comma_list ParseRow (commas (map show_row rs) @ [eof]) = Inr (rs, [eof])"
    by (rule comma_reads [OF follows_eof]) (use assms InsertStmt in \<open>auto simp: row_reads list_all_iff\<close>)
  then show ?thesis by (simp add: InsertStmt ParseStatement_def ParseInsert_def end_reads)
next
  case (SelectStmt q)
  have "ParseStatement (show_select q @ [eof]) = ParseSelect (show_select q @ [eof])" by (simp add: ParseStatement_def show_select_def)
  then show ?thesis using assms ParseSelect_reads by (simp add: SelectStmt)
qed (simp_all add: ParseStatement_def ParseDrop_def ParseTruncate_def end_reads)

section \<open>From text to trees\<close>

text \<open>The printed numbers.\<close>

lemma digits_digits: "digits n \<noteq> [] \<and> list_all isdigit (digits n) \<and> foldl (\<lambda>n c. 10 * n + (of_char c - 48)) 0 (digits n) = n"
proof (induction n rule: digits.induct)
  case (1 n)
  have d: "isdigit (char_of (48 + m))" "of_char (char_of (48 + m :: nat) :: char) - 48 = m" if "m < 10" for m :: nat
    using that by (simp_all add: isdigit_def in_codes_def)
  show ?case
  proof (cases "n < 10")
    case True
    then show ?thesis using d by (simp add: digits.simps [of n])
  next
    case False
    have "10 * (n div 10) + n mod 10 = n" by simp
    then show ?thesis using "1.IH" [OF False] False d [of "n mod 10"] by (simp add: digits.simps [of n])
  qed
qed

lemma int_token_text:
  "int_text (string_of_int i) \<and> (take 1 (string_of_int i) = ''-'' \<longleftrightarrow> i < 0) \<and>
    (- (2 ^ 63) \<le> i \<longrightarrow> i < 2 ^ 63 \<longrightarrow> number_token (string_of_int i) False = Inr (int_token i))"
proof -
  obtain c cs where c: "digits (nat \<bar>i\<bar>) = c # cs" using digits_digits [of "nat \<bar>i\<bar>"] by (cases "digits (nat \<bar>i\<bar>)") auto
  then have "c \<noteq> CHR ''-''" using digits_digits [of "nat \<bar>i\<bar>"] digit_class [of c] by auto
  then have s: "split_sign (string_of_int i) = (i < 0, digits (nat \<bar>i\<bar>))" "take 1 (string_of_int i) = ''-'' \<longleftrightarrow> i < 0"
    using c by (auto simp: split_sign_def string_of_int_def)
  have v: "digits_value (digits (nat \<bar>i\<bar>)) = nat \<bar>i\<bar>" using digits_digits by (simp add: digits_value_def)
  have "stoll (string_of_int i) = Inr (word_of_int i)" if "- (2 ^ 63) \<le> i" "i < 2 ^ 63" using that s v by (auto simp: stoll_def Let_def)
  then show ?thesis using s digits_digits by (simp add: int_text_def number_token_def int_token_def)
qed

text \<open>The tokens of a printed tree are tokens of the lexer; an integer with a sign never follows a value.\<close>

lemma tokens_ok_append: "tokens_ok out (xs @ ys) \<longleftrightarrow> tokens_ok out xs \<and> tokens_ok (out @ xs) ys"
  by (induction xs arbitrary: out) simp_all

lemma prev_snoc [simp]: "prev_is_value (out @ [t]) \<longleftrightarrow>
    tok_kind t \<in> {kIdentifier, kInteger, kFloatLit, kString} \<or> (tok_kind t = kPunct \<and> tok_text t = '')'')"
  by (simp add: prev_is_value_def)

lemma token_ok_simps [simp]:
  "token_ok out (kw k) \<longleftrightarrow> IsKeyword k" "token_ok out (ident s) \<longleftrightarrow> name_ok s"
  "token_ok out (punct p) \<longleftrightarrow> p \<in> {''!='', ''<='', ''>='', ''('', '')'', '','', '';'', ''*'', ''='', ''<'', ''>'', ''.'', ''+'', ''-'', ''/''}"
  by (simp_all add: token_ok_def name_ok_def)

lemma known_keywords [simp]:
  "IsKeyword ''SELECT''" "IsKeyword ''FROM''" "IsKeyword ''WHERE''" "IsKeyword ''INSERT''" "IsKeyword ''INTO''" "IsKeyword ''VALUES''"
  "IsKeyword ''CREATE''" "IsKeyword ''TABLE''" "IsKeyword ''DROP''" "IsKeyword ''TRUNCATE''" "IsKeyword ''AND''" "IsKeyword ''OR''"
  "IsKeyword ''NOT''" "IsKeyword ''ORDER''" "IsKeyword ''BY''" "IsKeyword ''DESC''" "IsKeyword ''LIMIT''" "IsKeyword ''GROUP''"
  "IsKeyword ''HAVING''" "IsKeyword ''AS''" "IsKeyword ''IN''" "IsKeyword ''INT''" "IsKeyword ''BIGINT''" "IsKeyword ''FLOAT''"
  "IsKeyword ''VARCHAR''" "IsKeyword ''NULL''" "IsKeyword ''COUNT''" "IsKeyword (agg_name k)"
  by (simp_all add: IsKeyword_def Keywords_def) (cases k; simp)

lemma token_ok_int: "- (2 ^ 63) \<le> i \<Longrightarrow> i < 2 ^ 63 \<Longrightarrow> token_ok out (int_token i) \<longleftrightarrow> (i < 0 \<longrightarrow> \<not> prev_is_value out)"
  using int_token_text [of i] by (auto simp: token_ok_def int_token_def)

lemma token_ok_literal: "literal_ok v \<Longrightarrow> \<not> prev_is_value out \<Longrightarrow> token_ok out (literal_token v)"
proof (cases v)
  case (Int32 i)
  then show "\<not> prev_is_value out \<Longrightarrow> token_ok out (literal_token v)" using sint_bounds(1,2) [of i] by (simp add: token_ok_int)
next
  case (Int64 l)
  then show "\<not> prev_is_value out \<Longrightarrow> token_ok out (literal_token v)" using sint_bounds(3,4) [of l] by (simp add: token_ok_int)
qed (simp_all add: token_ok_def plain_token_def)

lemma tokens_ok_commas:
  "(\<And>x out. x \<in> set xs \<Longrightarrow> \<not> prev_is_value out \<Longrightarrow> tokens_ok out (sh x)) \<Longrightarrow> \<not> prev_is_value out \<Longrightarrow> tokens_ok out (commas (map sh xs))"
proof (induction xs arbitrary: out)
  case (Cons x xs)
  then show ?case by (cases xs) (auto simp: tokens_ok_append simp flip: append_Cons append_assoc)
qed simp

lemma tokens_ok_ref: "ref_ok c \<Longrightarrow> tokens_ok out (show_ref c)"
  by (auto simp: show_ref_def ref_ok_def)

lemma token_ok_op [simp]: "token_ok out (op_token op')" "\<not> prev_is_value (out @ [op_token op'])"
  by (cases op'; simp)+

lemma tokens_ok_literals: "list_all literal_ok vs \<Longrightarrow> \<not> prev_is_value out \<Longrightarrow> tokens_ok out (commas (map (\<lambda>v. [literal_token v]) vs))"
  by (rule tokens_ok_commas) (auto simp: list_all_iff token_ok_literal)

lemma tokens_ok_expr: "expr_ok e \<Longrightarrow> \<not> prev_is_value out \<Longrightarrow> tokens_ok out (show_expr e)"
proof (induction e arbitrary: out)
  case (BinaryExpr op' l r)
  have "\<not> prev_is_value ((out @ punct ''('' # show_expr l) @ [op_token op'])" by (rule token_ok_op(2))
  with BinaryExpr.IH(2) have "tokens_ok (out @ punct ''('' # show_expr l @ [op_token op']) (show_expr r)" using BinaryExpr.prems by simp
  then show ?case using BinaryExpr.IH(1) [of "out @ [punct ''('']"] BinaryExpr.prems by (simp add: tokens_ok_append)
next
  case (NotExpr e)
  have "\<not> prev_is_value ((out @ [punct ''('']) @ [kw ''NOT''])" by (subst prev_snoc) simp
  then show ?case using NotExpr.IH [of "out @ [punct ''('', kw ''NOT'']"] NotExpr.prems by (simp add: tokens_ok_append)
next
  case (InExpr c vs)
  have "\<not> prev_is_value ((out @ punct ''('' # show_expr c @ [kw ''IN'']) @ [punct ''(''])" by (subst prev_snoc) simp
  then show ?case using InExpr.IH [of "out @ [punct ''('']"] InExpr.prems tokens_ok_literals by (simp add: tokens_ok_append)
next
  case (AggregateExpr k a)
  have "\<not> prev_is_value ((out @ [kw (agg_name k)]) @ [punct ''(''])" by (subst prev_snoc) simp
  then show ?case using AggregateExpr by (cases a) (auto simp: tokens_ok_append)
qed (simp_all add: tokens_ok_ref token_ok_literal)

lemma tokens_ok_item: "item_ok it \<Longrightarrow> \<not> prev_is_value out \<Longrightarrow> tokens_ok out (show_item it)"
  by (auto simp: item_ok_def show_item_def tokens_ok_append tokens_ok_expr)

lemma tokens_ok_clause:
  "(\<And>y out. x = Some y \<Longrightarrow> \<not> prev_is_value out \<Longrightarrow> tokens_ok out (sh y)) \<Longrightarrow> IsKeyword k \<Longrightarrow> tokens_ok out (show_clause [kw k] sh x)"
  "(\<And>y out. x = Some y \<Longrightarrow> \<not> prev_is_value out \<Longrightarrow> tokens_ok out (sh y)) \<Longrightarrow> IsKeyword k \<Longrightarrow> tokens_ok out (show_clause [kw k, kw ''BY''] sh x)"
proof -
  have "\<not> prev_is_value ((out @ [kw k]) @ [kw ''BY''])" by (subst prev_snoc) simp
  then show "(\<And>y out. x = Some y \<Longrightarrow> \<not> prev_is_value out \<Longrightarrow> tokens_ok out (sh y)) \<Longrightarrow> IsKeyword k \<Longrightarrow> tokens_ok out (show_clause [kw k, kw ''BY''] sh x)"
    by (cases x) (simp_all add: show_clause_def)
qed (cases x; simp add: show_clause_def)

lemma tokens_ok_select:
  assumes "select_ok s"
  shows "tokens_ok out (show_select s)"
proof -
  note ok = assms [unfolded select_ok_def]
  have its: "tokens_ok out (commas (map show_item (items s)))" if "\<not> prev_is_value out" for out
    by (rule tokens_ok_commas [OF _ that]) (use ok in \<open>auto simp: list_all_iff tokens_ok_item\<close>)
  have tabs: "tokens_ok out (commas (map show_table (tables s)))" if "\<not> prev_is_value out" for out
    by (rule tokens_ok_commas [OF _ that]) (use ok in \<open>auto simp: list_all_iff table_ok_def show_table_def\<close>)
  have wh: "tokens_ok out (show_clause [kw ''WHERE''] show_expr (where_clause s))" for out
    by (rule tokens_ok_clause) (use ok in \<open>auto simp: tokens_ok_expr\<close>)
  have gb: "tokens_ok out (show_clause [kw ''GROUP'', kw ''BY''] (\<lambda>cs. commas (map show_ref cs)) (if group_by s = [] then None else Some (group_by s)))" for out
    by (rule tokens_ok_clause) (use ok in \<open>auto simp: list_all_iff tokens_ok_ref intro!: tokens_ok_commas split: if_splits\<close>)
  have hv: "tokens_ok out (show_clause [kw ''HAVING''] show_expr (having s))" for out
    by (rule tokens_ok_clause) (use ok in \<open>auto simp: tokens_ok_expr\<close>)
  have ob: "tokens_ok out (show_clause [kw ''ORDER'', kw ''BY''] show_order (order_by_clause s))" for out
    by (rule tokens_ok_clause) (use ok in \<open>auto simp: show_order_def\<close>)
  have lim: "tokens_ok out (show_clause [kw ''LIMIT''] (\<lambda>n. [int_token (int n)]) (limit_clause s))" for out
    by (rule tokens_ok_clause) (use ok in \<open>auto simp: token_ok_int\<close>)
  have from': "\<not> prev_is_value (xs @ [kw ''FROM''])" for xs by simp
  show ?thesis
    using tabs [OF from', of "out @ kw ''SELECT'' # (if select_star s then [punct ''*''] else commas (map show_item (items s)))"] its
    by (simp add: show_select_def tokens_ok_append wh gb hv ob lim)
qed

lemma tokens_ok_column: "column_def_ok c \<Longrightarrow> tokens_ok out (show_column c)"
proof -
  have "uint n < 2 ^ 63" "- (2 ^ 63) \<le> uint n" "0 \<le> uint n" for n :: u16
    using uint_bounded [of n] by (simp_all add: order_trans [OF _ uint_ge_0])
  then show "column_def_ok c \<Longrightarrow> tokens_ok out (show_column c)"
    by (cases "cd_type c") (auto simp: show_column_def column_def_ok_def token_ok_int)
qed

lemma tokens_ok_statement: "statement_ok s \<Longrightarrow> tokens_ok [] (show_statement s)"
proof (cases s)
  case (CreateTableStmt name cols)
  have "tokens_ok out (commas (map show_column cols))" if "statement_ok s" "\<not> prev_is_value out" for out
    by (rule tokens_ok_commas [OF _ that(2)]) (use that(1) CreateTableStmt in \<open>auto simp: list_all_iff tokens_ok_column\<close>)
  then show "statement_ok s \<Longrightarrow> tokens_ok [] (show_statement s)" using CreateTableStmt by (simp add: tokens_ok_append prev_is_value_def)
next
  case (InsertStmt name rs)
  have row: "tokens_ok out (show_row vs)" if "row_ok vs" for out vs
    using that tokens_ok_literals by (auto simp: show_row_def row_ok_def tokens_ok_append)
  have "tokens_ok out (commas (map show_row rs))" if "statement_ok s" "\<not> prev_is_value out" for out
    by (rule tokens_ok_commas [OF _ that(2)]) (use that(1) InsertStmt row in \<open>auto simp: list_all_iff\<close>)
  then show "statement_ok s \<Longrightarrow> tokens_ok [] (show_statement s)" using InsertStmt by (simp add: prev_is_value_def)
qed (simp_all add: tokens_ok_select)


definition sample_statement :: Statement where
  "sample_statement = SelectStmt
     \<lparr>select_star = False,
      items = [\<lparr>item_expr = ColumnRefExpr (''t'', ''a''), output_alias = ''x''\<rparr>, \<lparr>item_expr = AggregateExpr kSum (Some (BinaryExpr kMul (ColumnRefExpr ([], ''b'')) (LiteralExpr (Int32 (-2))))), output_alias = []\<rparr>],
      tables = [\<lparr>tr_name = ''t'', tr_alias = ''u''\<rparr>], where_clause = Some (NotExpr (InExpr (ColumnRefExpr ([], ''c'')) [Str [quote], Null])),
      group_by = [([], ''a'')], having = None, order_by_clause = Some \<lparr>ob_output_name = ''x'', descending = True\<rparr>, limit_clause = Some 10\<rparr>"


end
