(* ===== verification/Spec2Isabelle.thy ===== *)
theory Spec2Isabelle
  imports Database_Joins Failed_Inserts Printer
begin

text \<open>
  LiteOLAP: an embedded, column-oriented, vectorised analytical database in C++17. This library
  models the whole engine, from the bytes of the file to the result of a SQL statement, and proves
  that a session returns what its statements mean.

  \<^bold>\<open>The program.\<close> A statement is tokenised and parsed (\<open>sql/\<close>); \<open>db.cpp\<close> executes it. Inserted rows
  wait in column-wise buffers and are written in row groups of 100000 rows: each column of a row
  group is cut into chunks of 2048 values, each chunk encoded plainly, by run lengths, by a
  dictionary or by bit packing (\<open>compression/\<close>), and the chunks, each behind a header with a zone map,
  form one byte stream (\<open>column/\<close>) over a chain of 4 KiB pages (\<open>storage/paged_stream\<close>). Pages are read
  and written through a pool of frames (\<open>storage/buffer_pool\<close>) over the file (\<open>storage/disk_manager\<close>).
  The catalog of tables, schemas and row groups (\<open>catalog/\<close>) has a chain of pages of its own that
  starts at page 0 and bypasses the pool. A query is planned (\<open>planner/\<close>) into a tree of pull-based
  operators (\<open>execution/\<close>) that exchange batches of vectors (\<open>vector/\<close>).

  \<^bold>\<open>Conventions.\<close> A fallible operation returns \<open>error + 'a\<close>: one constructor of \<open>error\<close> per exception class
  of the sources, \<open>BadVariantAccess\<close> for \<open>std::get\<close> on the wrong alternative, \<open>Terminate\<close> for an
  exception that leaves a thread, and \<open>Undefined\<close> for undefined behaviour (an index out of range, an
  overflow of a signed integer, a null pointer), so that a result \<open>Inr\<close> also says that there was
  none. An operation that changes state returns the state it leaves, also when it throws. A loop that
  may run forever is a partial function into \<open>option\<close>; a theorem that says \<open>= Some\<close> proves that it ends.
  Integers are words of their C++ width, a \<open>double\<close> is its 64 bits, a string is a list of bytes as
  characters. \<open>std::map\<close> is a list of pairs sorted by key.

  \<^bold>\<open>Theories and the code they model.\<close>

  \<^item> \<open>Prelude\<close>: results, loops that may throw (\<open>foldR\<close>, \<open>mapR\<close>), byte buffers, object representations
    (\<open>PutPod\<close>, \<open>GetPod\<close>), the interface \<open>codec\<close>.
  \<^item> \<open>Double\<close>: IEEE-754 order, arithmetic by rounding, conversion from integers. \<open>Values\<close>:
    \<open>common/value\<close> (\<open>Value\<close>, \<open>CompareValues\<close>, \<open>ValueToString\<close>).
  \<^item> \<open>Disk\<close>: \<open>storage/page.h\<close> and \<open>storage/disk_manager\<close>; the file is a list of bytes. Interface
    \<open>page_device\<close>.
  \<^item> \<open>Buffer_Pool\<close>: \<open>storage/buffer_pool\<close>: fast and slow path of \<open>FetchPage\<close>, eviction, pins, flushing.
    The critical sections are the steps of \<open>pool_step\<close>, which threads take in any order. Interface
    \<open>page_store\<close>: what the layers above use of the pool.
  \<^item> \<open>Paged_Stream\<close>: \<open>storage/paged_stream\<close>: writer and reader of a chain of pages. Interface
    \<open>byte_stream\<close>.
  \<^item> \<open>Vector\<close>: \<open>vector/vector\<close>, \<open>vector/data_chunk\<close>: packed values, offsets and validity. Interface
    \<open>value_sequence\<close>.
  \<^item> \<open>Bit_Packing\<close> and \<open>Encoding\<close>: \<open>compression/encoding\<close>: validity bitmaps, the bit packer, the four
    encodings, zone maps and the choice of an encoding. Interfaces \<open>bit_packer\<close>, \<open>dict_key\<close>,
    \<open>chunk_codec\<close>.
  \<^item> \<open>Column\<close>: \<open>column/column_chunk\<close>, \<open>column/column_writer\<close>, \<open>column/column_reader\<close>.
  \<^item> \<open>Schemas\<close> and \<open>Catalogs\<close>: \<open>catalog/schema\<close>, \<open>catalog/catalog\<close>, their stored form and \<open>Load\<close> and
    \<open>Persist\<close> on the chain of catalog pages. Interface \<open>ordered_map\<close>.
  \<^item> \<open>Expressions\<close>: \<open>execution/expression\<close>: row evaluator and vectorised predicate with its typed fast
    path. \<open>Operators\<close>: \<open>filter\<close>, \<open>projection\<close>, \<open>limit\<close>, \<open>order_by\<close>. \<open>Hash_Join\<close>, \<open>Hash_Aggregate\<close>,
    \<open>Column_Scan\<close>: the operators of these names. An operator is a record of \<open>Open\<close>, \<open>Next\<close> and
    \<open>Close\<close>; \<open>yields\<close> is the relation between its state and the rows it will still return.
  \<^item> \<open>Ast\<close>, \<open>Lexer\<close>, \<open>Parser\<close>: \<open>sql/ast.h\<close>, \<open>sql/lexer\<close>, \<open>sql/parser\<close>. \<open>Printer\<close> prints trees and
    texts for the round trip; it models no code.
  \<^item> \<open>Plans\<close>: trees of operators and their execution. \<open>Planner\<close>: \<open>planner/planner.cpp\<close>: name resolution,
    binding, needed columns, zone pushdown, the join, aggregates, \<open>PlanSelect\<close>.
  \<^item> \<open>Database\<close>: \<open>db.h\<close>, \<open>db.cpp\<close>: \<open>DB_Open\<close>, \<open>FlushTable\<close>, \<open>CloseDB\<close>, the statements, \<open>Execute\<close>.

  \<^bold>\<open>What is shown.\<close>

  \<^item> Storage. The pool shows a client the pages it would see without a cache, eviction writes dirty
    pages back, the invariant survives any interleaving of critical sections, flushing makes the file
    agree with the pool. Streams, columns, encodings, bit packing, vectors and the catalog read back
    what was written; pruning by zone maps loses no value in range.
  \<^item> Execution. Each operator produces exactly the rows of a plain reference on lists, for all batch
    sizes, and every call returns. The fast path of predicates agrees with the row evaluator.
  \<^item> Front end. \<open>Parse\<close> always ends, in a tree or a \<open>runtime_error\<close>, and never reads past the
    tokens; printed trees and spelled tokens are read back.
  \<^item> Queries (\<open>Queries\<close>, \<open>Query_Results\<close>, \<open>Group_Queries\<close>, \<open>Join_Queries\<close>). The plan of \<open>PlanSelect\<close>
    against a reference that knows nothing of needed columns, pushdown, batches or hash tables:
    \<open>query_rows\<close> for plain queries over one table or over the pairs of two, \<open>group_result\<close> for
    aggregates, \<open>HAVING\<close> and \<open>GROUP BY\<close>.
  \<^item> The database (\<open>Reserved_Pages\<close>, \<open>Flushing\<close>, \<open>Database_Contents\<close>, \<open>Database_Updates\<close>,
    \<open>Query_State\<close>, \<open>Database_Queries\<close>, \<open>Database_Joins\<close>). \<open>db_rep\<close> relates the state to a map from
    table names to a schema and rows. Every statement, closing and opening refine the operations on
    that map; \<open>session\<close> is the relation of the states a sequence of them can reach, and the theorems
    on \<open>SELECT\<close> hold in all of them.
  \<^item> Errors. What a failed write-back, a bad page id, a forced encoding, a long table name, a key
    collision, a reversed join predicate and a rejected \<open>INSERT\<close> (\<open>Failed_Inserts\<close>) do, as the code
    does it, faults included.

  \<^bold>\<open>Bounds, fuel and schedules.\<close> Page ids have 32 bits, so operations that allocate pages assume room for
  them (\<open>page_budget\<close>, \<open>flush_room\<close>, \<open>catalog_room\<close>); \<open>flush_growth\<close> bounds what a flush takes. The
  recursive descent runs on fuel \<open>9 * n + 9\<close> for \<open>n\<close> tokens, since at most nine calls are nested
  between two tokens that are consumed; \<open>Parse_total\<close> shows that it never runs out. The order in which
  the worker threads of a scan take turns is a list of row-group numbers, an argument of the model;
  \<open>fair\<close> asks for as many turns per row group as it has chunks, and three to open it, see its end and
  for a chunk that is not full. The division of batches among the workers of an aggregation is another
  argument, any \<open>valid_schedule\<close>; results hold for all of them, and the order of groups is left open
  where it depends on it.

  \<^bold>\<open>Not modelled.\<close> The timing program in \<open>bench/\<close> and the tests. The operating system: opening a file
  by name, flushing a stream, memory and stack depth. A column type in a stored schema that is none of
  the four ends loading with \<open>Unmodelled\<close>. The scans of a join read through a copy of the
  pool each, and the left one's is kept: copies differ in what is cached, never in what the pages
  hold. When a query throws, the pool is the one before it. A critical section under the pool's
  mutex is one step. The theorems on aggregates leave out \<open>AVG\<close> and \<open>SUM\<close> over \<open>DOUBLE\<close>, whose results
  depend on the order of the additions; those on joins ask for key columns of one type other than
  \<open>DOUBLE\<close>, since the join compares bytes, and for a predicate in the order of \<open>FROM\<close>; the printed
  statements of the parser's round trip have no \<open>DOUBLE\<close> literals.
\<close>

section \<open>Columns survive a restart\<close>

text \<open>The file left by a flushed pool, opened again.\<close>

lemma reopen:
  assumes "disk_inv d" and "0 < num_pages d" and "io_ok d" and "0 < n"
  obtains bp where "DiskManager (fbytes d) True = Inr d" "BufferPool d n = Inr bp" "store_inv bp"
    "pages bp = num_pages d" "num_frames bp = n" "pins bp = (\<lambda>_. 0)" "view bp = disk_page d"
proof -
  have len: "length (fbytes d) = num_pages d * kPageSize" using assms(1) by (simp add: disk_inv_def)
  then have d: "DiskManager (fbytes d) True = Inr d"
    using assms(2,3) by (cases d) (auto simp: DiskManager_def Let_def kPageSize_def)
  let ?bp = "\<lparr>disk_manager = d, num_frames = n, frames = replicate n empty_frame,
        page_table = Map.empty, lru = [], lru_pos = {}, free_list = [0..<n]\<rparr>"
  have b: "BufferPool d n = Inr ?bp" using assms(4) by (simp add: BufferPool_def)
  have "store_inv ?bp" using pool_inv_BufferPool [OF assms(1) b] assms(3) by (simp add: store_inv_def)
  then show thesis using that [OF d b] by (simp add: pins_def view_def fun_eq_iff)
qed

text \<open>C7. A column that was written and flushed is still there after the process ends: reopening
  the file with a new disk manager and a new, empty buffer pool of any size from two frames
  on, the reader returns exactly the values that were written.\<close>

theorem column_survives_restart:
  assumes "stream_ready bp" and "\<And>q. pins bp q = 0" and "column_ok t vs" and "page_budget bp (length (column_bytes t vs))" and "2 \<le> n"
  shows "\<exists>pid bp1 w bp2 d bp3 bp4 r out bp5 r5. write_column bp t vs = (Inr pid, bp1, w) \<and> FlushAll bp1 = (Inr (), bp2) \<and>
    DiskManager (fbytes (disk_manager bp2)) True = Inr d \<and> BufferPool d n = Inr bp3 \<and> ColumnReader bp3 pid t = (Inr (), bp4, r) \<and>
    read_chunks (Suc (length (split_chunks vs))) (\<lambda>_. True) bp4 r (Vector t) = (Inr out, bp5, r5) \<and> vec_rep out vs"
proof -
  obtain pid bp1 w where w: "write_column bp t vs = (Inr pid, bp1, w)" "stream_added bp bp1 pid (column_bytes t vs)"
    using write_column_ok [OF assms(1,3,4)] by blast
  have s1: "pool_inv bp1" "io_ok (disk_manager bp1)" and p1: "pins bp1 q = 0" for q
    using w(2) assms(2) by (simp_all add: stream_added_def store_inv_def)
  have st: "stream_at (view bp1) (pages bp1) pid (column_bytes t vs)" using bs.added_stored [OF w(2)] .
  obtain bp2 where f: "FlushAll bp1 = (Inr (), bp2)" "pool_inv bp2" "keeps_pages bp1 bp2"
    "\<forall>q. unat q < pages bp1 \<longrightarrow> pins bp1 q = 0 \<longrightarrow> disk_page (disk_manager bp2) q = view bp1 q"
    using FlushAll_effect [OF s1] by blast
  let ?d = "disk_manager bp2"
  have np: "num_pages ?d = pages bp1" "io_ok ?d" using f(3) s1 by (auto simp: keeps_pages_def)
  have "unat pid < num_pages ?d" using st np by (simp add: stream_at_def)
  then have pos: "0 < num_pages ?d" by simp
  show ?thesis
  proof (rule reopen [OF pool_okD(1) [OF f(2)] pos np(2), of n])
    fix bp3
    assume b: "DiskManager (fbytes ?d) True = Inr ?d" "BufferPool ?d n = Inr bp3" "store_inv bp3"
      "pages bp3 = num_pages ?d" "num_frames bp3 = n" "pins bp3 = (\<lambda>_. 0)" "view bp3 = disk_page ?d"
    have "stream_at (view bp3) (pages bp3) pid (column_bytes t vs)"
      by (rule stream_at_cong [OF st]) (use f(4) p1 b(4,7) np in auto)
    moreover have "stream_ready bp3" using b(3,5,6) assms(5) by simp
    ultimately show ?thesis
      using read_column_ok [OF _ assms(3), of bp3 pid "\<lambda>_. True"] w(1) f(1) b(1,2) by (auto simp: concat_split_chunks)
  qed (use assms(5) in simp)
qed

theorem column_survives_restart_witness:
  "\<exists>pid bp1 w bp2 d bp3 bp4 r out bp5 r5. write_column sample_pool kInt [Int32 4, Null, Int32 9] = (Inr pid, bp1, w) \<and>
    FlushAll bp1 = (Inr (), bp2) \<and> DiskManager (fbytes (disk_manager bp2)) True = Inr d \<and> BufferPool d 2 = Inr bp3 \<and>
    ColumnReader bp3 pid kInt = (Inr (), bp4, r) \<and>
    read_chunks (Suc (length (split_chunks [Int32 4, Null, Int32 9]))) (\<lambda>_. True) bp4 r (Vector kInt) = (Inr out, bp5, r5) \<and>
    vec_rep out [Int32 4, Null, Int32 9]"
  by (rule column_survives_restart [OF sample_ready(1) sample_pool(7) sample_column]) simp

end
